(* ===== verification/OT_Prelude.thy ===== *)
theory OT_Prelude
  imports Main "HOL-Library.Word" "HOL-Library.Char_ord" "HOL-Library.List_Lexorder"
begin

text \<open>
  Shared vocabulary of the development: machine integers as words, the C++ \<open>char\<close> seen as
  a byte and as a signed value, the \<^verbatim>\<open>ctype.h\<close> predicates the sources call (C locale), and
  the generic lemmas on lists and words the component theories use.
\<close>

section \<open>Collections of facts\<close>

named_theorems ctype_defs \<open>definitions of the character classes\<close>

section \<open>Machine integers and bytes\<close>

type_synonym byte = "8 word"
type_synonym u16 = "16 word"
type_synonym u32 = "32 word"
type_synonym u64 = "64 word"

definition byte_of_char :: "char \<Rightarrow> byte" where
  "byte_of_char c = word_of_nat (of_char c)"

definition char_of_byte :: "byte \<Rightarrow> char" where
  "char_of_byte b = char_of (unat b)"

text \<open>A plain \<open>char\<close> is signed on the platforms the library targets.\<close>

definition schar :: "char \<Rightarrow> int" where
  "schar c = (let n = (of_char c :: nat) in if n < 128 then int n else int n - 256)"

definition char_between :: "char \<Rightarrow> char \<Rightarrow> char \<Rightarrow> bool" where
  "char_between lo hi c \<longleftrightarrow> schar lo \<le> schar c \<and> schar c \<le> schar hi"

lemma unat_byte_less: "unat (b :: byte) < 256"
  using unsigned_less [where ?'a = nat, of b] by simp

lemma unat_u16_less: "unat (n :: u16) < 65536"
  using unsigned_less [where ?'a = nat, of n] by simp

lemma unat_u32_less: "unat (n :: u32) < 4294967296"
  using unsigned_less [where ?'a = nat, of n] by simp

lemma unat_u64_less: "unat (n :: u64) < 18446744073709551616"
  using unsigned_less [where ?'a = nat, of n] by simp

lemma char_of_byte_of_char [simp]: "char_of_byte (byte_of_char c) = c"
  by (simp add: char_of_byte_def byte_of_char_def unat_of_nat)

lemma byte_of_char_of_byte [simp]: "byte_of_char (char_of_byte b) = b"
proof -
  have "unat b < 256" by (rule unat_byte_less)
  then show ?thesis by (simp add: char_of_byte_def byte_of_char_def)
qed

lemma map_char_of_byte_inverse [simp]:
  "map char_of_byte (map byte_of_char s) = s" "map byte_of_char (map char_of_byte bs) = bs"
  by (simp_all add: comp_def)

lemma inj_byte_of_char: "inj byte_of_char"
  by (metis injI char_of_byte_of_char)

text \<open>Between two ASCII characters the signed comparison is the comparison of codes.\<close>

lemma char_between_ascii [ctype_defs]:
  "(of_char lo :: nat) < 128 \<Longrightarrow> (of_char hi :: nat) < 128 \<Longrightarrow>
   char_between lo hi c \<longleftrightarrow> (of_char lo :: nat) \<le> of_char c \<and> (of_char c :: nat) \<le> of_char hi"
proof -
  define x where "x = (of_char c :: nat)"
  have "x < 256" by (simp add: x_def)
  then show "(of_char lo :: nat) < 128 \<Longrightarrow> (of_char hi :: nat) < 128 \<Longrightarrow> ?thesis"
    unfolding char_between_def schar_def Let_def x_def [symmetric] by auto
qed

text \<open>Character tables written as at most three runs of consecutive codes.\<close>

lemma nth_code_ranges:
  assumes "map of_char s = [a..<a'] @ [b..<b'] @ [c..<c' :: nat]" and "k < length s"
  shows "(of_char (s ! k) :: nat) =
     (if k < a' - a then a + k
      else if k < (a' - a) + (b' - b) then b + (k - (a' - a))
      else c + (k - ((a' - a) + (b' - b))))"
proof -
  have "length s = length ([a..<a'] @ [b..<b'] @ [c..<c'])"
    using arg_cong [OF assms(1), of length] by simp
  with assms(2) have len: "k < (a' - a) + (b' - b) + (c' - c)" by simp
  have *: "(of_char (s ! k) :: nat) = ([a..<a'] @ [b..<b'] @ [c..<c']) ! k"
    using assms by (metis nth_map)
  show ?thesis
  proof (cases "k < (a' - a) + (b' - b)")
    case True
    show ?thesis
    proof (cases "k < a' - a")
      case False
      with * have "(of_char (s ! k) :: nat) = ([b..<b'] @ [c..<c']) ! (k - (a' - a))"
        by (simp only: nth_append length_upt if_False)
      moreover have "k - (a' - a) < b' - b" using True False by simp
      ultimately have "(of_char (s ! k) :: nat) = [b..<b'] ! (k - (a' - a))"
        by (simp only: nth_append length_upt if_True)
      moreover have "[b..<b'] ! (k - (a' - a)) = b + (k - (a' - a))"
        using True False by (intro nth_upt) simp
      ultimately show ?thesis using True False by (simp only: if_True if_False)
    qed (use * in \<open>simp add: nth_append\<close>)
  next
    case False
    then have "\<not> k < a' - a" "\<not> k - (a' - a) < b' - b" by simp_all
    with * have "(of_char (s ! k) :: nat) = [c..<c'] ! (k - (a' - a) - (b' - b))"
      by (simp only: nth_append length_upt if_False)
    with False len show ?thesis by (simp add: nth_upt)
  qed
qed

section \<open>Character classes of the C locale\<close>

definition isspace :: "char \<Rightarrow> bool" where
  [ctype_defs]: "isspace c \<longleftrightarrow> c = CHR '' '' \<or> (9 \<le> (of_char c :: nat) \<and> (of_char c :: nat) \<le> 13)"

definition isdigit :: "char \<Rightarrow> bool" where
  [ctype_defs]: "isdigit c \<longleftrightarrow> char_between CHR ''0'' CHR ''9'' c"

definition isalpha :: "char \<Rightarrow> bool" where
  [ctype_defs]: "isalpha c \<longleftrightarrow>
     char_between CHR ''A'' CHR ''Z'' c \<or> char_between CHR ''a'' CHR ''z'' c"

definition c_tolower :: "char \<Rightarrow> char" where
  [ctype_defs]: "c_tolower c =
     (if char_between CHR ''A'' CHR ''Z'' c then char_of ((of_char c :: nat) + 32) else c)"

definition c_toupper :: "char \<Rightarrow> char" where
  [ctype_defs]: "c_toupper c =
     (if char_between CHR ''a'' CHR ''z'' c then char_of ((of_char c :: nat) - 32) else c)"

end
