(* ===== verification/Radix.thy ===== *)
theory Radix
  imports OT_Prelude
begin

text \<open>
  The number-to-text codecs \<^verbatim>\<open>Base36\<close> (libs/text/base36.cc) and \<^verbatim>\<open>Base16Alpha\<close>
  (libs/text/base16alpha.cc). Both peel digits off a 64-bit integer from the low end, prepending
  characters of an alphabet, and read them back by Horner's rule modulo \<open>2\<^sup>6\<^sup>4\<close>. What the two
  have in common is the locale \<open>radix_codec\<close>; each codec is an interpretation of it.
\<close>

section \<open>Base36\<close>

definition base36_alphabet :: string where
  "base36_alphabet = ''0123456789abcdefghijklmnopqrstuvwxyz''"

function base36_encode_loop :: "u64 \<Rightarrow> string \<Rightarrow> string" where
  "base36_encode_loop n base36 =
     (if n = 0 then base36
      else base36_encode_loop (n div 36) (base36_alphabet ! unat (n mod 36) # base36))"
  by pat_completeness auto
termination
proof (relation "measure (\<lambda>(n, s). unat n)")
  fix n :: u64 and s :: string
  assume "n \<noteq> 0"
  then show "((n div 36, base36_alphabet ! unat (n mod 36) # s), (n, s)) \<in> measure (\<lambda>(n, s). unat n)"
    by (simp add: unat_div unat_gt_0)
qed simp

definition base36_encode :: "u64 \<Rightarrow> string" where
  "base36_encode n = (if n = 0 then ''0'' else base36_encode_loop n [])"

definition base36_digit :: "char \<Rightarrow> nat option" where
  "base36_digit c =
     (if char_between CHR ''A'' CHR ''Z'' c then Some (10 + of_char c - of_char CHR ''A'')
      else if char_between CHR ''a'' CHR ''z'' c then Some (10 + of_char c - of_char CHR ''a'')
      else if char_between CHR ''0'' CHR ''9'' c then Some (of_char c - of_char CHR ''0'')
      else None)"

fun base36_decode_loop :: "string \<Rightarrow> u64 \<Rightarrow> u64 option" where
  "base36_decode_loop [] n = Some n"
| "base36_decode_loop (c # s) n =
     (case base36_digit c of
        None \<Rightarrow> None
      | Some cn \<Rightarrow> base36_decode_loop s (n * 36 + of_nat cn))"

definition base36_decode :: "string \<Rightarrow> u64 option" where
  "base36_decode s = (if s = [] then None else base36_decode_loop s 0)"

section \<open>Base16Alpha\<close>

definition base16_alphabet :: string where
  "base16_alphabet = ''bcdghjklmpqrsvwz''"

definition base16_reverse :: "int list" where
  "base16_reverse =
     [ -1, 0, 1, 2, -1, -1, 3,
       4, -1, 5, 6, 7,
       8, -1, -1, 9, 10, 11,
       12, -1, -1, 13, 14, -1, -1, 15 ]"

function base16_encode_loop :: "u64 \<Rightarrow> string \<Rightarrow> string" where
  "base16_encode_loop n base16 =
     (if n = 0 then base16
      else base16_encode_loop (n div 16) (base16_alphabet ! unat (n mod 16) # base16))"
  by pat_completeness auto
termination
proof (relation "measure (\<lambda>(n, s). unat n)")
  fix n :: u64 and s :: string
  assume "n \<noteq> 0"
  then show "((n div 16, base16_alphabet ! unat (n mod 16) # s), (n, s)) \<in> measure (\<lambda>(n, s). unat n)"
    by (simp add: unat_div unat_gt_0)
qed simp

definition base16_encode :: "u64 \<Rightarrow> string" where
  "base16_encode n = (if n = 0 then ''b'' else base16_encode_loop n [])"

definition base16_digit :: "char \<Rightarrow> nat option" where
  "base16_digit c =
     (let dn = (if char_between CHR ''A'' CHR ''Z'' c
                then Some (base16_reverse ! (of_char c - of_char CHR ''A''))
                else if char_between CHR ''a'' CHR ''z'' c
                then Some (base16_reverse ! (of_char c - of_char CHR ''a''))
                else None)
      in case dn of None \<Rightarrow> None | Some d \<Rightarrow> if d < 0 then None else Some (nat d))"

fun base16_decode_loop :: "string \<Rightarrow> u64 \<Rightarrow> u64 option" where
  "base16_decode_loop [] n = Some n"
| "base16_decode_loop (c # s) n =
     (case base16_digit c of
        None \<Rightarrow> None
      | Some dn \<Rightarrow> base16_decode_loop s (n * 16 + of_nat dn))"

definition base16_decode :: "string \<Rightarrow> u64 option" where
  "base16_decode s = (if s = [] then None else base16_decode_loop s 0)"

declare base36_encode_loop.simps [simp del] base16_encode_loop.simps [simp del]

section \<open>What the codecs share\<close>

text \<open>Horner's rule over the digit values, in unbounded arithmetic.\<close>

fun horner :: "nat \<Rightarrow> nat list \<Rightarrow> nat \<Rightarrow> nat" where
  "horner b [] n = n"
| "horner b (d # ds) n = horner b ds (n * b + d)"

locale radix_codec =
  fixes base :: nat
    and enc_digit :: "nat \<Rightarrow> char"
    and dec_digit :: "char \<Rightarrow> nat option"
    and enc_loop :: "u64 \<Rightarrow> string \<Rightarrow> string"
    and dec_loop :: "string \<Rightarrow> u64 \<Rightarrow> u64 option"
  assumes base_bounds: "1 < base" "base < 2 ^ 64"
    and enc_loop_unfold: "enc_loop n s =
          (if n = 0 then s
           else enc_loop (n div of_nat base) (enc_digit (unat (n mod of_nat base)) # s))"
    and dec_loop_Nil: "dec_loop [] n = Some n"
    and dec_loop_Cons: "dec_loop (c # s) n =
          (case dec_digit c of None \<Rightarrow> None | Some d \<Rightarrow> dec_loop s (n * of_nat base + of_nat d))"
    and digit_roundtrip: "d < base \<Longrightarrow> dec_digit (enc_digit d) = Some d"
begin

lemma unat_base [simp]: "unat (of_nat base :: u64) = base"
  using base_bounds by (simp add: unat_of_nat)

lemma quotient_less: "n \<noteq> 0 \<Longrightarrow> unat (n div of_nat base :: u64) < unat n"
  using base_bounds by (simp add: unat_div unat_gt_0)

lemma remainder_less: "unat (n mod of_nat base :: u64) < base"
  using base_bounds by (simp add: unat_mod)

lemma divmod_word: "(n div of_nat base) * of_nat base + n mod of_nat base = (n :: u64)"
  by (rule word_mod_div_equality)

text \<open>Reading back what the encoder prepended continues from the number itself.\<close>

lemma decode_encode_loop: "dec_loop (enc_loop n s) 0 = dec_loop s n"
proof (induction "unat n" arbitrary: n s rule: less_induct)
  case less
  show ?case
  proof (cases "n = 0")
    case True
    then show ?thesis by (subst enc_loop_unfold) simp
  next
    case False
    let ?c = "enc_digit (unat (n mod of_nat base))"
    have "dec_loop (enc_loop n s) 0 = dec_loop (enc_loop (n div of_nat base) (?c # s)) 0"
      by (subst enc_loop_unfold) (simp add: False)
    also have "\<dots> = dec_loop (?c # s) (n div of_nat base)"
      by (rule less.hyps) (rule quotient_less [OF False])
    also have "\<dots> = dec_loop s n"
      by (simp add: dec_loop_Cons digit_roundtrip remainder_less divmod_word)
    finally show ?thesis .
  qed
qed

lemma encode_nonempty: "n \<noteq> 0 \<or> s \<noteq> [] \<Longrightarrow> enc_loop n s \<noteq> []"
proof (induction "unat n" arbitrary: n s rule: less_induct)
  case less
  then show ?case
    by (subst enc_loop_unfold) (auto intro: less.hyps quotient_less)
qed

text \<open>The decoder computes Horner's rule modulo the word size, whatever the length.\<close>

lemma decode_horner:
  "dec_loop s (of_nat n) =
     (case those (map dec_digit s) of None \<Rightarrow> None | Some ds \<Rightarrow> Some (of_nat (horner base ds n)))"
proof (induction s arbitrary: n)
  case Nil
  then show ?case by (simp add: dec_loop_Nil)
next
  case (Cons c s)
  show ?case
  proof (cases "dec_digit c")
    case None
    then show ?thesis by (simp add: dec_loop_Cons)
  next
    case (Some d)
    have "dec_loop (c # s) (of_nat n) = dec_loop s (of_nat (n * base + d))"
      by (simp only: dec_loop_Cons Some option.case of_nat_mult of_nat_add)
    also have "\<dots> = (case those (map dec_digit s) of None \<Rightarrow> None
                      | Some ds \<Rightarrow> Some (of_nat (horner base ds (n * base + d))))"
      by (rule Cons.IH)
    finally show ?thesis
      by (cases "those (map dec_digit s)") (simp_all add: Some)
  qed
qed

text \<open>The number of characters: a number below \<open>base ^ k\<close> needs at most \<open>k\<close> of them.\<close>

lemma encode_length: "unat n < base ^ k \<Longrightarrow> length (enc_loop n s) \<le> k + length s"
proof (induction k arbitrary: n s)
  case 0
  then have "n = 0" by (simp add: unat_eq_0)
  then show ?case by (subst enc_loop_unfold) simp
next
  case (Suc k)
  have "unat (n div of_nat base) < base ^ k"
    using Suc.prems base_bounds by (simp add: unat_div less_mult_imp_div_less mult.commute)
  then have "length (enc_loop (n div of_nat base) (c # s)) \<le> k + length (c # s)" for c
    by (rule Suc.IH)
  then show ?case by (subst enc_loop_unfold) simp
qed

end

section \<open>The two codecs as instances\<close>

lemma base36_alphabet_codes: "map of_char base36_alphabet = [48..<58] @ [97..<123] @ [0..<(0 :: nat)]"
  by (simp add: base36_alphabet_def upt_rec)

lemma base36_digit_alphabet:
  assumes "d < 36"
  shows "base36_digit (base36_alphabet ! d) = Some d"
proof -
  have "d < length base36_alphabet" using assms by (simp add: base36_alphabet_def)
  from nth_code_ranges [OF base36_alphabet_codes this] show ?thesis
    using assms by (simp add: base36_digit_def ctype_defs)
qed

lemma base16_digit_alphabet:
  assumes "d < 16"
  shows "base16_digit (base16_alphabet ! d) = Some d"
proof -
  have "\<forall>d \<in> {..<16}. base16_digit (base16_alphabet ! d) = Some d"
    by (simp add: lessThan_nat_numeral lessThan_Suc base16_alphabet_def base16_digit_def ctype_defs
        base16_reverse_def)
  with assms show ?thesis by simp
qed

interpretation b36: radix_codec 36 "\<lambda>d. base36_alphabet ! d" base36_digit
  base36_encode_loop base36_decode_loop
  by unfold_locales
    (simp_all add: base36_digit_alphabet base36_encode_loop.simps [of n s for n s] split: option.split)

interpretation b16: radix_codec 16 "\<lambda>d. base16_alphabet ! d" base16_digit
  base16_encode_loop base16_decode_loop
  by unfold_locales
    (simp_all add: base16_digit_alphabet base16_encode_loop.simps [of n s for n s] split: option.split)

section \<open>Properties\<close>

text \<open>
  Base36 round trip. Every 64-bit number is read back from its own encoding, the special
  case 0 included.
\<close>

theorem base36_roundtrip: "base36_decode (base36_encode n) = Some n"
proof (cases "n = 0")
  case True
  have "base36_decode ''0'' = Some 0" by code_simp
  with True show ?thesis by (simp add: base36_encode_def)
next
  case False
  then show ?thesis
    using b36.decode_encode_loop [of n "[]"] b36.encode_nonempty [of n "[]"]
    by (simp add: base36_encode_def base36_decode_def b36.dec_loop_Nil)
qed

text \<open>
  Base36 decoding accepts exactly the non-empty strings of digits and letters of either
  case, and what it returns is the number they denote modulo \<open>2\<^sup>6\<^sup>4\<close>: over-long inputs wrap
  silently instead of failing.
\<close>

theorem base36_decode_value:
  "base36_decode s =
     (if s = [] then None
      else case those (map base36_digit s) of
             None \<Rightarrow> None
           | Some ds \<Rightarrow> Some (of_nat (horner 36 ds 0)))"
  using b36.decode_horner [of s 0] by (simp add: base36_decode_def)

text \<open>
  Base16Alpha round trip through the vowel-free alphabet, for every 64-bit number.
\<close>

theorem base16_roundtrip: "base16_decode (base16_encode n) = Some n"
proof (cases "n = 0")
  case True
  have "base16_decode ''b'' = Some 0" by code_simp
  with True show ?thesis by (simp add: base16_encode_def)
next
  case False
  then show ?thesis
    using b16.decode_encode_loop [of n "[]"] b16.encode_nonempty [of n "[]"]
    by (simp add: base16_encode_def base16_decode_def b16.dec_loop_Nil)
qed

text \<open>
  The encodings are short: at most 13 characters in base 36 and 16 in base 16, so the
  result always fits the space a 64-bit value needs.
\<close>

theorem radix_encode_length:
  "length (base36_encode n) \<le> 13 \<and> length (base16_encode n) \<le> 16"
proof -
  have "unat n < 36 ^ 13" "unat n < 16 ^ 16"
    using unat_u64_less [of n] by simp_all
  then show ?thesis
    using b36.encode_length [of n 13 "[]"] b16.encode_length [of n 16 "[]"]
    by (simp add: base36_encode_def base16_encode_def)
qed

end
