(* ===== verification/Base64.thy ===== *)
theory Base64
  imports OT_Prelude
begin

unbundle bit_operations_syntax

text \<open>
  The Base64 codec of libs/text/base64.cc (classes \<^verbatim>\<open>Base64\<close> and \<^verbatim>\<open>Base64URL\<close> of
  libs/text/ot-text.h), with configurable padding and 62nd/63rd characters, line splitting on
  output and tolerance of foreign characters on input. The 32-bit accumulator \<open>n\<close> is kept as a
  word; the output block of the decoder is the list of bytes written so far.
\<close>

section \<open>Configuration and character table\<close>

record Base64 =
  b64_pad :: char
  extra_62 :: char
  extra_63 :: char

definition base64_default :: Base64 where
  "base64_default = \<lparr>b64_pad = CHR ''='', extra_62 = CHR ''+'', extra_63 = CHR ''/''\<rparr>"

definition base64_url :: Base64 where
  "base64_url = \<lparr>b64_pad = CHR 0x00, extra_62 = CHR ''-'', extra_63 = CHR ''_''\<rparr>"

definition base64_chars :: string where
  "base64_chars = ''ABCDEFGHIJKLMNOPQRSTUVWXYZabcdefghijklmnopqrstuvwxyz0123456789''"

definition base64_char :: "Base64 \<Rightarrow> nat \<Rightarrow> char" where
  "base64_char cfg k =
     (if k < 62 then base64_chars ! k
      else if k = 62 then extra_62 cfg
      else extra_63 cfg)"

section \<open>Encoding\<close>

text \<open>The inner loop: run out up to 4 six-bit indexes from bits 18 to 23.\<close>

fun base64_emit :: "Base64 \<Rightarrow> nat \<Rightarrow> u32 \<Rightarrow> string" where
  "base64_emit cfg 0 n = []"
| "base64_emit cfg (Suc count) n =
     base64_char cfg (unat (drop_bit 18 n AND 0x3f)) # base64_emit cfg count (push_bit 6 n)"

definition base64_split :: "int \<Rightarrow> string \<Rightarrow> nat \<Rightarrow> string" where
  "base64_split split line_end chars =
     (if split \<noteq> 0 \<and> int chars mod split = 0 then line_end else [])"

function base64_encode_loop ::
  "Base64 \<Rightarrow> byte list \<Rightarrow> int \<Rightarrow> string \<Rightarrow> nat \<Rightarrow> nat \<Rightarrow> u32 \<Rightarrow> nat \<Rightarrow> nat \<Rightarrow> string" where
  "base64_encode_loop cfg block split line_end rlength i n count chars =
     (if i < rlength then
        let n = push_bit 8 n;
            (n, count) = (if i < length block then (n OR ucast (block ! i), count + 1) else (n, count))
        in if i mod 3 = 2
           then base64_emit cfg count n @ base64_split split line_end (chars + count)
                @ base64_encode_loop cfg block split line_end rlength (i + 1) 0 1 (chars + count)
           else base64_encode_loop cfg block split line_end rlength (i + 1) n count chars
      else [])"
  by pat_completeness auto
termination
  by (relation "measure (\<lambda>(cfg, block, split, line_end, rlength, i, n, count, chars). rlength - i)")
    auto

definition base64_encode :: "Base64 \<Rightarrow> byte list \<Rightarrow> int \<Rightarrow> string \<Rightarrow> string" where
  "base64_encode cfg block split line_end =
     (let rlength = 3 * ((length block + 2) div 3)
      in base64_encode_loop cfg block split line_end rlength 0 0 1 0
         @ (if b64_pad cfg \<noteq> CHR 0x00 then replicate (rlength - length block) (b64_pad cfg) else []))"

fun base64_top_bytes :: "nat \<Rightarrow> u64 \<Rightarrow> byte list" where
  "base64_top_bytes 0 n = []"
| "base64_top_bytes (Suc count) n = ucast (drop_bit 56 n) # base64_top_bytes count (push_bit 8 n)"

definition base64_encode_u64 :: "Base64 \<Rightarrow> u64 \<Rightarrow> string" where
  "base64_encode_u64 cfg n =
     (let (count, n) = (if drop_bit 32 n = 0 then (4, push_bit 32 n) else (8, n))
      in base64_encode cfg (base64_top_bytes count n) 0 [CHR 0x0D, CHR 0x0A])"

definition base64_encode_string :: "Base64 \<Rightarrow> string \<Rightarrow> int \<Rightarrow> string \<Rightarrow> string" where
  "base64_encode_string cfg binary split line_end =
     base64_encode cfg (map byte_of_char binary) split line_end"

definition base64url_encode :: "string \<Rightarrow> string" where
  "base64url_encode s = base64_encode_string base64_url s 0 [CHR 0x0D, CHR 0x0A]"

section \<open>Decoding\<close>

definition binary_length :: "string \<Rightarrow> nat" where
  "binary_length s = (length s * 3 + 3) div 4"

datatype base64_class = Sextet nat | Padding | Ignored

definition base64_classify :: "Base64 \<Rightarrow> char \<Rightarrow> base64_class" where
  "base64_classify cfg c =
     (if char_between CHR ''A'' CHR ''Z'' c then Sextet (of_char c - of_char CHR ''A'')
      else if char_between CHR ''a'' CHR ''z'' c then Sextet (26 + of_char c - of_char CHR ''a'')
      else if char_between CHR ''0'' CHR ''9'' c then Sextet (52 + of_char c - of_char CHR ''0'')
      else if c = extra_62 cfg then Sextet 62
      else if c = extra_63 cfg then Sextet 63
      else if c = b64_pad cfg then Padding
      else Ignored)"

text \<open>Writing up to \<open>k\<close> bytes from bits 16 to 23; \<open>Inl\<close> when the block is full.\<close>

fun base64_put :: "nat \<Rightarrow> nat \<Rightarrow> u32 \<Rightarrow> byte list \<Rightarrow> byte list + byte list" where
  "base64_put max_length 0 n written = Inr written"
| "base64_put max_length (Suc k) n written =
     (if length written < max_length
      then base64_put max_length k (push_bit 8 n) (written @ [ucast (drop_bit 16 n)])
      else Inl written)"

fun base64_decode_loop ::
  "Base64 \<Rightarrow> nat \<Rightarrow> string \<Rightarrow> byte list \<Rightarrow> u32 \<Rightarrow> nat \<Rightarrow> byte list + (byte list \<times> u32 \<times> nat)" where
  "base64_decode_loop cfg max_length [] written n i = Inr (written, n, i)"
| "base64_decode_loop cfg max_length (c # s) written n i =
     (case base64_classify cfg c of
        Padding \<Rightarrow> Inr (written, n, i)
      | Ignored \<Rightarrow> base64_decode_loop cfg max_length s written n i
      | Sextet cn \<Rightarrow>
          (let n = push_bit 6 n OR of_nat cn; i = i + 1
           in if i mod 4 = 0
              then (case base64_put max_length 3 n written of
                      Inl w \<Rightarrow> Inl w
                    | Inr w \<Rightarrow> base64_decode_loop cfg max_length s w 0 i)
              else base64_decode_loop cfg max_length s written n i))"

text \<open>
  The tail of the routine writes out what is left over, padding seen or not. The result is the
  value returned and the bytes written to the block.
\<close>

fun base64_finish :: "nat \<Rightarrow> byte list + (byte list \<times> u32 \<times> nat) \<Rightarrow> nat \<times> byte list" where
  "base64_finish max_length (Inl w) = (max_length + 1, w)"
| "base64_finish max_length (Inr (w, n, i)) =
     (if i mod 4 \<noteq> 0
      then (case base64_put max_length (i mod 4 - 1) (push_bit (6 * (4 - i mod 4)) n) w of
              Inl w' \<Rightarrow> (max_length + 1, w')
            | Inr w' \<Rightarrow> (length w', w'))
      else (length w, w))"

definition base64_decode_block :: "Base64 \<Rightarrow> string \<Rightarrow> nat \<Rightarrow> nat \<times> byte list" where
  "base64_decode_block cfg s max_length =
     base64_finish max_length (base64_decode_loop cfg max_length s [] 0 0)"

definition base64_decode_u64 :: "Base64 \<Rightarrow> string \<Rightarrow> u64 option" where
  "base64_decode_u64 cfg s =
     (let (len, buf) = base64_decode_block cfg s 8
      in if len > 8 then None
         else Some (foldl (\<lambda>n b. push_bit 8 n OR ucast b) 0 (take len buf)))"

definition base64_decode :: "Base64 \<Rightarrow> string \<Rightarrow> byte list \<Rightarrow> bool \<times> byte list" where
  "base64_decode cfg s binary =
     (let max_length = binary_length s; (len, buf) = base64_decode_block cfg s max_length
      in if len > max_length then (False, binary) else (True, binary @ take len buf))"

definition base64_decode_string :: "Base64 \<Rightarrow> string \<Rightarrow> string \<Rightarrow> bool \<times> string" where
  "base64_decode_string cfg s binary =
     (let max_length = binary_length s; (len, buf) = base64_decode_block cfg s max_length
      in if len > max_length then (False, binary)
         else (True, binary @ map char_of_byte (take len buf)))"

section \<open>Bits of one group\<close>

definition pack3 :: "byte \<Rightarrow> byte \<Rightarrow> byte \<Rightarrow> u32" where
  "pack3 a b c = push_bit 8 (push_bit 8 (push_bit 8 0 OR ucast a) OR ucast b) OR ucast c"

abbreviation sextet :: "u32 \<Rightarrow> nat" where
  "sextet n \<equiv> unat (drop_bit 18 n AND 0x3f)"

lemma and_63: "(x :: u32) AND 63 = take_bit 6 x"
  by (simp add: take_bit_eq_mask mask_eq_exp_minus_1)

lemma sextet_less: "sextet n < 64"
  by (simp add: and_63 unsigned_take_bit_eq take_bit_nat_less_exp [of 6, simplified])

lemma four_sextets:
  "push_bit 6 (push_bit 6 (push_bit 6 (push_bit 6 0 OR of_nat (sextet n)) OR of_nat (sextet (push_bit 6 n)))
     OR of_nat (sextet (push_bit 6 (push_bit 6 n))))
   OR of_nat (sextet (push_bit 6 (push_bit 6 (push_bit 6 n)))) = take_bit 24 n"
  unfolding and_63
  apply (rule bit_word_eqI)
  subgoal for i
    by (cases "i < 6"; cases "i < 12"; cases "i < 18"; cases "i < 24") (auto simp: bit_simps)
  done

lemma three_sextets:
  "take_bit 24 (push_bit 6 (push_bit 6 (push_bit 6 (push_bit 6 0 OR of_nat (sextet n)) OR of_nat (sextet (push_bit 6 n)))
     OR of_nat (sextet (push_bit 6 (push_bit 6 n))))) = push_bit 6 (take_bit 18 (drop_bit 6 n))"
  unfolding and_63
  apply (rule bit_word_eqI)
  subgoal for i
    by (cases "i < 6"; cases "i < 12"; cases "i < 18"; cases "i < 24") (auto simp: bit_simps)
  done

lemma two_sextets:
  "take_bit 24 (push_bit 12 (push_bit 6 (push_bit 6 0 OR of_nat (sextet n)) OR of_nat (sextet (push_bit 6 n))))
   = push_bit 12 (take_bit 12 (drop_bit 12 (n :: u32)))"
  unfolding and_63
  apply (rule bit_word_eqI)
  subgoal for i
    by (cases "i < 12"; cases "i < 18"; cases "i < 24") (auto simp: bit_simps)
  done

lemma pack3_bytes:
  "ucast (drop_bit 16 (take_bit 24 (pack3 a b c))) = a"
  "ucast (drop_bit 16 (push_bit 8 (take_bit 24 (pack3 a b c)))) = b"
  "ucast (drop_bit 16 (push_bit 8 (push_bit 8 (take_bit 24 (pack3 a b c))))) = c"
  unfolding pack3_def
  by (rule bit_word_eqI; auto simp: bit_simps dest: bit_imp_le_length)+

text \<open>Only the low 24 bits of the accumulator reach the output bytes.\<close>

lemma byte_of_take_bit:
  assumes "take_bit 24 (n :: u32) = k"
  shows "(ucast (drop_bit 16 n) :: byte) = ucast (drop_bit 16 k)"
    and "(ucast (drop_bit 16 (push_bit 8 n)) :: byte) = ucast (drop_bit 16 (push_bit 8 k))"
  unfolding assms [symmetric] by (rule bit_word_eqI; auto simp: bit_simps)+

section \<open>The encoder works by groups of three bytes\<close>

fun encode_groups :: "Base64 \<Rightarrow> int \<Rightarrow> string \<Rightarrow> byte list \<Rightarrow> nat \<Rightarrow> string" where
  "encode_groups cfg split line_end (a # b # c # bs) chars =
     base64_emit cfg 4 (pack3 a b c) @ base64_split split line_end (chars + 4)
     @ encode_groups cfg split line_end bs (chars + 4)"
| "encode_groups cfg split line_end [a, b] chars =
     base64_emit cfg 3 (pack3 a b 0) @ base64_split split line_end (chars + 3)"
| "encode_groups cfg split line_end [a] chars =
     base64_emit cfg 2 (pack3 a 0 0) @ base64_split split line_end (chars + 2)"
| "encode_groups cfg split line_end [] chars = []"

declare base64_encode_loop.simps [simp del] base64_emit.simps [simp del]

lemma encode_step:
  "i < rlength \<Longrightarrow> i < length block \<Longrightarrow> i mod 3 \<noteq> 2 \<Longrightarrow>
   base64_encode_loop cfg block split line_end rlength i n count chars =
   base64_encode_loop cfg block split line_end rlength (Suc i) (push_bit 8 n OR ucast (block ! i)) (Suc count) chars"
  "i < rlength \<Longrightarrow> \<not> i < length block \<Longrightarrow> i mod 3 \<noteq> 2 \<Longrightarrow>
   base64_encode_loop cfg block split line_end rlength i n count chars =
   base64_encode_loop cfg block split line_end rlength (Suc i) (push_bit 8 n) count chars"
  by (simp_all add: base64_encode_loop.simps [of _ _ _ _ _ i])

lemma encode_flush:
  "i < rlength \<Longrightarrow> i < length block \<Longrightarrow> i mod 3 = 2 \<Longrightarrow>
   base64_encode_loop cfg block split line_end rlength i n count chars =
   base64_emit cfg (Suc count) (push_bit 8 n OR ucast (block ! i))
   @ base64_split split line_end (chars + Suc count)
   @ base64_encode_loop cfg block split line_end rlength (Suc i) 0 1 (chars + Suc count)"
  "i < rlength \<Longrightarrow> \<not> i < length block \<Longrightarrow> i mod 3 = 2 \<Longrightarrow>
   base64_encode_loop cfg block split line_end rlength i n count chars =
   base64_emit cfg count (push_bit 8 n) @ base64_split split line_end (chars + count)
   @ base64_encode_loop cfg block split line_end rlength (Suc i) 0 1 (chars + count)"
  by (simp_all add: base64_encode_loop.simps [of _ _ _ _ _ i])

lemma encode_stop:
  "\<not> i < rlength \<Longrightarrow> base64_encode_loop cfg block split line_end rlength i n count chars = []"
  by (simp add: base64_encode_loop.simps [of _ _ _ _ _ i])

lemma drop_eq_nth: "drop i xs = ys \<Longrightarrow> j < length ys \<Longrightarrow> i + j < length xs \<and> xs ! (i + j) = ys ! j"
  by auto

lemma encode_loop_groups:
  assumes "i mod 3 = 0" and "drop i block = bs" and "rlength = 3 * ((length block + 2) div 3)"
    and "i \<le> length block"
  shows "base64_encode_loop cfg block split line_end rlength i 0 1 chars =
         encode_groups cfg split line_end bs chars"
  using assms
proof (induction cfg split line_end bs chars arbitrary: i rule: encode_groups.induct)
  case (1 cfg split line_end a b c bs chars)
  from "1.prems"(2) have "length (drop i block) = length bs + 3" by (simp only:) simp
  with "1.prems"(4) have len: "length block = i + 3 + length bs" by simp
  note nth = drop_eq_nth [OF "1.prems"(2), of 0] drop_eq_nth [OF "1.prems"(2), of 1]
    drop_eq_nth [OF "1.prems"(2), of 2]
  have "drop (i + 3) block = bs"
    using arg_cong [OF "1.prems"(2), of "drop 3"] by (simp add: add.commute)
  moreover have "(i + 3) mod 3 = 0" "i + 3 \<le> length block" using "1.prems"(1) len by simp_all
  ultimately have IH: "base64_encode_loop cfg block split line_end rlength (i + 3) 0 1 (chars + 4) =
      encode_groups cfg split line_end bs (chars + 4)"
    using "1.prems"(3) by (intro "1.IH")
  have m: "Suc (Suc i) < rlength" "Suc i mod 3 = 1" "Suc (Suc i) mod 3 = 2" "i mod 3 = 0"
    using "1.prems" len by presburger+
  with len nth have "base64_encode_loop cfg block split line_end rlength i 0 1 chars =
      base64_emit cfg (Suc (Suc (Suc 1))) (pack3 a b c)
      @ base64_split split line_end (chars + Suc (Suc (Suc 1)))
      @ base64_encode_loop cfg block split line_end rlength (Suc (Suc (Suc i))) 0 1 (chars + Suc (Suc (Suc 1)))"
    by (simp add: encode_step encode_flush pack3_def)
  moreover have "Suc (Suc (Suc 1)) = (4 :: nat)" "Suc (Suc (Suc i)) = i + 3" by simp_all
  ultimately show ?case by (simp only: IH encode_groups.simps)
next
  case (2 cfg split line_end a b chars)
  then have "length (drop i block) = 2" by (simp only:) simp
  with "2.prems"(4) have len: "length block = i + 2" by simp
  note nth = drop_eq_nth [OF "2.prems"(2), of 0] drop_eq_nth [OF "2.prems"(2), of 1]
  have m: "rlength = Suc (Suc (Suc i))" "Suc i mod 3 = 1" "Suc (Suc i) mod 3 = 2" "i mod 3 = 0"
    using "2.prems" len by presburger+
  with len nth have "base64_encode_loop cfg block split line_end rlength i 0 1 chars =
      base64_emit cfg (Suc (Suc 1)) (pack3 a b 0) @ base64_split split line_end (chars + (Suc (Suc 1)))"
    by (simp add: encode_step encode_flush encode_stop pack3_def)
  moreover have "Suc (Suc 1) = (3 :: nat)" by simp
  ultimately show ?case by (simp only: encode_groups.simps)
next
  case (3 cfg split line_end a chars)
  then have "length (drop i block) = 1" by (simp only:) simp
  with "3.prems"(4) have len: "length block = i + 1" by simp
  note nth = drop_eq_nth [OF "3.prems"(2), of 0]
  have m: "rlength = Suc (Suc (Suc i))" "Suc i mod 3 = 1" "Suc (Suc i) mod 3 = 2" "i mod 3 = 0"
    using "3.prems" len by presburger+
  with len nth have "base64_encode_loop cfg block split line_end rlength i 0 1 chars =
      base64_emit cfg (Suc 1) (pack3 a 0 0) @ base64_split split line_end (chars + (Suc 1))"
    by (simp add: encode_step encode_flush encode_stop pack3_def)
  moreover have "Suc 1 = (2 :: nat)" by simp
  ultimately show ?case by (simp only: encode_groups.simps)
next
  case (4 cfg split line_end chars)
  then have "length block = i" by simp
  with 4 have "rlength = i" by presburger
  then show ?case by (simp add: encode_stop)
qed

section \<open>The decoder inverts the groups\<close>

text \<open>
  A configuration is usable when its two extra characters and its padding are different from
  each other and from the 62 fixed characters.
\<close>

definition base64_wf :: "Base64 \<Rightarrow> bool" where
  "base64_wf cfg \<longleftrightarrow>
     distinct [b64_pad cfg, extra_62 cfg, extra_63 cfg]
     \<and> (\<forall>c \<in> {b64_pad cfg, extra_62 cfg, extra_63 cfg}. \<not> isalpha c \<and> \<not> isdigit c)"

lemma base64_chars_codes: "map of_char base64_chars = [65..<91] @ [97..<123] @ [48..<(58 :: nat)]"
  by (simp add: base64_chars_def upt_rec)

lemma classify_base64_char:
  assumes "base64_wf cfg" and "k < 64"
  shows "base64_classify cfg (base64_char cfg k) = Sextet k"
proof (cases "k < 62")
  case True
  then have "k < length base64_chars" by (simp add: base64_chars_def)
  from nth_code_ranges [OF base64_chars_codes this] show ?thesis
    using True by (auto simp: base64_classify_def base64_char_def ctype_defs)
next
  case False
  with assms(2) have "k = 62 \<or> k = 63" by arith
  with assms(1) show ?thesis
    by (auto simp: base64_classify_def base64_char_def base64_wf_def isalpha_def isdigit_def)
qed

lemma classify_pad: "base64_wf cfg \<Longrightarrow> base64_classify cfg (b64_pad cfg) = Padding"
  by (auto simp: base64_classify_def base64_wf_def isalpha_def isdigit_def)

lemma decode_sextet:
  assumes "base64_wf cfg"
  shows "Suc i mod 4 \<noteq> 0 \<Longrightarrow>
      base64_decode_loop cfg mx (base64_char cfg (sextet m) # s) w n i =
      base64_decode_loop cfg mx s w (push_bit 6 n OR of_nat (sextet m)) (Suc i)"
    and "Suc i mod 4 = 0 \<Longrightarrow>
      base64_decode_loop cfg mx (base64_char cfg (sextet m) # s) w n i =
      (case base64_put mx 3 (push_bit 6 n OR of_nat (sextet m)) w of
         Inl w' \<Rightarrow> Inl w'
       | Inr w' \<Rightarrow> base64_decode_loop cfg mx s w' 0 (Suc i))"
  using classify_base64_char [OF assms sextet_less [of m]] by (simp_all add: Let_def)

lemma base64_put_1: "length w < mx \<Longrightarrow> base64_put mx (Suc 0) n w = Inr (w @ [ucast (drop_bit 16 n)])"
  by simp

lemma base64_put_2:
  "Suc (length w) < mx \<Longrightarrow> base64_put mx (Suc (Suc 0)) n w =
   Inr (w @ [ucast (drop_bit 16 n), ucast (drop_bit 16 (push_bit 8 n))])"
  by simp

lemma base64_put_3:
  "Suc (Suc (length w)) < mx \<Longrightarrow> base64_put mx 3 n w =
   Inr (w @ [ucast (drop_bit 16 n), ucast (drop_bit 16 (push_bit 8 n)),
             ucast (drop_bit 16 (push_bit 8 (push_bit 8 n)))])"
  by (simp add: numeral_3_eq_3)

lemma base64_emit_counts:
  "base64_emit cfg 2 n = [base64_char cfg (sextet n), base64_char cfg (sextet (push_bit 6 n))]"
  "base64_emit cfg 3 n = base64_emit cfg 2 n @ [base64_char cfg (sextet (push_bit 6 (push_bit 6 n)))]"
  "base64_emit cfg 4 n = base64_emit cfg 3 n @ [base64_char cfg (sextet (push_bit 6 (push_bit 6 (push_bit 6 n))))]"
  by (simp_all only: eval_nat_numeral base64_emit.simps append.simps BitM.simps pred_numeral_simps)

lemma decode_group4:
  assumes "base64_wf cfg" and "i mod 4 = 0" and "Suc (Suc (length w)) < mx"
  shows "base64_decode_loop cfg mx (base64_emit cfg 4 (pack3 a b c) @ s) w 0 i =
         base64_decode_loop cfg mx s (w @ [a, b, c]) 0 (i + 4)"
proof -
  have m: "Suc i mod 4 \<noteq> 0" "Suc (Suc i) mod 4 \<noteq> 0" "Suc (Suc (Suc i)) mod 4 \<noteq> 0"
    "Suc (Suc (Suc (Suc i))) mod 4 = 0"
    using assms(2) by presburger+
  have e: "i + 4 = Suc (Suc (Suc (Suc i)))" by simp
  show ?thesis
    by (simp only: e base64_emit_counts append.simps append_assoc decode_sextet [OF assms(1)] m
        not_False_eq_True simp_thms four_sextets base64_put_3 [OF assms(3)] sum.case pack3_bytes)
qed

lemma decode_group3:
  assumes "base64_wf cfg" and "i mod 4 = 0"
  shows "\<exists>n. base64_decode_loop cfg mx (base64_emit cfg 3 (pack3 a b 0) @ s) w 0 i =
              base64_decode_loop cfg mx s w n (i + 3)
            \<and> (Suc (length w) < mx \<longrightarrow> base64_put mx 2 (push_bit 6 n) w = Inr (w @ [a, b]))"
proof (intro exI conjI impI)
  let ?p = "pack3 a b 0"
  let ?n = "push_bit 6 (push_bit 6 (push_bit 6 0 OR of_nat (sextet ?p)) OR of_nat (sextet (push_bit 6 ?p)))
      OR of_nat (sextet (push_bit 6 (push_bit 6 ?p)))"
  have m: "Suc i mod 4 \<noteq> 0" "Suc (Suc i) mod 4 \<noteq> 0" "Suc (Suc (Suc i)) mod 4 \<noteq> 0"
    using assms(2) by presburger+
  have e: "i + 3 = Suc (Suc (Suc i))" by simp
  show "base64_decode_loop cfg mx (base64_emit cfg 3 ?p @ s) w 0 i = base64_decode_loop cfg mx s w ?n (i + 3)"
    by (simp only: e base64_emit_counts append.simps append_assoc decode_sextet [OF assms(1)] m
        not_False_eq_True simp_thms)
  note b = byte_of_take_bit [OF three_sextets [of ?p]]
  have "(ucast (drop_bit 16 (push_bit 6 (take_bit 18 (drop_bit 6 ?p)))) :: byte) = a"
    "(ucast (drop_bit 16 (push_bit 8 (push_bit 6 (take_bit 18 (drop_bit 6 ?p))))) :: byte) = b"
    unfolding pack3_def by (rule bit_word_eqI; auto simp: bit_simps dest: bit_imp_le_length)+
  then show "base64_put mx 2 (push_bit 6 ?n) w = Inr (w @ [a, b])" if "Suc (length w) < mx"
    by (simp only: b numeral_2_eq_2 base64_put_2 [OF that])
qed

lemma decode_group2:
  assumes "base64_wf cfg" and "i mod 4 = 0"
  shows "\<exists>n. base64_decode_loop cfg mx (base64_emit cfg 2 (pack3 a 0 0) @ s) w 0 i =
              base64_decode_loop cfg mx s w n (i + 2)
            \<and> (length w < mx \<longrightarrow> base64_put mx 1 (push_bit 12 n) w = Inr (w @ [a]))"
proof (intro exI conjI impI)
  let ?p = "pack3 a 0 0"
  let ?n = "push_bit 6 (push_bit 6 0 OR of_nat (sextet ?p)) OR of_nat (sextet (push_bit 6 ?p))"
  have m: "Suc i mod 4 \<noteq> 0" "Suc (Suc i) mod 4 \<noteq> 0"
    using assms(2) by presburger+
  have e: "i + 2 = Suc (Suc i)" by simp
  show "base64_decode_loop cfg mx (base64_emit cfg 2 ?p @ s) w 0 i = base64_decode_loop cfg mx s w ?n (i + 2)"
    by (simp only: e base64_emit_counts append.simps append_assoc decode_sextet [OF assms(1)] m
        not_False_eq_True simp_thms)
  note b = byte_of_take_bit(1) [OF two_sextets [of ?p]]
  have "(ucast (drop_bit 16 (push_bit 12 (take_bit 12 (drop_bit 12 ?p)))) :: byte) = a"
    unfolding pack3_def by (rule bit_word_eqI; auto simp: bit_simps dest: bit_imp_le_length)+
  then show "base64_put mx 1 (push_bit 12 ?n) w = Inr (w @ [a])" if "length w < mx"
    by (simp only: b One_nat_def base64_put_1 [OF that])
qed

lemma decode_ignored:
  "\<forall>c \<in> set xs. base64_classify cfg c = Ignored \<Longrightarrow>
   base64_decode_loop cfg mx (xs @ s) w n i = base64_decode_loop cfg mx s w n i"
  by (induction xs) auto

lemma decode_split:
  assumes "\<forall>c \<in> set line_end. base64_classify cfg c = Ignored"
  shows "base64_decode_loop cfg mx (base64_split split line_end chars @ s) w n i =
         base64_decode_loop cfg mx s w n i"
  using decode_ignored [OF assms] by (simp add: base64_split_def)

lemma decode_padding:
  "base64_wf cfg \<Longrightarrow> base64_decode_loop cfg mx (replicate k (b64_pad cfg)) w n i = Inr (w, n, i)"
  by (cases k) (simp_all add: classify_pad)

lemma decode_groups:
  assumes "base64_wf cfg" and "\<forall>c \<in> set line_end. base64_classify cfg c = Ignored"
  shows "i mod 4 = 0 \<Longrightarrow> length w + length bs \<le> mx \<Longrightarrow>
    base64_finish mx (base64_decode_loop cfg mx
      (encode_groups cfg split line_end bs chars @ replicate k (b64_pad cfg)) w 0 i) =
    (length (w @ bs), w @ bs)"
  using assms
proof (induction cfg split line_end bs chars arbitrary: i w rule: encode_groups.induct)
  case (1 cfg split line_end a b c bs chars)
  then have "(i + 4) mod 4 = 0" "Suc (Suc (length w)) < mx" by simp_all
  then show ?case
    using "1.IH" [of "i + 4" "w @ [a, b, c]"] 1
    by (simp only: encode_groups.simps append_assoc decode_group4 decode_split) simp
next
  case (2 cfg split line_end a b chars)
  let ?s = "base64_split split line_end (chars + 3) @ replicate k (b64_pad cfg)"
  obtain n where "base64_decode_loop cfg mx (base64_emit cfg 3 (pack3 a b 0) @ ?s) w 0 i =
      base64_decode_loop cfg mx ?s w n (i + 3)"
    and "base64_put mx 2 (push_bit 6 n) w = Inr (w @ [a, b])"
    using decode_group3 [OF \<open>base64_wf cfg\<close> \<open>i mod 4 = 0\<close>, of mx a b ?s w] 2 by auto
  moreover have "(i + 3) mod 4 = 3" using \<open>i mod 4 = 0\<close> by presburger
  ultimately show ?case
    using 2 by (simp add: decode_split decode_padding)
next
  case (3 cfg split line_end a chars)
  let ?s = "base64_split split line_end (chars + 2) @ replicate k (b64_pad cfg)"
  obtain n where "base64_decode_loop cfg mx (base64_emit cfg 2 (pack3 a 0 0) @ ?s) w 0 i =
      base64_decode_loop cfg mx ?s w n (i + 2)"
    and "base64_put mx 1 (push_bit 12 n) w = Inr (w @ [a])"
    using decode_group2 [OF \<open>base64_wf cfg\<close> \<open>i mod 4 = 0\<close>, of mx a ?s w] 3 by auto
  moreover have "(i + 2) mod 4 = 2" using \<open>i mod 4 = 0\<close> by presburger
  ultimately show ?case
    using 3 by (simp add: decode_split decode_padding)
next
  case (4 cfg split line_end chars)
  then show ?case by (simp add: decode_padding)
qed

lemma length_emit [simp]: "length (base64_emit cfg k n) = k"
  by (induction k arbitrary: n) (simp_all add: base64_emit.simps)

lemma length_groups: "4 * length bs \<le> 3 * length (encode_groups cfg split line_end bs chars) + 3"
  by (induction cfg split line_end bs chars rule: encode_groups.induct) simp_all

lemma encode_as_groups:
  "\<exists>k. base64_encode cfg bs split line_end =
        encode_groups cfg split line_end bs 0 @ replicate k (b64_pad cfg)"
proof -
  have "base64_encode_loop cfg bs split line_end (3 * ((length bs + 2) div 3)) 0 0 1 0 =
      encode_groups cfg split line_end bs 0"
    by (rule encode_loop_groups) simp_all
  then show ?thesis
    by (auto simp: base64_encode_def Let_def intro: exI [of _ "0 :: nat"])
qed

lemma decode_block_encode:
  assumes "base64_wf cfg" and "\<forall>c \<in> set line_end. base64_classify cfg c = Ignored"
    and "length bs \<le> mx"
  shows "base64_decode_block cfg (base64_encode cfg bs split line_end) mx = (length bs, bs)"
proof -
  obtain k where "base64_encode cfg bs split line_end =
      encode_groups cfg split line_end bs 0 @ replicate k (b64_pad cfg)"
    using encode_as_groups by blast
  with decode_groups [OF assms(1,2), of 0 "[]" bs mx] assms(3) show ?thesis
    by (simp add: base64_decode_block_def)
qed

lemma encode_fits_binary_length: "length bs \<le> binary_length (base64_encode cfg bs split line_end)"
proof -
  obtain k where "base64_encode cfg bs split line_end =
      encode_groups cfg split line_end bs 0 @ replicate k (b64_pad cfg)"
    using encode_as_groups by blast
  with length_groups [of bs cfg split line_end 0] show ?thesis
    by (simp add: binary_length_def)
qed

section \<open>The decoder never overruns its buffer\<close>

lemma put_length:
  "length w + k \<le> mx \<Longrightarrow> \<exists>w'. base64_put mx k n w = Inr w' \<and> length w' = length w + k"
proof (induction k arbitrary: n w)
  case (Suc k)
  then show ?case using Suc.IH [of "w @ [ucast (drop_bit 16 n)]" "push_bit 8 n"] by simp
qed simp

lemma put_bounded: "length w \<le> mx \<Longrightarrow>
   (case base64_put mx k n w of Inl w' \<Rightarrow> length w' = mx | Inr w' \<Rightarrow> length w' \<le> mx)"
  by (induction k arbitrary: n w) auto

lemma decode_loop_fits:
  assumes "length w = 3 * (i div 4)" and "i + length s \<le> L" and "(3 * L + 3) div 4 \<le> mx"
  shows "\<exists>w' n' i'. base64_decode_loop cfg mx s w n i = Inr (w', n', i') \<and>
           length w' = 3 * (i' div 4) \<and> i' \<le> L"
  using assms
proof (induction cfg mx s w n i rule: base64_decode_loop.induct)
  case (1 cfg mx w n i)
  then show ?case by simp
next
  case (2 cfg mx c s w n i)
  show ?case
  proof (cases "base64_classify cfg c")
    case (Sextet cn)
    show ?thesis
    proof (cases "(i + 1) mod 4 = 0")
      case True
      then have "(i + 1) div 4 = Suc (i div 4)" by presburger
      then have "length w + 3 = 3 * ((i + 1) div 4)" using "2.prems"(1) by simp
      moreover have "3 * ((i + 1) div 4) \<le> mx"
      proof -
        have "4 * ((i + 1) div 4) = i + 1" using True by presburger
        with "2.prems"(2,3) show ?thesis by simp
      qed
      ultimately obtain w' where "base64_put mx 3 (push_bit 6 n OR of_nat cn) w = Inr w'"
        "length w' = 3 * ((i + 1) div 4)"
        using put_length [of w 3 mx] by fastforce
      with "2.IH"(1) [OF Sextet refl refl True this(1)] "2.prems" Sextet True show ?thesis
        by (simp add: Let_def)
    next
      case False
      then have "(i + 1) div 4 = i div 4" by presburger
      then have "length w = 3 * ((i + 1) div 4)" using "2.prems"(1) by simp
      with "2.IH"(2) [OF Sextet refl refl False] "2.prems" Sextet False show ?thesis
        by (simp add: Let_def)
    qed
  qed (use "2.IH"(3) "2.prems" in auto)
qed

lemma decode_loop_bounded: "length w \<le> mx \<Longrightarrow>
   (case base64_decode_loop cfg mx s w n i of Inl w' \<Rightarrow> length w' = mx | Inr (w', _, _) \<Rightarrow> length w' \<le> mx)"
proof (induction cfg mx s w n i rule: base64_decode_loop.induct)
  case (2 cfg mx c s w n i)
  show ?case
  proof (cases "base64_classify cfg c")
    case (Sextet cn)
    note pb = put_bounded [OF "2.prems", of 3 "push_bit 6 n OR of_nat cn"]
    show ?thesis
    proof (cases "(i + 1) mod 4 = 0")
      case True
      show ?thesis
      proof (cases "base64_put mx 3 (push_bit 6 n OR of_nat cn) w")
        case (Inr w')
        with "2.IH"(1) [OF Sextet refl refl True Inr] pb Sextet True show ?thesis
          by (simp add: Let_def)
      qed (use pb Sextet True in \<open>simp add: Let_def\<close>)
    next
      case False
      with "2.IH"(2) [OF Sextet refl refl False "2.prems"] Sextet show ?thesis
        by (simp add: Let_def)
    qed
  qed (use 2 in auto)
qed simp

lemma finish_bounded:
  assumes "case r of Inl w' \<Rightarrow> length w' = mx | Inr (w', _, _) \<Rightarrow> length w' \<le> mx"
  shows "length (snd (base64_finish mx r)) \<le> mx"
    and "fst (base64_finish mx r) \<noteq> length (snd (base64_finish mx r)) \<Longrightarrow>
      fst (base64_finish mx r) = mx + 1 \<and> length (snd (base64_finish mx r)) = mx"
proof -
  have "length (snd (base64_finish mx r)) \<le> mx \<and>
    (fst (base64_finish mx r) \<noteq> length (snd (base64_finish mx r)) \<longrightarrow>
      fst (base64_finish mx r) = mx + 1 \<and> length (snd (base64_finish mx r)) = mx)"
  proof (cases r)
    case (Inr a)
    obtain w n i where "r = Inr (w, n, i)" using Inr by (cases a) auto
    then show ?thesis
      using put_bounded [of w mx "i mod 4 - 1" "push_bit (6 * (4 - i mod 4)) n"] assms
      by (auto split: sum.splits)
  qed (use assms in simp)
  then show "length (snd (base64_finish mx r)) \<le> mx"
    and "fst (base64_finish mx r) \<noteq> length (snd (base64_finish mx r)) \<Longrightarrow>
      fst (base64_finish mx r) = mx + 1 \<and> length (snd (base64_finish mx r)) = mx"
    by blast+
qed

section \<open>Sixty-four bit integers\<close>

definition be_fold :: "u64 \<Rightarrow> byte list \<Rightarrow> u64" where
  "be_fold n bs = foldl (\<lambda>n b. push_bit 8 n OR ucast b) n bs"

lemma be_fold_top_bytes:
  "k \<le> 8 \<Longrightarrow> be_fold acc (base64_top_bytes k n) = push_bit (8 * k) acc OR drop_bit (64 - 8 * k) n"
proof (induction k arbitrary: acc n)
  case (Suc k)
  have "be_fold acc (base64_top_bytes (Suc k) n) =
      push_bit (8 * k) (push_bit 8 acc OR ucast (ucast (drop_bit 56 n) :: byte)) OR
      drop_bit (64 - 8 * k) (push_bit 8 n)"
    using Suc by (simp add: be_fold_def)
  also have "\<dots> = push_bit (8 * Suc k) acc OR drop_bit (64 - 8 * Suc k) n"
    using Suc.prems by (intro bit_word_eqI) (auto simp: bit_simps add.commute [of _ 8] dest: bit_imp_le_length)
  finally show ?case .
qed (simp add: be_fold_def)

lemma length_top_bytes [simp]: "length (base64_top_bytes k n) = k"
  by (induction k arbitrary: n) simp_all

section \<open>Properties\<close>

text \<open>
  C27: Base64 round trip. For every usable configuration (the standard and the URL-safe ones
  among them), every block, every split length and every line ending made of characters the
  decoder ignores, decoding the encoded text appends exactly the original bytes.
\<close>

theorem base64_roundtrip:
  assumes "base64_wf cfg" and "\<forall>c \<in> set line_end. base64_classify cfg c = Ignored"
  shows "base64_decode cfg (base64_encode cfg bs split line_end) binary = (True, binary @ bs)"
  using decode_block_encode [OF assms encode_fits_binary_length]
  by (simp add: base64_decode_def not_less encode_fits_binary_length)

theorem base64_roundtrip_witness:
  "base64_decode base64_default (base64_encode base64_default [0x4d, 0xff] 76 [CHR 0x0D, CHR 0x0A]) [7]
   = (True, [7, 0x4d, 0xff])
   \<and> base64_encode base64_default [0x4d, 0xff] 76 [CHR 0x0D, CHR 0x0A] = ''Tf8=''"
proof
  have "base64_wf base64_default" by code_simp
  moreover have "\<forall>c \<in> set [CHR 0x0D, CHR 0x0A]. base64_classify base64_default c = Ignored"
    by code_simp
  ultimately show "base64_decode base64_default
      (base64_encode base64_default [0x4d, 0xff] 76 [CHR 0x0D, CHR 0x0A]) [7] = (True, [7, 0x4d, 0xff])"
    using base64_roundtrip [of base64_default "[CHR 0x0D, CHR 0x0A]" "[0x4d, 0xff]" 76 "[7]"] by simp
  show "base64_encode base64_default [0x4d, 0xff] 76 [CHR 0x0D, CHR 0x0A] = ''Tf8=''"
    by code_simp
qed

text \<open>
  The buffer estimate is enough. Decoding any text whatsoever into a buffer of
  \<open>binary_length\<close> bytes never overflows it, so the append-style decoder always reports
  success and keeps what was in its output.
\<close>

theorem base64_decode_total:
  "\<exists>bs. base64_decode cfg s binary = (True, binary @ bs) \<and> length bs \<le> binary_length s"
proof -
  obtain w n i where loop: "base64_decode_loop cfg (binary_length s) s [] 0 0 = Inr (w, n, i)"
    and w: "length w = 3 * (i div 4)" and i: "i \<le> length s"
    using decode_loop_fits [of "[]" 0 s "length s" "binary_length s" cfg 0]
    by (auto simp: binary_length_def mult.commute)
  obtain bs where "base64_decode_block cfg s (binary_length s) = (length bs, bs)"
    and "length bs \<le> binary_length s"
  proof (cases "i mod 4 = 0")
    case True
    moreover have "length w \<le> binary_length s" using w i by (simp add: binary_length_def)
    ultimately show ?thesis using that [of w] loop by (simp add: base64_decode_block_def)
  next
    case False
    define q r where "q = i div 4" and "r = i mod 4"
    have "i = 4 * q + r" "r < 4" by (simp_all add: q_def r_def)
    then have "length w + (i mod 4 - 1) \<le> binary_length s"
      using w i unfolding binary_length_def q_def [symmetric] r_def [symmetric] by linarith
    then obtain w' where "base64_put (binary_length s) (i mod 4 - 1) (push_bit (6 * (4 - i mod 4)) n) w = Inr w'"
      "length w' \<le> binary_length s"
      using put_length by metis
    with that [of w'] loop False show ?thesis by (simp add: base64_decode_block_def)
  qed
  then show ?thesis by (auto simp: base64_decode_def)
qed

text \<open>
  The block decoder respects its limit. Whatever the text and the limit, it never writes
  more than \<open>max_length\<close> bytes, and it returns either the number of bytes written or, when the
  block is full and more was due, \<open>max_length + 1\<close>.
\<close>

theorem base64_decode_block_bounded:
  "length (snd (base64_decode_block cfg s max_length)) \<le> max_length \<and>
   (fst (base64_decode_block cfg s max_length) = length (snd (base64_decode_block cfg s max_length)) \<or>
    fst (base64_decode_block cfg s max_length) = max_length + 1 \<and>
    length (snd (base64_decode_block cfg s max_length)) = max_length)"
  using finish_bounded [OF decode_loop_bounded [of "[]" max_length cfg s 0 0]]
  by (auto simp: base64_decode_block_def)

text \<open>
  64-bit integers survive the integer overloads of encode and decode, both in the
  four-byte form used for small values and in the eight-byte form.
\<close>

theorem base64_u64_roundtrip:
  assumes "base64_wf cfg"
  shows "base64_decode_u64 cfg (base64_encode_u64 cfg n) = Some n"
proof -
  define k where "k = (if drop_bit 32 n = 0 then 4 else 8 :: nat)"
  define m where "m = (if drop_bit 32 n = 0 then push_bit 32 n else n)"
  let ?bs = "base64_top_bytes k m"
  have "base64_decode_block cfg (base64_encode cfg ?bs 0 []) 8 = (k, ?bs)"
    using decode_block_encode [OF assms, of "[]" ?bs 8 0] by (simp add: k_def)
  moreover have "base64_encode cfg ?bs 0 [] = base64_encode_u64 cfg n"
  proof -
    have "encode_groups cfg 0 le bs chars = encode_groups cfg 0 [] bs chars" for le bs chars
      by (induction cfg "0 :: int" le bs chars rule: encode_groups.induct)
        (simp_all add: base64_split_def)
    then have "base64_encode cfg bs 0 le = base64_encode cfg bs 0 []" for bs le
      using encode_loop_groups [of 0 bs bs "3 * ((length bs + 2) div 3)" cfg 0 _ 0]
      by (simp add: base64_encode_def Let_def)
    from this [of _ "[CHR 0x0D, CHR 0x0A]"] show ?thesis
      by (simp add: base64_encode_u64_def k_def m_def)
  qed
  moreover have "be_fold 0 ?bs = n"
  proof (cases "drop_bit 32 n = 0")
    case True
    have "i < 32" if "bit n i" for i
    proof (rule ccontr)
      assume "\<not> i < 32"
      with that have "bit (drop_bit 32 n) (i - 32)" by (simp add: bit_drop_bit_eq)
      with True show False by simp
    qed
    then have "drop_bit 32 (push_bit 32 n) = n"
      by (intro bit_word_eqI) (auto simp: bit_simps)
    with True show ?thesis by (simp add: be_fold_top_bytes k_def m_def)
  next
    case False
    then show ?thesis by (simp add: be_fold_top_bytes k_def m_def)
  qed
  ultimately show ?thesis
    by (simp add: base64_decode_u64_def be_fold_def k_def)
qed

theorem base64_u64_roundtrip_witness:
  "base64_decode_u64 base64_url (base64_encode_u64 base64_url 0xdeadbeef) = Some 0xdeadbeef"
proof -
  have "base64_wf base64_url" by code_simp
  then show ?thesis by (rule base64_u64_roundtrip)
qed

end
