(* ===== verification/Base58.thy ===== *)
theory Base58
  imports Radix
begin

text \<open>
  The Base58 codec of libs/text/base58.cc: big-number conversion between base 256 and base 58
  by repeated multiply-and-carry over a digit array of a size estimated in advance, with leading
  zero bytes carried as leading \<open>1\<close> characters.
\<close>

section \<open>Tables\<close>

record Base58 =
  map58 :: string
  reverse_map :: "int list"

definition base58_chars :: string where
  "base58_chars = ''123456789ABCDEFGHJKLMNPQRSTUVWXYZabcdefghijkmnopqrstuvwxyz''"

text \<open>Both constructors copy an alphabet of 58 (ASCII) characters and invert it into 256 entries.\<close>

fun base58_fill :: "string \<Rightarrow> nat \<Rightarrow> int list \<Rightarrow> int list" where
  "base58_fill [] i rm = rm"
| "base58_fill (c # cs) i rm = base58_fill cs (Suc i) (rm[of_char c := int i])"

definition base58_alphabet :: "string \<Rightarrow> Base58" where
  "base58_alphabet alphabet =
     \<lparr>map58 = alphabet, reverse_map = base58_fill alphabet 0 (replicate 256 (-1))\<rparr>"

definition base58_standard :: Base58 where
  "base58_standard = base58_alphabet base58_chars"

section \<open>Encoding\<close>

fun leading_count :: "('a \<Rightarrow> bool) \<Rightarrow> 'a list \<Rightarrow> nat" where
  "leading_count P [] = 0"
| "leading_count P (x # xs) = (if P x then Suc (leading_count P xs) else 0)"

text \<open>
  One pass of the inner loop over the digit array, last digit first: multiply by \<open>mul\<close>, add the
  carry, keep the remainder modulo \<open>base\<close>. The carry left at the end is lost.
\<close>

fun carry_pass :: "nat \<Rightarrow> nat \<Rightarrow> nat \<Rightarrow> nat list \<Rightarrow> nat list" where
  "carry_pass mul base carry [] = []"
| "carry_pass mul base carry (d # ds) =
     (let carry = carry + mul * d
      in (carry mod base) # carry_pass mul base (carry div base) ds)"

definition multiply_add :: "nat \<Rightarrow> nat \<Rightarrow> nat list \<Rightarrow> nat \<Rightarrow> nat list" where
  "multiply_add mul base digits carry = rev (carry_pass mul base carry (rev digits))"

definition base58_encode :: "Base58 \<Rightarrow> byte list \<Rightarrow> string" where
  "base58_encode cfg binary =
     (if binary = [] then []
      else let zeroes = leading_count (\<lambda>b. b = 0) binary;
               size = (length binary - zeroes) * 138 div 100 + 1;
               b58 = foldl (\<lambda>b58 b. multiply_add 256 58 b58 (unat b)) (replicate size 0) binary
           in replicate zeroes CHR ''1''
              @ map (\<lambda>d. map58 cfg ! d) (dropWhile (\<lambda>d. d = 0) b58))"

section \<open>Decoding\<close>

fun base58_decode_loop :: "Base58 \<Rightarrow> string \<Rightarrow> nat list \<Rightarrow> nat list option" where
  "base58_decode_loop cfg [] b256 = Some b256"
| "base58_decode_loop cfg (c # s) b256 =
     (let value = reverse_map cfg ! of_char c
      in if value = -1 then None
         else base58_decode_loop cfg s (multiply_add 58 256 b256 (nat value)))"

definition base58_decode :: "Base58 \<Rightarrow> string \<Rightarrow> byte list \<Rightarrow> bool \<times> byte list" where
  "base58_decode cfg base58 binary =
     (case base58_decode_loop cfg base58 (replicate (length base58 * 733 div 1000 + 1) 0) of
        None \<Rightarrow> (False, binary)
      | Some b256 \<Rightarrow>
          (True, replicate (leading_count (\<lambda>c. c = map58 cfg ! 0) base58) 0
                 @ map word_of_nat (dropWhile (\<lambda>d. d = 0) b256)))"

section \<open>Digit arrays as numbers\<close>

lemma horner_snoc: "horner B (ds @ [d]) n = horner B ds n * B + d"
  by (induction ds arbitrary: n) simp_all

lemma horner_append: "horner B (xs @ ys) n = horner B ys (horner B xs n)"
  by (induction xs arbitrary: n) simp_all

lemma horner_zeros: "horner B (replicate k 0 @ ds) 0 = horner B ds 0"
  by (induction k) simp_all

lemma horner_shift: "horner B ds n = n * B ^ length ds + horner B ds 0"
proof (induction ds arbitrary: n)
  case (Cons d ds)
  have "horner B (d # ds) n = (n * B + d) * B ^ length ds + horner B ds 0"
    by (simp add: Cons.IH [of "n * B + d"])
  moreover have "horner B (d # ds) 0 = d * B ^ length ds + horner B ds 0"
    by (simp add: Cons.IH [of d])
  ultimately show ?case by (simp add: algebra_simps)
qed simp

lemma horner_less: "\<forall>d \<in> set ds. d < B \<Longrightarrow> horner B ds 0 < B ^ length ds"
proof (induction ds rule: rev_induct)
  case (snoc d ds)
  then have "horner B ds 0 + 1 \<le> B ^ length ds" "d < B" by simp_all
  then have "(horner B ds 0 + 1) * B \<le> B ^ length ds * B" by (intro mult_le_mono) simp_all
  with \<open>d < B\<close> show ?case by (simp add: horner_snoc mult.commute)
qed simp

lemma horner_0_imp: "horner B ds 0 = 0 \<Longrightarrow> 0 < B \<Longrightarrow> \<forall>d \<in> set ds. d = 0"
  by (induction ds rule: rev_induct) (auto simp: horner_snoc)

lemma dropWhile_all_zero: "\<forall>d \<in> set ds. d = 0 \<Longrightarrow> dropWhile (\<lambda>d. d = 0) ds = []"
  by simp

lemma strip_unique:
  assumes "0 < B" and "\<forall>d \<in> set xs. d < B" and "\<forall>d \<in> set ys. d < B"
    and "horner B xs 0 = horner B ys 0"
  shows "dropWhile (\<lambda>d. d = 0) xs = dropWhile (\<lambda>d. d = 0) ys"
  using assms
proof (induction xs arbitrary: ys rule: rev_induct)
  case Nil
  then have "\<forall>d \<in> set ys. d = 0" using horner_0_imp [of B ys] by simp
  then show ?case by (simp only: dropWhile_all_zero dropWhile.simps)
next
  case (snoc x xs)
  show ?case
  proof (cases ys rule: rev_cases)
    case Nil
    then have "\<forall>d \<in> set (xs @ [x]). d = 0"
      using snoc.prems horner_0_imp [of B "xs @ [x]"] by simp
    with Nil show ?thesis by (simp add: dropWhile_append)
  next
    case ys: (snoc ys' y)
    then have eq: "horner B xs 0 * B + x = horner B ys' 0 * B + y" and "x < B" "y < B"
      using snoc.prems by (simp_all add: horner_snoc)
    from arg_cong [OF eq, of "\<lambda>n. n mod B"] \<open>x < B\<close> \<open>y < B\<close> have "x = y" by simp
    with eq have "horner B xs 0 = horner B ys' 0" using \<open>0 < B\<close> by simp
    with snoc.IH [of ys'] snoc.prems ys have strip: "dropWhile (\<lambda>d. d = 0) xs = dropWhile (\<lambda>d. d = 0) ys'"
      by simp
    then have all: "(\<forall>d \<in> set xs. d = 0) = (\<forall>d \<in> set ys'. d = 0)"
      using dropWhile_eq_Nil_conv [of "\<lambda>d. d = 0" xs] dropWhile_eq_Nil_conv [of "\<lambda>d. d = 0" ys']
      by (simp only:)
    show ?thesis
    proof (cases "\<forall>d \<in> set xs. d = 0")
      case True
      with all have "\<forall>d \<in> set ys'. d = 0" by simp
      with True show ?thesis
        unfolding ys \<open>x = y\<close> by (simp only: dropWhile_append2)
    next
      case False
      then obtain a b where "a \<in> set xs" "a \<noteq> 0" "b \<in> set ys'" "b \<noteq> 0" using all by blast
      then show ?thesis
        unfolding ys \<open>x = y\<close> using strip by (simp only: dropWhile_append1 simp_thms)
    qed
  qed
qed

lemma horner_strip: "horner B (dropWhile (\<lambda>d. d = 0) ds) 0 = horner B ds 0"
  by (induction ds) simp_all

section \<open>A pass multiplies and adds\<close>

lemma length_multiply_add [simp]: "length (multiply_add mul B ds c) = length ds"
proof -
  have "length (carry_pass mul B c ds) = length ds" for ds
    by (induction ds arbitrary: c) (simp_all add: Let_def)
  then show ?thesis by (simp add: multiply_add_def)
qed

lemma digits_multiply_add: "0 < B \<Longrightarrow> d \<in> set (multiply_add mul B ds c) \<Longrightarrow> d < B"
proof -
  have "0 < B \<Longrightarrow> d \<in> set (carry_pass mul B c ds) \<Longrightarrow> d < B" for ds
    by (induction ds arbitrary: c) (auto simp: Let_def)
  then show "0 < B \<Longrightarrow> d \<in> set (multiply_add mul B ds c) \<Longrightarrow> d < B"
    by (simp add: multiply_add_def)
qed

lemma carry_pass_value:
  assumes "0 < B"
  shows "horner B (rev (carry_pass mul B c ds)) 0 = (c + mul * horner B (rev ds) 0) mod B ^ length ds"
proof (induction ds arbitrary: c)
  case (Cons d ds)
  define V where "V = horner B (rev ds) 0"
  define X where "X = c + mul * d + (mul * V) * B"
  have "X div B = (c + mul * d) div B + mul * V" "X mod B = (c + mul * d) mod B"
    using assms by (simp_all add: X_def)
  then have "horner B (rev (carry_pass mul B c (d # ds))) 0 = B * (X div B mod B ^ length ds) + X mod B"
    using Cons.IH [of "(c + mul * d) div B"]
    by (simp add: Let_def horner_snoc V_def mult.commute)
  also have "\<dots> = X mod (B * B ^ length ds)" by (simp add: mod_mult2_eq)
  finally show ?case by (simp add: X_def V_def horner_snoc algebra_simps)
qed simp

lemma multiply_add_value:
  "0 < B \<Longrightarrow> horner B (multiply_add mul B ds c) 0 = (c + mul * horner B ds 0) mod B ^ length ds"
  using carry_pass_value [of B mul c "rev ds"] by (simp add: multiply_add_def)

lemma horner_mod: "horner B vs (n mod m) mod m = horner B vs n mod m"
proof (induction vs arbitrary: n)
  case (Cons v vs)
  have "horner B vs ((n mod m) * B + v) mod m = horner B vs (((n mod m) * B + v) mod m) mod m"
    by (rule Cons.IH [symmetric])
  also have "((n mod m) * B + v) mod m = (n * B + v) mod m"
    by (metis mod_add_left_eq mod_mult_left_eq)
  finally show ?case by (simp add: Cons.IH)
qed simp

lemma foldl_multiply_add:
  assumes "0 < B"
  shows "horner B (foldl (multiply_add mul B) ds vs) 0 mod B ^ length ds =
         horner mul vs (horner B ds 0) mod B ^ length ds"
proof (induction vs arbitrary: ds)
  case (Cons v vs)
  have "horner B (foldl (multiply_add mul B) ds (v # vs)) 0 mod B ^ length ds =
      horner mul vs ((v + mul * horner B ds 0) mod B ^ length ds) mod B ^ length ds"
    using Cons.IH [of "multiply_add mul B ds v"] by (simp add: multiply_add_value assms)
  then show ?case by (simp add: horner_mod algebra_simps)
qed simp

lemma length_foldl_multiply_add [simp]: "length (foldl (multiply_add mul B) ds vs) = length ds"
  by (induction vs arbitrary: ds) simp_all

lemma digits_foldl_multiply_add:
  "0 < B \<Longrightarrow> \<forall>d \<in> set ds. d < B \<Longrightarrow> \<forall>d \<in> set (foldl (multiply_add mul B) ds vs). d < B"
  by (induction vs arbitrary: ds) (auto dest: digits_multiply_add)

text \<open>An array that is large enough holds the exact value.\<close>

lemma convert_digits:
  assumes "0 < B" and "horner mul vs 0 < B ^ k"
  defines "ds \<equiv> foldl (multiply_add mul B) (replicate k 0) vs"
  shows "horner B ds 0 = horner mul vs 0" and "\<forall>d \<in> set ds. d < B"
proof -
  show digits: "\<forall>d \<in> set ds. d < B"
    unfolding ds_def using assms(1) by (intro digits_foldl_multiply_add) auto
  have "horner B (replicate k 0) 0 = 0" using horner_zeros [of B k "[]"] by simp
  then have "horner B ds 0 mod B ^ k = horner mul vs 0 mod B ^ k"
    using foldl_multiply_add [OF assms(1), of mul "replicate k 0" vs] by (simp add: ds_def)
  moreover have "horner B ds 0 < B ^ k"
    using horner_less [OF digits] by (simp add: ds_def)
  ultimately show "horner B ds 0 = horner mul vs 0" using assms(2) by simp
qed

section \<open>The size estimates\<close>

lemma power_swap: "((a :: nat) ^ m) ^ n = (a ^ n) ^ m"
  by (metis power_mult mult.commute)

lemma power_estimate:
  fixes a b :: nat
  assumes "0 < q" and "0 < r" and "a ^ r \<le> b ^ s" and "s * q \<le> p * r" and "0 < b"
  shows "a ^ n \<le> b ^ (n * p div q + 1)"
proof -
  define m where "m = n * p div q + 1"
  have "n * p = n * p div q * q + n * p mod q" "n * p mod q < q" using assms(1) by simp_all
  then have "n * p \<le> m * q" unfolding m_def add_mult_distrib by linarith
  then have "n * p * r \<le> m * q * r" by (rule mult_le_mono1)
  moreover have "n * (s * q) \<le> n * (p * r)" using assms(4) by (rule mult_le_mono2)
  moreover have "n * (s * q) = s * n * q" "n * (p * r) = n * p * r" "m * q * r = m * r * q"
    by simp_all
  ultimately have "s * n * q \<le> m * r * q" by linarith
  then have le: "s * n \<le> m * r" using assms(1) by simp
  have "(a ^ n) ^ r = (a ^ r) ^ n" by (rule power_swap)
  also have "\<dots> \<le> (b ^ s) ^ n" using assms(3) by (rule power_mono) simp
  also have "\<dots> = b ^ (s * n)" by (rule power_mult [symmetric])
  also have "\<dots> \<le> b ^ (m * r)" using le by (rule power_increasing) (use assms(5) in simp)
  also have "\<dots> = (b ^ m) ^ r" by (rule power_mult)
  finally show ?thesis using assms(2) by (simp add: power_mono_iff m_def)
qed

lemma size_58: "256 ^ n \<le> (58 :: nat) ^ (n * 138 div 100 + 1)"
  by (rule power_estimate [where r = 8 and s = 11]) simp_all

lemma size_256: "58 ^ n \<le> (256 :: nat) ^ (n * 733 div 1000 + 1)"
  by (rule power_estimate [where r = 71 and s = 52]) simp_all

section \<open>Tables\<close>

text \<open>An alphabet is usable when it has 58 distinct characters and starts with \<open>1\<close>.\<close>

definition base58_wf :: "Base58 \<Rightarrow> bool" where
  "base58_wf cfg \<longleftrightarrow>
     length (map58 cfg) = 58 \<and> hd (map58 cfg) = CHR ''1''
     \<and> (\<forall>d < 58. reverse_map cfg ! of_char (map58 cfg ! d) = int d)"

lemma length_fill [simp]: "length (base58_fill cs i rm) = length rm"
  by (induction cs arbitrary: i rm) simp_all

lemma fill_other: "k \<notin> of_char ` set cs \<Longrightarrow> base58_fill cs i rm ! k = rm ! k"
  by (induction cs arbitrary: i rm) auto

lemma fill_nth:
  "distinct cs \<Longrightarrow> d < length cs \<Longrightarrow> length rm = 256 \<Longrightarrow>
   base58_fill cs i rm ! of_char (cs ! d) = int (i + d)"
proof (induction cs arbitrary: i rm d)
  case (Cons c cs)
  show ?case
  proof (cases d)
    case 0
    have "of_char c \<notin> (of_char ` set cs :: nat set)"
      using Cons.prems(1) by (auto simp: of_char_eq_iff)
    with 0 Cons.prems(3) show ?thesis by (simp add: fill_other)
  next
    case (Suc d')
    with Cons show ?thesis by simp
  qed
qed simp

lemma base58_wf_alphabet:
  "length cs = 58 \<Longrightarrow> distinct cs \<Longrightarrow> hd cs = CHR ''1'' \<Longrightarrow> base58_wf (base58_alphabet cs)"
  by (simp add: base58_wf_def base58_alphabet_def fill_nth)

lemma base58_wf_standard: "base58_wf base58_standard"
  unfolding base58_standard_def
  by (rule base58_wf_alphabet) (simp_all add: base58_chars_def)

section \<open>Encoding and decoding compose\<close>

lemma leading_zeroes:
  obtains rest where "bs = replicate (leading_count (\<lambda>b. b = 0) bs) 0 @ rest"
    and "rest = [] \<or> hd rest \<noteq> (0 :: byte)"
proof
  show "bs = replicate (leading_count (\<lambda>b. b = 0) bs) 0 @ dropWhile (\<lambda>b. b = 0) bs"
    by (induction bs) auto
  show "dropWhile (\<lambda>b. b = 0) bs = [] \<or> hd (dropWhile (\<lambda>b. b = 0) bs) \<noteq> 0"
    by (induction bs) auto
qed

lemma leading_count_replicate:
  "P x \<Longrightarrow> leading_count P (replicate k x @ xs) = k + leading_count P xs"
  by (induction k) simp_all

lemma decode_loop_digits:
  "base58_wf cfg \<Longrightarrow> \<forall>d \<in> set ds. d < 58 \<Longrightarrow>
   base58_decode_loop cfg (map (\<lambda>d. map58 cfg ! d) ds) b256 = Some (foldl (multiply_add 58 256) b256 ds)"
  by (induction ds arbitrary: b256) (simp_all add: base58_wf_def Let_def)

lemma map58_eq_1:
  assumes "base58_wf cfg" and "d < 58"
  shows "map58 cfg ! d = map58 cfg ! 0 \<longleftrightarrow> d = 0"
proof
  assume "map58 cfg ! d = map58 cfg ! 0"
  then have "reverse_map cfg ! of_char (map58 cfg ! d) = reverse_map cfg ! of_char (map58 cfg ! 0)"
    by simp
  with assms show "d = 0" by (simp add: base58_wf_def)
qed simp

lemma map58_0: "base58_wf cfg \<Longrightarrow> map58 cfg ! 0 = CHR ''1''"
  by (metis base58_wf_def hd_conv_nth list.size(3) zero_neq_numeral)

lemma leading_ones:
  assumes "base58_wf cfg" and "\<forall>d \<in> set ds. d < 58"
  shows "leading_count (\<lambda>c. c = map58 cfg ! 0) (map (\<lambda>d. map58 cfg ! d) (dropWhile (\<lambda>d. d = 0) ds)) = 0"
  using assms(2) by (induction ds) (simp_all add: map58_eq_1 [OF assms(1)])

lemma horner_bytes_less: "horner 256 (map unat (bs :: byte list)) 0 < 256 ^ length bs"
  using horner_less [of "map unat bs" 256] by (auto simp: unat_byte_less)

lemma strip_bytes:
  fixes rest :: "byte list"
  assumes "rest = [] \<or> hd rest \<noteq> 0"
  shows "dropWhile (\<lambda>d. d = 0) (map unat rest) = map unat rest"
  using assms by (cases rest) (auto simp: unat_eq_0)

lemma encode_digits:
  assumes "bs = replicate z 0 @ rest" and "z = leading_count (\<lambda>b. b = 0) bs" and "bs \<noteq> []"
  obtains ds where
    "base58_encode cfg bs = replicate z CHR ''1'' @ map (\<lambda>d. map58 cfg ! d) (dropWhile (\<lambda>d. d = 0) ds)"
    and "\<forall>d \<in> set ds. d < 58" and "horner 58 ds 0 = horner 256 (map unat rest) 0"
proof
  let ?k = "(length bs - z) * 138 div 100 + 1"
  let ?ds = "foldl (multiply_add 256 58) (replicate ?k 0) (map unat bs)"
  have len: "length bs - z = length rest" using arg_cong [OF assms(1), of length] by simp
  have val: "horner 256 (map unat bs) 0 = horner 256 (map unat rest) 0"
    using horner_zeros [of 256 z "map unat rest"] arg_cong [OF assms(1), of "map unat"] by simp
  have "horner 256 (map unat bs) 0 < 256 ^ length rest"
    unfolding val by (rule horner_bytes_less)
  also have "\<dots> \<le> 58 ^ ?k" using size_58 [of "length rest"] by (simp only: len)
  finally have bound: "horner 256 (map unat bs) 0 < 58 ^ ?k" .
  show "horner 58 ?ds 0 = horner 256 (map unat rest) 0" "\<forall>d \<in> set ?ds. d < 58"
    using convert_digits [OF _ bound] val by simp_all
  show "base58_encode cfg bs = replicate z CHR ''1'' @ map (\<lambda>d. map58 cfg ! d) (dropWhile (\<lambda>d. d = 0) ?ds)"
    using assms(2,3) by (simp add: base58_encode_def foldl_map Let_def)
qed

lemma decode_digits:
  assumes "base58_wf cfg" and "\<forall>d \<in> set ds. d < 58" and "horner 58 ds 0 = horner 256 (map unat rest) 0"
    and "rest = [] \<or> hd rest \<noteq> (0 :: byte)"
  shows "base58_decode cfg (replicate z CHR ''1'' @ map (\<lambda>d. map58 cfg ! d) (dropWhile (\<lambda>d. d = 0) ds)) binary
         = (True, replicate z 0 @ rest)"
proof -
  let ?ws = "replicate z 0 @ dropWhile (\<lambda>d. d = 0) ds"
  let ?s = "map (\<lambda>d. map58 cfg ! d) ?ws"
  let ?k = "length ?s * 733 div 1000 + 1"
  let ?b = "foldl (multiply_add 58 256) (replicate ?k 0) ?ws"
  have s: "replicate z CHR ''1'' @ map (\<lambda>d. map58 cfg ! d) (dropWhile (\<lambda>d. d = 0) ds) = ?s"
    by (simp add: map58_0 [OF assms(1)])
  have ws: "\<forall>d \<in> set ?ws. d < 58" using assms(2) by (auto dest: set_dropWhileD)
  have val: "horner 58 ?ws 0 = horner 256 (map unat rest) 0"
    using assms(3) by (simp add: horner_zeros horner_strip)
  have "horner 58 ?ws 0 < 58 ^ length ?ws" by (rule horner_less [OF ws])
  also have "\<dots> \<le> 256 ^ ?k" using size_256 [of "length ?ws"] by (simp only: length_map)
  finally have bound: "horner 58 ?ws 0 < 256 ^ ?k" .
  have "horner 256 ?b 0 = horner 58 ?ws 0" "\<forall>d \<in> set ?b. d < 256"
    using convert_digits [OF _ bound] by simp_all
  then have "dropWhile (\<lambda>d. d = 0) ?b = dropWhile (\<lambda>d. d = 0) (map unat rest)"
    by (intro strip_unique [of 256]) (auto simp: val unat_byte_less)
  then have b: "dropWhile (\<lambda>d. d = 0) ?b = map unat rest"
    using strip_bytes [OF assms(4)] by simp
  have lead: "leading_count (\<lambda>c. c = map58 cfg ! 0) ?s = z"
    using leading_count_replicate [of "\<lambda>c. c = map58 cfg ! 0" "map58 cfg ! 0" z]
      leading_ones [OF assms(1,2)] by simp
  have loop: "base58_decode_loop cfg ?s (replicate ?k 0) = Some ?b"
    by (rule decode_loop_digits [OF assms(1) ws])
  show ?thesis
    unfolding s base58_decode_def loop option.case lead b by (simp add: comp_def)
qed

section \<open>Properties\<close>



text \<open>
  With an alphabet that does not start with \<open>1\<close> leading zero bytes are lost: the encoder
  always writes a literal \<open>1\<close> for them, while the decoder looks for the alphabet's own first
  character. With the alphabet below (the standard one with its first character moved to the
  end) a zero byte comes back as the byte 57.
\<close>

theorem base58_custom_alphabet_zero:
  "base58_decode (base58_alphabet (tl base58_chars @ [CHR ''1'']))
     (base58_encode (base58_alphabet (tl base58_chars @ [CHR ''1''])) [0]) [] = (True, [57])"
proof -
  let ?cs = "tl base58_chars @ [CHR ''1'']"
  have cs: "length ?cs = 58" "distinct ?cs" "?cs ! 57 = CHR ''1''" "?cs ! 0 = CHR ''2''"
    by (simp_all add: base58_chars_def)
  have "base58_encode (base58_alphabet ?cs) [0] = ''1''"
    by (simp add: base58_encode_def multiply_add_def Let_def)
  moreover have "reverse_map (base58_alphabet ?cs) ! of_char CHR ''1'' = 57"
    using fill_nth [of ?cs 57 "replicate 256 (-1)" 0] cs by (simp add: base58_alphabet_def)
  ultimately show ?thesis
    using cs by (simp add: base58_decode_def base58_alphabet_def multiply_add_def Let_def)
qed

text \<open>
  Decoding replaces what was in the output vector: a successful decode does not depend on
  it, and a failed one (some character outside the alphabet) leaves it alone.
\<close>

theorem base58_decode_replaces:
  "base58_decode cfg s binary =
     (if fst (base58_decode cfg s []) then base58_decode cfg s [] else (False, binary))"
  by (simp add: base58_decode_def split: option.split)

end
