(* ===== verification/Bech32.thy ===== *)
theory Bech32
  imports OT_Prelude
begin

unbundle bit_operations_syntax

text \<open>
  The Bech32 payload codec of libs/text/bech32.cc, with the two-way constant map and the signed
  shifts it uses from libs/gen/ot-gen.h. The encoder walks the bytes five bits at a time; the
  decoder shifts five-bit groups into a byte and pushes it out each time it fills.
\<close>

section \<open>Gen: constant maps and shifts\<close>

fun cmap_lookup :: "('k \<times> 'v) list \<Rightarrow> 'k \<Rightarrow> 'v option" where
  "cmap_lookup [] key = None"
| "cmap_lookup (d # data) key = (if fst d = key then Some (snd d) else cmap_lookup data key)"

fun cmap_reverse_lookup :: "('k \<times> 'v) list \<Rightarrow> 'v \<Rightarrow> 'k option" where
  "cmap_reverse_lookup [] value = None"
| "cmap_reverse_lookup (d # data) value =
     (if snd d = value then Some (fst d) else cmap_reverse_lookup data value)"

definition gen_shiftr :: "byte \<Rightarrow> int \<Rightarrow> byte" where
  "gen_shiftr v places = (if places \<ge> 0 then drop_bit (nat places) v else push_bit (nat \<bar>places\<bar>) v)"

definition gen_shiftl :: "byte \<Rightarrow> int \<Rightarrow> byte" where
  "gen_shiftl v places = (if places \<ge> 0 then push_bit (nat places) v else drop_bit (nat \<bar>places\<bar>) v)"

section \<open>Bech32\<close>

definition bech32_data :: "(byte \<times> char) list" where
  "bech32_data =
     [(0, CHR ''q''), (1, CHR ''p''), (2, CHR ''z''), (3, CHR ''r''), (4, CHR ''y''),
      (5, CHR ''9''), (6, CHR ''x''), (7, CHR ''8''), (8, CHR ''g''), (9, CHR ''f''),
      (10, CHR ''2''), (11, CHR ''t''), (12, CHR ''v''), (13, CHR ''d''), (14, CHR ''w''),
      (15, CHR ''0''), (16, CHR ''s''), (17, CHR ''3''), (18, CHR ''j''), (19, CHR ''n''),
      (20, CHR ''5''), (21, CHR ''4''), (22, CHR ''k''), (23, CHR ''h''), (24, CHR ''c''),
      (25, CHR ''e''), (26, CHR ''6''), (27, CHR ''m''), (28, CHR ''u''), (29, CHR ''a''),
      (30, CHR ''7''), (31, CHR ''l'')]"

definition bech32_num :: "byte list \<Rightarrow> nat \<Rightarrow> byte" where
  "bech32_num binary bitpos =
     0x1F AND (gen_shiftr (binary ! (bitpos div 8)) (3 - int (bitpos mod 8))
       + (if bitpos mod 8 > 3 \<and> 1 + bitpos div 8 < length binary
          then drop_bit (11 - bitpos mod 8) (binary ! (1 + bitpos div 8)) else 0))"

text \<open>\<open>None\<close> stands for the \<^verbatim>\<open>range_error\<close> of a failed lookup.\<close>

function bech32_encode_loop :: "byte list \<Rightarrow> nat \<Rightarrow> string option" where
  "bech32_encode_loop binary bitpos =
     (if bitpos < length binary * 8
      then (case cmap_lookup bech32_data (bech32_num binary bitpos) of
              None \<Rightarrow> None
            | Some c \<Rightarrow> map_option (\<lambda>r. c # r) (bech32_encode_loop binary (bitpos + 5)))
      else Some [])"
  by pat_completeness auto
termination
  by (relation "measure (\<lambda>(binary, bitpos). length binary * 8 - bitpos)") auto

definition bech32_encode :: "byte list \<Rightarrow> string option" where
  "bech32_encode binary = bech32_encode_loop binary 0"

text \<open>
  The decoder's loop state is the byte under construction and its fill position. A character
  outside the alphabet raises; the bytes pushed before it stay in the output.
\<close>

fun bech32_decode_loop :: "string \<Rightarrow> nat \<Rightarrow> byte \<Rightarrow> byte list \<Rightarrow> bool \<times> byte list" where
  "bech32_decode_loop [] bytepos b binary = (True, binary)"
| "bech32_decode_loop (c # s) bytepos b binary =
     (case cmap_reverse_lookup bech32_data c of
        None \<Rightarrow> (False, binary)
      | Some num \<Rightarrow>
          (let b = b OR gen_shiftl num (8 - (int bytepos + 5))
           in if bytepos + 5 \<ge> 8
              then bech32_decode_loop s ((bytepos + 5) mod 8)
                     (push_bit (8 - (bytepos + 5) mod 8) num) (binary @ [b])
              else bech32_decode_loop s ((bytepos + 5) mod 8) b binary))"

definition bech32_decode :: "string \<Rightarrow> byte list \<Rightarrow> bool \<times> byte list" where
  "bech32_decode s binary = bech32_decode_loop s 0 0 binary"

fun bech32_decode_as_5_bit :: "string \<Rightarrow> byte list \<Rightarrow> bool \<times> byte list" where
  "bech32_decode_as_5_bit [] binary = (True, binary)"
| "bech32_decode_as_5_bit (c # s) binary =
     (case cmap_reverse_lookup bech32_data c of
        None \<Rightarrow> (False, binary)
      | Some num \<Rightarrow> bech32_decode_as_5_bit s (binary @ [num]))"

declare bech32_encode_loop.simps [simp del]

section \<open>The alphabet is a bijection on five-bit values\<close>

lemma cmap_lookup_map_of: "cmap_lookup data k = map_of data k"
  by (induction data) auto

lemma cmap_reverse_lookup_map_of:
  "cmap_reverse_lookup data v = map_of (map (\<lambda>d. (snd d, fst d)) data) v"
  by (induction data) auto

lemma bech32_keys: "map fst bech32_data = map word_of_nat [0..<32]"
  by (simp add: bech32_data_def upt_rec)

lemma bech32_chars_distinct: "distinct (map snd bech32_data)"
  by (simp add: bech32_data_def)

lemma bech32_lookup:
  assumes "num < 32"
  obtains c where "cmap_lookup bech32_data num = Some c"
    and "cmap_reverse_lookup bech32_data c = Some num"
proof -
  have "num = word_of_nat (unat num)" "unat num < 32"
    using assms by (simp_all add: word_less_nat_alt)
  then have "num \<in> set (map fst bech32_data)"
    unfolding bech32_keys by (metis atLeastLessThan_iff image_eqI le0 set_map set_upt)
  then obtain c where c: "map_of bech32_data num = Some c"
    using map_of_eq_None_iff [of bech32_data num] by auto
  then have "(num, c) \<in> set bech32_data" by (rule map_of_SomeD)
  then have "(c, num) \<in> set (map (\<lambda>d. (snd d, fst d)) bech32_data)" by force
  moreover have "distinct (map fst (map (\<lambda>d. (snd d, fst d)) bech32_data))"
    using bech32_chars_distinct by (simp add: comp_def)
  ultimately have "map_of (map (\<lambda>d. (snd d, fst d)) bech32_data) c = Some num"
    by (simp only: map_of_eq_Some_iff)
  with c that show ?thesis
    by (simp add: cmap_lookup_map_of cmap_reverse_lookup_map_of)
qed

lemma bech32_num_less: "bech32_num binary bitpos < 32"
proof -
  have "(0x1F AND x :: byte) = take_bit 5 x" for x
    by (simp add: take_bit_eq_mask mask_eq_exp_minus_1 and.commute)
  moreover have "unat (take_bit 5 x :: byte) < 32" for x
    by (simp add: unsigned_take_bit_eq take_bit_nat_less_exp [of 5, simplified])
  ultimately show ?thesis by (simp add: bech32_num_def word_less_nat_alt)
qed

section \<open>Five-bit groups\<close>

text \<open>The decoder on five-bit values instead of characters.\<close>

fun decode_nums :: "byte list \<Rightarrow> nat \<Rightarrow> byte \<Rightarrow> byte list \<Rightarrow> byte list" where
  "decode_nums [] bytepos b binary = binary"
| "decode_nums (num # ns) bytepos b binary =
     (let b = b OR gen_shiftl num (8 - (int bytepos + 5))
      in if bytepos + 5 \<ge> 8
         then decode_nums ns ((bytepos + 5) mod 8) (push_bit (8 - (bytepos + 5) mod 8) num) (binary @ [b])
         else decode_nums ns ((bytepos + 5) mod 8) b binary)"

function encode_nums :: "byte list \<Rightarrow> nat \<Rightarrow> byte list" where
  "encode_nums binary bitpos =
     (if bitpos < length binary * 8 then bech32_num binary bitpos # encode_nums binary (bitpos + 5) else [])"
  by pat_completeness auto
termination
  by (relation "measure (\<lambda>(binary, bitpos). length binary * 8 - bitpos)") auto

declare encode_nums.simps [simp del]

lemma encode_loop_nums:
  "\<exists>s. bech32_encode_loop binary bitpos = Some s \<and>
       (\<forall>bytepos b acc. bech32_decode_loop s bytepos b acc =
          (True, decode_nums (encode_nums binary bitpos) bytepos b acc))
       \<and> length s = length (encode_nums binary bitpos)"
proof (induction binary bitpos rule: bech32_encode_loop.induct)
  case (1 binary bitpos)
  show ?case
  proof (cases "bitpos < length binary * 8")
    case True
    obtain c where c: "cmap_lookup bech32_data (bech32_num binary bitpos) = Some c"
      "cmap_reverse_lookup bech32_data c = Some (bech32_num binary bitpos)"
      using bech32_lookup [OF bech32_num_less] by blast
    with "1.IH" [OF True c(1)] True show ?thesis
      by (auto simp: bech32_encode_loop.simps [of binary bitpos] encode_nums.simps [of binary bitpos] Let_def)
  next
    case False
    then show ?thesis
      by (simp add: bech32_encode_loop.simps [of binary bitpos] encode_nums.simps [of binary bitpos])
  qed
qed

text \<open>One group at byte offset \<open>i\<close>, bit offset \<open>r\<close>: bytes beyond the end count as zero.\<close>

definition byte_at :: "byte list \<Rightarrow> nat \<Rightarrow> byte" where
  "byte_at binary i = (if i < length binary then binary ! i else 0)"

lemma and_31: "(0x1F AND x :: byte) = take_bit 5 x"
  by (simp add: take_bit_eq_mask mask_eq_exp_minus_1 and.commute)

lemma add_shifted: "k \<le> 8 \<Longrightarrow> push_bit k x + drop_bit (8 - k) (y :: byte) = push_bit k x OR drop_bit (8 - k) y"
  by (rule disjunctive_add_eq_or) (auto simp: bit_eq_iff bit_simps dest: bit_imp_le_length)

lemma bech32_num_at:
  assumes "i < length binary" and "r < 8"
  shows "bech32_num binary (8 * i + r) =
    take_bit 5 (if r \<le> 3 then drop_bit (3 - r) (byte_at binary i)
                else push_bit (r - 3) (byte_at binary i) OR drop_bit (11 - r) (byte_at binary (i + 1)))"
proof -
  have ix: "(8 * i + r) div 8 = i" "(8 * i + r) mod 8 = r" using assms(2) by simp_all
  show ?thesis
  proof (cases "r \<le> 3")
    case True
    then show ?thesis
      using assms ix by (simp add: bech32_num_def and_31 gen_shiftr_def byte_at_def nat_diff_distrib)
  next
    case False
    then have "nat \<bar>3 - int r\<bar> = r - 3" "8 - (r - 3) = 11 - r" "r - 3 \<le> 8" using assms(2) by linarith+
    with False assms ix add_shifted [of "r - 3" "binary ! i" "binary ! (i + 1)"] show ?thesis
      by (simp add: bech32_num_def and_31 gen_shiftr_def byte_at_def)
  qed
qed

lemma byte_eqI:
  assumes "bit x 0 = bit y 0" "bit x 1 = bit y 1" "bit x 2 = bit y 2" "bit x 3 = bit y 3"
    "bit x 4 = bit y 4" "bit x 5 = bit y 5" "bit x 6 = bit y 6" "bit x 7 = bit y 7"
  shows "x = (y :: byte)"
proof (rule bit_word_eqI)
  fix n
  assume "n < LENGTH(8)"
  then have "n = 0 \<or> n = 1 \<or> n = 2 \<or> n = 3 \<or> n = 4 \<or> n = 5 \<or> n = 6 \<or> n = 7" by auto
  with assms show "bit x n = bit y n" by metis
qed

lemma bit_byte_beyond: "8 \<le> n \<Longrightarrow> \<not> bit (x :: byte) n"
  using bit_imp_le_length [of x n] by auto

lemma regroup:
  fixes a b c d e :: byte
  shows "push_bit 3 (take_bit 5 (drop_bit 3 a)) OR drop_bit 2 (take_bit 5 (push_bit 2 a OR drop_bit 6 b)) = a"
    and "push_bit 6 (take_bit 5 (push_bit 2 a OR drop_bit 6 b)) OR push_bit 1 (take_bit 5 (drop_bit 1 b))
         OR drop_bit 4 (take_bit 5 (push_bit 4 b OR drop_bit 4 c)) = b"
    and "push_bit 4 (take_bit 5 (push_bit 4 b OR drop_bit 4 c))
         OR drop_bit 1 (take_bit 5 (push_bit 1 c OR drop_bit 7 d)) = c"
    and "push_bit 7 (take_bit 5 (push_bit 1 c OR drop_bit 7 d)) OR push_bit 2 (take_bit 5 (drop_bit 2 d))
         OR drop_bit 3 (take_bit 5 (push_bit 3 d OR drop_bit 5 e)) = d"
    and "push_bit 5 (take_bit 5 (push_bit 3 d OR drop_bit 5 e)) OR take_bit 5 e = e"
  by (rule byte_eqI; simp del: push_bit_Suc push_bit_Suc_numeral add: bit_simps bit_byte_beyond;
      simp add: numeral_eq_Suc)+

section \<open>Regrouping the stream\<close>

definition group5 :: "byte list \<Rightarrow> nat \<Rightarrow> nat \<Rightarrow> byte" where
  "group5 binary i r =
     take_bit 5 (if r \<le> 3 then drop_bit (3 - r) (byte_at binary i)
                 else push_bit (r - 3) (byte_at binary i) OR drop_bit (11 - r) (byte_at binary (i + 1)))"

lemma encode_nums_stop: "length binary \<le> i \<Longrightarrow> encode_nums binary (8 * i + r) = []"
  by (simp add: encode_nums.simps [of binary "8 * i + r"])

lemma encode_nums_low:
  "i < length binary \<Longrightarrow> r < 3 \<Longrightarrow>
   encode_nums binary (8 * i + r) = group5 binary i r # encode_nums binary (8 * i + (r + 5))"
  by (simp add: encode_nums.simps [of binary "8 * i + r"] bech32_num_at group5_def add.assoc)

lemma encode_nums_high:
  assumes "i < length binary" "3 \<le> r" "r < 8"
  shows "encode_nums binary (8 * i + r) = group5 binary i r # encode_nums binary (8 * Suc i + (r - 3))"
proof -
  have "8 * i + r + 5 = 8 * Suc i + (r - 3)" using assms(2) by simp
  moreover have "8 * i + r < length binary * 8" using assms by linarith
  ultimately show ?thesis
    using assms by (simp only: encode_nums.simps [of binary "8 * i + r"] if_True bech32_num_at group5_def)
qed

lemma decode_2: "decode_nums (n0 # n1 # ns) 0 0 acc =
    decode_nums ns 2 (push_bit 6 n1) (acc @ [push_bit 3 n0 OR drop_bit 2 n1])"
  by (simp add: Let_def gen_shiftl_def)

lemma decode_4: "decode_nums (n2 # n3 # ns) 2 b acc =
    decode_nums ns 4 (push_bit 4 n3) (acc @ [b OR push_bit 1 n2 OR drop_bit 4 n3])"
  by (simp add: Let_def gen_shiftl_def or.assoc)

lemma decode_5: "decode_nums (n4 # ns) 4 b acc =
    decode_nums ns 1 (push_bit 7 n4) (acc @ [b OR drop_bit 1 n4])"
  by (simp add: Let_def gen_shiftl_def)

lemma decode_7: "decode_nums (n5 # n6 # ns) 1 b acc =
    decode_nums ns 3 (push_bit 5 n6) (acc @ [b OR push_bit 2 n5 OR drop_bit 3 n6])"
  by (simp add: Let_def gen_shiftl_def or.assoc)

lemma decode_8: "decode_nums (n7 # ns) 3 b acc = decode_nums ns 0 0 (acc @ [b OR n7])"
proof -
  have "push_bit 8 n7 = (0 :: byte)" by (rule bit_word_eqI) (simp add: bit_simps)
  then show ?thesis by (simp add: Let_def gen_shiftl_def)
qed

lemma decode_0: "decode_nums [] bytepos b acc = acc"
  by simp

lemmas decode_pieces = decode_2 decode_4 decode_5 decode_7 decode_8 decode_0

lemma group5_values:
  "group5 binary i 0 = take_bit 5 (drop_bit 3 (byte_at binary i))"
  "group5 binary i 5 = take_bit 5 (push_bit 2 (byte_at binary i) OR drop_bit 6 (byte_at binary (i + 1)))"
  "group5 binary i 2 = take_bit 5 (drop_bit 1 (byte_at binary i))"
  "group5 binary i 7 = take_bit 5 (push_bit 4 (byte_at binary i) OR drop_bit 4 (byte_at binary (i + 1)))"
  "group5 binary i 4 = take_bit 5 (push_bit 1 (byte_at binary i) OR drop_bit 7 (byte_at binary (i + 1)))"
  "group5 binary i 1 = take_bit 5 (drop_bit 2 (byte_at binary i))"
  "group5 binary i 6 = take_bit 5 (push_bit 3 (byte_at binary i) OR drop_bit 5 (byte_at binary (i + 1)))"
  "group5 binary i 3 = take_bit 5 (byte_at binary i)"
  by (simp_all add: group5_def del: push_bit_Suc)

lemma regroup_at:
  "push_bit 3 (group5 binary i 0) OR drop_bit 2 (group5 binary i 5) = byte_at binary i"
  "push_bit 6 (group5 binary i 5) OR push_bit 1 (group5 binary (i + 1) 2) OR drop_bit 4 (group5 binary (i + 1) 7)
   = byte_at binary (i + 1)"
  "push_bit 4 (group5 binary i 7) OR drop_bit 1 (group5 binary (i + 1) 4) = byte_at binary (i + 1)"
  "push_bit 7 (group5 binary i 4) OR push_bit 2 (group5 binary (i + 1) 1) OR drop_bit 3 (group5 binary (i + 1) 6)
   = byte_at binary (i + 1)"
  "push_bit 5 (group5 binary i 6) OR group5 binary (i + 1) 3 = byte_at binary (i + 1)"
  unfolding group5_values by (rule regroup)+

text \<open>
  At each byte boundary the decoder holds the bits of the last group that belong to the next
  byte. There are five alignments, and each consumes one byte and moves to the next alignment.
\<close>

fun carried :: "byte list \<Rightarrow> nat \<Rightarrow> nat \<Rightarrow> byte" where
  "carried binary r 0 = 0"
| "carried binary r (Suc j) =
     (if r = 2 then push_bit 6 (group5 binary j 5)
      else if r = 4 then push_bit 4 (group5 binary j 7)
      else if r = 1 then push_bit 7 (group5 binary j 4)
      else if r = 3 then push_bit 5 (group5 binary j 6)
      else 0)"

lemma align_0:
  "i < length binary \<Longrightarrow> decode_nums (encode_nums binary (8 * i + 0)) 0 (carried binary 0 i) acc =
   decode_nums (encode_nums binary (8 * Suc i + 2)) 2 (carried binary 2 (Suc i)) (acc @ [byte_at binary i])"
  using encode_nums_low [of i binary 0] encode_nums_high [of i binary 5] regroup_at(1) [of binary i]
  by (cases i) (simp_all add: decode_pieces del: decode_nums.simps)

lemma align_2:
  "Suc j < length binary \<Longrightarrow> decode_nums (encode_nums binary (8 * Suc j + 2)) 2 (carried binary 2 (Suc j)) acc =
   decode_nums (encode_nums binary (8 * Suc (Suc j) + 4)) 4 (carried binary 4 (Suc (Suc j))) (acc @ [byte_at binary (Suc j)])"
  using encode_nums_low [of "Suc j" binary 2] encode_nums_high [of "Suc j" binary 7] regroup_at(2) [of binary j]
  by (simp add: decode_pieces del: decode_nums.simps push_bit_Suc)

lemma align_4:
  "Suc j < length binary \<Longrightarrow> decode_nums (encode_nums binary (8 * Suc j + 4)) 4 (carried binary 4 (Suc j)) acc =
   decode_nums (encode_nums binary (8 * Suc (Suc j) + 1)) 1 (carried binary 1 (Suc (Suc j))) (acc @ [byte_at binary (Suc j)])"
  using encode_nums_high [of "Suc j" binary 4] regroup_at(3) [of binary j]
  by (simp add: decode_pieces del: decode_nums.simps push_bit_Suc)

lemma align_1:
  "Suc j < length binary \<Longrightarrow> decode_nums (encode_nums binary (8 * Suc j + 1)) 1 (carried binary 1 (Suc j)) acc =
   decode_nums (encode_nums binary (8 * Suc (Suc j) + 3)) 3 (carried binary 3 (Suc (Suc j))) (acc @ [byte_at binary (Suc j)])"
  using encode_nums_low [of "Suc j" binary 1] encode_nums_high [of "Suc j" binary 6] regroup_at(4) [of binary j]
  by (simp add: decode_pieces decode_7 [unfolded One_nat_def] del: decode_nums.simps push_bit_Suc)

lemma align_3:
  "Suc j < length binary \<Longrightarrow> decode_nums (encode_nums binary (8 * Suc j + 3)) 3 (carried binary 3 (Suc j)) acc =
   decode_nums (encode_nums binary (8 * Suc (Suc j) + 0)) 0 (carried binary 0 (Suc (Suc j))) (acc @ [byte_at binary (Suc j)])"
  using encode_nums_high [of "Suc j" binary 3] regroup_at(5) [of binary j]
  by (simp add: decode_pieces del: decode_nums.simps push_bit_Suc)

lemma decode_encode_nums:
  "i \<le> length binary \<Longrightarrow> r = 0 \<or> i \<noteq> 0 \<and> r \<in> {1, 2, 3, 4} \<Longrightarrow>
   decode_nums (encode_nums binary (8 * i + r)) r (carried binary r i) acc = acc @ drop i binary"
proof (induction "length binary - i" arbitrary: i r acc)
  case 0
  then show ?case by (simp add: encode_nums_stop)
next
  case (Suc m)
  then have i: "i < length binary" "m = length binary - Suc i" by simp_all
  then have cons: "drop i binary = byte_at binary i # drop (Suc i) binary"
    by (simp add: byte_at_def Cons_nth_drop_Suc)
  note IH = Suc.hyps(1) [OF i(2)]
  show ?case
  proof (cases "r = 0")
    case True
    with i IH [of 2] show ?thesis by (simp only: align_0 cons) simp
  next
    case False
    with Suc.prems(2) obtain j where "i = Suc j" "r \<in> {1, 2, 3, 4}" by (cases i) auto
    with i IH [of 0] IH [of 1] IH [of 3] IH [of 4] cons show ?thesis
      by (elim insertE emptyE) (simp_all only: align_1 align_2 align_3 align_4, simp_all)
  qed
qed

section \<open>Properties\<close>

text \<open>
  Bech32 round trip. The encoder never raises, and decoding what it produced appends exactly
  the original bytes; the zero bits that pad the last character are dropped.
\<close>

theorem bech32_roundtrip:
  "\<exists>s. bech32_encode bs = Some s \<and> bech32_decode s binary = (True, binary @ bs)"
proof -
  obtain s where "bech32_encode_loop bs 0 = Some s"
    and "bech32_decode_loop s 0 0 binary = (True, decode_nums (encode_nums bs 0) 0 0 binary)"
    using encode_loop_nums [of bs 0] by blast
  moreover have "decode_nums (encode_nums bs 0) 0 0 binary = binary @ bs"
    using decode_encode_nums [of 0 bs 0 binary] by simp
  ultimately show ?thesis by (simp add: bech32_encode_def bech32_decode_def)
qed

end
