(* ===== verification/Convert.thy ===== *)
theory Convert
  imports OT_Prelude
begin

unbundle bit_operations_syntax

text \<open>
  The number and hex conversions of libs/text/convert.cc, with the parts of the C library they
  call: \<^verbatim>\<open>printf\<close> of integers, \<^verbatim>\<open>atoi\<close> and the \<^verbatim>\<open>%llu\<close>, \<^verbatim>\<open>%x\<close> conversions of
  \<^verbatim>\<open>sscanf\<close>. An \<^verbatim>\<open>int\<close> is a 32-bit word read through \<^const>\<open>sint\<close>. The floating point
  conversions are left out.
\<close>

section \<open>The C library conversions\<close>

definition digit_char :: "nat \<Rightarrow> char" where
  "digit_char d = ''0123456789abcdef'' ! d"

fun print_digits :: "nat \<Rightarrow> nat \<Rightarrow> string" where
  "print_digits base n =
     (if n < base \<or> base < 2 then [digit_char n]
      else print_digits base (n div base) @ [digit_char (n mod base)])"

definition digit_value :: "nat \<Rightarrow> char \<Rightarrow> nat option" where
  "digit_value base c =
     (let v = (if char_between CHR ''0'' CHR ''9'' c then Some (of_char c - of_char CHR ''0'')
               else if char_between CHR ''a'' CHR ''f'' c then Some (10 + of_char c - of_char CHR ''a'')
               else if char_between CHR ''A'' CHR ''F'' c then Some (10 + of_char c - of_char CHR ''A'')
               else None)
      in case v of Some d \<Rightarrow> if d < base then Some d else None | None \<Rightarrow> None)"

fun scan_digits :: "nat \<Rightarrow> nat \<Rightarrow> string \<Rightarrow> nat" where
  "scan_digits base n [] = n"
| "scan_digits base n (c # s) =
     (case digit_value base c of None \<Rightarrow> n | Some d \<Rightarrow> scan_digits base (n * base + d) s)"

definition scan_prefix :: "nat \<Rightarrow> string \<Rightarrow> string" where
  "scan_prefix base s =
     (case s of
        z # x # r \<Rightarrow> if base = 16 \<and> z = CHR ''0'' \<and> (x = CHR ''x'' \<or> x = CHR ''X'') then r else s
      | _ \<Rightarrow> s)"

definition scan_magnitude :: "nat \<Rightarrow> string \<Rightarrow> nat" where
  "scan_magnitude base s = scan_digits base 0 (scan_prefix base s)"

definition scan_signed :: "nat \<Rightarrow> string \<Rightarrow> bool \<times> nat" where
  "scan_signed base str =
     (let s = dropWhile isspace str
      in case s of
           [] \<Rightarrow> (False, 0)
         | c # r \<Rightarrow> if c = CHR ''-'' then (True, scan_magnitude base r)
                    else if c = CHR ''+'' then (False, scan_magnitude base r)
                    else (False, scan_magnitude base s))"

definition strtol :: "string \<Rightarrow> int" where
  "strtol s = (case scan_signed 10 s of (neg, m) \<Rightarrow>
     if neg then max (- int m) (- (2 ^ 63)) else min (int m) (2 ^ 63 - 1))"

definition atoi :: "string \<Rightarrow> u32" where
  "atoi s = word_of_int (strtol s)"

definition strtoull :: "nat \<Rightarrow> string \<Rightarrow> u64" where
  "strtoull base s = (case scan_signed base s of (neg, m) \<Rightarrow>
     if m \<ge> 2 ^ 64 then - 1 else if neg then - of_nat m else of_nat m)"

section \<open>Decimal conversions\<close>

definition itos :: "u32 \<Rightarrow> string" where
  "itos i = (if sint i < 0 then CHR ''-'' # print_digits 10 (nat (- sint i))
             else print_digits 10 (nat (sint i)))"

definition stoi :: "string \<Rightarrow> u32" where
  "stoi s = atoi s"

definition i64tos :: "u64 \<Rightarrow> string" where
  "i64tos i = print_digits 10 (unat i)"

definition stoi64 :: "string \<Rightarrow> u64" where
  "stoi64 s = strtoull 10 s"

text \<open>The loop that inserts zeroes after the sign runs until the text is long enough.\<close>

definition zero_pad :: "nat \<Rightarrow> nat \<Rightarrow> string \<Rightarrow> string" where
  "zero_pad width negmod s = take negmod s @ replicate (width - length s) CHR ''0'' @ drop negmod s"

definition ifixtos :: "u32 \<Rightarrow> int \<Rightarrow> string" where
  "ifixtos i decimal_places =
     (let s = itos i
      in if decimal_places = 0 then s
         else if decimal_places < 0 then s @ replicate (nat (- decimal_places)) CHR ''0''
         else let negmod = (if sint i < 0 then 1 else 0);
                  t = zero_pad (nat decimal_places + 1 + negmod) negmod s;
                  at = length t - nat decimal_places
              in take at t @ ''.'' @ drop at t)"

text \<open>
  The positions passed to \<^verbatim>\<open>substr\<close> and \<^verbatim>\<open>erase\<close> are computed in unsigned arithmetic: a text
  shorter than the number of places makes \<^verbatim>\<open>erase\<close> throw \<^verbatim>\<open>out_of_range\<close>, here \<open>None\<close>, and
  makes \<^verbatim>\<open>substr\<close> take the whole text.
\<close>

definition stoifix :: "string \<Rightarrow> int \<Rightarrow> u32 option" where
  "stoifix s decimal_places =
     (if decimal_places \<le> 0
      then Some (stoi (if int (length s) + decimal_places < 0 then s
                       else take (nat (int (length s) + decimal_places)) s))
      else if int (length s) - decimal_places - 1 < 0 then None
      else let at = length s - nat decimal_places - 1
           in Some (stoi (take at s @ drop (at + 1) s)))"

definition stob :: "string \<Rightarrow> bool" where
  "stob s = (case s of [] \<Rightarrow> False
     | c # _ \<Rightarrow> c \<in> {CHR ''T'', CHR ''t'', CHR ''Y'', CHR ''y'', CHR ''1''})"

section \<open>Hex conversions\<close>

definition itox :: "u32 \<Rightarrow> string" where
  "itox i = print_digits 16 (unat i)"

text \<open>The \<^verbatim>\<open>%x\<close> conversion reads an \<^verbatim>\<open>unsigned long\<close> and stores its low half.\<close>

definition xtoi :: "string \<Rightarrow> u32" where
  "xtoi s = ucast (strtoull 16 s)"

definition i64tox :: "u64 \<Rightarrow> string" where
  "i64tox i = print_digits 16 (unat i)"

definition xtoi64 :: "string \<Rightarrow> u64" where
  "xtoi64 s = strtoull 16 s"

definition hex2 :: "byte \<Rightarrow> string" where
  "hex2 b = (let s = print_digits 16 (unat b) in replicate (2 - length s) CHR ''0'' @ s)"

definition btox :: "byte list \<Rightarrow> string" where
  "btox data = concat (map hex2 data)"

definition btox_string :: "string \<Rightarrow> string" where
  "btox_string data = concat (map (\<lambda>c. hex2 (byte_of_char c)) data)"

definition decode_nybble :: "char \<Rightarrow> byte option" where
  "decode_nybble c =
     (if char_between CHR ''a'' CHR ''f'' c then Some (byte_of_char c - byte_of_char CHR ''a'' + 10)
      else if char_between CHR ''A'' CHR ''F'' c then Some (byte_of_char c - byte_of_char CHR ''A'' + 10)
      else if char_between CHR ''0'' CHR ''9'' c then Some (byte_of_char c - byte_of_char CHR ''0'')
      else None)"

text \<open>
  One loop serves the three decoders: it returns the bytes written and whether every nybble was
  good, and the callers differ in the count they stop at and in what they do on failure.
\<close>

fun xtob_loop :: "nat \<Rightarrow> string \<Rightarrow> byte list \<times> bool" where
  "xtob_loop (Suc n) (h # l # s) =
     (case (decode_nybble h, decode_nybble l) of
        (Some a, Some b) \<Rightarrow>
          (case xtob_loop n s of (data, ok) \<Rightarrow> ((push_bit 4 a OR b) # data, ok))
      | _ \<Rightarrow> ([], False))"
| "xtob_loop _ _ = ([], True)"

definition xtob_block :: "string \<Rightarrow> nat \<Rightarrow> byte list \<times> nat" where
  "xtob_block hex max_length =
     (let n = min (length hex div 2) max_length
      in case xtob_loop n hex of (data, ok) \<Rightarrow> (data, if ok then n else 0))"

definition xtob_string :: "string \<Rightarrow> string" where
  "xtob_string hex =
     (case xtob_loop (length hex div 2) hex of
        (data, ok) \<Rightarrow> if ok then map char_of_byte data else [])"

definition xtob :: "string \<Rightarrow> byte list \<Rightarrow> byte list" where
  "xtob hex data = data @ fst (xtob_loop (length hex div 2) hex)"

declare print_digits.simps [simp del]

section \<open>Reading back printed digits\<close>

lemma digit_table: "map of_char ''0123456789abcdef'' = [48..<58] @ [97..<103] @ [0..<0 :: nat]"
  by (simp add: upt_rec)

lemma of_char_digit: "d < 16 \<Longrightarrow> (of_char (digit_char d) :: nat) = (if d < 10 then 48 + d else 87 + d)"
  unfolding digit_char_def using nth_code_ranges [OF digit_table, of d] by simp

lemma digit_value_char: "d < base \<Longrightarrow> base \<le> 16 \<Longrightarrow> digit_value base (digit_char d) = Some d"
  by (simp add: digit_value_def ctype_defs of_char_digit)

lemma decode_nybble_char: "d < 16 \<Longrightarrow> decode_nybble (digit_char d) = Some (of_nat d)"
  by (auto simp: decode_nybble_def ctype_defs of_char_digit byte_of_char_def)

lemma scan_digits_append:
  "scan_digits base n (print_digits base k @ s) =
   (if base \<le> 16 \<and> 2 \<le> base then scan_digits base (n * base ^ length (print_digits base k) + k) s
    else scan_digits base n (print_digits base k @ s))"
proof (induction base k arbitrary: n s rule: print_digits.induct)
  case (1 base k)
  show ?case
  proof (cases "base \<le> 16 \<and> 2 \<le> base \<and> \<not> k < base")
    case True
    then have "scan_digits base n (print_digits base k @ s)
      = scan_digits base n (print_digits base (k div base) @ digit_char (k mod base) # s)"
      by (simp add: print_digits.simps [of base k])
    also have "\<dots> = scan_digits base ((n * base ^ length (print_digits base (k div base)) + k div base)
                        * base + k mod base) s"
      using True 1 [of n "digit_char (k mod base) # s"] by (simp add: digit_value_char)
    also have "(n * base ^ length (print_digits base (k div base)) + k div base) * base + k mod base
      = n * base ^ length (print_digits base k) + k"
      using True by (simp add: print_digits.simps [of base k] algebra_simps)
    finally show ?thesis using True by simp
  qed (simp add: print_digits.simps [of base k] digit_value_char)
qed

lemma scan_print: "2 \<le> base \<Longrightarrow> base \<le> 16 \<Longrightarrow> scan_digits base 0 (print_digits base k) = k"
  using scan_digits_append [of base 0 k "[]"] by simp

lemma print_digits_hd: "2 \<le> base \<Longrightarrow> base \<le> 16 \<Longrightarrow>
  \<exists>d s. d < base \<and> print_digits base k = digit_char d # s \<and> (d = 0 \<longrightarrow> s = [])"
proof (induction base k rule: print_digits.induct)
  case (1 base k)
  show ?case
  proof (cases "k < base")
    case False
    then have "1 \<le> k div base" using 1(2) by (simp add: Suc_le_eq div_greater_zero_iff)
    have p: "print_digits base k = print_digits base (k div base) @ [digit_char (k mod base)]"
      using False 1(2) by (simp add: print_digits.simps [of base k])
    obtain d s where d: "d < base" "print_digits base (k div base) = digit_char d # s" "d = 0 \<longrightarrow> s = []"
      using 1 False by auto
    have "d \<noteq> 0"
    proof
      assume "d = 0"
      with d 1(2,3) scan_print [of base "k div base"] have "k div base = 0"
        by (simp add: digit_value_char)
      with \<open>1 \<le> k div base\<close> show False by simp
    qed
    with d p show ?thesis by auto
  qed (auto simp: print_digits.simps [of base k])
qed

lemma digit_char_class:
  assumes "d < 16"
  shows "\<not> isspace (digit_char d)" "digit_char d \<noteq> CHR ''-''" "digit_char d \<noteq> CHR ''+''"
    "digit_char d = CHR ''0'' \<longleftrightarrow> d = 0"
proof -
  have c: "(of_char (digit_char d) :: nat) = (if d < 10 then 48 + d else 87 + d)"
    using assms by (rule of_char_digit)
  have inj: "digit_char d = x \<longleftrightarrow> (of_char (digit_char d) :: nat) = of_char x" for x by simp
  show "\<not> isspace (digit_char d)" "digit_char d \<noteq> CHR ''-''" "digit_char d \<noteq> CHR ''+''"
    "digit_char d = CHR ''0'' \<longleftrightarrow> d = 0"
    unfolding isspace_def inj c by auto
qed

lemma scan_magnitude_print:
  assumes "base = 10 \<or> base = 16"
  shows "scan_magnitude base (print_digits base k) = k"
proof -
  obtain d s where d: "d < base" "print_digits base k = digit_char d # s" "d = 0 \<longrightarrow> s = []"
    using print_digits_hd [of base k] assms by auto
  then have "scan_prefix base (print_digits base k) = print_digits base k"
    using assms by (auto simp: scan_prefix_def digit_char_class split: list.split)
  then show ?thesis using assms scan_print [of base k] by (auto simp: scan_magnitude_def)
qed

lemma scan_signed_print:
  assumes "base = 10 \<or> base = 16"
  shows "scan_signed base (print_digits base k) = (False, k)"
    "scan_signed base (CHR ''-'' # print_digits base k) = (True, k)"
proof -
  obtain d s where d: "d < base" "print_digits base k = digit_char d # s"
    using print_digits_hd [of base k] assms by auto
  then have "d < 16" using assms by auto
  with d scan_magnitude_print [OF assms, of k] show "scan_signed base (print_digits base k) = (False, k)"
    by (simp add: scan_signed_def digit_char_class)
  show "scan_signed base (CHR ''-'' # print_digits base k) = (True, k)"
    using scan_magnitude_print [OF assms, of k] by (simp add: scan_signed_def isspace_def)
qed

section \<open>Signed decimal text\<close>

definition signed_text :: "int \<Rightarrow> nat \<Rightarrow> string" where
  "signed_text x zeroes =
     (if x < 0 then CHR ''-'' # replicate zeroes CHR ''0'' @ print_digits 10 (nat (- x))
      else replicate zeroes CHR ''0'' @ print_digits 10 (nat x))"

lemma scan_prefix_10: "scan_prefix 10 s = s"
  by (auto simp: scan_prefix_def split: list.split)

lemma scan_zeroes: "scan_digits 10 0 (replicate z CHR ''0'' @ s) = scan_digits 10 0 s"
proof (induction z)
  case (Suc z)
  have "digit_value 10 CHR ''0'' = Some 0" by (simp add: digit_value_def ctype_defs)
  with Suc show ?case by simp
qed simp

lemma scan_signed_zeroes:
  "scan_signed 10 (replicate z CHR ''0'' @ print_digits 10 k) = (False, k)"
  "scan_signed 10 (CHR ''-'' # replicate z CHR ''0'' @ print_digits 10 k) = (True, k)"
proof -
  have mag: "scan_magnitude 10 (replicate z CHR ''0'' @ print_digits 10 k) = k"
    using scan_print [of 10 k] by (simp add: scan_magnitude_def scan_prefix_10 scan_zeroes)
  have "scan_signed 10 (CHR ''0'' # s) = (False, scan_magnitude 10 (CHR ''0'' # s))" for s
    by (simp add: scan_signed_def isspace_def)
  with mag scan_signed_print(1) [of 10 k]
  show "scan_signed 10 (replicate z CHR ''0'' @ print_digits 10 k) = (False, k)"
    by (cases z) simp_all
  show "scan_signed 10 (CHR ''-'' # replicate z CHR ''0'' @ print_digits 10 k) = (True, k)"
    using mag by (simp add: scan_signed_def isspace_def)
qed

lemma strtol_signed_text: "- (2 ^ 63) \<le> x \<Longrightarrow> x < 2 ^ 63 \<Longrightarrow> strtol (signed_text x z) = x"
  by (auto simp: strtol_def signed_text_def scan_signed_zeroes min_def max_def)

lemma sint_u32_bounds: "- (2 ^ 31) \<le> sint (i :: u32)" "sint (i :: u32) < 2 ^ 31"
  using sint_ge [of i] sint_lt [of i] by simp_all

lemma stoi_signed_text: "stoi (signed_text (sint i) z) = i"
  using sint_u32_bounds [of i] by (simp add: stoi_def atoi_def strtol_signed_text)

lemma itos_signed_text: "itos i = signed_text (sint i) 0"
  by (simp add: itos_def signed_text_def)

lemma zero_pad_itos:
  "zero_pad width (if sint i < 0 then 1 else 0) (itos i) = signed_text (sint i) (width - length (itos i))"
  by (simp add: zero_pad_def itos_def signed_text_def)

lemma remove_inserted:
  assumes "at \<le> length t"
  shows "take at (take at t @ [c] @ drop at t) @ drop (at + 1) (take at t @ [c] @ drop at t) = t"
  using assms by (simp add: min_absorb2)

section \<open>Properties\<close>

text \<open>
  Fixed-point text round trip. For every 32-bit integer and every number of decimal places,
  negative ones included, \<^verbatim>\<open>stoifix\<close> never throws on the text \<^verbatim>\<open>ifixtos\<close> makes and returns the
  integer.
\<close>

theorem fixed_point_roundtrip: "stoifix (ifixtos i dp) dp = Some i"
proof (cases "dp \<le> 0")
  case True
  then have "ifixtos i dp = itos i @ replicate (nat (- dp)) CHR ''0''"
    by (simp add: ifixtos_def Let_def)
  with True show ?thesis
    using stoi_signed_text [of i 0] by (simp add: stoifix_def itos_signed_text [symmetric])
next
  case False
  define neg :: nat where "neg = (if sint i < 0 then 1 else 0)"
  define t where "t = zero_pad (nat dp + 1 + neg) neg (itos i)"
  have padded: "t = signed_text (sint i) (nat dp + 1 + neg - length (itos i))"
    by (simp add: t_def neg_def zero_pad_itos)
  have "length (itos i) \<ge> neg" by (simp add: itos_def neg_def)
  then have "length t \<ge> nat dp + 1" by (simp add: t_def zero_pad_def)
  then have at: "length t - nat dp \<le> length t" "nat dp \<le> length t" by simp_all
  have "ifixtos i dp = take (length t - nat dp) t @ ''.'' @ drop (length t - nat dp) t"
    using False by (simp add: ifixtos_def Let_def t_def neg_def)
  then have "stoifix (ifixtos i dp) dp = Some (stoi t)"
    using remove_inserted [OF at(1), of "CHR ''.''"] False at by (simp add: stoifix_def Let_def)
  then show ?thesis by (simp add: padded stoi_signed_text)
qed

text \<open>
  Integer text round trips. Every integer is read back from its decimal and hex text at its
  width: \<^verbatim>\<open>stoi\<close> after \<^verbatim>\<open>itos\<close>, \<^verbatim>\<open>stoi64\<close> after \<^verbatim>\<open>i64tos\<close>, \<^verbatim>\<open>xtoi\<close> after \<^verbatim>\<open>itox\<close> and \<^verbatim>\<open>xtoi64\<close>
  after \<^verbatim>\<open>i64tox\<close>.
\<close>

theorem integer_text_roundtrip:
  "stoi (itos i) = i \<and> stoi64 (i64tos n) = n \<and> xtoi (itox k) = k \<and> xtoi64 (i64tox n) = n"
proof (intro conjI)
  show "stoi (itos i) = i" by (simp add: itos_signed_text stoi_signed_text)
  show "stoi64 (i64tos n) = n" "xtoi64 (i64tox n) = n"
    using unat_u64_less [of n]
    by (simp_all add: stoi64_def i64tos_def xtoi64_def i64tox_def strtoull_def scan_signed_print)
  have "unat k < 2 ^ 64" using unat_u32_less [of k] by simp
  then show "xtoi (itox k) = k"
    by (simp add: xtoi_def itox_def strtoull_def scan_signed_print)
      (rule bit_word_eqI, simp add: bit_simps)
qed

section \<open>Hex dumps\<close>

lemma hex2_digits: "hex2 b = [digit_char (unat b div 16), digit_char (unat b mod 16)]"
proof -
  have "unat b div 16 < 16" using unat_byte_less [of b] by simp
  moreover have "digit_char 0 = CHR ''0''" by (simp add: digit_char_def)
  ultimately show ?thesis
    by (simp add: hex2_def print_digits.simps [of 16 "unat b"] print_digits.simps [of 16 "unat b div 16"] Let_def)
qed

lemma nybbles_join: "push_bit 4 (of_nat (unat b div 16)) OR of_nat (unat b mod 16) = (b :: byte)"
proof -
  have "of_nat (unat b div 16) = (drop_bit 4 b :: byte)"
    using unat_byte_less [of b]
    by (intro word_unat_eq_iff [THEN iffD2])
      (simp add: unat_drop_bit_eq drop_bit_eq_div unat_of_nat unat_div)
  moreover have "of_nat (unat b mod 16) = (take_bit 4 b :: byte)"
    by (rule word_unat_eq_iff [THEN iffD2]) (simp add: unsigned_take_bit_eq take_bit_eq_mod unat_of_nat unat_mod)
  moreover have "push_bit 4 (drop_bit 4 b) OR take_bit 4 b = b"
    by (rule bit_word_eqI) (auto simp: bit_simps)
  ultimately show ?thesis by simp
qed

lemma xtob_loop_btox:
  "xtob_loop (length data) (btox data @ rest) = (data, True)"
proof (induction data)
  case (Cons b data)
  have "unat b div 16 < 16" using unat_byte_less [of b] by simp
  with Cons show ?case
    by (simp add: btox_def hex2_digits decode_nybble_char nybbles_join)
qed (cases rest; simp add: btox_def)

lemma length_btox: "length (btox data) = 2 * length data"
  by (induction data) (simp_all add: btox_def hex2_digits)

lemma btox_string_btox: "btox_string s = btox (map byte_of_char s)"
  by (simp add: btox_string_def btox_def comp_def)

text \<open>
  Hex dump round trip. The three \<^verbatim>\<open>xtob\<close> overloads recover the bytes \<^verbatim>\<open>btox\<close> printed; the
  one that appends keeps what the vector held, and the block one stops at its limit.
\<close>

theorem hex_dump_roundtrip:
  "xtob_string (btox_string s) = s \<and> xtob (btox data) old = old @ data
   \<and> xtob_block (btox data) max_length = (take max_length data, min (length data) max_length)"
proof (intro conjI)
  show "xtob_string (btox_string s) = s"
    using xtob_loop_btox [of "map byte_of_char s" "[]"]
    by (simp add: xtob_string_def btox_string_btox length_btox comp_def)
  show "xtob (btox data) old = old @ data"
    using xtob_loop_btox [of data "[]"] by (simp add: xtob_def length_btox)
  have "btox data = btox (take max_length data) @ btox (drop max_length data)"
    by (simp add: btox_def flip: concat_append map_append)
  then show "xtob_block (btox data) max_length = (take max_length data, min (length data) max_length)"
    using xtob_loop_btox [of "take max_length data" "btox (drop max_length data)"] length_btox [of data]
    by (simp add: xtob_block_def Let_def)
qed

end
