(* ===== verification/Utf8.thy ===== *)
theory Utf8
  imports OT_Prelude
begin

unbundle bit_operations_syntax

text \<open>
  The UTF-8 codec of libs/text/utf8.cc. A \<^verbatim>\<open>wchar_t\<close> is a signed 32-bit integer on the platforms
  that compile the long forms: it is a 32-bit word here, compared through \<^const>\<open>sint\<close>. Values are
  only shifted right in the branches where they are not negative.
\<close>

section \<open>Encoding\<close>

definition utf8_byte :: "u32 \<Rightarrow> char" where
  "utf8_byte v = char_of_byte (ucast v)"

definition utf8_append :: "string \<Rightarrow> u32 \<Rightarrow> string" where
  "utf8_append utf8 unicode =
     (if sint unicode < 0x80 then utf8 @ [utf8_byte (unicode AND 0x7f)]
      else if sint unicode < 0x800 then
        utf8 @ [utf8_byte (0xc0 OR (0x1f AND drop_bit 6 unicode)),
                utf8_byte (0x80 OR (0x3f AND unicode))]
      else if sint unicode < 0x10000 then
        utf8 @ [utf8_byte (0xe0 OR (0x0f AND drop_bit 12 unicode)),
                utf8_byte (0x80 OR (0x3f AND drop_bit 6 unicode)),
                utf8_byte (0x80 OR (0x3f AND unicode))]
      else if sint unicode < 0x200000 then
        utf8 @ [utf8_byte (0xf0 OR (0x07 AND drop_bit 18 unicode)),
                utf8_byte (0x80 OR (0x3f AND drop_bit 12 unicode)),
                utf8_byte (0x80 OR (0x3f AND drop_bit 6 unicode)),
                utf8_byte (0x80 OR (0x3f AND unicode))]
      else if sint unicode < 0x4000000 then
        utf8 @ [utf8_byte (0xf8 OR (0x03 AND drop_bit 24 unicode)),
                utf8_byte (0x80 OR (0x3f AND drop_bit 18 unicode)),
                utf8_byte (0x80 OR (0x3f AND drop_bit 12 unicode)),
                utf8_byte (0x80 OR (0x3f AND drop_bit 6 unicode)),
                utf8_byte (0x80 OR (0x3f AND unicode))]
      else if sint unicode \<le> 0x7fffffff then
        utf8 @ [utf8_byte (0xfc OR (0x01 AND drop_bit 30 unicode)),
                utf8_byte (0x80 OR (0x3f AND drop_bit 24 unicode)),
                utf8_byte (0x80 OR (0x3f AND drop_bit 18 unicode)),
                utf8_byte (0x80 OR (0x3f AND drop_bit 12 unicode)),
                utf8_byte (0x80 OR (0x3f AND drop_bit 6 unicode)),
                utf8_byte (0x80 OR (0x3f AND unicode))]
      else utf8)"

definition utf8_encode :: "u32 list \<Rightarrow> string" where
  "utf8_encode unicode = foldl utf8_append [] unicode"

definition utf8_encode_null :: "u32 list \<Rightarrow> string" where
  "utf8_encode_null unicode = foldl utf8_append [] (takeWhile (\<lambda>w. w \<noteq> 0) unicode)"

definition utf8_encode_latin1 :: "string \<Rightarrow> string" where
  "utf8_encode_latin1 isolatin1 =
     foldl (\<lambda>utf8 c. utf8_append utf8 (ucast (byte_of_char c))) [] isolatin1"

section \<open>Decoding\<close>

definition utf8_lead :: "u32 \<Rightarrow> nat \<times> u32" where
  "utf8_lead c =
     (let (extra, mask) = (0, 0xff);
          (extra, mask) = (if c AND 0xC0 = 0xC0 then (extra + 1, 0x1f) else (extra, mask));
          (extra, mask) = (if c AND 0xE0 = 0xE0 then (extra + 1, drop_bit 1 mask) else (extra, mask));
          (extra, mask) = (if c AND 0xF0 = 0xF0 then (extra + 1, drop_bit 1 mask) else (extra, mask));
          (extra, mask) = (if c AND 0xF8 = 0xF8 then (extra + 1, drop_bit 1 mask) else (extra, mask));
          (extra, mask) = (if c AND 0xFC = 0xFC then (extra + 1, drop_bit 1 mask) else (extra, mask))
      in (extra, mask))"

definition utf8_wide :: "char \<Rightarrow> u32" where
  "utf8_wide ch = scast (byte_of_char ch)"

definition utf8_more :: "u32 \<Rightarrow> char \<Rightarrow> u32" where
  "utf8_more c ch = push_bit 6 c OR (utf8_wide ch AND 0x3f)"

function utf8_decode :: "string \<Rightarrow> u32 list \<Rightarrow> u32 list" where
  "utf8_decode [] unicode = unicode"
| "utf8_decode (p # utf8) unicode =
     (let c = utf8_wide p; (extra, mask) = utf8_lead c
      in if extra \<ge> Suc (length utf8) then unicode
         else utf8_decode (drop extra utf8)
                (unicode @ [foldl utf8_more (c AND mask) (take extra utf8)]))"
  by pat_completeness auto
termination
  by (relation "measure (\<lambda>(utf8, _). length utf8)") auto

section \<open>Squashing diacritics\<close>

definition latin1_mapping :: string where
  "latin1_mapping = ''AAAAAAECEEEEIIIIDNOOOOOxOUUUUYPsaaaaaaeceeeeiiiidnooooo/ouuuuypy''"

definition wide_ascii :: "char \<Rightarrow> u32" where
  "wide_ascii c = of_nat (of_char c)"

definition strip_char :: "char \<Rightarrow> u32 \<Rightarrow> u32 list" where
  "strip_char fallback c =
     (if 0xC0 \<le> sint c \<and> sint c \<le> 0xFF then
        (if c = 0xC6 then [wide_ascii CHR ''A'', wide_ascii CHR ''E'']
         else if c = 0xD0 \<or> c = 0xDE then [wide_ascii CHR ''T'', wide_ascii CHR ''H'']
         else if c = 0xDF then [wide_ascii CHR ''s'', wide_ascii CHR ''s'']
         else if c = 0xE6 then [wide_ascii CHR ''a'', wide_ascii CHR ''e'']
         else if c = 0xF0 \<or> c = 0xFE then [wide_ascii CHR ''t'', wide_ascii CHR ''h'']
         else [utf8_wide (latin1_mapping ! (unat c - 0xC0))])
      else if sint c > 127 then [utf8_wide fallback]
      else [c])"

definition strip_diacritics :: "string \<Rightarrow> char \<Rightarrow> string" where
  "strip_diacritics utf8 fallback =
     utf8_encode (concat (map (strip_char fallback) (utf8_decode utf8 [])))"

section \<open>Lead and continuation bytes\<close>

lemma utf8_wide_byte: "utf8_wide (utf8_byte v) = scast (ucast v :: byte)"
  by (simp add: utf8_wide_def utf8_byte_def)

lemma bit_utf8_wide: "k < 8 \<Longrightarrow> bit (utf8_wide (utf8_byte v)) k \<longleftrightarrow> bit v k"
  by (simp add: utf8_wide_byte bit_simps)

lemma and_run_iff:
  assumes "k + m \<le> 32"
  shows "(c :: u32) AND push_bit k (mask m) = push_bit k (mask m) \<longleftrightarrow> (\<forall>i<m. bit c (k + i))"
proof
  assume *: "c AND push_bit k (mask m) = push_bit k (mask m)"
  show "\<forall>i<m. bit c (k + i)"
  proof (intro allI impI)
    fix i assume i: "i < m"
    have "bit (push_bit k (mask m) :: u32) (k + i)" using i assms by (simp add: bit_simps)
    then have "bit (c AND push_bit k (mask m)) (k + i)" by (simp only: *)
    then show "bit c (k + i)" by (simp add: bit_simps)
  qed
next
  assume *: "\<forall>i<m. bit c (k + i)"
  show "c AND push_bit k (mask m) = push_bit k (mask m)"
  proof (rule bit_word_eqI)
    fix n assume "n < LENGTH(32)"
    show "bit (c AND push_bit k (mask m)) n = bit (push_bit k (mask m) :: u32) n"
      using * [rule_format, of "n - k"] by (auto simp: bit_simps)
  qed
qed

lemma all_less:
  "(\<forall>i<2. P (6 + i)) \<longleftrightarrow> P (6 :: nat) \<and> P 7"
  "(\<forall>i<3. P (5 + i)) \<longleftrightarrow> P (5 :: nat) \<and> P 6 \<and> P 7"
  "(\<forall>i<4. P (4 + i)) \<longleftrightarrow> P (4 :: nat) \<and> P 5 \<and> P 6 \<and> P 7"
  "(\<forall>i<5. P (3 + i)) \<longleftrightarrow> P (3 :: nat) \<and> P 4 \<and> P 5 \<and> P 6 \<and> P 7"
  "(\<forall>i<6. P (2 + i)) \<longleftrightarrow> P (2 :: nat) \<and> P 3 \<and> P 4 \<and> P 5 \<and> P 6 \<and> P 7"
  by (auto simp: eval_nat_numeral All_less_Suc)

lemma lead_tests:
  fixes c :: u32
  shows "c AND 0xC0 = 0xC0 \<longleftrightarrow> bit c 6 \<and> bit c 7"
    and "c AND 0xE0 = 0xE0 \<longleftrightarrow> bit c 5 \<and> bit c 6 \<and> bit c 7"
    and "c AND 0xF0 = 0xF0 \<longleftrightarrow> bit c 4 \<and> bit c 5 \<and> bit c 6 \<and> bit c 7"
    and "c AND 0xF8 = 0xF8 \<longleftrightarrow> bit c 3 \<and> bit c 4 \<and> bit c 5 \<and> bit c 6 \<and> bit c 7"
    and "c AND 0xFC = 0xFC \<longleftrightarrow> bit c 2 \<and> bit c 3 \<and> bit c 4 \<and> bit c 5 \<and> bit c 6 \<and> bit c 7"
  using and_run_iff [of 6 2 c] and_run_iff [of 5 3 c] and_run_iff [of 4 4 c] and_run_iff [of 3 5 c]
    and_run_iff [of 2 6 c]
  by (simp_all add: mask_eq_exp_minus_1 push_bit_eq_mult all_less all_less(5) [simplified])

lemma utf8_lead_cases:
  "\<not> bit c 7 \<Longrightarrow> utf8_lead c = (0, 0xff)"
  "bit c 7 \<Longrightarrow> bit c 6 \<Longrightarrow> \<not> bit c 5 \<Longrightarrow> utf8_lead c = (1, 0x1f)"
  "bit c 7 \<Longrightarrow> bit c 6 \<Longrightarrow> bit c 5 \<Longrightarrow> \<not> bit c 4 \<Longrightarrow> utf8_lead c = (2, 0xf)"
  "bit c 7 \<Longrightarrow> bit c 6 \<Longrightarrow> bit c 5 \<Longrightarrow> bit c 4 \<Longrightarrow> \<not> bit c 3 \<Longrightarrow> utf8_lead c = (3, 7)"
  "bit c 7 \<Longrightarrow> bit c 6 \<Longrightarrow> bit c 5 \<Longrightarrow> bit c 4 \<Longrightarrow> bit c 3 \<Longrightarrow> \<not> bit c 2 \<Longrightarrow> utf8_lead c = (4, 3)"
  "bit c 7 \<Longrightarrow> bit c 6 \<Longrightarrow> bit c 5 \<Longrightarrow> bit c 4 \<Longrightarrow> bit c 3 \<Longrightarrow> bit c 2 \<Longrightarrow> utf8_lead c = (5, 1)"
  by (simp_all add: utf8_lead_def lead_tests drop_bit_eq_div)

lemma marked_payload:
  assumes "m \<le> k" "m \<le> 8"
  shows "utf8_wide (utf8_byte (push_bit k (mask j) OR (mask m AND x))) AND mask m = mask m AND x"
proof (rule bit_word_eqI)
  fix n
  show "bit (utf8_wide (utf8_byte (push_bit k (mask j) OR (mask m AND x))) AND mask m) n
        = bit (mask m AND x) n"
  proof (cases "n < m")
    case True
    with assms show ?thesis by (simp add: bit_and_iff bit_utf8_wide) (auto simp: bit_simps)
  qed (simp add: bit_simps)
qed

lemma payloads:
  "utf8_wide (utf8_byte (0x80 OR (0x3f AND x))) AND 0x3f = 0x3f AND x"
  "utf8_wide (utf8_byte (0xc0 OR (0x1f AND x))) AND 0x1f = 0x1f AND x"
  "utf8_wide (utf8_byte (0xe0 OR (0x0f AND x))) AND 0x0f = 0x0f AND x"
  "utf8_wide (utf8_byte (0xf0 OR (0x07 AND x))) AND 0x07 = 0x07 AND x"
  "utf8_wide (utf8_byte (0xf8 OR (0x03 AND x))) AND 0x03 = 0x03 AND x"
  "utf8_wide (utf8_byte (0xfc OR (0x01 AND x))) AND 0x01 = 0x01 AND x"
  using marked_payload [of 6 7 1 x] marked_payload [of 5 6 2 x] marked_payload [of 4 5 3 x]
    marked_payload [of 3 4 4 x] marked_payload [of 2 3 5 x] marked_payload [of 1 2 6 x]
  by (simp_all only: mask_eq_exp_minus_1 push_bit_eq_mult) simp_all

lemma leads:
  "utf8_lead (utf8_wide (utf8_byte (0xc0 OR (0x1f AND x)))) = (1, 0x1f)"
  "utf8_lead (utf8_wide (utf8_byte (0xe0 OR (0x0f AND x)))) = (2, 0xf)"
  "utf8_lead (utf8_wide (utf8_byte (0xf0 OR (0x07 AND x)))) = (3, 7)"
  "utf8_lead (utf8_wide (utf8_byte (0xf8 OR (0x03 AND x)))) = (4, 3)"
  "utf8_lead (utf8_wide (utf8_byte (0xfc OR (0x01 AND x)))) = (5, 1)"
  "utf8_lead (utf8_wide (utf8_byte (x AND 0x7f))) = (0, 0xff)"
  by (rule utf8_lead_cases; simp add: bit_utf8_wide bit_or_iff bit_and_iff)+

lemma utf8_more_step:
  "utf8_more (drop_bit (6 + k) x) (utf8_byte (0x80 OR (0x3f AND drop_bit k x))) = drop_bit k x"
proof -
  have low: "0x3f AND y = take_bit 6 y" for y :: u32
    by (simp add: take_bit_eq_mask mask_eq_exp_minus_1 and.commute)
  have "push_bit 6 (drop_bit 6 y) OR take_bit 6 y = y" for y :: u32
    by (rule bit_word_eqI) (auto simp: bit_simps)
  then have "push_bit 6 (drop_bit 6 y) OR (0x3f AND y) = y" for y :: u32
    by (simp only: low)
  moreover have "drop_bit (6 + k) x = drop_bit 6 (drop_bit k x)"
    by (simp add: drop_bit_drop_bit)
  ultimately show ?thesis by (simp only: utf8_more_def payloads)
qed

lemma utf8_more_steps:
  "utf8_more (drop_bit 6 x) (utf8_byte (0x80 OR (0x3f AND x))) = x"
  "utf8_more (drop_bit 12 x) (utf8_byte (0x80 OR (0x3f AND drop_bit 6 x))) = drop_bit 6 x"
  "utf8_more (drop_bit 18 x) (utf8_byte (0x80 OR (0x3f AND drop_bit 12 x))) = drop_bit 12 x"
  "utf8_more (drop_bit 24 x) (utf8_byte (0x80 OR (0x3f AND drop_bit 18 x))) = drop_bit 18 x"
  "utf8_more (drop_bit 30 x) (utf8_byte (0x80 OR (0x3f AND drop_bit 24 x))) = drop_bit 24 x"
  using utf8_more_step [of 0 x] utf8_more_step [of 6 x] utf8_more_step [of 12 x]
    utf8_more_step [of 18 x] utf8_more_step [of 24 x] by simp_all

lemma top_bits:
  assumes "0 \<le> sint (x :: u32)" "sint x < 2 ^ (m + k)"
  shows "mask m AND drop_bit k x = drop_bit k x"
proof (rule bit_word_eqI)
  fix n assume "n < LENGTH(32)"
  have "uint x = sint x"
    using assms(1) sint_lt [of x] by (simp add: uint_sint take_bit_int_eq_self)
  with assms(2) have "take_bit (m + k) (uint x) = uint x"
    using assms by (simp add: take_bit_int_eq_self)
  then have "bit x (k + n) \<Longrightarrow> k + n < m + k"
    by (metis bit_take_bit_iff bit_uint_iff bit_imp_le_length)
  then show "bit (mask m AND drop_bit k x) n = bit (drop_bit k x) n"
    using \<open>n < LENGTH(32)\<close> by (auto simp: bit_simps)
qed

lemma top_payloads:
  assumes "0 \<le> sint (x :: u32)"
  shows "sint x < 0x80 \<Longrightarrow> x AND 0x7f = x"
    and "sint x < 0x800 \<Longrightarrow> 0x1f AND drop_bit 6 x = drop_bit 6 x"
    and "sint x < 0x10000 \<Longrightarrow> 0x0f AND drop_bit 12 x = drop_bit 12 x"
    and "sint x < 0x200000 \<Longrightarrow> 0x07 AND drop_bit 18 x = drop_bit 18 x"
    and "sint x < 0x4000000 \<Longrightarrow> 0x03 AND drop_bit 24 x = drop_bit 24 x"
    and "0x01 AND drop_bit 30 x = drop_bit 30 x"
  using top_bits [OF assms, of 7 0] top_bits [OF assms, of 5 6] top_bits [OF assms, of 4 12]
    top_bits [OF assms, of 3 18] top_bits [OF assms, of 2 24] top_bits [OF assms, of 1 30] sint_lt [of x]
  by (simp_all add: mask_eq_exp_minus_1 and.commute)

section \<open>Round trip\<close>

lemma decode_group:
  "utf8_lead (utf8_wide p) = (n, m) \<Longrightarrow> length cs = n \<Longrightarrow>
   utf8_decode (p # cs @ s) unicode =
   utf8_decode s (unicode @ [foldl utf8_more (utf8_wide p AND m) cs])"
  by (simp add: Let_def)

lemma lead_values:
  assumes "0 \<le> sint x"
  shows "sint x < 0x80 \<Longrightarrow> utf8_wide (utf8_byte (x AND 0x7f)) AND 0xff = x"
    and "sint x < 0x800 \<Longrightarrow> utf8_wide (utf8_byte (0xc0 OR (0x1f AND drop_bit 6 x))) AND 0x1f = drop_bit 6 x"
    and "sint x < 0x10000 \<Longrightarrow> utf8_wide (utf8_byte (0xe0 OR (0x0f AND drop_bit 12 x))) AND 0x0f = drop_bit 12 x"
    and "sint x < 0x200000 \<Longrightarrow> utf8_wide (utf8_byte (0xf0 OR (0x07 AND drop_bit 18 x))) AND 0x07 = drop_bit 18 x"
    and "sint x < 0x4000000 \<Longrightarrow> utf8_wide (utf8_byte (0xf8 OR (0x03 AND drop_bit 24 x))) AND 0x03 = drop_bit 24 x"
    and "utf8_wide (utf8_byte (0xfc OR (0x01 AND drop_bit 30 x))) AND 0x01 = drop_bit 30 x"
proof -
  have "utf8_wide (utf8_byte (x AND 0x7f)) AND 0xff = x AND 0x7f"
    using marked_payload [of 8 8 0 "x AND 0x7f"] by (simp add: mask_eq_exp_minus_1 and.left_commute)
  with top_payloads(1) [OF assms]
  show "sint x < 0x80 \<Longrightarrow> utf8_wide (utf8_byte (x AND 0x7f)) AND 0xff = x" by simp
qed (simp_all only: payloads, simp_all only: top_payloads [OF assms])

lemma decode_append:
  assumes "0 \<le> sint x"
  shows "utf8_decode (utf8_append [] x @ s) unicode = utf8_decode s (unicode @ [x])"
proof -
  note groups = leads [THEN decode_group, of "[]" x] leads [THEN decode_group, of "[_]" "drop_bit 6 x"]
    leads [THEN decode_group, of "[_, _]" "drop_bit 12 x"]
    leads [THEN decode_group, of "[_, _, _]" "drop_bit 18 x"]
    leads [THEN decode_group, of "[_, _, _, _]" "drop_bit 24 x"]
    leads [THEN decode_group, of "[_, _, _, _, _]" "drop_bit 30 x"]
  have "sint x \<le> 0x7fffffff" using sint_lt [of x] by simp
  then show ?thesis
    using groups by (simp add: utf8_append_def lead_values [OF assms] utf8_more_steps del: utf8_decode.simps)
qed

lemma append_prefix: "utf8_append s x = s @ utf8_append [] x"
  by (simp add: utf8_append_def)

lemma encode_append: "foldl utf8_append s xs = s @ utf8_encode xs"
proof (induction xs arbitrary: s)
  case (Cons x xs)
  show ?case
    using Cons [of "utf8_append s x"] Cons [of "utf8_append [] x"]
    by (simp add: utf8_encode_def append_prefix [of s])
qed (simp add: utf8_encode_def)

lemma encode_Cons: "utf8_encode (x # xs) = utf8_append [] x @ utf8_encode xs"
  using encode_append [of "utf8_append [] x" xs] by (simp add: utf8_encode_def)

lemma decode_encode:
  "\<forall>x\<in>set xs. 0 \<le> sint x \<Longrightarrow> utf8_decode (utf8_encode xs) unicode = unicode @ xs"
  by (induction xs arbitrary: unicode) (simp_all add: encode_Cons decode_append, simp add: utf8_encode_def)

lemma sint_ucast_byte: "0 \<le> sint (ucast (b :: byte) :: u32)"
proof -
  have "\<not> bit (ucast b :: u32) 31" by (auto simp: bit_simps dest: bit_imp_le_length)
  then show ?thesis by (simp add: sint_uint signed_take_bit_eq_if_positive bit_simps)
qed

section \<open>Properties\<close>

text \<open>
  C35: UTF-8 round trip. For wide characters that are not negative, in all six lengths of
  the encoding, decoding the encoded text appends exactly the characters; the zero-terminated and
  the Latin-1 encoders produce the same text for their input.
\<close>

theorem utf8_roundtrip:
  assumes "\<forall>x\<in>set xs. 0 \<le> sint x"
  shows "utf8_decode (utf8_encode xs) unicode = unicode @ xs
    \<and> utf8_encode_null (filter (\<lambda>x. x \<noteq> 0) xs @ 0 # rest) = utf8_encode (filter (\<lambda>x. x \<noteq> 0) xs)
    \<and> utf8_decode (utf8_encode_latin1 s) unicode = unicode @ map (\<lambda>c. ucast (byte_of_char c)) s"
proof (intro conjI)
  show "utf8_decode (utf8_encode xs) unicode = unicode @ xs" using assms by (rule decode_encode)
  show "utf8_encode_null (filter (\<lambda>x. x \<noteq> 0) xs @ 0 # rest) = utf8_encode (filter (\<lambda>x. x \<noteq> 0) xs)"
    by (simp add: utf8_encode_null_def utf8_encode_def takeWhile_append)
  have "utf8_encode_latin1 s = utf8_encode (map (\<lambda>c. ucast (byte_of_char c)) s)"
    by (simp add: utf8_encode_latin1_def utf8_encode_def foldl_map)
  moreover have "0 \<le> sint (ucast (b :: byte) :: u32)" for b
    by (rule sint_ucast_byte)
  ultimately show "utf8_decode (utf8_encode_latin1 s) unicode = unicode @ map (\<lambda>c. ucast (byte_of_char c)) s"
    by (simp add: decode_encode)
qed

theorem utf8_roundtrip_witness:
  "utf8_decode (utf8_encode [0x24, 0x20AC, 0x10348]) [] = [0x24, 0x20AC, 0x10348]"
  using utf8_roundtrip [of "[0x24, 0x20AC, 0x10348]" "[]" "[]" "[]"] by simp

lemma append_ascii: "sint x < 0x80 \<Longrightarrow> c \<in> set (utf8_append [] x) \<Longrightarrow> (of_char c :: nat) < 128"
proof -
  assume "sint x < 0x80" "c \<in> set (utf8_append [] x)"
  then have "c = utf8_byte (take_bit 7 x)"
    by (simp add: utf8_append_def take_bit_eq_mask mask_eq_exp_minus_1)
  moreover have "unat (ucast (take_bit 7 x) :: byte) < 128"
    using take_bit_nat_less_exp [of 7 "unat x"] by (simp add: unsigned_ucast_eq unsigned_take_bit_eq)
  ultimately show ?thesis by (simp add: utf8_byte_def char_of_byte_def)
qed

lemma latin1_ascii: "\<forall>c\<in>set latin1_mapping. (of_char c :: nat) < 128"
  by (simp add: latin1_mapping_def)

lemma length_latin1: "length latin1_mapping = 64"
  by (simp add: latin1_mapping_def)

lemma utf8_wide_small: "sint (utf8_wide c) < 0x80"
proof -
  have "sint (utf8_wide c) = sint (byte_of_char c)"
    using sint_ge [of "byte_of_char c"] sint_lt [of "byte_of_char c"]
    by (simp add: utf8_wide_def signed_scast_eq signed_take_bit_int_eq_self)
  then show ?thesis using sint_lt [of "byte_of_char c"] by simp
qed

lemma strip_char_small: "x \<in> set (strip_char fallback c) \<Longrightarrow> sint x < 0x80"
  using utf8_wide_small by (auto simp: strip_char_def wide_ascii_def split: if_splits)

lemma encode_ascii:
  "\<forall>x\<in>set xs. sint x < 0x80 \<Longrightarrow> c \<in> set (utf8_encode xs) \<Longrightarrow> (of_char c :: nat) < 128"
proof (induction xs)
  case (Cons x xs)
  then show ?case by (auto simp: encode_Cons dest: append_ascii)
qed (simp add: utf8_encode_def)

text \<open>
  Stripping diacritics always gives pure ASCII. Whatever the input bytes, well-formed UTF-8 or
  not, and whatever the fallback character, every character of the result is below 128.
\<close>

theorem strip_diacritics_ascii:
  "list_all (\<lambda>c. (of_char c :: nat) < 128) (strip_diacritics utf8 fallback)"
  unfolding list_all_iff strip_diacritics_def
  by (intro ballI, erule encode_ascii [rotated]) (auto dest: strip_char_small)

end
