(* ===== verification/Channel.thy ===== *)
theory Channel
  imports OT_Prelude
begin

unbundle bit_operations_syntax

text \<open>
  The abstract channel reader of libs/chan (reader.cc and the class \<^verbatim>\<open>Reader\<close> of ot-chan.h).
  An operation is a function of the reader object's state that returns a value or the
  \<^verbatim>\<open>Error\<close> it throws, together with the state it leaves. The virtual methods are a record of
  functions, so that every routine calls them the way the class does. \<^verbatim>\<open>basic_read\<close> returns the
  bytes it transfers; with a null buffer the caller drops them.
\<close>

section \<open>Errors and operations\<close>

datatype chan_error = Error int string | Division_by_zero

type_synonym ('s, 'a) chan = "'s \<Rightarrow> (chan_error + 'a) \<times> 's"

definition chan_return :: "'a \<Rightarrow> ('s, 'a) chan" where
  "chan_return a s = (Inr a, s)"

definition chan_throw :: "chan_error \<Rightarrow> ('s, 'a) chan" where
  "chan_throw e s = (Inl e, s)"

definition chan_bind :: "('s, 'a) chan \<Rightarrow> ('a \<Rightarrow> ('s, 'b) chan) \<Rightarrow> ('s, 'b) chan" where
  "chan_bind m f s = (case m s of (Inl e, s') \<Rightarrow> (Inl e, s') | (Inr a, s') \<Rightarrow> f a s')"

lemma chan_simps [simp]:
  "chan_bind (chan_return a) f = f a"
  "chan_bind (chan_throw e) f = chan_throw e"
  "m s = (Inr a, s') \<Longrightarrow> chan_bind m f s = f a s'"
  "m s = (Inl e, s') \<Longrightarrow> chan_bind m f s = (Inl e, s')"
  by (simp_all add: chan_bind_def chan_return_def chan_throw_def fun_eq_iff)

lemma chan_return_apply [simp]: "chan_return a s = (Inr a, s)"
  by (simp add: chan_return_def)

lemma chan_throw_apply [simp]: "chan_throw e s = (Inl e, s)"
  by (simp add: chan_throw_def)

lemma chan_bind_Pair [simp]: "chan_bind (Pair (Inr a)) f = f a" "chan_bind (Pair (Inl e)) f = Pair (Inl e)"
  by (simp_all add: chan_bind_def fun_eq_iff)

section \<open>The virtual methods of a reader\<close>

record 's Reader =
  basic_read :: "nat \<Rightarrow> ('s, byte list) chan"
  try_read :: "nat \<Rightarrow> ('s, byte list option) chan"
  try_read_string :: "nat \<Rightarrow> (string \<times> 's, bool) chan"
  skip :: "u64 \<Rightarrow> ('s, unit) chan"
  get_offset :: "'s \<Rightarrow> u64"

text \<open>\<^verbatim>\<open>Reader::try_read\<close>: \<open>None\<close> stands for the result \<^verbatim>\<open>false\<close>.\<close>

fun try_read_loop :: "(nat \<Rightarrow> ('s, byte list) chan) \<Rightarrow> byte list \<Rightarrow> nat \<Rightarrow> ('s, byte list option) chan" where
  "try_read_loop rd done count s =
     (if count = 0 then (Inr (Some done), s)
      else case rd count s of
             (Inl e, s') \<Rightarrow> (Inl e, s')
           | (Inr bs, s') \<Rightarrow>
               if bs \<noteq> [] then try_read_loop rd (done @ bs) (count - length bs) s'
               else if done \<noteq> [] then (Inl (Error 0 ''EOF''), s')
               else (Inr None, s'))"

definition reader_try_read :: "(nat \<Rightarrow> ('s, byte list) chan) \<Rightarrow> nat \<Rightarrow> ('s, byte list option) chan" where
  "reader_try_read rd count = try_read_loop rd [] count"

definition CHANNEL_BUFFER_SIZE :: nat where
  "CHANNEL_BUFFER_SIZE = 1024"

text \<open>The string versions append to the caller's string, also when they end in an exception.\<close>

fun try_read_string_loop ::
  "(nat \<Rightarrow> ('s, byte list) chan) \<Rightarrow> nat \<Rightarrow> nat \<Rightarrow> (string \<times> 's, bool) chan" where
  "try_read_string_loop rd done count (str, s) =
     (if count = 0 then (Inr True, (str, s))
      else case rd (min CHANNEL_BUFFER_SIZE count) s of
             (Inl e, s') \<Rightarrow> (Inl e, (str, s'))
           | (Inr bs, s') \<Rightarrow>
               if bs \<noteq> [] then
                 try_read_string_loop rd (done + length bs) (count - length bs) (str @ map char_of_byte bs, s')
               else if done \<noteq> 0 then (Inl (Error 0 ''EOF in string''), (str, s'))
               else (Inr False, (str, s')))"

definition reader_try_read_string ::
  "(nat \<Rightarrow> ('s, byte list) chan) \<Rightarrow> nat \<Rightarrow> (string \<times> 's, bool) chan" where
  "reader_try_read_string rd count = try_read_string_loop rd 0 count"

section \<open>The concrete methods\<close>

definition reader_read :: "'s Reader \<Rightarrow> nat \<Rightarrow> ('s, byte list) chan" where
  "reader_read r count = chan_bind (try_read r count)
     (\<lambda>res. case res of None \<Rightarrow> chan_throw (Error 0 ''EOF'') | Some bs \<Rightarrow> chan_return bs)"

definition reader_read_string ::
  "'s Reader \<Rightarrow> nat \<Rightarrow> (string \<times> 's, unit) chan" where
  "reader_read_string r count = chan_bind (try_read_string r count)
     (\<lambda>got. if got then chan_return () else chan_throw (Error 0 ''EOF in string''))"

text \<open>
  \<^verbatim>\<open>read_to_eof\<close> with a limit, for a vector, a block or a string: the bytes read are returned and
  each version appends or copies them. Without a limit the loop goes on while blocks are full, so
  it need not end: \<open>None\<close> is a run that never returns.
\<close>

fun read_to_limit :: "(nat \<Rightarrow> ('s, byte list) chan) \<Rightarrow> nat \<Rightarrow> (byte list \<times> 's, unit) chan" where
  "read_to_limit rd limit (buffer, s) =
     (if limit = 0 then (Inr (), (buffer, s))
      else case rd (min CHANNEL_BUFFER_SIZE limit) s of
             (Inl e, s') \<Rightarrow> (Inl e, (buffer, s'))
           | (Inr bs, s') \<Rightarrow>
               if bs \<noteq> [] then read_to_limit rd (limit - length bs) (buffer @ bs, s')
               else (Inr (), (buffer, s')))"

partial_function (option) read_to_eof ::
  "(nat \<Rightarrow> ('s, byte list) chan) \<Rightarrow> byte list \<Rightarrow> 's \<Rightarrow> ((chan_error + unit) \<times> byte list \<times> 's) option" where
  "read_to_eof rd buffer s =
     (case rd CHANNEL_BUFFER_SIZE s of
        (Inl e, s') \<Rightarrow> Some (Inl e, (buffer, s'))
      | (Inr bs, s') \<Rightarrow>
          if length bs \<noteq> CHANNEL_BUFFER_SIZE then Some (Inr (), (buffer @ bs, s'))
          else read_to_eof rd (buffer @ bs) s')"

definition reader_try_read_byte :: "'s Reader \<Rightarrow> ('s, byte option) chan" where
  "reader_try_read_byte r = chan_bind (try_read r 1) (\<lambda>res. chan_return (map_option (\<lambda>bs. bs ! 0) res))"

definition read_byte :: "'s Reader \<Rightarrow> ('s, byte) chan" where
  "read_byte r = chan_bind (reader_read r 1) (\<lambda>bs. chan_return (bs ! 0))"

text \<open>
  The bytes of an integer in memory, read through \<^verbatim>\<open>ntohs\<close> and \<^verbatim>\<open>ntohl\<close>: most significant first
  whatever the host's byte order.
\<close>

definition ntohs :: "byte list \<Rightarrow> u16" where
  "ntohs bs = push_bit 8 (ucast (bs ! 0)) OR ucast (bs ! 1)"

definition ntohl :: "byte list \<Rightarrow> u32" where
  "ntohl bs = push_bit 24 (ucast (bs ! 0)) OR push_bit 16 (ucast (bs ! 1))
     OR push_bit 8 (ucast (bs ! 2)) OR ucast (bs ! 3)"

definition read_nbo_16 :: "'s Reader \<Rightarrow> ('s, u16) chan" where
  "read_nbo_16 r = chan_bind (reader_read r 2) (\<lambda>n. chan_return (ntohs n))"

definition read_nbo_24 :: "'s Reader \<Rightarrow> ('s, u32) chan" where
  "read_nbo_24 r = chan_bind (reader_read r 3) (\<lambda>buf.
     chan_return (push_bit 16 (ucast (buf ! 0)) + push_bit 8 (ucast (buf ! 1)) + ucast (buf ! 2)))"

definition read_nbo_32 :: "'s Reader \<Rightarrow> ('s, u32) chan" where
  "read_nbo_32 r = chan_bind (reader_read r 4) (\<lambda>n. chan_return (ntohl n))"

definition try_read_nbo_32 :: "'s Reader \<Rightarrow> ('s, u32 option) chan" where
  "try_read_nbo_32 r = chan_bind (try_read r 4) (\<lambda>res. chan_return (map_option ntohl res))"

definition read_nbo_64 :: "'s Reader \<Rightarrow> ('s, u64) chan" where
  "read_nbo_64 r = chan_bind (read_nbo_32 r) (\<lambda>n. chan_bind (read_nbo_32 r) (\<lambda>m.
     chan_return (push_bit 32 (ucast n) + ucast m)))"

definition read_le_16 :: "'s Reader \<Rightarrow> ('s, u16) chan" where
  "read_le_16 r = chan_bind (reader_read r 2) (\<lambda>buf.
     chan_return (ucast (buf ! 0) + push_bit 8 (ucast (buf ! 1))))"

definition read_le_24 :: "'s Reader \<Rightarrow> ('s, u32) chan" where
  "read_le_24 r = chan_bind (reader_read r 3) (\<lambda>buf.
     chan_return (ucast (buf ! 0) + push_bit 8 (ucast (buf ! 1)) + push_bit 16 (ucast (buf ! 2))))"

definition le_32_of :: "byte list \<Rightarrow> u32" where
  "le_32_of buf = ucast (buf ! 0) + push_bit 8 (ucast (buf ! 1))
     + push_bit 16 (ucast (buf ! 2)) + push_bit 24 (ucast (buf ! 3))"

definition read_le_32 :: "'s Reader \<Rightarrow> ('s, u32) chan" where
  "read_le_32 r = chan_bind (reader_read r 4) (\<lambda>buf. chan_return (le_32_of buf))"

definition try_read_le_32 :: "'s Reader \<Rightarrow> ('s, u32 option) chan" where
  "try_read_le_32 r = chan_bind (try_read r 4) (\<lambda>res. chan_return (map_option le_32_of res))"

definition read_le_64 :: "'s Reader \<Rightarrow> ('s, u64) chan" where
  "read_le_64 r = chan_bind (read_le_32 r) (\<lambda>n. chan_bind (read_le_32 r) (\<lambda>m.
     chan_return (ucast n + push_bit 32 (ucast m))))"

partial_function (option) skip_to_eof :: "'s Reader \<Rightarrow> 's \<Rightarrow> ((chan_error + unit) \<times> 's) option" where
  "skip_to_eof r s =
     (case try_read r CHANNEL_BUFFER_SIZE s of
        (Inl e, s') \<Rightarrow> Some (Inl e, s')
      | (Inr res, s') \<Rightarrow> (case res of None \<Rightarrow> Some (Inr (), s') | Some _ \<Rightarrow> skip_to_eof r s'))"

text \<open>The base \<^verbatim>\<open>skip\<close> reads with a null buffer; \<^verbatim>\<open>align\<close> calls whichever \<^verbatim>\<open>skip\<close> the object has.\<close>

definition reader_skip :: "(nat \<Rightarrow> ('s, byte list option) chan) \<Rightarrow> u64 \<Rightarrow> ('s, unit) chan" where
  "reader_skip tr n = chan_bind (tr (unat n))
     (\<lambda>res. case res of None \<Rightarrow> chan_throw (Error 0 ''EOF'') | Some bs \<Rightarrow> chan_return ())"

definition reader_align :: "'s Reader \<Rightarrow> u64 \<Rightarrow> ('s, unit) chan" where
  "reader_align r n s =
     (if n = 0 then (Inl Division_by_zero, s)
      else skip r (n * ((get_offset r s + n - 1) div n) - get_offset r s) s)"

definition base_reader :: "(nat \<Rightarrow> ('s, byte list) chan) \<Rightarrow> ('s \<Rightarrow> u64) \<Rightarrow> 's Reader" where
  "base_reader rd off = \<lparr> basic_read = rd, try_read = reader_try_read rd,
     try_read_string = reader_try_read_string rd, skip = reader_skip (reader_try_read rd), get_offset = off \<rparr>"

declare try_read_loop.simps [simp del] try_read_string_loop.simps [simp del] read_to_limit.simps [simp del]

section \<open>The contract of basic_read\<close>

text \<open>
  What the class documents of \<^verbatim>\<open>basic_read\<close>: it returns as much as is available, at least one byte
  before the end of the data, and zero only at the end or when none were asked for. \<open>rest\<close> is the data still to come and
  \<open>ok\<close> the object's own invariant. Short reads are allowed.
\<close>

definition yields ::
  "('s \<Rightarrow> bool) \<Rightarrow> ('s \<Rightarrow> 'r) \<Rightarrow> ('s, 'a) chan \<Rightarrow> 'r \<Rightarrow> 'a \<Rightarrow> 'r \<Rightarrow> bool" where
  "yields ok rest m input v left \<longleftrightarrow>
     (\<forall>s. ok s \<and> rest s = input \<longrightarrow> (\<exists>s'. m s = (Inr v, s') \<and> ok s' \<and> rest s' = left))"

definition fails ::
  "('s \<Rightarrow> bool) \<Rightarrow> ('s \<Rightarrow> 'r list) \<Rightarrow> ('s, 'a) chan \<Rightarrow> 'r list \<Rightarrow> chan_error \<Rightarrow> bool" where
  "fails ok rest m input e \<longleftrightarrow>
     (\<forall>s. ok s \<and> rest s = input \<longrightarrow> (\<exists>s'. m s = (Inl e, s') \<and> ok s' \<and> rest s' = []))"

lemma yieldsD:
  "yields ok rest m (rest s) v left \<Longrightarrow> ok s \<Longrightarrow> \<exists>s'. m s = (Inr v, s') \<and> ok s' \<and> rest s' = left"
  by (simp add: yields_def)

lemma yields_return [simp]: "yields ok rest (chan_return v) input v input"
  by (simp add: yields_def)

lemma yields_Pair [simp]: "yields ok rest (Pair (Inr v)) input v input"
  by (simp add: yields_def)

lemma yields_bind:
  "yields ok rest m input v mid \<Longrightarrow> yields ok rest (f v) mid w left \<Longrightarrow>
   yields ok rest (chan_bind m f) input w left"
  unfolding yields_def by (metis chan_simps(3))

lemma fails_throw_bind: "fails ok rest m input e \<Longrightarrow> fails ok rest (chan_bind m f) input e"
  unfolding fails_def by (metis chan_simps(4))

lemma fails_later:
  "yields ok rest m input v mid \<Longrightarrow> fails ok rest (f v) mid e \<Longrightarrow> fails ok rest (chan_bind m f) input e"
  unfolding yields_def fails_def by (metis chan_simps(3))

locale channel_reader =
  fixes rd :: "nat \<Rightarrow> ('s, byte list) chan"
    and ok :: "'s \<Rightarrow> bool"
    and rest :: "'s \<Rightarrow> byte list"
  assumes read_some: "ok s \<Longrightarrow> 0 < n \<Longrightarrow> rest s \<noteq> [] \<Longrightarrow>
            \<exists>k s'. 0 < k \<and> k \<le> n \<and> k \<le> length (rest s) \<and> rd n s = (Inr (take k (rest s)), s')
              \<and> ok s' \<and> rest s' = drop k (rest s)"
    and read_none: "ok s \<Longrightarrow> rest s = [] \<Longrightarrow> \<exists>s'. rd n s = (Inr [], s') \<and> ok s' \<and> rest s' = []"
    and read_zero: "ok s \<Longrightarrow> \<exists>s'. rd 0 s = (Inr [], s') \<and> ok s' \<and> rest s' = rest s"
begin

lemma try_read_loop_enough:
  "ok s \<Longrightarrow> n \<le> length (rest s) \<Longrightarrow>
   \<exists>s'. try_read_loop rd done n s = (Inr (Some (done @ take n (rest s))), s')
     \<and> ok s' \<and> rest s' = drop n (rest s)"
proof (induction n arbitrary: s "done" rule: less_induct)
  case (less n)
  show ?case
  proof (cases "n = 0")
    case False
    then obtain k s1 where k: "0 < k" "k \<le> n" "k \<le> length (rest s)" "rd n s = (Inr (take k (rest s)), s1)"
      "ok s1" "rest s1 = drop k (rest s)"
      using read_some [of s n] less.prems by fastforce
    then have smaller: "n - k < n" "n - k \<le> length (rest s1)"
      using less.prems diff_le_mono [of n "length (rest s)" k] by simp_all
    then obtain s' where "try_read_loop rd (done @ take k (rest s)) (n - k) s1
        = (Inr (Some ((done @ take k (rest s)) @ take (n - k) (rest s1))), s')"
        "ok s'" "rest s' = drop (n - k) (rest s1)"
      using less.IH [OF smaller(1) k(5) smaller(2), of "done @ take k (rest s)"] by auto
    moreover have "take n (rest s) = take k (rest s) @ take (n - k) (rest s1)"
      using k by (metis take_add le_add_diff_inverse)
    moreover have "take k (rest s) \<noteq> []" using k by auto
    ultimately show ?thesis
      using k False by (simp add: try_read_loop.simps [of rd "done" n s])
  qed (use less.prems in \<open>simp add: try_read_loop.simps [of rd "done" 0 s]\<close>)
qed

lemma try_read_loop_short:
  "ok s \<Longrightarrow> length (rest s) < n \<Longrightarrow>
   \<exists>s'. try_read_loop rd done n s
       = (if done = [] \<and> rest s = [] then Inr None else Inl (Error 0 ''EOF''), s')
     \<and> ok s' \<and> rest s' = []"
proof (induction n arbitrary: s "done" rule: less_induct)
  case (less n)
  show ?case
  proof (cases "rest s = []")
    case True
    then obtain s1 where "rd n s = (Inr [], s1)" "ok s1" "rest s1 = []"
      using read_none [of s n] less.prems by blast
    with True less.prems show ?thesis by (simp add: try_read_loop.simps [of rd "done" n s])
  next
    case False
    then obtain k s1 where k: "0 < k" "k \<le> n" "k \<le> length (rest s)" "rd n s = (Inr (take k (rest s)), s1)"
      "ok s1" "rest s1 = drop k (rest s)"
      using read_some [of s n] less.prems by fastforce
    have ne: "take k (rest s) \<noteq> []" using k False by simp
    have smaller: "n - k < n" "length (rest s1) < n - k"
      using less.prems k by (simp_all add: diff_less_mono)
    obtain s' where "try_read_loop rd (done @ take k (rest s)) (n - k) s1 = (Inl (Error 0 ''EOF''), s')"
        "ok s'" "rest s' = []"
      using less.IH [OF smaller(1) k(5) smaller(2), of "done @ take k (rest s)"] ne by auto
    with k ne False less.prems show ?thesis
      by (simp add: try_read_loop.simps [of rd "done" n s])
  qed
qed

lemma try_read_yields:
  "n \<le> length input \<Longrightarrow> yields ok rest (reader_try_read rd n) input (Some (take n input)) (drop n input)"
  unfolding yields_def reader_try_read_def using try_read_loop_enough [where ?done = "[]"] by fastforce

lemma try_read_eof: "0 < n \<Longrightarrow> yields ok rest (reader_try_read rd n) [] None []"
  unfolding yields_def reader_try_read_def using try_read_loop_short [where ?done = "[]"] by force

lemma try_read_fails:
  "input \<noteq> [] \<Longrightarrow> length input < n \<Longrightarrow> fails ok rest (reader_try_read rd n) input (Error 0 ''EOF'')"
  unfolding fails_def reader_try_read_def using try_read_loop_short [where ?done = "[]"] by force

lemma read_yields:
  "try_read r = reader_try_read rd \<Longrightarrow> n \<le> length input \<Longrightarrow>
   yields ok rest (reader_read r n) input (take n input) (drop n input)"
  unfolding reader_read_def by (rule yields_bind [where v = "Some (take n input)" and mid = "drop n input"])
    (simp_all add: try_read_yields)

lemma read_fails:
  assumes "try_read r = reader_try_read rd" "length input < n"
  shows "fails ok rest (reader_read r n) input (Error 0 ''EOF'')"
proof (cases "input = []")
  case True
  then have "yields ok rest (try_read r n) input None []" using assms try_read_eof [of n] by simp
  then show ?thesis unfolding reader_read_def by (rule fails_later) (simp add: fails_def)
next
  case False
  with assms show ?thesis
    unfolding reader_read_def by (simp add: fails_throw_bind try_read_fails)
qed

lemma read_byte_yields:
  "try_read r = reader_try_read rd \<Longrightarrow> yields ok rest (read_byte r) (b # bs) b bs"
  unfolding read_byte_def by (rule yields_bind [OF read_yields]) simp_all

lemma read_nbo_32_yields:
  "try_read r = reader_try_read rd \<Longrightarrow>
   yields ok rest (read_nbo_32 r) (a # b # c # d # bs) (ntohl [a, b, c, d]) bs"
  unfolding read_nbo_32_def by (rule yields_bind [OF read_yields]) simp_all

lemma read_le_32_yields:
  "try_read r = reader_try_read rd \<Longrightarrow>
   yields ok rest (read_le_32 r) (a # b # c # d # bs) (le_32_of [a, b, c, d]) bs"
  unfolding read_le_32_def by (rule yields_bind [OF read_yields]) simp_all

lemma try_read_string_loop_enough:
  "ok s \<Longrightarrow> n \<le> length (rest s) \<Longrightarrow>
   \<exists>s'. try_read_string_loop rd done n (str, s) = (Inr True, (str @ map char_of_byte (take n (rest s)), s'))
     \<and> ok s' \<and> rest s' = drop n (rest s)"
proof (induction n arbitrary: s "done" str rule: less_induct)
  case (less n)
  define m where "m = min CHANNEL_BUFFER_SIZE n"
  note unfold = try_read_string_loop.simps [of rd "done" n str s] m_def [symmetric]
  show ?case
  proof (cases "n = 0")
    case False
    then have "0 < m" "rest s \<noteq> []" using less.prems by (auto simp: m_def CHANNEL_BUFFER_SIZE_def)
    then obtain k s1 where k: "0 < k" "k \<le> m" "k \<le> length (rest s)" "rd m s = (Inr (take k (rest s)), s1)"
      "ok s1" "rest s1 = drop k (rest s)"
      using read_some [OF less.prems(1)] by blast
    have "k \<le> n" using k(2) by (simp add: m_def)
    have smaller: "n - k < n" "n - k \<le> length (rest s1)"
      using False k less.prems diff_le_mono [of n "length (rest s)" k] by simp_all
    obtain s' where "try_read_string_loop rd (done + k) (n - k) (str @ map char_of_byte (take k (rest s)), s1)
        = (Inr True, ((str @ map char_of_byte (take k (rest s))) @ map char_of_byte (take (n - k) (rest s1)), s'))"
        "ok s'" "rest s' = drop (n - k) (rest s1)"
      using less.IH [OF smaller(1) k(5) smaller(2)] by blast
    moreover have "take n (rest s) = take k (rest s) @ take (n - k) (rest s1)"
      using k \<open>k \<le> n\<close> by (metis take_add le_add_diff_inverse)
    moreover have "take k (rest s) \<noteq> []" using k by auto
    ultimately show ?thesis using k False \<open>k \<le> n\<close> by (simp add: unfold min_absorb2)
  qed (use less.prems in \<open>simp add: try_read_string_loop.simps [of rd "done" 0 str s]\<close>)
qed

lemma try_read_string_loop_short:
  "ok s \<Longrightarrow> length (rest s) < n \<Longrightarrow>
   \<exists>s' str'. try_read_string_loop rd done n (str, s)
       = (if done = 0 \<and> rest s = [] then Inr False else Inl (Error 0 ''EOF in string''), (str', s'))
     \<and> ok s' \<and> rest s' = []"
proof (induction n arbitrary: s "done" str rule: less_induct)
  case (less n)
  define m where "m = min CHANNEL_BUFFER_SIZE n"
  note unfold = try_read_string_loop.simps [of rd "done" n str s] m_def [symmetric]
  show ?case
  proof (cases "rest s = []")
    case True
    then obtain s1 where "rd m s = (Inr [], s1)" "ok s1" "rest s1 = []"
      using read_none [of s m] less.prems by blast
    with True less.prems show ?thesis by (simp add: unfold)
  next
    case False
    then obtain k s1 where k: "0 < k" "k \<le> m" "k \<le> length (rest s)" "rd m s = (Inr (take k (rest s)), s1)"
      "ok s1" "rest s1 = drop k (rest s)"
      using read_some [of s m] less.prems by (fastforce simp: m_def CHANNEL_BUFFER_SIZE_def)
    have smaller: "n - k < n" "length (rest s1) < n - k"
      using less.prems k by (simp_all add: diff_less_mono)
    obtain s' str' where "try_read_string_loop rd (done + k) (n - k) (str @ map char_of_byte (take k (rest s)), s1)
        = (Inl (Error 0 ''EOF in string''), (str', s'))" "ok s'" "rest s' = []"
      using less.IH [OF smaller(1) k(5) smaller(2), of "done + k" "str @ map char_of_byte (take k (rest s))"] k(1) by auto
    moreover have "take k (rest s) \<noteq> []" using k False by simp
    ultimately show ?thesis using k False less.prems by (simp add: unfold min_absorb2)
  qed
qed

lemma read_string_enough:
  "try_read_string r = reader_try_read_string rd \<Longrightarrow> ok s \<Longrightarrow> n \<le> length (rest s) \<Longrightarrow>
   \<exists>s'. reader_read_string r n (str, s) = (Inr (), (str @ map char_of_byte (take n (rest s)), s'))
     \<and> ok s' \<and> rest s' = drop n (rest s)"
  using try_read_string_loop_enough [of s n 0 str] by (auto simp: reader_read_string_def reader_try_read_string_def)

lemma read_string_short:
  "try_read_string r = reader_try_read_string rd \<Longrightarrow> ok s \<Longrightarrow> length (rest s) < n \<Longrightarrow>
   \<exists>s' str'. reader_read_string r n (str, s) = (Inl (Error 0 ''EOF in string''), (str', s')) \<and> ok s' \<and> rest s' = []"
  using try_read_string_loop_short [of s n 0 str]
  by (auto simp: reader_read_string_def reader_try_read_string_def chan_bind_def split: if_splits)

text \<open>
  Skipping to the end works in whole buffers: a last partial buffer raises the EOF error of
  \<^verbatim>\<open>try_read\<close> instead of ending the loop.
\<close>

lemma skip_to_eof_result:
  assumes "try_read r = reader_try_read rd"
  shows "ok s \<Longrightarrow> \<exists>s'. skip_to_eof r s =
     Some (if CHANNEL_BUFFER_SIZE dvd length (rest s) then Inr () else Inl (Error 0 ''EOF''), s')
     \<and> ok s' \<and> rest s' = []"
proof (induction "length (rest s)" arbitrary: s rule: less_induct)
  case less
  note unfold = skip_to_eof.simps [of r s] assms
  consider "rest s = []" | "rest s \<noteq> []" "length (rest s) < CHANNEL_BUFFER_SIZE"
    | "CHANNEL_BUFFER_SIZE \<le> length (rest s)" by linarith
  then show ?case
  proof cases
    case 1
    then obtain s' where "reader_try_read rd CHANNEL_BUFFER_SIZE s = (Inr None, s')" "ok s'" "rest s' = []"
      using try_read_eof [of CHANNEL_BUFFER_SIZE] less.prems
      unfolding yields_def CHANNEL_BUFFER_SIZE_def by auto
    with 1 show ?thesis by (simp add: unfold)
  next
    case 2
    then obtain s' where "reader_try_read rd CHANNEL_BUFFER_SIZE s = (Inl (Error 0 ''EOF''), s')"
      "ok s'" "rest s' = []"
      using try_read_fails less.prems unfolding fails_def by blast
    with 2 show ?thesis by (auto simp: unfold dest: dvd_imp_le)
  next
    case 3
    then obtain s1 where s1: "reader_try_read rd CHANNEL_BUFFER_SIZE s
        = (Inr (Some (take CHANNEL_BUFFER_SIZE (rest s))), s1)"
      "ok s1" "rest s1 = drop CHANNEL_BUFFER_SIZE (rest s)"
      using try_read_yields [OF 3] less.prems unfolding yields_def by blast
    moreover have "length (rest s1) < length (rest s)"
      using 3 s1(3) by (simp add: CHANNEL_BUFFER_SIZE_def)
    moreover have "CHANNEL_BUFFER_SIZE dvd length (rest s1) \<longleftrightarrow> CHANNEL_BUFFER_SIZE dvd length (rest s)"
      using 3 s1(3) by (simp add: dvd_minus_self)
    ultimately show ?thesis using less.hyps [of s1] by (simp add: unfold)
  qed
qed

lemma read_to_limit_result:
  "ok s \<Longrightarrow> \<exists>s'. read_to_limit rd n (buffer, s) = (Inr (), (buffer @ take n (rest s), s'))
     \<and> ok s' \<and> rest s' = drop n (rest s)"
proof (induction n arbitrary: s buffer rule: less_induct)
  case (less n)
  define m where "m = min CHANNEL_BUFFER_SIZE n"
  note unfold = read_to_limit.simps [of rd n buffer s] m_def [symmetric]
  consider "n = 0" | "n \<noteq> 0" "rest s = []" | "n \<noteq> 0" "rest s \<noteq> []" by blast
  then show ?case
  proof cases
    case 2
    with read_none [of s m] less.prems show ?thesis by (auto simp: unfold)
  next
    case 3
    then obtain k s1 where k: "0 < k" "k \<le> m" "k \<le> length (rest s)" "rd m s = (Inr (take k (rest s)), s1)"
      "ok s1" "rest s1 = drop k (rest s)"
      using read_some [of s m] less.prems by (fastforce simp: m_def CHANNEL_BUFFER_SIZE_def)
    have "k \<le> n" using k(2) by (simp add: m_def)
    obtain s' where "read_to_limit rd (n - k) (buffer @ take k (rest s), s1)
        = (Inr (), (buffer @ take k (rest s)) @ take (n - k) (rest s1), s')"
        "ok s'" "rest s' = drop (n - k) (rest s1)"
      using less.IH [of "n - k" s1 "buffer @ take k (rest s)"] k 3 by auto
    moreover have "take n (rest s) = take k (rest s) @ take (n - k) (rest s1)"
      using k \<open>k \<le> n\<close> by (metis take_add le_add_diff_inverse)
    ultimately show ?thesis using k 3 \<open>k \<le> n\<close> by (simp add: unfold min_absorb2)
  qed (simp add: read_to_limit.simps less.prems)
qed

end

end
