(* ===== verification/Readers.thy ===== *)
theory Readers
  imports Channel
begin

text \<open>
  The in-memory readers of libs/chan: \<^verbatim>\<open>StringReader\<close> (string-chan.cc), \<^verbatim>\<open>BlockReader\<close>
  (block-chan.cc) and \<^verbatim>\<open>LimitedReader\<close> (ot-chan.h), which wraps any reader. Offsets are 64-bit and
  the bounds checks are written in the wrapping arithmetic of the source. Each reader is an
  interpretation of the \<^verbatim>\<open>basic_read\<close> contract \<open>channel_reader\<close>.
\<close>

section \<open>StringReader\<close>

record StringReader =
  sr_data :: "byte list"
  sr_offset :: u64

definition string_reader :: "byte list \<Rightarrow> StringReader" where
  "string_reader data = \<lparr> sr_data = data, sr_offset = 0 \<rparr>"

definition string_basic_read :: "nat \<Rightarrow> (StringReader, byte list) chan" where
  "string_basic_read count r =
     (let length = (of_nat (length (sr_data r)) :: u64);
          count = (if unat (length - sr_offset r) < count then unat (length - sr_offset r) else count)
      in if count \<noteq> 0
         then (Inr (take count (drop (unat (sr_offset r)) (sr_data r))),
               r \<lparr> sr_offset := sr_offset r + of_nat count \<rparr>)
         else (Inr [], r))"

definition string_skip :: "u64 \<Rightarrow> (StringReader, unit) chan" where
  "string_skip n r =
     (if sr_offset r + n > of_nat (length (sr_data r))
      then (Inl (Error 1 ''Skip beyond end of string''), r)
      else (Inr (), r \<lparr> sr_offset := sr_offset r + n \<rparr>))"

definition string_rewind :: "u64 \<Rightarrow> (StringReader, unit) chan" where
  "string_rewind n r =
     (if n \<le> sr_offset r then (Inr (), r \<lparr> sr_offset := sr_offset r - n \<rparr>)
      else (Inl (Error 1 ''Rewound too far''), r))"

definition StringReader_methods :: "StringReader Reader" where
  "StringReader_methods =
     \<lparr> basic_read = string_basic_read, try_read = reader_try_read string_basic_read,
       try_read_string = reader_try_read_string string_basic_read,
       skip = string_skip, get_offset = sr_offset \<rparr>"

definition string_ok :: "StringReader \<Rightarrow> bool" where
  "string_ok r \<longleftrightarrow> unat (sr_offset r) \<le> length (sr_data r) \<and> length (sr_data r) < 2 ^ 64"

definition string_rest :: "StringReader \<Rightarrow> byte list" where
  "string_rest r = drop (unat (sr_offset r)) (sr_data r)"

section \<open>BlockReader\<close>

text \<open>The pointer \<^verbatim>\<open>data\<close> is an index into the block it was constructed on.\<close>

record BlockReader =
  br_block :: "byte list"
  br_data :: nat
  br_length :: u64
  br_offset :: u64

definition block_reader :: "byte list \<Rightarrow> BlockReader" where
  "block_reader v = \<lparr> br_block = v, br_data = 0, br_length = of_nat (length v), br_offset = 0 \<rparr>"

definition block_basic_read :: "nat \<Rightarrow> (BlockReader, byte list) chan" where
  "block_basic_read count r =
     (let count = (if unat (br_length r - br_offset r) < count then unat (br_length r - br_offset r) else count)
      in if count \<noteq> 0
         then (Inr (take count (drop (br_data r) (br_block r))),
               r \<lparr> br_data := br_data r + count, br_offset := br_offset r + of_nat count \<rparr>)
         else (Inr [], r))"

definition block_skip :: "u64 \<Rightarrow> (BlockReader, unit) chan" where
  "block_skip n r =
     (if br_offset r + n > br_length r then (Inl (Error 1 ''Skip beyond end of block''), r)
      else (Inr (), r \<lparr> br_offset := br_offset r + n, br_data := br_data r + unat n \<rparr>))"

definition block_rewind :: "u64 \<Rightarrow> (BlockReader, unit) chan" where
  "block_rewind n r =
     (if n \<le> br_offset r
      then (Inr (), r \<lparr> br_data := br_data r - unat n, br_offset := br_offset r - n \<rparr>)
      else (Inl (Error 1 ''Rewound too far''), r))"

definition BlockReader_methods :: "BlockReader Reader" where
  "BlockReader_methods =
     \<lparr> basic_read = block_basic_read, try_read = reader_try_read block_basic_read,
       try_read_string = reader_try_read_string block_basic_read,
       skip = block_skip, get_offset = br_offset \<rparr>"

definition block_ok :: "BlockReader \<Rightarrow> bool" where
  "block_ok r \<longleftrightarrow> br_data r = unat (br_offset r) \<and> br_length r = of_nat (length (br_block r))
     \<and> unat (br_offset r) \<le> length (br_block r) \<and> length (br_block r) < 2 ^ 64"

definition block_rest :: "BlockReader \<Rightarrow> byte list" where
  "block_rest r = drop (br_data r) (br_block r)"

section \<open>LimitedReader\<close>

record 's LimitedReader =
  lr_reader :: 's
  lr_left :: nat
  lr_offset :: u64

definition limited_reader :: "'s \<Rightarrow> nat \<Rightarrow> 's LimitedReader" where
  "limited_reader reader limit = \<lparr> lr_reader = reader, lr_left = limit, lr_offset = 0 \<rparr>"

definition limited_basic_read :: "(nat \<Rightarrow> ('s, byte list) chan) \<Rightarrow> nat \<Rightarrow> ('s LimitedReader, byte list) chan" where
  "limited_basic_read rd count lr =
     (let count = (if count > lr_left lr then lr_left lr else count)
      in case rd count (lr_reader lr) of
           (Inl e, s') \<Rightarrow> (Inl e, lr \<lparr> lr_reader := s' \<rparr>)
         | (Inr bs, s') \<Rightarrow>
             (Inr bs, lr \<lparr> lr_reader := s', lr_left := lr_left lr - length bs,
                           lr_offset := lr_offset lr + of_nat (length bs) \<rparr>))"

definition limited_try_read :: "(nat \<Rightarrow> ('s, byte list) chan) \<Rightarrow> nat \<Rightarrow> ('s LimitedReader, byte list option) chan" where
  "limited_try_read rd count lr =
     (if lr_left lr = 0 then (Inr None, lr) else reader_try_read (limited_basic_read rd) count lr)"

definition limited_try_read_string :: "(nat \<Rightarrow> ('s, byte list) chan) \<Rightarrow> nat \<Rightarrow> (string \<times> 's LimitedReader, bool) chan" where
  "limited_try_read_string rd count p =
     (if lr_left (snd p) = 0 then (Inr False, p) else reader_try_read_string (limited_basic_read rd) count p)"

definition limited_read_to_eof_limit :: "(nat \<Rightarrow> ('s, byte list) chan) \<Rightarrow> nat \<Rightarrow> (byte list \<times> 's LimitedReader, unit) chan" where
  "limited_read_to_eof_limit rd limit p = read_to_limit (limited_basic_read rd) (min (lr_left (snd p)) limit) p"

definition limited_read_to_eof :: "(nat \<Rightarrow> ('s, byte list) chan) \<Rightarrow> (byte list \<times> 's LimitedReader, unit) chan" where
  "limited_read_to_eof rd p = read_to_limit (limited_basic_read rd) (lr_left (snd p)) p"

text \<open>\<^verbatim>\<open>skip_to_eof\<close> skips the wrapped reader and changes neither \<^verbatim>\<open>left\<close> nor \<^verbatim>\<open>offset\<close>.\<close>

definition limited_skip_to_eof :: "'s Reader \<Rightarrow> ('s LimitedReader, unit) chan" where
  "limited_skip_to_eof r lr =
     (if lr_left lr \<noteq> 0
      then case skip r (of_nat (lr_left lr)) (lr_reader lr) of (res, s') \<Rightarrow> (res, lr \<lparr> lr_reader := s' \<rparr>)
      else (Inr (), lr))"

definition LimitedReader_methods :: "'s Reader \<Rightarrow> 's LimitedReader Reader" where
  "LimitedReader_methods r =
     \<lparr> basic_read = limited_basic_read (basic_read r), try_read = limited_try_read (basic_read r),
       try_read_string = limited_try_read_string (basic_read r),
       skip = reader_skip (limited_try_read (basic_read r)), get_offset = lr_offset \<rparr>"

section \<open>The contract holds for the readers\<close>

lemma offset_arith:
  assumes "unat off \<le> n" "n < 2 ^ 64"
  shows "unat (of_nat n - off :: u64) = n - unat off"
  using assms by (simp add: unat_sub word_le_nat_alt unat_of_nat)

lemma offset_advance:
  "unat (off :: u64) + k \<le> n \<Longrightarrow> n < 2 ^ 64 \<Longrightarrow> unat (off + of_nat k) = unat off + k"
  by (simp add: unat_word_ariths unat_of_nat)

lemma string_basic_read_ok:
  assumes "string_ok s"
  shows "\<exists>s'. string_basic_read n s = (Inr (take n (string_rest s)), s') \<and> string_ok s'
     \<and> string_rest s' = drop n (string_rest s)"
proof -
  define k where "k = min n (length (string_rest s))"
  have len: "unat (of_nat (length (sr_data s)) - sr_offset s) = length (string_rest s)"
    using assms by (simp add: string_ok_def string_rest_def offset_arith)
  have adv: "unat (sr_offset s + of_nat k) = unat (sr_offset s) + k"
    using assms by (intro offset_advance [of _ _ "length (sr_data s)"])
      (auto simp: string_ok_def string_rest_def k_def)
  have "string_basic_read n s = (Inr (take n (string_rest s)), s \<lparr> sr_offset := sr_offset s + of_nat k \<rparr>)"
    by (auto simp: string_basic_read_def Let_def len k_def string_rest_def [symmetric] min_def)
  moreover have "string_rest (s \<lparr> sr_offset := sr_offset s + of_nat k \<rparr>) = drop n (string_rest s)"
    using adv by (simp add: string_rest_def k_def min_def add.commute)
  moreover have "string_ok (s \<lparr> sr_offset := sr_offset s + of_nat k \<rparr>)"
    using assms adv by (auto simp: string_ok_def string_rest_def k_def min_def)
  ultimately show ?thesis by blast
qed

lemma block_basic_read_ok:
  assumes "block_ok s"
  shows "\<exists>s'. block_basic_read n s = (Inr (take n (block_rest s)), s') \<and> block_ok s'
     \<and> block_rest s' = drop n (block_rest s)"
proof -
  define k where "k = min n (length (block_rest s))"
  define s' where "s' = s \<lparr> br_data := br_data s + k, br_offset := br_offset s + of_nat k \<rparr>"
  have len: "unat (br_length s - br_offset s) = length (block_rest s)"
    using assms by (simp add: block_ok_def block_rest_def offset_arith)
  have adv: "unat (br_offset s + of_nat k) = unat (br_offset s) + k"
    using assms by (intro offset_advance [of _ _ "length (br_block s)"])
      (auto simp: block_ok_def block_rest_def k_def)
  have "block_basic_read n s = (Inr (take n (block_rest s)), s')"
    by (auto simp: block_basic_read_def Let_def len k_def s'_def block_rest_def [symmetric] min_def)
  moreover have "block_rest s' = drop n (block_rest s)"
    using assms adv by (simp add: s'_def block_rest_def k_def min_def add.commute)
  moreover have "block_ok s'"
    using assms adv by (auto simp: s'_def block_ok_def block_rest_def k_def min_def)
  ultimately show ?thesis by blast
qed

text \<open>A reader that returns all that is asked for or all there is meets the contract.\<close>

lemma channel_reader_full:
  assumes "\<And>s n. ok s \<Longrightarrow> \<exists>s'. rd n s = (Inr (take n (rest s)), s') \<and> ok s' \<and> rest s' = drop n (rest s)"
  shows "channel_reader rd ok rest"
proof
  fix s and n :: nat assume *: "ok s" "0 < n" "rest s \<noteq> []"
  then obtain s' where s': "rd n s = (Inr (take n (rest s)), s')" "ok s'" "rest s' = drop n (rest s)"
    using assms by blast
  show "\<exists>k s'. 0 < k \<and> k \<le> n \<and> k \<le> length (rest s) \<and> rd n s = (Inr (take k (rest s)), s') \<and> ok s'
      \<and> rest s' = drop k (rest s)"
    using * s' by (intro exI [of _ "min n (length (rest s))"] exI [of _ s']) (auto simp: min_def)
next
  fix s and n :: nat assume "ok s" "rest s = []"
  then show "\<exists>s'. rd n s = (Inr [], s') \<and> ok s' \<and> rest s' = []" using assms [of s n] by simp
next
  fix s assume "ok s"
  then show "\<exists>s'. rd 0 s = (Inr [], s') \<and> ok s' \<and> rest s' = rest s" using assms [of s 0] by simp
qed

interpretation str: channel_reader string_basic_read string_ok string_rest
  by (rule channel_reader_full) (rule string_basic_read_ok)

interpretation blk: channel_reader block_basic_read block_ok block_rest
  by (rule channel_reader_full) (rule block_basic_read_ok)

text \<open>The loops over \<^verbatim>\<open>basic_read\<close> keep what it keeps, also when they end in an exception.\<close>

lemma try_read_loop_keeps:
  "(\<And>n s. P s \<Longrightarrow> P (snd (rd n s))) \<Longrightarrow> P s \<Longrightarrow> P (snd (try_read_loop rd dn count s))"
proof (induction rd dn count s rule: try_read_loop.induct)
  case (1 rd dn count s)
  obtain res s' where rd: "rd count s = (res, s')" by fastforce
  with 1(2) [OF 1(3), of count] have "P s'" by simp
  with 1 rd show ?case by (cases res) (simp_all add: try_read_loop.simps [of rd dn count s])
qed

lemma try_read_string_loop_keeps:
  "(\<And>n s. P s \<Longrightarrow> P (snd (rd n s))) \<Longrightarrow> P (snd p) \<Longrightarrow> P (snd (snd (try_read_string_loop rd dn count p)))"
proof (induction rd dn count p rule: try_read_string_loop.induct)
  case (1 rd dn count str s)
  obtain res s' where rd: "rd (min CHANNEL_BUFFER_SIZE count) s = (res, s')" by fastforce
  with 1(2) [of s "min CHANNEL_BUFFER_SIZE count"] 1(3) have "P s'" by simp
  with 1 rd show ?case by (cases res) (simp_all add: try_read_string_loop.simps [of rd dn count str s])
qed

lemma read_to_limit_keeps:
  "(\<And>n s. P s \<Longrightarrow> P (snd (rd n s))) \<Longrightarrow> P (snd p) \<Longrightarrow> P (snd (snd (read_to_limit rd limit p)))"
proof (induction rd limit p rule: read_to_limit.induct)
  case (1 rd limit buffer s)
  obtain res s' where rd: "rd (min CHANNEL_BUFFER_SIZE limit) s = (res, s')" by fastforce
  with 1(2) [of s "min CHANNEL_BUFFER_SIZE limit"] 1(3) have "P s'" by simp
  with 1 rd show ?case by (cases res) (simp_all add: read_to_limit.simps [of rd limit buffer s])
qed

text \<open>
  A limited reader over any reader that meets the contract: the data still to come is what the
  limit leaves of the wrapped reader's, and the wrapped reader has moved by exactly the part of
  the limit already used.
\<close>

locale limiting = channel_reader rd ok rest
  for rd :: "nat \<Rightarrow> ('s, byte list) chan" and ok and rest +
  fixes limit :: nat and input :: "byte list"
begin

definition limited_ok :: "'s LimitedReader \<Rightarrow> bool" where
  "limited_ok lr \<longleftrightarrow> ok (lr_reader lr) \<and> lr_left lr \<le> limit \<and> limit - lr_left lr \<le> length input
     \<and> rest (lr_reader lr) = drop (limit - lr_left lr) input"

definition limited_rest :: "'s LimitedReader \<Rightarrow> byte list" where
  "limited_rest lr = take (lr_left lr) (rest (lr_reader lr))"

lemma limited_read_some:
  assumes "limited_ok s" "0 < n" "limited_rest s \<noteq> []"
  shows "\<exists>k s'. 0 < k \<and> k \<le> n \<and> k \<le> length (limited_rest s)
     \<and> limited_basic_read rd n s = (Inr (take k (limited_rest s)), s')
     \<and> limited_ok s' \<and> limited_rest s' = drop k (limited_rest s)"
proof -
  define m where "m = min n (lr_left s)"
  from assms have r: "ok (lr_reader s)" "0 < m" "rest (lr_reader s) \<noteq> []"
    by (auto simp: limited_ok_def limited_rest_def m_def)
  obtain k s1 where k: "0 < k" "k \<le> m" "k \<le> length (rest (lr_reader s))"
    "rd m (lr_reader s) = (Inr (take k (rest (lr_reader s))), s1)" "ok s1" "rest s1 = drop k (rest (lr_reader s))"
    using read_some [OF r] by blast
  have m: "(if n > lr_left s then lr_left s else n) = m" by (simp add: m_def)
  have le: "k \<le> lr_left s" "k \<le> n" "lr_left s - k \<le> limit" "limit - (lr_left s - k) = k + (limit - lr_left s)"
    using k(2) assms(1) by (auto simp: m_def limited_ok_def)
  show ?thesis
    using k le assms(1)
    by (intro exI [of _ k] exI [of _ "s \<lparr> lr_reader := s1, lr_left := lr_left s - k, lr_offset := lr_offset s + of_nat k \<rparr>"])
      (simp add: limited_basic_read_def m limited_ok_def limited_rest_def min_absorb2 take_drop, linarith)
qed

lemma limited_read_none:
  assumes "limited_ok s" "limited_rest s = []"
  shows "\<exists>s'. limited_basic_read rd n s = (Inr [], s') \<and> limited_ok s' \<and> limited_rest s' = []"
proof (cases "lr_left s = 0")
  case True
  with assms read_zero [of "lr_reader s"] show ?thesis
    by (fastforce simp: limited_basic_read_def limited_ok_def limited_rest_def)
next
  case False
  with assms have "rest (lr_reader s) = []" by (simp add: limited_rest_def)
  with assms read_none [of "lr_reader s" "if n > lr_left s then lr_left s else n"] show ?thesis
    by (auto simp: limited_basic_read_def limited_ok_def limited_rest_def Let_def simp del: if_split)
qed

lemma limited_read_zero:
  "limited_ok s \<Longrightarrow> \<exists>s'. limited_basic_read rd 0 s = (Inr [], s') \<and> limited_ok s' \<and> limited_rest s' = limited_rest s"
  using read_zero [of "lr_reader s"] by (fastforce simp: limited_basic_read_def limited_ok_def limited_rest_def)

end

sublocale limiting \<subseteq> lim: channel_reader "limited_basic_read rd" limited_ok limited_rest
  by unfold_locales (fact limited_read_some limited_read_none limited_read_zero)+

context limiting
begin

lemma limited_consumed:
  assumes "limited_ok lr"
  shows "rest (lr_reader lr) = drop (min limit (length input) - length (limited_rest lr)) input"
proof -
  have "length (limited_rest lr) = min (lr_left lr) (length input - (limit - lr_left lr))"
    using assms by (simp add: limited_ok_def limited_rest_def min.commute)
  then have "min limit (length input) - length (limited_rest lr) = limit - lr_left lr"
    using assms by (auto simp: limited_ok_def min_def)
  with assms show ?thesis by (simp add: limited_ok_def)
qed

lemma limited_start: "ok s \<Longrightarrow> rest s = input \<Longrightarrow> limited_ok (limited_reader s limit)"
  by (simp add: limited_ok_def limited_reader_def)

text \<open>Reading through the limit is all or nothing, at any time.\<close>

lemma limited_read_result:
  assumes r: "try_read r = limited_try_read rd" and s: "limited_ok s" and pos: "0 < n"
  shows "\<exists>s'. reader_read r n s
       = (if n \<le> lr_left s \<and> n \<le> length (rest (lr_reader s)) then Inr (take n (rest (lr_reader s))) else Inl (Error 0 ''EOF''), s')"
proof (cases "lr_left s = 0")
  case True
  with r pos show ?thesis by (simp add: reader_read_def chan_bind_def limited_try_read_def)
next
  case False
  let ?r = "base_reader (limited_basic_read rd) lr_offset"
  have same: "reader_read r n s = reader_read ?r n s"
    using r False by (simp add: reader_read_def chan_bind_def limited_try_read_def base_reader_def)
  have base: "try_read ?r = reader_try_read (limited_basic_read rd)" by (simp add: base_reader_def)
  have enough: "n \<le> length (limited_rest s) \<longleftrightarrow> n \<le> lr_left s \<and> n \<le> length (rest (lr_reader s))" by (auto simp: limited_rest_def)
  show ?thesis
  proof (cases "n \<le> length (limited_rest s)")
    case True
    obtain s' where "reader_read ?r n s = (Inr (take n (limited_rest s)), s')"
      using lim.read_yields [OF base True] s unfolding yields_def by blast
    moreover have "take n (limited_rest s) = take n (rest (lr_reader s))" using True enough by (simp add: limited_rest_def min_def)
    ultimately show ?thesis using same True enough by simp
  next
    case False
    then have "length (limited_rest s) < n" by simp
    then obtain s' where "reader_read ?r n s = (Inl (Error 0 ''EOF''), s')"
      using lim.read_fails [OF base] s unfolding fails_def by blast
    with same False enough show ?thesis by simp
  qed
qed

text \<open>Every operation made of basic reads keeps the invariant, whether it returns or throws.\<close>

lemma limited_basic_read_ok: "limited_ok s \<Longrightarrow> limited_ok (snd (limited_basic_read rd n s))"
  using limited_read_some [of s n] limited_read_none [of s n] limited_read_zero [of s] by (cases "n = 0"; cases "limited_rest s = []") auto

end

text \<open>What a client does with a limited reader, apart from \<^verbatim>\<open>skip_to_eof\<close>; an exception leaves the state it was thrown in.\<close>

datatype limited_op =
  Basic_read nat | Read_exact nat | Try_read nat | Try_read_string string nat | Read_to_eof | Read_to_eof_limit nat | Skip u64

fun limited_exec :: "'s Reader \<Rightarrow> limited_op \<Rightarrow> 's LimitedReader \<Rightarrow> 's LimitedReader" where
  "limited_exec r (Basic_read n) lr = snd (limited_basic_read (basic_read r) n lr)"
| "limited_exec r (Read_exact n) lr = snd (reader_read (LimitedReader_methods r) n lr)"
| "limited_exec r (Try_read n) lr = snd (limited_try_read (basic_read r) n lr)"
| "limited_exec r (Try_read_string str n) lr = snd (snd (limited_try_read_string (basic_read r) n (str, lr)))"
| "limited_exec r Read_to_eof lr = snd (snd (limited_read_to_eof (basic_read r) ([], lr)))"
| "limited_exec r (Read_to_eof_limit n) lr = snd (snd (limited_read_to_eof_limit (basic_read r) n ([], lr)))"
| "limited_exec r (Skip n) lr = snd (skip (LimitedReader_methods r) n lr)"

lemma snd_chan_bind: "P (snd (m s)) \<Longrightarrow> (\<And>a s'. P s' \<Longrightarrow> P (snd (f a s'))) \<Longrightarrow> P (snd (chan_bind m f s))"
  by (cases "m s"; cases "fst (m s)") (auto simp: chan_bind_def)

context limiting
begin

lemma limited_try_read_ok: "limited_ok lr \<Longrightarrow> limited_ok (snd (limited_try_read rd n lr))"
  unfolding limited_try_read_def reader_try_read_def
  by (simp add: try_read_loop_keeps [where P = limited_ok] limited_basic_read_ok)

lemma limited_exec_ok: "basic_read r = rd \<Longrightarrow> limited_ok lr \<Longrightarrow> limited_ok (limited_exec r op lr)"
proof (cases op)
  case (Read_exact n)
  then show "limited_ok (limited_exec r op lr)" if "basic_read r = rd" "limited_ok lr"
    using that limited_try_read_ok by (auto simp: reader_read_def LimitedReader_methods_def intro!: snd_chan_bind [where P = limited_ok] split: option.split)
next
  case (Skip n)
  then show "limited_ok (limited_exec r op lr)" if "basic_read r = rd" "limited_ok lr"
    using that limited_try_read_ok by (auto simp: reader_skip_def LimitedReader_methods_def intro!: snd_chan_bind [where P = limited_ok] split: option.split)
qed (use limited_basic_read_ok in \<open>auto simp: limited_try_read_ok limited_try_read_string_def reader_try_read_string_def limited_read_to_eof_def
    limited_read_to_eof_limit_def intro!: try_read_string_loop_keeps [where P = limited_ok] read_to_limit_keeps [where P = limited_ok]\<close>)

lemma limited_run_ok: "basic_read r = rd \<Longrightarrow> limited_ok lr \<Longrightarrow> limited_ok (fold (limited_exec r) ops lr)"
  by (induction ops arbitrary: lr) (simp_all add: limited_exec_ok)

end

interpretation slim: limiting string_basic_read string_ok string_rest limit input for limit input
  by unfold_locales

lemma StringReader_try_read [simp]: "try_read StringReader_methods = reader_try_read string_basic_read"
  by (simp add: StringReader_methods_def)

lemma StringReader_try_read_string [simp]:
  "try_read_string StringReader_methods = reader_try_read_string string_basic_read"
  by (simp add: StringReader_methods_def)

lemma BlockReader_try_read [simp]: "try_read BlockReader_methods = reader_try_read block_basic_read"
  by (simp add: BlockReader_methods_def)

lemma string_ok_initial: "length data < 2 ^ 64 \<Longrightarrow> string_ok (string_reader data)"
  by (simp add: string_ok_def string_reader_def)

lemma string_rest_initial [simp]: "string_rest (string_reader data) = data"
  by (simp add: string_rest_def string_reader_def)

section \<open>Properties\<close>

text \<open>
  C12: An exact read from a string is all or nothing. If \<open>n\<close> bytes remain \<^verbatim>\<open>read\<close> returns the next
  \<open>n\<close> and moves past them; otherwise it throws the EOF error having used up the data. The
  reader's invariant (the offset within the data) is kept.
\<close>

theorem string_read_exact:
  assumes "string_ok r"
  shows "\<exists>r'. reader_read StringReader_methods n r =
      (if n \<le> length (string_rest r) then Inr (take n (string_rest r)) else Inl (Error 0 ''EOF''), r')
    \<and> string_ok r' \<and> string_rest r' = drop n (string_rest r)"
proof (cases "n \<le> length (string_rest r)")
  case True
  then show ?thesis
    using str.read_yields [OF StringReader_try_read True] assms unfolding yields_def by auto
next
  case False
  then have "length (string_rest r) < n" by simp
  from str.read_fails [OF StringReader_try_read this] assms False show ?thesis
    unfolding fails_def by auto
qed

theorem string_read_exact_witness:
  "\<exists>r'. reader_read StringReader_methods 2 (string_reader [7, 8, 9]) = (Inr [7, 8], r') \<and> string_rest r' = [9]"
  using string_read_exact [of "string_reader [7, 8, 9]" 2] by (auto simp: string_ok_initial)

text \<open>
  Every operation of a string reader keeps its offset inside the data, on success and on
  error, for any argument, and rewinding what was read restores the reader.
\<close>

theorem string_reader_invariant:
  assumes "string_ok r"
  shows "string_ok (snd (string_basic_read n r)) \<and> string_ok (snd (string_skip k r))
    \<and> string_ok (snd (string_rewind k r))
    \<and> string_rewind (of_nat (min n (length (string_rest r)))) (snd (string_basic_read n r)) = (Inr (), r)"
proof (intro conjI)
  show "string_ok (snd (string_basic_read n r))" using string_basic_read_ok [OF assms, of n] by auto
  show "string_ok (snd (string_skip k r))"
    using assms by (auto simp: string_skip_def string_ok_def word_le_nat_alt not_less unat_of_nat)
  show "string_ok (snd (string_rewind k r))"
    using assms by (auto simp: string_rewind_def string_ok_def unat_sub)
  define m where "m = min n (length (string_rest r))"
  have "m \<le> length (sr_data r) - unat (sr_offset r)" by (simp add: m_def string_rest_def)
  then have adv: "unat (sr_offset r + of_nat m) = unat (sr_offset r) + m"
    using assms by (intro offset_advance [of _ _ "length (sr_data r)"]) (auto simp: string_ok_def)
  have "unat (of_nat (length (sr_data r)) - sr_offset r) = length (string_rest r)"
    using assms by (simp add: string_ok_def string_rest_def offset_arith)
  then have "snd (string_basic_read n r) = r \<lparr> sr_offset := sr_offset r + of_nat m \<rparr>"
    by (auto simp: string_basic_read_def Let_def m_def min_def)
  moreover have "(of_nat m :: u64) \<le> sr_offset r + of_nat m"
    using adv assms \<open>m \<le> _\<close> by (simp add: word_le_nat_alt unat_of_nat string_ok_def)
  ultimately show "string_rewind (of_nat (min n (length (string_rest r)))) (snd (string_basic_read n r)) = (Inr (), r)"
    by (simp add: string_rewind_def m_def [symmetric])
qed

theorem string_reader_invariant_witness:
  "string_rewind 2 (snd (string_basic_read 2 (string_reader [7, 8, 9]))) = (Inr (), string_reader [7, 8, 9])"
  using string_reader_invariant [of "string_reader [7, 8, 9]" 2 0] by (simp add: string_ok_initial)



text \<open>
  Skipping to the end of any in-memory reader always terminates and uses up all the data, but
  ends in the EOF error unless what remained was a whole number of 1024-byte buffers: the loop
  asks \<^verbatim>\<open>try_read\<close> for exact buffers, and a last partial one is an exception there.
\<close>

theorem skip_to_eof_throws:
  assumes "string_ok r"
  shows "\<exists>r'. skip_to_eof StringReader_methods r =
      Some (if 1024 dvd length (string_rest r) then Inr () else Inl (Error 0 ''EOF''), r')
    \<and> string_rest r' = []"
  using str.skip_to_eof_result [OF StringReader_try_read assms] by (auto simp: CHANNEL_BUFFER_SIZE_def)

theorem skip_to_eof_throws_witness:
  "\<exists>r'. skip_to_eof StringReader_methods (string_reader [1, 2, 3]) = Some (Inl (Error 0 ''EOF''), r')"
  using skip_to_eof_throws [of "string_reader [1, 2, 3]"] by (auto simp: string_ok_initial simp: nat_dvd_not_less)

section \<open>Where the checks and the bookkeeping fall short\<close>

text \<open>A limited reader that skips to its end still believes it has its limit left.\<close>

lemma limited_skip_to_eof_forgets:
  "limited_basic_read string_basic_read 2
     (snd (limited_skip_to_eof StringReader_methods (limited_reader (string_reader [1, 2, 3, 4]) 2)))
   = (Inr [3, 4], \<lparr> lr_reader = \<lparr> sr_data = [1, 2, 3, 4], sr_offset = 4 \<rparr>, lr_left = 0, lr_offset = 2 \<rparr>)"
  by (simp add: limited_basic_read_def limited_skip_to_eof_def limited_reader_def StringReader_methods_def
      string_skip_def string_reader_def string_basic_read_def)

text \<open>The bounds check of \<^verbatim>\<open>skip\<close> wraps around: a huge count moves the reader backwards.\<close>

lemma string_skip_wraps:
  "string_skip 0xFFFFFFFFFFFFFFFE \<lparr> sr_data = [1, 2, 3, 4], sr_offset = 3 \<rparr>
   = (Inr (), \<lparr> sr_data = [1, 2, 3, 4], sr_offset = 1 \<rparr>)"
  by (simp add: string_skip_def)

end
