(* ===== verification/Writers.thy ===== *)
theory Writers
  imports Readers
begin

unbundle bit_operations_syntax

text \<open>
  The channel writers of libs/chan: the class \<^verbatim>\<open>Writer\<close> (writer.cc), \<^verbatim>\<open>StringWriter\<close>
  (string-chan.cc) and \<^verbatim>\<open>BlockWriter\<close> (block-chan.cc), and the round trips of the integer formats
  through a writer and a reader.
\<close>

section \<open>Writer\<close>

record 's Writer =
  basic_write :: "byte list \<Rightarrow> ('s, unit) chan"
  w_skip :: "u64 \<Rightarrow> ('s, unit) chan"
  w_offset :: "'s \<Rightarrow> u64"

definition write_string :: "'s Writer \<Rightarrow> string \<Rightarrow> ('s, unit) chan" where
  "write_string w s = basic_write w (map byte_of_char s)"

definition write_fixed :: "'s Writer \<Rightarrow> string \<Rightarrow> nat \<Rightarrow> byte \<Rightarrow> ('s, unit) chan" where
  "write_fixed w s field_length pad =
     (let len = min field_length (length s)
      in foldl (\<lambda>m _. chan_bind m (\<lambda>_. basic_write w [pad]))
           (basic_write w (map byte_of_char (take len s))) [len..<field_length])"

definition write_c_string :: "'s Writer \<Rightarrow> string \<Rightarrow> ('s, unit) chan" where
  "write_c_string w p = basic_write w (map byte_of_char (takeWhile (\<lambda>c. c \<noteq> CHR 0x00) p))"

definition write_bytes :: "'s Writer \<Rightarrow> byte list \<Rightarrow> ('s, unit) chan" where
  "write_bytes w v = basic_write w v"

definition write_byte :: "'s Writer \<Rightarrow> byte \<Rightarrow> ('s, unit) chan" where
  "write_byte w b = basic_write w [b]"

text \<open>\<^verbatim>\<open>htons\<close> and \<^verbatim>\<open>htonl\<close> followed by a copy of the integer's memory: most significant byte first.\<close>

definition htons :: "u16 \<Rightarrow> byte list" where
  "htons i = [ucast (drop_bit 8 i), ucast i]"

definition htonl :: "u32 \<Rightarrow> byte list" where
  "htonl i = [ucast (drop_bit 24 i), ucast (drop_bit 16 i), ucast (drop_bit 8 i), ucast i]"

definition write_nbo_16 :: "'s Writer \<Rightarrow> u16 \<Rightarrow> ('s, unit) chan" where
  "write_nbo_16 w i = basic_write w (htons i)"

definition write_nbo_24 :: "'s Writer \<Rightarrow> u32 \<Rightarrow> ('s, unit) chan" where
  "write_nbo_24 w i = basic_write w [ucast (drop_bit 16 i), ucast (drop_bit 8 i), ucast i]"

definition write_nbo_32 :: "'s Writer \<Rightarrow> u32 \<Rightarrow> ('s, unit) chan" where
  "write_nbo_32 w i = basic_write w (htonl i)"

definition write_nbo_64 :: "'s Writer \<Rightarrow> u64 \<Rightarrow> ('s, unit) chan" where
  "write_nbo_64 w i = chan_bind (write_nbo_32 w (ucast (drop_bit 32 i)))
     (\<lambda>_. write_nbo_32 w (ucast (i AND 0xFFFFFFFF)))"

definition write_le_16 :: "'s Writer \<Rightarrow> u16 \<Rightarrow> ('s, unit) chan" where
  "write_le_16 w i = basic_write w [ucast i, ucast (drop_bit 8 i)]"

definition write_le_24 :: "'s Writer \<Rightarrow> u32 \<Rightarrow> ('s, unit) chan" where
  "write_le_24 w i = basic_write w [ucast i, ucast (drop_bit 8 i), ucast (drop_bit 16 i)]"

definition write_le_32 :: "'s Writer \<Rightarrow> u32 \<Rightarrow> ('s, unit) chan" where
  "write_le_32 w i =
     basic_write w [ucast i, ucast (drop_bit 8 i), ucast (drop_bit 16 i), ucast (drop_bit 24 i)]"

definition write_le_64 :: "'s Writer \<Rightarrow> u64 \<Rightarrow> ('s, unit) chan" where
  "write_le_64 w i = chan_bind (write_le_32 w (ucast (i AND 0xFFFFFFFF)))
     (\<lambda>_. write_le_32 w (ucast (drop_bit 32 i)))"

fun writer_skip_loop :: "(byte list \<Rightarrow> ('s, unit) chan) \<Rightarrow> nat \<Rightarrow> ('s, unit) chan" where
  "writer_skip_loop bw n s =
     (if n = 0 then (Inr (), s)
      else chan_bind (bw (replicate (min n 256) 0)) (\<lambda>_. writer_skip_loop bw (n - min n 256)) s)"

definition writer_skip :: "(byte list \<Rightarrow> ('s, unit) chan) \<Rightarrow> u64 \<Rightarrow> ('s, unit) chan" where
  "writer_skip bw n = writer_skip_loop bw (unat n)"

text \<open>The number of bytes to pad goes through an \<^verbatim>\<open>int\<close> on its way to \<^verbatim>\<open>skip\<close>.\<close>

definition writer_align :: "'s Writer \<Rightarrow> u64 \<Rightarrow> ('s, unit) chan" where
  "writer_align w n s =
     (if n = 0 then (Inl Division_by_zero, s)
      else w_skip w (scast (ucast (n * ((w_offset w s + n - 1) div n) - w_offset w s) :: u32)) s)"

section \<open>StringWriter\<close>

record StringWriter =
  sw_data :: "byte list"
  sw_offset :: u64

definition string_writer :: "byte list \<Rightarrow> StringWriter" where
  "string_writer data = \<lparr> sw_data = data, sw_offset = 0 \<rparr>"

definition string_basic_write :: "byte list \<Rightarrow> (StringWriter, unit) chan" where
  "string_basic_write buf w =
     (Inr (), w \<lparr> sw_data := sw_data w @ buf, sw_offset := sw_offset w + of_nat (length buf) \<rparr>)"

definition string_writer_skip :: "u64 \<Rightarrow> (StringWriter, unit) chan" where
  "string_writer_skip n w =
     (Inr (), w \<lparr> sw_data := sw_data w @ replicate (unat n) 0, sw_offset := sw_offset w + n \<rparr>)"

definition string_writer_rewind :: "u64 \<Rightarrow> (StringWriter, unit) chan" where
  "string_writer_rewind n w =
     (if n \<le> sw_offset w
      then (Inr (), w \<lparr> sw_offset := sw_offset w - n, sw_data := take (unat (sw_offset w - n)) (sw_data w) \<rparr>)
      else (Inl (Error 1 ''Rewound too far''), w))"

definition StringWriter_methods :: "StringWriter Writer" where
  "StringWriter_methods =
     \<lparr> basic_write = string_basic_write, w_skip = string_writer_skip, w_offset = sw_offset \<rparr>"

section \<open>BlockWriter\<close>

record BlockWriter =
  bw_block :: "byte list"
  bw_data :: nat
  bw_length :: u64
  bw_offset :: u64

definition block_writer :: "byte list \<Rightarrow> BlockWriter" where
  "block_writer v = \<lparr> bw_block = v, bw_data = 0, bw_length = of_nat (length v), bw_offset = 0 \<rparr>"

text \<open>A copy into memory at a pointer: what lies before and after is untouched.\<close>

definition mem_write :: "byte list \<Rightarrow> nat \<Rightarrow> byte list \<Rightarrow> byte list" where
  "mem_write block at buf = take at block @ buf @ drop (at + length buf) block"

definition block_basic_write :: "byte list \<Rightarrow> (BlockWriter, unit) chan" where
  "block_basic_write buf w =
     (if of_nat (length buf) \<le> bw_length w - bw_offset w
      then (Inr (), w \<lparr> bw_block := mem_write (bw_block w) (bw_data w) buf, bw_data := bw_data w + length buf,
                        bw_offset := bw_offset w + of_nat (length buf) \<rparr>)
      else (Inl (Error 1 ''Data block overflowed''), w))"

definition block_writer_skip :: "u64 \<Rightarrow> (BlockWriter, unit) chan" where
  "block_writer_skip n w =
     (if bw_offset w + n \<le> bw_length w
      then (Inr (), w \<lparr> bw_block := mem_write (bw_block w) (bw_data w) (replicate (unat n) 0),
                        bw_data := bw_data w + unat n, bw_offset := bw_offset w + n \<rparr>)
      else (Inl (Error 1 ''Data block overflowed in skip''), w))"

definition block_writer_rewind :: "u64 \<Rightarrow> (BlockWriter, unit) chan" where
  "block_writer_rewind n w =
     (if n \<le> bw_offset w
      then (Inr (), w \<lparr> bw_data := bw_data w - unat n, bw_offset := bw_offset w - n \<rparr>)
      else (Inl (Error 1 ''Rewound too far''), w))"

definition get_remaining :: "BlockWriter \<Rightarrow> u64" where
  "get_remaining w = bw_length w - bw_offset w"

definition BlockWriter_methods :: "BlockWriter Writer" where
  "BlockWriter_methods =
     \<lparr> basic_write = block_basic_write, w_skip = block_writer_skip, w_offset = bw_offset \<rparr>"

declare writer_skip_loop.simps [simp del]

section \<open>Integers survive their byte order\<close>

lemma disjoint_sum: "a AND b = 0 \<Longrightarrow> a + b = b OR (a :: 'a :: len word)"
  by (metis disjunctive_add_eq_or or.commute)

lemma bytes_16: "push_bit 8 (ucast (ucast (drop_bit 8 i) :: byte)) OR ucast (ucast i :: byte) = (i :: u16)"
  by (rule bit_word_eqI) (auto simp: bit_simps)

lemma bytes_32:
  "push_bit 24 (ucast (ucast (drop_bit 24 i) :: byte)) OR push_bit 16 (ucast (ucast (drop_bit 16 i) :: byte))
   OR push_bit 8 (ucast (ucast (drop_bit 8 i) :: byte)) OR ucast (ucast i :: byte) = (i :: u32)" (is "?l = i")
proof (rule bit_word_eqI)
  fix n assume "n < LENGTH(32)"
  then consider "n < 8" | "8 \<le> n" "n < 16" | "16 \<le> n" "n < 24" | "24 \<le> n" "n < 32" by fastforce
  then show "bit ?l n = bit i n" by cases (auto simp: bit_simps)
qed

lemma bytes_24:
  "push_bit 16 (ucast (ucast (drop_bit 16 i) :: byte))
   OR push_bit 8 (ucast (ucast (drop_bit 8 i) :: byte)) OR ucast (ucast i :: byte) = take_bit 24 (i :: u32)"
   (is "?l = _")
proof (rule bit_word_eqI)
  fix n assume "n < LENGTH(32)"
  then consider "n < 8" | "8 \<le> n" "n < 16" | "16 \<le> n" "n < 24" | "24 \<le> n" "n < 32" by fastforce
  then show "bit ?l n = bit (take_bit 24 i) n" by cases (auto simp: bit_simps)
qed

lemma halves_64:
  "push_bit 32 (ucast (ucast (drop_bit 32 i) :: u32)) OR ucast (ucast (i AND 0xFFFFFFFF) :: u32) = (i :: u64)"
proof -
  have "i AND 0xFFFFFFFF = take_bit 32 i" by (simp add: take_bit_eq_mask mask_eq_exp_minus_1)
  then show ?thesis by (simp only:) (rule bit_word_eqI, auto simp: bit_simps)
qed

lemma ntohs_htons [simp]: "ntohs (htons i) = i"
  by (simp add: ntohs_def htons_def bytes_16)

lemma ntohl_htonl [simp]: "ntohl (htonl i) = i"
  by (simp add: ntohl_def htonl_def bytes_32)

lemma sum_bytes_16: "(ucast (a :: byte) :: u16) + push_bit 8 (ucast (b :: byte)) = push_bit 8 (ucast b) OR ucast a"
  by (rule disjoint_sum, rule bit_word_eqI) (auto simp: bit_simps dest: bit_imp_le_length)

lemma sum_bytes_24:
  "(ucast (a :: byte) :: u32) + push_bit 8 (ucast (b :: byte)) + push_bit 16 (ucast (c :: byte))
   = push_bit 16 (ucast c) OR push_bit 8 (ucast b) OR ucast a"
proof -
  have "(ucast a :: u32) + push_bit 8 (ucast b) = push_bit 8 (ucast b) OR ucast a"
    by (rule disjoint_sum, rule bit_word_eqI) (auto simp: bit_simps dest: bit_imp_le_length)
  moreover have "(push_bit 8 (ucast b) OR ucast a) + push_bit 16 (ucast c :: u32)
      = push_bit 16 (ucast c) OR push_bit 8 (ucast b) OR ucast a"
    by (rule disjoint_sum, rule bit_word_eqI) (auto simp: bit_simps dest!: bit_imp_le_length)
  ultimately show ?thesis by simp
qed

lemma sum_bytes_32:
  "(ucast (a :: byte) :: u32) + push_bit 8 (ucast (b :: byte)) + push_bit 16 (ucast (c :: byte))
     + push_bit 24 (ucast (d :: byte))
   = push_bit 24 (ucast d) OR push_bit 16 (ucast c) OR push_bit 8 (ucast b) OR ucast a"
  unfolding sum_bytes_24
  by (rule disjoint_sum, rule bit_word_eqI) (auto simp: bit_simps dest!: bit_imp_le_length)

lemma sum_halves_64: "(ucast (m :: u32) :: u64) + push_bit 32 (ucast (n :: u32)) = push_bit 32 (ucast n) OR ucast m"
  by (rule disjoint_sum, rule bit_word_eqI) (auto simp: bit_simps dest: bit_imp_le_length)

lemma sum_swapped:
  "push_bit 32 (ucast (n :: u32)) + (ucast (m :: u32) :: u64) = push_bit 32 (ucast n) OR ucast m"
  "push_bit 16 (ucast (c :: byte)) + push_bit 8 (ucast (b :: byte)) + (ucast (a :: byte) :: u32)
   = push_bit 16 (ucast c) OR push_bit 8 (ucast b) OR ucast a"
  by (simp_all only: flip: sum_halves_64 sum_bytes_24) (simp_all only: add_ac)

lemma le_32_of_reversed [simp]: "le_32_of [a, b, c, d] = ntohl [d, c, b, a]"
  by (simp add: le_32_of_def ntohl_def sum_bytes_32)

section \<open>Reading back what was written\<close>

definition written :: "(StringWriter, unit) chan \<Rightarrow> byte list" where
  "written m = sw_data (snd (m (string_writer [])))"

lemma written_basic: "written (string_basic_write buf) = buf"
  by (simp add: written_def string_basic_write_def string_writer_def)

lemma written_bind: "written (chan_bind (string_basic_write buf) (\<lambda>_. string_basic_write buf')) = buf @ buf'"
  by (simp add: written_def string_basic_write_def string_writer_def chan_bind_def)

lemmas StringWriter_simps = StringWriter_methods_def written_basic written_bind
  write_nbo_16_def write_nbo_24_def write_nbo_32_def write_nbo_64_def
  write_le_16_def write_le_24_def write_le_32_def write_le_64_def

lemmas string_read_yields = str.read_yields [OF StringReader_try_read]
lemmas string_read_nbo_32_yields = str.read_nbo_32_yields [OF StringReader_try_read]
lemmas string_read_le_32_yields = str.read_le_32_yields [OF StringReader_try_read]

lemma read_nbo_16_written:
  "yields string_ok string_rest (read_nbo_16 StringReader_methods) (htons i @ rest) i rest"
  unfolding read_nbo_16_def htons_def
  by (rule yields_bind, rule string_read_yields) (simp_all add: ntohs_htons [unfolded htons_def])

lemma read_nbo_32_written:
  "yields string_ok string_rest (read_nbo_32 StringReader_methods) (htonl i @ rest) i rest"
  using string_read_nbo_32_yields [of "ucast (drop_bit 24 i)" "ucast (drop_bit 16 i)" "ucast (drop_bit 8 i)"
      "ucast i" rest] ntohl_htonl [of i] by (simp add: htonl_def)

lemma read_le_32_written:
  "yields string_ok string_rest (read_le_32 StringReader_methods) (rev (htonl i) @ rest) i rest"
  using string_read_le_32_yields [of "ucast i" "ucast (drop_bit 8 i)" "ucast (drop_bit 16 i)"
      "ucast (drop_bit 24 i)" rest] ntohl_htonl [of i] by (simp add: htonl_def)

lemma read_nbo_64_written:
  "yields string_ok string_rest (read_nbo_64 StringReader_methods)
     (htonl (ucast (drop_bit 32 i)) @ htonl (ucast (i AND 0xFFFFFFFF)) @ rest) i rest"
  unfolding read_nbo_64_def
  by (rule yields_bind, rule read_nbo_32_written, rule yields_bind, rule read_nbo_32_written)
    (simp add: sum_swapped halves_64)

lemma read_le_64_written:
  "yields string_ok string_rest (read_le_64 StringReader_methods)
     (rev (htonl (ucast (i AND 0xFFFFFFFF))) @ rev (htonl (ucast (drop_bit 32 i))) @ rest) i rest"
  unfolding read_le_64_def
  by (rule yields_bind, rule read_le_32_written, rule yields_bind, rule read_le_32_written)
    (simp add: sum_halves_64 halves_64)

text \<open>
  C18: Integer formats round trip. In both byte orders and at 16, 32 and 64 bits, reading from a
  string that starts with what the writer produced returns the integer written and leaves the rest;
  at 24 bits the low 24 bits come back.
\<close>

theorem integer_formats_roundtrip:
  "yields string_ok string_rest (read_nbo_16 StringReader_methods)
     (written (write_nbo_16 StringWriter_methods h) @ rest) h rest
   \<and> yields string_ok string_rest (read_nbo_24 StringReader_methods)
     (written (write_nbo_24 StringWriter_methods i) @ rest) (take_bit 24 i) rest
   \<and> yields string_ok string_rest (read_nbo_32 StringReader_methods)
     (written (write_nbo_32 StringWriter_methods i) @ rest) i rest
   \<and> yields string_ok string_rest (read_nbo_64 StringReader_methods)
     (written (write_nbo_64 StringWriter_methods l) @ rest) l rest
   \<and> yields string_ok string_rest (read_le_16 StringReader_methods)
     (written (write_le_16 StringWriter_methods h) @ rest) h rest
   \<and> yields string_ok string_rest (read_le_24 StringReader_methods)
     (written (write_le_24 StringWriter_methods i) @ rest) (take_bit 24 i) rest
   \<and> yields string_ok string_rest (read_le_32 StringReader_methods)
     (written (write_le_32 StringWriter_methods i) @ rest) i rest
   \<and> yields string_ok string_rest (read_le_64 StringReader_methods)
     (written (write_le_64 StringWriter_methods l) @ rest) l rest"
proof (intro conjI)
  show "yields string_ok string_rest (read_nbo_24 StringReader_methods)
     (written (write_nbo_24 StringWriter_methods i) @ rest) (take_bit 24 i) rest"
    unfolding read_nbo_24_def
    by (rule yields_bind, rule string_read_yields)
      (simp_all add: StringWriter_simps bytes_24 sum_swapped)
  show "yields string_ok string_rest (read_le_16 StringReader_methods)
     (written (write_le_16 StringWriter_methods h) @ rest) h rest"
    unfolding read_le_16_def
    by (rule yields_bind, rule string_read_yields) (simp_all add: StringWriter_simps sum_bytes_16 bytes_16)
  show "yields string_ok string_rest (read_le_24 StringReader_methods)
     (written (write_le_24 StringWriter_methods i) @ rest) (take_bit 24 i) rest"
    unfolding read_le_24_def
    by (rule yields_bind, rule string_read_yields) (simp_all add: StringWriter_simps sum_bytes_24 bytes_24)
qed (simp_all add: StringWriter_simps read_nbo_16_written read_nbo_32_written read_nbo_64_written
       read_le_32_written [unfolded htonl_def, simplified] read_le_64_written [unfolded htonl_def, simplified])

text \<open>\<open>emits m bs\<close>: on any string writer the operation succeeds and appends exactly \<open>bs\<close>.\<close>

definition emits :: "(StringWriter, unit) chan \<Rightarrow> byte list \<Rightarrow> bool" where
  "emits m bs \<longleftrightarrow>
     (\<forall>w. m w = (Inr (), w \<lparr> sw_data := sw_data w @ bs, sw_offset := sw_offset w + of_nat (length bs) \<rparr>))"

lemma emits_basic: "emits (string_basic_write bs) bs"
  by (simp add: emits_def string_basic_write_def)

lemma emits_return: "emits (chan_return ()) []"
  by (simp add: emits_def)

lemma emits_bind: "emits m bs \<Longrightarrow> (\<And>u. emits (f u) cs) \<Longrightarrow> emits (chan_bind m f) (bs @ cs)"
  by (simp add: emits_def chan_bind_def add.assoc)

lemma emits_data: "emits m bs \<Longrightarrow> sw_data (snd (m (string_writer []))) = bs"
  by (simp add: emits_def string_writer_def)

lemma emits_string_ops:
  "emits (write_byte StringWriter_methods b) [b]"
  "emits (write_nbo_16 StringWriter_methods h) (htons h)"
  "emits (write_nbo_32 StringWriter_methods i) (htonl i)"
  "emits (write_nbo_64 StringWriter_methods l) (htonl (ucast (drop_bit 32 l)) @ htonl (ucast (l AND 0xFFFFFFFF)))"
  "emits (write_string StringWriter_methods s) (map byte_of_char s)"
  by (simp_all add: StringWriter_methods_def write_byte_def write_nbo_16_def write_nbo_32_def write_nbo_64_def
      write_string_def emits_basic emits_bind)

section \<open>Writing into a block\<close>

definition block_writer_ok :: "BlockWriter \<Rightarrow> bool" where
  "block_writer_ok w \<longleftrightarrow> bw_data w = unat (bw_offset w) \<and> bw_length w = of_nat (length (bw_block w))
     \<and> unat (bw_offset w) \<le> length (bw_block w) \<and> length (bw_block w) < 2 ^ 64"

definition block_written :: "BlockWriter \<Rightarrow> StringWriter" where
  "block_written w = \<lparr> sw_data = take (bw_data w) (bw_block w), sw_offset = bw_offset w \<rparr>"

lemma mem_write_facts:
  assumes "at + length buf \<le> length block"
  shows "length (mem_write block at buf) = length block"
    "take (at + length buf) (mem_write block at buf) = take at block @ buf"
    "drop (at + length buf) (mem_write block at buf) = drop (at + length buf) block"
  using assms by (simp_all add: mem_write_def)

lemma block_fits_iff:
  assumes "block_writer_ok w" "length buf < 2 ^ 64"
  shows "of_nat (length buf) \<le> bw_length w - bw_offset w \<longleftrightarrow> bw_data w + length buf \<le> length (bw_block w)"
  using assms by (auto simp: block_writer_ok_def word_le_nat_alt offset_arith unat_of_nat)

text \<open>
  C21: A block writer refines a string writer within its block. A write that fits appends the same
  bytes a string writer would, leaves every byte beyond them alone and keeps the pointer in step
  with the offset; a write that does not fit throws and changes nothing.
\<close>

theorem block_write_refines:
  assumes "block_writer_ok w" "length buf < 2 ^ 64"
  shows "if bw_data w + length buf \<le> length (bw_block w)
    then (\<exists>w'. block_basic_write buf w = (Inr (), w') \<and> block_writer_ok w'
           \<and> string_basic_write buf (block_written w) = (Inr (), block_written w')
           \<and> drop (bw_data w') (bw_block w') = drop (bw_data w') (bw_block w)
           \<and> length (bw_block w') = length (bw_block w))
    else block_basic_write buf w = (Inl (Error 1 ''Data block overflowed''), w)"
proof (cases "bw_data w + length buf \<le> length (bw_block w)")
  case True
  define w' where "w' = w \<lparr> bw_block := mem_write (bw_block w) (bw_data w) buf, bw_data := bw_data w + length buf,
                        bw_offset := bw_offset w + of_nat (length buf) \<rparr>"
  note mem = mem_write_facts [OF True]
  have "unat (bw_offset w + of_nat (length buf)) = unat (bw_offset w) + length buf"
    using True assms(1) by (intro offset_advance [of _ _ "length (bw_block w)"]) (auto simp: block_writer_ok_def)
  then have "block_writer_ok w'"
    using True assms(1) mem by (auto simp: block_writer_ok_def w'_def)
  moreover have "block_basic_write buf w = (Inr (), w')"
    using True block_fits_iff [OF assms] by (simp add: block_basic_write_def w'_def)
  moreover have "string_basic_write buf (block_written w) = (Inr (), block_written w')"
    by (simp add: string_basic_write_def block_written_def w'_def mem)
  ultimately show ?thesis using True mem by (auto simp: w'_def)
next
  case False
  with block_fits_iff [OF assms] show ?thesis by (simp add: block_basic_write_def)
qed

theorem block_write_refines_witness:
  "\<exists>w'. block_basic_write [7, 8] (block_writer [0, 0, 0]) = (Inr (), w')
     \<and> block_written w' = \<lparr> sw_data = [7, 8], sw_offset = 2 \<rparr>"
  using block_write_refines [of "block_writer [0, 0, 0]" "[7, 8]"]
  by (auto simp: block_writer_def block_writer_ok_def block_written_def string_basic_write_def)

section \<open>Padding and alignment\<close>

lemma skip_loop_string:
  "writer_skip_loop string_basic_write n w =
   (Inr (), w \<lparr> sw_data := sw_data w @ replicate n 0, sw_offset := sw_offset w + of_nat n \<rparr>)"
proof (induction n arbitrary: w rule: less_induct)
  case (less n)
  show ?case
  proof (cases "n = 0")
    case False
    have "replicate n (0 :: byte) = replicate (min n 256) 0 @ replicate (n - min n 256) 0"
      by (simp flip: replicate_add)
    moreover have "(of_nat n :: u64) = of_nat (min n 256) + of_nat (n - min n 256)"
      by (simp flip: of_nat_add)
    ultimately show ?thesis
      using False less [of "n - min n 256"]
      by (simp add: writer_skip_loop.simps [of _ n] chan_bind_def string_basic_write_def add.assoc)
  qed (simp add: writer_skip_loop.simps [of _ 0])
qed

lemma int_size_t:
  assumes "unat (k :: u64) < 2 ^ 31"
  shows "scast (ucast k :: u32) = k"
proof -
  have "take_bit 31 k = k"
    using assms by (simp add: word_unat_eq_iff unsigned_take_bit_eq take_bit_nat_eq_self)
  then have small: "\<not> bit k n" if "31 \<le> n" for n using that by (metis bit_take_bit_iff not_less)
  show ?thesis by (intro bit_word_eqI) (auto simp: bit_simps min_def small)
qed

lemma align_up:
  fixes off n :: u64
  assumes "n \<noteq> 0" "unat off + unat n \<le> 2 ^ 64"
  shows "unat (n * ((off + n - 1) div n) - off) < unat n"
    "unat n dvd unat off + unat (n * ((off + n - 1) div n) - off)"
proof -
  define o' m where "o' = unat off" and "m = unat n"
  have m: "0 < m" "o' + m \<le> 2 ^ 64" using assms by (simp_all add: m_def o'_def unat_gt_0)
  have sum: "unat (off + n - 1) = o' + m - 1"
  proof -
    have "off + n - 1 = of_nat (o' + m - 1)" using m by (simp add: o'_def m_def of_nat_diff)
    then have "unat (off + n - 1) = unat (of_nat (o' + m - 1) :: u64)" by (simp only:)
    also have "\<dots> = o' + m - 1" using m by (subst unat_of_nat) simp
    finally show ?thesis .
  qed
  define q where "q = (o' + m - 1) div m"
  have q: "o' \<le> m * q" "m * q < o' + m"
  proof -
    have "m * q + (o' + m - 1) mod m = o' + m - 1" by (simp add: q_def)
    moreover have "(o' + m - 1) mod m < m" using m by simp
    ultimately show "o' \<le> m * q" "m * q < o' + m" using m by linarith+
  qed
  have "n * ((off + n - 1) div n) = of_nat (m * q)"
    using sum by (simp add: q_def m_def word_arith_nat_div)
  then have "n * ((off + n - 1) div n) - off = of_nat (m * q - o')"
    using q by (simp add: of_nat_diff o'_def)
  then have "unat (n * ((off + n - 1) div n) - off) = unat (of_nat (m * q - o') :: u64)" by (simp only:)
  also have "\<dots> = m * q - o'" using q m by (subst unat_of_nat) simp
  finally have "unat (n * ((off + n - 1) div n) - off) = m * q - o'" .
  with q show "unat (n * ((off + n - 1) div n) - off) < unat n"
    "unat n dvd unat off + unat (n * ((off + n - 1) div n) - off)"
    by (simp_all add: m_def [symmetric] o'_def [symmetric])
qed

text \<open>
  Alignment. For an alignment below \<open>2\<^sup>3\<^sup>1\<close> and offsets that do not overflow, \<^verbatim>\<open>align\<close> on a string
  writer appends fewer zero bytes than the alignment and leaves the offset a multiple of it. The
  loop of \<^verbatim>\<open>Writer::skip\<close>, which writes in 256-byte pieces, has the same effect as the one-step
  skip of the string writer.
\<close>

theorem writer_align_pads:
  assumes "n \<noteq> 0" "unat n < 2 ^ 31" "unat (sw_offset w) + unat n \<le> 2 ^ 64"
  shows "(\<exists>k. k < unat n \<and> unat n dvd unat (sw_offset w) + k
      \<and> writer_align StringWriter_methods n w
        = (Inr (), \<lparr> sw_data = sw_data w @ replicate k 0, sw_offset = sw_offset w + of_nat k \<rparr>))
    \<and> writer_skip string_basic_write j w = string_writer_skip j w"
proof (intro conjI)
  let ?k = "n * ((sw_offset w + n - 1) div n) - sw_offset w"
  note k = align_up [OF assms(1,3)]
  then have small: "unat ?k < 2 ^ 31" using assms(2) by simp
  have "writer_align StringWriter_methods n w = string_writer_skip ?k w"
    using assms(1) by (simp add: writer_align_def StringWriter_methods_def int_size_t [OF small])
  then show "\<exists>k. k < unat n \<and> unat n dvd unat (sw_offset w) + k
      \<and> writer_align StringWriter_methods n w
        = (Inr (), \<lparr> sw_data = sw_data w @ replicate k 0, sw_offset = sw_offset w + of_nat k \<rparr>)"
    using k by (intro exI [of _ "unat ?k"]) (simp add: string_writer_skip_def)
  show "writer_skip string_basic_write j w = string_writer_skip j w"
    by (simp add: writer_skip_def skip_loop_string string_writer_skip_def)
qed

theorem writer_align_pads_witness:
  "\<exists>k. k < 4 \<and> 4 dvd 3 + k \<and> writer_align StringWriter_methods 4 \<lparr> sw_data = [1, 2, 3], sw_offset = 3 \<rparr>
     = (Inr (), \<lparr> sw_data = [1, 2, 3] @ replicate k 0, sw_offset = 3 + of_nat k \<rparr>)"
  using writer_align_pads [of 4 "\<lparr> sw_data = [1, 2, 3], sw_offset = 3 \<rparr>"] by simp

section \<open>Where the checks fall short\<close>

text \<open>
  The bound of \<^verbatim>\<open>BlockWriter::skip\<close> wraps around: with a huge count the sum passes the check and the
  block would be cleared far beyond its end.
\<close>

lemma block_writer_skip_wraps:
  "fst (block_writer_skip 0xFFFFFFFFFFFFFFFE \<lparr> bw_block = [1, 2, 3, 4], bw_data = 3, bw_length = 4, bw_offset = 3 \<rparr>)
   = Inr ()"
proof -
  have "(3 :: u64) + 0xFFFFFFFFFFFFFFFE \<le> 4" by simp
  then show ?thesis by (simp only: block_writer_skip_def BlockWriter.select_convs if_True fst_conv)
qed

text \<open>
  A string writer on a string that is not empty counts its offset from zero: rewinding what was
  written truncates the original contents too.
\<close>

lemma string_writer_rewind_truncates:
  "string_writer_rewind 1 (snd (string_basic_write [9] (string_writer [1, 2, 3]))) = (Inr (), string_writer [])"
  by (simp add: string_writer_rewind_def string_basic_write_def string_writer_def)

end
