(* ===== verification/Bits.thy ===== *)
theory Bits
  imports Writers
begin

unbundle bit_operations_syntax

text \<open>
  The bit streams of libs/chan/bits.cc: \<^verbatim>\<open>BitReader\<close>, \<^verbatim>\<open>BitWriter\<close> and the Exp-Golomb reader, over any
  byte reader or writer. Bits go most significant first. The specification is the list of bits the
  bytes stand for.
\<close>

section \<open>BitReader\<close>

record 's BitReader =
  br_reader :: 's
  br_bits_valid :: nat
  br_current_byte :: byte

definition bit_reader :: "'s \<Rightarrow> 's BitReader" where
  "bit_reader reader = \<lparr> br_reader = reader, br_bits_valid = 0, br_current_byte = 0 \<rparr>"

definition bit_refill :: "'s Reader \<Rightarrow> ('s BitReader, unit) chan" where
  "bit_refill r st =
     (if br_bits_valid st = 0
      then case read_byte r (br_reader st) of
             (Inl e, s') \<Rightarrow> (Inl e, st \<lparr> br_reader := s' \<rparr>)
           | (Inr b, s') \<Rightarrow> (Inr (), st \<lparr> br_reader := s', br_current_byte := b, br_bits_valid := 8 \<rparr>)
      else (Inr (), st))"

definition take_one_bit :: "('s BitReader, u32) chan" where
  "take_one_bit st =
     (Inr (ucast (drop_bit (br_bits_valid st - 1) (br_current_byte st) AND 1)),
      st \<lparr> br_bits_valid := br_bits_valid st - 1 \<rparr>)"

definition read_bit :: "'s Reader \<Rightarrow> ('s BitReader, u32) chan" where
  "read_bit r = chan_bind (bit_refill r) (\<lambda>_. take_one_bit)"

definition read_bool :: "'s Reader \<Rightarrow> ('s BitReader, bool) chan" where
  "read_bool r = chan_bind (read_bit r) (\<lambda>b. chan_return (b \<noteq> 0))"

primrec read_bits_loop :: "'s Reader \<Rightarrow> nat \<Rightarrow> u32 \<Rightarrow> ('s BitReader, u32) chan" where
  "read_bits_loop r 0 bits = chan_return bits"
| "read_bits_loop r (Suc n) bits =
     chan_bind (bit_refill r) (\<lambda>_. chan_bind take_one_bit (\<lambda>b. read_bits_loop r n (push_bit 1 bits OR b)))"

definition read_bits :: "'s Reader \<Rightarrow> nat \<Rightarrow> ('s BitReader, u32) chan" where
  "read_bits r n = read_bits_loop r n 0"

section \<open>BitWriter\<close>

record 's BitWriter =
  bw_writer :: 's
  bw_bits_valid :: nat
  bw_current_byte :: u32

definition bit_writer :: "'s \<Rightarrow> 's BitWriter" where
  "bit_writer writer = \<lparr> bw_writer = writer, bw_bits_valid = 0, bw_current_byte = 0 \<rparr>"

definition put_byte :: "'s Writer \<Rightarrow> u32 \<Rightarrow> ('s BitWriter, unit) chan" where
  "put_byte w current_byte st =
     (case write_byte w (ucast current_byte) (bw_writer st) of
        (Inl e, s') \<Rightarrow> (Inl e, st \<lparr> bw_writer := s' \<rparr>)
      | (Inr _, s') \<Rightarrow> (Inr (), st \<lparr> bw_writer := s', bw_bits_valid := 0, bw_current_byte := 0 \<rparr>))"

definition write_bit :: "'s Writer \<Rightarrow> u32 \<Rightarrow> ('s BitWriter, unit) chan" where
  "write_bit w b st =
     (let current_byte = push_bit 1 (bw_current_byte st) OR (b AND 1);
          st' = st \<lparr> bw_current_byte := current_byte, bw_bits_valid := bw_bits_valid st + 1 \<rparr>
      in if bw_bits_valid st + 1 = 8 then put_byte w current_byte st' else (Inr (), st'))"

definition write_bool :: "'s Writer \<Rightarrow> bool \<Rightarrow> ('s BitWriter, unit) chan" where
  "write_bool w b = write_bit w (if b then 1 else 0)"

primrec write_bits :: "'s Writer \<Rightarrow> nat \<Rightarrow> u32 \<Rightarrow> ('s BitWriter, unit) chan" where
  "write_bits w 0 bits = chan_return ()"
| "write_bits w (Suc n) bits =
     chan_bind (write_bit w (drop_bit n bits)) (\<lambda>_. write_bits w n bits)"

definition bit_flush :: "'s Writer \<Rightarrow> ('s BitWriter, unit) chan" where
  "bit_flush w st =
     (if bw_bits_valid st \<noteq> 0
      then let current_byte = push_bit (8 - bw_bits_valid st) (bw_current_byte st)
           in put_byte w current_byte (st \<lparr> bw_current_byte := current_byte \<rparr>)
      else (Inr (), st))"

section \<open>Exp-Golomb\<close>

text \<open>
  The loop that counts leading zeroes ends at a one or at the reader's error; \<open>None\<close> is a run that
  never ends. The arithmetic is that of 32-bit words.
\<close>

partial_function (option) count_zeroes ::
  "'s Reader \<Rightarrow> nat \<Rightarrow> 's BitReader \<Rightarrow> ((chan_error + nat) \<times> 's BitReader) option" where
  "count_zeroes r len st =
     (case read_bit r st of
        (Inl e, st') \<Rightarrow> Some (Inl e, st')
      | (Inr b, st') \<Rightarrow> if b = 0 then count_zeroes r (len + 1) st' else Some (Inr len, st'))"

primrec golomb_suffix :: "'s Reader \<Rightarrow> nat \<Rightarrow> u32 \<Rightarrow> ('s BitReader, u32) chan" where
  "golomb_suffix r 0 val = chan_return val"
| "golomb_suffix r (Suc i) val =
     chan_bind (read_bit r) (\<lambda>b. golomb_suffix r i (val + push_bit i b))"

definition read_exp_golomb :: "'s Reader \<Rightarrow> 's BitReader \<Rightarrow> ((chan_error + u32) \<times> 's BitReader) option" where
  "read_exp_golomb r st =
     (case count_zeroes r 0 st of
        None \<Rightarrow> None
      | Some (Inl e, st') \<Rightarrow> Some (Inl e, st')
      | Some (Inr len, st') \<Rightarrow>
          Some (chan_bind (golomb_suffix r len 0) (\<lambda>val. chan_return (val + (push_bit len 1 - 1))) st'))"

section \<open>Bits of words\<close>

definition word_bits :: "nat \<Rightarrow> 'a :: len word \<Rightarrow> bool list" where
  "word_bits n w = map (bit w) (rev [0..<n])"

definition bits_of :: "byte list \<Rightarrow> bool list" where
  "bits_of bs = concat (map (word_bits 8) bs)"

lemma word_bits_0 [simp]: "word_bits 0 w = []"
  by (simp add: word_bits_def)

lemma word_bits_Suc: "word_bits (Suc n) w = bit w n # word_bits n w"
  by (simp add: word_bits_def)

lemma length_word_bits [simp]: "length (word_bits n w) = n"
  by (simp add: word_bits_def)

lemma bits_of_simps [simp]:
  "bits_of [] = []" "bits_of (b # bs) = word_bits 8 b @ bits_of bs" "bits_of (xs @ ys) = bits_of xs @ bits_of ys"
  by (simp_all add: bits_of_def)

lemma word_bits_ucast: "word_bits 8 (ucast (c :: u32) :: byte) = word_bits 8 c"
  by (auto simp: word_bits_def bit_simps)

lemma word_bits_nth: "i < m \<Longrightarrow> word_bits m w ! i = bit w (m - Suc i)"
  by (simp add: word_bits_def rev_nth)

lemma word_bits_shift:
  fixes c :: u32
  assumes "n + k \<le> 32"
  shows "word_bits (n + k) (push_bit k c) = word_bits n c @ replicate k False"
proof (rule nth_equalityI)
  fix i assume "i < length (word_bits (n + k) (push_bit k c))"
  then have i: "i < n + k" by simp
  show "word_bits (n + k) (push_bit k c) ! i = (word_bits n c @ replicate k False) ! i"
  proof (cases "i < n")
    case True
    then have "n + k - Suc i - k = n - Suc i" "n + k - Suc i < 32" "k \<le> n + k - Suc i" using assms by linarith+
    with True show ?thesis by (simp add: word_bits_nth nth_append bit_push_bit_iff)
  next
    case False
    with i show ?thesis by (simp add: word_bits_nth nth_append bit_push_bit_iff) linarith
  qed
qed simp

lemma word_bits_push:
  fixes c b :: u32
  assumes "n < 32"
  shows "word_bits (Suc n) (push_bit 1 c OR (b AND 1)) = word_bits n c @ [bit b 0]"
proof -
  have "word_bits (n + 1) (push_bit 1 c) = word_bits n c @ [False]"
    using word_bits_shift [of n 1 c] assms by simp
  moreover have "word_bits (Suc n) (push_bit 1 c OR (b AND 1))
      = butlast (word_bits (Suc n) (push_bit 1 c)) @ [bit b 0]"
    by (rule nth_equalityI)
      (auto simp: word_bits_nth nth_append nth_butlast bit_or_iff bit_and_iff bit_push_bit_iff bit_1_iff
        simp del: push_bit_Suc push_bit_of_1 One_nat_def)
  ultimately show ?thesis by simp
qed

lemma foldl_word_bits:
  "foldl (\<lambda>acc b. push_bit 1 acc OR of_bool b) acc (word_bits n w) = push_bit n acc OR take_bit n (w :: u32)"
proof (induction n arbitrary: acc)
  case (Suc n)
  have "push_bit n (push_bit 1 acc OR of_bool (bit w n)) OR take_bit n w = push_bit (Suc n) acc OR take_bit (Suc n) w"
    by (rule bit_word_eqI) (auto simp: bit_simps less_Suc_eq le_less)
  with Suc [of "push_bit 1 acc OR of_bool (bit w n)"] show ?case by (simp add: word_bits_Suc)
qed simp

lemma take_bit_top: "take_bit (Suc n) w = push_bit n (of_bool (bit w n)) + take_bit n (w :: u32)"
proof -
  have "take_bit n w AND push_bit n (of_bool (bit w n)) = 0"
    by (rule bit_word_eqI) (auto simp: bit_simps)
  then have "take_bit n w + push_bit n (of_bool (bit w n)) = push_bit n (of_bool (bit w n)) OR take_bit n w"
    by (rule disjoint_sum)
  moreover have "take_bit (Suc n) w = push_bit n (of_bool (bit w n)) OR take_bit n w"
    by (rule bit_word_eqI) (auto simp: bit_simps less_Suc_eq)
  ultimately show ?thesis by (simp add: add.commute)
qed

section \<open>Reading bits\<close>

text \<open>What a bit reader over a contract reader has still to deliver.\<close>

context channel_reader
begin

definition bits_ok :: "'s BitReader \<Rightarrow> bool" where
  "bits_ok st \<longleftrightarrow> ok (br_reader st) \<and> br_bits_valid st \<le> 8"

definition bits_rest :: "'s BitReader \<Rightarrow> bool list" where
  "bits_rest st = word_bits (br_bits_valid st) (br_current_byte st) @ bits_of (rest (br_reader st))"

lemma refill_step:
  assumes "try_read r = reader_try_read rd" "bits_ok st" "bits_rest st = b # bs"
  shows "\<exists>st'. bit_refill r st = (Inr (), st') \<and> bits_ok st' \<and> br_bits_valid st' \<noteq> 0 \<and> bits_rest st' = b # bs"
proof (cases "br_bits_valid st = 0")
  case True
  with assms(3) obtain c cs where c: "rest (br_reader st) = c # cs"
    by (cases "rest (br_reader st)") (auto simp: bits_rest_def)
  then obtain s' where "read_byte r (br_reader st) = (Inr c, s')" "ok s'" "rest s' = cs"
    using read_byte_yields [OF assms(1), of c cs] assms(2) unfolding yields_def bits_ok_def by blast
  with True assms c show ?thesis by (simp add: bit_refill_def bits_ok_def bits_rest_def)
qed (use assms in \<open>simp add: bit_refill_def\<close>)

lemma take_one_step:
  assumes "bits_ok st" "bits_rest st = b # bs" "br_bits_valid st \<noteq> 0"
  shows "\<exists>st'. take_one_bit st = (Inr (of_bool b), st') \<and> bits_ok st' \<and> bits_rest st' = bs"
proof -
  obtain k where k: "br_bits_valid st = Suc k" using assms(3) by (cases "br_bits_valid st") auto
  have "ucast (drop_bit k w AND 1) = (of_bool (bit w k) :: u32)" for w :: byte
    by (rule bit_word_eqI) (auto simp: bit_simps)
  with k assms show ?thesis
    by (simp add: take_one_bit_def bits_ok_def bits_rest_def word_bits_Suc)
qed

lemma read_bit_yields:
  assumes "try_read r = reader_try_read rd"
  shows "yields bits_ok bits_rest (read_bit r) (b # bs) (of_bool b) bs"
  unfolding yields_def read_bit_def
proof (intro allI impI)
  fix st assume "bits_ok st \<and> bits_rest st = b # bs"
  then obtain st1 where st1: "bit_refill r st = (Inr (), st1)" "bits_ok st1" "br_bits_valid st1 \<noteq> 0" "bits_rest st1 = b # bs"
    using refill_step [OF assms] by blast
  with take_one_step [of st1 b bs]
  show "\<exists>st'. chan_bind (bit_refill r) (\<lambda>_. take_one_bit) st = (Inr (of_bool b), st') \<and> bits_ok st' \<and> bits_rest st' = bs"
    by simp
qed

lemma read_bits_loop_Suc: "read_bits_loop r (Suc n) acc = chan_bind (read_bit r) (\<lambda>b. read_bits_loop r n (push_bit 1 acc OR b))"
  by (auto simp: read_bit_def chan_bind_def fun_eq_iff split: prod.split sum.split)

lemma read_bits_yields:
  assumes "try_read r = reader_try_read rd"
  shows "yields bits_ok bits_rest (read_bits_loop r (length bs) acc) (bs @ tail)
    (foldl (\<lambda>acc b. push_bit 1 acc OR of_bool b) acc bs) tail"
proof (induction bs arbitrary: acc)
  case (Cons b bs)
  show ?case
    unfolding length_Cons read_bits_loop_Suc
    by (rule yields_bind, simp, rule read_bit_yields [OF assms]) (use Cons.IH in simp)
qed simp

lemma read_word_yields:
  "try_read r = reader_try_read rd \<Longrightarrow>
   yields bits_ok bits_rest (read_bits r n) (word_bits n w @ tail) (take_bit n w) tail"
  using read_bits_yields [of r "word_bits n w" 0 tail]
  unfolding read_bits_def foldl_word_bits length_word_bits by simp

lemma golomb_suffix_yields:
  assumes "try_read r = reader_try_read rd"
  shows "yields bits_ok bits_rest (golomb_suffix r n val) (word_bits n w @ tail) (val + take_bit n w) tail"
proof (induction n arbitrary: val)
  case (Suc n)
  note take_bit_top [of n w]
  with Suc [of "val + push_bit n (of_bool (bit w n))"] show ?case
    unfolding golomb_suffix.simps word_bits_Suc append_Cons
    by (intro yields_bind [OF read_bit_yields [OF assms]]) (simp add: add.assoc)
qed simp

lemma count_zeroes_result:
  assumes "try_read r = reader_try_read rd"
  shows "bits_ok st \<Longrightarrow> bits_rest st = replicate len False @ True # bs \<Longrightarrow>
    \<exists>st'. count_zeroes r k st = Some (Inr (k + len), st') \<and> bits_ok st' \<and> bits_rest st' = bs"
proof (induction len arbitrary: st k)
  case 0
  then obtain st' where "read_bit r st = (Inr 1, st')" "bits_ok st'" "bits_rest st' = bs"
    using read_bit_yields [OF assms, of True bs] unfolding yields_def by auto
  then show ?case by (simp add: count_zeroes.simps)
next
  case (Suc len)
  then obtain st1 where st1: "read_bit r st = (Inr 0, st1)" "bits_ok st1" "bits_rest st1 = replicate len False @ True # bs"
    using read_bit_yields [OF assms, of False "replicate len False @ True # bs"] unfolding yields_def by auto
  from Suc.IH [OF st1(2,3), of "k + 1"] st1(1) show ?case by (simp add: count_zeroes.simps [of r k st])
qed

lemma read_exp_golomb_result:
  assumes "try_read r = reader_try_read rd" "bits_ok st"
    and "bits_rest st = replicate len False @ True # word_bits len w @ tail"
  shows "\<exists>st'. read_exp_golomb r st = Some (Inr (take_bit len w + (push_bit len 1 - 1)), st')
    \<and> bits_ok st' \<and> bits_rest st' = tail"
proof -
  obtain st1 where st1: "count_zeroes r 0 st = Some (Inr len, st1)" "bits_ok st1" "bits_rest st1 = word_bits len w @ tail"
    using count_zeroes_result [OF assms, of 0] by auto
  then obtain st2 where "golomb_suffix r len 0 st1 = (Inr (take_bit len w), st2)" "bits_ok st2" "bits_rest st2 = tail"
    using golomb_suffix_yields [OF assms(1), of len 0 w tail] unfolding yields_def by auto
  with st1 show ?thesis by (simp add: read_exp_golomb_def)
qed

end

section \<open>Writing bits\<close>

definition bits_written :: "StringWriter BitWriter \<Rightarrow> bool list" where
  "bits_written st = bits_of (sw_data (bw_writer st)) @ word_bits (bw_bits_valid st) (bw_current_byte st)"

lemma put_byte_string:
  "put_byte StringWriter_methods c st =
   (Inr (), st \<lparr> bw_writer := snd (string_basic_write [ucast c] (bw_writer st)), bw_bits_valid := 0, bw_current_byte := 0 \<rparr>)"
  by (simp add: put_byte_def write_byte_def StringWriter_methods_def string_basic_write_def)

lemma write_bit_appends:
  assumes "bw_bits_valid st < 8"
  shows "\<exists>st'. write_bit StringWriter_methods b st = (Inr (), st') \<and> bw_bits_valid st' < 8
     \<and> bits_written st' = bits_written st @ [bit b 0]"
proof -
  have push: "word_bits (Suc (bw_bits_valid st)) (push_bit 1 (bw_current_byte st) OR (b AND 1))
      = word_bits (bw_bits_valid st) (bw_current_byte st) @ [bit b 0]"
    using assms by (intro word_bits_push) simp
  show ?thesis
  proof (cases "bw_bits_valid st + 1 = 8")
    case True
    then have "Suc (bw_bits_valid st) = 8" by simp
    with push True show ?thesis
      by (simp add: write_bit_def put_byte_string bits_written_def string_basic_write_def word_bits_ucast
          del: push_bit_Suc)
  next
    case False
    with push assms show ?thesis by (simp add: write_bit_def bits_written_def del: push_bit_Suc)
  qed
qed

lemma write_bits_appends:
  "bw_bits_valid st < 8 \<Longrightarrow>
   \<exists>st'. write_bits StringWriter_methods n v st = (Inr (), st') \<and> bw_bits_valid st' < 8
     \<and> bits_written st' = bits_written st @ word_bits n v"
proof (induction n arbitrary: st)
  case (Suc n)
  obtain st1 where st1: "write_bit StringWriter_methods (drop_bit n v) st = (Inr (), st1)" "bw_bits_valid st1 < 8"
    "bits_written st1 = bits_written st @ [bit v n]"
    using write_bit_appends [OF Suc.prems, of "drop_bit n v"] by (auto simp: bit_drop_bit_eq)
  from Suc.IH [OF st1(2)] st1 show ?case by (simp add: word_bits_Suc)
qed simp

lemma flush_pads:
  assumes "bw_bits_valid st < 8"
  shows "\<exists>st' pad. bit_flush StringWriter_methods st = (Inr (), st') \<and> bw_bits_valid st' = 0
     \<and> bits_of (sw_data (bw_writer st')) = bits_written st @ replicate pad False \<and> pad < 8"
proof (cases "bw_bits_valid st = 0")
  case False
  have "word_bits 8 (push_bit (8 - bw_bits_valid st) (bw_current_byte st))
      = word_bits (bw_bits_valid st) (bw_current_byte st) @ replicate (8 - bw_bits_valid st) False"
    using assms word_bits_shift [of "bw_bits_valid st" "8 - bw_bits_valid st" "bw_current_byte st"] by simp
  with False show ?thesis
    by (intro exI [of _ "snd (bit_flush StringWriter_methods st)"] exI [of _ "8 - bw_bits_valid st"])
      (simp add: bit_flush_def put_byte_string bits_written_def string_basic_write_def word_bits_ucast)
qed (auto simp: bit_flush_def bits_written_def)

primrec write_fields :: "(nat \<times> u32) list \<Rightarrow> (StringWriter BitWriter, unit) chan" where
  "write_fields [] = bit_flush StringWriter_methods"
| "write_fields (f # fs) = chan_bind (write_bits StringWriter_methods (fst f) (snd f)) (\<lambda>_. write_fields fs)"

primrec read_fields :: "nat list \<Rightarrow> (StringReader BitReader, u32 list) chan" where
  "read_fields [] = chan_return []"
| "read_fields (n # ns) = chan_bind (read_bits StringReader_methods n) (\<lambda>v.
     chan_bind (read_fields ns) (\<lambda>vs. chan_return (v # vs)))"

definition field_bits :: "(nat \<times> u32) list \<Rightarrow> bool list" where
  "field_bits fs = concat (map (\<lambda>f. word_bits (fst f) (snd f)) fs)"

lemma write_fields_appends:
  "bw_bits_valid st < 8 \<Longrightarrow>
   \<exists>st' pad. write_fields fs st = (Inr (), st') \<and> bw_bits_valid st' = 0
     \<and> bits_of (sw_data (bw_writer st')) = bits_written st @ field_bits fs @ replicate pad False \<and> pad < 8"
proof (induction fs arbitrary: st)
  case Nil
  then show ?case using flush_pads by (simp add: field_bits_def)
next
  case (Cons f fs)
  obtain st1 where "write_bits StringWriter_methods (fst f) (snd f) st = (Inr (), st1)" "bw_bits_valid st1 < 8"
    "bits_written st1 = bits_written st @ word_bits (fst f) (snd f)"
    using write_bits_appends [OF Cons.prems] by blast
  with Cons.IH [of st1] show ?case by (simp add: field_bits_def)
qed

lemma read_fields_yields:
  "yields str.bits_ok str.bits_rest (read_fields (map fst fs)) (field_bits fs @ tail)
     (map (\<lambda>f. take_bit (fst f) (snd f)) fs) tail"
proof (induction fs)
  case (Cons f fs)
  show ?case
    by (simp, rule yields_bind, simp add: field_bits_def, rule str.read_word_yields [OF StringReader_try_read],
        rule yields_bind, rule Cons [unfolded field_bits_def], rule yields_return)
qed (simp add: field_bits_def)

section \<open>Properties\<close>



definition exp_golomb_code :: "nat \<Rightarrow> nat \<Rightarrow> bool list" where
  "exp_golomb_code len n = replicate len False @ word_bits (Suc len) (of_nat (n + 1) :: u32)"

text \<open>
  Exp-Golomb values. Reading the code of \<open>n\<close>, that is \<open>len\<close> zero bits and then \<open>n + 1\<close> in \<open>len + 1\<close>
  bits, terminates and returns \<open>n\<close>, leaving the bits that follow; it holds for every length the
  source's \<^verbatim>\<open>int\<close> shifts define.
\<close>

theorem exp_golomb_value:
  assumes "2 ^ len \<le> n + 1" "n + 1 < 2 ^ (len + 1)" "len < 31"
    and "str.bits_ok st" "str.bits_rest st = exp_golomb_code len n @ tail"
  shows "\<exists>st'. read_exp_golomb StringReader_methods st = Some (Inr (of_nat n), st') \<and> str.bits_rest st' = tail"
proof -
  let ?w = "of_nat (n + 1) :: u32"
  have n: "n + 1 < 2 ^ 32"
    using assms(2,3) power_increasing [of "len + 1" 32 "2 :: nat"] by linarith
  have top: "bit ?w len"
  proof -
    have "(n + 1) div 2 ^ len = 1" using assms(1,2) by (intro div_nat_eqI) simp_all
    then have "bit (n + 1) len" by (simp add: bit_iff_odd)
    then show ?thesis using assms(3) by (simp add: bit_simps del: of_nat_add of_nat_Suc)
  qed
  have "take_bit (Suc len) ?w = ?w"
    using assms(2) n by (intro word_unat_eq_iff [THEN iffD2])
      (simp add: unsigned_take_bit_eq unat_of_nat take_bit_nat_eq_self del: of_nat_add of_nat_Suc)
  then have "take_bit len ?w + push_bit len 1 = ?w"
    using top by (simp only: take_bit_top) (simp only: of_bool_eq add.commute)
  then have "take_bit len ?w + (push_bit len 1 - 1) = of_nat n" by (simp add: algebra_simps)
  moreover have "str.bits_rest st = replicate len False @ True # word_bits len ?w @ tail"
    using assms(5) top by (simp add: exp_golomb_code_def word_bits_Suc)
  ultimately show ?thesis
    using str.read_exp_golomb_result [OF StringReader_try_read assms(4)] by metis
qed

theorem exp_golomb_value_witness:
  "\<exists>st'. read_exp_golomb StringReader_methods (bit_reader (string_reader [0x28])) = Some (Inr 4, st')"
proof -
  have "str.bits_rest (bit_reader (string_reader [0x28])) = exp_golomb_code 2 4 @ [False, False, False]"
    by (simp add: str.bits_rest_def bit_reader_def exp_golomb_code_def word_bits_def upt_rec numeral_eq_Suc)
  moreover have "str.bits_ok (bit_reader (string_reader [0x28]))"
    by (simp add: str.bits_ok_def bit_reader_def string_ok_initial)
  ultimately show ?thesis
    using exp_golomb_value [of 2 4 "bit_reader (string_reader [0x28])"] by auto
qed

end
