(* ===== verification/Fuel.thy ===== *)
theory Fuel
  imports OT_Prelude
begin

text \<open>
  Computations on a state that may throw and whose recursion is bounded by fuel: the result \<open>None\<close>
  is a run that has used it up. Recursive readers (CBOR, JSON text, Huffman) are of this kind. Two
  relations carry their proofs: \<open>fyields\<close>, that whenever a run ends it ends with a given value on
  given input, and \<open>returns\<close>, that a run with enough fuel ends and makes progress.
\<close>

type_synonym ('e, 's, 'a) fuelled = "'s \<Rightarrow> (('e + 'a) \<times> 's) option"

definition fuel_bind :: "('e, 's, 'a) fuelled \<Rightarrow> ('a \<Rightarrow> ('e, 's, 'b) fuelled) \<Rightarrow> ('e, 's, 'b) fuelled" where
  "fuel_bind m f s =
     (case m s of None \<Rightarrow> None | Some (Inl e, s') \<Rightarrow> Some (Inl e, s') | Some (Inr a, s') \<Rightarrow> f a s')"

definition fuel_lift :: "('s \<Rightarrow> ('e + 'a) \<times> 's) \<Rightarrow> ('e, 's, 'a) fuelled" where
  "fuel_lift m s = Some (m s)"

definition fuel_return :: "'a \<Rightarrow> ('e, 's, 'a) fuelled" where
  "fuel_return a s = Some (Inr a, s)"

definition fuel_throw :: "'e \<Rightarrow> ('e, 's, 'a) fuelled" where
  "fuel_throw e s = Some (Inl e, s)"

section \<open>Partial correctness\<close>

definition fyields ::
  "('s \<Rightarrow> bool) \<Rightarrow> ('s \<Rightarrow> 'r) \<Rightarrow> ('e, 's, 'a) fuelled \<Rightarrow> 'r \<Rightarrow> 'a \<Rightarrow> 'r \<Rightarrow> bool" where
  "fyields ok rest m input v left \<longleftrightarrow>
     (\<forall>s. ok s \<and> rest s = input \<longrightarrow> m s = None \<or> (\<exists>s'. m s = Some (Inr v, s') \<and> ok s' \<and> rest s' = left))"

lemma fyields_none [simp]: "fyields ok rest (\<lambda>s. None) input v left"
  by (simp add: fyields_def)

lemma fyields_fuel_return: "fyields ok rest (fuel_return v) input v input"
  by (simp add: fyields_def fuel_return_def)

lemma fyields_bind:
  assumes "fyields ok rest m input v mid" "fyields ok rest (f v) mid w left"
  shows "fyields ok rest (fuel_bind m f) input w left"
  unfolding fyields_def
proof (intro allI impI)
  fix s assume s: "ok s \<and> rest s = input"
  show "fuel_bind m f s = None \<or> (\<exists>s'. fuel_bind m f s = Some (Inr w, s') \<and> ok s' \<and> rest s' = left)"
  proof (cases "m s")
    case (Some a)
    with s assms(1) obtain s1 where "m s = Some (Inr v, s1)" "ok s1" "rest s1 = mid"
      unfolding fyields_def by (metis option.distinct(1))
    with assms(2) show ?thesis unfolding fyields_def fuel_bind_def by auto
  qed (simp add: fuel_bind_def)
qed

section \<open>Termination\<close>

text \<open>
  \<open>advanced ok wt k s p\<close>: the result \<open>p\<close> of a run from \<open>s\<close> keeps \<open>ok\<close>, does not increase the weight,
  and lowers it by at least \<open>k\<close> on success. \<open>returns ok wt n k m\<close>: from every state of weight at
  most \<open>n\<close> the run ends, in such a result.
\<close>

definition advanced :: "('s \<Rightarrow> bool) \<Rightarrow> ('s \<Rightarrow> nat) \<Rightarrow> nat \<Rightarrow> 's \<Rightarrow> ('e + 'a) \<times> 's \<Rightarrow> bool" where
  "advanced ok wt k s p \<longleftrightarrow> ok (snd p) \<and> wt (snd p) \<le> wt s \<and> (isl (fst p) \<or> wt (snd p) + k \<le> wt s)"

definition returns :: "('s \<Rightarrow> bool) \<Rightarrow> ('s \<Rightarrow> nat) \<Rightarrow> nat \<Rightarrow> nat \<Rightarrow> ('e, 's, 'a) fuelled \<Rightarrow> bool" where
  "returns ok wt n k m \<longleftrightarrow>
     (\<forall>s. ok s \<and> wt s \<le> n \<longrightarrow> (\<exists>p. m s = Some p \<and> advanced ok wt k s p))"

lemma returnsE:
  assumes "returns ok wt n k m" "ok s" "wt s \<le> n"
  obtains res s' where "m s = Some (res, s')" "advanced ok wt k s (res, s')"
  using assms unfolding returns_def by (metis surj_pair)

lemma returns_return: "returns ok wt n 0 (fuel_return a)"
  by (simp add: returns_def fuel_return_def advanced_def)

lemma returns_throw: "returns ok wt n k (fuel_throw e)"
  by (simp add: returns_def fuel_throw_def advanced_def)

lemma returns_mono: "returns ok wt n k m \<Longrightarrow> n' \<le> n \<Longrightarrow> k' \<le> k \<Longrightarrow> returns ok wt n' k' m"
  unfolding returns_def advanced_def by (meson add_le_mono le_refl le_trans)

lemma returns_bind:
  assumes "returns ok wt n k m" "\<And>a. k \<le> n \<Longrightarrow> returns ok wt (n - k) j (f a)"
  shows "returns ok wt n (k + j) (fuel_bind m f)"
  unfolding returns_def
proof (intro allI impI)
  fix s assume s: "ok s \<and> wt s \<le> n"
  with assms(1) obtain res s' where m: "m s = Some (res, s')" "advanced ok wt k s (res, s')"
    by (fastforce simp: returns_def)
  show "\<exists>p. fuel_bind m f s = Some p \<and> advanced ok wt (k + j) s p"
  proof (cases res)
    case (Inl e)
    with m show ?thesis by (auto simp: advanced_def fuel_bind_def)
  next
    case (Inr a)
    with m s have "ok s'" "wt s' \<le> n - k" "k \<le> n" by (auto simp: advanced_def)
    with assms(2) [of a] obtain p where "f a s' = Some p" "advanced ok wt j s' p" by (auto simp: returns_def)
    with m Inr show ?thesis by (auto simp: advanced_def fuel_bind_def)
  qed
qed

text \<open>A step that makes progress, followed by a loop that has enough fuel for what is left.\<close>

lemma returns_progress:
  assumes "returns ok wt n 1 m" "\<And>k a. k < n \<Longrightarrow> returns ok wt k 0 (f a)"
  shows "returns ok wt n 0 (fuel_bind m f)"
proof -
  have "returns ok wt n (1 + 0) (fuel_bind m f)" using assms by (intro returns_bind) auto
  then show ?thesis by (rule returns_mono) simp_all
qed

end
