(* ===== verification/Json_Value.thy ===== *)
theory Json_Value
  imports Base64 Convert Utf8
begin

text \<open>
  The JSON value of libs/json (ot-json.h, value.cc): the tagged value, its accessors and its text
  output. A \<^verbatim>\<open>double\<close> is a type parameter and its stream output an argument. The property map is
  the sorted association list that \<^verbatim>\<open>std::map<string, Value>\<close> iterates over. Only the field that
  belongs to the type tag is kept, since no operation reads another one.
\<close>

section \<open>Values and their property maps\<close>

datatype 'f Value =
    UNDEFINED
  | JNULL
  | NUMBER 'f
  | INTEGER u64
  | STRING string
  | OBJECT "(string \<times> 'f Value) list"
  | ARRAY "'f Value list"
  | JTRUE
  | JFALSE
  | BINARY string
  | BREAK

fun map_insert :: "'k :: linorder \<Rightarrow> 'v \<Rightarrow> ('k \<times> 'v) list \<Rightarrow> ('k \<times> 'v) list" where
  "map_insert k v [] = [(k, v)]"
| "map_insert k v ((k', v') # kvs) =
     (if k < k' then (k, v) # (k', v') # kvs
      else if k = k' then (k, v) # kvs
      else (k', v') # map_insert k v kvs)"

definition map_ok :: "('k :: linorder \<times> 'v) list \<Rightarrow> bool" where
  "map_ok kvs \<longleftrightarrow> sorted_wrt (<) (map fst kvs)"

text \<open>\<^verbatim>\<open>put\<close> and \<^verbatim>\<open>set\<close> store into the property map, \<^verbatim>\<open>add\<close> into the array.\<close>

definition json_set :: "string \<Rightarrow> 'f Value \<Rightarrow> 'f Value \<Rightarrow> 'f Value" where
  "json_set name v self = (case self of OBJECT kvs \<Rightarrow> OBJECT (map_insert name v kvs) | _ \<Rightarrow> self)"

definition json_add :: "'f Value \<Rightarrow> 'f Value \<Rightarrow> 'f Value" where
  "json_add v self = (case self of ARRAY vs \<Rightarrow> ARRAY (vs @ [v]) | _ \<Rightarrow> self)"

definition is_valid :: "'f Value \<Rightarrow> bool" where
  "is_valid self = (case self of UNDEFINED \<Rightarrow> False | _ \<Rightarrow> True)"

definition is_true :: "'f Value \<Rightarrow> bool" where
  "is_true self = (case self of JTRUE \<Rightarrow> True | INTEGER n \<Rightarrow> n \<noteq> 0 | _ \<Rightarrow> False)"

text \<open>Equality compares the tags and then the field of the tag; \<open>feq\<close> is that of \<^verbatim>\<open>double\<close>.\<close>

fun value_eq :: "('f \<Rightarrow> 'f \<Rightarrow> bool) \<Rightarrow> 'f Value \<Rightarrow> 'f Value \<Rightarrow> bool" where
  "value_eq feq (NUMBER f) w = (case w of NUMBER g \<Rightarrow> feq f g | _ \<Rightarrow> False)"
| "value_eq feq (INTEGER n) w = (case w of INTEGER m \<Rightarrow> n = m | _ \<Rightarrow> False)"
| "value_eq feq (STRING s) w = (case w of STRING t \<Rightarrow> s = t | _ \<Rightarrow> False)"
| "value_eq feq (BINARY s) w = (case w of BINARY t \<Rightarrow> s = t | _ \<Rightarrow> False)"
| "value_eq feq (OBJECT kvs) w =
     (case w of
        OBJECT lvs \<Rightarrow> list_all2 (\<lambda>p q. fst p = fst q \<and> value_eq feq (snd p) (snd q)) kvs lvs
      | _ \<Rightarrow> False)"
| "value_eq feq (ARRAY vs) w =
     (case w of ARRAY ws \<Rightarrow> list_all2 (value_eq feq) vs ws | _ \<Rightarrow> False)"
| "value_eq feq UNDEFINED w = (case w of UNDEFINED \<Rightarrow> True | _ \<Rightarrow> False)"
| "value_eq feq JNULL w = (case w of JNULL \<Rightarrow> True | _ \<Rightarrow> False)"
| "value_eq feq JTRUE w = (case w of JTRUE \<Rightarrow> True | _ \<Rightarrow> False)"
| "value_eq feq JFALSE w = (case w of JFALSE \<Rightarrow> True | _ \<Rightarrow> False)"
| "value_eq feq BREAK w = (case w of BREAK \<Rightarrow> True | _ \<Rightarrow> False)"

definition json_get :: "string \<Rightarrow> 'f Value \<Rightarrow> 'f Value" where
  "json_get property self =
     (case self of
        OBJECT kvs \<Rightarrow> (case map_of kvs property of Some v \<Rightarrow> v | None \<Rightarrow> UNDEFINED)
      | _ \<Rightarrow> UNDEFINED)"

definition json_get_index :: "nat \<Rightarrow> 'f Value \<Rightarrow> 'f Value" where
  "json_get_index index self =
     (case self of
        ARRAY vs \<Rightarrow> if index \<ge> length vs then UNDEFINED else vs ! index
      | _ \<Rightarrow> UNDEFINED)"

definition json_size :: "'f Value \<Rightarrow> nat" where
  "json_size self = (case self of ARRAY vs \<Rightarrow> length vs | _ \<Rightarrow> 0)"

definition as_str :: "string \<Rightarrow> 'f Value \<Rightarrow> string" where
  "as_str d self = (case self of STRING s \<Rightarrow> s | _ \<Rightarrow> d)"

definition as_int :: "u64 \<Rightarrow> 'f Value \<Rightarrow> u64" where
  "as_int d self = (case self of INTEGER n \<Rightarrow> n | STRING s \<Rightarrow> scast (stoi s) | _ \<Rightarrow> d)"

definition as_binary :: "'f Value \<Rightarrow> byte list" where
  "as_binary self =
     (case self of
        BINARY s \<Rightarrow> map byte_of_char s
      | STRING s \<Rightarrow> snd (base64_decode base64_default s [])
      | _ \<Rightarrow> [])"

section \<open>Text output\<close>

definition write_char :: "u32 \<Rightarrow> string" where
  "write_char c =
     (if c = 0x5c then [CHR 0x5c, CHR 0x5c]
      else if c = 0x22 then [CHR 0x5c, CHR 0x22]
      else if c = 0x08 then [CHR 0x5c, CHR ''b'']
      else if c = 0x0c then [CHR 0x5c, CHR ''f'']
      else if c = 0x0a then [CHR 0x5c, CHR ''n'']
      else if c = 0x0d then [CHR 0x5c, CHR ''r'']
      else if c = 0x09 then [CHR 0x5c, CHR ''t'']
      else if sint c > 0x7f then
        (if sint c < 0x10000
         then let h = print_digits 16 (unat c)
              in [CHR 0x5c, CHR ''u''] @ replicate (4 - length h) CHR ''0'' @ h
         else [CHR 0x5c, CHR ''u'', CHR ''+'', CHR ''+'', CHR ''+'', CHR ''+''])
      else [utf8_byte c])"

definition write_string_to :: "string \<Rightarrow> string" where
  "write_string_to s = [CHR 0x22] @ concat (map write_char (utf8_decode s [])) @ [CHR 0x22]"

definition i64_text :: "u64 \<Rightarrow> string" where
  "i64_text n = (if sint n < 0 then CHR ''-'' # print_digits 10 (nat (- sint n)) else print_digits 10 (nat (sint n)))"

definition spaces :: "nat \<Rightarrow> string" where
  "spaces n = replicate n CHR '' ''"

definition non_empty_container :: "'f Value \<Rightarrow> bool" where
  "non_empty_container v = (case v of OBJECT kvs \<Rightarrow> kvs \<noteq> [] | ARRAY vs \<Rightarrow> vs \<noteq> [] | _ \<Rightarrow> False)"

fun write_to :: "('f \<Rightarrow> string) \<Rightarrow> bool \<Rightarrow> nat \<Rightarrow> 'f Value \<Rightarrow> string"
and write_members :: "('f \<Rightarrow> string) \<Rightarrow> bool \<Rightarrow> nat \<Rightarrow> (string \<times> 'f Value) list \<Rightarrow> string"
and write_elements :: "('f \<Rightarrow> string) \<Rightarrow> bool \<Rightarrow> bool \<Rightarrow> nat \<Rightarrow> 'f Value list \<Rightarrow> string"
where
  "write_to show_f pretty indent UNDEFINED = ''undefined''"
| "write_to show_f pretty indent JNULL = ''null''"
| "write_to show_f pretty indent (NUMBER f) = show_f f"
| "write_to show_f pretty indent (INTEGER n) = i64_text n"
| "write_to show_f pretty indent (STRING s) = write_string_to s"
| "write_to show_f pretty indent (OBJECT kvs) =
     (let multiline = pretty \<and> kvs \<noteq> []
      in [CHR ''{''] @ (if multiline then [CHR 0x0a] else [])
         @ write_members show_f pretty indent kvs
         @ (if multiline then spaces indent else []) @ [CHR ''}'']
         @ (if multiline \<and> indent = 0 then [CHR 0x0a] else []))"
| "write_to show_f pretty indent (ARRAY vs) =
     (let multiline = pretty \<and> list_ex non_empty_container vs
      in [CHR ''[''] @ (if multiline then [CHR 0x0a] else [])
         @ write_elements show_f pretty multiline indent vs
         @ (if multiline then spaces indent else []) @ [CHR '']'']
         @ (if multiline \<and> indent = 0 then [CHR 0x0a] else []))"
| "write_to show_f pretty indent JTRUE = ''true''"
| "write_to show_f pretty indent JFALSE = ''false''"
| "write_to show_f pretty indent (BINARY s) =
     [CHR 0x22] @ base64_encode_string base64_default s 76 [CHR 0x0d, CHR 0x0a] @ [CHR 0x22]"
| "write_to show_f pretty indent BREAK = ''BREAK''"
| "write_members show_f pretty indent [] = []"
| "write_members show_f pretty indent ((k, v) # kvs) =
     (if pretty then spaces (indent + 2) else [])
     @ [CHR 0x22] @ k @ [CHR 0x22, CHR '':'']
     @ (if pretty then (if non_empty_container v then [CHR 0x0a] @ spaces (indent + 2) else [CHR '' '']) else [])
     @ write_to show_f pretty (indent + 2) v
     @ (if kvs \<noteq> [] then [CHR '','' ] else [])
     @ (if pretty then [CHR 0x0a] else [])
     @ write_members show_f pretty indent kvs"
| "write_elements show_f pretty multiline indent [] = []"
| "write_elements show_f pretty multiline indent (v # vs) =
     (if multiline then spaces (indent + 2) else if pretty then [CHR '' ''] else [])
     @ write_to show_f pretty (indent + 2) v
     @ (if vs \<noteq> [] then [CHR '',''] @ (if multiline then [CHR 0x0a] else [])
        else if multiline then [CHR 0x0a] else if pretty then [CHR '' ''] else [])
     @ write_elements show_f pretty multiline indent vs"

definition json_str :: "('f \<Rightarrow> string) \<Rightarrow> bool \<Rightarrow> 'f Value \<Rightarrow> string" where
  "json_str show_f pretty self = write_to show_f pretty 0 self"

section \<open>The property map\<close>

text \<open>What a client relies on in an ordered map: lookup after insertion, and order kept.\<close>

locale ordered_map =
  fixes insert :: "'k :: linorder \<Rightarrow> 'v \<Rightarrow> 'm \<Rightarrow> 'm"
    and lookup :: "'m \<Rightarrow> 'k \<Rightarrow> 'v option"
    and keys :: "'m \<Rightarrow> 'k list"
  assumes lookup_insert: "sorted_wrt (<) (keys m) \<Longrightarrow> lookup (insert k v m) k' = (if k' = k then Some v else lookup m k')"
    and keys_insert: "sorted_wrt (<) (keys m) \<Longrightarrow> sorted_wrt (<) (keys (insert k v m))"
begin

lemma lookup_inserts:
  "sorted_wrt (<) (keys m) \<Longrightarrow>
   lookup (foldl (\<lambda>m kv. insert (fst kv) (snd kv) m) m kvs) k = (case map_of (rev kvs) k of Some v \<Rightarrow> Some v | None \<Rightarrow> lookup m k)
   \<and> sorted_wrt (<) (keys (foldl (\<lambda>m kv. insert (fst kv) (snd kv) m) m kvs))"
proof (induction kvs arbitrary: m)
  case (Cons kv kvs)
  then show ?case
    using keys_insert [OF Cons.prems, of "fst kv" "snd kv"] Cons.IH [of "insert (fst kv) (snd kv) m"]
    by (auto simp: lookup_insert [OF Cons.prems] map_add_def split: option.split)
qed simp

end

lemma map_insert_keys: "set (map fst (map_insert k v kvs)) = insert k (set (map fst kvs))"
  by (induction k v kvs rule: map_insert.induct) auto

lemma map_insert_ok: "map_ok kvs \<Longrightarrow> map_ok (map_insert k v kvs)"
  unfolding map_ok_def
proof (induction kvs)
  case (Cons kv kvs)
  obtain k' v' where "kv = (k', v')" by fastforce
  with Cons map_insert_keys [of k v kvs] show ?case by auto
qed simp

lemma map_insert_lookup: "map_ok kvs \<Longrightarrow> map_of (map_insert k v kvs) k' = (if k' = k then Some v else map_of kvs k')"
  by (induction kvs) (auto simp: map_ok_def)

lemma map_insert_last:
  "\<forall>k'\<in>set (map fst kvs). k' < k \<Longrightarrow> map_insert k v kvs = kvs @ [(k, v)]"
  by (induction kvs) (auto simp: order.strict_iff_not)

lemma map_insert_next: "map_ok (acc @ (k, v) # kvs) \<Longrightarrow> map_insert k v acc = acc @ [(k, v)]"
  by (rule map_insert_last) (auto simp: map_ok_def sorted_wrt_append)

interpretation property_map: ordered_map map_insert map_of "map fst"
  by unfold_locales (simp_all add: map_insert_ok map_insert_lookup flip: map_ok_def)

section \<open>Properties\<close>

text \<open>
  Object properties. After any sequence of \<^verbatim>\<open>set\<close> calls on an object whose map is in order, \<^verbatim>\<open>get\<close>
  returns the last value set for a property, or what the object had, and the map is still in
  order without duplicates.
\<close>

theorem json_set_get:
  assumes "map_ok kvs"
  shows "json_get k (foldl (\<lambda>self kv. json_set (fst kv) (snd kv) self) (OBJECT kvs) sets)
      = (case map_of (rev sets) k of Some v \<Rightarrow> v | None \<Rightarrow> json_get k (OBJECT kvs))
    \<and> (\<exists>kvs'. foldl (\<lambda>self kv. json_set (fst kv) (snd kv) self) (OBJECT kvs) sets = OBJECT kvs' \<and> map_ok kvs')"
proof -
  have "foldl (\<lambda>self kv. json_set (fst kv) (snd kv) self) (OBJECT kvs) sets
      = OBJECT (foldl (\<lambda>m kv. map_insert (fst kv) (snd kv) m) kvs sets)"
    by (induction sets arbitrary: kvs) (simp_all add: json_set_def)
  with property_map.lookup_inserts [of kvs sets k] assms show ?thesis
    by (auto simp: json_get_def map_ok_def split: option.split)
qed

theorem json_set_get_witness:
  "json_get ''a'' (json_set ''a'' JTRUE (json_set ''b'' JFALSE (OBJECT [(''a'', JNULL)]))) = (JTRUE :: nat Value)"
  using json_set_get [of "[(''a'', JNULL :: nat Value)]" "''a''" "[(''b'', JFALSE), (''a'', JTRUE)]"]
  by (simp add: map_ok_def)

lemma default_line_end: "\<forall>c \<in> set [CHR 0x0d, CHR 0x0a]. base64_classify base64_default c = Ignored"
  by code_simp

lemma default_base64_wf: "base64_wf base64_default"
  by code_simp

text \<open>
  Binary data survives JSON text. The text of a binary value is a quoted string, and a string
  value with that content reads back as the same bytes.
\<close>

theorem json_binary_text:
  "\<exists>t. write_to show_f pretty indent (BINARY s) = [CHR 0x22] @ t @ [CHR 0x22]
     \<and> as_binary (STRING t) = as_binary (BINARY s)"
proof -
  let ?t = "base64_encode base64_default (map byte_of_char s) 76 [CHR 0x0d, CHR 0x0a]"
  have fits: "length (map byte_of_char s) \<le> binary_length ?t" by (rule encode_fits_binary_length)
  have "as_binary (STRING ?t) = map byte_of_char s"
    using decode_block_encode [OF default_base64_wf default_line_end fits, of 76] fits
    by (simp add: as_binary_def base64_decode_def)
  then show ?thesis
    by (intro exI [of _ ?t]) (simp add: as_binary_def base64_encode_string_def)
qed

text \<open>Text longer than one line carries raw line breaks inside the JSON string.\<close>

lemma json_binary_raw_newline:
  "CHR 0x0a \<in> set (write_to show_f False 0 (BINARY (replicate 60 CHR 0x00)))"
  by code_simp

end
