(* ===== verification/Cbor.thy ===== *)
theory Cbor
  imports Json_Value Writers Fuel
begin

unbundle bit_operations_syntax

text \<open>
  The CBOR codec of libs/json: \<^verbatim>\<open>CBORWriter\<close> (cbor-writer.cc) over a channel writer and
  \<^verbatim>\<open>CBORReader\<close> (cbor-reader.cc) over a channel reader. The decoder calls itself for the members of
  containers and reads until a BREAK in indefinite ones, so its recursion is bounded by fuel: \<open>None\<close>
  is a run that has used it up. The member loops take the decoder as an argument. On an in-memory
  reader \<open>n + 1\<close> units are enough for \<open>n\<close> bytes.
\<close>

section \<open>CBORWriter\<close>

definition cbor_write_int :: "'s Writer \<Rightarrow> u64 \<Rightarrow> byte \<Rightarrow> ('s, unit) chan" where
  "cbor_write_int w v major_type =
     (let first_byte = push_bit 5 major_type
      in if v < 24 then write_byte w (first_byte OR ucast v)
         else if v < 256 then chan_bind (write_byte w (first_byte OR 0x18)) (\<lambda>_. write_byte w (ucast v))
         else if v < 65536 then chan_bind (write_byte w (first_byte OR 0x19)) (\<lambda>_. write_nbo_16 w (ucast v))
         else if v < 0x100000000 then chan_bind (write_byte w (first_byte OR 0x1a)) (\<lambda>_. write_nbo_32 w (ucast v))
         else chan_bind (write_byte w (first_byte OR 0x1b)) (\<lambda>_. write_nbo_64 w v))"

fun cbor_encode :: "'s Writer \<Rightarrow> 'f Value \<Rightarrow> ('s, unit) chan"
and cbor_encode_elements :: "'s Writer \<Rightarrow> 'f Value list \<Rightarrow> ('s, unit) chan"
and cbor_encode_members :: "'s Writer \<Rightarrow> (string \<times> 'f Value) list \<Rightarrow> ('s, unit) chan"
where
  "cbor_encode w (INTEGER n) =
     (if sint n \<ge> 0 then cbor_write_int w n 0 else cbor_write_int w (- 1 - n) 1)"
| "cbor_encode w JFALSE = write_byte w 0xf4"
| "cbor_encode w JTRUE = write_byte w 0xf5"
| "cbor_encode w JNULL = write_byte w 0xf6"
| "cbor_encode w UNDEFINED = write_byte w 0xf7"
| "cbor_encode w (BINARY s) = chan_bind (cbor_write_int w (of_nat (length s)) 2) (\<lambda>_. write_string w s)"
| "cbor_encode w (STRING s) = chan_bind (cbor_write_int w (of_nat (length s)) 3) (\<lambda>_. write_string w s)"
| "cbor_encode w (ARRAY vs) =
     chan_bind (cbor_write_int w (of_nat (length vs)) 4) (\<lambda>_. cbor_encode_elements w vs)"
| "cbor_encode w (OBJECT kvs) =
     chan_bind (cbor_write_int w (of_nat (length kvs)) 5) (\<lambda>_. cbor_encode_members w kvs)"
| "cbor_encode w (NUMBER f) = chan_return ()"
| "cbor_encode w BREAK = chan_return ()"
| "cbor_encode_elements w [] = chan_return ()"
| "cbor_encode_elements w (v # vs) = chan_bind (cbor_encode w v) (\<lambda>_. cbor_encode_elements w vs)"
| "cbor_encode_members w [] = chan_return ()"
| "cbor_encode_members w ((k, v) # kvs) =
     chan_bind (chan_bind (cbor_write_int w (of_nat (length k)) 3) (\<lambda>_. write_string w k)) (\<lambda>_.
       chan_bind (cbor_encode w v) (\<lambda>_. cbor_encode_members w kvs))"

definition cbor_open_indefinite_array :: "'s Writer \<Rightarrow> ('s, unit) chan" where
  "cbor_open_indefinite_array w = write_byte w 0x9f"

definition cbor_close_indefinite_array :: "'s Writer \<Rightarrow> ('s, unit) chan" where
  "cbor_close_indefinite_array w = write_byte w 0xff"

text \<open>\<^verbatim>\<open>Value::cbor\<close>: the encoding through a string writer.\<close>

definition json_cbor :: "'f Value \<Rightarrow> byte list" where
  "json_cbor v = sw_data (snd (cbor_encode StringWriter_methods v (string_writer [])))"

section \<open>CBORReader\<close>

definition cbor_read_int :: "'s Reader \<Rightarrow> byte \<Rightarrow> ('s, u64) chan" where
  "cbor_read_int r initial_byte =
     (let ai = initial_byte AND 0x1f
      in if ai < 24 then chan_return (ucast ai)
         else if ai = 24 then chan_bind (read_byte r) (\<lambda>b. chan_return (ucast b))
         else if ai = 25 then chan_bind (read_nbo_16 r) (\<lambda>n. chan_return (ucast n))
         else if ai = 26 then chan_bind (read_nbo_32 r) (\<lambda>n. chan_return (ucast n))
         else if ai = 27 then read_nbo_64 r
         else chan_throw (Error 11 (''Unknown additional information '' @ itos (ucast ai))))"

type_synonym ('s, 'a) fchan = "(chan_error, 's, 'a) fuelled"

text \<open>A string field of a value being built, read through \<^verbatim>\<open>Reader::read(string&, size_t)\<close>.\<close>

definition read_text :: "'s Reader \<Rightarrow> u64 \<Rightarrow> ('s, string) chan" where
  "read_text r len s =
     (case reader_read_string r (unat len) ([], s) of
        (Inl e, (str, s')) \<Rightarrow> (Inl e, s')
      | (Inr _, (str, s')) \<Rightarrow> (Inr str, s'))"

definition cbor_key :: "'f Value \<Rightarrow> string option" where
  "cbor_key key = (case key of STRING s \<Rightarrow> Some s | INTEGER n \<Rightarrow> Some (itos (ucast n)) | _ \<Rightarrow> None)"

definition key_error :: chan_error where
  "key_error = Error 13 ''Can't handle non-string or integer CBOR object keys''"

definition cbor_simple :: "byte \<Rightarrow> ('s, 'f Value) chan" where
  "cbor_simple initial_byte =
     (let ai = initial_byte AND 0x1f
      in if ai = 20 then chan_return JFALSE
         else if ai = 21 then chan_return JTRUE
         else if ai = 22 then chan_return JNULL
         else if ai = 23 then chan_return UNDEFINED
         else if ai = 31 then chan_return BREAK
         else chan_throw (Error 12 (''Unhandled float/simple type '' @ itos (ucast ai))))"

text \<open>
  The loop counter \<open>i\<close> of the definite containers is an \<^verbatim>\<open>unsigned int\<close>, compared with a 64-bit length.
\<close>

primrec cbor_elements :: "nat \<Rightarrow> ('s, 'f Value) fchan \<Rightarrow> u32 \<Rightarrow> u64 \<Rightarrow> 'f Value list \<Rightarrow> ('s, 'f Value) fchan" where
  "cbor_elements 0 decode i len vs = (\<lambda>s. None)"
| "cbor_elements (Suc fuel) decode i len vs =
     (if ucast i < len
      then fuel_bind decode (\<lambda>v. cbor_elements fuel decode (i + 1) len (vs @ [v]))
      else fuel_lift (chan_return (ARRAY vs)))"

primrec cbor_elements_indefinite :: "nat \<Rightarrow> ('s, 'f Value) fchan \<Rightarrow> 'f Value list \<Rightarrow> ('s, 'f Value) fchan" where
  "cbor_elements_indefinite 0 decode vs = (\<lambda>s. None)"
| "cbor_elements_indefinite (Suc fuel) decode vs =
     fuel_bind decode (\<lambda>v.
       case v of BREAK \<Rightarrow> fuel_lift (chan_return (ARRAY vs))
       | _ \<Rightarrow> cbor_elements_indefinite fuel decode (vs @ [v]))"

primrec cbor_members :: "nat \<Rightarrow> ('s, 'f Value) fchan \<Rightarrow> u32 \<Rightarrow> u64 \<Rightarrow> (string \<times> 'f Value) list \<Rightarrow> ('s, 'f Value) fchan" where
  "cbor_members 0 decode i len kvs = (\<lambda>s. None)"
| "cbor_members (Suc fuel) decode i len kvs =
     (if ucast i < len
      then fuel_bind decode (\<lambda>key.
        case cbor_key key of
          Some k \<Rightarrow> fuel_bind decode (\<lambda>v. cbor_members fuel decode (i + 1) len (map_insert k v kvs))
        | None \<Rightarrow> fuel_lift (chan_throw key_error))
      else fuel_lift (chan_return (OBJECT kvs)))"

primrec cbor_members_indefinite :: "nat \<Rightarrow> ('s, 'f Value) fchan \<Rightarrow> (string \<times> 'f Value) list \<Rightarrow> ('s, 'f Value) fchan" where
  "cbor_members_indefinite 0 decode kvs = (\<lambda>s. None)"
| "cbor_members_indefinite (Suc fuel) decode kvs =
     fuel_bind decode (\<lambda>key.
       case key of BREAK \<Rightarrow> fuel_lift (chan_return (OBJECT kvs))
       | _ \<Rightarrow>
         (case cbor_key key of
            Some k \<Rightarrow> fuel_bind decode (\<lambda>v. cbor_members_indefinite fuel decode (map_insert k v kvs))
          | None \<Rightarrow> fuel_lift (chan_throw key_error)))"

definition cbor_dispatch :: "nat \<Rightarrow> 's Reader \<Rightarrow> ('s, 'f Value) fchan \<Rightarrow> byte \<Rightarrow> ('s, 'f Value) fchan" where
  "cbor_dispatch fuel r decode initial_byte =
    (let major_type = drop_bit 5 initial_byte
      in if major_type = 0 then
           fuel_lift (chan_bind (cbor_read_int r initial_byte) (\<lambda>n. chan_return (INTEGER n)))
         else if major_type = 1 then
           fuel_lift (chan_bind (cbor_read_int r initial_byte) (\<lambda>n. chan_return (INTEGER (- 1 - n))))
         else if major_type = 2 then
           fuel_lift (chan_bind (cbor_read_int r initial_byte) (\<lambda>len.
             chan_bind (read_text r len) (\<lambda>s. chan_return (BINARY s))))
         else if major_type = 3 then
           fuel_lift (chan_bind (cbor_read_int r initial_byte) (\<lambda>len.
             chan_bind (read_text r len) (\<lambda>s. chan_return (STRING s))))
         else if major_type = 4 then
           (if initial_byte = 0x9f then cbor_elements_indefinite fuel decode []
            else fuel_bind (fuel_lift (cbor_read_int r initial_byte)) (\<lambda>len.
              cbor_elements fuel decode 0 len []))
         else if major_type = 5 then
           (if initial_byte = 0xbf then cbor_members_indefinite fuel decode []
            else fuel_bind (fuel_lift (cbor_read_int r initial_byte)) (\<lambda>len.
              cbor_members fuel decode 0 len []))
         else if major_type = 6 then
           fuel_bind (fuel_lift (if initial_byte AND 0x1f > 23 then read_byte r
                                 else chan_return (initial_byte AND 0x1f))) (\<lambda>type.
             if type = 24 then
               fuel_bind decode (\<lambda>v. fuel_lift (chan_return (BINARY (map char_of_byte (json_cbor v)))))
             else fuel_lift (chan_throw (Error 14 (''Unhandled tag type '' @ itos (ucast type)))))
         else fuel_lift (cbor_simple initial_byte))"

primrec cbor_decode :: "nat \<Rightarrow> 's Reader \<Rightarrow> ('s, 'f Value) fchan" where
  "cbor_decode 0 r = (\<lambda>s. None)"
| "cbor_decode (Suc fuel) r =
     fuel_bind (fuel_lift (read_byte r)) (cbor_dispatch fuel r (cbor_decode fuel r))"

definition cbor_read_open_indefinite_array :: "'s Reader \<Rightarrow> ('s, bool) chan" where
  "cbor_read_open_indefinite_array r = chan_bind (read_byte r) (\<lambda>b. chan_return (b = 0x9f))"

section \<open>What the encoder writes\<close>

definition cbor_head :: "u64 \<Rightarrow> byte \<Rightarrow> byte list" where
  "cbor_head v major =
     (if v < 24 then [push_bit 5 major OR ucast v]
      else if v < 256 then [push_bit 5 major OR 0x18, ucast v]
      else if v < 65536 then (push_bit 5 major OR 0x19) # htons (ucast v)
      else if v < 0x100000000 then (push_bit 5 major OR 0x1a) # htonl (ucast v)
      else (push_bit 5 major OR 0x1b) # htonl (ucast (drop_bit 32 v)) @ htonl (ucast (v AND 0xFFFFFFFF)))"

lemma emits_write_int: "emits (cbor_write_int StringWriter_methods v major) (cbor_head v major)"
  unfolding cbor_write_int_def cbor_head_def Let_def
  using emits_bind [OF emits_string_ops(1) emits_string_ops(1)] emits_bind [OF emits_string_ops(1) emits_string_ops(2)]
    emits_bind [OF emits_string_ops(1) emits_string_ops(3)] emits_bind [OF emits_string_ops(1) emits_string_ops(4)]
  by (simp add: emits_string_ops)

fun cbor_bytes :: "'f Value \<Rightarrow> byte list" where
  "cbor_bytes (INTEGER n) = (if sint n \<ge> 0 then cbor_head n 0 else cbor_head (- 1 - n) 1)"
| "cbor_bytes JFALSE = [0xf4]"
| "cbor_bytes JTRUE = [0xf5]"
| "cbor_bytes JNULL = [0xf6]"
| "cbor_bytes UNDEFINED = [0xf7]"
| "cbor_bytes (BINARY s) = cbor_head (of_nat (length s)) 2 @ map byte_of_char s"
| "cbor_bytes (STRING s) = cbor_head (of_nat (length s)) 3 @ map byte_of_char s"
| "cbor_bytes (ARRAY vs) = cbor_head (of_nat (length vs)) 4 @ concat (map cbor_bytes vs)"
| "cbor_bytes (OBJECT kvs) = cbor_head (of_nat (length kvs)) 5
     @ concat (map (\<lambda>kv. cbor_head (of_nat (length (fst kv))) 3 @ map byte_of_char (fst kv) @ cbor_bytes (snd kv)) kvs)"
| "cbor_bytes (NUMBER f) = []"
| "cbor_bytes BREAK = []"

lemma emits_encode:
  fixes v :: "'f Value" and vs :: "'f Value list" and kvs :: "(string \<times> 'f Value) list"
  shows "emits (cbor_encode StringWriter_methods v) (cbor_bytes v)"
    "emits (cbor_encode_elements StringWriter_methods vs) (concat (map cbor_bytes vs))"
    "emits (cbor_encode_members StringWriter_methods kvs)
       (concat (map (\<lambda>kv. cbor_head (of_nat (length (fst kv))) 3 @ map byte_of_char (fst kv) @ cbor_bytes (snd kv)) kvs))"
proof (induction StringWriter_methods v and StringWriter_methods vs and StringWriter_methods kvs
    rule: cbor_encode_cbor_encode_elements_cbor_encode_members.induct)
  case (15 k v kvs)
  have "emits (chan_bind (chan_bind (cbor_write_int StringWriter_methods (of_nat (length k)) 3)
      (\<lambda>_. write_string StringWriter_methods k)) (\<lambda>_. chan_bind (cbor_encode StringWriter_methods v)
      (\<lambda>_. cbor_encode_members StringWriter_methods kvs)))
    ((cbor_head (of_nat (length k)) 3 @ map byte_of_char k) @ cbor_bytes v
      @ concat (map (\<lambda>kv. cbor_head (of_nat (length (fst kv))) 3 @ map byte_of_char (fst kv) @ cbor_bytes (snd kv)) kvs))"
    by (intro emits_bind emits_write_int emits_string_ops 15)
  then show ?case by simp
qed (auto intro: emits_bind emits_write_int emits_string_ops emits_return simp del: chan_return_apply)

lemma json_cbor_bytes: "json_cbor v = cbor_bytes v"
  unfolding json_cbor_def by (rule emits_data) (rule emits_encode)

section \<open>Reading back an initial byte\<close>

lemma small_byte: "x < 32 \<Longrightarrow> take_bit 5 x = (x :: byte)"
  by (simp add: word_unat_eq_iff unsigned_take_bit_eq take_bit_nat_eq_self word_less_nat_alt)

lemma initial_byte:
  fixes major ai :: byte
  assumes "major < 8" "ai < 32"
  shows "drop_bit 5 (push_bit 5 major OR ai) = major" "(push_bit 5 major OR ai) AND 0x1f = ai"
proof -
  have "take_bit 3 major = major"
    using assms(1) by (simp add: word_unat_eq_iff unsigned_take_bit_eq take_bit_nat_eq_self word_less_nat_alt)
  then have m: "\<not> bit major n" if "3 \<le> n" for n using that by (metis bit_take_bit_iff not_less)
  have a: "\<not> bit ai n" if "5 \<le> n" for n
    using that small_byte [OF assms(2)] by (metis bit_take_bit_iff not_less)
  show "drop_bit 5 (push_bit 5 major OR ai) = major"
  proof (rule bit_word_eqI)
    fix n assume "n < LENGTH(8)"
    show "bit (drop_bit 5 (push_bit 5 major OR ai)) n = bit major n"
      using m [of n] a [of "5 + n"]
      by (cases "n < 3") (auto simp: bit_drop_bit_eq bit_or_iff bit_push_bit_iff not_less)
  qed
  have "(push_bit 5 major OR ai) AND 0x1f = take_bit 5 (push_bit 5 major OR ai)"
    by (simp add: take_bit_eq_mask mask_eq_exp_minus_1)
  also have "\<dots> = ai"
  proof (rule bit_word_eqI)
    fix n assume "n < LENGTH(8)"
    show "bit (take_bit 5 (push_bit 5 major OR ai)) n = bit ai n"
      using a [of n] by (auto simp: bit_take_bit_iff bit_or_iff bit_push_bit_iff)
  qed
  finally show "(push_bit 5 major OR ai) AND 0x1f = ai" .
qed

lemma ucast_small:
  fixes v :: u64
  shows "v < 256 \<Longrightarrow> ucast (ucast v :: byte) = v" "v < 65536 \<Longrightarrow> ucast (ucast v :: u16) = v"
    "v < 0x100000000 \<Longrightarrow> ucast (ucast v :: u32) = v"
  by (simp_all add: word_unat_eq_iff unsigned_ucast_eq unsigned_take_bit_eq take_bit_nat_eq_self word_less_nat_alt)

lemma cbor_head_Cons:
  assumes "major < 8"
  obtains h hs where "cbor_head v major = h # hs" "drop_bit 5 h = major" "h AND 0x1f < 28"
    "\<And>tail. yields string_ok string_rest (cbor_read_int StringReader_methods h) (hs @ tail) v tail"
proof -
  let ?r = StringReader_methods
  note result = that
  have head: thesis if "cbor_head v major = (push_bit 5 major OR ai) # hs" "ai < 28"
    "\<And>h tail. h AND 0x1f = ai \<Longrightarrow> yields string_ok string_rest (cbor_read_int ?r h) (hs @ tail) v tail" for ai hs
  proof (rule result [OF that(1)])
    have "ai < 32" using that(2) by (rule less_trans) simp
    note h = initial_byte [OF assms this]
    show "drop_bit 5 (push_bit 5 major OR ai) = major" "(push_bit 5 major OR ai) AND 0x1f < 28"
      by (simp_all only: h that(2))
    show "yields string_ok string_rest (cbor_read_int ?r (push_bit 5 major OR ai)) (hs @ tail) v tail" for tail
      by (rule that(3)) (rule h)
  qed
  consider "v < 24" | "24 \<le> v" "v < 256" | "256 \<le> v" "v < 65536" | "65536 \<le> v" "v < 0x100000000"
    | "0x100000000 \<le> v" by fastforce
  then show thesis
  proof cases
    case 1
    then have s: "(ucast v :: byte) < 24"
      by (simp add: word_less_nat_alt unsigned_ucast_eq unsigned_take_bit_eq take_bit_nat_eq_self)
    then have "(ucast v :: byte) < 28" "v < 256" using 1 by (auto elim: less_trans)
    with 1 s show thesis
      by (intro head [of "ucast v" "[]"]) (simp_all add: cbor_head_def cbor_read_int_def Let_def ucast_small)
  next
    case 2
    have "yields string_ok string_rest (read_byte ?r) (ucast v # tail) (ucast v) tail" for tail
      by (rule str.read_byte_yields) simp
    moreover have "\<not> v < 24" using 2 by (simp add: not_less)
    ultimately show thesis using 2
      by (intro head [of "0x18" "[ucast v]"])
        (auto simp: cbor_head_def cbor_read_int_def Let_def ucast_small intro!: yields_bind)
  next
    case 3
    then have "\<not> v < 24" "\<not> v < 256" by (auto simp: word_less_nat_alt word_le_nat_alt)
    with 3 show thesis
      by (intro head [of "0x19" "htons (ucast v)"])
        (auto simp: cbor_head_def cbor_read_int_def Let_def ucast_small intro!: yields_bind [OF read_nbo_16_written])
  next
    case 4
    then have "\<not> v < 24" "\<not> v < 256" "\<not> v < 65536" by (auto simp: word_less_nat_alt word_le_nat_alt)
    with 4 show thesis
      by (intro head [of "0x1a" "htonl (ucast v)"])
        (auto simp: cbor_head_def cbor_read_int_def Let_def ucast_small intro!: yields_bind [OF read_nbo_32_written])
  next
    case 5
    then have "\<not> v < 24" "\<not> v < 256" "\<not> v < 65536" "\<not> v < 0x100000000" by (auto simp: word_less_nat_alt word_le_nat_alt)
    then show thesis
      by (intro head [of "0x1b" "htonl (ucast (drop_bit 32 v)) @ htonl (ucast (v AND 0xFFFFFFFF))"])
        (auto simp: cbor_head_def cbor_read_int_def Let_def read_nbo_64_written)
  qed
qed

section \<open>Partial correctness of the decoder\<close>

lemma fyields_lift: "yields ok rest m input v left \<Longrightarrow> fyields ok rest (fuel_lift m) input v left"
  unfolding fyields_def yields_def fuel_lift_def by blast

lemma fyields_return: "fyields ok rest (fuel_lift (chan_return v)) input v input"
  by (rule fyields_lift) simp

lemma read_text_yields:
  assumes "unat len \<le> length input"
  shows "yields string_ok string_rest (read_text StringReader_methods len) input
    (map char_of_byte (take (unat len) input)) (drop (unat len) input)"
  unfolding yields_def
proof (intro allI impI)
  fix s assume "string_ok s \<and> string_rest s = input"
  with assms obtain s' where "reader_read_string StringReader_methods (unat len) ([], s)
      = (Inr (), ([] @ map char_of_byte (take (unat len) input), s'))" "string_ok s'" "string_rest s' = drop (unat len) input"
    using str.read_string_enough [OF StringReader_try_read_string, of s "unat len" "[]"] by auto
  then show "\<exists>s'. read_text StringReader_methods len s = (Inr (map char_of_byte (take (unat len) input)), s')
      \<and> string_ok s' \<and> string_rest s' = drop (unat len) input"
    by (simp add: read_text_def)
qed

lemma read_text_written:
  assumes "length s < 2 ^ 64"
  shows "yields string_ok string_rest (read_text StringReader_methods (of_nat (length s))) (map byte_of_char s @ tail) s tail"
proof -
  have "unat (of_nat (length s) :: u64) = length s" using assms by (simp add: unat_of_nat)
  then show ?thesis
    using read_text_yields [of "of_nat (length s)" "map byte_of_char s @ tail"] by (simp add: comp_def)
qed

fun encodable :: "'f Value \<Rightarrow> bool" where
  "encodable (NUMBER f) = False"
| "encodable BREAK = False"
| "encodable (STRING s) = (length s < 2 ^ 64)"
| "encodable (BINARY s) = (length s < 2 ^ 64)"
| "encodable (ARRAY vs) = (length vs < 2 ^ 32 \<and> list_all encodable vs)"
| "encodable (OBJECT kvs) = (length kvs < 2 ^ 32 \<and> map_ok kvs
     \<and> list_all (\<lambda>kv. length (fst kv) < 2 ^ 64 \<and> encodable (snd kv)) kvs)"
| "encodable _ = True"

lemma index_compare:
  fixes i :: u32
  assumes "unat i + n < 2 ^ 32"
  shows "ucast i < (of_nat (unat i + n) :: u64) \<longleftrightarrow> n \<noteq> 0"
  using assms by (simp add: word_less_nat_alt unat_of_nat unsigned_ucast_eq take_bit_nat_eq_self del: of_nat_add)

lemma index_step:
  fixes i :: u32
  assumes "unat i + Suc n < 2 ^ 32"
  shows "unat (i + 1) = Suc (unat i)"
  using assms by (simp add: unat_word_ariths)

lemma elements_fyields:
  assumes "\<forall>v\<in>set vs. \<forall>tail. fyields string_ok string_rest decode (cbor_bytes v @ tail) v tail"
    and "unat i + length vs < 2 ^ 32"
  shows "fyields string_ok string_rest (cbor_elements fuel decode i (of_nat (unat i + length vs)) acc)
    (concat (map cbor_bytes vs) @ tail) (ARRAY (acc @ vs)) tail"
  using assms
proof (induction fuel arbitrary: i acc vs)
  case (Suc fuel)
  show ?case
  proof (cases vs)
    case Nil
    with index_compare [of i 0] Suc.prems(2) show ?thesis
      by (simp add: fyields_return del: of_nat_add chan_return_apply)
  next
    case (Cons v vs')
    have i: "unat (i + 1) + length vs' = unat i + length vs" "unat (i + 1) + length vs' < 2 ^ 32"
      using Suc.prems(2) Cons index_step [of i "length vs'"] by simp_all
    have "fyields string_ok string_rest
        (cbor_elements fuel decode (i + 1) (of_nat (unat (i + 1) + length vs')) (acc @ [v]))
        (concat (map cbor_bytes vs') @ tail) (ARRAY ((acc @ [v]) @ vs')) tail"
      using Suc.prems(1) Cons i(2) by (intro Suc.IH) auto
    moreover have "fyields string_ok string_rest decode (cbor_bytes v @ concat (map cbor_bytes vs') @ tail) v
        (concat (map cbor_bytes vs') @ tail)"
      using Suc.prems(1) Cons by simp
    ultimately show ?thesis
      using index_compare [OF Suc.prems(2)] Cons i(1)
      by (auto intro!: fyields_bind simp del: of_nat_add)
  qed
qed simp

definition text_bytes :: "string \<Rightarrow> byte list" where
  "text_bytes k = cbor_head (of_nat (length k)) 3 @ map byte_of_char k"

lemma members_fyields:
  assumes "\<forall>kv\<in>set kvs. \<forall>tail. fyields string_ok string_rest decode (text_bytes (fst kv) @ tail) (STRING (fst kv)) tail
      \<and> fyields string_ok string_rest decode (cbor_bytes (snd kv) @ tail) (snd kv) tail"
    and "unat i + length kvs < 2 ^ 32" and "map_ok (acc @ kvs)"
  shows "fyields string_ok string_rest (cbor_members fuel decode i (of_nat (unat i + length kvs)) acc)
    (concat (map (\<lambda>kv. text_bytes (fst kv) @ cbor_bytes (snd kv)) kvs) @ tail) (OBJECT (acc @ kvs)) tail"
  using assms
proof (induction fuel arbitrary: i acc kvs)
  case (Suc fuel)
  show ?case
  proof (cases kvs)
    case Nil
    with index_compare [of i 0] Suc.prems(2) show ?thesis
      by (simp add: fyields_return del: of_nat_add chan_return_apply)
  next
    case (Cons kv kvs')
    let ?rest = "concat (map (\<lambda>kv. text_bytes (fst kv) @ cbor_bytes (snd kv)) kvs') @ tail"
    have i: "unat (i + 1) + length kvs' = unat i + length kvs" "unat (i + 1) + length kvs' < 2 ^ 32"
      using Suc.prems(2) Cons index_step [of i "length kvs'"] by simp_all
    have last: "map_insert (fst kv) (snd kv) acc = acc @ [kv]"
      using Suc.prems(3) Cons by (cases kv) (simp add: map_insert_next)
    have "fyields string_ok string_rest
        (cbor_members fuel decode (i + 1) (of_nat (unat (i + 1) + length kvs')) (acc @ [kv])) ?rest
        (OBJECT ((acc @ [kv]) @ kvs')) tail"
      using Suc.prems(1,3) Cons i(2) by (intro Suc.IH) auto
    moreover have "fyields string_ok string_rest decode (cbor_bytes (snd kv) @ ?rest) (snd kv) ?rest"
      "fyields string_ok string_rest decode (text_bytes (fst kv) @ cbor_bytes (snd kv) @ ?rest)
        (STRING (fst kv)) (cbor_bytes (snd kv) @ ?rest)"
      using Suc.prems(1) Cons by simp_all
    ultimately show ?thesis
      using index_compare [OF Suc.prems(2)] Cons i(1) last
      by (auto intro!: fyields_bind simp: cbor_key_def simp del: of_nat_add cbor_bytes.simps)
  qed
qed simp

lemma decode_head_fyields:
  assumes "major < 8"
    and "\<And>h input. drop_bit 5 h = major \<Longrightarrow> h AND 0x1f < 28 \<Longrightarrow>
      yields string_ok string_rest (cbor_read_int StringReader_methods h) input v left \<Longrightarrow>
      fyields string_ok string_rest (k h) input w final"
  shows "fyields string_ok string_rest (fuel_bind (fuel_lift (read_byte StringReader_methods)) k)
    (cbor_head v major @ left) w final"
proof -
  obtain h hs where h: "cbor_head v major = h # hs" "drop_bit 5 h = major" "h AND 0x1f < 28"
    "yields string_ok string_rest (cbor_read_int StringReader_methods h) (hs @ left) v left"
    using cbor_head_Cons [OF assms(1)] by metis
  have "yields string_ok string_rest (read_byte StringReader_methods) (h # hs @ left) h (hs @ left)"
    by (rule str.read_byte_yields) simp
  with h assms(2) show ?thesis by (auto intro!: fyields_bind fyields_lift)
qed

lemma not_indefinite: "h AND 0x1f < 28 \<Longrightarrow> h \<noteq> 0x9f \<and> h \<noteq> (0xbf :: byte)"
  by auto

lemma simple_fyields:
  assumes "(cbor_simple b :: (StringReader, 'f Value) chan) = chan_return v" "drop_bit 5 b = 7"
  shows "fyields string_ok string_rest (cbor_decode (Suc fuel) StringReader_methods) (b # tail) v tail"
proof -
  have "yields string_ok string_rest (read_byte StringReader_methods) (b # tail) b tail"
    by (rule str.read_byte_yields) simp
  then have "fyields string_ok string_rest (fuel_lift (read_byte StringReader_methods)) (b # tail) b tail"
    by (rule fyields_lift)
  then show ?thesis
    unfolding cbor_decode.simps
    by (rule fyields_bind) (simp only: cbor_dispatch_def Let_def assms, simp add: fyields_return del: chan_return_apply)
qed

lemma text_body:
  assumes "length s < 2 ^ 64"
    and "yields string_ok string_rest (cbor_read_int StringReader_methods h) input (of_nat (length s)) (map byte_of_char s @ tail)"
  shows "yields string_ok string_rest (chan_bind (cbor_read_int StringReader_methods h) (\<lambda>len.
      chan_bind (read_text StringReader_methods len) (\<lambda>s. chan_return (g s)))) input (g s) tail"
  by (rule yields_bind, rule assms(2), rule yields_bind, rule read_text_written [OF assms(1)], rule yields_return)

lemma simple_values:
  "cbor_simple 0xf4 = chan_return JFALSE" "cbor_simple 0xf5 = chan_return JTRUE"
  "cbor_simple 0xf6 = chan_return JNULL" "cbor_simple 0xf7 = chan_return UNDEFINED"
  by (simp_all add: cbor_simple_def cbor_dispatch_def Let_def del: chan_return_apply)

lemma text_fyields:
  assumes "length s < 2 ^ 64"
  shows "fyields string_ok string_rest (cbor_decode fuel StringReader_methods) (text_bytes s @ tail) (STRING s) tail"
proof (cases fuel)
  case (Suc f)
  show ?thesis
    unfolding Suc cbor_decode.simps text_bytes_def append_assoc
    by (rule decode_head_fyields) (simp_all add: cbor_dispatch_def Let_def fyields_lift text_body [OF assms])
qed simp

lemma decode_fyields:
  fixes v :: "'f Value"
  shows "encodable v \<Longrightarrow> fyields string_ok string_rest (cbor_decode fuel StringReader_methods) (cbor_bytes v @ tail) v tail"
proof (induction fuel arbitrary: v tail)
  case (Suc fuel)
  show ?case
  proof (cases v)
    case (INTEGER n)
    have "fyields string_ok string_rest (cbor_decode (Suc fuel) StringReader_methods) (cbor_head n 0 @ tail) (INTEGER n :: 'f Value) tail"
      "fyields string_ok string_rest (cbor_decode (Suc fuel) StringReader_methods) (cbor_head (- 1 - n) 1 @ tail) (INTEGER n :: 'f Value) tail"
      unfolding cbor_decode.simps
      by (rule decode_head_fyields; auto simp: cbor_dispatch_def Let_def intro!: fyields_lift yields_bind)+
    with INTEGER show ?thesis by (simp del: cbor_decode.simps)
  next
    case (STRING s)
    with Suc.prems text_fyields [of s "Suc fuel" tail] show ?thesis
      by (simp add: text_bytes_def del: cbor_decode.simps)
  next
    case (BINARY s)
    with Suc.prems have s: "length s < 2 ^ 64" by simp
    have "fyields string_ok string_rest (cbor_decode (Suc fuel) StringReader_methods)
        (cbor_head (of_nat (length s)) 2 @ map byte_of_char s @ tail) (BINARY s :: 'f Value) tail"
      unfolding cbor_decode.simps
      by (rule decode_head_fyields) (simp_all add: cbor_dispatch_def Let_def fyields_lift text_body [OF s])
    with BINARY show ?thesis by (simp del: cbor_decode.simps)
  next
    case (ARRAY vs)
    with Suc have "fyields string_ok string_rest
        (cbor_elements fuel (cbor_decode fuel StringReader_methods) 0 (of_nat (length vs)) [])
        (concat (map cbor_bytes vs) @ tail) (ARRAY vs) tail"
      using elements_fyields [of vs "cbor_decode fuel StringReader_methods" 0 fuel "[]" tail]
      by (auto simp: list_all_iff)
    then have "fyields string_ok string_rest (cbor_decode (Suc fuel) StringReader_methods)
        (cbor_head (of_nat (length vs)) 4 @ concat (map cbor_bytes vs) @ tail) (ARRAY vs) tail"
      unfolding cbor_decode.simps
      by (intro decode_head_fyields) (auto simp: cbor_dispatch_def Let_def not_indefinite intro!: fyields_bind [OF fyields_lift])
    with ARRAY show ?thesis by (simp del: cbor_decode.simps)
  next
    case (OBJECT kvs)
    let ?body = "concat (map (\<lambda>kv. text_bytes (fst kv) @ cbor_bytes (snd kv)) kvs)"
    from OBJECT Suc have "fyields string_ok string_rest
        (cbor_members fuel (cbor_decode fuel StringReader_methods) 0 (of_nat (length kvs)) []) (?body @ tail) (OBJECT kvs) tail"
      using members_fyields [of kvs "cbor_decode fuel StringReader_methods" 0 "[]" fuel tail]
      by (auto simp: list_all_iff text_fyields)
    then have "fyields string_ok string_rest (cbor_decode (Suc fuel) StringReader_methods)
        (cbor_head (of_nat (length kvs)) 5 @ ?body @ tail) (OBJECT kvs) tail"
      unfolding cbor_decode.simps
      by (intro decode_head_fyields) (auto simp: cbor_dispatch_def Let_def not_indefinite intro!: fyields_bind [OF fyields_lift])
    with OBJECT show ?thesis by (simp add: text_bytes_def del: cbor_decode.simps)
  qed (use Suc.prems in \<open>auto intro!: simple_fyields simp: simple_values simp del: cbor_decode.simps chan_return_apply\<close>)
qed simp

section \<open>Termination of the decoder\<close>

text \<open>
  \<open>consumes k m\<close>: the operation keeps the reader's invariant, never gives data back, and takes at
  least \<open>k\<close> bytes when it succeeds.
\<close>

abbreviation bytes_left :: "StringReader \<Rightarrow> nat" where
  "bytes_left s \<equiv> length (string_rest s)"

definition consumes :: "nat \<Rightarrow> (StringReader, 'a) chan \<Rightarrow> bool" where
  "consumes k m \<longleftrightarrow> (\<forall>s. string_ok s \<longrightarrow> advanced string_ok bytes_left k s (m s))"

lemma consumes_return: "consumes 0 (chan_return a)"
  by (simp add: consumes_def advanced_def)

lemma consumes_throw: "consumes k (chan_throw e)"
  by (simp add: consumes_def advanced_def)

lemma consumes_weaken: "consumes k m \<Longrightarrow> j \<le> k \<Longrightarrow> consumes j m"
  unfolding consumes_def advanced_def by fastforce

lemma consumes_bind:
  assumes "consumes k m" "\<And>a. consumes j (f a)"
  shows "consumes (k + j) (chan_bind m f)"
  unfolding consumes_def
proof (intro allI impI)
  fix s assume "string_ok s"
  obtain res s' where m: "m s = (res, s')" by fastforce
  with assms(1) \<open>string_ok s\<close> have adv: "advanced string_ok bytes_left k s (res, s')" by (auto simp: consumes_def)
  show "advanced string_ok bytes_left (k + j) s (chan_bind m f s)"
  proof (cases res)
    case (Inl e)
    with m adv show ?thesis by (simp add: advanced_def)
  next
    case (Inr a)
    with m adv assms(2) [of a] have "advanced string_ok bytes_left j s' (f a s')" by (simp add: consumes_def advanced_def)
    with m adv Inr show ?thesis by (auto simp: advanced_def)
  qed
qed

lemma consumes_read: "consumes n (reader_read StringReader_methods n)"
  unfolding consumes_def
proof (intro allI impI)
  fix s assume s: "string_ok s"
  show "advanced string_ok bytes_left n s (reader_read StringReader_methods n s)"
  proof (cases "n \<le> length (string_rest s)")
    case True
    with s string_read_yields [of n "string_rest s"] show ?thesis
      unfolding yields_def by (fastforce simp: advanced_def)
  next
    case False
    with s str.read_fails [OF StringReader_try_read, of "string_rest s" n] show ?thesis
      unfolding fails_def by (fastforce simp: advanced_def)
  qed
qed

lemma consumes_ints:
  "consumes 1 (read_byte StringReader_methods)" "consumes 2 (read_nbo_16 StringReader_methods)"
  "consumes 4 (read_nbo_32 StringReader_methods)" "consumes 8 (read_nbo_64 StringReader_methods)"
proof -
  have bind: "consumes k (chan_bind m f)" if "consumes k m" "\<And>a. consumes 0 (f a)" for k m f
    using consumes_bind [OF that] by simp
  show "consumes 1 (read_byte StringReader_methods)" "consumes 2 (read_nbo_16 StringReader_methods)"
    and b4: "consumes 4 (read_nbo_32 StringReader_methods)"
    by (simp_all only: read_byte_def read_nbo_16_def read_nbo_32_def bind consumes_read consumes_return)
  have "consumes (4 + 4) (read_nbo_64 StringReader_methods)"
    unfolding read_nbo_64_def by (intro consumes_bind [OF b4] bind [OF b4] consumes_return)
  then show "consumes 8 (read_nbo_64 StringReader_methods)" by simp
qed

lemma consumes_seq: "consumes k m \<Longrightarrow> (\<And>a. consumes 0 (f a)) \<Longrightarrow> consumes 0 (chan_bind m f)"
  using consumes_bind [of 0 m 0 f] by (simp add: consumes_weaken [of k m])

lemma consumes_read_int: "consumes 0 (cbor_read_int StringReader_methods b)"
  unfolding cbor_read_int_def Let_def
  by (simp add: consumes_seq [OF consumes_ints(1) consumes_return] consumes_seq [OF consumes_ints(2) consumes_return]
      consumes_seq [OF consumes_ints(3) consumes_return] consumes_weaken [OF consumes_ints(4), of 0]
      consumes_return consumes_throw del: chan_return_apply chan_throw_apply)

lemma consumes_read_text: "consumes 0 (read_text StringReader_methods len)"
  unfolding consumes_def
proof (intro allI impI)
  fix s assume s: "string_ok s"
  show "advanced string_ok bytes_left 0 s (read_text StringReader_methods len s)"
  proof (cases "unat len \<le> length (string_rest s)")
    case True
    with s read_text_yields [of len "string_rest s"] show ?thesis
      unfolding yields_def by (fastforce simp: advanced_def)
  next
    case False
    with s obtain s' str' where "reader_read_string StringReader_methods (unat len) ([], s)
        = (Inl (Error 0 ''EOF in string''), (str', s'))" "string_ok s'" "string_rest s' = []"
      using str.read_string_short [OF StringReader_try_read_string, of s "unat len" "[]"] by auto
    then show ?thesis by (simp add: advanced_def read_text_def)
  qed
qed

lemma returns_lift: "consumes k m \<Longrightarrow> returns string_ok bytes_left n k (fuel_lift m)"
  by (simp add: consumes_def returns_def fuel_lift_def)

lemma returns_elements:
  assumes "returns string_ok bytes_left n 1 decode"
  shows "n < fuel \<Longrightarrow> returns string_ok bytes_left n 0 (cbor_elements fuel decode i len vs)"
    and "n < fuel \<Longrightarrow> returns string_ok bytes_left n 0 (cbor_elements_indefinite fuel decode vs)"
  using assms
proof (induction fuel arbitrary: n i vs)
  case (Suc fuel)
  {
    case 1
    have "returns string_ok bytes_left n (1 + 0) (fuel_bind decode (\<lambda>v. cbor_elements fuel decode (i + 1) len (vs @ [v])))"
      using 1 by (intro returns_bind Suc.IH(1)) (auto intro: returns_mono)
    then show ?case
      by (auto intro: returns_mono returns_lift consumes_return simp del: chan_return_apply)
  next
    case 2
    have "returns string_ok bytes_left n (1 + 0) (fuel_bind decode (\<lambda>v. case v of BREAK \<Rightarrow> fuel_lift (chan_return (ARRAY vs))
        | _ \<Rightarrow> cbor_elements_indefinite fuel decode (vs @ [v])))"
      using 2 by (intro returns_bind) (auto intro!: Suc.IH(2) returns_lift consumes_return intro: returns_mono
          simp del: chan_return_apply split: Value.split)
    then show ?case by (auto intro: returns_mono)
  }
qed simp_all

lemma returns_members:
  assumes "returns string_ok bytes_left n 1 decode"
  shows "n < fuel \<Longrightarrow> returns string_ok bytes_left n 0 (cbor_members fuel decode i len kvs)"
    and "n < fuel \<Longrightarrow> returns string_ok bytes_left n 0 (cbor_members_indefinite fuel decode kvs)"
  using assms
proof (induction fuel arbitrary: n i kvs)
  case (Suc fuel)
  {
    case 1
    then have sub: "returns string_ok bytes_left m 1 decode" if "m \<le> n" for m using that by (auto intro: returns_mono)
    have "returns string_ok bytes_left n (1 + 0) (fuel_bind decode (\<lambda>key. case cbor_key key of
          Some k \<Rightarrow> fuel_bind decode (\<lambda>v. cbor_members fuel decode (i + 1) len (map_insert k v kvs))
        | None \<Rightarrow> fuel_lift (chan_throw key_error)))"
      using 1 sub by (intro returns_bind)
        (auto intro!: returns_progress Suc.IH(1)
          returns_lift consumes_throw simp del: chan_throw_apply split: option.split)
    then have "returns string_ok bytes_left n 0 (fuel_bind decode (\<lambda>key. case cbor_key key of
          Some k \<Rightarrow> fuel_bind decode (\<lambda>v. cbor_members fuel decode (i + 1) len (map_insert k v kvs))
        | None \<Rightarrow> fuel_lift (chan_throw key_error)))"
      by (rule returns_mono) simp_all
    then show ?case
      by (simp add: returns_lift consumes_return del: chan_return_apply)
  next
    case 2
    then have sub: "returns string_ok bytes_left m 1 decode" if "m \<le> n" for m using that by (auto intro: returns_mono)
    have "returns string_ok bytes_left n (1 + 0) (fuel_bind decode (\<lambda>key. case key of BREAK \<Rightarrow> fuel_lift (chan_return (OBJECT kvs))
        | _ \<Rightarrow> (case cbor_key key of
            Some k \<Rightarrow> fuel_bind decode (\<lambda>v. cbor_members_indefinite fuel decode (map_insert k v kvs))
          | None \<Rightarrow> fuel_lift (chan_throw key_error))))"
      using 2 sub by (intro returns_bind)
        (auto intro!: returns_progress Suc.IH(2)
          returns_lift consumes_throw consumes_return simp del: chan_throw_apply chan_return_apply
          split: option.split Value.split)
    then show ?case unfolding cbor_members_indefinite.simps by (rule returns_mono) simp_all
  }
qed simp_all

lemma consumes_simple: "consumes 0 (cbor_simple b)"
  by (simp add: cbor_simple_def Let_def consumes_return consumes_throw del: chan_return_apply chan_throw_apply)

lemma returns_seq: "consumes k m \<Longrightarrow> (\<And>a. returns string_ok bytes_left n 0 (f a)) \<Longrightarrow> returns string_ok bytes_left n 0 (fuel_bind (fuel_lift m) f)"
  using returns_bind [of string_ok bytes_left n 0 "fuel_lift m" 0 f] by (simp add: returns_lift consumes_weaken [of k m])

lemma returns_dispatch:
  fixes decode :: "(StringReader, 'f Value) fchan"
  assumes "returns string_ok bytes_left n 1 decode" "n < fuel"
  shows "returns string_ok bytes_left n 0 (cbor_dispatch fuel StringReader_methods decode b)"
proof -
  note loops = returns_elements [OF assms] returns_members [OF assms]
  have tag: "returns string_ok bytes_left n 0 (fuel_bind decode (\<lambda>v. fuel_lift (chan_return (g v))))" for g :: "'f Value \<Rightarrow> 'f Value"
    by (rule returns_progress [OF assms(1)]) (rule returns_lift [OF consumes_return])
  show ?thesis
    unfolding cbor_dispatch_def Let_def
    by (auto intro!: tag loops returns_seq [OF consumes_read_int] returns_seq [OF consumes_ints(1)]
        returns_seq [OF consumes_return] returns_lift consumes_seq [OF consumes_read_int]
        consumes_seq [OF consumes_read_text] consumes_return consumes_throw consumes_simple
        simp del: chan_return_apply chan_throw_apply)
qed

lemma returns_decode: "n < fuel \<Longrightarrow> returns string_ok bytes_left n 1 (cbor_decode fuel StringReader_methods :: (StringReader, 'f Value) fchan)"
proof (induction fuel arbitrary: n)
  case (Suc fuel)
  have "returns string_ok bytes_left n (1 + 0) (cbor_decode (Suc fuel) StringReader_methods :: (StringReader, 'f Value) fchan)"
    unfolding cbor_decode.simps
    by (intro returns_bind returns_lift consumes_ints returns_dispatch Suc.IH) (use Suc.prems in auto)
  then show ?case by simp
qed simp

section \<open>Properties\<close>

text \<open>
  C28: The CBOR decoder always terminates on in-memory data. Whatever the bytes, well-formed or
  not, \<open>n + 1\<close> nested calls or loop rounds are enough for \<open>n\<close> bytes: the decoder returns a value,
  having consumed at least one byte, or throws.
\<close>

theorem cbor_decode_terminates:
  assumes "string_ok s" "length (string_rest s) < fuel"
  shows "\<exists>res s'. cbor_decode fuel StringReader_methods s = Some (res :: chan_error + 'f Value, s')
    \<and> string_ok s' \<and> (isl res \<or> length (string_rest s') < length (string_rest s))"
proof -
  from returns_decode [OF assms(2), where ?'f = 'f] assms(1)
  obtain p where "cbor_decode fuel StringReader_methods s = Some p" "advanced string_ok bytes_left 1 s (p :: (chan_error + 'f Value) \<times> _)"
    unfolding returns_def by blast
  then show ?thesis by (cases p) (auto simp: advanced_def)
qed

theorem cbor_decode_terminates_witness:
  "\<exists>res s'. cbor_decode 5 StringReader_methods (string_reader [0x9f, 0x01, 0xff]) = Some (res :: chan_error + nat Value, s')"
  using cbor_decode_terminates [of "string_reader [0x9f, 0x01, 0xff]" 5] by (auto simp: string_ok_initial)

text \<open>
  C2: CBOR round trip. Every value built of integers, strings, binaries, booleans, null, undefined,
  arrays and objects (with sizes the 32-bit member counter can reach) is decoded from its own
  encoding exactly, and the decoder stops where the encoding ends.
\<close>

theorem cbor_roundtrip:
  fixes v :: "'f Value"
  assumes "encodable v" "length (json_cbor v @ tail) < 2 ^ 64"
  shows "\<exists>s'. cbor_decode (length (json_cbor v @ tail) + 1) StringReader_methods (string_reader (json_cbor v @ tail))
      = Some (Inr v, s') \<and> string_rest s' = tail"
proof -
  let ?s = "string_reader (json_cbor v @ tail)" and ?fuel = "length (json_cbor v @ tail) + 1"
  have s: "string_ok ?s" "string_rest ?s = cbor_bytes v @ tail"
    using string_ok_initial [OF assms(2)] by (simp_all add: json_cbor_bytes)
  have "cbor_decode ?fuel StringReader_methods ?s \<noteq> (None :: ((chan_error + 'f Value) \<times> _) option)"
    using returns_decode [of "length (json_cbor v @ tail)" ?fuel, where ?'f = 'f] s
    unfolding returns_def by (auto simp: json_cbor_bytes)
  then show ?thesis using decode_fyields [OF assms(1), of ?fuel tail] s unfolding fyields_def by metis
qed

theorem cbor_roundtrip_witness:
  "\<exists>s'. cbor_decode 9 StringReader_methods (string_reader (json_cbor (ARRAY [INTEGER 24, STRING ''ab'', JTRUE :: nat Value]) @ [7]))
      = Some (Inr (ARRAY [INTEGER 24, STRING ''ab'', JTRUE :: nat Value]), s') \<and> string_rest s' = [7]"
proof -
  let ?v = "ARRAY [INTEGER 24, STRING ''ab'', JTRUE :: nat Value]"
  have len: "length (json_cbor ?v @ [7]) + 1 = 9" "length (json_cbor ?v @ [7]) < 2 ^ 64" and "encodable ?v"
    by (simp_all add: json_cbor_bytes cbor_head_def)
  with cbor_roundtrip [of ?v "[7]"] show ?thesis by (simp only: len)
qed

section \<open>Where the codec loses data\<close>

text \<open>A floating point number is encoded as nothing at all, so a container around it is cut short.\<close>

lemma cbor_number_lost:
  "json_cbor (NUMBER f) = []" "json_cbor (ARRAY [NUMBER f, INTEGER 1]) = [0x82, 0x01]"
  by (simp_all add: json_cbor_bytes cbor_head_def)

text \<open>An integer object key goes through a 32-bit conversion: \<open>2\<^sup>3\<^sup>2 + 1\<close> becomes the key \<open>1\<close>.\<close>

lemma cbor_key_truncated: "cbor_key (INTEGER 0x100000001) = Some ''1''"
  by (simp add: cbor_key_def itos_def print_digits.simps digit_char_def)

end
