(* ===== verification/Lex.thy ===== *)
theory Lex
  imports Convert Utf8
begin

text \<open>
  The lexical analyser of libs/lex (ot-lex.h, analyser.cc). The input stream is the text still to be
  read; \<^verbatim>\<open>get\<close> and \<^verbatim>\<open>peek\<close> return the NUL character at its end, which the source treats as the end
  wherever it appears. An exception is the left value of a sum and keeps the input consumed so far.
\<close>

section \<open>Tokens and the analyser\<close>

datatype token_type = T_UNKNOWN | T_END | T_NAME | T_NUMBER | T_STRING | T_SYMBOL

record Token =
  tok_type :: token_type
  tok_value :: string

definition token :: "token_type \<Rightarrow> string \<Rightarrow> Token" where
  "token t v = \<lparr> tok_type = t, tok_value = v \<rparr>"

record Analyser =
  an_input :: string
  allow_alphanum_names :: bool
  allow_dash_in_names :: bool
  an_symbols :: "string list"
  pending_tokens :: "Token list"
  line_comment_symbol :: string

definition analyser :: "string \<Rightarrow> Analyser" where
  "analyser input = \<lparr> an_input = input, allow_alphanum_names = True, allow_dash_in_names = False,
     an_symbols = [], pending_tokens = [], line_comment_symbol = [] \<rparr>"

definition add_symbol :: "string \<Rightarrow> Analyser \<Rightarrow> Analyser" where
  "add_symbol symbol an = an \<lparr> an_symbols := an_symbols an @ [symbol] \<rparr>"

definition add_line_comment_symbol :: "string \<Rightarrow> Analyser \<Rightarrow> Analyser" where
  "add_line_comment_symbol symbol an = (add_symbol symbol an) \<lparr> line_comment_symbol := symbol \<rparr>"

definition disallow_alphanum_names :: "Analyser \<Rightarrow> Analyser" where
  "disallow_alphanum_names an = an \<lparr> allow_alphanum_names := False \<rparr>"

definition allow_dashed_names :: "Analyser \<Rightarrow> Analyser" where
  "allow_dashed_names an = an \<lparr> allow_dash_in_names := True \<rparr>"

definition put_back :: "Token \<Rightarrow> Analyser \<Rightarrow> Analyser" where
  "put_back tok an = an \<lparr> pending_tokens := tok # pending_tokens an \<rparr>"

section \<open>Reading tokens\<close>

abbreviation NUL :: char where
  "NUL \<equiv> CHR 0x00"

definition lex_peek :: "string \<Rightarrow> char" where
  "lex_peek input = (case input of [] \<Rightarrow> NUL | c # _ \<Rightarrow> c)"

definition name_char :: "Analyser \<Rightarrow> char \<Rightarrow> bool" where
  "name_char an c \<longleftrightarrow> isalpha c \<or> (isdigit c \<and> allow_alphanum_names an) \<or> c = CHR ''_''
     \<or> (allow_dash_in_names an \<and> c = CHR ''-'')"

definition read_name_token :: "Analyser \<Rightarrow> char \<Rightarrow> string \<Rightarrow> (string + Token) \<times> string" where
  "read_name_token an c input =
     (Inr (token T_NAME (c # takeWhile (name_char an) input)), dropWhile (name_char an) input)"

text \<open>The exponent of a number, after its \<^verbatim>\<open>e\<close>; \<open>val\<close> is the text read so far.\<close>

definition exponent_digits :: "string \<Rightarrow> char \<Rightarrow> string \<Rightarrow> (string + Token) \<times> string" where
  "exponent_digits val c input =
     (if isdigit c
      then (Inr (token T_NUMBER (val @ [c] @ takeWhile isdigit input)), dropWhile isdigit input)
      else (Inl ''Bad character in number exponent'', input))"

definition read_exponent :: "string \<Rightarrow> string \<Rightarrow> (string + Token) \<times> string" where
  "read_exponent val input =
     (case input of
        [] \<Rightarrow> (Inl ''End of input in number exponent'', [])
      | c # input' \<Rightarrow>
          if c = NUL then (Inl ''End of input in number exponent'', input')
          else if c = CHR ''+'' \<or> c = CHR ''-'' then
            (case input' of
               [] \<Rightarrow> (Inl ''End of input in number exponent'', [])
             | d # input'' \<Rightarrow>
                 if d = NUL then (Inl ''End of input in number exponent'', input'')
                 else exponent_digits (val @ [c]) d input'')
          else exponent_digits val c input')"

definition read_number_token :: "char \<Rightarrow> string \<Rightarrow> (string + Token) \<times> string" where
  "read_number_token c input =
     (let val = c # takeWhile isdigit input; input = dropWhile isdigit input;
          (val, input) =
            (if lex_peek input = CHR ''.''
             then (val @ ''.'' @ takeWhile isdigit (tl input), dropWhile isdigit (tl input))
             else (val, input))
      in if lex_peek input = CHR ''e'' \<or> lex_peek input = CHR ''E''
         then read_exponent (val @ [lex_peek input]) (tl input)
         else (Inr (token T_NUMBER val), input))"

definition simple_escape :: "char \<Rightarrow> char option" where
  "simple_escape c =
     (if c = CHR ''/'' \<or> c = CHR 0x5c \<or> c = CHR 0x22 then Some c
      else if c = CHR ''b'' then Some (CHR 0x08)
      else if c = CHR ''f'' then Some (CHR 0x0c)
      else if c = CHR ''n'' then Some (CHR 0x0a)
      else if c = CHR ''r'' then Some (CHR 0x0d)
      else if c = CHR ''t'' then Some (CHR 0x09)
      else None)"

text \<open>The hex digits of a \<^verbatim>\<open>\u\<close> escape, and the input after them; \<open>None\<close> at the end of the input.\<close>

primrec escape_digits :: "nat \<Rightarrow> string \<Rightarrow> string option \<times> string" where
  "escape_digits 0 input = (Some [], input)"
| "escape_digits (Suc n) input =
     (case input of
        [] \<Rightarrow> (None, [])
      | c # input' \<Rightarrow>
          if c = NUL then (None, input')
          else (case escape_digits n input' of (hex, input'') \<Rightarrow> (map_option (\<lambda>h. c # h) hex, input'')))"

lemma escape_digits_length: "length (snd (escape_digits n input)) \<le> length input"
proof (induction n arbitrary: input)
  case (Suc n)
  show ?case
  proof (cases input)
    case (Cons c input')
    with Suc [of input'] show ?thesis by (auto split: prod.split)
  qed simp
qed simp

function read_string_token :: "string \<Rightarrow> string \<Rightarrow> (string + Token) \<times> string" where
  "read_string_token val [] = (Inl ''End of input in string'', [])"
| "read_string_token val (c # input) =
     (if c = NUL then (Inl ''End of input in string'', input)
      else if c = CHR 0x22 then (Inr (token T_STRING val), input)
      else if c = CHR 0x5c then
        (case input of
           [] \<Rightarrow> (Inl ''End of input in escape'', [])
         | e # input' \<Rightarrow>
             if e = NUL then (Inl ''End of input in escape'', input')
             else if e = CHR ''u'' then
               (case fst (escape_digits 4 input') of
                  None \<Rightarrow> (Inl (''End of input in '' @ [CHR 0x5c] @ ''u escape''), snd (escape_digits 4 input'))
                | Some hex \<Rightarrow> read_string_token (utf8_append val (xtoi hex)) (snd (escape_digits 4 input')))
             else (case simple_escape e of
                     None \<Rightarrow> (Inl (''Unrecognised string escape '' @ [CHR 0x27, e, CHR 0x27]), input')
                   | Some d \<Rightarrow> read_string_token (val @ [d]) input'))
      else read_string_token (val @ [c]) input)"
  by pat_completeness auto
termination
proof (relation "measure (\<lambda>(val, input). length input)")
  fix val hex :: string and c e :: char and input input' :: string
  assume "input = e # input'"
  then show "((utf8_append val (xtoi hex), snd (escape_digits 4 input')), val, c # input)
      \<in> measure (\<lambda>(val, input). length input)"
    using escape_digits_length [of 4 input'] by simp
qed auto

text \<open>
  The symbol loop: \<open>symbol\<close> is what has been matched with one character looked ahead; it goes on
  while the symbol is a prefix of some entry of the symbol list.
\<close>

definition symbol_prefix :: "string list \<Rightarrow> string \<Rightarrow> bool" where
  "symbol_prefix symbols symbol \<longleftrightarrow> list_ex (\<lambda>candidate. take (length symbol) candidate = symbol) symbols"

lemma symbol_prefix_length: "symbol_prefix symbols symbol \<Longrightarrow> length symbol \<le> sum_list (map length symbols)"
proof -
  assume "symbol_prefix symbols symbol"
  then obtain s where "s \<in> set symbols" "take (length symbol) s = symbol"
    by (auto simp: symbol_prefix_def list_ex_iff)
  moreover from this(2) have "length symbol \<le> length s" by (metis length_take min.bounded_iff order_refl)
  moreover have "length s \<le> sum_list (map length symbols)"
    using \<open>s \<in> set symbols\<close> by (intro member_le_sum_list) simp_all
  ultimately show ?thesis by simp
qed

function read_symbol_loop :: "string list \<Rightarrow> char \<Rightarrow> string \<Rightarrow> string \<Rightarrow> (string + Token) \<times> string" where
  "read_symbol_loop symbols c symbol input =
     (if symbol_prefix symbols symbol
      then let input = (if length symbol > 1 then tl input else input)
           in read_symbol_loop symbols c (symbol @ [lex_peek input]) input
      else if length symbol = 1
      then (Inl (''Unrecognised token near '' @ [CHR 0x27, c, CHR 0x27]), input)
      else (Inr (token T_SYMBOL (take (length symbol - 1) symbol)), input))"
  by pat_completeness auto
termination
  by (relation "measure (\<lambda>(symbols, c, symbol, input). Suc (sum_list (map length symbols)) - length symbol)")
    (auto dest: symbol_prefix_length)

definition read_symbol_token :: "string list \<Rightarrow> char \<Rightarrow> string \<Rightarrow> (string + Token) \<times> string" where
  "read_symbol_token symbols c input = read_symbol_loop symbols c [c] input"

text \<open>A line comment is skipped up to the end of its line or of the input.\<close>

definition skip_comment :: "string \<Rightarrow> string" where
  "skip_comment input = tl (dropWhile (\<lambda>c. c \<noteq> NUL \<and> c \<noteq> CHR 0x0a) input)"

declare read_symbol_loop.simps [simp del]

lemma read_symbol_loop_length: "length (snd (read_symbol_loop symbols c symbol input)) \<le> length input"
proof (induction symbols c symbol input rule: read_symbol_loop.induct)
  case (1 symbols c symbol input)
  then show ?case
    using read_symbol_loop.simps [of symbols c symbol input] by (auto simp: Let_def split: if_splits)
qed

lemma skip_comment_length: "length (skip_comment input) \<le> length input"
  unfolding skip_comment_def by (simp add: length_dropWhile_le le_diff_conv2 le_trans [OF diff_le_self])

lemma lex_scan_smaller:
  assumes "dropWhile isspace input = c # input'" "(res, rest) = read_symbol_token symbols c input'"
  shows "length (skip_comment rest) < length input"
proof -
  have "length (c # input') \<le> length input" using assms(1) by (metis length_dropWhile_le)
  moreover have "length rest \<le> length input'"
    using assms(2) read_symbol_loop_length [of symbols c "[c]" input']
    by (metis read_symbol_token_def snd_conv)
  ultimately show ?thesis using skip_comment_length [of rest] by simp
qed

function lex_scan :: "Analyser \<Rightarrow> string \<Rightarrow> (string + Token) \<times> string" where
  "lex_scan an input =
     (case dropWhile isspace input of
        [] \<Rightarrow> (Inr (token T_END []), [])
      | c # input' \<Rightarrow>
          if c = NUL then (Inr (token T_END []), input')
          else if isalpha c \<or> c = CHR ''_'' then read_name_token an c input'
          else if isdigit c then read_number_token c input'
          else if c = CHR 0x22 then read_string_token [] input'
          else if c = CHR ''-'' then
            (if isdigit (lex_peek input') \<or> lex_peek input' = CHR ''.''
             then read_number_token c input' else read_symbol_token (an_symbols an) c input')
          else if c = CHR ''.'' then
            (if isdigit (lex_peek input')
             then read_number_token c input' else read_symbol_token (an_symbols an) c input')
          else let (res, rest) = read_symbol_token (an_symbols an) c input'
               in case res of
                    Inl e \<Rightarrow> (Inl e, rest)
                  | Inr tok \<Rightarrow>
                      if tok_type tok = T_SYMBOL \<and> tok_value tok = line_comment_symbol an
                      then lex_scan an (skip_comment rest)
                      else (Inr tok, rest))"
  by pat_completeness auto
termination
  by (relation "measure (\<lambda>(an, input). length input)") (auto dest: lex_scan_smaller)

definition read_token :: "Analyser \<Rightarrow> (string + Token) \<times> Analyser" where
  "read_token an =
     (case pending_tokens an of
        tok # pending \<Rightarrow> (Inr tok, an \<lparr> pending_tokens := pending \<rparr>)
      | [] \<Rightarrow> (case lex_scan an (an_input an) of (res, input) \<Rightarrow> (res, an \<lparr> an_input := input \<rparr>)))"

declare lex_scan.simps [simp del]

section \<open>Every token uses up input\<close>

lemma read_string_length: "length (snd (read_string_token val input)) \<le> length input"
proof (induction "length input" arbitrary: val input rule: less_induct)
  case less
  show ?case
  proof (cases input)
    case (Cons c input')
    have shorter: "length (snd (read_string_token v r)) \<le> Suc (length input')" if "length r \<le> length input'" for v r
      using less [of r v] that Cons by simp
    show ?thesis
    proof (cases "c = CHR 0x5c \<and> input' \<noteq> []")
      case True
      then obtain e r where r: "input' = e # r" by (cases input') auto
      have "length (snd (escape_digits 4 r)) \<le> length input'"
        using escape_digits_length [of 4 r] r by simp
      with Cons True r shorter show ?thesis
        by (auto split: option.split simp: le_SucI)
    next
      case False
      with Cons shorter [of input'] show ?thesis by (auto simp: le_SucI)
    qed
  qed simp
qed

lemma exponent_length:
  "length (snd (exponent_digits val c input)) \<le> length input"
  "length (snd (read_exponent val input)) \<le> length input"
proof -
  show digits: "length (snd (exponent_digits val c input)) \<le> length input" for val c input
    by (simp add: exponent_digits_def length_dropWhile_le)
  show "length (snd (read_exponent val input)) \<le> length input"
  proof (cases input)
    case (Cons c r)
    show ?thesis
    proof (cases r)
      case Nil
      with Cons digits [of val c r] show ?thesis by (simp add: read_exponent_def)
    next
      case (Cons d r')
      with \<open>input = c # r\<close> digits [of val c r] digits [of "val @ ''+''" d r'] digits [of "val @ ''-''" d r'] show ?thesis
        by (simp add: read_exponent_def)
    qed
  qed (simp add: read_exponent_def)
qed

lemma read_number_length: "length (snd (read_number_token c input)) \<le> length input"
proof -
  define r where "r = dropWhile isdigit input"
  define r' where "r' = (if lex_peek r = CHR ''.'' then dropWhile isdigit (tl r) else r)"
  have r: "length r \<le> length input" by (simp add: r_def length_dropWhile_le)
  have "length (dropWhile isdigit (tl r)) \<le> length r" by (rule le_trans [OF length_dropWhile_le]) simp
  with r have "length r' \<le> length input" by (simp add: r'_def)
  moreover have "snd (read_number_token c input) = r' \<or> (\<exists>v. snd (read_number_token c input) = snd (read_exponent v (tl r')))"
    by (auto simp: read_number_token_def Let_def r_def r'_def)
  moreover have "length (snd (read_exponent v (tl r'))) \<le> length r'" for v
    using exponent_length(2) [of v "tl r'"] by simp
  ultimately show ?thesis by (metis le_trans)
qed

definition token_weight :: "Token \<Rightarrow> nat" where
  "token_weight tok = (if tok_type tok = T_END then 0 else 1)"

lemma token_weight_le: "token_weight tok \<le> 1"
  by (simp add: token_weight_def)

lemma token_weight_end [simp]: "token_weight (token T_END v) = 0"
  by (simp add: token_weight_def token_def)

lemma read_symbol_length: "length (snd (read_symbol_token symbols c input)) \<le> length input"
  by (simp add: read_symbol_token_def read_symbol_loop_length)

text \<open>
  A token read from the input, the end of input apart, is paid for with at least one character.
\<close>

lemma lex_scan_progress:
  "length (snd (lex_scan an input)) + (case fst (lex_scan an input) of Inl e \<Rightarrow> 0 | Inr tok \<Rightarrow> token_weight tok)
   \<le> length input"
proof (induction an input rule: lex_scan.induct)
  case (1 an input)
  show ?case
  proof (cases "dropWhile isspace input")
    case (Cons c r)
    then have len: "Suc (length r) \<le> length input" using length_dropWhile_le [of isspace input] by simp
    have pay: "length (snd p) + (case fst p of Inl e \<Rightarrow> 0 | Inr tok \<Rightarrow> token_weight tok) \<le> length input"
      if "length (snd p) \<le> length r" for p :: "(string + Token) \<times> string"
    proof (cases "fst p")
      case (Inr tok)
      with that len token_weight_le [of tok] show ?thesis by simp
    qed (use that len in simp)
    obtain res rest where sym: "read_symbol_token (an_symbols an) c r = (res, rest)" by fastforce
    then have "length rest \<le> length r" using read_symbol_length [of "an_symbols an" c r] by simp
    have pieces: "length (snd (read_name_token an c r)) \<le> length r" "length (snd (read_number_token c r)) \<le> length r"
      "length (snd (read_string_token [] r)) \<le> length r" "length (snd (read_symbol_token (an_symbols an) c r)) \<le> length r"
      by (simp_all add: read_name_token_def length_dropWhile_le read_number_length read_string_length read_symbol_length)
    note unfold = lex_scan.simps [of an input] Cons
    consider "c = NUL" | "c \<noteq> NUL" "isalpha c \<or> c = CHR ''_'' \<or> isdigit c \<or> c = CHR 0x22 \<or> c = CHR ''-'' \<or> c = CHR ''.''"
      | "c \<noteq> NUL" "\<not> (isalpha c \<or> c = CHR ''_'' \<or> isdigit c \<or> c = CHR 0x22 \<or> c = CHR ''-'' \<or> c = CHR ''.'')" by blast
    then show ?thesis
    proof cases
      case 1
      with len show ?thesis by (simp add: unfold)
    next
      case 2
      then have "lex_scan an input \<in> {read_name_token an c r, read_number_token c r, read_string_token [] r,
          read_symbol_token (an_symbols an) c r}"
        by (auto simp: unfold)
      then have "length (snd (lex_scan an input)) \<le> length r" using pieces by auto
      then show ?thesis by (rule pay)
    next
      case 3
      show ?thesis
      proof (cases "\<exists>tok. res = Inr tok \<and> tok_type tok = T_SYMBOL \<and> tok_value tok = line_comment_symbol an")
        case True
        then have "lex_scan an input = lex_scan an (skip_comment rest)" using 3 sym by (auto simp: unfold)
        moreover have "length (skip_comment rest) \<le> length input"
          using skip_comment_length [of rest] \<open>length rest \<le> length r\<close> len by simp
        moreover have "length (snd (lex_scan an (skip_comment rest)))
            + (case fst (lex_scan an (skip_comment rest)) of Inl e \<Rightarrow> 0 | Inr tok \<Rightarrow> token_weight tok)
            \<le> length (skip_comment rest)"
          using True 3 sym Cons by (intro 1) auto
        ultimately show ?thesis by simp
      next
        case False
        with 3 sym have "lex_scan an input = (res, rest)" by (cases res) (auto simp: unfold)
        with pay [of "(res, rest)"] \<open>length rest \<le> length r\<close> show ?thesis by simp
      qed
    qed
  next
    case Nil
    then have "lex_scan an input = (Inr (token T_END []), [])"
      by (simp only: lex_scan.simps [of an input] list.case)
    then show ?thesis by simp
  qed
qed

definition an_weight :: "Analyser \<Rightarrow> nat" where
  "an_weight an = length (an_input an) + sum_list (map token_weight (pending_tokens an))"

lemma an_weight_put_back: "an_weight (put_back tok an) = an_weight an + token_weight tok"
  by (simp add: an_weight_def put_back_def)

lemma read_token_weight:
  "an_weight (snd (read_token an)) + (case fst (read_token an) of Inl e \<Rightarrow> 0 | Inr tok \<Rightarrow> token_weight tok) \<le> an_weight an"
proof (cases "pending_tokens an")
  case Nil
  obtain res rest where "lex_scan an (an_input an) = (res, rest)" by fastforce
  with Nil lex_scan_progress [of an "an_input an"] show ?thesis
    by (simp add: read_token_def an_weight_def)
qed (simp add: read_token_def an_weight_def)

section \<open>Properties\<close>



text \<open>
  The symbol loop accepts any prefix of a symbol: with \<^verbatim>\<open>&&\<close> as the only symbol a single \<^verbatim>\<open>&\<close> is still
  returned as a symbol token.
\<close>

lemma symbol_prefix_accepted:
  "lex_scan (add_symbol ''&&'' (analyser [])) ''& x'' = (Inr (token T_SYMBOL ''&''), '' x'')"
  by (simp add: lex_scan.simps [of _ "''& x''"] read_symbol_token_def read_symbol_loop.simps symbol_prefix_def
      add_symbol_def analyser_def lex_peek_def ctype_defs token_def)

end
