(* ===== verification/Json_Parser.thy ===== *)
theory Json_Parser
  imports Json_Value Lex Fuel
begin

text \<open>
  The JSON parser of libs/json/parser.cc over the lexical analyser. Exceptions of the analyser and
  of the parser carry a text; the parser rethrows the former as the latter, so both are the same
  here. The recursion of values, objects and arrays is bounded by fuel, of which \<open>n + 1\<close> units are
  enough for a text of \<open>n\<close> characters.
\<close>

section \<open>Parser\<close>

definition json_parser :: "string \<Rightarrow> Analyser" where
  "json_parser input =
     add_symbol '']'' (add_symbol ''['' (add_symbol '','' (add_symbol '':''
       (add_symbol ''}'' (add_symbol ''{'' (analyser input))))))"

type_synonym 'a parse = "(string, Analyser, 'a) fuelled"

definition is_symbol :: "string \<Rightarrow> Token \<Rightarrow> bool" where
  "is_symbol s tok \<longleftrightarrow> tok_type tok = T_SYMBOL \<and> tok_value tok = s"

definition json_put_back :: "Token \<Rightarrow> Analyser \<Rightarrow> (string + unit) \<times> Analyser" where
  "json_put_back tok an = (Inr (), put_back tok an)"

primrec read_rest_of_object :: "nat \<Rightarrow> 'f Value parse \<Rightarrow> (string \<times> 'f Value) list \<Rightarrow> 'f Value parse" where
  "read_rest_of_object 0 read_value kvs = (\<lambda>an. None)"
| "read_rest_of_object (Suc fuel) read_value kvs =
     fuel_bind (fuel_lift read_token) (\<lambda>tok.
       if is_symbol ''}'' tok then fuel_return (OBJECT kvs)
       else if tok_type tok = T_NAME \<or> tok_type tok = T_STRING then
         fuel_bind (fuel_lift read_token) (\<lambda>colon.
           if \<not> is_symbol '':'' colon then fuel_throw ''Expected :''
           else fuel_bind read_value (\<lambda>v.
             fuel_bind (fuel_lift read_token) (\<lambda>next.
               if is_symbol ''}'' next then fuel_return (OBJECT (map_insert (tok_value tok) v kvs))
               else if is_symbol '','' next
               then read_rest_of_object fuel read_value (map_insert (tok_value tok) v kvs)
               else fuel_throw ''Expected , or }'')))
       else fuel_throw (''Bad property name '' @ tok_value tok))"

primrec read_rest_of_array :: "nat \<Rightarrow> 'f Value parse \<Rightarrow> 'f Value list \<Rightarrow> 'f Value parse" where
  "read_rest_of_array 0 read_value vs = (\<lambda>an. None)"
| "read_rest_of_array (Suc fuel) read_value vs =
     fuel_bind (fuel_lift read_token) (\<lambda>tok.
       if is_symbol '']'' tok then fuel_return (ARRAY vs)
       else fuel_bind (fuel_lift (json_put_back tok)) (\<lambda>_.
         fuel_bind read_value (\<lambda>v.
           fuel_bind (fuel_lift read_token) (\<lambda>next.
             if is_symbol '']'' next then fuel_return (ARRAY (vs @ [v]))
             else if is_symbol '','' next then read_rest_of_array fuel read_value (vs @ [v])
             else fuel_throw ''Expected , or ]''))))"

text \<open>What \<^verbatim>\<open>read_value\<close> does with its first token; \<open>stof\<close> is the conversion of floating point text.\<close>

definition value_of_token :: "(string \<Rightarrow> 'f) \<Rightarrow> nat \<Rightarrow> 'f Value parse \<Rightarrow> Token \<Rightarrow> 'f Value parse" where
  "value_of_token stof fuel read_value tok =
     (case tok_type tok of
        T_END \<Rightarrow> fuel_return JNULL
      | T_NUMBER \<Rightarrow>
          if CHR ''.'' \<in> set (tok_value tok) then fuel_return (NUMBER (stof (tok_value tok)))
          else fuel_return (INTEGER (stoi64 (tok_value tok)))
      | T_STRING \<Rightarrow> fuel_return (STRING (tok_value tok))
      | T_NAME \<Rightarrow>
          if tok_value tok = ''null'' then fuel_return JNULL
          else if tok_value tok = ''true'' then fuel_return JTRUE
          else if tok_value tok = ''false'' then fuel_return JFALSE
          else fuel_throw (''Unrecognised bare name '' @ tok_value tok)
      | T_SYMBOL \<Rightarrow>
          if tok_value tok = ''{'' then read_rest_of_object fuel read_value []
          else if tok_value tok = ''['' then read_rest_of_array fuel read_value []
          else fuel_throw (''Misplaced symbol '' @ tok_value tok)
      | T_UNKNOWN \<Rightarrow> fuel_throw ''Unrecognised token '')"

primrec read_value :: "(string \<Rightarrow> 'f) \<Rightarrow> nat \<Rightarrow> 'f Value parse" where
  "read_value stof 0 = (\<lambda>an. None)"
| "read_value stof (Suc fuel) =
     fuel_bind (fuel_lift read_token) (value_of_token stof fuel (read_value stof fuel))"

section \<open>Termination\<close>

abbreviation any_an :: "Analyser \<Rightarrow> bool" where
  "any_an \<equiv> \<lambda>_. True"

abbreviation ends :: "nat \<Rightarrow> 'a parse \<Rightarrow> bool" where
  "ends n m \<equiv> returns any_an an_weight n 0 m"

text \<open>
  After a token the continuation has one unit of weight less, unless the token was the end of the
  input.
\<close>

lemma ends_token:
  assumes "\<And>tok. tok_type tok \<noteq> T_END \<Longrightarrow> 0 < n \<Longrightarrow> ends (n - 1) (f tok)"
    and "\<And>tok. tok_type tok = T_END \<Longrightarrow> ends n (f tok)"
  shows "ends n (fuel_bind (fuel_lift read_token) f)"
  unfolding returns_def
proof (intro allI impI)
  fix an assume an: "True \<and> an_weight an \<le> n"
  obtain res an' where r: "read_token an = (res, an')" by fastforce
  show "\<exists>p. fuel_bind (fuel_lift read_token) f an = Some p \<and> advanced any_an an_weight 0 an p"
  proof (cases res)
    case (Inl e)
    with r read_token_weight [of an] show ?thesis by (simp add: fuel_bind_def fuel_lift_def advanced_def)
  next
    case (Inr tok)
    then have w: "an_weight an' + token_weight tok \<le> an_weight an" using r read_token_weight [of an] by simp
    have "\<exists>p. f tok an' = Some p \<and> advanced any_an an_weight 0 an' p"
    proof (cases "tok_type tok = T_END")
      case True
      then show ?thesis using assms(2) [OF True] w an by (simp add: returns_def token_weight_def)
    next
      case False
      then have "0 < n" "an_weight an' \<le> n - 1" using w an by (simp_all add: token_weight_def)
      with assms(1) [OF False] show ?thesis by (simp add: returns_def)
    qed
    with Inr r w show ?thesis by (auto simp: fuel_bind_def fuel_lift_def advanced_def)
  qed
qed

lemma ends_weaken: "ends n m \<Longrightarrow> n' \<le> n \<Longrightarrow> ends n' m"
  by (rule returns_mono) simp_all

lemma ends_bind: "ends n m \<Longrightarrow> (\<And>a. ends n (f a)) \<Longrightarrow> ends n (fuel_bind m f)"
  using returns_bind [of any_an an_weight n 0 m 0 f] by simp

lemmas ends_simple = returns_return returns_throw

lemma not_symbol_end: "tok_type tok = T_END \<Longrightarrow> \<not> is_symbol s tok"
  by (simp add: is_symbol_def)

lemma ends_object: "ends n read \<Longrightarrow> n < fuel \<Longrightarrow> ends n (read_rest_of_object fuel read kvs)"
proof (induction fuel arbitrary: n kvs)
  case (Suc fuel)
  have sub: "ends k read" if "k \<le> n" for k using Suc.prems(1) that by (rule ends_weaken)
  have tail: "ends k (fuel_bind read (\<lambda>v. fuel_bind (fuel_lift read_token) (\<lambda>next.
      if is_symbol ''}'' next then fuel_return (OBJECT (map_insert name v kvs))
      else if is_symbol '','' next then read_rest_of_object fuel read (map_insert name v kvs)
      else fuel_throw ''Expected , or }'')))" if "k \<le> n" for k name
    using that Suc.prems(2)
    by (intro ends_bind sub ends_token) (auto simp: not_symbol_end intro!: ends_simple Suc.IH sub)
  have colon: "ends k (fuel_bind (fuel_lift read_token) (\<lambda>colon. if \<not> is_symbol '':'' colon then fuel_throw ''Expected :''
      else fuel_bind read (\<lambda>v. fuel_bind (fuel_lift read_token) (\<lambda>next.
      if is_symbol ''}'' next then fuel_return (OBJECT (map_insert name v kvs))
      else if is_symbol '','' next then read_rest_of_object fuel read (map_insert name v kvs)
      else fuel_throw ''Expected , or }''))))" if "k \<le> n" for k name
    using that by (intro ends_token) (auto simp: not_symbol_end intro!: ends_simple tail)
  show ?case
    unfolding read_rest_of_object.simps
    by (intro ends_token) (auto intro!: ends_simple colon)
qed simp

lemma ends_peek:
  assumes "ends n m"
  shows "ends n (fuel_bind (fuel_lift read_token) (\<lambda>tok.
    if P tok then fuel_return x else fuel_bind (fuel_lift (json_put_back tok)) (\<lambda>_. m)))"
  unfolding returns_def
proof (intro allI impI)
  fix an assume an: "True \<and> an_weight an \<le> n"
  let ?f = "\<lambda>tok. if P tok then fuel_return x else fuel_bind (fuel_lift (json_put_back tok)) (\<lambda>_. m)"
  obtain res an' where r: "read_token an = (res, an')" by fastforce
  note w = read_token_weight [of an]
  show "\<exists>p. fuel_bind (fuel_lift read_token) ?f an = Some p \<and> advanced any_an an_weight 0 an p"
  proof (cases res)
    case (Inl e)
    with r w show ?thesis by (simp add: fuel_bind_def fuel_lift_def advanced_def)
  next
    case (Inr tok)
    then have "an_weight (put_back tok an') \<le> an_weight an" using r w by (simp add: an_weight_put_back)
    moreover obtain res2 an2 where "m (put_back tok an') = Some (res2, an2)"
      "advanced any_an an_weight 0 (put_back tok an') (res2, an2)"
      using calculation an by (auto intro: returnsE [OF assms, of "put_back tok an'"])
    ultimately show ?thesis
      using Inr r w by (auto simp: fuel_bind_def fuel_lift_def fuel_return_def json_put_back_def advanced_def)
  qed
qed

lemma ends_array: "ends n read \<Longrightarrow> n < fuel \<Longrightarrow> ends n (read_rest_of_array fuel read vs)"
proof (induction fuel arbitrary: n vs)
  case (Suc fuel)
  have sub: "ends k read" if "k \<le> n" for k using Suc.prems(1) that by (rule ends_weaken)
  show ?case
    unfolding read_rest_of_array.simps
    using Suc.prems(2)
    by (intro ends_peek ends_bind sub ends_token) (auto simp: not_symbol_end intro!: ends_simple Suc.IH sub)
qed simp

lemma ends_value: "n < fuel \<Longrightarrow> ends n (read_value stof fuel)"
proof (induction fuel arbitrary: n)
  case (Suc fuel)
  have symbol: "ends (n - 1) (value_of_token stof fuel (read_value stof fuel) tok)" if "0 < n" for tok
    using Suc that unfolding value_of_token_def
    by (auto intro!: ends_simple ends_object ends_array split: token_type.split)
  show ?case
    unfolding read_value.simps
    by (rule ends_token, rule symbol, assumption) (simp add: value_of_token_def ends_simple)
qed simp

section \<open>Properties\<close>

lemma json_parser_weight: "an_weight (json_parser input) = length input"
  by (simp add: json_parser_def add_symbol_def analyser_def an_weight_def)

text \<open>
  C29: The JSON parser always terminates. On any text of \<open>n\<close> characters, well-formed or not, \<open>n + 1\<close>
  levels of recursion and loop rounds are enough for it to return a value or to throw, and it
  never gives input back.
\<close>

theorem json_parser_terminates:
  assumes "length input < fuel"
  shows "\<exists>res an. read_value stof fuel (json_parser input) = Some (res, an) \<and> an_weight an \<le> length input"
proof -
  obtain res an where "read_value stof fuel (json_parser input) = Some (res, an)"
    "advanced any_an an_weight 0 (json_parser input) (res, an)"
    by (rule returnsE [OF ends_value [OF assms, of stof], of "json_parser input"]) (simp_all add: json_parser_weight)
  then show ?thesis by (simp add: advanced_def json_parser_weight)
qed

theorem json_parser_terminates_witness:
  "\<exists>res an. read_value (\<lambda>_. 0 :: nat) 5 (json_parser ''[[1'') = Some (res, an)"
  using json_parser_terminates [of "''[[1''" 5 "\<lambda>_. 0 :: nat"] by auto

end
