(* ===== verification/Json_Text.thy ===== *)
theory Json_Text
  imports Json_Parser
begin

text \<open>
  JSON text: what \<^verbatim>\<open>Value::str\<close> writes, \<^verbatim>\<open>Parser::read_value\<close> reads back. The proof looks at the input up to
  leading whitespace, which no token depends on, and follows the writer value by value.
\<close>

section \<open>Tokens of the written text\<close>

abbreviation skip :: "string \<Rightarrow> string" where
  "skip \<equiv> dropWhile isspace"

definition json_state :: "Analyser \<Rightarrow> bool" where
  "json_state an \<longleftrightarrow> an = json_parser (an_input an)"

abbreviation parses :: "'a parse \<Rightarrow> string \<Rightarrow> 'a \<Rightarrow> string \<Rightarrow> bool" where
  "parses m input v left \<equiv> fyields json_state (\<lambda>an. skip (an_input an)) m (skip input) v (skip left)"

abbreviation json_scan :: "string \<Rightarrow> (string + Token) \<times> string" where
  "json_scan \<equiv> lex_scan (json_parser [])"

lemma json_parser_fields [simp]:
  "an_input (json_parser input) = input" "pending_tokens (json_parser input) = []"
  "line_comment_symbol (json_parser input) = []"
  "an_symbols (json_parser input) = [''{'', ''}'', '':'', '','', ''['', '']'']"
  "allow_dash_in_names (json_parser input) = False" "allow_alphanum_names (json_parser input) = True"
  "json_parser input \<lparr> an_input := input' \<rparr> = json_parser input'"
  by (simp_all add: json_parser_def add_symbol_def analyser_def)

lemma read_symbol_nonempty:
  "fst (read_symbol_loop symbols c symbol input) = Inr tok \<Longrightarrow> symbol \<noteq> [] \<Longrightarrow> tok_value tok \<noteq> []"
proof (induction symbols c symbol input rule: read_symbol_loop.induct)
  case (1 symbols c symbol input)
  then show ?case
    using read_symbol_loop.simps [of symbols c symbol input] by (cases symbol) (auto simp: Let_def token_def split: if_splits)
qed

lemma no_comment:
  "(let (res, rest) = read_symbol_token symbols c input
    in case res of
         Inl e \<Rightarrow> (Inl e, rest)
       | Inr tok \<Rightarrow> if tok_type tok = T_SYMBOL \<and> tok_value tok = [] then f rest else (Inr tok, rest))
   = read_symbol_token symbols c input"
proof -
  obtain res rest where r: "read_symbol_token symbols c input = (res, rest)" by fastforce
  then have "res = Inr tok \<Longrightarrow> tok_value tok \<noteq> []" for tok
    using read_symbol_nonempty [of symbols c "[c]" input tok] by (simp add: read_symbol_token_def)
  with r show ?thesis by (simp split: sum.split)
qed

lemma json_scan_input: "lex_scan (json_parser i) input = json_scan input"
proof -
  have "name_char (json_parser i) = name_char (json_parser [])" by (simp add: name_char_def fun_eq_iff)
  then have name: "read_name_token (json_parser i) = read_name_token (json_parser [])"
    by (intro ext) (simp add: read_name_token_def)
  show ?thesis
    unfolding lex_scan.simps [of "json_parser i" input] lex_scan.simps [of "json_parser []" input]
      json_parser_fields no_comment name ..
qed

lemma scan_skip: "lex_scan an (skip input) = lex_scan an input"
  by (simp add: lex_scan.simps [of an "skip input"] lex_scan.simps [of an input] dropWhile_idem)

lemma parses_token:
  assumes "json_scan input = (Inr tok, left)"
  shows "parses (fuel_lift read_token) input tok left"
  unfolding fyields_def
proof (intro allI impI)
  fix an assume an: "json_state an \<and> skip (an_input an) = skip input"
  then have "lex_scan an (an_input an) = (Inr tok, left)"
    using assms scan_skip [of an "an_input an"] scan_skip [of an input] json_scan_input [of "an_input an" input]
    by (simp add: json_state_def)
  moreover from an have "an = json_parser (an_input an)" by (simp add: json_state_def)
  then have "pending_tokens an = []" "an \<lparr> an_input := left \<rparr> = json_parser left"
    by (metis json_parser_fields(2), metis json_parser_fields(7))
  ultimately have "read_token an = (Inr tok, json_parser left)" by (simp add: read_token_def)
  then show "fuel_lift read_token an = None \<or> (\<exists>an'. fuel_lift read_token an = Some (Inr tok, an')
      \<and> json_state an' \<and> skip (an_input an') = skip left)"
    by (simp add: fuel_lift_def json_state_def)
qed

lemma parses_after_token:
  assumes "json_scan input = (Inr tok, mid)" "parses (f tok) mid v left"
  shows "parses (fuel_bind (fuel_lift read_token) f) input v left"
  using parses_token [OF assms(1)] assms(2) by (rule fyields_bind)

text \<open>A token read, put back and read again by the value reader.\<close>

lemma read_token_put_back: "read_token (put_back tok an) = (Inr tok, an)"
  by (simp add: read_token_def put_back_def)

lemma read_value_put_back:
  "read_token an = (Inr tok, an') \<Longrightarrow> read_value stof fuel (put_back tok an') = read_value stof fuel an"
  by (cases fuel) (simp_all add: fuel_bind_def fuel_lift_def read_token_put_back)

lemma parses_put_back:
  assumes "json_scan input = (Inr tok, mid)" "\<not> P tok" "parses (fuel_bind (read_value stof fuel) k) input v left"
  shows "parses (fuel_bind (fuel_lift read_token) (\<lambda>tok. if P tok then m else
    fuel_bind (fuel_lift (json_put_back tok)) (\<lambda>_. fuel_bind (read_value stof fuel) k))) input v left"
  unfolding fyields_def
proof (intro allI impI)
  fix an assume an: "json_state an \<and> skip (an_input an) = skip input"
  with parses_token [OF assms(1)] obtain an' where "read_token an = (Inr tok, an')"
    unfolding fyields_def fuel_lift_def by fastforce
  then have "fuel_bind (fuel_lift read_token) (\<lambda>tok. if P tok then m else
      fuel_bind (fuel_lift (json_put_back tok)) (\<lambda>_. fuel_bind (read_value stof fuel) k)) an
    = fuel_bind (read_value stof fuel) k an"
    using assms(2) read_value_put_back [of an tok an' stof fuel]
    by (simp add: fuel_bind_def fuel_lift_def json_put_back_def)
  with an assms(3) show "fuel_bind (fuel_lift read_token) (\<lambda>tok. if P tok then m else
      fuel_bind (fuel_lift (json_put_back tok)) (\<lambda>_. fuel_bind (read_value stof fuel) k)) an = None
    \<or> (\<exists>an'. fuel_bind (fuel_lift read_token) (\<lambda>tok. if P tok then m else
      fuel_bind (fuel_lift (json_put_back tok)) (\<lambda>_. fuel_bind (read_value stof fuel) k)) an = Some (Inr v, an')
      \<and> json_state an' \<and> skip (an_input an') = skip left)"
    unfolding fyields_def by simp
qed

lemma one_symbol:
  assumes "symbol_prefix symbols [c]" "\<forall>d. \<not> symbol_prefix symbols [c, d]"
  shows "read_symbol_token symbols c input = (Inr (token T_SYMBOL [c]), input)"
  using assms read_symbol_loop.simps [of symbols c "[c]" input] read_symbol_loop.simps [of symbols c "[c, lex_peek input]" input]
  by (simp add: read_symbol_token_def)

lemma json_scan_symbol:
  assumes "c \<in> set ''{}:,[]''"
  shows "json_scan (c # input) = (Inr (token T_SYMBOL [c]), input)"
proof -
  have "read_symbol_token (an_symbols (json_parser [])) c input = (Inr (token T_SYMBOL [c]), input)"
    using assms by (intro one_symbol) (auto simp: symbol_prefix_def)
  moreover have "\<not> isspace c" "c \<noteq> NUL" "\<not> isalpha c" "c \<noteq> CHR ''_''" "\<not> isdigit c" "c \<noteq> CHR 0x22" "c \<noteq> CHR ''-''" "c \<noteq> CHR ''.''"
    using assms by (auto simp: ctype_defs)
  ultimately show ?thesis
    unfolding lex_scan.simps [of _ "c # input"] json_parser_fields no_comment by simp
qed

text \<open>Text that ends a name or a number.\<close>

definition delimits :: "string \<Rightarrow> bool" where
  "delimits tail \<longleftrightarrow> (case tail of [] \<Rightarrow> True | c # _ \<Rightarrow> c \<in> set ''}], '' \<or> c = CHR 0x0a)"

lemma delimits_not_name: "delimits tail \<Longrightarrow> takeWhile (name_char (json_parser [])) tail = []"
  "delimits tail \<Longrightarrow> dropWhile (name_char (json_parser [])) tail = tail"
  by (auto simp: delimits_def name_char_def ctype_defs split: list.splits)

lemma delimits_not_digit: "delimits tail \<Longrightarrow> takeWhile isdigit tail = []" "delimits tail \<Longrightarrow> dropWhile isdigit tail = tail"
  "delimits tail \<Longrightarrow> lex_peek tail \<noteq> CHR ''.''" "delimits tail \<Longrightarrow> lex_peek tail \<noteq> CHR ''e''"
  "delimits tail \<Longrightarrow> lex_peek tail \<noteq> CHR ''E''"
  by (auto simp: delimits_def lex_peek_def ctype_defs split: list.splits)

lemma json_scan_name:
  assumes "delimits tail" "name = ''null'' \<or> name = ''true'' \<or> name = ''false''"
  shows "json_scan (name @ tail) = (Inr (token T_NAME name), tail)"
proof -
  have name: "list_all (name_char (json_parser [])) name" "isalpha (hd name)" "\<not> isspace (hd name)" "name \<noteq> []"
    using assms(2) by (auto simp: name_char_def ctype_defs)
  then obtain c cs where c: "name = c # cs" by (cases name) auto
  with name have "takeWhile (name_char (json_parser [])) (cs @ tail) = cs"
    "dropWhile (name_char (json_parser [])) (cs @ tail) = tail" "c \<noteq> NUL"
    using delimits_not_name [OF assms(1)] by (auto simp: list_all_iff takeWhile_append dropWhile_append ctype_defs)
  with name c show ?thesis
    by (simp add: lex_scan.simps [of _ "c # cs @ tail"] read_name_token_def)
qed

lemma print_digits_digits: "c \<in> set (print_digits 10 n) \<Longrightarrow> isdigit c"
proof (induction "10 :: nat" n rule: print_digits.induct)
  case (1 n)
  have "isdigit (digit_char d)" if "d < 10" for d
    using that by (simp add: ctype_defs of_char_digit)
  with 1 show ?case by (auto simp: print_digits.simps [of 10 n] split: if_splits)
qed

lemma number_token:
  assumes "delimits tail" "\<forall>c\<in>set ds. isdigit c"
  shows "read_number_token c (ds @ tail) = (Inr (token T_NUMBER (c # ds)), tail)"
  using assms by (simp add: read_number_token_def delimits_not_digit takeWhile_append dropWhile_append)

lemma json_scan_integer:
  assumes "delimits tail"
  shows "json_scan (i64_text n @ tail) = (Inr (token T_NUMBER (i64_text n)), tail)"
proof -
  have digits: "json_scan (print_digits 10 k @ tail) = (Inr (token T_NUMBER (print_digits 10 k)), tail)"
    "json_scan (CHR ''-'' # print_digits 10 k @ tail) = (Inr (token T_NUMBER (CHR ''-'' # print_digits 10 k)), tail)" for k
  proof -
    obtain d ds where d: "print_digits 10 k = digit_char d # ds" "d < 10" using print_digits_hd [of 10 k] by auto
    then have ds: "\<forall>c\<in>set (digit_char d # ds). isdigit c" using print_digits_digits [of _ k] by simp
    moreover have "\<not> isalpha (digit_char d)" "digit_char d \<noteq> NUL" "digit_char d \<noteq> CHR ''_''" "\<not> isspace (digit_char d)"
      using ds by (auto simp: ctype_defs)
    ultimately show "json_scan (print_digits 10 k @ tail) = (Inr (token T_NUMBER (print_digits 10 k)), tail)"
      "json_scan (CHR ''-'' # print_digits 10 k @ tail) = (Inr (token T_NUMBER (CHR ''-'' # print_digits 10 k)), tail)"
      using d number_token [OF assms, of ds "digit_char d"] number_token [OF assms, of "digit_char d # ds" "CHR ''-''"]
      by (simp_all add: lex_scan.simps [of _ "_ # ds @ tail"] lex_scan.simps [of _ "CHR ''-'' # _"] lex_peek_def,
          simp add: ctype_defs)
  qed
  then show ?thesis by (simp add: i64_text_def)
qed

text \<open>Strings: every escape the writer uses is read back as the character it stands for.\<close>

lemma length_print_digits: "n < base ^ k \<Longrightarrow> 0 < k \<Longrightarrow> 2 \<le> base \<Longrightarrow> length (print_digits base n) \<le> k"
proof (induction k arbitrary: n)
  case (Suc k)
  show ?case
  proof (cases "n < base")
    case False
    with Suc have "n div base < base ^ k" "0 < k"
      by (auto simp: less_mult_imp_div_less mult.commute intro!: Nat.gr0I)
    with Suc show ?thesis using False by (simp add: print_digits.simps [of base n])
  qed (simp add: print_digits.simps [of base n])
qed simp

lemma print_digits_nonzero: "c \<in> set (print_digits 16 n) \<Longrightarrow> c \<noteq> NUL \<and> c \<noteq> CHR ''x'' \<and> c \<noteq> CHR ''X''"
proof (induction "16 :: nat" n rule: print_digits.induct)
  case (1 n)
  have "digit_char d \<noteq> NUL \<and> digit_char d \<noteq> CHR ''x'' \<and> digit_char d \<noteq> CHR ''X''" if "d < 16" for d
    using of_char_digit [OF that] that by (auto split: if_splits)
  with 1 show ?case by (auto simp: print_digits.simps [of 16 n] split: if_splits)
qed

lemma escape_digits_exact: "NUL \<notin> set h \<Longrightarrow> escape_digits (length h) (h @ input) = (Some h, input)"
  by (induction h) auto

lemma scan_hex_zeroes: "scan_signed 16 (replicate z CHR ''0'' @ print_digits 16 k) = (False, k)"
proof (cases z)
  case (Suc z')
  have digits: "scan_digits 16 0 (replicate z' CHR ''0'' @ print_digits 16 k) = k" for z'
  proof (induction z')
    case (Suc z')
    have "digit_value 16 CHR ''0'' = Some 0" by (simp add: digit_value_def ctype_defs)
    with Suc show ?case by simp
  qed (simp add: scan_print)
  have "scan_prefix 16 (CHR ''0'' # replicate z' CHR ''0'' @ print_digits 16 k) = CHR ''0'' # replicate z' CHR ''0'' @ print_digits 16 k"
    using print_digits_nonzero [of _ k]
    by (cases z') (auto simp: scan_prefix_def split: list.split)
  then show ?thesis
    using digits [of z] Suc by (simp add: scan_signed_def scan_magnitude_def isspace_def del: scan_digits.simps)
qed (simp add: scan_signed_print)

lemma xtoi_padded: "xtoi (replicate z CHR ''0'' @ print_digits 16 (unat x)) = x"
proof -
  have "unat x < 2 ^ 64" using unat_u32_less [of x] by simp
  moreover have "(ucast (ucast x :: u64) :: u32) = x"
    by (rule bit_word_eqI) (auto simp: bit_simps)
  ultimately show ?thesis by (simp add: xtoi_def strtoull_def scan_hex_zeroes)
qed

lemma string_plain:
  "c \<noteq> NUL \<Longrightarrow> c \<noteq> CHR 0x22 \<Longrightarrow> c \<noteq> CHR 0x5c \<Longrightarrow> read_string_token val (c # input) = read_string_token (val @ [c]) input"
  by simp

lemma string_hex_escape:
  assumes "length h = 4" "NUL \<notin> set h" "xtoi h = x"
  shows "read_string_token val (CHR 0x5c # CHR ''u'' # h @ input) = read_string_token (utf8_append val x) input"
proof -
  have "escape_digits 4 (h @ input) = (Some h, input)" using escape_digits_exact [OF assms(2)] assms(1) by simp
  then show ?thesis using assms(3) by simp
qed

lemma append_byte: "0 \<le> sint x \<Longrightarrow> sint x < 0x80 \<Longrightarrow> utf8_append val x = val @ [utf8_byte x]"
  using top_payloads(1) [of x] by (simp add: utf8_append_def)


lemma escapes_append:
  "utf8_append val 0x5c = val @ [CHR 0x5c]" "utf8_append val 0x22 = val @ [CHR 0x22]"
  "utf8_append val 0x08 = val @ [CHR 0x08]" "utf8_append val 0x0c = val @ [CHR 0x0c]"
  "utf8_append val 0x0a = val @ [CHR 0x0a]" "utf8_append val 0x0d = val @ [CHR 0x0d]"
  "utf8_append val 0x09 = val @ [CHR 0x09]"
  by (simp_all add: utf8_append_def utf8_byte_def char_of_byte_def char_of_eq_iff)

lemma nonneg_unat: "0 \<le> sint (x :: u32) \<Longrightarrow> unat x = nat (sint x)"
  using uint_sint [of x] sint_u32_bounds [of x] by (simp add: take_bit_int_eq_self unat_eq_nat_uint)

lemma utf8_byte_plain:
  assumes "0 < sint x" "sint x < 0x80" "x \<noteq> 0x22" "x \<noteq> 0x5c"
  shows "utf8_byte x \<noteq> NUL" "utf8_byte x \<noteq> CHR 0x22" "utf8_byte x \<noteq> CHR 0x5c"
proof -
  have x: "unat x < 0x80" "0 < unat x" using assms nonneg_unat [of x] by simp_all
  then have "(of_char (utf8_byte x) :: nat) = unat x"
    by (simp add: utf8_byte_def char_of_byte_def unsigned_ucast_eq take_bit_nat_eq_self)
  moreover have "unat x \<noteq> 0x22" "unat x \<noteq> 0x5c" using assms(3,4) by (auto simp: word_unat_eq_iff)
  ultimately show "utf8_byte x \<noteq> NUL" "utf8_byte x \<noteq> CHR 0x22" "utf8_byte x \<noteq> CHR 0x5c" using x by auto
qed

lemma write_char_read:
  assumes "0 < sint x" "sint x < 0x10000"
  shows "read_string_token val (write_char x @ input) = read_string_token (utf8_append val x) input"
proof (cases "x \<in> {0x5c, 0x22, 0x08, 0x0c, 0x0a, 0x0d, 0x09}")
  case True
  then show ?thesis by (auto simp: write_char_def simple_escape_def escapes_append)
next
  case special: False
  show ?thesis
  proof (cases "sint x < 0x80")
    case True
    with assms special utf8_byte_plain [of x] show ?thesis
      by (simp add: write_char_def append_byte del: read_string_token.simps) (subst string_plain, auto)
  next
    case False
    let ?h = "print_digits 16 (unat x)"
    have "unat x < 16 ^ 4" using assms nonneg_unat [of x] by simp
    then have "length ?h \<le> 4" by (rule length_print_digits) simp_all
    with False assms special show ?thesis
      using string_hex_escape [of "replicate (4 - length ?h) CHR ''0'' @ ?h" x val input] print_digits_nonzero [of NUL "unat x"]
      by (auto simp: write_char_def Let_def xtoi_padded simp del: read_string_token.simps)
  qed
qed

lemma read_written_string:
  "\<forall>x\<in>set cs. 0 < sint x \<and> sint x < 0x10000 \<Longrightarrow>
   read_string_token val (concat (map write_char cs) @ CHR 0x22 # input) = (Inr (token T_STRING (val @ utf8_encode cs)), input)"
proof (induction cs arbitrary: val)
  case (Cons x cs)
  then show ?case
    by (simp add: write_char_read encode_Cons append_prefix [of val] del: read_string_token.simps)
qed (simp add: utf8_encode_def)

lemma read_plain_string:
  "\<forall>c\<in>set k. c \<noteq> NUL \<and> c \<noteq> CHR 0x22 \<and> c \<noteq> CHR 0x5c \<Longrightarrow>
   read_string_token val (k @ CHR 0x22 # input) = (Inr (token T_STRING (val @ k)), input)"
  by (induction k arbitrary: val) simp_all

lemma json_scan_quote: "json_scan (CHR 0x22 # input) = read_string_token [] input"
  by (simp add: lex_scan.simps [of _ "CHR 0x22 # input"] ctype_defs)

section \<open>Values\<close>

text \<open>
  The values whose text carries all of them: no floating point number, binary, undefined or break
  value; strings that are UTF-8 text of characters up to U+FFFF other than NUL; property names
  that need no escape.
\<close>

fun printable :: "'f Value \<Rightarrow> bool" where
  "printable (STRING s) \<longleftrightarrow> list_all (\<lambda>x. 0 < sint x \<and> sint x < 0x10000) (utf8_decode s []) \<and> utf8_encode (utf8_decode s []) = s"
| "printable (OBJECT kvs) \<longleftrightarrow> map_ok kvs \<and> list_all (\<lambda>kv.
     list_all (\<lambda>c. c \<noteq> NUL \<and> c \<noteq> CHR 0x22 \<and> c \<noteq> CHR 0x5c) (fst kv) \<and> printable (snd kv)) kvs"
| "printable (ARRAY vs) \<longleftrightarrow> list_all printable vs"
| "printable v \<longleftrightarrow> v = JNULL \<or> v = JTRUE \<or> v = JFALSE \<or> (\<exists>n. v = INTEGER n)"

lemma stoi64_text: "stoi64 (i64_text n) = n"
proof -
  have b: "- (2 ^ 63) \<le> sint n" "sint n < 2 ^ 63" using sint_ge [of n] sint_lt [of n] by simp_all
  have "- word_of_nat (nat (- sint n)) = n" if "sint n < 0"
  proof -
    have "word_of_nat (nat (- sint n)) = (word_of_int (- sint n) :: u64)" using that by simp
    then show ?thesis by simp
  qed
  moreover have "word_of_nat (nat (sint n)) = n" if "0 \<le> sint n" using that by simp
  ultimately show ?thesis
    using b by (auto simp: stoi64_def strtoull_def i64_text_def scan_signed_print)
qed

lemma i64_text_integral: "CHR ''.'' \<notin> set (i64_text n)"
  using print_digits_digits [of "CHR ''.''"] by (auto simp: i64_text_def ctype_defs)

text \<open>The layout of the writer: what it writes between tokens is blank.\<close>

definition blank :: "string \<Rightarrow> bool" where
  "blank ws \<longleftrightarrow> set ws \<subseteq> {CHR '' '', CHR 0x0a}"

lemma blank_simps [simp]: "blank []" "blank (spaces n)" "blank [CHR '' '']" "blank [CHR 0x0a]"
  "blank (CHR 0x0a # spaces n)"
  by (auto simp: blank_def spaces_def)

lemma skip_blank [simp]: "blank ws \<Longrightarrow> skip (ws @ input) = skip input"
  by (rule dropWhile_append2) (auto simp: blank_def ctype_defs)

lemma delimits_blank: "blank ws \<Longrightarrow> delimits input \<Longrightarrow> delimits (ws @ input)"
  by (cases ws) (auto simp: blank_def delimits_def)

lemma delimits_simps [simp]:
  "delimits (CHR '','' # input)" "delimits (CHR ''}'' # input)" "delimits (CHR '']'' # input)"
  by (simp_all add: delimits_def)

lemma object_layout:
  obtains ws1 ws2 ws3 where "blank ws1" "blank ws2" "blank ws3"
    "write_to show_f pretty indent (OBJECT kvs) @ tail
      = CHR ''{'' # ws1 @ write_members show_f pretty indent kvs @ ws2 @ CHR ''}'' # ws3 @ tail"
  using that [of "if pretty \<and> kvs \<noteq> [] then [CHR 0x0a] else []" "if pretty \<and> kvs \<noteq> [] then spaces indent else []"
      "if pretty \<and> kvs \<noteq> [] \<and> indent = 0 then [CHR 0x0a] else []"]
  by (simp add: Let_def)

lemma array_layout:
  obtains ws1 ws2 ws3 multiline where "blank ws1" "blank ws2" "blank ws3"
    "write_to show_f pretty indent (ARRAY vs) @ tail
      = CHR ''['' # ws1 @ write_elements show_f pretty multiline indent vs @ ws2 @ CHR '']'' # ws3 @ tail"
proof -
  let ?m = "pretty \<and> list_ex non_empty_container vs"
  show ?thesis
    using that [of "if ?m then [CHR 0x0a] else []" "if ?m then spaces indent else []"
        "if ?m \<and> indent = 0 then [CHR 0x0a] else []" ?m]
    by (simp add: Let_def)
qed

lemma member_layout:
  obtains ws1 ws2 ws3 where "blank ws1" "blank ws2" "blank ws3"
    "write_members show_f pretty indent ((k, v) # kvs)
      = ws1 @ CHR 0x22 # k @ CHR 0x22 # CHR '':'' # ws2 @ write_to show_f pretty (indent + 2) v
        @ (if kvs = [] then ws3 else CHR '','' # ws3 @ write_members show_f pretty indent kvs)"
  by (rule that [of "if pretty then spaces (indent + 2) else []"
      "if pretty then (if non_empty_container v then CHR 0x0a # spaces (indent + 2) else [CHR '' '']) else []"
      "if pretty then [CHR 0x0a] else []"]) auto

lemma element_layout:
  obtains ws1 ws2 where "blank ws1" "blank ws2"
    "write_elements show_f pretty multiline indent (v # vs)
      = ws1 @ write_to show_f pretty (indent + 2) v
        @ (if vs = [] then ws2 else CHR '','' # ws2 @ write_elements show_f pretty multiline indent vs)"
  by (rule that [of "if multiline then spaces (indent + 2) else if pretty then [CHR '' ''] else []"
      "if vs \<noteq> [] then (if multiline then [CHR 0x0a] else []) else if multiline then [CHR 0x0a] else if pretty then [CHR '' ''] else []"]) auto

lemma parses_symbol:
  assumes "c \<in> set ''{}:,[]''" "parses (f (token T_SYMBOL [c])) input v left"
  shows "parses (fuel_bind (fuel_lift read_token) f) (c # input) v left"
  using json_scan_symbol [OF assms(1)] assms(2) by (rule parses_after_token)

lemma is_symbol_token [simp]: "is_symbol s (token t val) \<longleftrightarrow> t = T_SYMBOL \<and> val = s"
  by (simp add: is_symbol_def token_def)

lemma tok_type_token [simp]: "tok_type (token t val) = t" "tok_value (token t val) = val"
  by (simp_all add: token_def)

lemma parses_member:
  assumes "\<forall>c\<in>set k. c \<noteq> NUL \<and> c \<noteq> CHR 0x22 \<and> c \<noteq> CHR 0x5c"
    and "parses (fuel_bind read (\<lambda>v. fuel_bind (fuel_lift read_token) (\<lambda>next.
      if is_symbol ''}'' next then fuel_return (OBJECT (map_insert k v acc))
      else if is_symbol '','' next then read_rest_of_object fuel read (map_insert k v acc)
      else fuel_throw ''Expected , or }''))) input w left"
  shows "parses (read_rest_of_object (Suc fuel) read acc) (CHR 0x22 # k @ CHR 0x22 # CHR '':'' # input) w left"
proof -
  have key: "json_scan (CHR 0x22 # k @ CHR 0x22 # CHR '':'' # input) = (Inr (token T_STRING k), CHR '':'' # input)"
    using assms(1) read_plain_string [of k "[]" "CHR '':'' # input"] by (simp add: json_scan_quote)
  have "parses (fuel_bind (fuel_lift read_token) (\<lambda>colon. if \<not> is_symbol '':'' colon then fuel_throw ''Expected :'' else
      fuel_bind read (\<lambda>v. fuel_bind (fuel_lift read_token) (\<lambda>next.
      if is_symbol ''}'' next then fuel_return (OBJECT (map_insert k v acc))
      else if is_symbol '','' next then read_rest_of_object fuel read (map_insert k v acc)
      else fuel_throw ''Expected , or }'')))) (CHR '':'' # input) w left"
    using assms(2) by (intro parses_symbol) simp_all
  then show ?thesis
    unfolding read_rest_of_object.simps by (intro parses_after_token [OF key]) (simp cong: if_cong)
qed

lemma members_parse:
  assumes "\<forall>kv\<in>set kvs. \<forall>c\<in>set (fst kv). c \<noteq> NUL \<and> c \<noteq> CHR 0x22 \<and> c \<noteq> CHR 0x5c"
    and "\<forall>kv\<in>set kvs. \<forall>tail. delimits tail \<longrightarrow> parses read (write_to show_f pretty (indent + 2) (snd kv) @ tail) (snd kv) tail"
    and "map_ok (acc @ kvs)" "blank ws"
  shows "parses (read_rest_of_object fuel read acc) (write_members show_f pretty indent kvs @ ws @ CHR ''}'' # tail)
    (OBJECT (acc @ kvs)) tail"
  using assms
proof (induction fuel arbitrary: kvs acc)
  case (Suc fuel)
  show ?case
  proof (cases kvs)
    case Nil
    have "parses (read_rest_of_object (Suc fuel) read acc) (CHR ''}'' # tail) (OBJECT acc) tail"
      unfolding read_rest_of_object.simps by (rule parses_symbol) (simp_all add: fyields_fuel_return)
    with Nil Suc.prems(4) show ?thesis by simp
  next
    case (Cons kv kvs')
    obtain k v where kv: "kv = (k, v)" by fastforce
    obtain ws1 ws2 ws3 where ws: "blank ws1" "blank ws2" "blank ws3" and layout: "write_members show_f pretty indent kvs
      = ws1 @ CHR 0x22 # k @ CHR 0x22 # CHR '':'' # ws2 @ write_to show_f pretty (indent + 2) v
        @ (if kvs' = [] then ws3 else CHR '','' # ws3 @ write_members show_f pretty indent kvs')"
      unfolding Cons kv by (rule member_layout)
    let ?acc = "acc @ [(k, v)]" and ?close = "ws @ CHR ''}'' # tail"
    let ?rest = "(if kvs' = [] then ws3 else CHR '','' # ws3 @ write_members show_f pretty indent kvs') @ ?close"
    let ?next = "fuel_bind (fuel_lift read_token) (\<lambda>next.
        if is_symbol ''}'' next then fuel_return (OBJECT (map_insert k v acc))
        else if is_symbol '','' next then read_rest_of_object fuel read (map_insert k v acc)
        else fuel_throw ''Expected , or }'')"
    have insert: "map_insert k v acc = ?acc" using Suc.prems(3) Cons kv by (simp add: map_insert_next)
    have delim: "delimits ?rest" using ws Suc.prems(4) by (simp add: delimits_blank)
    have IH: "parses (read_rest_of_object fuel read ?acc) (write_members show_f pretty indent kvs' @ ?close) (OBJECT (?acc @ kvs')) tail"
      using Suc.prems Cons kv by (intro Suc.IH) auto
    have close: "parses ?next (CHR ''}'' # tail) (OBJECT ?acc) tail"
      by (rule parses_symbol) (simp_all add: insert fyields_fuel_return)
    have comma: "parses ?next (CHR '','' # ws3 @ write_members show_f pretty indent kvs' @ ?close) (OBJECT (?acc @ kvs')) tail"
      using IH ws by (intro parses_symbol) (simp_all add: insert)
    have sep: "parses ?next ?rest (OBJECT (acc @ kvs)) tail"
      using close comma Cons kv ws Suc.prems(4) by (cases "kvs' = []") simp_all
    have val: "parses read (write_to show_f pretty (indent + 2) v @ ?rest) v ?rest"
      using Suc.prems(2) Cons kv delim by simp
    have body: "parses (fuel_bind read (\<lambda>v. fuel_bind (fuel_lift read_token) (\<lambda>next.
        if is_symbol ''}'' next then fuel_return (OBJECT (map_insert k v acc))
        else if is_symbol '','' next then read_rest_of_object fuel read (map_insert k v acc)
        else fuel_throw ''Expected , or }''))) (ws2 @ write_to show_f pretty (indent + 2) v @ ?rest) (OBJECT (acc @ kvs)) tail"
      unfolding skip_blank [OF ws(2)] by (rule fyields_bind, rule val, rule sep)
    have "parses (read_rest_of_object (Suc fuel) read acc)
        (CHR 0x22 # k @ CHR 0x22 # CHR '':'' # ws2 @ write_to show_f pretty (indent + 2) v @ ?rest) (OBJECT (acc @ kvs)) tail"
      by (rule parses_member [OF _ body]) (use Suc.prems(1) Cons kv in auto)
    then show ?thesis unfolding layout append_assoc append_Cons skip_blank [OF ws(1)] .
  qed
qed simp

lemma json_scan_string:
  "printable (STRING s) \<Longrightarrow> json_scan (write_string_to s @ tail) = (Inr (token T_STRING s), tail)"
  using read_written_string [of "utf8_decode s []" "[]" tail]
  by (simp add: json_scan_quote write_string_to_def list_all_iff)

lemma first_token:
  assumes "printable v" "delimits tail"
  shows "\<exists>tok mid. json_scan (write_to show_f pretty indent v @ tail) = (Inr tok, mid) \<and> \<not> is_symbol '']'' tok"
proof (cases v)
  case (STRING s)
  with assms(1) json_scan_string [of s tail] show ?thesis by simp
next
  case (OBJECT kvs)
  then show ?thesis by (cases rule: object_layout [of show_f pretty indent kvs tail]) (simp add: json_scan_symbol)
next
  case (ARRAY vs)
  then show ?thesis by (cases rule: array_layout [of show_f pretty indent vs tail]) (simp add: json_scan_symbol)
next
  case (INTEGER n)
  then show ?thesis using json_scan_integer [OF assms(2)] by simp
qed (use assms(1) json_scan_name [OF assms(2), of "''null''"] json_scan_name [OF assms(2), of "''true''"]
    json_scan_name [OF assms(2), of "''false''"] in auto)

lemma elements_parse:
  assumes "\<forall>v\<in>set vs. printable v"
    and "\<forall>v\<in>set vs. \<forall>tail. delimits tail \<longrightarrow>
      parses (read_value stof reads) (write_to show_f pretty (indent + 2) v @ tail) v tail"
    and "blank ws"
  shows "parses (read_rest_of_array fuel (read_value stof reads) acc)
    (write_elements show_f pretty multiline indent vs @ ws @ CHR '']'' # tail) (ARRAY (acc @ vs)) tail"
  using assms
proof (induction fuel arbitrary: vs acc)
  case (Suc fuel)
  let ?read = "read_value stof reads"
  show ?case
  proof (cases vs)
    case Nil
    have "parses (read_rest_of_array (Suc fuel) ?read acc) (CHR '']'' # tail) (ARRAY acc) tail"
      unfolding read_rest_of_array.simps by (rule parses_symbol) (simp_all add: fyields_fuel_return)
    with Nil Suc.prems(3) show ?thesis by simp
  next
    case (Cons v vs')
    obtain ws1 ws2 where blank: "blank ws1" "blank ws2" and layout: "write_elements show_f pretty multiline indent vs
      = ws1 @ write_to show_f pretty (indent + 2) v
        @ (if vs' = [] then ws2 else CHR '','' # ws2 @ write_elements show_f pretty multiline indent vs')"
      unfolding Cons by (rule element_layout)
    let ?close = "ws @ CHR '']'' # tail"
    let ?rest = "(if vs' = [] then ws2 else CHR '','' # ws2 @ write_elements show_f pretty multiline indent vs') @ ?close"
    let ?next = "\<lambda>v. fuel_bind (fuel_lift read_token) (\<lambda>next.
        if is_symbol '']'' next then fuel_return (ARRAY (acc @ [v]))
        else if is_symbol '','' next then read_rest_of_array fuel ?read (acc @ [v])
        else fuel_throw ''Expected , or ]'')"
    have delim: "delimits ?rest" using blank Suc.prems(3) by (simp add: delimits_blank)
    have IH: "parses (read_rest_of_array fuel ?read (acc @ [v]))
        (write_elements show_f pretty multiline indent vs' @ ?close) (ARRAY ((acc @ [v]) @ vs')) tail"
      using Suc.prems Cons by (intro Suc.IH) auto
    have close: "parses (?next v) (CHR '']'' # tail) (ARRAY (acc @ [v])) tail"
      by (rule parses_symbol) (simp_all add: fyields_fuel_return)
    have comma: "parses (?next v) (CHR '','' # ws2 @ write_elements show_f pretty multiline indent vs' @ ?close)
        (ARRAY ((acc @ [v]) @ vs')) tail"
      using IH blank by (intro parses_symbol) simp_all
    have sep: "parses (?next v) ?rest (ARRAY (acc @ vs)) tail"
      using close comma Cons blank Suc.prems(3) by (cases "vs' = []") simp_all
    have elem: "parses ?read (write_to show_f pretty (indent + 2) v @ ?rest) v ?rest"
      using Suc.prems(2) Cons delim by simp
    have val: "parses (fuel_bind ?read ?next) (write_to show_f pretty (indent + 2) v @ ?rest) (ARRAY (acc @ vs)) tail"
      by (rule fyields_bind, rule elem, rule sep)
    obtain tok mid where "json_scan (write_to show_f pretty (indent + 2) v @ ?rest) = (Inr tok, mid)" "\<not> is_symbol '']'' tok"
      using first_token [OF _ delim, of v show_f pretty "indent + 2"] Suc.prems(1) Cons by auto
    then have "parses (read_rest_of_array (Suc fuel) ?read acc)
        (write_to show_f pretty (indent + 2) v @ ?rest) (ARRAY (acc @ vs)) tail"
      unfolding read_rest_of_array.simps using val by (rule parses_put_back)
    then show ?thesis unfolding layout append_assoc skip_blank [OF blank(1)] .
  qed
qed simp

lemma names_parse:
  assumes "delimits tail"
  shows "parses (read_value stof (Suc fuel)) (''null'' @ tail) JNULL tail"
    "parses (read_value stof (Suc fuel)) (''true'' @ tail) JTRUE tail"
    "parses (read_value stof (Suc fuel)) (''false'' @ tail) JFALSE tail"
  unfolding read_value.simps
  by (rule parses_after_token [OF json_scan_name [OF assms]], simp, simp add: value_of_token_def fyields_fuel_return)+

lemma value_parse:
  "printable v \<Longrightarrow> delimits tail \<Longrightarrow> parses (read_value stof fuel) (write_to show_f pretty indent v @ tail) v tail"
proof (induction fuel arbitrary: v indent tail)
  case (Suc fuel)
  note step = parses_after_token [where f = "value_of_token stof fuel (read_value stof fuel)", folded read_value.simps]
  note symbol = parses_symbol [where f = "value_of_token stof fuel (read_value stof fuel)", folded read_value.simps]
  show ?case
  proof (cases v)
    case (STRING s)
    with Suc.prems(1) json_scan_string [of s tail] show ?thesis
      by (intro step [of _ "token T_STRING s" tail]) (simp_all add: value_of_token_def fyields_fuel_return)
  next
    case (INTEGER n)
    show ?thesis
      unfolding INTEGER write_to.simps
      by (rule step [OF json_scan_integer [OF Suc.prems(2)]])
        (simp add: value_of_token_def i64_text_integral stoi64_text fyields_fuel_return)
  next
    case (OBJECT kvs)
    obtain ws1 ws2 ws3 where ws: "blank ws1" "blank ws2" "blank ws3" and layout: "write_to show_f pretty indent v @ tail
        = CHR ''{'' # ws1 @ write_members show_f pretty indent kvs @ ws2 @ CHR ''}'' # ws3 @ tail"
      unfolding OBJECT by (rule object_layout)
    have "parses (read_rest_of_object fuel (read_value stof fuel) [])
        (write_members show_f pretty indent kvs @ ws2 @ CHR ''}'' # ws3 @ tail) (OBJECT ([] @ kvs)) (ws3 @ tail)"
      using Suc.prems(1) OBJECT ws by (intro members_parse) (auto simp: list_all_iff intro!: Suc.IH)
    then show ?thesis
      unfolding layout unfolding OBJECT using ws by (intro symbol) (simp_all add: value_of_token_def)
  next
    case (ARRAY vs)
    obtain ws1 ws2 ws3 multiline where ws: "blank ws1" "blank ws2" "blank ws3" and layout: "write_to show_f pretty indent v @ tail
        = CHR ''['' # ws1 @ write_elements show_f pretty multiline indent vs @ ws2 @ CHR '']'' # ws3 @ tail"
      unfolding ARRAY by (rule array_layout)
    have "parses (read_rest_of_array fuel (read_value stof fuel) [])
        (write_elements show_f pretty multiline indent vs @ ws2 @ CHR '']'' # ws3 @ tail) (ARRAY ([] @ vs)) (ws3 @ tail)"
      using Suc.prems(1) ARRAY ws by (intro elements_parse) (auto simp: list_all_iff intro!: Suc.IH)
    then show ?thesis
      unfolding layout unfolding ARRAY using ws by (intro symbol) (simp_all add: value_of_token_def)
  qed (use Suc.prems in \<open>simp_all add: names_parse del: read_value.simps append_Cons flip: append_Cons\<close>)
qed simp

section \<open>Properties\<close>



end
