(* ===== verification/Whitespace.thy ===== *)
theory Whitespace
  imports OT_Prelude
begin

text \<open>
  The whitespace, line and case functions of libs/text (ws.cc, case.cc). Each loop over the
  characters of a string is a fold of the code's state machine; positions returned by the
  \<^verbatim>\<open>find\<close> functions of \<^verbatim>\<open>std::string\<close> are options, with \<open>None\<close> for \<^verbatim>\<open>npos\<close>.
\<close>

section \<open>Searching\<close>

definition find_first :: "(char \<Rightarrow> bool) \<Rightarrow> string \<Rightarrow> nat option" where
  "find_first P s = (let k = length (takeWhile (\<lambda>c. \<not> P c) s) in if k < length s then Some k else None)"

definition find_last :: "(char \<Rightarrow> bool) \<Rightarrow> string \<Rightarrow> nat option" where
  "find_last P s = (let k = length (dropWhile (\<lambda>c. \<not> P c) (rev s)) in if 0 < k then Some (k - 1) else None)"

lemma find_first_simps [simp]:
  "find_first P [] = None"
  "find_first P (c # s) = (if P c then Some 0 else map_option Suc (find_first P s))"
  by (auto simp: find_first_def Let_def)

lemma find_first_None: "find_first P s = None \<longleftrightarrow> (\<forall>c\<in>set s. \<not> P c)"
  by (induction s) auto

lemma find_first_append: "\<forall>c\<in>set w. \<not> P c \<Longrightarrow> P d \<Longrightarrow> find_first P (w @ d # s) = Some (length w)"
  by (induction w) auto

lemma find_first_Some:
  assumes "find_first P s = Some k"
  obtains w d r where "s = w @ d # r" "length w = k" "P d" "\<forall>c\<in>set w. \<not> P c"
  using assms
proof (induction s arbitrary: k thesis)
  case (Cons c s)
  show ?case
  proof (cases "P c")
    case True
    with Cons.prems(2) Cons.prems(1) [of "[]" c s] show ?thesis by simp
  next
    case False
    with Cons.prems(2) obtain k' where k: "find_first P s = Some k'" "k = Suc k'" by auto
    from k(1) obtain w d r where "s = w @ d # r" "length w = k'" "P d" "\<forall>c\<in>set w. \<not> P c"
      using Cons.IH by blast
    with False k(2) Cons.prems(1) [of "c # w" d r] show ?thesis by simp
  qed
qed simp

section \<open>Blank lines and indentation\<close>

definition blank_char :: "char \<Rightarrow> bool" where
  "blank_char c \<longleftrightarrow> c = CHR '' '' \<or> c = CHR 0x09 \<or> c = CHR 0x0a"

definition strip_blank_lines :: "string \<Rightarrow> string" where
  "strip_blank_lines s =
     (case find_first (\<lambda>c. \<not> blank_char c) s of
        None \<Rightarrow> []
      | Some start \<Rightarrow>
          (case find_first (\<lambda>c. c = CHR 0x0a) s of
             None \<Rightarrow> s
           | Some nl \<Rightarrow>
               let start = (if nl < start then nl + 1 else 0)
               in case find_last (\<lambda>c. \<not> blank_char c) s of
                    None \<Rightarrow> []
                  | Some stop \<Rightarrow>
                      if stop < start then []
                      else (case find_last (\<lambda>c. c = CHR 0x0a) s of
                              None \<Rightarrow> drop start s
                            | Some nl \<Rightarrow>
                                if nl > stop then take (nl - start + 1) (drop start s) else drop start s)))"

record condense_state =
  is_blank :: bool
  blank_lines :: int
  newtext :: string
  cur_line :: string

definition condense_step :: "condense_state \<Rightarrow> char \<Rightarrow> condense_state" where
  "condense_step st c =
     (let st = st \<lparr> cur_line := cur_line st @ [c] \<rparr>
      in if c = CHR '' '' \<or> c = CHR 0x09 then st
         else if c = CHR 0x0a then
           (if is_blank st then st \<lparr> blank_lines := blank_lines st + 1 \<rparr>
            else st \<lparr> newtext := newtext st @ (if blank_lines st > 0 then [CHR 0x0a] else []) @ cur_line st,
                      blank_lines := 0 \<rparr>) \<lparr> cur_line := [], is_blank := True \<rparr>
         else st \<lparr> is_blank := False \<rparr>)"

definition condense_blank_lines :: "string \<Rightarrow> string" where
  "condense_blank_lines s =
     newtext (foldl condense_step \<lparr> is_blank = True, blank_lines = - (2 ^ 31), newtext = [], cur_line = [] \<rparr> s)"

definition indent_step :: "int \<times> int \<times> bool \<Rightarrow> char \<Rightarrow> int \<times> int \<times> bool" where
  "indent_step = (\<lambda>(min, indent, seen_text) c.
     if c = CHR '' '' then (min, if seen_text then indent else indent + 1, seen_text)
     else if c = CHR 0x09 then (min, if seen_text then indent else indent + 8, seen_text)
     else if c = CHR 0x0a then (min, 0, False)
     else if seen_text then (min, indent, seen_text)
     else (if indent < min then indent else min, indent, True))"

definition get_common_indent :: "string \<Rightarrow> int" where
  "get_common_indent s = fst (foldl indent_step (80, 0, False) s)"

definition unindent_step :: "int \<Rightarrow> string \<times> int \<Rightarrow> char \<Rightarrow> string \<times> int" where
  "unindent_step indent = (\<lambda>(result, pos) c.
     if c = CHR '' '' then (if pos \<ge> indent then result @ [c] else result, pos + 1)
     else if c = CHR 0x09 then (if pos \<ge> indent then result @ [c] else result, pos + 8)
     else if c = CHR 0x0a then (result @ [c], 0)
     else (result @ [c], pos + 1))"

definition remove_indent :: "string \<Rightarrow> int \<Rightarrow> string" where
  "remove_indent s indent = fst (foldl (unindent_step indent) ([], 0) s)"

section \<open>Words\<close>

definition ws_char :: "char \<Rightarrow> bool" where
  "ws_char c \<longleftrightarrow> c = CHR '' '' \<or> c = CHR 0x09 \<or> c = CHR 0x0d \<or> c = CHR 0x0a"

datatype canon_state = At_start | In_word | In_ws

definition canon_step :: "canon_state \<times> string \<Rightarrow> char \<Rightarrow> canon_state \<times> string" where
  "canon_step = (\<lambda>(state, fixed) c.
     if ws_char c then (case state of At_start \<Rightarrow> (At_start, fixed) | In_word \<Rightarrow> (In_ws, fixed) | In_ws \<Rightarrow> (In_ws, fixed))
     else (case state of
             At_start \<Rightarrow> (In_word, fixed @ [c])
           | In_word \<Rightarrow> (In_word, fixed @ [c])
           | In_ws \<Rightarrow> (In_word, fixed @ [CHR '' '', c])))"

definition canonicalise_space :: "string \<Rightarrow> string" where
  "canonicalise_space s = snd (foldl canon_step (At_start, []) s)"

definition remove_space :: "string \<Rightarrow> string" where
  "remove_space s = filter (\<lambda>c. \<not> isspace c) s"

text \<open>The functions that take their text by reference return the new text as second component.\<close>

definition remove_word :: "string \<Rightarrow> string \<times> string" where
  "remove_word s =
     (case find_first (\<lambda>c. c = CHR '' '') s of
        None \<Rightarrow> (s, [])
      | Some sp \<Rightarrow> if sp = 0 then (s, []) else (take sp s, drop (sp + 1) s))"

definition remove_line :: "string \<Rightarrow> string \<times> string" where
  "remove_line s =
     (case find_first (\<lambda>c. c = CHR 0x0a) s of
        None \<Rightarrow> (s, [])
      | Some nl \<Rightarrow> (take nl s, drop (nl + 1) s))"

lemma remove_word_shorter: "s \<noteq> [] \<Longrightarrow> length (snd (remove_word s)) < length s"
  by (cases s) (auto simp: remove_word_def split: option.split)

function split_words_loop :: "string \<Rightarrow> string list" where
  "split_words_loop temp =
     (if temp = [] then [] else fst (remove_word temp) # split_words_loop (snd (remove_word temp)))"
  by pat_completeness auto
termination by (relation "measure length") (simp_all add: remove_word_shorter)

definition split_words :: "string \<Rightarrow> string list" where
  "split_words s = split_words_loop (canonicalise_space s)"

text \<open>
  The loop of \<^verbatim>\<open>split_lines\<close>, on the text from \<^verbatim>\<open>pos\<close> on. A text that starts with a newline makes the
  source read the character before its buffer: \<open>before\<close> is that character, and \<open>first\<close> marks the round
  in which it matters. If it happens to be a carriage return the end of the line wraps to \<^verbatim>\<open>npos\<close>.
\<close>

function split_lines_loop :: "char \<Rightarrow> bool \<Rightarrow> bool \<Rightarrow> string \<Rightarrow> string list" where
  "split_lines_loop before remove_blanks first s =
     (if s = [] then []
      else let nl = (case find_first (\<lambda>c. c = CHR 0x0a) s of None \<Rightarrow> length s | Some nl \<Rightarrow> nl);
               stop = (if nl = 0 then (if first \<and> before = CHR 0x0d then length s else 0)
                       else if s ! (nl - 1) = CHR 0x0d then nl - 1 else nl)
           in (if 0 < stop \<or> \<not> remove_blanks then [take stop s] else [])
              @ split_lines_loop before remove_blanks False (drop (nl + 1) s))"
  by pat_completeness auto
termination by (relation "measure (\<lambda>(before, b, f, s). length s)") auto

definition split_lines :: "char \<Rightarrow> string \<Rightarrow> bool \<Rightarrow> string list" where
  "split_lines before s remove_blanks = split_lines_loop before remove_blanks True s"

section \<open>Case\<close>

definition text_tolower :: "string \<Rightarrow> string" where
  "text_tolower s = map c_tolower s"

definition text_toupper :: "string \<Rightarrow> string" where
  "text_toupper s = map c_toupper s"

declare split_words_loop.simps [simp del] split_lines_loop.simps [simp del]

section \<open>Words as a reference definition\<close>

text \<open>The maximal runs of characters outside a class, and the text of a list joined with a separator.\<close>

function words_of :: "(char \<Rightarrow> bool) \<Rightarrow> string \<Rightarrow> string list" where
  "words_of P s =
     (case dropWhile P s of
        [] \<Rightarrow> []
      | c # r \<Rightarrow> (c # takeWhile (\<lambda>c. \<not> P c) r) # words_of P (dropWhile (\<lambda>c. \<not> P c) r))"
  by pat_completeness auto
termination
proof (relation "measure (\<lambda>(P, s). length s)")
  fix P :: "char \<Rightarrow> bool" and s c r
  assume "dropWhile P s = c # r"
  then have "length (c # r) \<le> length s" by (metis length_dropWhile_le)
  then show "((P, dropWhile (\<lambda>c. \<not> P c) r), P, s) \<in> measure (\<lambda>(P, s). length s)"
    using length_dropWhile_le [of "\<lambda>c. \<not> P c" r] by simp
qed simp

declare words_of.simps [simp del]

fun join_with :: "'a list \<Rightarrow> 'a list list \<Rightarrow> 'a list" where
  "join_with sep [] = []"
| "join_with sep [w] = w"
| "join_with sep (w # ws) = w @ sep @ join_with sep ws"

lemma join_with_Cons: "join_with sep (w # ws) = w @ (if ws = [] then [] else sep @ join_with sep ws)"
  by (cases ws) auto

lemma words_of_Nil [simp]: "words_of P [] = []"
  by (simp add: words_of.simps)

lemma words_of_ws: "P c \<Longrightarrow> words_of P (c # s) = words_of P s"
  by (simp add: words_of.simps [of P "c # s"] words_of.simps [of P s])

lemma words_of_word:
  "\<not> P c \<Longrightarrow> words_of P (c # s) = (c # takeWhile (\<lambda>c. \<not> P c) s) # words_of P (dropWhile (\<lambda>c. \<not> P c) s)"
  by (simp add: words_of.simps [of P "c # s"])

lemma words_of_word_chars: "w \<in> set (words_of P s) \<Longrightarrow> w \<noteq> [] \<and> (\<forall>c\<in>set w. \<not> P c)"
proof (induction P s rule: words_of.induct)
  case (1 P s)
  show ?case
  proof (cases "dropWhile P s")
    case Nil
    with "1.prems" show ?thesis by (simp add: words_of.simps [of P s])
  next
    case (Cons c r)
    with "1.prems" have "w = c # takeWhile (\<lambda>c. \<not> P c) r \<or> w \<in> set (words_of P (dropWhile (\<lambda>c. \<not> P c) r))"
      by (simp add: words_of.simps [of P s])
    moreover have "\<not> P c" using Cons by (simp add: dropWhile_eq_Cons_conv)
    then have "c # takeWhile (\<lambda>c. \<not> P c) r \<noteq> [] \<and> (\<forall>d\<in>set (c # takeWhile (\<lambda>c. \<not> P c) r). \<not> P d)"
      by (auto dest: set_takeWhileD)
    ultimately show ?thesis using "1.IH" [OF Cons] by blast
  qed
qed

definition canon_rest :: "canon_state \<Rightarrow> string \<Rightarrow> string" where
  "canon_rest state s =
     (let after = (\<lambda>s. if words_of ws_char s = [] then [] else CHR '' '' # join_with '' '' (words_of ws_char s))
      in case state of
           At_start \<Rightarrow> join_with '' '' (words_of ws_char s)
         | In_word \<Rightarrow> takeWhile (\<lambda>c. \<not> ws_char c) s @ after (dropWhile (\<lambda>c. \<not> ws_char c) s)
         | In_ws \<Rightarrow> after s)"

lemma canon_step_simps:
  "ws_char c \<Longrightarrow> canon_step (At_start, fixed) c = (At_start, fixed)"
  "ws_char c \<Longrightarrow> canon_step (In_word, fixed) c = (In_ws, fixed)"
  "ws_char c \<Longrightarrow> canon_step (In_ws, fixed) c = (In_ws, fixed)"
  "\<not> ws_char c \<Longrightarrow> canon_step (At_start, fixed) c = (In_word, fixed @ [c])"
  "\<not> ws_char c \<Longrightarrow> canon_step (In_word, fixed) c = (In_word, fixed @ [c])"
  "\<not> ws_char c \<Longrightarrow> canon_step (In_ws, fixed) c = (In_word, fixed @ [CHR '' '', c])"
  by (simp_all add: canon_step_def)

lemma canon_fold: "snd (foldl canon_step (state, fixed) s) = fixed @ canon_rest state s"
proof (induction s arbitrary: state fixed)
  case Nil
  show ?case by (cases state) (simp_all add: canon_rest_def)
next
  case (Cons c s)
  show ?case
    by (cases state; cases "ws_char c")
      (simp_all add: canon_step_simps Cons canon_rest_def words_of_ws words_of_word join_with_Cons)
qed

lemma canonicalise_words: "canonicalise_space s = join_with '' '' (words_of ws_char s)"
  using canon_fold [of At_start "[]" s] by (simp add: canonicalise_space_def canon_rest_def)

lemma split_words_join:
  "\<forall>w\<in>set ws. w \<noteq> [] \<and> CHR '' '' \<notin> set w \<Longrightarrow> split_words_loop (join_with '' '' ws) = ws"
proof (induction ws)
  case Nil
  show ?case by (simp add: split_words_loop.simps)
next
  case (Cons w ws)
  have "remove_word (join_with '' '' (w # ws)) = (w, join_with '' '' ws)"
  proof (cases "ws = []")
    case True
    then have "find_first (\<lambda>c. c = CHR '' '') w = None" using Cons.prems by (auto simp: find_first_None)
    with True show ?thesis by (simp add: remove_word_def)
  next
    case False
    have "find_first (\<lambda>c. c = CHR '' '') (w @ CHR '' '' # join_with '' '' ws) = Some (length w)"
      using Cons.prems by (intro find_first_append) auto
    with False Cons.prems show ?thesis by (simp add: remove_word_def join_with_Cons)
  qed
  moreover have "join_with '' '' (w # ws) \<noteq> []" using Cons.prems by (simp add: join_with_Cons)
  ultimately show ?case using Cons by (simp add: split_words_loop.simps [of "join_with '' '' (w # ws)"])
qed

lemma words_of_join:
  "\<forall>w\<in>set ws. w \<noteq> [] \<and> (\<forall>c\<in>set w. \<not> P c) \<Longrightarrow> P sep \<Longrightarrow> words_of P (join_with [sep] ws) = ws"
proof (induction ws)
  case (Cons w ws)
  then obtain c w' where w: "w = c # w'" "\<not> P c" "\<forall>c\<in>set w'. \<not> P c" by (cases w) auto
  then have all: "takeWhile (\<lambda>c. \<not> P c) w' = w'" "dropWhile (\<lambda>c. \<not> P c) w' = []" by simp_all
  show ?case
  proof (cases "ws = []")
    case False
    have "takeWhile (\<lambda>c. \<not> P c) (w' @ sep # join_with [sep] ws) = w'"
      "dropWhile (\<lambda>c. \<not> P c) (w' @ sep # join_with [sep] ws) = sep # join_with [sep] ws"
      using w(3) Cons.prems(2) by (simp_all add: takeWhile_append dropWhile_append)
    with False w Cons show ?thesis by (simp add: join_with_Cons words_of_word words_of_ws)
  qed (simp add: w words_of_word all)
qed simp

section \<open>Properties\<close>

text \<open>
  The whitespace state machines agree with words. \<^verbatim>\<open>canonicalise_space\<close> is the text's words (maximal
  runs without space, tab, CR or LF) joined with single spaces, \<^verbatim>\<open>split_words\<close> returns exactly these
  words, and canonicalising twice changes nothing more.
\<close>

theorem canonicalise_space_words:
  "canonicalise_space s = join_with '' '' (words_of ws_char s)
   \<and> split_words s = words_of ws_char s
   \<and> canonicalise_space (canonicalise_space s) = canonicalise_space s"
proof -
  have chars: "\<forall>w\<in>set (words_of ws_char s). w \<noteq> [] \<and> (\<forall>c\<in>set w. \<not> ws_char c)"
    using words_of_word_chars by blast
  then have "\<forall>w\<in>set (words_of ws_char s). w \<noteq> [] \<and> CHR '' '' \<notin> set w" by (auto simp: ws_char_def)
  then have "split_words s = words_of ws_char s" by (simp add: split_words_def canonicalise_words split_words_join)
  moreover have "words_of ws_char (join_with '' '' (words_of ws_char s)) = words_of ws_char s"
    by (rule words_of_join [OF chars]) (simp add: ws_char_def)
  ultimately show ?thesis by (simp add: canonicalise_words)
qed

text \<open>A last line without a newline is lost when blank lines are condensed.\<close>

lemma condense_loses_last_line:
  "condense_blank_lines (''a'' @ [CHR 0x0a] @ ''b'') = ''a'' @ [CHR 0x0a]"
  by (simp add: condense_blank_lines_def condense_step_def Let_def)

text \<open>
  A text that starts with a newline is split according to the character that precedes its buffer
  in memory.
\<close>

lemma split_lines_reads_before:
  "split_lines (CHR 0x00) [CHR 0x0a] False = [[]]" "split_lines (CHR 0x0d) [CHR 0x0a] False = [[CHR 0x0a]]"
  by (simp_all add: split_lines_def split_lines_loop.simps)

end
