(* ===== verification/Split.thy ===== *)
theory Split
  imports Whitespace
begin

text \<open>
  Field splitting, global substitution and CSV lines of libs/text (split.cc, subst.cc, csv.cc).
\<close>

section \<open>Split\<close>

text \<open>
  The loop of \<^verbatim>\<open>split\<close> on the text from \<^verbatim>\<open>p\<close> on; \<open>i\<close> is the loop counter and \<open>limit\<close> the bound, 0 for
  none. The loop ends at the bound or when no delimiter is left; what is left is the last field.
\<close>

definition split_field :: "bool \<Rightarrow> string \<Rightarrow> string" where
  "split_field canonicalise field = (if canonicalise then canonicalise_space field else field)"

function split_loop :: "char \<Rightarrow> bool \<Rightarrow> int \<Rightarrow> int \<Rightarrow> string \<Rightarrow> string list" where
  "split_loop delim canonicalise limit i s =
     (if limit = 0 \<or> i < limit - 1
      then (case find_first (\<lambda>c. c = delim) s of
              Some dp \<Rightarrow> split_field canonicalise (take dp s) # split_loop delim canonicalise limit (i + 1) (drop (dp + 1) s)
            | None \<Rightarrow> [split_field canonicalise s])
      else [split_field canonicalise s])"
  by pat_completeness auto
termination
  by (relation "measure (\<lambda>(delim, c, limit, i, s). length s)") (auto elim: find_first_Some)

declare split_loop.simps [simp del]

definition split :: "string \<Rightarrow> char \<Rightarrow> bool \<Rightarrow> int \<Rightarrow> string list" where
  "split s delim canonicalise limit = split_loop delim canonicalise limit 0 s"

section \<open>Substitution\<close>

text \<open>\<^verbatim>\<open>text.find(old, p)\<close>: the first position from \<open>p\<close> on where \<open>old\<close> occurs.\<close>

fun find_string :: "string \<Rightarrow> string \<Rightarrow> nat option" where
  "find_string old s =
     (if take (length old) s = old then Some 0
      else case s of [] \<Rightarrow> None | _ # r \<Rightarrow> map_option Suc (find_string old r))"

declare find_string.simps [simp del]

text \<open>
  The loop of \<^verbatim>\<open>subst\<close>, on the text before and after \<^verbatim>\<open>p\<close>. It may run for ever, so its rounds are bounded
  by fuel; \<open>None\<close> is a run that has not ended.
\<close>

primrec subst_loop :: "nat \<Rightarrow> string \<Rightarrow> string \<Rightarrow> string \<Rightarrow> string \<Rightarrow> string option" where
  "subst_loop 0 old rep before s = None"
| "subst_loop (Suc fuel) old rep before s =
     (if s = [] then Some before
      else case find_string old s of
             None \<Rightarrow> Some (before @ s)
           | Some k \<Rightarrow> subst_loop fuel old rep (before @ take k s @ rep) (drop (k + length old) s))"

definition subst :: "nat \<Rightarrow> string \<Rightarrow> string \<Rightarrow> string \<Rightarrow> string option" where
  "subst fuel s old rep = subst_loop fuel old rep [] s"

section \<open>CSV\<close>

record csv_state =
  csv_var :: string
  in_quote :: bool
  escaped :: bool
  csv_vars :: "string list"

text \<open>One character of the loop; the first test is the lookahead after a quote inside a quoted field.\<close>

definition csv_normal :: "char \<Rightarrow> csv_state \<Rightarrow> char \<Rightarrow> csv_state" where
  "csv_normal sep st c =
     (if c = sep \<and> \<not> in_quote st then st \<lparr> csv_vars := csv_vars st @ [csv_var st], csv_var := [] \<rparr>
      else if c = CHR 0x22 then
        (if in_quote st then st \<lparr> escaped := True \<rparr> else st \<lparr> in_quote := True \<rparr>)
      else st \<lparr> csv_var := csv_var st @ [c] \<rparr>)"

definition csv_step :: "char \<Rightarrow> csv_state \<Rightarrow> char \<Rightarrow> csv_state" where
  "csv_step sep st c =
     (if escaped st then
        (if c = CHR 0x22 then st \<lparr> escaped := False, csv_var := csv_var st @ [c] \<rparr>
         else csv_normal sep (st \<lparr> escaped := False, in_quote := False \<rparr>) c)
      else csv_normal sep st c)"

definition csv_read_line :: "char \<Rightarrow> string \<Rightarrow> string list \<Rightarrow> string list" where
  "csv_read_line sep line vars =
     (if line = [] then vars
      else let st = foldl (csv_step sep) \<lparr> csv_var = [], in_quote = False, escaped = False, csv_vars = vars \<rparr> line
           in csv_vars st @ [csv_var st])"

definition csv_read :: "char \<Rightarrow> char \<Rightarrow> string \<Rightarrow> string list list \<Rightarrow> bool \<Rightarrow> string list list" where
  "csv_read before sep s data skip_header =
     data @ map (\<lambda>line. csv_read_line sep line [])
       (if skip_header then tl (split_lines before s False) else split_lines before s False)"

section \<open>Properties\<close>

lemma split_loop_join: "join_with [delim] (split_loop delim False limit i s) = s \<and> split_loop delim False limit i s \<noteq> []"
proof (induction delim False limit i s rule: split_loop.induct)
  case (1 delim limit i s)
  show ?case
  proof (cases "limit = 0 \<or> i < limit - 1")
    case True
    show ?thesis
    proof (cases "find_first (\<lambda>c. c = delim) s")
      case (Some dp)
      then obtain w r where s: "s = w @ delim # r" "length w = dp" by (auto elim: find_first_Some)
      with 1 [OF True Some] True Some show ?thesis
        by (simp add: split_loop.simps [of delim False limit i "w @ delim # r"] split_field_def join_with_Cons)
    qed (use True in \<open>simp add: split_loop.simps [of delim False limit i s] split_field_def\<close>)
  qed (simp add: split_loop.simps [of delim False limit i s] split_field_def)
qed

lemma split_loop_length: "0 < limit \<Longrightarrow> 0 \<le> i \<Longrightarrow> i < limit \<Longrightarrow> int (length (split_loop delim canon limit i s)) \<le> limit - i"
proof (induction delim canon limit i s rule: split_loop.induct)
  case (1 delim canon limit i s)
  then show ?case
    by (simp add: split_loop.simps [of delim canon limit i s] split: option.split) (smt (verit) option.inject)
qed

lemma split_loop_fields: "w \<in> set (split_loop delim False 0 i s) \<Longrightarrow> delim \<notin> set w"
proof (induction delim False "0 :: int" i s rule: split_loop.induct)
  case (1 delim i s)
  show ?case
  proof (cases "find_first (\<lambda>c. c = delim) s")
    case (Some dp)
    then obtain v r where s: "s = v @ delim # r" "length v = dp" "\<forall>c\<in>set v. c \<noteq> delim" by (auto elim: find_first_Some)
    with 1 Some show ?thesis
      by (auto simp: split_loop.simps [of delim False 0 i "v @ delim # r"] split_field_def)
  next
    case None
    with 1 show ?thesis by (auto simp: split_loop.simps [of delim False 0 i s] split_field_def find_first_None)
  qed
qed

text \<open>
  Splitting loses nothing. Joining the fields with the delimiter gives the text back; without a
  limit no field contains the delimiter, and with one there are at most that many fields.
\<close>

theorem split_join:
  "join_with [delim] (split s delim False limit) = s
   \<and> (0 < limit \<longrightarrow> int (length (split s delim False limit)) \<le> limit)
   \<and> list_all (\<lambda>w. delim \<notin> set w) (split s delim False 0)"
  using split_loop_join [of delim limit 0 s] split_loop_length [of limit 0 delim False s] split_loop_fields [of _ delim 0 s]
  by (auto simp: split_def list_all_iff)

theorem split_join_witness:
  "int (length (split ''a,b,c'' (CHR '','') False 2)) \<le> 2 \<and> split ''a,b,c'' (CHR '','') False 2 = [''a'', ''b,c'']"
  using split_join [of "CHR '',''" "''a,b,c''" 2] by (simp add: split_def split_loop.simps split_field_def)

text \<open>The substitution as a definition: replace leftmost occurrences that do not overlap.\<close>

function replace_all :: "string \<Rightarrow> string \<Rightarrow> string \<Rightarrow> string" where
  "replace_all old rep s =
     (if old = [] \<or> s = [] then s
      else if take (length old) s = old then rep @ replace_all old rep (drop (length old) s)
      else hd s # replace_all old rep (tl s))"
  by pat_completeness auto
termination by (relation "measure (\<lambda>(old, rep, s). length s)") auto

declare replace_all.simps [simp del]

lemma find_string_replace:
  "old \<noteq> [] \<Longrightarrow>
   replace_all old rep s =
     (case find_string old s of None \<Rightarrow> s | Some k \<Rightarrow> take k s @ rep @ replace_all old rep (drop (k + length old) s))"
proof (induction s)
  case Nil
  then show ?case by (simp add: replace_all.simps find_string.simps [of old "[]"])
next
  case (Cons c s)
  then show ?case
    by (auto simp: replace_all.simps [of old rep "c # s"] find_string.simps [of old "c # s"] split: option.split)
qed

lemma find_string_inside: "find_string old s = Some k \<Longrightarrow> k + length old \<le> length s"
proof (induction s arbitrary: k)
  case Nil
  then show ?case by (auto simp: find_string.simps [of old "[]"] split: if_splits)
next
  case (Cons c s)
  show ?case
  proof (cases "take (length old) (c # s) = old")
    case True
    then have "length old \<le> length (c # s)" by (metis length_take min.cobounded1)
    with True Cons.prems show ?thesis by (simp add: find_string.simps [of old "c # s"])
  next
    case False
    with Cons show ?thesis by (auto simp: find_string.simps [of old "c # s"])
  qed
qed

lemma subst_loop_result:
  "old \<noteq> [] \<Longrightarrow> length s < fuel \<Longrightarrow> subst_loop fuel old rep before s = Some (before @ replace_all old rep s)"
proof (induction fuel arbitrary: before s)
  case (Suc fuel)
  show ?case
  proof (cases "s = []")
    case False
    have "length (drop (k + length old) s) < fuel" if "find_string old s = Some k" for k
      using find_string_inside [OF that] Suc.prems False by (cases old) auto
    with Suc False show ?thesis by (auto simp: find_string_replace [of old rep s] split: option.split)
  qed (simp add: replace_all.simps)
qed simp

lemma subst_loop_empty: "s \<noteq> [] \<Longrightarrow> subst_loop fuel [] rep before s = None"
  by (induction fuel arbitrary: before) (simp_all add: find_string.simps)

text \<open>
  \<^verbatim>\<open>subst\<close> replaces all occurrences, and when it ends. For a non-empty pattern the loop ends within
  one round per character and gives the text with every leftmost, non-overlapping occurrence
  replaced, also when the replacement contains the pattern. For an empty pattern and a non-empty
  text it never ends, whatever the number of rounds.
\<close>

theorem subst_replaces_all:
  "(old \<noteq> [] \<longrightarrow> subst (length s + 1) s old rep = Some (replace_all old rep s))
   \<and> (s \<noteq> [] \<longrightarrow> subst fuel s [] rep = None)"
  by (simp add: subst_def subst_loop_result subst_loop_empty del: subst_loop.simps)

theorem subst_replaces_all_witness:
  "subst 6 ''banana'' [] ''x'' = None \<and> subst 7 ''banana'' ''an'' ''ana'' = Some ''banaanaa''"
  using subst_replaces_all [of "''an''" "''banana''" "''ana''" 6] subst_replaces_all [of "''an''" "''banana''" "''x''" 6]
  by (simp add: replace_all.simps eval_nat_numeral del: subst_loop.simps)

section \<open>CSV lines\<close>

text \<open>
  The writer's side of RFC 4180: a field is written between quotes with its quotes doubled, or as it
  is if it has neither quote nor separator.
\<close>

definition csv_quoted :: "string \<Rightarrow> string" where
  "csv_quoted f = [CHR 0x22] @ concat (map (\<lambda>c. if c = CHR 0x22 then [c, c] else [c]) f) @ [CHR 0x22]"

definition csv_field :: "bool \<times> string \<Rightarrow> string" where
  "csv_field f = (if fst f then csv_quoted (snd f) else snd f)"

definition csv_field_ok :: "char \<Rightarrow> bool \<times> string \<Rightarrow> bool" where
  "csv_field_ok sep f \<longleftrightarrow> fst f \<or> sep \<notin> set (snd f) \<and> CHR 0x22 \<notin> set (snd f)"

abbreviation csv_at :: "string \<Rightarrow> bool \<Rightarrow> bool \<Rightarrow> string list \<Rightarrow> csv_state" where
  "csv_at var q e vars \<equiv> \<lparr> csv_var = var, in_quote = q, escaped = e, csv_vars = vars \<rparr>"

lemma csv_inside_quotes:
  "foldl (csv_step sep) (csv_at var True False vars) (concat (map (\<lambda>c. if c = CHR 0x22 then [c, c] else [c]) f))
   = csv_at (var @ f) True False vars"
  by (induction f arbitrary: var) (simp_all add: csv_step_def csv_normal_def)

lemma csv_plain:
  "sep \<notin> set f \<Longrightarrow> CHR 0x22 \<notin> set f \<Longrightarrow>
   foldl (csv_step sep) (csv_at var False False vars) f = csv_at (var @ f) False False vars"
  by (induction f arbitrary: var) (auto simp: csv_step_def csv_normal_def)

lemma csv_one_field:
  assumes "sep \<noteq> CHR 0x22" "csv_field_ok sep f"
  shows "foldl (csv_step sep) (csv_at [] False False vars) (csv_field f) = csv_at (snd f) (fst f) (fst f) vars"
proof (cases "fst f")
  case True
  have "csv_step sep (csv_at [] False False vars) (CHR 0x22) = csv_at [] True False vars"
    using assms(1) by (simp add: csv_step_def csv_normal_def)
  then have "foldl (csv_step sep) (csv_at [] False False vars) (csv_quoted (snd f))
      = csv_step sep (csv_at (snd f) True False vars) (CHR 0x22)"
    using csv_inside_quotes [of sep "[]" vars "snd f"] by (simp add: csv_quoted_def)
  with True show ?thesis by (simp add: csv_field_def csv_step_def csv_normal_def)
next
  case False
  with assms(2) csv_plain [of sep "snd f" "[]" vars] show ?thesis by (simp add: csv_field_def csv_field_ok_def)
qed

lemma csv_separator:
  "sep \<noteq> CHR 0x22 \<Longrightarrow> csv_step sep (csv_at var q q vars) sep = csv_at [] False False (vars @ [var])"
  by (cases q) (simp_all add: csv_step_def csv_normal_def)

lemma csv_fields:
  assumes "sep \<noteq> CHR 0x22" "list_all (csv_field_ok sep) fs" "fs \<noteq> []"
  shows "\<exists>q. foldl (csv_step sep) (csv_at [] False False vars) (join_with [sep] (map csv_field fs))
    = csv_at (snd (last fs)) q q (vars @ map snd (butlast fs))"
  using assms(2,3)
proof (induction fs arbitrary: vars)
  case (Cons f fs)
  then show ?case
    using csv_one_field [OF assms(1), of f vars] Cons.IH [of "vars @ [snd f]"]
    by (cases "fs = []") (auto simp: join_with_Cons csv_separator [OF assms(1)])
qed simp

text \<open>
  CSV lines are read back. A line of fields written to RFC 4180, each quoted or plain, is read as
  exactly these fields, whatever characters the quoted ones contain, and they are added after the
  variables already in the vector.
\<close>

theorem csv_line_roundtrip:
  assumes "sep \<noteq> CHR 0x22" "list_all (csv_field_ok sep) fs" "join_with [sep] (map csv_field fs) \<noteq> []"
  shows "csv_read_line sep (join_with [sep] (map csv_field fs)) vars = vars @ map snd fs"
proof -
  have fs: "fs \<noteq> []" using assms(3) by auto
  obtain q where "foldl (csv_step sep) (csv_at [] False False vars) (join_with [sep] (map csv_field fs))
      = csv_at (snd (last fs)) q q (vars @ map snd (butlast fs))"
    using csv_fields [OF assms(1,2) fs] by blast
  moreover have "map snd (butlast fs) @ [snd (last fs)] = map snd fs"
    using fs by (metis append_butlast_last_id list.simps(8,9) map_append)
  ultimately show ?thesis using assms(3) by (simp add: csv_read_line_def)
qed

theorem csv_line_roundtrip_witness:
  "csv_read_line (CHR '','') (''a,'' @ [CHR 0x22, CHR '','', CHR 0x22, CHR 0x22, CHR 0x22]) [] = [''a'', [CHR '','', CHR 0x22]]"
  using csv_line_roundtrip [of "CHR '',''" "[(False, ''a''), (True, [CHR '','', CHR 0x22])]" "[]"]
  by (simp add: csv_field_ok_def csv_field_def csv_quoted_def)

end
