(* ===== verification/Range_Set.thy ===== *)
theory Range_Set
  imports Split Convert Writers
begin

text \<open>
  The range set of libs/misc (\<^verbatim>\<open>RangeSet\<close> in ot-misc.h, range.cc), at the 64-bit offsets and lengths
  of \<^verbatim>\<open>UInt64RangeSet\<close>. The ordered set of ranges is a list; an iterator into it is the split of the
  list at its position. All arithmetic wraps at 64 bits, as in the source.
\<close>

section \<open>A range\<close>

record Range =
  rg_start :: u64
  rg_length :: u64

definition mk_range :: "u64 \<Rightarrow> u64 \<Rightarrow> Range" where
  "mk_range start len = \<lparr> rg_start = start, rg_length = len \<rparr>"

definition rg_end :: "Range \<Rightarrow> u64" where
  "rg_end r = rg_start r + rg_length r"

definition merge :: "Range \<Rightarrow> Range \<Rightarrow> Range" where
  "merge r b = (let e = rg_end r; start = min (rg_start r) (rg_start b)
     in mk_range start (max e (rg_end b) - start))"

definition remove_from_start :: "Range \<Rightarrow> Range \<Rightarrow> Range" where
  "remove_from_start r b = (let e = rg_end r; start = max (rg_start r) (rg_end b) in mk_range start (e - start))"

definition remove_from_end :: "Range \<Rightarrow> Range \<Rightarrow> Range" where
  "remove_from_end r b = mk_range (rg_start r) (min (rg_end r) (rg_start b) - rg_start r)"

definition remove_from_middle :: "Range \<Rightarrow> Range \<Rightarrow> Range \<times> Range" where
  "remove_from_middle r b =
     (let e = rg_end r in (mk_range (rg_start r) (rg_start b - rg_start r), mk_range (rg_end b) (e - rg_end b)))"

definition overlaps_with :: "Range \<Rightarrow> Range \<Rightarrow> bool" where
  "overlaps_with r b \<longleftrightarrow>
     (let e = rg_end r; b_e = rg_end b
      in (rg_start r \<le> rg_start b \<and> e \<ge> rg_start b) \<or> (rg_start r \<le> b_e \<and> e \<ge> b_e)
         \<or> (rg_start r \<ge> rg_start b \<and> e \<le> b_e))"

definition contained_by :: "Range \<Rightarrow> Range \<Rightarrow> bool" where
  "contained_by r b \<longleftrightarrow> rg_start r \<ge> rg_start b \<and> rg_end r \<le> rg_end b"

definition start_overlapped_by :: "Range \<Rightarrow> Range \<Rightarrow> bool" where
  "start_overlapped_by r b \<longleftrightarrow> rg_start r \<ge> rg_start b \<and> rg_start r < rg_end b"

definition end_overlapped_by :: "Range \<Rightarrow> Range \<Rightarrow> bool" where
  "end_overlapped_by r b \<longleftrightarrow> rg_end r > rg_start b \<and> rg_end r \<le> rg_end b"

section \<open>The set\<close>

record RangeSet =
  rs_ranges :: "Range list"
  end_offset :: u64

definition range_set :: "u64 \<Rightarrow> RangeSet" where
  "range_set end_off = \<lparr> rs_ranges = [], end_offset = end_off \<rparr>"

text \<open>Insertion into \<^verbatim>\<open>std::set\<close>: ranges compare by start, and an equivalent element is kept.\<close>

fun set_insert :: "Range \<Rightarrow> Range list \<Rightarrow> Range list" where
  "set_insert r [] = [r]"
| "set_insert r (x # xs) =
     (if rg_start x < rg_start r then x # set_insert r xs
      else if rg_start r < rg_start x then r # x # xs else x # xs)"

text \<open>\<^verbatim>\<open>lower_bound\<close>, as the parts of the list before and from the iterator on; and a step back.\<close>

definition lower_bound :: "u64 \<Rightarrow> Range list \<Rightarrow> Range list \<times> Range list" where
  "lower_bound start rs = (takeWhile (\<lambda>x. rg_start x < start) rs, dropWhile (\<lambda>x. rg_start x < start) rs)"

definition step_back :: "Range list \<times> Range list \<Rightarrow> Range list \<times> Range list" where
  "step_back it = (butlast (fst it), last (fst it) # snd it)"

fun eat_overlapping :: "Range \<Rightarrow> Range list \<Rightarrow> Range \<times> Range list" where
  "eat_overlapping r [] = (r, [])"
| "eat_overlapping r (x # xs) =
     (if overlaps_with x r then eat_overlapping (merge r x) xs else (r, x # xs))"

definition insert_position :: "u64 \<Rightarrow> Range list \<Rightarrow> Range list \<times> Range list" where
  "insert_position start rs =
     (let it = lower_bound start rs
      in if (snd it = [] \<and> fst it \<noteq> []) \<or> (snd it \<noteq> [] \<and> fst it \<noteq> [] \<and> rg_start (hd (snd it)) > start)
         then (if rg_end (last (fst it)) < start then it else step_back it)
         else it)"

definition rs_insert :: "RangeSet \<Rightarrow> u64 \<Rightarrow> u64 \<Rightarrow> RangeSet" where
  "rs_insert s start len =
     (if len = 0 then s
      else case insert_position start (rs_ranges s) of
             (before, rest) \<Rightarrow>
               (case eat_overlapping (mk_range start len) rest of
                  (r, rest) \<Rightarrow>
                    s \<lparr> rs_ranges := set_insert r (before @ rest),
                        end_offset := (if rg_end r > end_offset s then rg_end r else end_offset s) \<rparr>))"

definition rs_insert_set :: "RangeSet \<Rightarrow> RangeSet \<Rightarrow> RangeSet" where
  "rs_insert_set s o' = foldl (\<lambda>s r. rs_insert s (rg_start r) (rg_length r)) s (rs_ranges o')"

definition set_union :: "RangeSet \<Rightarrow> RangeSet \<Rightarrow> RangeSet" where
  "set_union s o' = rs_insert_set s o'"

text \<open>
  Removal. An iterator survives insertions into the set: a new range goes before it or after it
  according to its start. The loop is bounded by fuel.
\<close>

definition insert_around :: "Range \<Rightarrow> Range list \<times> Range list \<Rightarrow> Range list \<times> Range list" where
  "insert_around r it =
     (if snd it = [] \<or> rg_start r < rg_start (hd (snd it)) then (set_insert r (fst it), snd it)
      else (fst it, set_insert r (snd it)))"

definition remove_one :: "Range \<Rightarrow> Range \<Rightarrow> Range list \<times> Range list \<Rightarrow> Range list \<times> Range list" where
  "remove_one b x it =
     (if contained_by x b then it
      else if start_overlapped_by x b then insert_around (remove_from_start x b) it
      else if end_overlapped_by x b then insert_around (remove_from_end x b) it
      else case remove_from_middle x b of (r, r2) \<Rightarrow> insert_around r2 (insert_around r it))"

primrec remove_overlapping :: "nat \<Rightarrow> Range \<Rightarrow> Range list \<times> Range list \<Rightarrow> Range list option" where
  "remove_overlapping 0 b it = None"
| "remove_overlapping (Suc fuel) b it =
     (case snd it of
        [] \<Rightarrow> Some (fst it)
      | x # rest \<Rightarrow>
          if overlaps_with x b then remove_overlapping fuel b (remove_one b x (fst it, rest))
          else Some (fst it @ x # rest))"

definition remove_position :: "u64 \<Rightarrow> Range list \<Rightarrow> Range list \<times> Range list" where
  "remove_position start rs =
     (let it = lower_bound start rs
      in if fst it \<noteq> [] \<and> (snd it = [] \<or> rg_start (hd (snd it)) > start) then step_back it else it)"

definition rs_remove :: "RangeSet \<Rightarrow> u64 \<Rightarrow> u64 \<Rightarrow> RangeSet option" where
  "rs_remove s start len =
     (if len = 0 then Some s
      else map_option (\<lambda>rs. s \<lparr> rs_ranges := rs \<rparr>)
        (remove_overlapping (length (rs_ranges s) + 2) (mk_range start len) (remove_position start (rs_ranges s))))"

definition rs_remove_set :: "RangeSet \<Rightarrow> RangeSet \<Rightarrow> RangeSet option" where
  "rs_remove_set s o' =
     foldl (\<lambda>s r. Option.bind s (\<lambda>s. rs_remove s (rg_start r) (rg_length r))) (Some s) (rs_ranges o')"

definition difference :: "RangeSet \<Rightarrow> RangeSet \<Rightarrow> RangeSet option" where
  "difference s o' = rs_remove_set s o'"

text \<open>
  The holes. The insertions into the result carry a hint, which does not change what is inserted;
  \<open>prev\<close> is the range before, if any.
\<close>

fun inverse_loop :: "Range option \<Rightarrow> Range list \<Rightarrow> Range list \<Rightarrow> Range option \<times> Range list" where
  "inverse_loop prev [] acc = (prev, acc)"
| "inverse_loop prev (r # rs) acc =
     (let acc = (case prev of
                   Some p \<Rightarrow> set_insert (mk_range (rg_end p) (rg_start r - rg_end p)) acc
                 | None \<Rightarrow> if rg_start r > 0 then set_insert (mk_range 0 (rg_start r)) acc else acc)
      in inverse_loop (Some r) rs acc)"

definition rs_inverse :: "RangeSet \<Rightarrow> RangeSet" where
  "rs_inverse s =
     (case inverse_loop None (rs_ranges s) [] of
        (prev, acc) \<Rightarrow>
          \<lparr> rs_ranges =
              (case prev of
                 Some p \<Rightarrow> if end_offset s > rg_end p
                            then set_insert (mk_range (rg_end p) (end_offset s - rg_end p)) acc else acc
               | None \<Rightarrow> if end_offset s > 0 then set_insert (mk_range 0 (end_offset s)) acc else acc),
            end_offset = end_offset s \<rparr>)"

definition rs_intersection :: "RangeSet \<Rightarrow> RangeSet \<Rightarrow> RangeSet option" where
  "rs_intersection s o' =
     (let io2 = rs_inverse (o' \<lparr> end_offset := end_offset s \<rparr>) in rs_remove_set s io2)"

definition rs_clear :: "RangeSet \<Rightarrow> RangeSet" where
  "rs_clear s = s \<lparr> rs_ranges := [] \<rparr>"

definition rs_contains :: "RangeSet \<Rightarrow> u64 \<Rightarrow> u64 \<Rightarrow> bool" where
  "rs_contains s start len = list_ex (\<lambda>p. contained_by (mk_range start len) p) (rs_ranges s)"

definition coverage :: "RangeSet \<Rightarrow> u64" where
  "coverage s = foldl (\<lambda>sum p. sum + rg_length p) 0 (rs_ranges s)"

definition is_complete :: "RangeSet \<Rightarrow> bool" where
  "is_complete s \<longleftrightarrow> end_offset s = 0 \<or> rs_contains s 0 (end_offset s)"

definition percentage_complete :: "RangeSet \<Rightarrow> u32" where
  "percentage_complete s = (if end_offset s \<noteq> 0 then ucast ((100 * coverage s) div end_offset s) else 100)"

section \<open>Text and binary forms\<close>

definition read_range_text :: "RangeSet \<Rightarrow> string \<Rightarrow> RangeSet" where
  "read_range_text s r =
     (if r = [] then s
      else let ends = split r (CHR ''-'') True 0;
               start = scast (stoi (ends ! 0));
               len = (if length ends \<ge> 2 then stoi64 (ends ! 1) - start + 1 else 1)
           in rs_insert s start len)"

definition rs_read_text :: "RangeSet \<Rightarrow> string \<Rightarrow> RangeSet" where
  "rs_read_text s txt = foldl read_range_text s (split txt (CHR '','') True 0)"

definition rs_str :: "RangeSet \<Rightarrow> string" where
  "rs_str s =
     foldl (\<lambda>txt r. txt @ (if txt \<noteq> [] then [CHR '',''] else []) @ i64tos (rg_start r)
       @ (if rg_length r > 1 then [CHR ''-''] @ i64tos (rg_start r + rg_length r - 1) else [])) [] (rs_ranges s)"

primrec rs_read_loop :: "nat \<Rightarrow> 's Reader \<Rightarrow> RangeSet \<Rightarrow> ('s, RangeSet) chan" where
  "rs_read_loop 0 r s = chan_return s"
| "rs_read_loop (Suc n) r s =
     chan_bind (read_nbo_64 r) (\<lambda>start. chan_bind (read_nbo_64 r) (\<lambda>len. rs_read_loop n r (rs_insert s start len)))"

definition rs_read :: "'s Reader \<Rightarrow> RangeSet \<Rightarrow> ('s, RangeSet) chan" where
  "rs_read r s =
     chan_bind (read_nbo_64 r) (\<lambda>e. chan_bind (read_nbo_32 r) (\<lambda>n.
       rs_read_loop (unat n) r (s \<lparr> end_offset := e \<rparr>)))"

primrec rs_write_loop :: "'s Writer \<Rightarrow> Range list \<Rightarrow> ('s, unit) chan" where
  "rs_write_loop w [] = chan_return ()"
| "rs_write_loop w (r # rs) =
     chan_bind (write_nbo_64 w (rg_start r)) (\<lambda>_. chan_bind (write_nbo_64 w (rg_length r)) (\<lambda>_. rs_write_loop w rs))"

definition rs_write :: "'s Writer \<Rightarrow> RangeSet \<Rightarrow> ('s, unit) chan" where
  "rs_write w s =
     chan_bind (write_nbo_64 w (end_offset s)) (\<lambda>_. chan_bind (write_nbo_32 w (of_nat (length (rs_ranges s)))) (\<lambda>_.
       rs_write_loop w (rs_ranges s)))"

section \<open>What a range set stands for\<close>

abbreviation lo :: "Range \<Rightarrow> nat" where
  "lo r \<equiv> unat (rg_start r)"

definition hi :: "Range \<Rightarrow> nat" where
  "hi r = lo r + unat (rg_length r)"

definition range_ok :: "Range \<Rightarrow> bool" where
  "range_ok r \<longleftrightarrow> rg_length r \<noteq> 0 \<and> hi r < 2 ^ 64"

text \<open>
  The invariant the source states: ranges in order, none overlaps and no two touch. And the set of
  offsets a list of ranges covers.
\<close>

definition ranges_ok :: "Range list \<Rightarrow> bool" where
  "ranges_ok rs \<longleftrightarrow> list_all range_ok rs \<and> sorted_wrt (\<lambda>a b. hi a < lo b) rs"

definition rs_ok :: "RangeSet \<Rightarrow> bool" where
  "rs_ok s \<longleftrightarrow> ranges_ok (rs_ranges s)"

definition elems :: "Range list \<Rightarrow> nat set" where
  "elems rs = (\<Union>r\<in>set rs. {lo r..<hi r})"

definition offsets :: "RangeSet \<Rightarrow> nat set" where
  "offsets s = elems (rs_ranges s)"

lemma elems_simps [simp]: "elems [] = {}" "elems (r # rs) = {lo r..<hi r} \<union> elems rs" "elems (rs @ rs') = elems rs \<union> elems rs'"
  by (simp_all add: elems_def)

lemma mk_range_fields [simp]: "rg_start (mk_range a b) = a" "rg_length (mk_range a b) = b"
  by (simp_all add: mk_range_def)

lemma hi_mk_range [simp]: "hi (mk_range a b) = unat a + unat b"
  by (simp add: hi_def)

lemma unat_end: "range_ok r \<Longrightarrow> unat (rg_end r) = hi r"
  unfolding range_ok_def rg_end_def hi_def by (simp add: unat_word_ariths)

lemma range_ok_less: "range_ok r \<Longrightarrow> lo r < hi r"
  unfolding range_ok_def hi_def by (simp add: unat_gt_0)

lemma unat_minus_le: "b \<le> a \<Longrightarrow> unat (a - b) = unat a - unat (b :: u64)"
  by (rule unat_sub)

lemma ranges_ok_Cons [simp]: "ranges_ok (r # rs) \<longleftrightarrow> range_ok r \<and> (\<forall>x\<in>set rs. hi r < lo x) \<and> ranges_ok rs"
  by (auto simp: ranges_ok_def)

lemma ranges_ok_Nil [simp]: "ranges_ok []"
  by (simp add: ranges_ok_def)

lemma ranges_ok_append:
  "ranges_ok (rs @ rs') \<longleftrightarrow> ranges_ok rs \<and> ranges_ok rs' \<and> (\<forall>a\<in>set rs. \<forall>b\<in>set rs'. hi a < lo b)"
  by (auto simp: ranges_ok_def sorted_wrt_append)

lemma ranges_ok_range: "ranges_ok rs \<Longrightarrow> r \<in> set rs \<Longrightarrow> range_ok r"
  by (auto simp: ranges_ok_def list_all_iff)

lemma merge_bounds:
  assumes "range_ok r" "range_ok b"
  shows "range_ok (merge r b)" "lo (merge r b) = min (lo r) (lo b)" "hi (merge r b) = max (hi r) (hi b)"
proof -
  let ?s = "min (rg_start r) (rg_start b)" and ?e = "max (rg_end r) (rg_end b)"
  have s: "unat ?s = min (lo r) (lo b)" by (simp add: min_def word_le_nat_alt)
  have e: "unat ?e = max (hi r) (hi b)" by (simp add: max_def word_le_nat_alt unat_end assms)
  have lt: "unat ?s < unat ?e" using range_ok_less [OF assms(1)] by (simp add: s e)
  then have "unat (?e - ?s) = unat ?e - unat ?s" by (intro unat_minus_le) (simp add: word_le_nat_alt)
  with lt s show "lo (merge r b) = min (lo r) (lo b)" and h: "hi (merge r b) = max (hi r) (hi b)"
    by (simp_all add: merge_def Let_def e)
  have "max (hi r) (hi b) < 2 ^ 64" using assms by (simp add: range_ok_def)
  moreover have "rg_length (merge r b) \<noteq> 0" using lt by (auto simp: merge_def Let_def)
  ultimately show "range_ok (merge r b)" using h by (simp add: range_ok_def)
qed

lemma overlaps_iff:
  assumes "range_ok x" "range_ok b"
  shows "overlaps_with x b \<longleftrightarrow> lo x \<le> hi b \<and> lo b \<le> hi x"
  using range_ok_less [OF assms(1)] range_ok_less [OF assms(2)]
  by (auto simp: overlaps_with_def Let_def word_le_nat_alt unat_end assms)

lemma eat_overlapping_result:
  assumes "range_ok r" "ranges_ok xs" "\<forall>x\<in>set xs. lo r \<le> hi x" "eat_overlapping r xs = (r', xs')"
  shows "range_ok r' \<and> ranges_ok xs' \<and> set xs' \<subseteq> set xs \<and> (\<forall>x\<in>set xs'. hi r' < lo x)
    \<and> (\<forall>n. n < lo r \<and> (\<forall>x\<in>set xs. n < lo x) \<longrightarrow> n < lo r')
    \<and> {lo r'..<hi r'} \<union> elems xs' = {lo r..<hi r} \<union> elems xs \<and> hi r \<le> hi r'"
  using assms
proof (induction xs arbitrary: r)
  case (Cons x xs)
  have x: "range_ok x" "ranges_ok xs" "\<forall>y\<in>set xs. hi x < lo y" "lo r \<le> hi x" using Cons.prems by auto
  show ?case
  proof (cases "overlaps_with x r")
    case True
    then have touch: "lo x \<le> hi r" using overlaps_iff [OF x(1) Cons.prems(1)] by simp
    note m = merge_bounds [OF Cons.prems(1) x(1)]
    have "\<forall>y\<in>set xs. lo (merge r x) \<le> hi y" using m x Cons.prems(3) by (auto simp: min_le_iff_disj)
    with Cons.IH [OF m(1) x(2)] True Cons.prems(4)
    have IH: "range_ok r' \<and> ranges_ok xs' \<and> set xs' \<subseteq> set xs \<and> (\<forall>x\<in>set xs'. hi r' < lo x)
      \<and> (\<forall>n. n < lo (merge r x) \<and> (\<forall>x\<in>set xs. n < lo x) \<longrightarrow> n < lo r')
      \<and> {lo r'..<hi r'} \<union> elems xs' = {lo (merge r x)..<hi (merge r x)} \<union> elems xs \<and> hi (merge r x) \<le> hi r'" by simp
    have "{lo (merge r x)..<hi (merge r x)} = {lo r..<hi r} \<union> {lo x..<hi x}"
      unfolding m using touch x(4) range_ok_less [OF x(1)] range_ok_less [OF Cons.prems(1)] by (auto simp: min_def max_def)
    with IH m show ?thesis by auto
  next
    case False
    then have "hi r < lo x" using overlaps_iff [OF x(1) Cons.prems(1)] x(4) by simp
    with False Cons.prems x range_ok_less [OF x(1)] show ?thesis by force
  qed
qed auto


lemma set_insert_middle:
  assumes "\<forall>a\<in>set before. lo a < lo r" "\<forall>b\<in>set rest. lo r < lo b"
  shows "set_insert r (before @ rest) = before @ r # rest"
  using assms
proof (induction before)
  case Nil
  then show ?case by (cases rest) (auto simp: word_less_nat_alt)
qed (auto simp: word_less_nat_alt)

lemma lower_bound_parts:
  assumes "ranges_ok rs" "lower_bound start rs = (before, rest)"
  shows "rs = before @ rest" "\<forall>a\<in>set before. lo a < unat start" "\<forall>b\<in>set rest. unat start \<le> lo b"
proof -
  show rs: "rs = before @ rest" using assms(2) by (auto simp: lower_bound_def)
  show "\<forall>a\<in>set before. lo a < unat start"
    using assms(2) by (auto simp: lower_bound_def word_less_nat_alt dest: set_takeWhileD)
  show "\<forall>b\<in>set rest. unat start \<le> lo b"
  proof (cases rest)
    case (Cons b bs)
    then have "\<not> rg_start b < start" using assms(2) by (auto simp: lower_bound_def dropWhile_eq_Cons_conv)
    moreover have "\<forall>c\<in>set bs. lo b < lo c"
      using assms(1) rs Cons range_ok_less [of b] by (fastforce simp: ranges_ok_append)
    ultimately show ?thesis using Cons by (auto simp: word_less_nat_alt)
  qed simp
qed

text \<open>Where the insertion starts: everything before ends before the new range, nothing after does.\<close>

lemma insert_position_parts:
  assumes "ranges_ok rs" "insert_position start rs = (before, rest)"
  shows "rs = before @ rest \<and> (\<forall>a\<in>set before. hi a < unat start) \<and> (\<forall>b\<in>set rest. unat start \<le> hi b)"
proof -
  obtain b1 r1 where lb: "lower_bound start rs = (b1, r1)" by fastforce
  note p = lower_bound_parts [OF assms(1) lb]
  have ok: "ranges_ok b1" "ranges_ok r1" "\<forall>a\<in>set b1. \<forall>b\<in>set r1. hi a < lo b"
    using assms(1) p(1) by (simp_all add: ranges_ok_append)
  have r1: "unat start \<le> hi b" if "b \<in> set r1" for b
    using p(3) that range_ok_less [OF ranges_ok_range [OF ok(2) that]] by fastforce
  show ?thesis
  proof (cases b1 rule: rev_cases)
    case Nil
    with assms(2) lb p r1 show ?thesis by (simp add: insert_position_def)
  next
    case (snoc bs l)
    then have l: "range_ok l" "lo l < hi l" "\<forall>a\<in>set bs. hi a < lo l" "lo l < unat start"
      using ok(1) p(2) range_ok_less [of l] by (auto simp: ranges_ok_append)
    have e: "rg_end l < start \<longleftrightarrow> hi l < unat start" using l(1) by (simp add: word_less_nat_alt unat_end)
    show ?thesis
    proof (cases "r1 = [] \<or> rg_start (hd r1) > start")
      case True
      with assms(2) lb snoc have it: "(before, rest) = (if hi l < unat start then (b1, r1) else (bs, l # r1))"
        by (auto simp: insert_position_def step_back_def e)
      with l r1 p(1) snoc show ?thesis by (force split: if_splits)
    next
      case False
      with assms(2) lb snoc have it: "before = b1" "rest = r1" by (auto simp: insert_position_def)
      have "lo (hd r1) \<le> unat start" using False by (simp add: word_less_nat_alt)
      then have "\<forall>a\<in>set b1. hi a < unat start" using ok(3) False by (meson hd_in_set less_le_trans)
      with it p(1) r1 show ?thesis by simp
    qed
  qed
qed

text \<open>
  C4: Inserting a range. The set keeps its invariant (ordered, disjoint, no two ranges touching), the
  offsets covered are those before and those of the new range, whatever it overlaps or touches,
  and the end offset grows to the furthest end seen.
\<close>

theorem range_insert_union:
  assumes "rs_ok s" "unat start + unat len < 2 ^ 64"
  shows "rs_ok (rs_insert s start len)
    \<and> offsets (rs_insert s start len) = offsets s \<union> {unat start..<unat start + unat len}
    \<and> end_offset s \<le> end_offset (rs_insert s start len)
    \<and> (offsets s \<subseteq> {..<unat (end_offset s)} \<longrightarrow>
         offsets (rs_insert s start len) \<subseteq> {..<unat (end_offset (rs_insert s start len))})"
proof (cases "len = 0")
  case False
  obtain before rest where pos: "insert_position start (rs_ranges s) = (before, rest)" by fastforce
  obtain r rest' where eat: "eat_overlapping (mk_range start len) rest = (r, rest')" by fastforce
  have ok: "ranges_ok (rs_ranges s)" using assms(1) by (simp add: rs_ok_def)
  note p = insert_position_parts [OF ok pos]
  have parts: "ranges_ok before" "ranges_ok rest" "\<forall>a\<in>set before. \<forall>b\<in>set rest. hi a < lo b"
    using ok p by (simp_all add: ranges_ok_append)
  have new: "range_ok (mk_range start len)" using False assms(2) by (simp add: range_ok_def)
  have e: "range_ok r \<and> ranges_ok rest' \<and> set rest' \<subseteq> set rest \<and> (\<forall>x\<in>set rest'. hi r < lo x)
    \<and> (\<forall>n. n < unat start \<and> (\<forall>x\<in>set rest. n < lo x) \<longrightarrow> n < lo r)
    \<and> {lo r..<hi r} \<union> elems rest' = {unat start..<unat start + unat len} \<union> elems rest
    \<and> unat start + unat len \<le> hi r"
    using eat_overlapping_result [OF new parts(2) _ eat] p by simp
  then have before: "\<forall>a\<in>set before. hi a < lo r" using p parts(3) by blast
  then have "set_insert r (before @ rest') = before @ r # rest'"
    using e parts(1) range_ok_less [of r]
    by (intro set_insert_middle) (force dest: ranges_ok_range range_ok_less)+
  then have s': "rs_ranges (rs_insert s start len) = before @ r # rest'"
    using False pos eat by (simp add: rs_insert_def)
  have "ranges_ok (before @ r # rest')"
    using e before parts by (auto simp: ranges_ok_append)
  moreover have "elems (before @ r # rest') = elems (rs_ranges s) \<union> {unat start..<unat start + unat len}"
    using e p by auto
  moreover have end': "unat (end_offset (rs_insert s start len)) = max (unat (end_offset s)) (hi r)"
    using False pos eat e unat_end [of r] by (simp add: rs_insert_def max_def word_less_nat_alt)
  ultimately show ?thesis using s' e by (auto simp: rs_ok_def offsets_def word_le_nat_alt)
qed (use assms in \<open>simp add: rs_insert_def\<close>)

theorem range_insert_union_witness:
  "rs_ok (rs_insert (rs_insert (range_set 0) 5 3) 8 2)
   \<and> offsets (rs_insert (rs_insert (range_set 0) 5 3) 8 2) = offsets (rs_insert (range_set 0) 5 3) \<union> {8..<10}"
  using range_insert_union [of "rs_insert (range_set 0) 5 3" 8 2] range_insert_union [of "range_set 0" 5 3]
  by (simp add: range_set_def rs_ok_def)

lemma ranges_apart: "ranges_ok rs \<Longrightarrow> x \<in> set rs \<Longrightarrow> y \<in> set rs \<Longrightarrow> x = y \<or> hi x < lo y \<or> hi y < lo x"
  by (induction rs) auto

section \<open>Removing a range\<close>

text \<open>How each piece of a range that is cut lies, for ranges that do not wrap.\<close>

lemma overlap_tests:
  assumes "range_ok x" "range_ok b"
  shows "contained_by x b \<longleftrightarrow> lo b \<le> lo x \<and> hi x \<le> hi b"
    "start_overlapped_by x b \<longleftrightarrow> lo b \<le> lo x \<and> lo x < hi b"
    "end_overlapped_by x b \<longleftrightarrow> lo b < hi x \<and> hi x \<le> hi b"
  by (simp_all add: contained_by_def start_overlapped_by_def end_overlapped_by_def word_le_nat_alt word_less_nat_alt
      unat_end assms)

lemma range_between:
  assumes "unat a < unat e" "range_ok x" "unat e \<le> hi x"
  shows "range_ok (mk_range a (e - a))" "hi (mk_range a (e - a)) = unat e"
proof -
  have "unat (e - a) = unat e - unat a" using assms(1) by (intro unat_minus_le) (simp add: word_le_nat_alt)
  with assms show "hi (mk_range a (e - a)) = unat e" "range_ok (mk_range a (e - a))"
    by (auto simp: range_ok_def)
qed

lemma remove_from_start_bounds:
  assumes "range_ok x" "range_ok b" "lo x < hi b" "hi b < hi x"
  shows "range_ok (remove_from_start x b)" "lo (remove_from_start x b) = hi b" "hi (remove_from_start x b) = hi x"
proof -
  have "max (rg_start x) (rg_end b) = rg_end b" using assms by (simp add: max_def word_le_nat_alt unat_end)
  then have r: "remove_from_start x b = mk_range (rg_end b) (rg_end x - rg_end b)" by (simp add: remove_from_start_def Let_def)
  show "range_ok (remove_from_start x b)" "lo (remove_from_start x b) = hi b" "hi (remove_from_start x b) = hi x"
    using range_between [of "rg_end b" "rg_end x" x] assms by (simp_all add: r unat_end)
qed

lemma remove_from_end_bounds:
  assumes "range_ok x" "range_ok b" "lo x < lo b" "lo b < hi x"
  shows "range_ok (remove_from_end x b)" "lo (remove_from_end x b) = lo x" "hi (remove_from_end x b) = lo b"
proof -
  have "min (rg_end x) (rg_start b) = rg_start b" using assms by (simp add: min_def word_le_nat_alt unat_end)
  then have r: "remove_from_end x b = mk_range (rg_start x) (rg_start b - rg_start x)" by (simp add: remove_from_end_def)
  show "range_ok (remove_from_end x b)" "lo (remove_from_end x b) = lo x" "hi (remove_from_end x b) = lo b"
    using range_between [of "rg_start x" "rg_start b" x] assms by (simp_all add: r)
qed

lemma remove_from_middle_bounds:
  assumes "range_ok x" "range_ok b" "lo x < lo b" "hi b < hi x"
  obtains r r2 where "remove_from_middle x b = (r, r2)" "range_ok r" "lo r = lo x" "hi r = lo b"
    "range_ok r2" "lo r2 = hi b" "hi r2 = hi x"
proof -
  have "lo b < hi b" using assms(2) by (rule range_ok_less)
  then show thesis
    using that range_between [of "rg_start x" "rg_start b" x] range_between [of "rg_end b" "rg_end x" x] assms
    by (auto simp: remove_from_middle_def Let_def unat_end)
qed

lemma insert_around_before:
  assumes "\<forall>a\<in>set before. lo a < lo r" "\<forall>y\<in>set rest. lo r < lo y"
  shows "insert_around r (before, rest) = (before @ [r], rest)"
proof -
  have "set_insert r (before @ []) = before @ r # []" using assms(1) by (intro set_insert_middle) simp_all
  with assms(2) show ?thesis by (cases rest) (auto simp: insert_around_def word_less_nat_alt)
qed

text \<open>The loop stops at the first range beyond the one removed.\<close>

lemma remove_stops:
  assumes "range_ok b" "ranges_ok rest" "\<forall>y\<in>set rest. hi b < lo y"
  shows "remove_overlapping (Suc fuel) b (before, rest) = Some (before @ rest)"
  using assms by (cases rest) (auto simp: overlaps_iff)

lemma elems_above: "\<forall>y\<in>set rest. n \<le> lo y \<Longrightarrow> elems rest \<inter> {..<n} = {}"
  by (auto simp: elems_def)

lemma remove_loop:
  assumes "range_ok b" "ranges_ok (before @ rest)" "\<forall>a\<in>set before. hi a \<le> lo b"
    "\<forall>x\<in>set rest. lo b < hi x \<and> lo x \<noteq> hi b" "length rest < fuel"
  shows "\<exists>rs. remove_overlapping fuel b (before, rest) = Some rs \<and> ranges_ok rs
    \<and> elems rs = elems before \<union> (elems rest - {lo b..<hi b})"
  using assms(2-)
proof (induction rest arbitrary: before fuel)
  case Nil
  then show ?case by (cases fuel) auto
next
  case (Cons x rest)
  obtain f where fuel: "fuel = Suc (Suc f)" using Cons.prems(4) by (cases fuel; cases "fuel - 1") auto
  have x: "range_ok x" "lo x < hi x" "lo b < hi x" "lo x \<noteq> hi b" "lo b < hi b"
    using Cons.prems range_ok_less [of x] range_ok_less [OF assms(1)] by (auto simp: ranges_ok_append)
  have ord: "ranges_ok before" "ranges_ok rest" "\<forall>y\<in>set rest. hi x < lo y"
    "\<forall>a\<in>set before. hi a < lo x" "\<forall>a\<in>set before. \<forall>y\<in>set rest. hi a < lo y"
    using Cons.prems(1) by (auto simp: ranges_ok_append)
  have low: "\<forall>a\<in>set before. lo a < lo x"
    using ord(1,4) by (meson less_trans range_ok_less ranges_ok_range)
  have over: "overlaps_with x b \<longleftrightarrow> lo x < hi b" using overlaps_iff [OF x(1) assms(1)] x by auto
  note t = overlap_tests [OF x(1) assms(1)]
  have past: "\<exists>rs. remove_overlapping (Suc f) b (before @ ps, rest) = Some rs \<and> ranges_ok rs
      \<and> elems rs = elems before \<union> (elems (x # rest) - {lo b..<hi b})"
    if "hi b < hi x" "ranges_ok ps" "\<forall>p\<in>set ps. lo x \<le> lo p \<and> hi p \<le> hi x" "elems ps = {lo x..<hi x} - {lo b..<hi b}" for ps
  proof -
    have above: "\<forall>y\<in>set rest. hi b < lo y" using that(1) ord(3) by fastforce
    have "ranges_ok (before @ ps @ rest)"
      using that(2,3) ord by (fastforce simp: ranges_ok_append)
    moreover have "elems rest - {lo b..<hi b} = elems rest" using elems_above [of rest "hi b"] above by fastforce
    ultimately show ?thesis
      using remove_stops [OF assms(1) ord(2) above, of f "before @ ps"] that(4) by auto
  qed
  have go_on: "\<exists>rs. remove_overlapping (Suc f) b (before @ ps, rest) = Some rs \<and> ranges_ok rs
      \<and> elems rs = elems before \<union> (elems (x # rest) - {lo b..<hi b})"
    if "ranges_ok ps" "\<forall>p\<in>set ps. lo x \<le> lo p \<and> hi p \<le> lo b" "elems ps = {lo x..<hi x} - {lo b..<hi b}" for ps
  proof -
    have "ranges_ok ((before @ ps) @ rest)" "\<forall>a\<in>set (before @ ps). hi a \<le> lo b"
      using that ord x Cons.prems(2) by (fastforce simp: ranges_ok_append)+
    from Cons.IH [OF this, of "Suc f"] Cons.prems(3,4) fuel that(3) show ?thesis by auto
  qed
  have step: "remove_overlapping fuel b (before, x # rest) = remove_overlapping (Suc f) b (remove_one b x (before, rest))"
    if "lo x < hi b"
    using that over fuel by simp
  consider (beyond) "hi b < lo x" | (inside) "lo x < hi b" "lo b \<le> lo x" "hi x \<le> hi b"
    | (right) "lo x < hi b" "lo b \<le> lo x" "hi b < hi x" | (left) "lo x < lo b" "hi x \<le> hi b"
    | (middle) "lo x < lo b" "hi b < hi x"
    using x by linarith
  then show ?case
  proof cases
    case beyond
    have "elems (x # rest) - {lo b..<hi b} = elems (x # rest)"
      using elems_above [of "x # rest" "hi b"] ord(3) beyond x(2) by fastforce
    with beyond over fuel Cons.prems(1) show ?thesis by simp
  next
    case inside
    then have "remove_one b x (before, rest) = (before @ [], rest)" by (simp add: remove_one_def t)
    with inside go_on [of "[]"] show ?thesis by (simp add: step)
  next
    case right
    let ?r = "remove_from_start x b"
    note r = remove_from_start_bounds [OF x(1) assms(1) right(1,3)]
    have "insert_around ?r (before, rest) = (before @ [?r], rest)"
      using r right ord low by (intro insert_around_before) fastforce+
    with right have "remove_one b x (before, rest) = (before @ [?r], rest)" by (simp add: remove_one_def t)
    moreover have "elems [?r] = {lo x..<hi x} - {lo b..<hi b}" using r right by auto
    ultimately show ?thesis using right r past [of "[?r]"] by (simp add: step del: remove_overlapping.simps)
  next
    case left
    let ?r = "remove_from_end x b"
    note r = remove_from_end_bounds [OF x(1) assms(1) left(1) x(3)]
    have "insert_around ?r (before, rest) = (before @ [?r], rest)"
      using r left x ord low by (intro insert_around_before) fastforce+
    with left x have "remove_one b x (before, rest) = (before @ [?r], rest)" by (simp add: remove_one_def t)
    moreover have "elems [?r] = {lo x..<hi x} - {lo b..<hi b}" using r left x by auto
    ultimately show ?thesis using left r x go_on [of "[?r]"] by (simp add: step del: remove_overlapping.simps)
  next
    case middle
    obtain r r2 where rm: "remove_from_middle x b = (r, r2)" and r: "range_ok r" "lo r = lo x" "hi r = lo b"
      "range_ok r2" "lo r2 = hi b" "hi r2 = hi x"
      using remove_from_middle_bounds [OF x(1) assms(1) middle] by blast
    have "insert_around r (before, rest) = (before @ [r], rest)"
      using r x ord low by (intro insert_around_before) fastforce+
    moreover have "insert_around r2 (before @ [r], rest) = ((before @ [r]) @ [r2], rest)"
      using r middle x ord low by (intro insert_around_before) fastforce+
    ultimately have "remove_one b x (before, rest) = (before @ [r, r2], rest)"
      using middle x rm by (simp add: remove_one_def t)
    moreover have "elems [r, r2] = {lo x..<hi x} - {lo b..<hi b}" using r middle x by auto
    ultimately show ?thesis using middle r x past [of "[r, r2]"] by (simp add: step del: remove_overlapping.simps)
  qed
qed

lemma remove_position_parts:
  assumes "ranges_ok rs" "remove_position start rs = (before, rest)"
    and "unat start \<in> elems rs \<or> (\<forall>r\<in>set rs. unat start \<le> lo r)"
  shows "rs = before @ rest \<and> (\<forall>a\<in>set before. hi a \<le> unat start) \<and> (\<forall>x\<in>set rest. unat start < hi x)"
proof -
  obtain b1 r1 where lb: "lower_bound start rs = (b1, r1)" by fastforce
  note p = lower_bound_parts [OF assms(1) lb]
  have ok: "ranges_ok b1" "ranges_ok r1" "\<forall>a\<in>set b1. \<forall>b\<in>set r1. hi a < lo b"
    using assms(1) p(1) by (simp_all add: ranges_ok_append)
  have r1: "unat start < hi b" if "b \<in> set r1" for b
    using p(3) that range_ok_less [OF ranges_ok_range [OF ok(2) that]] by fastforce
  show ?thesis
  proof (cases b1 rule: rev_cases)
    case Nil
    with assms(2) lb p r1 show ?thesis by (simp add: remove_position_def)
  next
    case (snoc bs l)
    then have l: "lo l < hi l" "\<forall>a\<in>set bs. hi a < lo l" "lo l < unat start"
      using ok(1) p(2) range_ok_less [of l] by (auto simp: ranges_ok_append)
    have "l \<in> set rs" "\<not> unat start \<le> lo l" using l p(1) snoc by auto
    with assms(3) have "unat start \<in> elems rs" by blast
    then obtain x where x: "x \<in> set rs" "lo x \<le> unat start" "unat start < hi x" by (auto simp: elems_def)
    show ?thesis
    proof (cases "r1 = [] \<or> rg_start (hd r1) > start")
      case True
      then have "x \<notin> set r1"
        using x ok(2) by (cases r1) (fastforce simp: word_less_nat_alt dest: range_ok_less)+
      moreover have "x \<notin> set bs" using x l by fastforce
      ultimately have "unat start < hi l" using x p(1) snoc by auto
      moreover from True assms(2) lb snoc have "before = bs" "rest = l # r1"
        by (auto simp: remove_position_def step_back_def)
      ultimately show ?thesis using l r1 p(1) snoc by force
    next
      case False
      with assms(2) lb snoc have it: "before = b1" "rest = r1" by (auto simp: remove_position_def)
      have "lo (hd r1) \<le> unat start" using False by (simp add: word_less_nat_alt)
      then have "\<forall>a\<in>set b1. hi a \<le> unat start" using ok(3) False by (meson hd_in_set le_trans less_imp_le)
      with it p(1) r1 show ?thesis by simp
    qed
  qed
qed

text \<open>
  C33: Removing a range that starts inside the set, or before everything in it, and touches no range at
  its edges. The loop ends, the set keeps its invariant, exactly the offsets of the range are gone
  and the end offset stays.
\<close>

theorem range_remove_difference:
  assumes "rs_ok s" "len \<noteq> 0" "unat start + unat len < 2 ^ 64"
    and "unat start \<in> offsets s \<or> (\<forall>r\<in>set (rs_ranges s). unat start \<le> lo r)"
    and "\<forall>r\<in>set (rs_ranges s). lo r \<noteq> unat start + unat len"
  shows "\<exists>s'. rs_remove s start len = Some s' \<and> rs_ok s'
    \<and> offsets s' = offsets s - {unat start..<unat start + unat len} \<and> end_offset s' = end_offset s"
proof -
  have ok: "ranges_ok (rs_ranges s)" using assms(1) by (simp add: rs_ok_def)
  obtain before rest where pos: "remove_position start (rs_ranges s) = (before, rest)" by fastforce
  have parts: "(\<forall>a\<in>set before. hi a \<le> unat start) \<and> (\<forall>x\<in>set rest. unat start < hi x)" and rs: "rs_ranges s = before @ rest"
    using remove_position_parts [OF ok pos] assms(4) by (auto simp: offsets_def)
  let ?b = "mk_range start len"
  have "range_ok ?b" using assms(2,3) by (simp add: range_ok_def)
  from remove_loop [OF this, of before rest "length (rs_ranges s) + 2"] ok parts assms(5) rs
  obtain rs' where "remove_overlapping (length (rs_ranges s) + 2) ?b (before, rest) = Some rs'" "ranges_ok rs'"
    "elems rs' = elems before \<union> (elems rest - {unat start..<unat start + unat len})"
    by auto
  moreover have "elems before \<inter> {unat start..<unat start + unat len} = {}"
    using parts by (fastforce simp: elems_def)
  ultimately show ?thesis
    using assms(2) pos rs by (auto simp: rs_remove_def rs_ok_def offsets_def)
qed

theorem range_remove_difference_witness:
  "\<exists>s'. rs_remove (rs_insert (range_set 0) 5 10) 7 2 = Some s' \<and> rs_ok s'
    \<and> offsets s' = offsets (rs_insert (range_set 0) 5 10) - {7..<9} \<and> end_offset s' = 15"
proof -
  have s: "rs_insert (range_set 0) 5 10 = \<lparr> rs_ranges = [mk_range 5 10], end_offset = 15 \<rparr>"
    by (simp add: rs_insert_def range_set_def insert_position_def lower_bound_def rg_end_def)
  show ?thesis
    using range_remove_difference [of "rs_insert (range_set 0) 5 10" 2 7]
    by (simp add: s rs_ok_def offsets_def range_ok_def)
qed

text \<open>
  Outside these conditions removal goes wrong: a range that begins before the one removed, without
  reaching it, hides those that follow; a range that only touches it is cut as if it contained it,
  and the length of the piece wraps.
\<close>

lemma remove_hidden_range:
  "rs_remove \<lparr> rs_ranges = [mk_range 0 5, mk_range 10 10], end_offset = 20 \<rparr> 8 4
   = Some \<lparr> rs_ranges = [mk_range 0 5, mk_range 10 10], end_offset = 20 \<rparr>"
  by (simp add: rs_remove_def remove_position_def lower_bound_def step_back_def overlaps_with_def rg_end_def Let_def)

lemma remove_touching_range:
  "rs_remove \<lparr> rs_ranges = [mk_range 0 5], end_offset = 20 \<rparr> 5 3
   = Some \<lparr> rs_ranges = [mk_range 0 5, mk_range 8 (- 3)], end_offset = 20 \<rparr>"
  by (simp add: rs_remove_def remove_position_def lower_bound_def step_back_def overlaps_with_def rg_end_def Let_def
      remove_one_def contained_by_def start_overlapped_by_def end_overlapped_by_def remove_from_middle_def
      insert_around_def)

lemma intersection_with_itself:
  "rs_intersection \<lparr> rs_ranges = [mk_range 0 5], end_offset = 10 \<rparr> \<lparr> rs_ranges = [mk_range 0 5], end_offset = 10 \<rparr>
   = Some \<lparr> rs_ranges = [mk_range 0 5, mk_range 10 (- 5)], end_offset = 10 \<rparr>"
  by (simp add: rs_intersection_def rs_inverse_def rs_remove_set_def rs_remove_def remove_position_def lower_bound_def
      step_back_def overlaps_with_def rg_end_def Let_def remove_one_def contained_by_def start_overlapped_by_def
      end_overlapped_by_def remove_from_middle_def insert_around_def)

section \<open>Holes and queries\<close>

definition bound :: "Range option \<Rightarrow> nat" where
  "bound prev = (case prev of None \<Rightarrow> 0 | Some p \<Rightarrow> hi p)"

lemma set_insert_last: "\<forall>a\<in>set acc. lo a < lo r \<Longrightarrow> set_insert r acc = acc @ [r]"
  using set_insert_middle [of acc r "[]"] by simp

lemma append_hole:
  assumes "ranges_ok acc" "\<forall>a\<in>set acc. hi a < unat a0" "unat a0 < unat e0" "unat e0 < 2 ^ 64"
  shows "set_insert (mk_range a0 (e0 - a0)) acc = acc @ [mk_range a0 (e0 - a0)]"
    "ranges_ok (acc @ [mk_range a0 (e0 - a0)])" "elems (acc @ [mk_range a0 (e0 - a0)]) = elems acc \<union> {unat a0..<unat e0}"
    "hi (mk_range a0 (e0 - a0)) = unat e0"
proof -
  have diff: "unat (e0 - a0) = unat e0 - unat a0" using assms(3) by (intro unat_minus_le) (simp add: word_le_nat_alt)
  show e: "hi (mk_range a0 (e0 - a0)) = unat e0" using diff assms(3) by simp
  have "e0 - a0 \<noteq> 0" using assms(3) by auto
  then have ok: "range_ok (mk_range a0 (e0 - a0))" using e assms(4) by (simp add: range_ok_def del: hi_mk_range)
  show "set_insert (mk_range a0 (e0 - a0)) acc = acc @ [mk_range a0 (e0 - a0)]"
    using assms(1,2) by (intro set_insert_last) (auto dest: ranges_ok_range range_ok_less less_trans)
  show "ranges_ok (acc @ [mk_range a0 (e0 - a0)])" using assms(1,2) ok by (simp add: ranges_ok_append)
  show "elems (acc @ [mk_range a0 (e0 - a0)]) = elems acc \<union> {unat a0..<unat e0}" using e by (simp del: hi_mk_range)
qed

lemma inverse_loop_result:
  assumes "ranges_ok rs" "\<forall>p. prev = Some p \<longrightarrow> range_ok p \<and> (\<forall>r\<in>set rs. hi p < lo r)"
    "ranges_ok acc" "\<forall>a\<in>set acc. hi a < bound prev" "inverse_loop prev rs acc = (prev', acc')"
  shows "ranges_ok acc' \<and> (\<forall>a\<in>set acc'. hi a < bound prev') \<and> bound prev \<le> bound prev'
    \<and> elems acc' = elems acc \<union> ({bound prev..<bound prev'} - elems rs)
    \<and> (\<forall>p. prev' = Some p \<longrightarrow> range_ok p) \<and> elems rs \<subseteq> {bound prev..<bound prev'}
    \<and> (\<forall>n. bound prev \<le> n \<and> (\<forall>r\<in>set rs. hi r \<le> n) \<longrightarrow> bound prev' \<le> n)"
  using assms
proof (induction rs arbitrary: prev acc)
  case (Cons r rs)
  let ?hole = "mk_range (case prev of None \<Rightarrow> 0 | Some p \<Rightarrow> rg_end p) (rg_start r - (case prev of None \<Rightarrow> 0 | Some p \<Rightarrow> rg_end p))"
  let ?acc = "if bound prev < lo r then acc @ [?hole] else acc"
  have r: "range_ok r" "lo r < hi r" "ranges_ok rs" "\<forall>x\<in>set rs. hi r < lo x"
    using Cons.prems(1) range_ok_less [of r] by auto
  have le: "bound prev \<le> lo r" using Cons.prems(2) by (auto simp: bound_def split: option.split)
  have b: "unat (case prev of None \<Rightarrow> 0 | Some p \<Rightarrow> rg_end p) = bound prev"
    using Cons.prems(2) by (auto simp: bound_def unat_end split: option.split)
  have small: "lo r < 2 ^ 64" using unat_u64_less [of "rg_start r"] by simp
  note hole = append_hole [OF Cons.prems(3), of "case prev of None \<Rightarrow> 0 | Some p \<Rightarrow> rg_end p" "rg_start r", unfolded b, OF Cons.prems(4)]
  have loop: "inverse_loop prev (r # rs) acc = inverse_loop (Some r) rs ?acc"
    using hole(1) small Cons.prems(2) by (cases prev) (auto simp: bound_def word_less_nat_alt)
  have acc: "ranges_ok ?acc" "elems ?acc = elems acc \<union> {bound prev..<lo r}" "\<forall>a\<in>set ?acc. hi a < bound (Some r)"
    using hole small Cons.prems(3,4) r(2) le by (auto simp: bound_def)
  note IH = Cons.IH [OF r(3) _ acc(1,3)]
  show ?case
    using IH Cons.prems(5) r acc(2) le unfolding loop by (auto simp: bound_def)
qed auto

lemma inverse_once:
  assumes "rs_ok s" "offsets s \<subseteq> {..<unat (end_offset s)}"
  shows "rs_ok (rs_inverse s) \<and> offsets (rs_inverse s) = {..<unat (end_offset s)} - offsets s
    \<and> end_offset (rs_inverse s) = end_offset s"
proof -
  obtain prev acc where loop: "inverse_loop None (rs_ranges s) [] = (prev, acc)" by fastforce
  let ?e = "end_offset s"
  have ok: "ranges_ok (rs_ranges s)" using assms(1) by (simp add: rs_ok_def)
  have "hi r \<le> unat ?e" if "r \<in> set (rs_ranges s)" for r
  proof -
    have "hi r - 1 \<in> offsets s" using that range_ok_less [OF ranges_ok_range [OF ok that]] by (auto simp: offsets_def elems_def intro!: bexI [OF _ that])
    with assms(2) show ?thesis by auto
  qed
  with inverse_loop_result [OF ok _ _ _ loop]
  have acc: "ranges_ok acc" "\<forall>a\<in>set acc. hi a < bound prev" "elems acc = {0..<bound prev} - offsets s"
    "\<forall>p. prev = Some p \<longrightarrow> range_ok p" "offsets s \<subseteq> {0..<bound prev}" "bound prev \<le> unat ?e"
    by (auto simp: bound_def [of None] offsets_def)
  let ?a = "case prev of None \<Rightarrow> 0 | Some p \<Rightarrow> rg_end p"
  have b: "unat ?a = bound prev" using acc(4) by (auto simp: bound_def unat_end split: option.split)
  have small: "unat ?e < 2 ^ 64" using unat_u64_less [of ?e] by simp
  note hole = append_hole [OF acc(1), of ?a ?e, unfolded b, OF acc(2) _ small]
  have "rs_ranges (rs_inverse s) = (if bound prev < unat ?e then acc @ [mk_range ?a (?e - ?a)] else acc)"
    using loop hole(1) acc(4) by (cases prev) (auto simp: rs_inverse_def bound_def word_less_nat_alt unat_end)
  with hole acc have "ranges_ok (rs_ranges (rs_inverse s))" "elems (rs_ranges (rs_inverse s)) = {..<unat ?e} - offsets s"
    by (auto split: if_splits)
  then show ?thesis using loop by (simp add: rs_ok_def offsets_def rs_inverse_def)
qed

text \<open>
  \<^verbatim>\<open>inverse\<close> returns exactly the holes: for a set that keeps below its end offset, the inverse covers
  the offsets up to the end that the set does not, is a well-formed set, and inverting twice covers
  the original offsets again.
\<close>

theorem range_inverse_complement:
  assumes "rs_ok s" "offsets s \<subseteq> {..<unat (end_offset s)}"
  shows "rs_ok (rs_inverse s) \<and> offsets (rs_inverse s) = {..<unat (end_offset s)} - offsets s
    \<and> end_offset (rs_inverse s) = end_offset s
    \<and> offsets (rs_inverse (rs_inverse s)) = offsets s"
  using inverse_once [OF assms] inverse_once [of "rs_inverse s"] assms(2) by auto

theorem range_inverse_complement_witness:
  "offsets (rs_inverse (rs_insert (range_set 20) 5 10)) = {..<20} - {5..<15}"
proof -
  have s: "rs_insert (range_set 20) 5 10 = \<lparr> rs_ranges = [mk_range 5 10], end_offset = 20 \<rparr>"
    by (simp add: rs_insert_def range_set_def insert_position_def lower_bound_def rg_end_def)
  have "{5..<15} \<subseteq> {..<20 :: nat}" by auto
  then show ?thesis
    using range_inverse_complement [of "rs_insert (range_set 20) 5 10"]
    by (simp add: s rs_ok_def offsets_def range_ok_def)
qed

text \<open>
  A range set answers membership. On a well-formed set \<^verbatim>\<open>contains\<close> holds exactly when every offset of
  a (non-empty) range is covered: that ranges never touch makes a single stored range enough.
\<close>

theorem range_contains_iff:
  assumes "rs_ok s" "len \<noteq> 0" "unat start + unat len < 2 ^ 64"
  shows "rs_contains s start len \<longleftrightarrow> {unat start..<unat start + unat len} \<subseteq> offsets s"
proof
  have b: "range_ok (mk_range start len)" "unat (rg_end (mk_range start len)) = unat start + unat len"
    using assms(2,3) unat_end [of "mk_range start len"] by (simp_all add: range_ok_def)
  have contained: "contained_by (mk_range start len) p \<longleftrightarrow> lo p \<le> unat start \<and> unat start + unat len \<le> hi p"
    if "p \<in> set (rs_ranges s)" for p
    using that assms(1) b(1) overlap_tests(1) [of "mk_range start len" p] ranges_ok_range [of "rs_ranges s" p]
    by (simp add: rs_ok_def)
  show "{unat start..<unat start + unat len} \<subseteq> offsets s" if "rs_contains s start len"
  proof -
    from that obtain p where p: "p \<in> set (rs_ranges s)" "contained_by (mk_range start len) p"
      by (auto simp: rs_contains_def list_ex_iff)
    then have "{unat start..<unat start + unat len} \<subseteq> {lo p..<hi p}" using contained by auto
    then show ?thesis using p(1) unfolding offsets_def elems_def by blast
  qed
  assume sub: "{unat start..<unat start + unat len} \<subseteq> offsets s"
  have "unat start \<in> offsets s" using sub assms(2) by (auto simp: unat_gt_0)
  then obtain x where x: "x \<in> set (rs_ranges s)" "lo x \<le> unat start" "unat start < hi x"
    by (auto simp: offsets_def elems_def)
  have "unat start + unat len \<le> hi x"
  proof (rule ccontr)
    assume "\<not> ?thesis"
    with sub x(3) have "hi x \<in> offsets s" by auto
    then obtain y where "y \<in> set (rs_ranges s)" "lo y \<le> hi x" "hi x < hi y" by (auto simp: offsets_def elems_def)
    with x assms(1) ranges_apart [of "rs_ranges s" x y] show False by (auto simp: rs_ok_def)
  qed
  with x contained show "rs_contains s start len" by (auto simp: rs_contains_def list_ex_iff)
qed

theorem range_contains_iff_witness:
  "rs_contains (rs_insert (range_set 0) 5 10) 6 9 \<longleftrightarrow> {6..<15} \<subseteq> offsets (rs_insert (range_set 0) 5 10)"
proof -
  have s: "rs_insert (range_set 0) 5 10 = \<lparr> rs_ranges = [mk_range 5 10], end_offset = 15 \<rparr>"
    by (simp add: rs_insert_def range_set_def insert_position_def lower_bound_def rg_end_def)
  show ?thesis
    using range_contains_iff [of "rs_insert (range_set 0) 5 10" 9 6]
    by (simp add: s rs_ok_def range_ok_def)
qed

section \<open>Binary form\<close>

lemma insert_beyond:
  assumes "ranges_ok (rs_ranges s @ [r])" "offsets s \<union> {lo r..<hi r} \<subseteq> {..<unat (end_offset s)}"
  shows "rs_insert s (rg_start r) (rg_length r) = s \<lparr> rs_ranges := rs_ranges s @ [r] \<rparr>"
proof -
  let ?rs = "rs_ranges s"
  have r: "range_ok r" "rg_length r \<noteq> 0" "lo r < hi r" "mk_range (rg_start r) (rg_length r) = r"
    using assms(1) range_ok_less [of r] by (auto simp: ranges_ok_append range_ok_def mk_range_def)
  have before: "\<forall>a\<in>set ?rs. hi a < lo r \<and> lo a < lo r \<and> rg_start a < rg_start r \<and> rg_end a < rg_start r"
    using assms(1) by (auto simp: ranges_ok_append word_less_nat_alt unat_end dest: ranges_ok_range range_ok_less less_trans)
  then have "takeWhile (\<lambda>a. rg_start a < rg_start r) ?rs = ?rs" "dropWhile (\<lambda>a. rg_start a < rg_start r) ?rs = []" by simp_all
  then have "lower_bound (rg_start r) ?rs = (?rs, [])" by (simp only: lower_bound_def)
  with before have "insert_position (rg_start r) ?rs = (?rs, [])" by (simp add: insert_position_def Let_def)
  moreover have "set_insert r ?rs = ?rs @ [r]" using before by (intro set_insert_last) simp
  moreover have "hi r - 1 \<in> {lo r..<hi r}" using r(3) by auto
  then have "hi r - 1 \<in> {..<unat (end_offset s)}" using assms(2) by blast
  then have "\<not> rg_end r > end_offset s" using r(1,3) by (simp add: word_less_nat_alt unat_end)
  ultimately show ?thesis using r(2) unfolding rs_insert_def r(4) by simp
qed

definition nbo_64_bytes :: "u64 \<Rightarrow> byte list" where
  "nbo_64_bytes l = htonl (ucast (drop_bit 32 l)) @ htonl (ucast (l AND 0xFFFFFFFF))"

definition range_bytes :: "Range \<Rightarrow> byte list" where
  "range_bytes r = nbo_64_bytes (rg_start r) @ nbo_64_bytes (rg_length r)"

lemma emits_nbo_64: "emits (write_nbo_64 StringWriter_methods l) (nbo_64_bytes l)"
  using emits_string_ops(4) [of l] by (simp add: nbo_64_bytes_def)

lemma read_nbo_64_bytes: "yields string_ok string_rest (read_nbo_64 StringReader_methods) (nbo_64_bytes l @ tail) l tail"
  using read_nbo_64_written [of l tail] by (simp add: nbo_64_bytes_def)

lemma emits_write_loop: "emits (rs_write_loop StringWriter_methods rs) (concat (map range_bytes rs))"
proof (induction rs)
  case (Cons r rs)
  show ?case
    unfolding rs_write_loop.simps list.map concat.simps range_bytes_def append_assoc
    by (rule emits_bind [OF emits_nbo_64], rule emits_bind [OF emits_nbo_64], rule Cons [unfolded range_bytes_def])
qed (simp add: emits_return del: chan_return_apply)

lemma read_loop_yields:
  assumes "ranges_ok (rs_ranges s @ rs)" "offsets s \<union> elems rs \<subseteq> {..<unat (end_offset s)}"
  shows "yields string_ok string_rest (rs_read_loop (length rs) StringReader_methods s)
    (concat (map range_bytes rs) @ tail) (s \<lparr> rs_ranges := rs_ranges s @ rs \<rparr>) tail"
  using assms
proof (induction rs arbitrary: s)
  case (Cons r rs)
  have "rs_insert s (rg_start r) (rg_length r) = s \<lparr> rs_ranges := rs_ranges s @ [r] \<rparr>"
    using Cons.prems by (intro insert_beyond) (auto simp: ranges_ok_append)
  moreover have "yields string_ok string_rest
      (rs_read_loop (length rs) StringReader_methods (s \<lparr> rs_ranges := rs_ranges s @ [r] \<rparr>))
      (concat (map range_bytes rs) @ tail) (s \<lparr> rs_ranges := (rs_ranges s @ [r]) @ rs \<rparr>) tail"
    using Cons.IH [of "s \<lparr> rs_ranges := rs_ranges s @ [r] \<rparr>"] Cons.prems by (auto simp: offsets_def)
  ultimately show ?case
    unfolding list.map concat.simps range_bytes_def [of r] append_assoc list.size(4) add_Suc_right add_0_right rs_read_loop.simps
    by - (rule yields_bind, rule read_nbo_64_bytes, rule yields_bind, rule read_nbo_64_bytes, simp)
qed simp

text \<open>
  The binary form of a range set, written to a channel and read into an empty set, gives the same
  set back (ranges and end offset), for sets of fewer than \<open>2\<^sup>3\<^sup>2\<close> ranges that keep below their end
  offset.
\<close>

theorem range_binary_roundtrip:
  assumes "rs_ok s" "offsets s \<subseteq> {..<unat (end_offset s)}" "length (rs_ranges s) < 2 ^ 32"
  shows "yields string_ok string_rest (rs_read StringReader_methods (range_set e))
    (written (rs_write StringWriter_methods s) @ tail) s tail"
proof -
  let ?bytes = "nbo_64_bytes (end_offset s) @ htonl (of_nat (length (rs_ranges s))) @ concat (map range_bytes (rs_ranges s))"
  have "emits (rs_write StringWriter_methods s) ?bytes"
    unfolding rs_write_def
    by (rule emits_bind [OF emits_nbo_64], rule emits_bind [OF emits_string_ops(3)], rule emits_write_loop)
  then have w: "written (rs_write StringWriter_methods s) = ?bytes" by (simp add: written_def emits_data)
  let ?s = "range_set e \<lparr> end_offset := end_offset s \<rparr>"
  have "yields string_ok string_rest (rs_read_loop (length (rs_ranges s)) StringReader_methods ?s)
      (concat (map range_bytes (rs_ranges s)) @ tail) (?s \<lparr> rs_ranges := rs_ranges ?s @ rs_ranges s \<rparr>) tail"
    using assms by (intro read_loop_yields) (simp_all add: rs_ok_def offsets_def range_set_def)
  moreover have "unat (of_nat (length (rs_ranges s)) :: u32) = length (rs_ranges s)"
    using assms(3) by (simp add: unat_of_nat take_bit_nat_eq_self)
  ultimately show ?thesis
    unfolding w rs_read_def append_assoc
    by (intro yields_bind [OF read_nbo_64_bytes] yields_bind [OF read_nbo_32_written]) (cases s, simp add: range_set_def)
qed

theorem range_binary_roundtrip_witness:
  "yields string_ok string_rest (rs_read StringReader_methods (range_set 0))
    (written (rs_write StringWriter_methods \<lparr> rs_ranges = [mk_range 5 10, mk_range 20 1], end_offset = 30 \<rparr>) @ [7])
    \<lparr> rs_ranges = [mk_range 5 10, mk_range 20 1], end_offset = 30 \<rparr> [7]"
  by (rule range_binary_roundtrip) (auto simp: rs_ok_def offsets_def range_ok_def)

end
