(* ===== verification/Index_Map.thy ===== *)
theory Index_Map
  imports OT_Prelude
begin

text \<open>
  The interface the hash blocks and the hash tables of libs/hash share: a map from identifiers to
  indices. Its laws say how \<^verbatim>\<open>add\<close>, \<^verbatim>\<open>lookup\<close> and \<^verbatim>\<open>remove\<close> act on the abstract map; the client's lemma is that any
  sequence of calls, each new key being absent when it is added, is answered as the map answers it.
\<close>

definition INVALID_INDEX :: int where
  "INVALID_INDEX = - 1"

datatype 'k Op = Op_add 'k int | Op_lookup 'k | Op_remove 'k

primrec op_key :: "'k Op \<Rightarrow> 'k" where
  "op_key (Op_add k i) = k"
| "op_key (Op_lookup k) = k"
| "op_key (Op_remove k) = k"

definition answer :: "('k \<rightharpoonup> int) \<Rightarrow> 'k \<Rightarrow> int" where
  "answer m k = (case m k of None \<Rightarrow> INVALID_INDEX | Some i \<Rightarrow> i)"

text \<open>
  The answers of an implementation, from state \<open>s\<close> on, are those of the map \<open>m\<close>. Nothing is claimed once a
  key is added twice or the reserved index is stored.
\<close>

fun conforms ::
  "('s \<Rightarrow> 'k \<Rightarrow> int \<Rightarrow> bool \<times> 's) \<Rightarrow> ('s \<Rightarrow> 'k \<Rightarrow> int option) \<Rightarrow> ('s \<Rightarrow> 'k \<Rightarrow> (int \<times> 's) option) \<Rightarrow> ('s \<Rightarrow> 'k \<Rightarrow> bool)
   \<Rightarrow> ('k \<rightharpoonup> int) \<Rightarrow> 's \<Rightarrow> 'k Op list \<Rightarrow> bool" where
  "conforms add lookup remove full m s [] \<longleftrightarrow> True"
| "conforms add lookup remove full m s (Op_add k i # ops) \<longleftrightarrow>
     (if m k = None \<and> i \<noteq> INVALID_INDEX
      then (case add s k i of (r, s') \<Rightarrow>
              if r then conforms add lookup remove full (m(k \<mapsto> i)) s' ops
              else full s k \<and> conforms add lookup remove full m s' ops)
      else True)"
| "conforms add lookup remove full m s (Op_lookup k # ops) \<longleftrightarrow>
     lookup s k = Some (answer m k) \<and> conforms add lookup remove full m s ops"
| "conforms add lookup remove full m s (Op_remove k # ops) \<longleftrightarrow>
     (case remove s k of
        None \<Rightarrow> False
      | Some (r, s') \<Rightarrow> r = answer m k \<and> conforms add lookup remove full (m(k := None)) s' ops)"

locale index_map =
  fixes invar :: "'s \<Rightarrow> bool"
    and legal :: "'k \<Rightarrow> bool"
    and amap :: "'s \<Rightarrow> 'k \<rightharpoonup> int"
    and add :: "'s \<Rightarrow> 'k \<Rightarrow> int \<Rightarrow> bool \<times> 's"
    and lookup :: "'s \<Rightarrow> 'k \<Rightarrow> int option"
    and remove :: "'s \<Rightarrow> 'k \<Rightarrow> (int \<times> 's) option"
    and full :: "'s \<Rightarrow> 'k \<Rightarrow> bool"
  assumes add_adds: "invar s \<Longrightarrow> legal k \<Longrightarrow> amap s k = None \<Longrightarrow> i \<noteq> INVALID_INDEX \<Longrightarrow> fst (add s k i) \<Longrightarrow>
      invar (snd (add s k i)) \<and> (\<forall>k'. legal k' \<longrightarrow> amap (snd (add s k i)) k' = ((amap s)(k \<mapsto> i)) k')"
    and add_refuses: "invar s \<Longrightarrow> legal k \<Longrightarrow> amap s k = None \<Longrightarrow> i \<noteq> INVALID_INDEX \<Longrightarrow> \<not> fst (add s k i) \<Longrightarrow>
      snd (add s k i) = s \<and> full s k"
    and lookup_answers: "invar s \<Longrightarrow> legal k \<Longrightarrow> lookup s k = Some (answer (amap s) k)"
    and remove_removes: "invar s \<Longrightarrow> legal k \<Longrightarrow>
      \<exists>s'. remove s k = Some (answer (amap s) k, s') \<and> invar s' \<and> (\<forall>k'. legal k' \<longrightarrow> amap s' k' = ((amap s)(k := None)) k')"
begin

lemma answer_cong: "m k = m' k \<Longrightarrow> answer m k = answer m' k"
  by (simp add: answer_def)

lemma run_conforms:
  assumes "invar s" "\<forall>k. legal k \<longrightarrow> amap s k = m k" "\<forall>p\<in>set ops. legal (op_key p)"
  shows "conforms add lookup remove full m s ops"
  using assms
proof (induction ops arbitrary: s m)
  case (Cons p ops)
  show ?case
  proof (cases p)
    case (Op_add k i)
    with Cons.prems have k: "legal k" "amap s k = m k" by auto
    show ?thesis
    proof (cases "m k = None \<and> i \<noteq> INVALID_INDEX")
      case True
      obtain r s' where rs: "add s k i = (r, s')" by (cases "add s k i")
      show ?thesis
      proof (cases r)
        case r: True
        with add_adds [OF Cons.prems(1) k(1), of i] True k(2) rs
        have s': "invar s'" "\<forall>k'. legal k' \<longrightarrow> amap s' k' = ((amap s)(k \<mapsto> i)) k'" by auto
        then have "conforms add lookup remove full (m(k \<mapsto> i)) s' ops" using Cons.prems(2,3) by (intro Cons.IH) auto
        with True r rs Op_add show ?thesis by simp
      next
        case r: False
        with add_refuses [OF Cons.prems(1) k(1), of i] True k(2) rs have "s' = s" "full s k" by auto
        with True r rs Op_add Cons show ?thesis by simp
      qed
    qed (use Op_add in auto)
  next
    case (Op_lookup k)
    with Cons.prems have k: "legal k" "amap s k = m k" by auto
    with Op_lookup Cons lookup_answers [OF Cons.prems(1) k(1)] answer_cong [of "amap s" k m] show ?thesis by simp
  next
    case (Op_remove k)
    with Cons.prems have k: "legal k" "amap s k = m k" by auto
    obtain s' where s': "remove s k = Some (answer (amap s) k, s')" "invar s'" "\<forall>k'. legal k' \<longrightarrow> amap s' k' = ((amap s)(k := None)) k'"
      using remove_removes [OF Cons.prems(1) k(1)] by blast
    have "conforms add lookup remove full (m(k := None)) s' ops" using s' Cons.prems(2,3) by (intro Cons.IH) auto
    with s'(1) Op_remove answer_cong [of "amap s" k m] k show ?thesis by simp
  qed
qed simp

end

end
