(* ===== verification/Hash_Block.thy ===== *)
theory Hash_Block
  imports Index_Map
begin

text \<open>
  The coalesced chain hash block of libs/hash/ot-hash.h. The table is a list of entries, updated by
  index; a link is an index or \<open>None\<close> for \<^verbatim>\<open>INVALID_HASH_INDEX\<close>. The template's helper is the parameter
  \<open>get_start\<close>, and the memory of a new table is whatever \<open>raw\<close> says. Loops along chains are bounded by
  fuel, of which the size of the table is enough. Locking is left out: the operations hold the
  block's mutex throughout.
\<close>

section \<open>Entries and the block\<close>

record 'i Entry =
  e_id :: 'i
  e_prev :: "nat option"
  e_next :: "nat option"
  e_head :: "nat option"
  e_index :: int

definition used :: "'i Entry \<Rightarrow> bool" where
  "used e \<longleftrightarrow> e_index e \<noteq> INVALID_INDEX"

record 'i Block =
  b_table :: "'i Entry list"
  freelist :: "nat option"

definition initial_entry :: "nat \<Rightarrow> (nat \<Rightarrow> 'i Entry) \<Rightarrow> nat \<Rightarrow> 'i Entry" where
  "initial_entry sz raw i =
     (raw i) \<lparr> e_next := (if i + 1 < sz then Some (i + 1) else None),
               e_prev := (if i \<noteq> 0 then Some (i - 1) else None),
               e_index := INVALID_INDEX \<rparr>"

definition block :: "nat \<Rightarrow> (nat \<Rightarrow> 'i Entry) \<Rightarrow> 'i Block" where
  "block sz raw = \<lparr> b_table = map (initial_entry sz raw) [0..<sz], freelist = Some 0 \<rparr>"

section \<open>Adding\<close>

definition set_prev :: "nat option \<Rightarrow> nat option \<Rightarrow> 'i Entry list \<Rightarrow> 'i Entry list" where
  "set_prev i v t = (case i of None \<Rightarrow> t | Some i \<Rightarrow> t[i := (t ! i) \<lparr> e_prev := v \<rparr>])"

definition set_next :: "nat option \<Rightarrow> nat option \<Rightarrow> 'i Entry list \<Rightarrow> 'i Entry list" where
  "set_next i v t = (case i of None \<Rightarrow> t | Some i \<Rightarrow> t[i := (t ! i) \<lparr> e_next := v \<rparr>])"

text \<open>An unused start is taken out of the free list and becomes a chain of its own.\<close>

definition add_at_start :: "nat \<Rightarrow> 'i \<Rightarrow> int \<Rightarrow> 'i Block \<Rightarrow> 'i Block" where
  "add_at_start start key index b =
     (let t = b_table b;
          t = set_prev (e_next (t ! start)) (e_prev (t ! start)) t;
          prev = e_prev (t ! start);
          fl = (if prev = None then e_next (t ! start) else freelist b);
          t = set_next prev (e_next (t ! start)) t
      in b \<lparr> b_table := t[start := \<lparr> e_id = key, e_prev = None, e_next = None, e_head = Some start, e_index = index \<rparr>],
             freelist := fl \<rparr>)"

text \<open>Otherwise the first free entry is taken and spliced in after the start.\<close>

definition add_collision :: "nat \<Rightarrow> nat \<Rightarrow> 'i \<Rightarrow> int \<Rightarrow> 'i Block \<Rightarrow> 'i Block" where
  "add_collision start qi key index b =
     (let t = b_table b;
          fl = e_next (t ! qi);
          t = set_prev fl None t;
          t = t[qi := (t ! qi) \<lparr> e_id := key, e_index := index, e_prev := Some start, e_head := Some start \<rparr>];
          t = set_next (Some qi) (e_next (t ! start)) t;
          t = set_prev (e_next (t ! start)) (Some qi) t;
          t = set_next (Some start) (Some qi) t
      in b \<lparr> b_table := t, freelist := fl \<rparr>)"

definition block_add :: "('i \<Rightarrow> nat) \<Rightarrow> 'i Block \<Rightarrow> 'i \<Rightarrow> int \<Rightarrow> bool \<times> 'i Block" where
  "block_add get_start b key index =
     (let start = get_start key
      in if \<not> used (b_table b ! start) then (True, add_at_start start key index b)
         else case freelist b of
                None \<Rightarrow> (False, b)
              | Some qi \<Rightarrow> (True, add_collision start qi key index b))"

section \<open>Looking up\<close>

primrec lookup_walk :: "nat \<Rightarrow> 'i Entry list \<Rightarrow> 'i \<Rightarrow> nat \<Rightarrow> int option" where
  "lookup_walk 0 t key p = None"
| "lookup_walk (Suc fuel) t key p =
     (if e_id (t ! p) = key then Some (e_index (t ! p))
      else case e_next (t ! p) of
             Some p' \<Rightarrow> lookup_walk fuel t key p'
           | None \<Rightarrow> Some INVALID_INDEX)"

definition block_lookup :: "('i \<Rightarrow> nat) \<Rightarrow> 'i Block \<Rightarrow> 'i \<Rightarrow> int option" where
  "block_lookup get_start b key =
     (let start = get_start key
      in if e_index (b_table b ! start) = INVALID_INDEX then Some INVALID_INDEX
         else lookup_walk (length (b_table b)) (b_table b) key start)"

section \<open>Removing\<close>

text \<open>The first later entry of the chain that hashes to \<open>d\<close>; the outer \<open>None\<close> is fuel used up.\<close>

primrec find_rehash :: "nat \<Rightarrow> 'i Entry list \<Rightarrow> nat \<Rightarrow> nat option \<Rightarrow> nat option option" where
  "find_rehash 0 t d qi = None"
| "find_rehash (Suc fuel) t d qi =
     (case qi of
        None \<Rightarrow> Some None
      | Some q \<Rightarrow> if e_head (t ! q) = Some d then Some (Some q) else find_rehash fuel t d (e_next (t ! q)))"

definition copy_back :: "nat \<Rightarrow> nat \<Rightarrow> 'i Entry list \<Rightarrow> 'i Entry list" where
  "copy_back d q t = t[d := (t ! d) \<lparr> e_index := e_index (t ! q), e_id := e_id (t ! q), e_head := e_head (t ! q) \<rparr>]"

definition snap_out :: "nat \<Rightarrow> 'i Block \<Rightarrow> 'i Block" where
  "snap_out d b =
     (let t = b_table b;
          t = set_next (e_prev (t ! d)) (e_next (t ! d)) t;
          t = set_prev (e_next (t ! d)) (e_prev (t ! d)) t;
          t = t[d := (t ! d) \<lparr> e_index := INVALID_INDEX, e_prev := None \<rparr>];
          t = set_prev (freelist b) (Some d) t;
          t = set_next (Some d) (freelist b) t
      in b \<lparr> b_table := t, freelist := Some d \<rparr>)"

primrec delete_loop :: "nat \<Rightarrow> nat \<Rightarrow> 'i Block \<Rightarrow> 'i Block option" where
  "delete_loop 0 d b = None"
| "delete_loop (Suc fuel) d b =
     (case find_rehash (Suc (length (b_table b))) (b_table b) d (e_next (b_table b ! d)) of
        None \<Rightarrow> None
      | Some (Some q) \<Rightarrow> delete_loop fuel q (b \<lparr> b_table := copy_back d q (b_table b) \<rparr>)
      | Some None \<Rightarrow> Some (snap_out d b))"

primrec remove_walk :: "nat \<Rightarrow> 'i Block \<Rightarrow> 'i \<Rightarrow> nat \<Rightarrow> (int \<times> 'i Block) option" where
  "remove_walk 0 b key i = None"
| "remove_walk (Suc fuel) b key i =
     (let p = b_table b ! i
      in if \<not> used p then Some (INVALID_INDEX, b)
         else if e_id p = key then map_option (Pair (e_index p)) (delete_loop (length (b_table b)) i b)
         else case e_next p of
                None \<Rightarrow> Some (INVALID_INDEX, b)
              | Some i' \<Rightarrow> remove_walk fuel b key i')"

definition block_remove :: "('i \<Rightarrow> nat) \<Rightarrow> 'i Block \<Rightarrow> 'i \<Rightarrow> (int \<times> 'i Block) option" where
  "block_remove get_start b key = remove_walk (length (b_table b)) b key (get_start key)"

section \<open>The consistency check\<close>

text \<open>
  The verdict of \<^verbatim>\<open>check\<close>; the report it writes is left out. An index of the model is never negative, so
  the tests for that have no counterpart. \<open>marks\<close> are the entries visited so far.
\<close>

primrec check_free :: "nat \<Rightarrow> 'i Entry list \<Rightarrow> nat option \<Rightarrow> nat set \<Rightarrow> bool \<Rightarrow> nat option \<Rightarrow> (bool \<times> nat set) option" where
  "check_free 0 t previous marks ok i = None"
| "check_free (Suc fuel) t previous marks ok i =
     (case i of
        None \<Rightarrow> Some (ok, marks)
      | Some i \<Rightarrow>
          if i \<ge> length t then Some (False, marks)
          else if i \<in> marks then Some (False, marks)
          else if used (t ! i) then Some (False, insert i marks)
          else check_free fuel t (Some i) (insert i marks) (ok \<and> e_prev (t ! i) = previous) (e_next (t ! i)))"

primrec check_chain ::
  "nat \<Rightarrow> ('i \<Rightarrow> nat) \<Rightarrow> 'i Entry list \<Rightarrow> nat option \<Rightarrow> nat set \<Rightarrow> bool \<Rightarrow> nat option \<Rightarrow> (bool \<times> nat set) option" where
  "check_chain 0 get_start t previous marks ok j = None"
| "check_chain (Suc fuel) get_start t previous marks ok j =
     (case j of
        None \<Rightarrow> Some (ok, marks)
      | Some j \<Rightarrow>
          if j \<ge> length t then Some (False, marks)
          else check_chain fuel get_start t (Some j) (insert j marks)
                 (ok \<and> used (t ! j) \<and> e_prev (t ! j) = previous \<and> e_head (t ! j) = Some (get_start (e_id (t ! j))))
                 (e_next (t ! j)))"

definition check_head :: "('i \<Rightarrow> nat) \<Rightarrow> 'i Entry list \<Rightarrow> (bool \<times> nat set) option \<Rightarrow> nat \<Rightarrow> (bool \<times> nat set) option" where
  "check_head get_start t st i =
     Option.bind st (\<lambda>(ok, marks).
       if used (t ! i) \<and> get_start (e_id (t ! i)) = i
       then check_chain (Suc (length t)) get_start t (e_prev (t ! i)) marks ok (Some i)
       else Some (ok, marks))"

definition block_check :: "('i \<Rightarrow> nat) \<Rightarrow> 'i Block \<Rightarrow> bool option" where
  "block_check get_start b =
     map_option (\<lambda>(ok, marks). ok \<and> list_all (\<lambda>i. i \<in> marks) [0..<length (b_table b)])
       (foldl (check_head get_start (b_table b))
          (check_free (Suc (length (b_table b))) (b_table b) None {} True (freelist b)) [0..<length (b_table b)])"

section \<open>Statistics\<close>

record Stats =
  st_entries :: nat
  max_fullness :: nat
  max_chain :: nat

primrec chain_length :: "nat \<Rightarrow> 'i Entry list \<Rightarrow> nat option \<Rightarrow> nat option" where
  "chain_length 0 t j = None"
| "chain_length (Suc fuel) t j =
     (case j of None \<Rightarrow> Some 0 | Some j \<Rightarrow> map_option Suc (chain_length fuel t (e_next (t ! j))))"

definition stats_step :: "('i \<Rightarrow> nat) \<Rightarrow> 'i Entry list \<Rightarrow> (nat \<times> nat) option \<Rightarrow> nat \<Rightarrow> (nat \<times> nat) option" where
  "stats_step get_start t st i =
     Option.bind st (\<lambda>(entries, max_chain).
       if used (t ! i)
       then (if get_start (e_id (t ! i)) = i
             then map_option (\<lambda>len. (entries + 1, if len > max_chain then len else max_chain)) (chain_length (Suc (length t)) t (Some i))
             else Some (entries + 1, max_chain))
       else Some (entries, max_chain))"

definition block_get_stats :: "('i \<Rightarrow> nat) \<Rightarrow> 'i Block \<Rightarrow> Stats option" where
  "block_get_stats get_start b =
     map_option (\<lambda>(entries, max_chain).
         \<lparr> st_entries = entries, max_fullness = 100 * entries div length (b_table b), max_chain = max_chain \<rparr>)
       (foldl (stats_step get_start (b_table b)) (Some (0, 0)) [0..<length (b_table b)])"

section \<open>Doubly linked segments\<close>

text \<open>
  The table seen as functions: links and data of each entry. \<open>seg pv nx p xs n\<close>: the entries \<open>xs\<close> are linked
  in both directions, \<open>p\<close> before the first and \<open>n\<close> after the last.
\<close>

definition pv :: "'i Entry list \<Rightarrow> nat \<Rightarrow> nat option" where
  "pv t i = e_prev (t ! i)"

definition nx :: "'i Entry list \<Rightarrow> nat \<Rightarrow> nat option" where
  "nx t i = e_next (t ! i)"

definition dat :: "'i Entry list \<Rightarrow> nat \<Rightarrow> 'i \<times> nat option \<times> int" where
  "dat t i = (e_id (t ! i), e_head (t ! i), e_index (t ! i))"

fun seg :: "(nat \<Rightarrow> nat option) \<Rightarrow> (nat \<Rightarrow> nat option) \<Rightarrow> nat option \<Rightarrow> nat list \<Rightarrow> nat option \<Rightarrow> bool" where
  "seg P N p [] n \<longleftrightarrow> True"
| "seg P N p (i # is) n \<longleftrightarrow> P i = p \<and> N i = (if is = [] then n else Some (hd is)) \<and> seg P N (Some i) is n"

lemma seg_append:
  "seg P N p (xs @ ys) n \<longleftrightarrow>
   seg P N p xs (if ys = [] then n else Some (hd ys)) \<and> seg P N (if xs = [] then p else Some (last xs)) ys n"
  by (induction xs arbitrary: p) (auto simp: hd_append)

lemma seg_cong:
  "(\<And>i. i \<in> set xs \<Longrightarrow> P i = P' i \<and> N i = N' i) \<Longrightarrow> seg P N p xs n = seg P' N' p xs n"
  by (induction xs arbitrary: p) auto

lemma seg_set_before:
  "seg P N p xs n \<Longrightarrow> distinct xs \<Longrightarrow> xs \<noteq> [] \<Longrightarrow> seg (P(hd xs := q)) N q xs n"
  by (cases xs) (auto intro: seg_cong [THEN iffD1, rotated])

lemma seg_set_after:
  "seg P N p xs n \<Longrightarrow> distinct xs \<Longrightarrow> xs \<noteq> [] \<Longrightarrow> seg P (N(last xs := q)) p xs q"
proof (induction xs arbitrary: p)
  case (Cons i "is")
  then show ?case by (cases "is = []") auto
qed simp

definition upd :: "nat option \<Rightarrow> 'b \<Rightarrow> (nat \<Rightarrow> 'b) \<Rightarrow> nat \<Rightarrow> 'b" where
  "upd i v f = (case i of None \<Rightarrow> f | Some i \<Rightarrow> f(i := v))"

lemma upd_simps [simp]: "upd None v f = f" "upd (Some i) v f = f(i := v)"
  by (simp_all add: upd_def)

lemma seg_upd_before:
  assumes "seg P N p xs n" "distinct xs"
  shows "seg (upd (if xs = [] then m else Some (hd xs)) q P) N q xs n"
  using assms seg_set_before [of P N p xs n q] by (cases "xs = []") auto

lemma seg_remove:
  assumes "seg P N None (xs @ i # ys) None" "distinct (xs @ i # ys)"
  shows "seg (upd (N i) (P i) P) (upd (P i) (N i) N) None (xs @ ys) None"
proof -
  have s: "seg P N None xs (Some i)" "P i = (if xs = [] then None else Some (last xs))"
    "N i = (if ys = [] then None else Some (hd ys))" "seg P N (Some i) ys None"
    using assms(1) by (auto simp: seg_append)
  have d: "distinct xs" "distinct ys" "xs \<noteq> [] \<Longrightarrow> last xs \<notin> set ys" "ys \<noteq> [] \<Longrightarrow> hd ys \<notin> set xs"
    using assms(2) by (auto dest: last_in_set hd_in_set)
  have xs: "seg P (upd (P i) (N i) N) None xs (N i)"
    using s d seg_set_after [of P N None xs "Some i" "N i"] by (cases "xs = []") auto
  have ys: "seg (upd (N i) (P i) P) N (P i) ys None"
    using s d seg_set_before [of P N "Some i" ys None "P i"] by (cases "ys = []") auto
  have "seg (upd (N i) (P i) P) (upd (P i) (N i) N) None xs (N i)"
    using xs d s by (subst seg_cong [where P' = P and N' = "upd (P i) (N i) N"]) (auto simp: upd_def)
  moreover have "seg (upd (N i) (P i) P) (upd (P i) (N i) N) (P i) ys None"
    using ys d s by (subst seg_cong [where P' = "upd (N i) (P i) P" and N' = N]) (auto simp: upd_def)
  ultimately show ?thesis using s by (auto simp: seg_append)
qed

lemma seg_insert:
  assumes "seg P N p (xs @ i # ys) None" "distinct (xs @ i # ys)" "q \<notin> set (xs @ i # ys)"
  shows "seg (upd (N i) (Some q) (P(q := Some i))) (N(q := N i, i := Some q)) p (xs @ i # q # ys) None"
proof -
  have s: "seg P N p xs (Some i)" "P i = (if xs = [] then p else Some (last xs))"
    "N i = (if ys = [] then None else Some (hd ys))" "seg P N (Some i) ys None"
    using assms(1) by (auto simp: seg_append)
  have d: "distinct ys" "i \<notin> set xs" "i \<notin> set ys" "set xs \<inter> set ys = {}" "q \<notin> set xs" "q \<notin> set ys" "q \<noteq> i"
    using assms(2,3) by auto
  let ?P = "upd (N i) (Some q) (P(q := Some i))" and ?N = "N(q := N i, i := Some q)"
  have "seg ?P ?N p xs (Some i)"
    using s d by (subst seg_cong [where P' = P and N' = N]) (auto simp: upd_def)
  moreover have "seg ?P ?N (Some q) ys None"
  proof (cases "ys = []")
    case False
    then have "seg (P(hd ys := Some q)) N (Some q) ys None" using s d by (intro seg_set_before) auto
    then show ?thesis
      using s d False by (subst seg_cong [where P' = "P(hd ys := Some q)" and N' = N]) (auto simp: upd_def)
  qed simp
  moreover have "?P i = P i" "?P q = Some i" "?N i = Some q" "?N q = N i"
    using s d by (auto simp: upd_def split: option.split)
  ultimately show ?thesis using s by (auto simp: seg_append)
qed

lemma set_prev_views:
  assumes "\<And>j. i = Some j \<Longrightarrow> j < length t"
  shows "pv (set_prev i v t) = upd i v (pv t)" "nx (set_prev i v t) = nx t" "dat (set_prev i v t) = dat t"
    "length (set_prev i v t) = length t"
  using assms by (auto simp: set_prev_def pv_def nx_def dat_def fun_eq_iff nth_list_update upd_def split: option.split)

lemma set_next_views:
  assumes "\<And>j. i = Some j \<Longrightarrow> j < length t"
  shows "pv (set_next i v t) = pv t" "nx (set_next i v t) = upd i v (nx t)" "dat (set_next i v t) = dat t"
    "length (set_next i v t) = length t"
  using assms by (auto simp: set_next_def pv_def nx_def dat_def fun_eq_iff nth_list_update upd_def split: option.split)

lemma list_update_views:
  assumes "i < length t"
  shows "pv (t[i := e]) = (pv t)(i := e_prev e)" "nx (t[i := e]) = (nx t)(i := e_next e)"
    "dat (t[i := e]) = (dat t)(i := (e_id e, e_head e, e_index e))"
  using assms by (auto simp: pv_def nx_def dat_def fun_eq_iff nth_list_update)

section \<open>The invariant\<close>

text \<open>
  A block is a free list and chains that together hold every entry once. In a chain every entry is in
  use, knows where its key hashes to, and comes at or after that place. \<open>H\<close> is the set of entries whose
  data do not count, while one is being deleted.
\<close>

definition placed :: "('i \<Rightarrow> nat) \<Rightarrow> 'i \<times> nat option \<times> int \<Rightarrow> nat set \<Rightarrow> bool" where
  "placed gs d js \<longleftrightarrow> (case d of (k, h, x) \<Rightarrow> x \<noteq> INVALID_INDEX \<and> h = Some (gs k) \<and> gs k \<in> js)"

fun chain_from :: "('i \<Rightarrow> nat) \<Rightarrow> (nat \<Rightarrow> 'i \<times> nat option \<times> int) \<Rightarrow> nat set \<Rightarrow> nat set \<Rightarrow> nat list \<Rightarrow> bool" where
  "chain_from gs D H seen [] \<longleftrightarrow> True"
| "chain_from gs D H seen (i # is) \<longleftrightarrow>
     (i \<in> H \<or> placed gs (D i) (insert i seen)) \<and> chain_from gs D H (insert i seen) is"

abbreviation chain_ok :: "('i \<Rightarrow> nat) \<Rightarrow> (nat \<Rightarrow> 'i \<times> nat option \<times> int) \<Rightarrow> nat set \<Rightarrow> nat list \<Rightarrow> bool" where
  "chain_ok gs D H c \<equiv> chain_from gs D H {} c"

definition rep :: "('i \<Rightarrow> nat) \<Rightarrow> 'i Block \<Rightarrow> nat list \<Rightarrow> nat list list \<Rightarrow> nat set \<Rightarrow> bool" where
  "rep gs b fl cs H \<longleftrightarrow>
     (let t = b_table b
      in distinct (fl @ concat cs) \<and> set fl \<union> set (concat cs) = {..<length t}
         \<and> freelist b = (if fl = [] then None else Some (hd fl))
         \<and> seg (pv t) (nx t) None fl None \<and> (\<forall>i\<in>set fl. \<not> used (t ! i))
         \<and> (\<forall>c\<in>set cs. seg (pv t) (nx t) None c None \<and> chain_ok gs (dat t) H c))"

lemma chain_ok_cong: "(\<And>i. i \<in> set c \<Longrightarrow> D i = D' i) \<Longrightarrow> chain_from gs D H seen c = chain_from gs D' H seen c"
  by (induction c arbitrary: seen) auto

lemma placed_mono: "placed gs d js \<Longrightarrow> js \<subseteq> js' \<Longrightarrow> placed gs d js'"
  by (auto simp: placed_def)

lemma chain_from_mono: "chain_from gs D H seen c \<Longrightarrow> seen \<subseteq> seen' \<Longrightarrow> H \<subseteq> H' \<Longrightarrow> chain_from gs D H' seen' c"
proof (induction c arbitrary: seen seen')
  case (Cons i c)
  then have "insert i seen \<subseteq> insert i seen'" by blast
  with Cons show ?case by (auto intro: placed_mono)
qed simp

lemma chain_from_append:
  "chain_from gs D H seen (xs @ ys) \<longleftrightarrow> chain_from gs D H seen xs \<and> chain_from gs D H (seen \<union> set xs) ys"
  by (induction xs arbitrary: seen) auto

lemma chain_from_at: "chain_from gs D H {} (xs @ i # ys) \<Longrightarrow> i \<notin> H \<Longrightarrow> placed gs (D i) (insert i (set xs))"
  by (simp add: chain_from_append)

lemma used_dat: "used (t ! i) \<longleftrightarrow> snd (snd (dat t i)) \<noteq> INVALID_INDEX"
  by (simp add: used_def dat_def)

lemma rep_used: "rep gs b fl cs {} \<Longrightarrow> i < length (b_table b) \<Longrightarrow> used (b_table b ! i) \<longleftrightarrow> i \<in> set (concat cs)"
proof -
  assume r: "rep gs b fl cs {}" and i: "i < length (b_table b)"
  have "used (b_table b ! i)" if c: "c \<in> set cs" "i \<in> set c" for c
  proof -
    from c(2) obtain xs ys where "c = xs @ i # ys" by (meson split_list)
    with r c(1) show ?thesis by (fastforce simp: rep_def Let_def placed_def used_dat dest: chain_from_at)
  qed
  moreover have "i \<in> set fl \<Longrightarrow> \<not> used (b_table b ! i)" using r by (simp add: rep_def Let_def)
  moreover have "i \<in> set fl \<or> i \<in> set (concat cs)" using r i by (auto simp: rep_def Let_def)
  ultimately show ?thesis by auto
qed

lemma rep_links:
  assumes "rep gs b fl cs H" "i \<in> set fl \<or> i \<in> set (concat cs)"
  shows "i < length (b_table b)"
  using assms by (auto simp: rep_def Let_def)

lemma seg_neighbours:
  assumes "seg P N None (xs @ i # ys) None" "distinct (xs @ i # ys)"
  shows "P i = (if xs = [] then None else Some (last xs))" "N i = (if ys = [] then None else Some (hd ys))"
    "P i \<noteq> Some i" "N i \<noteq> Some i"
  using assms by (auto simp: seg_append dest: last_in_set hd_in_set)

text \<open>Taking an entry out of the free list, to be a chain of its own.\<close>

lemma add_at_start_rep:
  assumes "rep gs b (xs @ s # ys) cs {}" "gs key = s" "index \<noteq> INVALID_INDEX"
  shows "rep gs (add_at_start s key index b) (xs @ ys) ([s] # cs) {}
    \<and> dat (b_table (add_at_start s key index b)) = (dat (b_table b))(s := (key, Some s, index))
    \<and> length (b_table (add_at_start s key index b)) = length (b_table b)"
proof -
  let ?t = "b_table b"
  note r = assms(1) [unfolded rep_def Let_def]
  have d: "distinct (xs @ s # ys)" and sg: "seg (pv ?t) (nx ?t) None (xs @ s # ys) None" using r by auto
  note nb = seg_neighbours [OF sg d]
  have len: "\<And>j. nx ?t s = Some j \<Longrightarrow> j < length ?t" "\<And>j. pv ?t s = Some j \<Longrightarrow> j < length ?t" "s < length ?t"
    using r nb(1,2) by (auto dest: last_in_set hd_in_set split: if_splits)
  define t1 where "t1 = set_prev (nx ?t s) (pv ?t s) ?t"
  note v1 = set_prev_views [of "nx ?t s" ?t "pv ?t s", OF len(1), folded t1_def]
  have p1: "pv t1 s = pv ?t s" "nx t1 s = nx ?t s" using v1 nb by (auto simp: upd_def split: option.split)
  define t2 where "t2 = set_next (pv ?t s) (nx ?t s) t1"
  have "pv ?t s = Some j \<Longrightarrow> j < length t1" for j using len(2) v1(4) by simp
  note v2 = set_next_views [of "pv ?t s" t1 "nx ?t s", OF this, folded t2_def]
  define e where "e = \<lparr> e_id = key, e_prev = None, e_next = None, e_head = Some s, e_index = index \<rparr>"
  have s2: "s < length t2" using len v1 v2 by simp
  have b': "add_at_start s key index b
      = b \<lparr> b_table := t2[s := e], freelist := (if pv ?t s = None then nx ?t s else freelist b) \<rparr>"
    unfolding add_at_start_def Let_def
    by (simp only: pv_def [symmetric] nx_def [symmetric] t1_def [symmetric] p1 t2_def [symmetric] e_def [symmetric])
  have views: "pv (t2[s := e]) = (upd (nx ?t s) (pv ?t s) (pv ?t))(s := None)"
    "nx (t2[s := e]) = (upd (pv ?t s) (nx ?t s) (nx ?t))(s := None)"
    "dat (t2[s := e]) = (dat ?t)(s := (key, Some s, index))" "length (t2[s := e]) = length ?t"
    using list_update_views [OF s2, of e] v1 v2 by (simp_all add: e_def)
  have fl: "seg (pv (t2[s := e])) (nx (t2[s := e])) None (xs @ ys) None"
    using seg_remove [OF sg d] d unfolding views by (subst seg_cong [where P' = "upd (nx ?t s) (pv ?t s) (pv ?t)" and N' = "upd (pv ?t s) (nx ?t s) (nx ?t)"]) auto
  have other: "seg (pv (t2[s := e])) (nx (t2[s := e])) None c None \<and> chain_ok gs (dat (t2[s := e])) {} c" if "c \<in> set cs" for c
  proof -
    have c: "seg (pv ?t) (nx ?t) None c None" "chain_ok gs (dat ?t) {} c" "set c \<inter> set (xs @ s # ys) = {}"
      using r that by auto
    have away: "s \<notin> set c" "nx ?t s = Some j \<Longrightarrow> j \<notin> set c" "pv ?t s = Some j \<Longrightarrow> j \<notin> set c" for j
      using c(3) nb(1,2) by (auto dest: last_in_set hd_in_set split: if_splits)
    have "seg (pv (t2[s := e])) (nx (t2[s := e])) None c None"
      using c(1) away unfolding views
      by (subst seg_cong [where P' = "pv ?t" and N' = "nx ?t"]) (auto simp: upd_def split: option.split)
    moreover have "chain_ok gs (dat (t2[s := e])) {} c"
      using c(2) away unfolding views by (subst chain_ok_cong [where D' = "dat ?t"]) auto
    ultimately show ?thesis ..
  qed
  have new: "seg (pv (t2[s := e])) (nx (t2[s := e])) None [s] None" "chain_ok gs (dat (t2[s := e])) {} [s]"
    using assms(2,3) unfolding views by (auto simp: placed_def)
  have "(if pv ?t s = None then nx ?t s else freelist b) = (if xs @ ys = [] then None else Some (hd (xs @ ys)))"
    using nb r by (auto simp: hd_append)
  moreover have "\<forall>i\<in>set (xs @ ys). \<not> used (t2[s := e] ! i)"
    using r d unfolding used_dat views by auto
  moreover have "distinct ((xs @ ys) @ concat ([s] # cs))" "set (xs @ ys) \<union> set (concat ([s] # cs)) = {..<length (t2[s := e])}"
    using r views(4) by auto
  ultimately show ?thesis
    using fl other new views(3,4) unfolding b' rep_def Let_def by auto
qed

text \<open>Splicing the first free entry in after the start.\<close>

lemma add_collision_rep:
  assumes "rep gs b (q # fs) (cs1 @ (xs @ s # ys) # cs2) {}" "gs key = s" "index \<noteq> INVALID_INDEX"
  shows "rep gs (add_collision s q key index b) fs (cs1 @ (xs @ s # q # ys) # cs2) {}
    \<and> dat (b_table (add_collision s q key index b)) = (dat (b_table b))(q := (key, Some s, index))
    \<and> length (b_table (add_collision s q key index b)) = length (b_table b)"
proof -
  let ?t = "b_table b" and ?c = "xs @ s # ys"
  note r = assms(1) [unfolded rep_def Let_def]
  have d: "distinct (q # fs)" "distinct ?c" "q \<notin> set ?c" "set fs \<inter> set ?c = {}" "s \<noteq> q"
    and sg: "seg (pv ?t) (nx ?t) None (q # fs) None" "seg (pv ?t) (nx ?t) None ?c None" using r by auto
  have nq: "nx ?t q = (if fs = [] then None else Some (hd fs))" using sg(1) by simp
  note ns = seg_neighbours(2,4) [OF sg(2) d(2)]
  have len: "q < length ?t" "s < length ?t" "\<And>j. nx ?t q = Some j \<Longrightarrow> j < length ?t" "\<And>j. nx ?t s = Some j \<Longrightarrow> j < length ?t"
    using r nq ns by (auto dest: hd_in_set split: if_splits)
  define t1 where "t1 = set_prev (nx ?t q) None ?t"
  note v1 = set_prev_views [of "nx ?t q" ?t None, OF len(3), folded t1_def]
  define t2 where "t2 = t1[q := (t1 ! q) \<lparr> e_id := key, e_index := index, e_prev := Some s, e_head := Some s \<rparr>]"
  have v2: "pv t2 = (pv t1)(q := Some s)" "nx t2 = nx t1" "dat t2 = (dat t1)(q := (key, Some s, index))" "length t2 = length ?t"
    using list_update_views [of q t1] len(1) v1(4) by (auto simp: t2_def nx_def fun_eq_iff)
  define t3 where "t3 = set_next (Some q) (nx t2 s) t2"
  have v3: "pv t3 = pv t2" "nx t3 = (nx ?t)(q := nx ?t s)" "dat t3 = dat t2" "length t3 = length ?t"
    using set_next_views [of "Some q" t2 "nx t2 s", folded t3_def] len(1) v1 v2 by auto
  have n3: "nx t3 s = nx ?t s" using v3 d(5) by simp
  define t4 where "t4 = set_prev (nx t3 s) (Some q) t3"
  have v4: "pv t4 = upd (nx ?t s) (Some q) (pv t3)" "nx t4 = nx t3" "dat t4 = dat t3" "length t4 = length ?t"
    using set_prev_views [of "nx t3 s" t3 "Some q", folded t4_def] len(4) v3 n3 by auto
  define t5 where "t5 = set_next (Some s) (Some q) t4"
  have v5: "pv t5 = pv t4" "nx t5 = (nx t4)(s := Some q)" "dat t5 = dat t4" "length t5 = length ?t"
    using set_next_views [of "Some s" t4 "Some q", folded t5_def] len(2) v4 by auto
  have b': "add_collision s q key index b = b \<lparr> b_table := t5, freelist := nx ?t q \<rparr>"
    unfolding add_collision_def Let_def
    by (simp only: nx_def [symmetric] t1_def [symmetric] t2_def [symmetric] t3_def [symmetric] t4_def [symmetric] t5_def [symmetric])
  let ?P = "upd (nx ?t q) None (pv ?t)"
  have views: "pv t5 = upd (nx ?t s) (Some q) (?P(q := Some s))" "nx t5 = (nx ?t)(q := nx ?t s, s := Some q)"
    "dat t5 = (dat ?t)(q := (key, Some s, index))"
    using v1 v2 v3 v4 v5 by simp_all
  have fq: "nx ?t q = Some j \<Longrightarrow> j \<in> set fs" and cs: "nx ?t s = Some j \<Longrightarrow> j \<in> set ys" for j
    using nq ns(1) by (auto split: if_splits)
  have "seg ?P (nx ?t) None ?c None"
    using sg(2) d(4) fq by (subst seg_cong [where P' = "pv ?t" and N' = "nx ?t"]) (auto simp: upd_def split: option.split)
  from seg_insert [OF this d(2,3)] have c: "seg (pv t5) (nx t5) None (xs @ s # q # ys) None" unfolding views .
  have "seg ?P (nx ?t) None fs None"
    using sg(1) d(1) seg_set_before [of "pv ?t" "nx ?t" "Some q" fs None None] nq by (cases "fs = []") auto
  then have f: "seg (pv t5) (nx t5) None fs None"
    using d(1,4) cs unfolding views
    by (subst seg_cong [where P' = ?P and N' = "nx ?t"]) (auto simp: upd_def split: option.split)
  have "chain_ok gs (dat ?t) {} ?c" using r by simp
  then have "chain_ok gs (dat t5) {} ?c" using d(3) unfolding views by (subst chain_ok_cong [where D' = "dat ?t"]) auto
  then have ck: "chain_ok gs (dat t5) {} (xs @ s # q # ys)"
    using assms(2,3) chain_from_mono [of gs "dat t5" "{}" "insert s (set xs)" ys "insert q (insert s (set xs))" "{}"]
    by (auto simp: chain_from_append placed_def views)
  have other: "seg (pv t5) (nx t5) None c None \<and> chain_ok gs (dat t5) {} c" if "c \<in> set (cs1 @ cs2)" for c
  proof -
    have c: "seg (pv ?t) (nx ?t) None c None" "chain_ok gs (dat ?t) {} c" "set c \<inter> set (q # fs) = {}" "set c \<inter> set ?c = {}"
      using r that by auto
    have "seg (pv t5) (nx t5) None c None"
      using c(1,3,4) fq cs unfolding views
      by (subst seg_cong [where P' = "pv ?t" and N' = "nx ?t"]) (auto simp: upd_def split: option.split)
    moreover have "chain_ok gs (dat t5) {} c"
      using c(2,3) unfolding views by (subst chain_ok_cong [where D' = "dat ?t"]) auto
    ultimately show ?thesis ..
  qed
  have "\<forall>i\<in>set fs. \<not> used (t5 ! i)" using r d(1) unfolding used_dat views by auto
  moreover have "distinct (fs @ concat (cs1 @ (xs @ s # q # ys) # cs2))"
    "set fs \<union> set (concat (cs1 @ (xs @ s # q # ys) # cs2)) = {..<length t5}"
    using r v5(4) by auto
  ultimately show ?thesis
    using f c ck other nq views(3) v5(4) unfolding b' rep_def Let_def by auto
qed

section \<open>The block as a map\<close>

definition block_map :: "'i Block \<Rightarrow> 'i \<Rightarrow> int option" where
  "block_map b = map_of (map (\<lambda>e. (e_id e, e_index e)) (filter used (b_table b)))"

definition unique_keys :: "(nat \<Rightarrow> 'i \<times> nat option \<times> int) \<Rightarrow> nat set \<Rightarrow> bool" where
  "unique_keys D A \<longleftrightarrow> inj_on (\<lambda>i. fst (D i)) A"

definition block_ok :: "('i \<Rightarrow> nat) \<Rightarrow> 'i Block \<Rightarrow> bool" where
  "block_ok gs b \<longleftrightarrow> (\<exists>fl cs. rep gs b fl cs {} \<and> unique_keys (dat (b_table b)) (set (concat cs)))
     \<and> (\<forall>key. gs key < length (b_table b))"

lemma block_okI:
  "rep gs b fl cs {} \<Longrightarrow> unique_keys (dat (b_table b)) (set (concat cs)) \<Longrightarrow> (\<And>k. gs k < length (b_table b)) \<Longrightarrow> block_ok gs b"
  unfolding block_ok_def by blast

lemma map_of_distinct:
  assumes "\<And>i j. i < length xs \<Longrightarrow> j < length xs \<Longrightarrow> fst (xs ! i) = fst (xs ! j) \<Longrightarrow> xs ! i = xs ! j"
  shows "map_of xs k = Some v \<longleftrightarrow> (k, v) \<in> set xs"
proof
  assume "(k, v) \<in> set xs"
  then obtain w where w: "map_of xs k = Some w" "(k, w) \<in> set xs"
    by (metis map_of_SomeD not_None_eq option.distinct(1) weak_map_of_SomeI)
  with assms \<open>(k, v) \<in> set xs\<close> show "map_of xs k = Some v" by (metis fst_conv in_set_conv_nth snd_conv)
qed (rule map_of_SomeD)

lemma block_map_iff:
  assumes "rep gs b fl cs {}" "unique_keys (dat (b_table b)) (set (concat cs))"
  shows "block_map b k = Some v \<longleftrightarrow> (\<exists>i\<in>set (concat cs). \<exists>h. dat (b_table b) i = (k, h, v))"
proof -
  let ?t = "b_table b" and ?xs = "map (\<lambda>e. (e_id e, e_index e)) (filter used (b_table b))"
  have mem: "(k, v) \<in> set ?xs \<longleftrightarrow> (\<exists>i\<in>set (concat cs). \<exists>h. dat ?t i = (k, h, v))" for k v
  proof
    assume "(k, v) \<in> set ?xs"
    then obtain i where "i < length ?t" "used (?t ! i)" "e_id (?t ! i) = k" "e_index (?t ! i) = v"
      by (auto simp: in_set_conv_nth)
    with rep_used [OF assms(1), of i] show "\<exists>i\<in>set (concat cs). \<exists>h. dat ?t i = (k, h, v)" by (auto simp: dat_def)
  next
    assume "\<exists>i\<in>set (concat cs). \<exists>h. dat ?t i = (k, h, v)"
    then obtain i h where i: "i \<in> set (concat cs)" "dat ?t i = (k, h, v)" by auto
    with rep_links [OF assms(1), of i] rep_used [OF assms(1), of i] show "(k, v) \<in> set ?xs" by (force simp: dat_def)
  qed
  have same: "v = w" if v: "(k, v) \<in> set ?xs" and w: "(k, w) \<in> set ?xs" for k v w
  proof -
    from v w obtain i j h h' where i: "i \<in> set (concat cs)" "dat ?t i = (k, h, v)"
      and j: "j \<in> set (concat cs)" "dat ?t j = (k, h', w)" unfolding mem by blast
    then have "i = j" using assms(2) by (auto simp: unique_keys_def dest!: inj_onD [where x = i and y = j])
    with i j show ?thesis by simp
  qed
  have "map_of ?xs k = Some v \<longleftrightarrow> (k, v) \<in> set ?xs"
  proof (rule map_of_distinct)
    fix i j assume ij: "i < length ?xs" "j < length ?xs" "fst (?xs ! i) = fst (?xs ! j)"
    have "(fst (?xs ! i), snd (?xs ! i)) \<in> set ?xs" using nth_mem [OF ij(1)] by (simp only: prod.collapse)
    moreover have "(fst (?xs ! i), snd (?xs ! j)) \<in> set ?xs"
      unfolding ij(3) using nth_mem [OF ij(2)] by (simp only: prod.collapse)
    ultimately have "snd (?xs ! i) = snd (?xs ! j)" by (rule same)
    with ij(3) show "?xs ! i = ?xs ! j" by (simp only: prod_eq_iff)
  qed
  then show ?thesis unfolding block_map_def mem .
qed


text \<open>Where a key can be: in the chain of its start, from there on.\<close>

lemma key_place:
  assumes "rep gs b fl cs {}" "i \<in> set (concat cs)" "dat (b_table b) i = (k, h, v)"
  obtains cs1 cs2 xs ys where "cs = cs1 @ (xs @ gs k # ys) # cs2" "i \<in> set (gs k # ys)"
proof -
  from assms(2) obtain c where c: "c \<in> set cs" "i \<in> set c" by auto
  from c(2) obtain us ws where us: "c = us @ i # ws" by (meson split_list)
  have "chain_ok gs (dat (b_table b)) {} c" using assms(1) c(1) by (simp add: rep_def Let_def)
  then have "gs k \<in> insert i (set us)" using assms(3) chain_from_at [of gs "dat (b_table b)" "{}" us i ws] by (simp add: us placed_def)
  then obtain xs ys where "c = xs @ gs k # ys" "i \<in> set (gs k # ys)"
  proof (cases "gs k = i")
    case False
    with \<open>gs k \<in> insert i (set us)\<close> obtain p q where "us = p @ gs k # q" by (auto dest: split_list)
    with us that [of p "q @ i # ws"] show ?thesis by simp
  qed (use us that [of us ws] in simp)
  moreover obtain cs1 cs2 where "cs = cs1 @ c # cs2" using c(1) by (meson split_list)
  ultimately show thesis using that by blast
qed

lemma chain_unique:
  assumes "distinct (concat cs)" "cs = cs1 @ (xs @ s # ys) # cs2" "cs = cs1' @ (xs' @ s # ys') # cs2'"
  shows "xs' = xs \<and> ys' = ys"
proof -
  have "xs @ s # ys \<in> set cs" using assms(2) by simp
  moreover have "xs' @ s # ys' \<in> set cs" using assms(3) by simp
  moreover have "s \<in> set (xs @ s # ys)" "s \<in> set (xs' @ s # ys')" by simp_all
  ultimately have same: "xs @ s # ys = xs' @ s # ys'"
    using assms(1) by (meson disjoint_iff distinct_concat_iff)
  moreover have "distinct (xs @ s # ys)" using assms(1,2) by auto
  then have "s \<notin> set xs" "s \<notin> set ys" by auto
  moreover have "s \<notin> set xs'" "s \<notin> set ys'" using \<open>distinct (xs @ s # ys)\<close> same by auto
  ultimately show ?thesis by (metis append_Cons_eq_iff)
qed

lemma lookup_walk_result:
  assumes "seg (pv t) (nx t) p (i # is) None" "length (i # is) \<le> fuel"
  shows "lookup_walk fuel t k i =
    Some (case find (\<lambda>j. e_id (t ! j) = k) (i # is) of None \<Rightarrow> INVALID_INDEX | Some j \<Rightarrow> e_index (t ! j))"
  using assms
proof (induction fuel arbitrary: p i "is")
  case (Suc fuel)
  then show ?case by (cases "is") (auto simp: nx_def)
qed simp


lemma chain_fits:
  assumes "rep gs b fl cs H" "c \<in> set cs"
  shows "length c \<le> length (b_table b)"
proof -
  have "distinct c" "set c \<subseteq> {..<length (b_table b)}" using assms by (auto simp: rep_def Let_def distinct_concat_iff)
  then show ?thesis by (metis card_lessThan card_mono distinct_card finite_lessThan)
qed

lemma chain_of_start:
  assumes "rep gs b fl cs {}" "s \<in> set (concat cs)"
  obtains cs1 cs2 xs ys where "cs = cs1 @ (xs @ s # ys) # cs2"
    "seg (pv (b_table b)) (nx (b_table b)) (if xs = [] then None else Some (last xs)) (s # ys) None"
    "length (s # ys) \<le> length (b_table b)"
proof -
  obtain c where c: "c \<in> set cs" "s \<in> set c" using assms(2) by auto
  obtain xs ys where xs: "c = xs @ s # ys" using c(2) by (meson split_list)
  obtain cs1 cs2 where cs: "cs = cs1 @ c # cs2" using c(1) by (meson split_list)
  have "length (s # ys) \<le> length (b_table b)" using chain_fits [OF assms(1) c(1)] xs by simp
  moreover have "seg (pv (b_table b)) (nx (b_table b)) None c None" using assms(1) c(1) by (simp add: rep_def Let_def)
  ultimately show thesis using that cs xs by (auto simp: seg_append)
qed

text \<open>The first match along the chain of a key is the entry the map has for it.\<close>

lemma find_in_chain:
  assumes "rep gs b fl cs {}" "unique_keys (dat (b_table b)) (set (concat cs))" "cs = cs1 @ (xs @ gs k # ys) # cs2"
  shows "(case find (\<lambda>j. e_id (b_table b ! j) = k) (gs k # ys) of None \<Rightarrow> None | Some j \<Rightarrow> Some (e_index (b_table b ! j)))
    = block_map b k"
proof (cases "find (\<lambda>j. e_id (b_table b ! j) = k) (gs k # ys)")
  case None
  have "block_map b k \<noteq> Some v" for v
  proof
    assume "block_map b k = Some v"
    then obtain i h where i: "i \<in> set (concat cs)" "dat (b_table b) i = (k, h, v)"
      using block_map_iff [OF assms(1,2)] by blast
    then obtain cs1' cs2' xs' ys' where "cs = cs1' @ (xs' @ gs k # ys') # cs2'" "i \<in> set (gs k # ys')"
      using key_place [OF assms(1)] by metis
    then have "i \<in> set (gs k # ys)" using chain_unique [OF _ assms(3)] assms(1) by (auto simp: rep_def Let_def)
    moreover have "\<not> (\<exists>j. j \<in> set (gs k # ys) \<and> e_id (b_table b ! j) = k)" using None by (simp only: find_None_iff not_False_eq_True)
    ultimately show False using i(2) by (auto simp: dat_def)
  qed
  then have "block_map b k = None" by (cases "block_map b k") auto
  with None show ?thesis by (simp only: option.case)
next
  case (Some j)
  then obtain n where "n < length (gs k # ys)" "e_id (b_table b ! ((gs k # ys) ! n)) = k" "j = (gs k # ys) ! n"
    unfolding find_Some_iff by blast
  then have "j \<in> set (gs k # ys)" "e_id (b_table b ! j) = k" by (simp_all only: nth_mem)
  then have "block_map b k = Some (e_index (b_table b ! j))"
    using block_map_iff [OF assms(1,2)] assms(3) by (auto simp: dat_def)
  with Some show ?thesis by (simp only: option.case)
qed

lemma unused_start:
  assumes r: "rep gs b fl cs {}" and u: "unique_keys (dat (b_table b)) (set (concat cs))" and s: "gs k \<notin> set (concat cs)"
  shows "block_map b k = None"
proof -
  have "block_map b k \<noteq> Some v" for v
  proof
    assume "block_map b k = Some v"
    then obtain i h where "i \<in> set (concat cs)" "dat (b_table b) i = (k, h, v)" using block_map_iff [OF r u] by blast
    then obtain cs1 cs2 xs ys where "cs = cs1 @ (xs @ gs k # ys) # cs2" using key_place [OF r] by metis
    with s show False by simp
  qed
  then show ?thesis by (cases "block_map b k") auto
qed

lemma lookup_result:
  assumes "block_ok gs b"
  shows "block_lookup gs b k = Some (answer (block_map b) k)"
proof -
  obtain fl cs where r: "rep gs b fl cs {}" and u: "unique_keys (dat (b_table b)) (set (concat cs))" and l: "gs k < length (b_table b)"
    using assms by (auto simp: block_ok_def)
  show ?thesis
  proof (cases "used (b_table b ! gs k)")
    case True
    then obtain cs1 cs2 xs ys where c: "cs = cs1 @ (xs @ gs k # ys) # cs2"
      "seg (pv (b_table b)) (nx (b_table b)) (if xs = [] then None else Some (last xs)) (gs k # ys) None"
      "length (gs k # ys) \<le> length (b_table b)"
      using rep_used [OF r l] chain_of_start [OF r, of "gs k"] by metis
    have "block_lookup gs b k = lookup_walk (length (b_table b)) (b_table b) k (gs k)"
      using True by (simp add: block_lookup_def used_def)
    also note lookup_walk_result [OF c(2,3), of k]
    also have "(case find (\<lambda>j. e_id (b_table b ! j) = k) (gs k # ys) of None \<Rightarrow> INVALID_INDEX | Some j \<Rightarrow> e_index (b_table b ! j))
        = (answer (block_map b) k)"
      unfolding answer_def find_in_chain [OF r u c(1), symmetric] by (cases "find (\<lambda>j. e_id (b_table b ! j) = k) (gs k # ys)") (simp_all only: option.case)
    finally show ?thesis .
  next
    case False
    then have "gs k \<notin> set (concat cs)" using rep_used [OF r l] by simp
    then have "block_map b k = None" by (rule unused_start [OF r u])
    with False show ?thesis by (simp add: block_lookup_def used_def answer_def)
  qed
qed


lemma map_update_iff:
  assumes "\<And>v. m' k = Some v \<longleftrightarrow> v = x" "\<And>k' v. k' \<noteq> k \<Longrightarrow> m' k' = Some v \<longleftrightarrow> m k' = Some v"
  shows "m' = m(k \<mapsto> x)"
  using assms by (auto simp: fun_eq_iff) (metis option.exhaust)

lemma add_map:
  assumes "rep gs b fl cs {}" "unique_keys (dat (b_table b)) (set (concat cs))" "block_map b key = None"
    and "rep gs b' fl' cs' {}" "set (concat cs') = insert q (set (concat cs))" "q \<notin> set (concat cs)"
    and "dat (b_table b') = (dat (b_table b))(q := (key, h, index))"
  shows "unique_keys (dat (b_table b')) (set (concat cs')) \<and> block_map b' = (block_map b)(key \<mapsto> index)"
proof -
  have fresh: "fst (dat (b_table b) i) \<noteq> key" if "i \<in> set (concat cs)" for i
    using that assms(3) block_map_iff [OF assms(1,2), of key] by (metis option.distinct(1) prod.collapse)
  have keep: "dat (b_table b') i = dat (b_table b) i" if "i \<in> set (concat cs)" for i using that assms(6,7) by auto
  have u: "unique_keys (dat (b_table b')) (set (concat cs'))"
    using assms(2) fresh keep assms(5,6,7) unfolding unique_keys_def inj_on_def by (simp add: image_iff) metis
  have "block_map b' = (block_map b)(key \<mapsto> index)"
  proof (rule map_update_iff)
    fix v
    show "block_map b' key = Some v \<longleftrightarrow> v = index"
      unfolding block_map_iff [OF assms(4) u] using fresh keep assms(5,7) by (metis fst_conv fun_upd_same insert_iff prod.inject)
    fix k' assume "k' \<noteq> key"
    then show "block_map b' k' = Some v \<longleftrightarrow> block_map b k' = Some v"
      unfolding block_map_iff [OF assms(4) u] block_map_iff [OF assms(1,2)]
      using keep assms(5,7) by (metis fst_conv fun_upd_same insert_iff)
  qed
  with u show ?thesis ..
qed

text \<open>
  For a key not yet present, \<^verbatim>\<open>add\<close> keeps the invariant and maps the key to the index, leaving all other
  keys as they were; it refuses only when every entry of the table is in use, and then changes nothing.
\<close>

lemma add_result:
  assumes "block_ok gs b" "block_map b key = None" "index \<noteq> INVALID_INDEX"
  shows "(fst (block_add gs b key index) \<longrightarrow>
       block_ok gs (snd (block_add gs b key index)) \<and> block_map (snd (block_add gs b key index)) = (block_map b)(key \<mapsto> index))
    \<and> (\<not> fst (block_add gs b key index) \<longrightarrow> snd (block_add gs b key index) = b \<and> list_all used (b_table b))"
proof -
  obtain fl cs where r: "rep gs b fl cs {}" and u: "unique_keys (dat (b_table b)) (set (concat cs))"
    and l: "\<And>k. gs k < length (b_table b)"
    using assms(1) by (auto simp: block_ok_def)
  let ?s = "gs key"
  show ?thesis
  proof (cases "used (b_table b ! ?s)")
    case False
    then have "?s \<in> set fl" "?s \<notin> set (concat cs)" using rep_used [OF r l] r l [of key] by (auto simp: rep_def Let_def)
    then obtain xs ys where fl: "fl = xs @ ?s # ys" by (meson split_list)
    let ?b = "add_at_start ?s key index b"
    note a = add_at_start_rep [OF r [unfolded fl] refl assms(3)]
    have "unique_keys (dat (b_table ?b)) (set (concat ([?s] # cs))) \<and> block_map ?b = (block_map b)(key \<mapsto> index)"
      using a \<open>?s \<notin> set (concat cs)\<close> by (intro add_map [OF r u assms(2)]) auto
    moreover from this have "block_ok gs ?b" using a l by (intro block_okI [of gs ?b "xs @ ys" "[?s] # cs"]) simp_all
    ultimately show ?thesis using False by (simp add: block_add_def)
  next
    case True
    show ?thesis
    proof (cases fl)
      case Nil
      then have "list_all used (b_table b)"
        using r rep_used [OF r] by (auto simp: rep_def Let_def list_all_length)
      moreover have "freelist b = None" using r Nil by (simp add: rep_def Let_def)
      ultimately show ?thesis using True by (simp add: block_add_def)
    next
      case (Cons q fs)
      have "?s \<in> set (concat cs)" using True rep_used [OF r l] by simp
      then obtain cs1 cs2 xs ys where cs: "cs = cs1 @ (xs @ ?s # ys) # cs2" by (rule chain_of_start [OF r])
      let ?b = "add_collision ?s q key index b"
      note a = add_collision_rep [OF r [unfolded Cons cs] refl assms(3)]
      have q: "freelist b = Some q" "q \<notin> set (concat cs)" using r Cons by (auto simp: rep_def Let_def)
      have "unique_keys (dat (b_table ?b)) (set (concat (cs1 @ (xs @ ?s # q # ys) # cs2))) \<and> block_map ?b = (block_map b)(key \<mapsto> index)"
        using a q(2) cs by (intro add_map [OF r u assms(2)]) auto
      moreover from this have "block_ok gs ?b"
        using a l by (intro block_okI [of gs ?b fs "cs1 @ (xs @ ?s # q # ys) # cs2"]) simp_all
      ultimately show ?thesis using True q by (simp add: block_add_def)
    qed
  qed
qed

section \<open>Removal\<close>

lemma find_rehash_result:
  assumes "seg (pv t) (nx t) p is None" "length is < fuel"
  shows "find_rehash fuel t d (if is = [] then None else Some (hd is)) = Some (find (\<lambda>q. e_head (t ! q) = Some d) is)"
  using assms
proof (induction fuel arbitrary: p "is")
  case (Suc fuel)
  show ?case
  proof (cases "is")
    case (Cons q qs)
    with Suc.prems Suc.IH [of "Some q" qs] show ?thesis by (auto simp: nx_def)
  qed simp
qed simp

lemma chain_from_holes: "(\<And>i. i \<in> set c \<Longrightarrow> i \<in> H \<longleftrightarrow> i \<in> H') \<Longrightarrow> chain_from gs D H seen c = chain_from gs D H' seen c"
  by (induction c arbitrary: seen) auto

lemma chain_from_without:
  assumes "chain_from gs D {} seen c" "\<forall>q\<in>set c. fst (snd (D q)) \<noteq> Some d"
  shows "chain_from gs D {} (seen - {d}) c"
  using assms
proof (induction c arbitrary: seen)
  case (Cons i c)
  then have "placed gs (D i) (insert i (seen - {d}))" by (auto simp: placed_def)
  moreover have "chain_from gs D {} (insert i (seen - {d})) c"
    using Cons.IH [of "insert i seen"] Cons.prems by (auto intro: chain_from_mono)
  ultimately show ?case by simp
qed simp

lemma snap_out_rep:
  assumes "rep gs b fl (cs1 @ (xs @ d # ys) # cs2) {d}" "\<forall>q\<in>set ys. e_head (b_table b ! q) \<noteq> Some d"
  shows "rep gs (snap_out d b) (d # fl) (cs1 @ (xs @ ys) # cs2) {}
    \<and> (\<forall>i. i \<noteq> d \<longrightarrow> dat (b_table (snap_out d b)) i = dat (b_table b) i)
    \<and> length (b_table (snap_out d b)) = length (b_table b)"
proof -
  let ?t = "b_table b" and ?c = "xs @ d # ys" and ?F = "freelist b"
  note r = assms(1) [unfolded rep_def Let_def]
  have dc: "distinct ?c" "distinct fl" "d \<notin> set fl" "set fl \<inter> set ?c = {}"
    and sg: "seg (pv ?t) (nx ?t) None fl None" "seg (pv ?t) (nx ?t) None ?c None" using r by auto
  note nb = seg_neighbours [OF sg(2) dc(1)]
  have F: "?F = (if fl = [] then None else Some (hd fl))" using r by simp
  have len: "\<And>j. nx ?t d = Some j \<Longrightarrow> j < length ?t" "\<And>j. pv ?t d = Some j \<Longrightarrow> j < length ?t" "d < length ?t"
    "\<And>j. ?F = Some j \<Longrightarrow> j < length ?t"
    using r nb(1,2) F by (auto dest: last_in_set hd_in_set split: if_splits)
  have mem: "nx ?t d = Some j \<Longrightarrow> j \<in> set ys" "pv ?t d = Some j \<Longrightarrow> j \<in> set xs" "?F = Some j \<Longrightarrow> j \<in> set fl" for j
    using nb(1,2) F by (auto split: if_splits)
  define t1 where "t1 = set_next (pv ?t d) (nx ?t d) ?t"
  note v1 = set_next_views [of "pv ?t d" ?t "nx ?t d", OF len(2), folded t1_def]
  have p1: "pv t1 d = pv ?t d" "nx t1 d = nx ?t d" using v1 nb by (auto simp: upd_def split: option.split)
  define t2 where "t2 = set_prev (nx t1 d) (pv t1 d) t1"
  have v2: "pv t2 = upd (nx ?t d) (pv ?t d) (pv ?t)" "nx t2 = nx t1" "dat t2 = dat ?t" "length t2 = length ?t"
    using set_prev_views [of "nx t1 d" t1 "pv t1 d", folded t2_def] len(1) v1 p1 by auto
  define t3 where "t3 = t2[d := (t2 ! d) \<lparr> e_index := INVALID_INDEX, e_prev := None \<rparr>]"
  have v3: "pv t3 = (pv t2)(d := None)" "nx t3 = nx t2" "dat t3 = (dat t2)(d := (e_id (t2 ! d), e_head (t2 ! d), INVALID_INDEX))"
    "length t3 = length ?t"
    using list_update_views [of d t2] len(3) v2(4) by (auto simp: t3_def nx_def fun_eq_iff)
  define t4 where "t4 = set_prev ?F (Some d) t3"
  have v4: "pv t4 = upd ?F (Some d) (pv t3)" "nx t4 = nx t3" "dat t4 = dat t3" "length t4 = length ?t"
    using set_prev_views [of ?F t3 "Some d", folded t4_def] len(4) v3 by auto
  define t5 where "t5 = set_next (Some d) ?F t4"
  have v5: "pv t5 = pv t4" "nx t5 = (nx t4)(d := ?F)" "dat t5 = dat t4" "length t5 = length ?t"
    using set_next_views [of "Some d" t4 ?F, folded t5_def] len(3) v4 by auto
  have b': "snap_out d b = b \<lparr> b_table := t5, freelist := Some d \<rparr>"
    unfolding snap_out_def Let_def
    by (simp only: nx_def [symmetric] pv_def [symmetric] t1_def [symmetric] t2_def [symmetric] t3_def [symmetric] t4_def [symmetric] t5_def [symmetric])
  have views: "pv t5 = upd ?F (Some d) ((upd (nx ?t d) (pv ?t d) (pv ?t))(d := None))"
    "nx t5 = (upd (pv ?t d) (nx ?t d) (nx ?t))(d := ?F)" "\<And>i. i \<noteq> d \<Longrightarrow> dat t5 i = dat ?t i"
    "snd (snd (dat t5 d)) = INVALID_INDEX"
    using v1 v2 v3 v4 v5 by simp_all
  have "pv t5 i = upd (nx ?t d) (pv ?t d) (pv ?t) i \<and> nx t5 i = upd (pv ?t d) (nx ?t d) (nx ?t) i" if "i \<in> set (xs @ ys)" for i
    using that dc mem(3) unfolding views by (cases ?F) auto
  with seg_remove [OF sg(2) dc(1)] seg_cong [of "xs @ ys" "pv t5" "upd (nx ?t d) (pv ?t d) (pv ?t)" "nx t5" "upd (pv ?t d) (nx ?t d) (nx ?t)"]
  have c: "seg (pv t5) (nx t5) None (xs @ ys) None" by blast
  have f: "seg (pv t5) (nx t5) None (d # fl) None"
  proof -
    have "seg (upd ?F (Some d) (pv ?t)) (nx ?t) (Some d) fl None"
      using seg_upd_before [OF sg(1) dc(2), of None "Some d"] F by simp
    moreover have "pv t5 i = upd ?F (Some d) (pv ?t) i \<and> nx t5 i = nx ?t i" if "i \<in> set fl" for i
      using that dc(3,4) mem unfolding views by (auto simp: upd_def split: option.split)
    ultimately have "seg (pv t5) (nx t5) (Some d) fl None"
      using seg_cong [of fl "pv t5" "upd ?F (Some d) (pv ?t)" "nx t5" "nx ?t"] by blast
    moreover have "pv t5 d = None" "nx t5 d = ?F" using views(1,2) mem(3) dc(3) by (auto simp: upd_def split: option.split)
    ultimately show ?thesis using F by simp
  qed
  have "chain_ok gs (dat ?t) {d} ?c" using r by simp
  then have parts: "chain_ok gs (dat ?t) {} xs" "chain_from gs (dat ?t) {} (insert d (set xs)) ys"
    using dc(1) chain_from_holes [of xs "{d}" "{}" gs "dat ?t" "{}"] chain_from_holes [of ys "{d}" "{}" gs "dat ?t" "insert d (set xs)"]
    by (auto simp: chain_from_append)
  have "chain_from gs (dat ?t) {} (insert d (set xs) - {d}) ys"
    using parts(2) assms(2) by (intro chain_from_without) (auto simp: dat_def)
  then have "chain_ok gs (dat ?t) {} (xs @ ys)" using parts(1) dc(1) by (simp add: chain_from_append)
  moreover have "i \<in> set (xs @ ys) \<Longrightarrow> dat t5 i = dat ?t i" for i using dc(1) by (intro views(3)) auto
  ultimately have ck: "chain_ok gs (dat t5) {} (xs @ ys)" using chain_ok_cong [of "xs @ ys" "dat t5" "dat ?t" gs "{}" "{}"] by blast
  have other: "seg (pv t5) (nx t5) None c None \<and> chain_ok gs (dat t5) {} c" if "c \<in> set (cs1 @ cs2)" for c
  proof -
    have c: "seg (pv ?t) (nx ?t) None c None" "chain_ok gs (dat ?t) {d} c" "set c \<inter> set fl = {}" "set c \<inter> set ?c = {}"
      using r that by auto
    have "pv t5 i = pv ?t i \<and> nx t5 i = nx ?t i" if "i \<in> set c" for i
      using that c(3,4) mem unfolding views by (auto simp: upd_def split: option.split)
    then have "seg (pv t5) (nx t5) None c None" using c(1) seg_cong [of c "pv t5" "pv ?t" "nx t5" "nx ?t"] by blast
    moreover have "d \<notin> set c" using c(4) by auto
    then have "chain_ok gs (dat t5) {} c = chain_ok gs (dat ?t) {} c" "chain_ok gs (dat ?t) {} c = chain_ok gs (dat ?t) {d} c"
      by (auto intro!: chain_ok_cong chain_from_holes views(3))
    with c(2) have "chain_ok gs (dat t5) {} c" by simp
    ultimately show ?thesis ..
  qed
  have "dat t5 i = dat ?t i" if "i \<in> set fl" for i using that dc(3) by (intro views(3)) auto
  moreover have "\<forall>i\<in>set fl. \<not> used (?t ! i)" using r by simp
  ultimately have "\<forall>i\<in>set (d # fl). \<not> used (t5 ! i)" using views(4) unfolding used_dat by auto
  moreover have "distinct ((d # fl) @ concat (cs1 @ (xs @ ys) # cs2))"
    "set (d # fl) \<union> set (concat (cs1 @ (xs @ ys) # cs2)) = {..<length t5}"
    using r v5(4) by auto
  ultimately show ?thesis
    using f c ck other views(3) v5(4) unfolding b' rep_def Let_def by auto
qed

lemma copy_back_views:
  assumes "d < length t"
  shows "pv (copy_back d q t) = pv t" "nx (copy_back d q t) = nx t" "dat (copy_back d q t) = (dat t)(d := dat t q)"
    "length (copy_back d q t) = length t"
  using assms by (auto simp: copy_back_def list_update_views fun_eq_iff pv_def nx_def dat_def)

text \<open>Copying a later entry back to the place it hashes to moves the hole to where it came from.\<close>

lemma copy_back_rep:
  assumes "rep gs b fl (cs1 @ (xs @ d # ys @ q # zs) # cs2) {d}" "e_head (b_table b ! q) = Some d"
  shows "rep gs (b \<lparr> b_table := copy_back d q (b_table b) \<rparr>) fl (cs1 @ (xs @ d # ys @ q # zs) # cs2) {q}"
proof -
  let ?t = "b_table b" and ?c = "xs @ d # ys @ q # zs"
  note r = assms(1) [unfolded rep_def Let_def]
  have dc: "distinct ?c" "d < length ?t" "d \<notin> set fl" using r by auto
  note v = copy_back_views [OF dc(2), of q]
  have ok: "chain_ok gs (dat ?t) {d} ?c" using r by simp
  then have "placed gs (dat ?t q) (insert q (set (xs @ d # ys)))"
    using dc(1) chain_from_at [of gs "dat ?t" "{d}" "xs @ d # ys" q zs] by simp
  then have pq: "placed gs (dat ?t q) (insert d (set xs))" using assms(2) by (auto simp: placed_def dat_def)
  let ?D = "(dat ?t)(d := dat ?t q)"
  have same: "chain_from gs ?D {q} seen c = chain_from gs (dat ?t) {d} seen c" if "d \<notin> set c" "q \<notin> set c" for seen c
  proof -
    have "chain_from gs ?D {q} seen c = chain_from gs (dat ?t) {q} seen c" using that(1) by (intro chain_ok_cong) auto
    also have "\<dots> = chain_from gs (dat ?t) {d} seen c" using that by (intro chain_from_holes) auto
    finally show ?thesis .
  qed
  have "chain_ok gs ?D {q} ?c"
    using ok pq dc(1) by (simp add: chain_from_append same)
  moreover have "chain_ok gs ?D {q} c" if "c \<in> set (cs1 @ cs2)" for c
    using r that by (subst same) auto
  moreover have "\<forall>i\<in>set fl. \<not> used (copy_back d q ?t ! i)"
    using r dc(3) v(3) unfolding used_dat by auto
  ultimately show ?thesis using r v unfolding rep_def Let_def by auto
qed

lemma copy_back_entries:
  assumes "unique_keys D (C - {d})" "d \<in> C" "q \<in> C" "q \<noteq> d"
  shows "unique_keys (D(d := D q)) (C - {q}) \<and> (D(d := D q)) ` (C - {q}) = D ` (C - {d})"
proof
  show "unique_keys (D(d := D q)) (C - {q})"
    using assms unfolding unique_keys_def inj_on_def by (auto split: if_splits)
  show "(D(d := D q)) ` (C - {q}) = D ` (C - {d})"
    using assms by (auto simp: image_iff)
qed

lemma delete_loop_result:
  assumes "rep gs b fl (cs1 @ (xs @ d # ys) # cs2) {d}" "cs = cs1 @ (xs @ d # ys) # cs2"
    and "unique_keys (dat (b_table b)) (set (concat cs) - {d})" "length ys < fuel"
  shows "\<exists>b' fl' cs'. delete_loop fuel d b = Some b' \<and> rep gs b' fl' cs' {}
    \<and> unique_keys (dat (b_table b')) (set (concat cs'))
    \<and> dat (b_table b') ` set (concat cs') = dat (b_table b) ` (set (concat cs) - {d})
    \<and> length (b_table b') = length (b_table b)"
  using assms
proof (induction fuel arbitrary: b xs d ys)
  case (Suc fuel)
  let ?t = "b_table b"
  note r = Suc.prems(1) [unfolded rep_def Let_def]
  have d: "distinct (xs @ d # ys)" "set (d # ys) \<subseteq> {..<length ?t}" using r by auto
  then have "card (set (d # ys)) \<le> card {..<length ?t}" by (intro card_mono) auto
  then have l: "length ys < Suc (length ?t)" using d(1) by (simp add: distinct_card)
  have s: "seg (pv ?t) (nx ?t) None (xs @ d # ys) None" using r by simp
  then have sy: "seg (pv ?t) (nx ?t) (Some d) ys None" by (simp add: seg_append)
  have "e_next (?t ! d) = (if ys = [] then None else Some (hd ys))"
    using seg_neighbours(2) [OF s d(1)] by (simp add: nx_def)
  then have find: "find_rehash (Suc (length ?t)) ?t d (e_next (?t ! d)) = Some (find (\<lambda>q. e_head (?t ! q) = Some d) ys)"
    by (simp only: find_rehash_result [OF sy l])
  show ?case
  proof (cases "find (\<lambda>q. e_head (?t ! q) = Some d) ys")
    case None
    then have "\<forall>q\<in>set ys. e_head (?t ! q) \<noteq> Some d" by (simp add: find_None_iff)
    note so = snap_out_rep [OF Suc.prems(1) this]
    have "set (concat (cs1 @ (xs @ ys) # cs2)) = set (concat cs) - {d}" using r Suc.prems(2) by auto
    with so Suc.prems(3) have "unique_keys (dat (b_table (snap_out d b))) (set (concat (cs1 @ (xs @ ys) # cs2)))"
      "dat (b_table (snap_out d b)) ` set (concat (cs1 @ (xs @ ys) # cs2)) = dat ?t ` (set (concat cs) - {d})"
      by (auto simp: unique_keys_def inj_on_def image_iff)
    moreover have "delete_loop (Suc fuel) d b = Some (snap_out d b)" unfolding delete_loop.simps find None by simp
    ultimately show ?thesis using so by blast
  next
    case (Some q)
    then obtain vs zs where ys: "ys = vs @ q # zs" and q: "e_head (?t ! q) = Some d"
      by (metis (mono_tags, lifting) find_Some_iff nth_mem split_list)
    let ?b = "b \<lparr> b_table := copy_back d q ?t \<rparr>"
    have rb: "rep gs ?b fl (cs1 @ ((xs @ d # vs) @ q # zs) # cs2) {q}"
      using copy_back_rep [of gs b fl cs1 xs d vs q zs cs2] Suc.prems(1) q ys by simp
    have cq: "cs = cs1 @ ((xs @ d # vs) @ q # zs) # cs2" using Suc.prems(2) ys by simp
    have dq: "unique_keys (dat (b_table ?b)) (set (concat cs) - {q})"
      "dat (b_table ?b) ` (set (concat cs) - {q}) = dat ?t ` (set (concat cs) - {d})"
      using copy_back_entries [OF Suc.prems(3), of q] d ys Suc.prems(2) copy_back_views [of d ?t q] by auto
    have lz: "length zs < fuel" using Suc.prems(4) ys by simp
    have "delete_loop (Suc fuel) d b = delete_loop fuel q ?b" unfolding delete_loop.simps find Some by simp
    moreover have "length (b_table ?b) = length ?t" by (simp add: copy_back_def)
    ultimately show ?thesis using Suc.IH [OF rb cq dq(1) lz] unfolding dq(2) by simp
  qed
qed simp

lemma remove_walk_result:
  assumes "seg (pv (b_table b)) (nx (b_table b)) p (i # is) None" "\<forall>j\<in>set (i # is). used (b_table b ! j)" "length (i # is) \<le> fuel"
  shows "remove_walk fuel b k i =
    (case find (\<lambda>j. e_id (b_table b ! j) = k) (i # is) of
       None \<Rightarrow> Some (INVALID_INDEX, b)
     | Some j \<Rightarrow> map_option (Pair (e_index (b_table b ! j))) (delete_loop (length (b_table b)) j b))"
  using assms
proof (induction fuel arbitrary: p i "is")
  case (Suc fuel)
  show ?case
  proof (cases "is")
    case (Cons j js)
    with Suc.prems Suc.IH [of "Some i" j js] show ?thesis by (simp add: nx_def Let_def)
  qed (use Suc.prems in \<open>simp add: nx_def Let_def\<close>)
qed simp

lemma rep_hole: "rep gs b fl cs {} \<Longrightarrow> rep gs b fl cs {d}"
  by (auto simp: rep_def Let_def intro: chain_from_mono)

lemma map_remove_iff:
  assumes "m' k = None" "\<And>k' v. k' \<noteq> k \<Longrightarrow> m' k' = Some v \<longleftrightarrow> m k' = Some v"
  shows "m' = m(k := None)"
  using assms by (auto simp: fun_eq_iff) (metis option.exhaust)

lemma in_data: "(\<exists>i\<in>A. \<exists>h. D i = (k, h, v)) \<longleftrightarrow> (\<exists>h. (k, h, v) \<in> D ` A)"
  by (auto simp: image_iff) metis+

lemma remove_map:
  assumes "rep gs b fl cs {}" "unique_keys (dat (b_table b)) (set (concat cs))" "d \<in> set (concat cs)" "fst (dat (b_table b) d) = k"
    and "rep gs b' fl' cs' {}" "unique_keys (dat (b_table b')) (set (concat cs'))"
    and "dat (b_table b') ` set (concat cs') = dat (b_table b) ` (set (concat cs) - {d})"
  shows "block_map b' = (block_map b)(k := None)"
proof -
  have at: "block_map b' k' = Some v \<longleftrightarrow> (\<exists>i\<in>set (concat cs) - {d}. \<exists>h. dat (b_table b) i = (k', h, v))" for k' v
    unfolding block_map_iff [OF assms(5,6)] in_data assms(7) ..
  have other: "i = d" if "i \<in> set (concat cs)" "fst (dat (b_table b) i) = k" for i
    using assms(2,3,4) that unfolding unique_keys_def by (auto dest: inj_onD)
  show ?thesis
  proof (rule map_remove_iff)
    have "block_map b' k \<noteq> Some v" for v unfolding at using other by force
    then show "block_map b' k = None" by (cases "block_map b' k") auto
    fix k' v assume "k' \<noteq> k"
    then show "block_map b' k' = Some v \<longleftrightarrow> block_map b k' = Some v"
      unfolding at block_map_iff [OF assms(1,2)] using assms(4) by force
  qed
qed

text \<open>
  Removal comes to an end, answers as the map does, and moving later entries of a coalesced chain into
  the gap loses none of them.
\<close>

lemma remove_result:
  assumes "block_ok gs b"
  shows "\<exists>b'. block_remove gs b k = Some (answer (block_map b) k, b')
    \<and> block_ok gs b' \<and> block_map b' = (block_map b)(k := None)"
proof -
  obtain fl cs where r: "rep gs b fl cs {}" and u: "unique_keys (dat (b_table b)) (set (concat cs))"
    and l: "\<And>k. gs k < length (b_table b)"
    using assms by (auto simp: block_ok_def)
  let ?f = "find (\<lambda>j. e_id (b_table b ! j) = k)"
  have stay: "block_remove gs b k = Some (INVALID_INDEX, b) \<Longrightarrow> block_map b k = None \<Longrightarrow> ?thesis"
    using assms by (auto simp: fun_eq_iff answer_def)
  show ?thesis
  proof (cases "used (b_table b ! gs k)")
    case False
    then have "gs k \<notin> set (concat cs)" using rep_used [OF r l] by simp
    then have "block_map b k = None" by (rule unused_start [OF r u])
    moreover have "block_remove gs b k = Some (INVALID_INDEX, b)"
      using False l [of k] by (cases "length (b_table b)") (simp_all add: block_remove_def Let_def)
    ultimately show ?thesis using stay by blast
  next
    case True
    then have "gs k \<in> set (concat cs)" using rep_used [OF r l] by simp
    then obtain cs1 cs2 xs ys where c: "cs = cs1 @ (xs @ gs k # ys) # cs2"
      "seg (pv (b_table b)) (nx (b_table b)) (if xs = [] then None else Some (last xs)) (gs k # ys) None"
      "length (gs k # ys) \<le> length (b_table b)"
      by (rule chain_of_start [OF r])
    have "\<forall>j\<in>set (gs k # ys). used (b_table b ! j)"
      using rep_used [OF r] rep_links [OF r] unfolding c(1) by simp
    note w = remove_walk_result [OF c(2) this c(3), of k, folded block_remove_def]
    note m = find_in_chain [OF r u c(1)]
    show ?thesis
    proof (cases "?f (gs k # ys)")
      case None
      then show ?thesis using w m stay by (simp only: option.case)
    next
      case (Some d)
      then have d: "d \<in> set (gs k # ys)" "e_id (b_table b ! d) = k" by (auto simp: find_Some_iff split: if_splits)
      then have "d \<in> set (xs @ gs k # ys)" by auto
      then obtain vs ws where vs: "xs @ gs k # ys = vs @ d # ws" by (meson split_list)
      have "length (vs @ d # ws) \<le> length (b_table b)" using chain_fits [OF r, of "vs @ d # ws"] c(1) vs by simp
      then obtain b' fl' cs' where b': "delete_loop (length (b_table b)) d b = Some b'" "rep gs b' fl' cs' {}"
        "unique_keys (dat (b_table b')) (set (concat cs'))"
        "dat (b_table b') ` set (concat cs') = dat (b_table b) ` (set (concat cs) - {d})"
        "length (b_table b') = length (b_table b)"
        using delete_loop_result [OF rep_hole [OF r [unfolded c(1) vs]] _ _, of cs "length (b_table b)"] u c(1) vs
        by (auto simp: unique_keys_def inj_on_diff)
      have "block_map b' = (block_map b)(k := None)"
        using d c(1) by (intro remove_map [OF r u _ _ b'(2,3,4)]) (auto simp: dat_def)
      moreover have "block_ok gs b'" using b' l by (intro block_okI) simp_all
      moreover have "block_remove gs b k = Some (e_index (b_table b ! d), b')"
        unfolding w Some using b'(1) by simp
      moreover have "block_map b k = Some (e_index (b_table b ! d))" using m unfolding Some by simp
      ultimately show ?thesis by (simp add: answer_def)
    qed
  qed
qed

section \<open>A new block\<close>

lemma seg_upto:
  assumes "\<And>i. m \<le> i \<Longrightarrow> i < n \<Longrightarrow> N i = (if i + 1 < n then Some (i + 1) else None)" "\<And>i. m < i \<Longrightarrow> i < n \<Longrightarrow> P i = Some (i - 1)"
    and "m < n \<Longrightarrow> P m = p"
  shows "seg P N p [m..<n] None"
  using assms
proof (induction "n - m" arbitrary: m p)
  case (Suc k)
  then have m: "m < n" "k = n - Suc m" by simp_all
  then have "seg P N (Some m) [Suc m..<n] None" using Suc.prems by (intro Suc.hyps(1)) auto
  moreover have "N m = (if [Suc m..<n] = [] then None else Some (hd [Suc m..<n]))" using Suc.prems(1) m(1) by auto
  ultimately show ?case using Suc.prems(3) m(1) by (simp add: upt_conv_Cons)
qed simp

lemma block_new_rep: "0 < sz \<Longrightarrow> rep gs (block sz raw) [0..<sz] [] {}"
  unfolding rep_def Let_def block_def
  by (auto intro!: seg_upto simp: pv_def nx_def initial_entry_def used_def)

lemma block_new_ok: "(\<And>k. gs k < sz) \<Longrightarrow> block_ok gs (block sz raw) \<and> block_map (block sz raw) = Map.empty"
proof -
  assume g: "\<And>k. gs k < sz"
  have "block_map (block sz raw) = Map.empty"
    by (simp add: block_map_def block_def used_def initial_entry_def filter_empty_conv)
  moreover from g have "0 < sz" by (metis gr0I not_less_zero)
  then have "block_ok gs (block sz raw)"
    using g by (intro block_okI [OF block_new_rep]) (auto simp: unique_keys_def block_def)
  ultimately show ?thesis by simp
qed

section \<open>The check passes\<close>

lemma check_free_result:
  assumes "seg (pv t) (nx t) p fl None" "distinct fl" "\<forall>i\<in>set fl. i < length t \<and> \<not> used (t ! i)" "set fl \<inter> M = {}" "length fl < fuel"
  shows "check_free fuel t p M ok (if fl = [] then None else Some (hd fl)) = Some (ok, M \<union> set fl)"
  using assms
proof (induction fuel arbitrary: p fl M)
  case (Suc fuel)
  show ?case
  proof (cases fl)
    case (Cons i "is")
    with Suc.prems Suc.IH [of "Some i" "is" "insert i M"] show ?thesis by (simp add: pv_def nx_def)
  qed simp
qed simp

lemma check_chain_result:
  assumes "seg (pv t) (nx t) p c None" "\<forall>j\<in>set c. j < length t \<and> used (t ! j) \<and> e_head (t ! j) = Some (gs (e_id (t ! j)))" "length c < fuel"
  shows "check_chain fuel gs t p M ok (if c = [] then None else Some (hd c)) = Some (ok, M \<union> set c)"
  using assms
proof (induction fuel arbitrary: p c M ok)
  case (Suc fuel)
  show ?case
  proof (cases c)
    case (Cons i "is")
    with Suc.prems Suc.IH [of "Some i" "is" "insert i M"] show ?thesis by (simp add: pv_def nx_def)
  qed simp
qed simp

lemma rep_entry:
  assumes "rep gs b fl cs {}" "i \<in> set (concat cs)"
  shows "i < length (b_table b) \<and> used (b_table b ! i) \<and> e_head (b_table b ! i) = Some (gs (e_id (b_table b ! i)))"
proof -
  obtain c where c: "c \<in> set cs" "i \<in> set c" using assms(2) by auto
  obtain us ws where us: "c = us @ i # ws" using c(2) by (meson split_list)
  have "chain_ok gs (dat (b_table b)) {} c" using assms(1) c(1) by (simp add: rep_def Let_def)
  then have "placed gs (dat (b_table b) i) (insert i (set us))" using us chain_from_at [of gs "dat (b_table b)" "{}" us i ws] by simp
  then show ?thesis using rep_links [OF assms(1)] assms(2) by (auto simp: placed_def dat_def used_def)
qed

lemma check_heads_result:
  assumes "rep gs b fl cs {}" "set is \<subseteq> {..<length (b_table b)}"
  shows "\<exists>M'. foldl (check_head gs (b_table b)) (Some (True, M)) is = Some (True, M') \<and> M \<subseteq> M'
    \<and> (\<forall>c\<in>set cs. c \<noteq> [] \<longrightarrow> hd c \<in> set is \<longrightarrow> set c \<subseteq> M')"
  using assms(2)
proof (induction "is" arbitrary: M)
  case (Cons i "is")
  let ?t = "b_table b"
  have step: "\<exists>M'. check_head gs ?t (Some (True, M)) i = Some (True, M') \<and> M \<subseteq> M' \<and> (\<forall>c\<in>set cs. c \<noteq> [] \<longrightarrow> hd c = i \<longrightarrow> set c \<subseteq> M')"
  proof (cases "used (?t ! i) \<and> gs (e_id (?t ! i)) = i")
    case True
    then have "i \<in> set (concat cs)" using rep_used [OF assms(1), of i] Cons.prems by simp
    then obtain cs1 cs2 xs ys where c: "cs = cs1 @ (xs @ i # ys) # cs2"
      "seg (pv ?t) (nx ?t) (if xs = [] then None else Some (last xs)) (i # ys) None" "length (i # ys) \<le> length ?t"
      by (rule chain_of_start [OF assms(1)])
    have e: "\<forall>j\<in>set (i # ys). j < length ?t \<and> used (?t ! j) \<and> e_head (?t ! j) = Some (gs (e_id (?t ! j)))"
      using rep_entry [OF assms(1)] c(1) by simp
    have "e_prev (?t ! i) = (if xs = [] then None else Some (last xs))" using c(2) by (simp add: pv_def)
    then have "check_head gs ?t (Some (True, M)) i = Some (True, M \<union> set (i # ys))"
      using check_chain_result [OF c(2) e, of "Suc (length ?t)" M True] True c(3) by (simp add: check_head_def del: check_chain.simps)
    moreover have "set c' \<subseteq> set (i # ys)" if c': "c' \<in> set cs" "c' \<noteq> []" "hd c' = i" for c'
    proof -
      obtain zs where zs: "c' = i # zs" using c'(2,3) by (cases c') auto
      obtain ds1 ds2 where "cs = ds1 @ ([] @ i # zs) # ds2" using c'(1) zs by (metis append_Nil split_list)
      from chain_unique [OF _ c(1) this] assms(1) have "zs = ys" by (simp add: rep_def Let_def)
      with zs show ?thesis by simp
    qed
    ultimately show ?thesis by blast
  next
    case False
    have "hd c \<noteq> i" if c: "c \<in> set cs" "c \<noteq> []" for c
    proof
      assume "hd c = i"
      then obtain zs where zs: "c = i # zs" using c(2) by (cases c) auto
      have "chain_ok gs (dat ?t) {} c" using assms(1) c(1) by (simp add: rep_def Let_def)
      then have "used (?t ! i) \<and> gs (e_id (?t ! i)) = i" by (auto simp: zs placed_def dat_def used_def)
      with False show False ..
    qed
    with False show ?thesis by (auto simp: check_head_def)
  qed
  then obtain M1 where M1: "check_head gs ?t (Some (True, M)) i = Some (True, M1)" "M \<subseteq> M1"
    "\<forall>c\<in>set cs. c \<noteq> [] \<longrightarrow> hd c = i \<longrightarrow> set c \<subseteq> M1" by blast
  obtain M2 where "foldl (check_head gs ?t) (Some (True, M1)) is = Some (True, M2)" "M1 \<subseteq> M2"
    "\<forall>c\<in>set cs. c \<noteq> [] \<longrightarrow> hd c \<in> set is \<longrightarrow> set c \<subseteq> M2"
    using Cons.IH [of M1] Cons.prems by auto
  with M1 show ?case by (intro exI [of _ M2]) auto
qed simp

lemma valid_block_checks:
  assumes "block_ok gs b"
  shows "block_check gs b = Some True"
proof -
  let ?t = "b_table b"
  obtain fl cs where r: "rep gs b fl cs {}" using assms by (auto simp: block_ok_def)
  note r' = r [unfolded rep_def Let_def]
  have "distinct fl" "set fl \<subseteq> {..<length ?t}" using r' by auto
  then have "length fl \<le> length ?t" by (metis card_lessThan card_mono distinct_card finite_lessThan)
  moreover have "\<forall>i\<in>set fl. i < length ?t \<and> \<not> used (?t ! i)" using r' \<open>set fl \<subseteq> {..<length ?t}\<close> by auto
  ultimately have free: "check_free (Suc (length ?t)) ?t None {} True (freelist b) = Some (True, set fl)"
    using r' check_free_result [of ?t None fl "{}" "Suc (length ?t)" True] by (auto simp del: check_free.simps)
  have upto: "set [0..<length ?t] \<subseteq> {..<length ?t}" by auto
  obtain M where M: "foldl (check_head gs ?t) (Some (True, set fl)) [0..<length ?t] = Some (True, M)" "set fl \<subseteq> M"
    "\<And>c. c \<in> set cs \<Longrightarrow> c \<noteq> [] \<Longrightarrow> hd c \<in> set [0..<length ?t] \<Longrightarrow> set c \<subseteq> M"
    using check_heads_result [OF r upto, of "set fl"] by blast
  have "set c \<subseteq> M" if "c \<in> set cs" for c
  proof (cases "c = []")
    case False
    then have "hd c \<in> set (concat cs)" using that by (auto intro: bexI [of _ c])
    then have "hd c < length ?t" using rep_links [OF r] by blast
    with False M(3) that show ?thesis by simp
  qed simp
  then have "set fl \<union> set (concat cs) \<subseteq> M" using M(2) by auto
  moreover have "set fl \<union> set (concat cs) = {..<length ?t}" using r' by blast
  ultimately have "{..<length ?t} \<subseteq> M" by blast
  then have "list_all (\<lambda>i. i \<in> M) [0..<length ?t]" by (auto simp: list_all_iff)
  with M(1) free show ?thesis by (simp add: block_check_def)
qed

text \<open>
  C40: The consistency check agrees with the invariant: on every block that satisfies it the walks of
  \<^verbatim>\<open>check\<close> end and report no fault.
\<close>

theorem block_check_passes:
  assumes "block_ok gs b"
  shows "block_check gs b = Some True"
  using assms by (rule valid_block_checks)

theorem block_check_passes_witness:
  "block_check (\<lambda>k. k mod 2) (snd (block_add (\<lambda>k. k mod 2)
     (block 2 (\<lambda>_. \<lparr> e_id = 0, e_prev = None, e_next = None, e_head = None, e_index = 7 \<rparr>)) (5 :: nat) 70)) = Some True"
proof (rule block_check_passes)
  let ?b = "block 2 (\<lambda>_. \<lparr> e_id = 0, e_prev = None, e_next = None, e_head = None, e_index = 7 \<rparr>) :: nat Block"
  have "block_ok (\<lambda>k. k mod 2) ?b" "block_map ?b 5 = None" using block_new_ok [of "\<lambda>k. k mod 2" 2] by simp_all
  moreover have "fst (block_add (\<lambda>k. k mod 2) ?b 5 70)" by (simp add: block_add_def used_def block_def initial_entry_def INVALID_INDEX_def)
  ultimately show "block_ok (\<lambda>k. k mod 2) (snd (block_add (\<lambda>k. k mod 2) ?b 5 70))"
    using add_result [of "\<lambda>k. k mod 2" ?b 5 70] by (simp add: INVALID_INDEX_def)
qed

section \<open>Statistics count the keys\<close>

lemma chain_length_result:
  assumes "seg (pv t) (nx t) p c None" "length c < fuel"
  shows "chain_length fuel t (if c = [] then None else Some (hd c)) = Some (length c)"
  using assms
proof (induction fuel arbitrary: p c)
  case (Suc fuel)
  show ?case
  proof (cases c)
    case (Cons i "is")
    with Suc.prems Suc.IH [of "Some i" "is"] show ?thesis by (simp add: nx_def)
  qed simp
qed simp

lemma stats_fold:
  assumes "rep gs b fl cs {}" "set is \<subseteq> {..<length (b_table b)}"
  shows "\<exists>m'. foldl (stats_step gs (b_table b)) (Some (n, m)) is = Some (n + length (filter (\<lambda>i. used (b_table b ! i)) is), m')
    \<and> m' \<le> max m (length (b_table b))"
  using assms(2)
proof (induction "is" arbitrary: n m)
  case (Cons i "is")
  let ?t = "b_table b"
  have "\<exists>m'. stats_step gs ?t (Some (n, m)) i = Some (n + (if used (?t ! i) then 1 else 0), m') \<and> m' \<le> max m (length ?t)"
  proof (cases "used (?t ! i)")
    case True
    then have "i \<in> set (concat cs)" using rep_used [OF assms(1), of i] Cons.prems by simp
    then obtain cs1 cs2 xs ys where c: "cs = cs1 @ (xs @ i # ys) # cs2"
      "seg (pv ?t) (nx ?t) (if xs = [] then None else Some (last xs)) (i # ys) None" "length (i # ys) \<le> length ?t"
      by (rule chain_of_start [OF assms(1)])
    then have "chain_length (Suc (length ?t)) ?t (Some i) = Some (length (i # ys))"
      using chain_length_result [OF c(2), of "Suc (length ?t)"] by (simp del: chain_length.simps)
    with True c(3) show ?thesis by (auto simp: stats_step_def simp del: chain_length.simps)
  qed (auto simp: stats_step_def)
  then obtain m1 where m1: "stats_step gs ?t (Some (n, m)) i = Some (n + (if used (?t ! i) then 1 else 0), m1)" "m1 \<le> max m (length ?t)"
    by blast
  obtain m2 where "foldl (stats_step gs ?t) (Some (n + (if used (?t ! i) then 1 else 0), m1)) is
      = Some (n + (if used (?t ! i) then 1 else 0) + length (filter (\<lambda>i. used (?t ! i)) is), m2)" "m2 \<le> max m1 (length ?t)"
    using Cons.IH [of "n + (if used (?t ! i) then 1 else 0)" m1] Cons.prems by auto
  with m1 show ?case by (intro exI [of _ m2]) (auto split: if_splits)
qed simp

lemma block_keys:
  assumes "rep gs b fl cs {}" "unique_keys (dat (b_table b)) (set (concat cs))"
  shows "card (dom (block_map b)) = length (filter (\<lambda>i. used (b_table b ! i)) [0..<length (b_table b)])"
proof -
  let ?C = "set (concat cs)"
  have "k \<in> dom (block_map b) \<longleftrightarrow> k \<in> (\<lambda>i. fst (dat (b_table b) i)) ` ?C" for k
    unfolding dom_def mem_Collect_eq not_None_eq block_map_iff [OF assms] by (metis (no_types, lifting) fst_conv image_iff prod.collapse)
  then have "dom (block_map b) = (\<lambda>i. fst (dat (b_table b) i)) ` ?C" by blast
  then have "card (dom (block_map b)) = card ?C" using assms(2) by (simp add: card_image unique_keys_def)
  moreover have "set (filter (\<lambda>i. used (b_table b ! i)) [0..<length (b_table b)]) = ?C"
    using rep_used [OF assms(1)] rep_links [OF assms(1)] by auto
  ultimately show ?thesis by (metis distinct_card distinct_filter distinct_upt)
qed

text \<open>
  The walks of \<^verbatim>\<open>get_stats\<close> end; the entries counted are the keys of the map, the fullness is their
  percentage of the table and no chain is longer than the table.
\<close>

lemma block_stats_count:
  assumes "block_ok gs b"
  shows "\<exists>s. block_get_stats gs b = Some s \<and> st_entries s = card (dom (block_map b))
    \<and> max_fullness s = 100 * card (dom (block_map b)) div length (b_table b) \<and> max_chain s \<le> length (b_table b)"
proof -
  obtain fl cs where r: "rep gs b fl cs {}" and u: "unique_keys (dat (b_table b)) (set (concat cs))"
    using assms by (auto simp: block_ok_def)
  have "set [0..<length (b_table b)] \<subseteq> {..<length (b_table b)}" by auto
  from stats_fold [OF r this, of 0 0] block_keys [OF r u] show ?thesis
    by (auto simp: block_get_stats_def)
qed

section \<open>A block provides the interface\<close>

interpretation hash_block: index_map "block_ok gs" "\<lambda>k. True" block_map "block_add gs" "block_lookup gs" "block_remove gs"
  "\<lambda>b k. list_all used (b_table b)" for gs :: "'i \<Rightarrow> nat"
proof unfold_locales
  fix s :: "'i Block" and k :: 'i and i :: int
  assume ok: "block_ok gs s"
  show "block_lookup gs s k = Some (answer (block_map s) k)" using ok by (rule lookup_result)
  show "\<exists>s'. block_remove gs s k = Some (answer (block_map s) k, s') \<and> block_ok gs s'
      \<and> (\<forall>k'. True \<longrightarrow> block_map s' k' = ((block_map s)(k := None)) k')"
    using remove_result [OF ok, of k] by metis
  assume "block_map s k = None" "i \<noteq> INVALID_INDEX"
  note a = add_result [OF ok this]
  show "fst (block_add gs s k i) \<Longrightarrow> block_ok gs (snd (block_add gs s k i))
      \<and> (\<forall>k'. True \<longrightarrow> block_map (snd (block_add gs s k i)) k' = ((block_map s)(k \<mapsto> i)) k')"
    using a by metis
  show "\<not> fst (block_add gs s k i) \<Longrightarrow> snd (block_add gs s k i) = s \<and> list_all used (b_table s)"
    using a by metis
qed

end
