(* ===== verification/Hash_Table.thy ===== *)
theory Hash_Table
  imports Hash_Block "HOL-Library.Word"
begin

text \<open>
  The two-level hash table of libs/hash/ot-hash.h over its integer helper: the low bits of an identifier
  choose a block, the rest is the identifier within the block. Memory is taken to be available, so
  every block of a new table is built.
\<close>

unbundle bit_operations_syntax

section \<open>Splitting identifiers\<close>

definition get_block_no :: "nat \<Rightarrow> 'a::len word \<Rightarrow> nat" where
  "get_block_no nbits ident = unat (ident AND mask nbits)"

definition get_hash_id :: "nat \<Rightarrow> 'a::len word \<Rightarrow> 'h::len word" where
  "get_hash_id nbits ident = ucast (drop_bit nbits ident)"

definition get_start :: "nat \<Rightarrow> 'h::len word \<Rightarrow> nat" where
  "get_start block_size ident = unat ident mod block_size"

section \<open>The table\<close>

record 'i GeneralTable =
  nbits :: nat
  block_size :: nat
  blocks :: "'i Block list"
  built :: bool

definition general_table :: "nat \<Rightarrow> nat \<Rightarrow> (nat \<Rightarrow> nat \<Rightarrow> 'h::len word Entry) \<Rightarrow> 'h word GeneralTable" where
  "general_table nb bs raw =
     \<lparr> nbits = nb, block_size = bs, blocks = map (\<lambda>i. block bs (raw i)) [0..<2 ^ nb], built = True \<rparr>"

definition max_id_bits :: "'h::len word GeneralTable \<Rightarrow> nat" where
  "max_id_bits t = nbits t + LENGTH('h)"

definition table_add :: "'h::len word GeneralTable \<Rightarrow> 'a::len word \<Rightarrow> int \<Rightarrow> bool \<times> 'h word GeneralTable" where
  "table_add t ident index =
     (if \<not> built t then (False, t)
      else let block_no = get_block_no (nbits t) ident;
               hash_id = get_hash_id (nbits t) ident;
               (r, b) = block_add (get_start (block_size t)) (blocks t ! block_no) hash_id index
           in (r, t \<lparr> blocks := (blocks t)[block_no := b] \<rparr>))"

definition table_lookup :: "'h::len word GeneralTable \<Rightarrow> 'a::len word \<Rightarrow> int option" where
  "table_lookup t ident =
     (if \<not> built t then Some INVALID_INDEX
      else block_lookup (get_start (block_size t)) (blocks t ! get_block_no (nbits t) ident) (get_hash_id (nbits t) ident))"

definition lookup_and_remove :: "'h::len word GeneralTable \<Rightarrow> 'a::len word \<Rightarrow> (int \<times> 'h word GeneralTable) option" where
  "lookup_and_remove t ident =
     (if \<not> built t then Some (INVALID_INDEX, t)
      else let block_no = get_block_no (nbits t) ident;
               hash_id = get_hash_id (nbits t) ident
           in map_option (\<lambda>(r, b). (r, t \<lparr> blocks := (blocks t)[block_no := b] \<rparr>))
                (block_remove (get_start (block_size t)) (blocks t ! block_no) hash_id))"

definition table_remove :: "'h::len word GeneralTable \<Rightarrow> 'a::len word \<Rightarrow> (bool \<times> 'h word GeneralTable) option" where
  "table_remove t ident = map_option (\<lambda>(r, t'). (r \<noteq> INVALID_INDEX, t')) (lookup_and_remove t ident)"

definition table_check :: "'h::len word GeneralTable \<Rightarrow> bool option" where
  "table_check t =
     foldl (\<lambda>ok i. Option.bind ok (\<lambda>ok. map_option (\<lambda>c. c \<and> ok) (block_check (get_start (block_size t)) (blocks t ! i))))
       (Some True) [0..<2 ^ nbits t]"

definition add_stats :: "Stats \<Rightarrow> Stats \<Rightarrow> Stats" where
  "add_stats s bs =
     \<lparr> st_entries = st_entries s + st_entries bs,
       max_fullness = (if max_fullness bs > max_fullness s then max_fullness bs else max_fullness s),
       max_chain = (if max_chain bs > max_chain s then max_chain bs else max_chain s) \<rparr>"

definition table_get_stats :: "'h::len word GeneralTable \<Rightarrow> Stats option" where
  "table_get_stats t =
     foldl (\<lambda>st i. Option.bind st (\<lambda>s. map_option (add_stats s) (block_get_stats (get_start (block_size t)) (blocks t ! i))))
       (Some \<lparr> st_entries = 0, max_fullness = 0, max_chain = 0 \<rparr>) [0..<2 ^ nbits t]"

section \<open>Two identifiers never share a place\<close>

definition legal_id :: "nat \<Rightarrow> nat \<Rightarrow> 'a::len word \<Rightarrow> bool" where
  "legal_id nb w ident \<longleftrightarrow> unat ident < 2 ^ (nb + w)"

lemma get_block_no_mod: "get_block_no nb ident = unat ident mod 2 ^ nb"
  unfolding get_block_no_def take_bit_eq_mask [symmetric] unsigned_take_bit_eq by (rule take_bit_eq_mod)

lemma get_hash_id_div:
  fixes ident :: "'a::len word"
  assumes "legal_id nb LENGTH('h::len) ident"
  shows "unat (get_hash_id nb ident :: 'h word) = unat ident div 2 ^ nb"
proof -
  have "unat ident div 2 ^ nb < 2 ^ LENGTH('h)"
    using assms by (simp add: legal_id_def power_add less_mult_imp_div_less mult.commute)
  then show ?thesis
    unfolding get_hash_id_def unsigned_ucast_eq unat_drop_bit_eq by (simp add: drop_bit_eq_div take_bit_eq_mod)
qed

lemma split_id_injective:
  fixes a b :: "'a::len word"
  assumes "legal_id nb LENGTH('h::len) a" "legal_id nb LENGTH('h) b"
    and "get_block_no nb a = get_block_no nb b" "(get_hash_id nb a :: 'h word) = get_hash_id nb b"
  shows "a = b"
proof -
  have "unat a div 2 ^ nb = unat b div 2 ^ nb"
    using assms(4) get_hash_id_div [OF assms(1)] get_hash_id_div [OF assms(2)] by metis
  moreover have "unat a mod 2 ^ nb = unat b mod 2 ^ nb" using assms(3) by (simp add: get_block_no_mod)
  ultimately have "unat a = unat b" by (metis div_mult_mod_eq)
  then show ?thesis by (simp add: word_unat_eq_iff)
qed

section \<open>The invariant\<close>

definition table_ok :: "nat \<Rightarrow> 'h::len word GeneralTable \<Rightarrow> bool" where
  "table_ok nb t \<longleftrightarrow> built t \<and> nbits t = nb \<and> length (blocks t) = 2 ^ nb
     \<and> (\<forall>b\<in>set (blocks t). block_ok (get_start (block_size t)) b)"

definition table_map :: "'h::len word GeneralTable \<Rightarrow> 'a::len word \<Rightarrow> int option" where
  "table_map t ident = block_map (blocks t ! get_block_no (nbits t) ident) (get_hash_id (nbits t) ident)"

lemma get_block_no_less: "get_block_no nb ident < 2 ^ nb"
  by (simp add: get_block_no_mod)

lemma table_block:
  "table_ok nb t \<Longrightarrow> block_ok (get_start (block_size t)) (blocks t ! get_block_no (nbits t) ident)"
  by (auto simp: table_ok_def get_block_no_less intro!: bspec [OF _ nth_mem])

lemma table_set_block:
  assumes "table_ok nb t" "block_ok (get_start (block_size t)) b"
  shows "table_ok nb (t \<lparr> blocks := (blocks t)[i := b] \<rparr>)"
  using assms set_update_subset_insert [of "blocks t" i b] by (auto simp: table_ok_def)

lemma table_map_update:
  fixes t :: "'h::len word GeneralTable" and a k :: "'a::len word"
  assumes "table_ok nb t" "legal_id nb LENGTH('h) a" "legal_id nb LENGTH('h) k"
    and "block_map b = (block_map (blocks t ! get_block_no nb a))(get_hash_id nb a := v)"
  shows "table_map (t \<lparr> blocks := (blocks t)[get_block_no nb a := b] \<rparr>) k = ((table_map t)(a := v)) k"
proof (cases "get_block_no nb k = get_block_no nb a")
  case True
  show ?thesis
  proof (cases "k = a")
    case False
    then have "(get_hash_id nb k :: 'h word) \<noteq> get_hash_id nb a"
      using split_id_injective [OF assms(3,2)] True by blast
    with False True assms(1,4) show ?thesis by (simp add: table_map_def table_ok_def get_block_no_less)
  qed (use assms(1,4) in \<open>simp add: table_map_def table_ok_def get_block_no_less\<close>)
next
  case False
  then have "k \<noteq> a" by auto
  with False assms(1) show ?thesis by (simp add: table_map_def table_ok_def)
qed

section \<open>The table provides the interface\<close>

interpretation hash_table: index_map "table_ok nb :: 'h::len word GeneralTable \<Rightarrow> bool"
  "legal_id nb LENGTH('h) :: 'a::len word \<Rightarrow> bool" table_map table_add table_lookup lookup_and_remove
  "\<lambda>t ident. list_all used (b_table (blocks t ! get_block_no (nbits t) ident))"
  for nb :: nat
proof unfold_locales
  fix t :: "'h word GeneralTable" and k :: "'a word" and i :: int
  assume ok: "table_ok nb t" and k: "legal_id nb LENGTH('h) k"
  let ?no = "get_block_no nb k" and ?h = "get_hash_id nb k :: 'h word" and ?gs = "get_start (block_size t) :: 'h word \<Rightarrow> nat"
  have t: "built t" "nbits t = nb" using ok by (simp_all add: table_ok_def)
  have b: "block_ok ?gs (blocks t ! ?no)" using table_block [OF ok, of k] t by simp
  have same: "block_map (blocks t ! ?no) ?h = table_map t k" "answer (block_map (blocks t ! ?no)) ?h = answer (table_map t) k"
    by (simp_all add: table_map_def answer_def t)
  show "table_lookup t k = Some (answer (table_map t) k)"
    using hash_block.lookup_answers [OF b TrueI, of ?h] same by (simp add: table_lookup_def t)
  obtain b' where b': "block_remove ?gs (blocks t ! ?no) ?h = Some (answer (table_map t) k, b')" "block_ok ?gs b'"
    "block_map b' = (block_map (blocks t ! ?no))(?h := None)"
    using hash_block.remove_removes [OF b TrueI, of ?h] same by (auto simp: fun_eq_iff)
  then show "\<exists>t'. lookup_and_remove t k = Some (answer (table_map t) k, t') \<and> table_ok nb t'
      \<and> (\<forall>k'::'a word. legal_id nb LENGTH('h) k' \<longrightarrow> table_map t' k' = ((table_map t)(k := None)) k')"
    using table_set_block [OF ok b'(2), of ?no] table_map_update [OF ok k _ b'(3)] by (simp add: lookup_and_remove_def t Let_def)
  assume a: "table_map t k = None" "i \<noteq> INVALID_INDEX"
  obtain r c where c: "block_add ?gs (blocks t ! ?no) ?h i = (r, c)" by (cases "block_add ?gs (blocks t ! ?no) ?h i")
  have ac: "table_add t k i = (r, t \<lparr> blocks := (blocks t)[?no := c] \<rparr>)" by (simp add: table_add_def t c)
  show "table_ok nb (snd (table_add t k i)) \<and> (\<forall>k'::'a word. legal_id nb LENGTH('h) k' \<longrightarrow>
      table_map (snd (table_add t k i)) k' = ((table_map t)(k \<mapsto> i)) k')" if "fst (table_add t k i)"
  proof -
    have "block_ok ?gs c" "block_map c = (block_map (blocks t ! ?no))(?h \<mapsto> i)"
      using hash_block.add_adds [OF b TrueI, of ?h i] same a that c ac by (auto simp: fun_eq_iff)
    with table_set_block [OF ok, of c ?no] table_map_update [OF ok k, of _ c "Some i"] show ?thesis by (simp add: ac)
  qed
  show "snd (table_add t k i) = t \<and> list_all used (b_table (blocks t ! get_block_no (nbits t) k))" if "\<not> fst (table_add t k i)"
    using hash_block.add_refuses [OF b TrueI, of ?h i] same a that c ac t by auto
qed

lemma general_table_ok:
  assumes "0 < bs"
  shows "table_ok nb (general_table nb bs raw :: 'h::len word GeneralTable)"
    "\<And>k :: 'a::len word. table_map (general_table nb bs raw :: 'h word GeneralTable) k = None"
proof -
  have g: "\<And>k :: 'h word. get_start bs k < bs" using assms by (simp add: get_start_def)
  show "table_ok nb (general_table nb bs raw :: 'h word GeneralTable)"
    using block_new_ok [of "get_start bs :: 'h word \<Rightarrow> nat", OF g] by (auto simp: table_ok_def general_table_def)
  show "table_map (general_table nb bs raw :: 'h word GeneralTable) k = None" for k :: "'a word"
    using block_new_ok [of "get_start bs :: 'h word \<Rightarrow> nat", OF g]
    by (simp add: table_map_def general_table_def get_block_no_less)
qed

lemma table_check_passes:
  assumes "table_ok nb t"
  shows "table_check t = Some True"
proof -
  have "block_check (get_start (block_size t)) (blocks t ! i) = Some True" if "i < 2 ^ nbits t" for i
    using assms that by (intro valid_block_checks) (auto simp: table_ok_def)
  then have "foldl (\<lambda>ok i. Option.bind ok (\<lambda>ok. map_option (\<lambda>c. c \<and> ok) (block_check (get_start (block_size t)) (blocks t ! i))))
      (Some True) is = Some True" if "set is \<subseteq> {..<2 ^ nbits t}" for "is"
    using that by (induction "is") auto
  moreover have "set [0..<2 ^ nbits t] \<subseteq> {..<2 ^ nbits t}" by auto
  ultimately show ?thesis unfolding table_check_def by blast
qed



end
