(* ===== verification/Calendar.thy ===== *)
theory Calendar
  imports OT_Prelude "HOL-Library.Word" Complex_Main
begin

text \<open>
  Split times and time stamps of libs/time (ot-time.h, stamp.cc, split.cc, date-interval.cc): a stamp is
  a 64-bit number of seconds since 1900 with 20 bits of fraction. Seconds within a minute, a \<^verbatim>\<open>double\<close>,
  are the rational it holds: the operations on it are exact for multiples of a stamp's resolution.
\<close>

unbundle bit_operations_syntax

section \<open>Split times and stamps\<close>

record Split =
  sp_year :: int
  sp_month :: int
  sp_day :: int
  sp_hour :: int
  sp_min :: int
  sp_sec :: rat

definition split_default :: Split where
  "split_default = \<lparr> sp_year = 1900, sp_month = 1, sp_day = 1, sp_hour = 0, sp_min = 0, sp_sec = 0 \<rparr>"

abbreviation DAY :: u64 where "DAY \<equiv> 86400"

text \<open>A product with one of the unit constants is unsigned, of 32 bits, before it is widened.\<close>

definition unit_seconds :: "int \<Rightarrow> u32 \<Rightarrow> u64" where
  "unit_seconds n unit = ucast ((word_of_int n :: u32) * unit)"

definition monthdays :: "int list" where
  "monthdays = [0, 31, 59, 90, 120, 151, 181, 212, 243, 273, 304, 334]"

text \<open>Division of the language rounds towards zero.\<close>

definition c_div :: "int \<Rightarrow> int \<Rightarrow> int" where
  "c_div a b = (if a < 0 then - (- a div b) else a div b)"

definition combine :: "Split \<Rightarrow> u64" where
  "combine sp =
     (let ldyear = (if sp_month sp < 3 then sp_year sp - 1 else sp_year sp);
          leapdays = c_div ldyear 4 - c_div ldyear 100 + c_div ldyear 400 - 460;
          seconds = word_of_int ((sp_year sp - 1900) * 365 + leapdays) * DAY
      in if sp_month sp < 1 \<or> sp_month sp > 12 then 0
         else let seconds = seconds + unit_seconds (monthdays ! nat (sp_month sp - 1)) 86400;
                  seconds = seconds + unit_seconds (sp_day sp - 1) 86400;
                  seconds = seconds + unit_seconds (sp_hour sp) 3600;
                  seconds = seconds + unit_seconds (sp_min sp) 60
              in push_bit 20 seconds + word_of_int \<lfloor>sp_sec sp * 2 ^ 20\<rfloor>)"

text \<open>
  The estimate of the year is computed in floating point. The operands, up to 2 to the 44, and the
  constants 20736 and 31556736 are represented exactly, and the rounded quotient cannot reach the next
  integer, from which the exact one is further away than the rounding error.
\<close>

definition year_estimate :: "u64 \<Rightarrow> u64" where
  "year_estimate seconds = of_nat ((unat seconds - 20736) div 31556736)"

definition month_of :: "int \<Rightarrow> int" where
  "month_of yday = 1 + int (length (takeWhile (\<lambda>m. m \<le> yday) (tl monthdays)))"

text \<open>Whether the date is early in a leap year, and the seconds without the leap days before it.\<close>

definition remove_leapdays :: "u64 \<Rightarrow> bool \<times> u64" where
  "remove_leapdays seconds =
     (let years = year_estimate seconds;
          leapdays = years div 4 - years div 100 + (years + 300) div 400;
          early = (years mod 4 = 0 \<and> (years mod 100 \<noteq> 0 \<or> (years + 300) mod 400 = 0)
                   \<and> seconds - (years * 365 + leapdays - 1) * DAY < DAY * 59);
          leapdays = (if early then leapdays - 1 else leapdays)
      in (early, seconds - leapdays * DAY))"

definition split_time :: "u64 \<Rightarrow> Split \<Rightarrow> Split" where
  "split_time seconds sp =
     (let hour = uint (seconds div 3600);
          seconds = seconds - unit_seconds hour 3600;
          min = uint (seconds div 60);
          seconds = seconds - unit_seconds min 60
      in sp \<lparr> sp_hour := hour, sp_min := min, sp_sec := of_int (uint seconds) \<rparr>)"

definition split_yearday :: "bool \<Rightarrow> int \<Rightarrow> u64 \<Rightarrow> Split" where
  "split_yearday early year seconds =
     (let yday = uint (seconds div DAY);
          isleapyear = (year mod 4 = 0 \<and> (year mod 100 \<noteq> 0 \<or> year mod 400 = 0));
          month = month_of yday;
          seconds = seconds - unit_seconds (monthdays ! nat (month - 1)) 86400;
          day = uint (seconds div DAY);
          seconds = seconds - unit_seconds day 86400;
          day = day + 1;
          (month, day) = (if isleapyear \<and> \<not> early \<and> yday = 58 then (2, 29) else (month, day))
      in split_time seconds (split_default \<lparr> sp_year := year, sp_month := month, sp_day := day \<rparr>))"

definition split_seconds :: "u64 \<Rightarrow> Split" where
  "split_seconds seconds =
     (let (early, seconds) = remove_leapdays seconds;
          year = uint (seconds div (365 * DAY));
          seconds = seconds - word_of_int year * (365 * DAY)
      in split_yearday early (year + 1900) seconds)"

definition stamp_split :: "u64 \<Rightarrow> Split" where
  "stamp_split ts =
     (let sp = split_seconds (drop_bit 20 ts)
      in sp \<lparr> sp_sec := sp_sec sp + of_int (uint (ts AND (0x100000 - 1))) / 2 ^ 20 \<rparr>)"

definition stamp_date :: "u64 \<Rightarrow> u64" where
  "stamp_date t = combine ((stamp_split t) \<lparr> sp_hour := 0, sp_min := 0, sp_sec := 0 \<rparr>)"

definition weekday :: "u64 \<Rightarrow> int" where
  "weekday t = uint (1 + drop_bit 20 t div 3600 div 24 mod 7)"

definition EPOCH_1970 :: u64 where
  "EPOCH_1970 = 2208988800"

definition stamp_of_time :: "u64 \<Rightarrow> u64" where
  "stamp_of_time time = push_bit 20 (time + EPOCH_1970)"

definition time_of_stamp :: "u64 \<Rightarrow> u64" where
  "time_of_stamp t = drop_bit 20 t - EPOCH_1970"

definition ntp_of_stamp :: "u64 \<Rightarrow> u64" where
  "ntp_of_stamp t = push_bit (32 - 20) t"

definition stamp_of_ntp :: "u64 \<Rightarrow> u64" where
  "stamp_of_ntp n = drop_bit (32 - 20) n"

definition seconds_to_internal :: "int \<Rightarrow> u64" where
  "seconds_to_internal s = word_of_int (s * 2 ^ 20)"

definition stamp_add :: "u64 \<Rightarrow> int \<Rightarrow> u64" where
  "stamp_add t d = t + seconds_to_internal d"

definition stamp_sub :: "u64 \<Rightarrow> int \<Rightarrow> u64" where
  "stamp_sub t d = t - seconds_to_internal d"

section \<open>The calendar\<close>

text \<open>The Gregorian calendar as it is usually defined, counting days from 1 January 1900.\<close>

definition leap_year :: "int \<Rightarrow> bool" where
  "leap_year y \<longleftrightarrow> y mod 4 = 0 \<and> (y mod 100 \<noteq> 0 \<or> y mod 400 = 0)"

definition month_length :: "int \<Rightarrow> int \<Rightarrow> int" where
  "month_length y m = (if m \<in> {4, 6, 9, 11} then 30 else if m = 2 then (if leap_year y then 29 else 28) else 31)"

definition year_length :: "int \<Rightarrow> int" where
  "year_length y = (if leap_year y then 366 else 365)"

definition day_number :: "int \<Rightarrow> int \<Rightarrow> int \<Rightarrow> int" where
  "day_number y m d = sum_list (map year_length [1900..y - 1]) + sum_list (map (month_length y) [1..m - 1]) + d - 1"

definition valid_date :: "int \<Rightarrow> int \<Rightarrow> int \<Rightarrow> bool" where
  "valid_date y m d \<longleftrightarrow> 1900 \<le> y \<and> 1 \<le> m \<and> m \<le> 12 \<and> 1 \<le> d \<and> d \<le> month_length y m"

definition valid_split :: "Split \<Rightarrow> bool" where
  "valid_split sp \<longleftrightarrow> valid_date (sp_year sp) (sp_month sp) (sp_day sp)
     \<and> 0 \<le> sp_hour sp \<and> sp_hour sp < 24 \<and> 0 \<le> sp_min sp \<and> sp_min sp < 60 \<and> 0 \<le> sp_sec sp \<and> sp_sec sp < 60"

definition leaps_to :: "int \<Rightarrow> int" where
  "leaps_to y = y div 4 - y div 100 + y div 400"

lemma div_step: "(k::int) > 0 \<Longrightarrow> n div k = (n - 1) div k + (if n mod k = 0 then 1 else 0)"
proof -
  assume k: "k > 0"
  show ?thesis
  proof (cases "n mod k = 0")
    case True
    then obtain q where q: "n = k * q" by (auto elim: dvdE simp: mod_eq_0_iff_dvd)
    have "(k * q - 1) div k = q - 1" using k by (intro int_div_pos_eq [of _ _ _ "k - 1"]) (auto simp: algebra_simps)
    with q k show ?thesis by simp
  next
    case False
    have "0 \<le> n mod k" "n mod k < k" using k by simp_all
    moreover have "n = k * (n div k) + n mod k" by simp
    ultimately have "(n - 1) div k = n div k" using False by (intro int_div_pos_eq [of _ _ _ "n mod k - 1"]) linarith+
    with False show ?thesis by simp
  qed
qed

lemma leap_count_step:
  fixes a b c :: int
  assumes "a = a' + (if p then 1 else 0)" "b = b' + (if q then 1 else 0)" "c = c' + (if r then 1 else 0)" "r \<Longrightarrow> q" "q \<Longrightarrow> p"
  shows "a - b + c = a' - b' + c' + (if p \<and> (\<not> q \<or> r) then 1 else 0)"
  using assms by auto

lemma mod_factor: "(y :: int) mod (k * c) = 0 \<Longrightarrow> y mod k = 0"
  unfolding mod_eq_0_iff_dvd by (rule dvd_mult_left)

lemma leap_year_mod_4: "leap_year y \<Longrightarrow> y mod 4 = 0"
  by (simp add: leap_year_def)

lemma not_leap_before_leap: "leap_year (y + 1) \<Longrightarrow> \<not> leap_year y"
proof
  assume "leap_year (y + 1)" "leap_year y"
  then have "(y + 1) mod 4 = 0" "y mod 4 = 0" by (auto dest: leap_year_mod_4)
  then show False by presburger
qed

lemma leaps_to_step: "leaps_to y = leaps_to (y - 1) + (if leap_year y then 1 else 0)"
  unfolding leaps_to_def leap_year_def
proof (rule leap_count_step)
  show "y mod 400 = 0 \<Longrightarrow> y mod 100 = 0" "y mod 100 = 0 \<Longrightarrow> y mod 4 = 0"
    using mod_factor [of y 100 4] mod_factor [of y 4 25] by simp_all
qed (rule div_step, simp)+

lemma years_days: "1900 \<le> y \<Longrightarrow> sum_list (map year_length [1900..y - 1]) = 365 * (y - 1900) + leaps_to (y - 1) - 460"
proof (induction y rule: int_ge_induct)
  case base
  then show ?case by (simp add: leaps_to_def)
next
  case (step y)
  have "[1900..y + 1 - 1] = [1900..y - 1] @ [y]" using step.hyps by (simp add: upto_rec2)
  then have "sum_list (map year_length [1900..y + 1 - 1]) = sum_list (map year_length [1900..y - 1]) + year_length y" by simp
  moreover have "year_length y = 365 + (if leap_year y then 1 else 0)" by (simp add: year_length_def)
  ultimately show ?case using step.IH leaps_to_step [of y] by (simp add: algebra_simps)
qed

lemma month_range:
  assumes "1 \<le> m" "m \<le> (12 :: int)"
  shows "m \<in> {1, 2, 3, 4, 5, 6, 7, 8, 9, 10, 11, 12}"
proof -
  have "m \<in> set [1..12]" using assms by simp
  then show ?thesis by (simp add: upto.simps)
qed

lemma month_days_before:
  assumes "1 \<le> m" "m \<le> 12"
  shows "sum_list (map (month_length y) [1..m - 1]) = monthdays ! nat (m - 1) + (if leap_year y \<and> 3 \<le> m then 1 else 0)"
proof -
  have "m \<in> {1, 2, 3, 4, 5, 6, 7, 8, 9, 10, 11, 12}" using assms by (rule month_range)
  then show ?thesis by (elim insertE emptyE) (simp_all add: upto.simps month_length_def monthdays_def)
qed

lemma day_number_eq:
  assumes "valid_date y m d"
  shows "day_number y m d = 365 * (y - 1900) + leaps_to (y - 1) - 460 + monthdays ! nat (m - 1)
    + (if leap_year y \<and> 3 \<le> m then 1 else 0) + d - 1"
  using assms years_days [of y] month_days_before [of m y] by (simp add: day_number_def valid_date_def)

section \<open>Combining counts the days\<close>

text \<open>The moment a split time denotes, in units of the stamp's resolution.\<close>

definition moment :: "Split \<Rightarrow> int" where
  "moment sp = (day_number (sp_year sp) (sp_month sp) (sp_day sp) * 86400 + sp_hour sp * 3600 + sp_min sp * 60) * 2 ^ 20
     + \<lfloor>sp_sec sp * 2 ^ 20\<rfloor>"

lemma unit_seconds_int:
  assumes "0 \<le> n * uint u" "n * uint u < 2 ^ 32"
  shows "unit_seconds n u = word_of_int (n * uint u)"
proof -
  have "uint ((word_of_int n :: u32) * u) = take_bit 32 (n * uint u)"
    by (simp add: uint_word_arith_bintrs(3) uint_word_of_int_eq take_bit_eq_mod mod_mult_left_eq)
  also have "\<dots> = n * uint u" using assms by (simp add: take_bit_int_eq_self)
  finally show ?thesis unfolding unit_seconds_def ucast_eq by (simp only:)
qed

lemma month_length_bounds: "28 \<le> month_length y m" "month_length y m \<le> 31"
  by (auto simp: month_length_def)

lemma monthdays_bounds:
  assumes "1 \<le> m" "m \<le> 12"
  shows "0 \<le> monthdays ! nat (m - 1)" "monthdays ! nat (m - 1) \<le> 334"
proof -
  have "m \<in> {1, 2, 3, 4, 5, 6, 7, 8, 9, 10, 11, 12}" using assms by (rule month_range)
  then show "0 \<le> monthdays ! nat (m - 1)" "monthdays ! nat (m - 1) \<le> 334" by (auto simp: monthdays_def)
qed

lemma combine_moment:
  assumes "valid_split sp"
  shows "combine sp = word_of_int (moment sp)"
proof -
  let ?y = "sp_year sp" and ?m = "sp_month sp" and ?d = "sp_day sp"
  have v: "valid_date ?y ?m ?d" "1 \<le> ?m" "?m \<le> 12" "1 \<le> ?d" "?d \<le> 31" "1900 \<le> ?y"
    "0 \<le> sp_hour sp" "sp_hour sp < 24" "0 \<le> sp_min sp" "sp_min sp < 60"
    using assms month_length_bounds(2) [of ?y ?m] by (auto simp: valid_split_def valid_date_def)
  define ly where "ly = (if ?m < 3 then ?y - 1 else ?y)"
  have ly: "c_div ly 4 - c_div ly 100 + c_div ly 400 = leaps_to ly" using v(6) by (simp add: c_div_def leaps_to_def ly_def)
  have leaps: "leaps_to ly = leaps_to (?y - 1) + (if leap_year ?y \<and> 3 \<le> ?m then 1 else 0)"
    using leaps_to_step [of ?y] by (auto simp: ly_def)
  have units: "unit_seconds (monthdays ! nat (?m - 1)) 86400 = word_of_int (monthdays ! nat (?m - 1) * 86400)"
    "unit_seconds (?d - 1) 86400 = word_of_int ((?d - 1) * 86400)"
    "unit_seconds (sp_hour sp) 3600 = word_of_int (sp_hour sp * 3600)" "unit_seconds (sp_min sp) 60 = word_of_int (sp_min sp * 60)"
    using v monthdays_bounds [OF v(2,3)] by (simp_all add: unit_seconds_int)
  have "((?y - 1900) * 365 + (leaps_to ly - 460)) * 86400 + monthdays ! nat (?m - 1) * 86400 + (?d - 1) * 86400
      = day_number ?y ?m ?d * 86400"
    unfolding day_number_eq [OF v(1)] leaps by (simp add: algebra_simps)
  note days = this
  have sum: "word_of_int ((?y - 1900) * 365 + (leaps_to ly - 460)) * DAY + word_of_int (monthdays ! nat (?m - 1) * 86400)
      + word_of_int ((?d - 1) * 86400) + word_of_int (sp_hour sp * 3600) + word_of_int (sp_min sp * 60)
      = word_of_int (day_number ?y ?m ?d * 86400 + sp_hour sp * 3600 + sp_min sp * 60)"
    unfolding days [symmetric] by (simp add: algebra_simps)
  have "combine sp = push_bit 20 (word_of_int (day_number ?y ?m ?d * 86400 + sp_hour sp * 3600 + sp_min sp * 60))
      + word_of_int \<lfloor>sp_sec sp * 2 ^ 20\<rfloor>"
    using v(2,3) unfolding combine_def Let_def ly_def [symmetric] ly units
    by (simp only: sum [symmetric] ) simp
  then show ?thesis by (simp add: moment_def push_bit_eq_mult)
qed

section \<open>Splitting in integers\<close>

lemma uint_int: "0 \<le> x \<Longrightarrow> x < 2 ^ 64 \<Longrightarrow> uint (word_of_int x :: u64) = x"
  by (simp add: uint_word_of_int_eq take_bit_int_eq_self)

lemma word_div_int:
  assumes "0 \<le> a" "a < 2 ^ 64" "numeral b < (2 ^ 64 :: int)"
  shows "(word_of_int a :: u64) div numeral b = word_of_int (a div numeral b)" "(word_of_int a :: u64) mod numeral b = word_of_int (a mod numeral b)"
proof -
  have "uint (numeral b :: u64) = numeral b" using uint_int [of "numeral b"] assms(3) by simp
  then show "(word_of_int a :: u64) div numeral b = word_of_int (a div numeral b)" "(word_of_int a :: u64) mod numeral b = word_of_int (a mod numeral b)"
    using assms by (simp_all add: word_div_def word_mod_def uint_int)
qed

lemma word_less_int:
  assumes "0 \<le> b" "b < 2 ^ 63" "- (2 ^ 63) \<le> a" "a < 2 ^ 63"
  shows "(word_of_int a :: u64) < word_of_int b \<longleftrightarrow> 0 \<le> a \<and> a < b"
proof (cases "0 \<le> a")
  case True
  with assms show ?thesis by (simp add: word_less_def uint_int)
next
  case False
  have "uint (word_of_int a :: u64) = uint (word_of_int (a + 2 ^ 64) :: u64)" unfolding uint_word_of_int_eq take_bit_eq_mod by simp
  also have "\<dots> = a + 2 ^ 64" using False assms by (intro uint_int) auto
  finally show ?thesis using False assms by (simp add: word_less_def uint_int)
qed

lemma word_eq_0_int: "0 \<le> a \<Longrightarrow> a < 2 ^ 64 \<Longrightarrow> (word_of_int a :: u64) = 0 \<longleftrightarrow> a = 0"
  using uint_int [of a] by (auto simp: word_uint_eq_iff)

lemma month_of_range: "1 \<le> month_of yday \<and> month_of yday \<le> 12"
proof -
  have "length (takeWhile (\<lambda>m. m \<le> yday) (tl monthdays)) \<le> length (tl monthdays)" by (rule length_takeWhile_le)
  then show ?thesis by (simp add: month_of_def monthdays_def)
qed

lemma month_of_start:
  assumes "0 \<le> yday"
  shows "monthdays ! nat (month_of yday - 1) \<le> yday"
  using assms by (simp add: month_of_def monthdays_def)

lemma split_time_int:
  assumes "0 \<le> s" "s < 86400"
  shows "split_time (word_of_int s) sp = sp \<lparr> sp_hour := s div 3600, sp_min := s mod 3600 div 60, sp_sec := of_int (s mod 60) \<rparr>"
proof -
  have h: "uint ((word_of_int s :: u64) div 3600) = s div 3600" "unit_seconds (s div 3600) 3600 = word_of_int (s div 3600 * 3600)"
    using assms by (simp_all add: word_div_int uint_int unit_seconds_int)
  have 1: "(word_of_int s :: u64) - word_of_int (s div 3600 * 3600) = word_of_int (s mod 3600)"
    by (simp only: of_int_diff [symmetric] minus_div_mult_eq_mod)
  have m: "uint ((word_of_int (s mod 3600) :: u64) div 60) = s mod 3600 div 60" "unit_seconds (s mod 3600 div 60) 60 = word_of_int (s mod 3600 div 60 * 60)"
    using assms by (simp_all add: word_div_int uint_int unit_seconds_int)
  have 2: "(word_of_int (s mod 3600) :: u64) - word_of_int (s mod 3600 div 60 * 60) = word_of_int (s mod 60)"
    by (simp only: of_int_diff [symmetric] minus_div_mult_eq_mod) (simp add: mod_mod_cancel)
  show ?thesis unfolding split_time_def Let_def h 1 m 2 by (simp add: uint_int)
qed

lemma split_yearday_int:
  assumes "0 \<le> s" "s < 31536000"
  shows "split_yearday early year (word_of_int s) =
    (let yday = s div 86400; t = s mod 86400
     in \<lparr> sp_year = year,
          sp_month = (if leap_year year \<and> \<not> early \<and> yday = 58 then 2 else month_of yday),
          sp_day = (if leap_year year \<and> \<not> early \<and> yday = 58 then 29 else yday - monthdays ! nat (month_of yday - 1) + 1),
          sp_hour = t div 3600, sp_min = t mod 3600 div 60, sp_sec = of_int (t mod 60) \<rparr>)"
proof -
  define yday where "yday = s div 86400"
  define md where "md = monthdays ! nat (month_of yday - 1)"
  have y: "0 \<le> yday" "yday < 365" using assms by (auto simp: yday_def)
  have md: "0 \<le> md" "md \<le> yday" "md \<le> 334"
    using month_of_start [OF y(1)] monthdays_bounds [of "month_of yday"] month_of_range by (auto simp: md_def)
  have 1: "uint ((word_of_int s :: u64) div 86400) = yday" using assms by (simp add: word_div_int uint_int yday_def)
  have 2: "unit_seconds md 86400 = word_of_int (md * 86400)" using md by (simp add: unit_seconds_int)
  have r: "md * 86400 \<le> s" using md(2) unfolding yday_def by linarith
  have 3: "uint (((word_of_int s :: u64) - word_of_int (md * 86400)) div 86400) = yday - md"
  proof -
    have "(word_of_int s :: u64) - word_of_int (md * 86400) = word_of_int (s - md * 86400)" by simp
    moreover have "(s - md * 86400) div 86400 = yday - md" by (simp add: yday_def)
    ultimately show ?thesis using assms r md by (simp add: word_div_int uint_int del: of_int_diff)
  qed
  have 4: "unit_seconds (yday - md) 86400 = word_of_int ((yday - md) * 86400)" using md y by (simp add: unit_seconds_int)
  have 5: "(word_of_int s :: u64) - word_of_int (md * 86400) - word_of_int ((yday - md) * 86400) = word_of_int (s mod 86400)"
  proof -
    have "s - md * 86400 - (yday - md) * 86400 = s mod 86400" unfolding yday_def by (simp add: algebra_simps minus_div_mult_eq_mod)
    then show ?thesis by (metis of_int_diff)
  qed
  have "0 \<le> s mod 86400" "s mod 86400 < 86400" by simp_all
  note t = split_time_int [OF this]
  show ?thesis
    unfolding split_yearday_def Let_def 1 md_def [symmetric] 2 3 4 5 yday_def [symmetric] leap_year_def [symmetric] prod.case_distrib
    by (cases "leap_year year \<and> \<not> early \<and> yday = 58") (auto simp: t split_default_def)
qed

text \<open>Without wrap-around, only the test for an early date could go below zero.\<close>

definition estimate :: "int \<Rightarrow> int" where
  "estimate s = (if s < 20736 then 0 else (s - 20736) div 31556736)"

definition early_in :: "int \<Rightarrow> int \<Rightarrow> bool" where
  "early_in s years \<longleftrightarrow> leap_year (1900 + years)
     \<and> (years * 365 + leaps_to (1900 + years) - 461) * 86400 \<le> s
     \<and> s < (years * 365 + leaps_to (1900 + years) - 461 + 59) * 86400"

lemma estimate_int:
  assumes "0 \<le> s" "s < 2 ^ 44"
  shows "year_estimate (word_of_int s) = word_of_int (estimate s)" "0 \<le> estimate s" "estimate s < 2 ^ 20" "estimate s * 86400 \<le> s"
proof -
  have "unat (word_of_int s :: u64) = nat s" using uint_int [of s] assms by (simp add: unat_eq_nat_uint)
  moreover have "int ((nat s - 20736) div 31556736) = estimate s"
    using assms by (simp add: estimate_def zdiv_int nat_diff_distrib' of_nat_diff)
  ultimately show "year_estimate (word_of_int s) = word_of_int (estimate s)" unfolding year_estimate_def by (metis of_int_of_nat_eq)
  show "0 \<le> estimate s" "estimate s < 2 ^ 20" "estimate s * 86400 \<le> s"
    using assms unfolding estimate_def by auto
qed

lemma leapdays_from_1900: "y div 4 - y div 100 + (y + 300) div 400 = leaps_to (1900 + y) - 460"
proof -
  have "(y + 475 * 4) div 4 = 475 + y div 4" "(y + 19 * 100) div 100 = 19 + y div 100" "(y + 300 + 4 * 400) div 400 = 4 + (y + 300) div 400"
    by (rule div_mult_self1, simp)+
  then show ?thesis unfolding leaps_to_def by (simp add: add.commute)
qed

lemma leap_from_1900: "(y mod 4 = 0 \<and> (y mod 100 \<noteq> 0 \<or> (y + 300) mod 400 = 0)) \<longleftrightarrow> leap_year (1900 + y)"
proof -
  have "(y + 475 * 4) mod 4 = y mod 4" "(y + 19 * 100) mod 100 = y mod 100" "(y + 300 + 4 * 400) mod 400 = (y + 300) mod 400"
    by (rule mod_mult_self1)+
  then show ?thesis unfolding leap_year_def by (simp add: add.commute)
qed

lemma leaps_to_bounds: "0 \<le> y \<Longrightarrow> 0 \<le> leaps_to (1900 + y) - 460 \<and> leaps_to (1900 + y) - 460 \<le> y"
proof
  assume "0 \<le> y"
  then have "y div 100 \<le> y div 4" by (intro zdiv_mono2) auto
  then show "0 \<le> leaps_to (1900 + y) - 460" unfolding leapdays_from_1900 [symmetric] using \<open>0 \<le> y\<close> by simp
  have "y div 4 - y div 100 + (y + 300) div 400 \<le> y"
  proof (cases "y = 0")
    case False
    with \<open>0 \<le> y\<close> have "1 \<le> y" "0 \<le> y div 100" by simp_all
    then show ?thesis by linarith
  qed simp
  then show "leaps_to (1900 + y) - 460 \<le> y" by (simp only: leapdays_from_1900)
qed

lemma remove_leapdays_int:
  assumes "0 \<le> s" "s < 2 ^ 44"
  shows "remove_leapdays (word_of_int s) = (early_in s (estimate s),
    word_of_int (s - (leaps_to (1900 + estimate s) - 460 - (if early_in s (estimate s) then 1 else 0)) * 86400))"
proof -
  define Y L where "Y = estimate s" and "L = leaps_to (1900 + Y) - 460"
  note e = estimate_int [OF assms, folded Y_def]
  have L: "0 \<le> L" "L \<le> Y" using leaps_to_bounds [OF e(2)] by (auto simp: L_def)
  have Y: "0 \<le> Y" "Y < 2 ^ 64" "Y + 300 < 2 ^ 64" using e by auto
  let ?w = "word_of_int :: int \<Rightarrow> u64"
  have w300: "?w Y + 300 = ?w (Y + 300)" by simp
  have lp: "?w Y div 4 - ?w Y div 100 + (?w Y + 300) div 400 = ?w L"
    unfolding w300 using Y by (simp add: word_div_int L_def leapdays_from_1900 [symmetric] del: of_int_add [where z = 300] of_int_add) simp
  have leap: "(?w Y mod 4 = 0 \<and> (?w Y mod 100 \<noteq> 0 \<or> (?w Y + 300) mod 400 = 0)) \<longleftrightarrow> leap_year (1900 + Y)"
    unfolding w300 leap_from_1900 [symmetric] using Y by (simp add: word_div_int word_eq_0_int del: of_int_add)
  have test: "?w s - (?w Y * 365 + ?w L - 1) * DAY < DAY * 59 \<longleftrightarrow> 0 \<le> s - (Y * 365 + L - 1) * 86400 \<and> s - (Y * 365 + L - 1) * 86400 < 5097600"
  proof -
    have ws: "?w s - (?w Y * 365 + ?w L - 1) * DAY = ?w (s - (Y * 365 + L - 1) * 86400)" "DAY * 59 = ?w 5097600" by simp_all
    have b: "- (2 ^ 63) \<le> s - (Y * 365 + L - 1) * 86400" "s - (Y * 365 + L - 1) * 86400 < 2 ^ 63"
      using assms e(2,3) L by auto
    show ?thesis unfolding ws using b by (intro word_less_int) simp_all
  qed
  have early: "(?w Y mod 4 = 0 \<and> (?w Y mod 100 \<noteq> 0 \<or> (?w Y + 300) mod 400 = 0) \<and> ?w s - (?w Y * 365 + ?w L - 1) * DAY < DAY * 59)
      \<longleftrightarrow> early_in s Y"
  proof -
    have "0 \<le> s - (Y * 365 + L - 1) * 86400 \<longleftrightarrow> (Y * 365 + leaps_to (1900 + Y) - 461) * 86400 \<le> s"
      "s - (Y * 365 + L - 1) * 86400 < 5097600 \<longleftrightarrow> s < (Y * 365 + leaps_to (1900 + Y) - 461 + 59) * 86400"
      by (auto simp: L_def algebra_simps)
    with leap test show ?thesis unfolding early_in_def by (simp only: conj_assoc [symmetric])
  qed
  show ?thesis unfolding remove_leapdays_def Let_def e(1) lp early Y_def [symmetric] L_def [symmetric] by simp
qed

lemma split_seconds_int:
  assumes "0 \<le> s" "s < 2 ^ 44"
    and "t = s - (leaps_to (1900 + estimate s) - 460 - (if early_in s (estimate s) then 1 else 0)) * 86400"
  shows "split_seconds (word_of_int s) = split_yearday (early_in s (estimate s)) (t div 31536000 + 1900) (word_of_int (t mod 31536000))"
proof -
  have "(leaps_to (1900 + estimate s) - 460) * 86400 \<le> s"
    using conjunct2 [OF leaps_to_bounds [OF estimate_int(2) [OF assms(1,2)]]]
    by (intro order_trans [OF mult_right_mono estimate_int(4) [OF assms(1,2)]]) simp_all
  then have t: "0 \<le> t" "t < 2 ^ 64"
    using assms leaps_to_bounds [OF estimate_int(2) [OF assms(1,2)]] by (auto simp: algebra_simps split: if_splits)
  have y: "uint ((word_of_int t :: u64) div (365 * DAY)) = t div 31536000"
    using t by (simp add: word_div_int uint_int)
  have z: "(word_of_int t :: u64) - word_of_int (t div 31536000) * (365 * DAY) = word_of_int (t mod 31536000)"
  proof -
    have "t mod 31536000 = t - t div 31536000 * 31536000" by (simp add: minus_div_mult_eq_mod)
    then show ?thesis by simp
  qed
  show ?thesis
    unfolding split_seconds_def remove_leapdays_int [OF assms(1,2)] assms(3) [symmetric] Let_def prod.case y z ..
qed

section \<open>Splitting finds the date\<close>

text \<open>Between 1900 and 2099 every fourth year but the first is a leap year.\<close>

lemma leap_year_20th: "1900 \<le> y \<Longrightarrow> y < 2100 \<Longrightarrow> leap_year y \<longleftrightarrow> (y - 1900) mod 4 = 0 \<and> y \<noteq> 1900"
proof -
  assume y: "1900 \<le> y" "y < 2100"
  have "(y - 1900 + 475 * 4) mod 4 = (y - 1900) mod 4" by (rule mod_mult_self1)
  then have m4: "y mod 4 = (y - 1900) mod 4" by simp
  have "y = 1900 \<or> y = 2000" if "y mod 100 = 0"
  proof -
    obtain q where "y = 100 * q" using \<open>y mod 100 = 0\<close> by (auto simp: mod_eq_0_iff_dvd)
    then show ?thesis using y by auto
  qed
  then show ?thesis unfolding leap_year_def m4 by auto
qed

lemma leaps_to_20th:
  assumes "1900 \<le> y" "y < 2100"
  shows "leaps_to y - 460 = (y - 1900) div 4"
proof -
  have "(y - 1900 + 475 * 4) div 4 = 475 + (y - 1900) div 4" by (rule div_mult_self1) simp
  then have "y div 4 = 475 + (y - 1900) div 4" by simp
  moreover have "y div 100 - y div 400 = 15"
  proof (cases "y < 2000")
    case True
    then have "y div 100 = 19" "y div 400 = 4"
      using assms by (intro int_div_pos_eq [of _ _ _ "y - 1900"] int_div_pos_eq [of _ _ _ "y - 1600"]; simp)+
    then show ?thesis by simp
  next
    case False
    then have "y div 100 = 20" "y div 400 = 5"
      using assms by (intro int_div_pos_eq [of _ _ _ "y - 2000"] int_div_pos_eq [of _ _ _ "y - 2000"]; simp)+
    then show ?thesis by simp
  qed
  ultimately show ?thesis by (simp add: leaps_to_def)
qed

text \<open>
  The estimate of the year \<open>1900 + k\<close>, for the second \<open>s\<close> of day \<open>yday\<close> in it: it may be a year late in January
  and February and a year early in the last hours of December.
\<close>

definition year_start :: "int \<Rightarrow> int" where
  "year_start k = 365 * k + leaps_to (1899 + k) - 460"

lemma year_start_20th: "0 \<le> k \<Longrightarrow> k \<le> 200 \<Longrightarrow> year_start k = 365 * k + (if k = 0 then 0 else (k - 1) div 4)"
proof (cases "k = 0")
  case True
  then show ?thesis by (simp add: year_start_def leaps_to_def)
next
  case False
  moreover assume "0 \<le> k" "k \<le> 200"
  ultimately show ?thesis using leaps_to_20th [of "1899 + k"] by (simp add: year_start_def)
qed

lemma estimate_range:
  assumes "0 \<le> k" "k < 200" "0 \<le> yday" "yday < 366" "year_start k * 86400 + yday * 86400 \<le> s" "s < year_start k * 86400 + (yday + 1) * 86400"
  shows "estimate s \<in> {k - 1, k, k + 1}" "58 \<le> yday \<Longrightarrow> k \<le> estimate s" "yday < 59 \<Longrightarrow> estimate s \<le> k"
proof -
  have "4 * ((k - 1) div 4) \<le> k - 1" "k - 4 \<le> 4 * ((k - 1) div 4)" by presburger+
  with assms year_start_20th [of k] have s: "31557600 * k - 86400 + 86400 * yday \<le> s" "s < 31557600 * k + 86400 * yday + 86400"
    by (auto split: if_splits)
  have "k - 1 \<le> estimate s"
  proof (cases "k = 0")
    case False
    then have "31556736 * k - 31556736 + 20736 \<le> s" using s(1) assms(1,2,3) by linarith
    then show ?thesis using False assms(1) unfolding estimate_def by auto
  next
    case True
    have "0 \<le> estimate s" by (simp add: estimate_def pos_imp_zdiv_nonneg_iff)
    with True show ?thesis by simp
  qed
  moreover have "s < 31556736 * k + 63113472 + 20736" using s(2) assms(1,2,4) by linarith
  then have "estimate s \<le> k + 1" using assms(1) unfolding estimate_def by auto
  ultimately show "estimate s \<in> {k - 1, k, k + 1}" by auto
  show "k \<le> estimate s" if "58 \<le> yday"
  proof -
    have "31556736 * k + 20736 \<le> s" using s(1) assms(1,2) that by linarith
    then show ?thesis using assms(1) unfolding estimate_def by auto
  qed
  show "estimate s \<le> k" if "yday < 59"
  proof -
    have "s < 31556736 * k + 31556736 + 20736" using s(2) assms(1,2) that by linarith
    then show ?thesis using assms(1) unfolding estimate_def by auto
  qed
qed

text \<open>The last day of 2027, 2031 and so on is where the estimate can be a year too high before a leap year.\<close>

definition well_estimated :: "int \<Rightarrow> int \<Rightarrow> int \<Rightarrow> bool" where
  "well_estimated y m d \<longleftrightarrow> y < 2100 \<and> (y < 2027 \<or> \<not> leap_year (y + 1) \<or> \<not> (m = 12 \<and> d = 31))"

lemma estimate_before_leap:
  assumes "0 \<le> k" "k < 200" "(k + 1) mod 4 = 0" "yday < 365" "k < 127 \<or> yday < 364"
    and "s < year_start k * 86400 + (yday + 1) * 86400"
  shows "estimate s \<le> k"
proof -
  obtain j where j: "k + 1 = 4 * j" using assms(3) by (auto simp: mod_eq_0_iff_dvd elim: dvdE)
  then have "k = 4 * j - 1" "1 \<le> j" "j \<le> 50" using assms(1,2) by simp_all
  then have "year_start k = 1461 * j - 366"
    using year_start_20th [of k] assms(1,2) by (auto split: if_splits)
  then have s: "s < 126230400 * j - 31622400 + 86400 * yday + 86400" using assms(6) by simp
  have "s < 31556736 * (4 * j) + 20736"
  proof (cases "k < 127")
    case True
    then have "j \<le> 31" using j by simp
    with s assms(4) show ?thesis by simp
  next
    case False
    then have "yday \<le> 363" using assms(5) by simp
    with s \<open>j \<le> 50\<close> show ?thesis by simp
  qed
  then show ?thesis using assms(1) j unfolding estimate_def by auto
qed

lemma leapdays_found:
  assumes "0 \<le> k" "k < 200" "0 \<le> yday" "yday < year_length (1900 + k)"
    and "s = (year_start k + yday) * 86400 + r" "0 \<le> r" "r < 86400"
    and "k < 127 \<or> \<not> leap_year (1901 + k) \<or> yday < 364"
  shows "leaps_to (1900 + estimate s) - 460 - (if early_in s (estimate s) then 1 else 0)
      = leaps_to (1899 + k) - 460 + (if leap_year (1900 + k) \<and> 59 \<le> yday then 1 else 0)
    \<and> (leap_year (1900 + k) \<and> (yday = 58 \<or> yday = 59) \<longrightarrow> (early_in s (estimate s) \<longleftrightarrow> yday = 58))"
proof -
  let ?E = "estimate s" and ?leap = "leap_year (1900 + k)"
  have "yday < 366" using assms(4) by (simp add: year_length_def split: if_splits)
  moreover have s: "year_start k * 86400 + yday * 86400 \<le> s" "s < year_start k * 86400 + (yday + 1) * 86400" using assms(5,6,7) by simp_all
  ultimately have E: "?E \<in> {k - 1, k, k + 1}" "58 \<le> yday \<Longrightarrow> k \<le> ?E" "yday < 59 \<Longrightarrow> ?E \<le> k"
    using estimate_range [OF assms(1,2,3)] by blast+
  have step: "leaps_to (1900 + k) = leaps_to (1899 + k) + (if ?leap then 1 else 0)"
    "leaps_to (1901 + k) = leaps_to (1900 + k) + (if leap_year (1901 + k) then 1 else 0)"
    using leaps_to_step [of "1900 + k"] leaps_to_step [of "1901 + k"] by simp_all
  consider "?E = k - 1" | "?E = k" | "?E = k + 1" using E(1) by blast
  then show ?thesis
  proof cases
    case 1
    then have "yday < 58" using E(2) by linarith
    moreover have "\<not> early_in s (k - 1)"
      using s(1) assms(3) by (simp add: early_in_def year_start_def algebra_simps)
    ultimately show ?thesis using 1 by simp
  next
    case 2
    have "early_in s k \<longleftrightarrow> ?leap \<and> yday < 59"
      using s assms(3) step(1) by (auto simp: early_in_def year_start_def algebra_simps)
    then show ?thesis using 2 step(1) by auto
  next
    case 3
    then have late: "59 \<le> yday" using E(3) by linarith
    have "\<not> leap_year (1901 + k)"
    proof
      assume lp: "leap_year (1901 + k)"
      then have "(k + 1) mod 4 = 0" by (auto dest!: leap_year_mod_4) presburger
      moreover have "\<not> ?leap" using lp not_leap_before_leap [of "1900 + k"] by (simp add: add.commute)
      then have "yday < 365" using assms(4) by (simp add: year_length_def)
      ultimately have "?E \<le> k" using assms(1,2,8) lp s(2) by (intro estimate_before_leap) auto
      with 3 show False by simp
    qed
    moreover from this have "\<not> early_in s (k + 1)" by (simp add: early_in_def add.commute)
    ultimately show ?thesis using 3 late step by (simp add: add.commute)
  qed
qed

lemma month_of_date:
  assumes "1 \<le> m" "m \<le> 12" "1 \<le> d" "d \<le> month_length y m" "\<not> (m = 2 \<and> d = 29)"
  shows "month_of (monthdays ! nat (m - 1) + d - 1) = m"
proof -
  have "m \<in> {1, 2, 3, 4, 5, 6, 7, 8, 9, 10, 11, 12}" using assms(1,2) by (rule month_range)
  then show ?thesis using assms(3,4,5)
    by (elim insertE emptyE) (simp_all add: month_of_def monthdays_def month_length_def split: if_splits)
qed

lemma yday_bounds:
  assumes "valid_date y m d"
  defines "yday \<equiv> monthdays ! nat (m - 1) + (if leap_year y \<and> 3 \<le> m then 1 else 0) + d - 1"
  shows "0 \<le> yday" "yday < year_length y" "yday < 59 \<longleftrightarrow> m = 1 \<or> m = 2 \<and> d < 29" "364 \<le> yday \<Longrightarrow> \<not> leap_year y \<Longrightarrow> m = 12 \<and> d = 31"
    "leap_year y \<Longrightarrow> yday = 59 \<longleftrightarrow> m = 2 \<and> d = 29"
proof -
  have m: "m \<in> {1, 2, 3, 4, 5, 6, 7, 8, 9, 10, 11, 12}" and d: "1 \<le> d" "d \<le> month_length y m"
    using assms(1) month_range [of m] by (auto simp: valid_date_def)
  have "0 \<le> yday \<and> yday < year_length y \<and> (yday < 59 \<longleftrightarrow> m = 1 \<or> m = 2 \<and> d < 29)
      \<and> (364 \<le> yday \<longrightarrow> \<not> leap_year y \<longrightarrow> m = 12 \<and> d = 31) \<and> (leap_year y \<longrightarrow> (yday = 59 \<longleftrightarrow> m = 2 \<and> d = 29))"
    using m d unfolding yday_def
    by (elim insertE emptyE) (simp_all add: monthdays_def month_length_def year_length_def split: if_splits)
  then show "0 \<le> yday" "yday < year_length y" "yday < 59 \<longleftrightarrow> m = 1 \<or> m = 2 \<and> d < 29"
    "364 \<le> yday \<Longrightarrow> \<not> leap_year y \<Longrightarrow> m = 12 \<and> d = 31" "leap_year y \<Longrightarrow> yday = 59 \<longleftrightarrow> m = 2 \<and> d = 29"
    by blast+
qed

lemma split_seconds_date:
  assumes "valid_date y m d" "well_estimated y m d" "0 \<le> r" "r < 86400"
  shows "split_seconds (word_of_int (day_number y m d * 86400 + r)) =
    \<lparr> sp_year = y, sp_month = m, sp_day = d, sp_hour = r div 3600, sp_min = r mod 3600 div 60, sp_sec = of_int (r mod 60) \<rparr>"
proof -
  define k yday s where "k = y - 1900" and "yday = monthdays ! nat (m - 1) + (if leap_year y \<and> 3 \<le> m then 1 else 0) + d - 1"
    and "s = day_number y m d * 86400 + r"
  have k: "0 \<le> k" "k < 200" "1900 + k = y" using assms(1,2) by (auto simp: k_def valid_date_def well_estimated_def)
  note yb = yday_bounds [OF assms(1), folded yday_def]
  have dn: "day_number y m d = year_start k + yday"
    unfolding day_number_eq [OF assms(1)] by (simp add: year_start_def k_def yday_def)
  then have s: "s = (year_start k + yday) * 86400 + r" by (simp add: s_def)
  have "k < 127 \<or> \<not> leap_year (1901 + k) \<or> yday < 364"
  proof (rule ccontr)
    assume "\<not> ?thesis"
    then have a: "127 \<le> k" "leap_year (y + 1)" "364 \<le> yday" using k(3) by (auto simp: add.commute k_def)
    then have "\<not> leap_year y" by (intro not_leap_before_leap)
    with a yb(4) assms(2) show False by (auto simp: well_estimated_def k_def)
  qed
  note found = leapdays_found [OF k(1,2) yb(1) _ s assms(3,4) this, unfolded k(3), OF yb(2)]
  define yd where "yd = yday - (if leap_year y \<and> 59 \<le> yday then 1 else 0)"
  have yd: "0 \<le> yd" "yd < 365" using yb(1,2) by (auto simp: yd_def year_length_def split: if_splits)
  define t where "t = s - (leaps_to (1900 + estimate s) - 460 - (if early_in s (estimate s) then 1 else 0)) * 86400"
  have t: "t = 31536000 * k + (yd * 86400 + r)"
  proof -
    have "t = s - (leaps_to (1899 + k) - 460 + (if leap_year y \<and> 59 \<le> yday then 1 else 0)) * 86400"
      unfolding t_def conjunct1 [OF found] ..
    then show ?thesis unfolding s year_start_def yd_def by (simp add: algebra_simps)
  qed
  have "0 \<le> yd * 86400 + r" "yd * 86400 + r < 31536000" using yd assms(3,4) by auto
  then have t': "t div 31536000 = k" "t mod 31536000 = yd * 86400 + r"
    unfolding t by (simp_all add: div_pos_pos_trivial)
  have "year_start k \<le> 73050" "0 \<le> year_start k" using year_start_20th [of k] k(1,2) by (auto split: if_splits)
  then have "0 \<le> s" "s < 2 ^ 44" using s yb(1,2) assms(3,4) by (auto simp: year_length_def split: if_splits)
  note split_seconds_int [OF this t_def, unfolded t']
  also have "k + 1900 = y" by (simp add: k_def)
  finally have sp: "split_seconds (word_of_int s) = split_yearday (early_in s (estimate s)) y (word_of_int (yd * 86400 + r))" .
  have dd: "(yd * 86400 + r) div 86400 = yd" "(yd * 86400 + r) mod 86400 = r" using assms(3,4) by (simp_all add: div_pos_pos_trivial)
  have "split_seconds (word_of_int s) =
    \<lparr> sp_year = y, sp_month = (if leap_year y \<and> \<not> early_in s (estimate s) \<and> yd = 58 then 2 else month_of yd),
      sp_day = (if leap_year y \<and> \<not> early_in s (estimate s) \<and> yd = 58 then 29 else yd - monthdays ! nat (month_of yd - 1) + 1),
      sp_hour = r div 3600, sp_min = r mod 3600 div 60, sp_sec = of_int (r mod 60) \<rparr>"
    unfolding sp split_yearday_int [OF \<open>0 \<le> yd * 86400 + r\<close> \<open>yd * 86400 + r < 31536000\<close>] Let_def dd ..
  moreover have "(leap_year y \<and> \<not> early_in s (estimate s) \<and> yd = 58) \<longleftrightarrow> m = 2 \<and> d = 29"
  proof -
    have "m = 2 \<and> d = 29 \<Longrightarrow> leap_year y" using assms(1) by (auto simp: valid_date_def month_length_def split: if_splits)
    moreover have "yd = 58 \<Longrightarrow> leap_year y \<Longrightarrow> yday = 58 \<or> yday = 59" by (simp add: yd_def split: if_splits)
    moreover have "leap_year y \<Longrightarrow> yday = 59 \<Longrightarrow> yd = 58" by (simp add: yd_def)
    ultimately show ?thesis using conjunct2 [OF found] yb(5) by auto
  qed
  moreover have "yd = monthdays ! nat (m - 1) + d - 1" if "\<not> (m = 2 \<and> d = 29)"
  proof -
    have "d \<le> month_length y m" "1 \<le> m" using assms(1) by (simp_all add: valid_date_def)
    then have "m < 3 \<longleftrightarrow> yday < 59" if "leap_year y"
      using yb(3) that \<open>\<not> (m = 2 \<and> d = 29)\<close> by (cases "m = 2") (auto simp: month_length_def)
    then show ?thesis unfolding yd_def by (auto simp: yday_def)
  qed
  moreover from this have "\<not> (m = 2 \<and> d = 29) \<Longrightarrow> month_of yd = m"
    using month_of_date [of m d y] assms(1) by (auto simp: valid_date_def)
  ultimately show ?thesis unfolding s_def [symmetric] by auto
qed

section \<open>Stamps and split times\<close>

lemma moment_parts:
  assumes "valid_split sp" "sp_year sp < 500000"
  defines "F \<equiv> \<lfloor>sp_sec sp * 2 ^ 20\<rfloor>" and "n \<equiv> day_number (sp_year sp) (sp_month sp) (sp_day sp)"
  defines "r \<equiv> sp_hour sp * 3600 + sp_min sp * 60 + F div 2 ^ 20"
  shows "moment sp = (n * 86400 + r) * 2 ^ 20 + F mod 2 ^ 20" "0 \<le> F" "F < 60 * 2 ^ 20" "0 \<le> r" "r < 86400" "0 \<le> n" "n * 86400 + r < 2 ^ 44"
proof -
  have v: "valid_date (sp_year sp) (sp_month sp) (sp_day sp)" "0 \<le> sp_hour sp" "sp_hour sp < 24" "0 \<le> sp_min sp" "sp_min sp < 60"
    "0 \<le> sp_sec sp" "sp_sec sp < 60"
    using assms(1) by (auto simp: valid_split_def)
  show F: "0 \<le> F" "F < 60 * 2 ^ 20" using v(6,7) by (auto simp: F_def floor_less_iff)
  have "F = F div 2 ^ 20 * 2 ^ 20 + F mod 2 ^ 20" by (rule div_mult_mod_eq [symmetric])
  then show "moment sp = (n * 86400 + r) * 2 ^ 20 + F mod 2 ^ 20"
    unfolding moment_def n_def [symmetric] F_def [symmetric] r_def by (simp add: algebra_simps)
  have "0 \<le> F div 2 ^ 20" "F div 2 ^ 20 < 60" using F by (auto simp: div_less_iff_less_mult)
  then show r: "0 \<le> r" "r < 86400" using v(2-5) unfolding r_def by linarith+
  have y: "1900 \<le> sp_year sp" using v(1) by (simp add: valid_date_def)
  have lb: "0 \<le> leaps_to (sp_year sp - 1) - 460" "leaps_to (sp_year sp - 1) - 460 \<le> sp_year sp"
  proof -
    have "sp_year sp = 1900 \<Longrightarrow> leaps_to (sp_year sp - 1) = 460" by (simp add: leaps_to_def)
    moreover have "1900 < sp_year sp \<Longrightarrow> 0 \<le> leaps_to (sp_year sp - 1) - 460 \<and> leaps_to (sp_year sp - 1) - 460 \<le> sp_year sp - 1901"
      using leaps_to_bounds [of "sp_year sp - 1901"] by simp
    ultimately show "0 \<le> leaps_to (sp_year sp - 1) - 460" "leaps_to (sp_year sp - 1) - 460 \<le> sp_year sp"
      using y by (cases "sp_year sp = 1900"; force)+
  qed
  have "0 \<le> monthdays ! nat (sp_month sp - 1)" "monthdays ! nat (sp_month sp - 1) \<le> 334" "1 \<le> sp_day sp" "sp_day sp \<le> 31"
    using v(1) monthdays_bounds [of "sp_month sp"] month_length_bounds(2) [of "sp_year sp" "sp_month sp"] by (auto simp: valid_date_def)
  with lb y assms(2) have "0 \<le> n" "n \<le> 365 * 500000 + 500000 + 366"
    unfolding n_def day_number_eq [OF v(1)] by auto
  then show "0 \<le> n" "n * 86400 + r < 2 ^ 44" using r by auto
qed

lemma drop_moment:
  assumes "0 \<le> m" "m < 2 ^ 64"
  shows "drop_bit 20 (word_of_int m :: u64) = word_of_int (m div 2 ^ 20)"
  using assms by (simp add: drop_bit_eq_div word_div_int)

lemma moment_seconds:
  fixes a :: int
  assumes "m = a * 2 ^ 20 + f mod 2 ^ 20"
  shows "m div 2 ^ 20 = a" "m mod 2 ^ 20 = f mod 2 ^ 20"
  using assms by (simp_all add: div_pos_pos_trivial)

lemma mask_moment:
  assumes "0 \<le> m" "m < 2 ^ 64"
  shows "uint ((word_of_int m :: u64) AND (0x100000 - 1)) = m mod 2 ^ 20"
proof -
  have "(0x100000 - 1 :: u64) = mask 20" by (simp add: mask_eq_exp_minus_1)
  then have "(word_of_int m :: u64) AND (0x100000 - 1) = take_bit 20 (word_of_int m)" by (simp only: take_bit_eq_mask)
  also have "uint \<dots> = take_bit 20 (uint (word_of_int m :: u64))" by (rule unsigned_take_bit_eq)
  finally show ?thesis unfolding uint_int [OF assms] take_bit_eq_mod .
qed

text \<open>
  C34: Combining a split time counts the seconds since 1900. For every valid split time up to the year
  500000 the stamp is the number of days of the Gregorian calendar since 1 January 1900, and the time
  within the day, in units of the stamp's resolution, without overflow; its weekday is that of the day.
\<close>

theorem combine_counts_seconds:
  assumes "valid_split sp" "sp_year sp < 500000"
  shows "uint (combine sp) = (day_number (sp_year sp) (sp_month sp) (sp_day sp) * 86400 + sp_hour sp * 3600 + sp_min sp * 60) * 2 ^ 20
      + \<lfloor>sp_sec sp * 2 ^ 20\<rfloor>
    \<and> weekday (combine sp) = 1 + day_number (sp_year sp) (sp_month sp) (sp_day sp) mod 7"
proof -
  define n where "n = day_number (sp_year sp) (sp_month sp) (sp_day sp)"
  define F where "F = \<lfloor>sp_sec sp * 2 ^ 20\<rfloor>"
  define r where "r = sp_hour sp * 3600 + sp_min sp * 60 + F div 2 ^ 20"
  note p = moment_parts [OF assms, folded n_def F_def, folded r_def]
  have "0 \<le> F mod 2 ^ 20" "F mod 2 ^ 20 < 2 ^ 20" by simp_all
  with p have m: "0 \<le> moment sp" "moment sp < 2 ^ 64" by auto
  then have u: "uint (combine sp) = moment sp" unfolding combine_moment [OF assms(1)] by (rule uint_int)
  have d: "drop_bit 20 (combine sp) = word_of_int (n * 86400 + r)"
    unfolding combine_moment [OF assms(1)] drop_moment [OF m] using moment_seconds(1) [OF p(1)] by (simp only:)
  have a: "0 \<le> n * 86400 + r" "n * 86400 + r < 2 ^ 64" using p(4,6,7) by auto
  have "(n * 86400 + r) div 3600 div 24 = n" using p(4,5) by (simp add: zdiv_zmult2_eq [symmetric] div_pos_pos_trivial)
  moreover have "drop_bit 20 (combine sp) div 3600 div 24 mod 7 = word_of_int ((n * 86400 + r) div 3600 div 24 mod 7)"
  proof -
    have q: "0 \<le> (n * 86400 + r) div 3600" "(n * 86400 + r) div 3600 < 2 ^ 64"
      "0 \<le> (n * 86400 + r) div 3600 div 24" "(n * 86400 + r) div 3600 div 24 < 2 ^ 64"
      using a by auto
    have "word_of_int (n * 86400 + r) div 3600 = (word_of_int ((n * 86400 + r) div 3600) :: u64)"
      using a by (intro word_div_int) simp_all
    moreover have "word_of_int ((n * 86400 + r) div 3600) div 24 = (word_of_int ((n * 86400 + r) div 3600 div 24) :: u64)"
      using q by (intro word_div_int) simp_all
    moreover have "word_of_int ((n * 86400 + r) div 3600 div 24) mod 7 = (word_of_int ((n * 86400 + r) div 3600 div 24 mod 7) :: u64)"
      using q by (intro word_div_int) simp_all
    ultimately show ?thesis unfolding d by (simp only:)
  qed
  ultimately have w: "weekday (combine sp) = uint (word_of_int (1 + n mod 7) :: u64)" unfolding weekday_def by simp
  have "0 \<le> 1 + n mod 7" "1 + n mod 7 < (2::int) ^ 64" by (auto intro: order.strict_trans [of _ 10])
  with w have "weekday (combine sp) = 1 + n mod 7" by (simp only: uint_int)
  with u show ?thesis unfolding moment_def n_def by blast
qed

lemma time_parts:
  fixes h m s :: int
  assumes "r = h * 3600 + m * 60 + s" "0 \<le> h" "0 \<le> m" "m < 60" "0 \<le> s" "s < 60"
  shows "r div 3600 = h \<and> r mod 3600 div 60 = m \<and> r mod 60 = s"
proof -
  have "r = 3600 * h + (m * 60 + s)" "0 \<le> m * 60 + s" "m * 60 + s < 3600" using assms by simp_all
  then have "r div 3600 = h" "r mod 3600 = m * 60 + s" by (metis int_div_pos_eq, metis int_mod_pos_eq)
  moreover have "(m * 60 + s) div 60 = m" using assms(5,6) by (intro int_div_pos_eq [of _ _ _ s]) simp_all
  moreover have "r mod 60 = s" using assms by (intro int_mod_pos_eq [of _ _ "60 * h + m"]) simp_all
  ultimately show ?thesis by simp
qed

lemma split_of_combine:
  assumes "valid_split sp" "sp_year sp < 2100" "rat_of_int \<lfloor>sp_sec sp * 2 ^ 20\<rfloor> = sp_sec sp * 2 ^ 20"
    and "sp_year sp < 2027 \<or> \<not> leap_year (sp_year sp + 1) \<or> \<not> (sp_month sp = 12 \<and> sp_day sp = 31)"
  shows "stamp_split (combine sp) = sp"
proof -
  define n where "n = day_number (sp_year sp) (sp_month sp) (sp_day sp)"
  define F where "F = \<lfloor>sp_sec sp * 2 ^ 20\<rfloor>"
  define r where "r = sp_hour sp * 3600 + sp_min sp * 60 + F div 2 ^ 20"
  have y: "sp_year sp < 500000" using assms(2) by simp
  note p = moment_parts [OF assms(1) y, folded n_def F_def, folded r_def]
  have f: "0 \<le> F mod 2 ^ 20" "F mod 2 ^ 20 < 2 ^ 20" by simp_all
  with p have m: "0 \<le> moment sp" "moment sp < 2 ^ 64" by auto
  have d: "drop_bit 20 (combine sp) = word_of_int (n * 86400 + r)"
    unfolding combine_moment [OF assms(1)] drop_moment [OF m] using moment_seconds(1) [OF p(1)] by (simp only:)
  have u: "uint (combine sp AND (0x100000 - 1)) = F mod 2 ^ 20"
    unfolding combine_moment [OF assms(1)] mask_moment [OF m] using moment_seconds(2) [OF p(1)] by (simp only:)
  have v: "valid_date (sp_year sp) (sp_month sp) (sp_day sp)" "0 \<le> sp_hour sp" "0 \<le> sp_min sp" "sp_min sp < 60"
    using assms(1) by (auto simp: valid_split_def)
  have "well_estimated (sp_year sp) (sp_month sp) (sp_day sp)" using assms(2,4) by (simp add: well_estimated_def)
  note sd = split_seconds_date [OF v(1) this p(4,5), folded n_def]
  define S where "S = F div 2 ^ 20"
  have S: "0 \<le> S" "S < 60" using p(2,3) by (auto simp: S_def div_less_iff_less_mult)
  have r: "r div 3600 = sp_hour sp" "r mod 3600 div 60 = sp_min sp" "r mod 60 = S"
    using time_parts [OF _ v(2-4) S, of r] by (simp_all add: r_def S_def)
  have "sp_sec sp * 2 ^ 20 = of_int F" unfolding F_def by (rule assms(3) [symmetric])
  also have "F = S * 2 ^ 20 + F mod 2 ^ 20" unfolding S_def by (rule div_mult_mod_eq [symmetric])
  finally have sec: "sp_sec sp = of_int S + of_int (F mod 2 ^ 20) / 2 ^ 20" by (simp add: field_simps)
  show ?thesis unfolding stamp_split_def d u sd r Let_def by (simp add: sec [simplified, symmetric])
qed


theorem combine_counts_seconds_witness:
  "uint (combine \<lparr> sp_year = 2024, sp_month = 2, sp_day = 29, sp_hour = 12, sp_min = 30, sp_sec = 1 / 2 \<rparr>)
     = (day_number 2024 2 29 * 86400 + 12 * 3600 + 30 * 60) * 2 ^ 20 + 524288
   \<and> weekday (combine \<lparr> sp_year = 2024, sp_month = 2, sp_day = 29, sp_hour = 12, sp_min = 30, sp_sec = 1 / 2 \<rparr>)
     = 1 + day_number 2024 2 29 mod 7"
  using combine_counts_seconds [of "\<lparr> sp_year = 2024, sp_month = 2, sp_day = 29, sp_hour = 12, sp_min = 30, sp_sec = 1 / 2 \<rparr>"]
  by (simp add: valid_split_def valid_date_def month_length_def leap_year_def)


text \<open>The gap: the last second of 2027 is taken for one of 30 December.\<close>

lemma split_last_of_2027:
  "stamp_split (combine \<lparr> sp_year = 2027, sp_month = 12, sp_day = 31, sp_hour = 23, sp_min = 59, sp_sec = 59 \<rparr>)
     = \<lparr> sp_year = 2027, sp_month = 12, sp_day = 30, sp_hour = 23, sp_min = 59, sp_sec = 59 \<rparr>"
proof -
  let ?sp = "\<lparr> sp_year = 2027, sp_month = 12, sp_day = 31, sp_hour = 23, sp_min = 59, sp_sec = 59 \<rparr>"
  have v: "valid_split ?sp" by (simp add: valid_split_def valid_date_def month_length_def)
  then have "day_number 2027 12 31 = 46750" using day_number_eq [of 2027 12 31]
    by (simp add: valid_split_def monthdays_def leap_year_def leaps_to_def)
  then have m: "moment ?sp = 4039286399 * 2 ^ 20 + 0 mod 2 ^ 20" by (simp add: moment_def)
  then have b: "0 \<le> moment ?sp" "moment ?sp < 2 ^ 64" by simp_all
  have d: "drop_bit 20 (combine ?sp) = word_of_int 4039286399" "uint (combine ?sp AND (0x100000 - 1)) = 0"
    unfolding combine_moment [OF v] drop_moment [OF b] mask_moment [OF b] moment_seconds [OF m] by simp_all
  have e: "estimate 4039286399 = 128" "\<not> early_in 4039286399 128" by (simp_all add: estimate_def early_in_def leap_year_def leaps_to_def)
  have t: "4036521599 = 4039286399 - (leaps_to (1900 + estimate 4039286399) - 460 - (if early_in 4039286399 (estimate 4039286399) then 1 else 0)) * (86400 :: int)"
    by (simp add: e leaps_to_def)
  have "split_seconds (word_of_int 4039286399) = split_yearday False 2027 (word_of_int 31449599)"
    using split_seconds_int [OF _ _ t] e by simp
  also have "\<dots> = \<lparr> sp_year = 2027, sp_month = 12, sp_day = 30, sp_hour = 23, sp_min = 59, sp_sec = 59 \<rparr>"
    by (subst split_yearday_int) (simp_all add: month_of_def monthdays_def)
  finally show ?thesis unfolding stamp_split_def d by simp
qed

end
