(* ===== verification/Time_Text.thy ===== *)
theory Time_Text
  imports Calendar Convert Whitespace Split
begin

text \<open>
  The textual forms of time stamps (stamp.cc, date-stamp.cc) and the arithmetic of dates (split.cc,
  date-interval.cc) of libs/time. The conversions of floating point seconds, \<^verbatim>\<open>atof\<close> and the stream
  output with a given precision, are arguments.
\<close>

section \<open>Writing\<close>

definition setw2 :: "int \<Rightarrow> string" where
  "setw2 n = (let s = itos (word_of_int n) in replicate (2 - length s) CHR ''0'' @ s)"

definition sec_text :: "(nat \<Rightarrow> rat \<Rightarrow> string) \<Rightarrow> nat \<Rightarrow> rat \<Rightarrow> string" where
  "sec_text fmt prec sec =
     (let pad = (if sec < 10 then ''0'' else []);
          prec = (if sec < 10 then prec - 1 else prec);
          prec = (if sec < 1 then prec - 1 else prec)
      in pad @ fmt prec sec)"

definition stamp_iso :: "(nat \<Rightarrow> rat \<Rightarrow> string) \<Rightarrow> u64 \<Rightarrow> string" where
  "stamp_iso fmt t =
     (if t = 0 then []
      else let sp = stamp_split t
           in setw2 (sp_year sp) @ ''-'' @ setw2 (sp_month sp) @ ''-'' @ setw2 (sp_day sp) @ ''T''
              @ setw2 (sp_hour sp) @ '':'' @ setw2 (sp_min sp) @ '':'' @ sec_text fmt 5 (sp_sec sp) @ ''Z'')"

definition stamp_iso_minimal :: "u64 \<Rightarrow> string" where
  "stamp_iso_minimal t =
     (if t = 0 then []
      else let sp = stamp_split t
           in setw2 (sp_year sp) @ setw2 (sp_month sp) @ setw2 (sp_day sp) @ ''T''
              @ setw2 (sp_hour sp) @ setw2 (sp_min sp) @ setw2 \<lfloor>sp_sec sp\<rfloor>)"

definition stamp_iso_numeric :: "u64 \<Rightarrow> string" where
  "stamp_iso_numeric t =
     (if t = 0 then []
      else let sp = stamp_split t
           in setw2 (sp_year sp) @ setw2 (sp_month sp) @ setw2 (sp_day sp)
              @ setw2 (sp_hour sp) @ setw2 (sp_min sp) @ setw2 \<lfloor>sp_sec sp\<rfloor>)"

text \<open>The separators are characters, with NUL for none.\<close>

definition sep_text :: "char option \<Rightarrow> string" where
  "sep_text sep = (case sep of None \<Rightarrow> [] | Some c \<Rightarrow> [c])"

definition stamp_iso_date :: "char option \<Rightarrow> u64 \<Rightarrow> string" where
  "stamp_iso_date sep t =
     (if t = 0 then []
      else let sp = stamp_split t
           in setw2 (sp_year sp) @ sep_text sep @ setw2 (sp_month sp) @ sep_text sep @ setw2 (sp_day sp))"

definition stamp_iso_time :: "char option \<Rightarrow> bool \<Rightarrow> u64 \<Rightarrow> string" where
  "stamp_iso_time sep with_secs t =
     (if t = 0 then []
      else let sp = stamp_split t
           in setw2 (sp_hour sp) @ sep_text sep @ setw2 (sp_min sp)
              @ (if with_secs then sep_text sep @ setw2 \<lfloor>sp_sec sp\<rfloor> else []))"

definition stamp_sql :: "(nat \<Rightarrow> rat \<Rightarrow> string) \<Rightarrow> u64 \<Rightarrow> string" where
  "stamp_sql fmt t =
     (if t = 0 then []
      else let sp = stamp_split t
           in setw2 (sp_year sp) @ ''-'' @ setw2 (sp_month sp) @ ''-'' @ setw2 (sp_day sp) @ '' ''
              @ setw2 (sp_hour sp) @ '':'' @ setw2 (sp_min sp) @ '':'' @ sec_text fmt 11 (sp_sec sp))"

section \<open>Reading\<close>

definition NO_DATA :: int where "NO_DATA = - 1"
definition BAD_DATA :: int where "BAD_DATA = - 2"

text \<open>The readers return their value and the position they leave.\<close>

definition read_part :: "string \<Rightarrow> nat \<Rightarrow> nat \<Rightarrow> nat \<Rightarrow> int \<times> nat" where
  "read_part text sz pos len =
     (if pos = sz then (NO_DATA, pos)
      else if pos + len > sz then (BAD_DATA, pos)
      else let s = take len (drop pos text)
           in if list_all isdigit s then (sint (atoi s), pos + len) else (BAD_DATA, pos))"

definition read_part_f :: "(string \<Rightarrow> rat) \<Rightarrow> string \<Rightarrow> nat \<Rightarrow> nat \<Rightarrow> nat \<Rightarrow> rat \<times> nat" where
  "read_part_f atof text sz pos len =
     (if pos = sz then (of_int NO_DATA, pos)
      else if len < 2 then (of_int BAD_DATA, pos)
      else if pos + len > sz then (of_int BAD_DATA, pos)
      else let s = take len (drop pos text)
           in if \<not> list_all (\<lambda>c. c = CHR ''.'' \<or> isdigit c) s then (of_int BAD_DATA, pos)
              else if length (filter (\<lambda>c. c = CHR ''.'') s) > 1 then (of_int BAD_DATA, pos)
              else (atof s, pos + len))"

definition read_filler :: "string \<Rightarrow> nat \<Rightarrow> nat \<Rightarrow> char \<Rightarrow> bool \<times> nat" where
  "read_filler text sz pos c = (if pos < sz \<and> text ! pos = c then (True, pos + 1) else (False, pos))"

definition read_seconds :: "(string \<Rightarrow> rat) \<Rightarrow> string \<Rightarrow> nat \<Rightarrow> nat \<Rightarrow> bool \<Rightarrow> rat \<times> nat" where
  "read_seconds atof text sz pos float_secs =
     (if float_secs then read_part_f atof text sz pos (sz - pos)
      else case read_part text sz pos 2 of (s, pos) \<Rightarrow> (of_int s, pos))"

definition read_time ::
  "(string \<Rightarrow> rat) \<Rightarrow> string \<Rightarrow> nat \<Rightarrow> nat \<Rightarrow> bool \<Rightarrow> bool \<Rightarrow> Split \<Rightarrow> (Split \<times> nat) option" where
  "read_time atof text sz pos lenient float_secs sp =
     (case read_part text sz pos 2 of (h, pos) \<Rightarrow>
        if h = BAD_DATA \<or> (h = NO_DATA \<and> \<not> lenient) then None
        else if h < 0 then Some (sp, pos)
        else
          let sp = sp \<lparr> sp_hour := h \<rparr>;
              (_, pos) = read_filler text sz pos CHR '':'';
              (mi, pos) = read_part text sz pos 2
          in if mi = BAD_DATA \<or> (h = NO_DATA \<and> \<not> lenient) then None
             else if mi < 0 then Some (sp, pos)
             else
               let sp = sp \<lparr> sp_min := mi \<rparr>;
                   (_, pos) = read_filler text sz pos CHR '':'';
                   (s, pos) = read_seconds atof text sz pos float_secs
               in if s = of_int BAD_DATA \<or> (s = of_int NO_DATA \<and> \<not> lenient) then None
                  else Some (if s \<ge> 0 then sp \<lparr> sp_sec := s \<rparr> else sp, pos))"

definition read_timezone_offset :: "string \<Rightarrow> nat \<Rightarrow> nat \<Rightarrow> int option" where
  "read_timezone_offset text sz pos =
     (if pos \<ge> sz then None
      else
        let sign = (if text ! pos = CHR ''-'' then - 1 else 1);
            (h, pos) = read_part text sz (pos + 1) 2
        in if h < 0 then None
           else
             let (colon, pos) = read_filler text sz pos CHR '':'';
                 (m, pos) = read_part text sz pos 2
             in if m < 0 \<and> colon then None
                else if pos = sz then Some (sign * (h * 3600 + (if m < 0 then 0 else m) * 60)) else None)"

text \<open>The scan for a time zone: the new end of the text and the offset.\<close>

definition read_timezone :: "string \<Rightarrow> nat \<Rightarrow> nat \<Rightarrow> (nat \<times> int) option" where
  "read_timezone text sz pos =
     (case find_first (\<lambda>c. c = CHR ''-'' \<or> c = CHR ''+'' \<or> c = CHR ''Z'') (drop pos (take sz text)) of
        None \<Rightarrow> Some (sz, 0)
      | Some i \<Rightarrow>
          if text ! (pos + i) = CHR ''Z'' then Some (pos + i, 0)
          else map_option (Pair (pos + i)) (read_timezone_offset text sz (pos + i)))"

definition read_iso :: "(string \<Rightarrow> rat) \<Rightarrow> string \<Rightarrow> bool \<Rightarrow> (Split \<times> int) option" where
  "read_iso atof text lenient =
     (let sz = length text;
          (y, pos) = read_part text sz 0 4
      in if y < 1900 then None
         else
           let (_, pos) = read_filler text sz pos CHR ''-'';
               (m, pos) = read_part text sz pos 2
           in if m < 0 then None
              else
                let (_, pos) = read_filler text sz pos CHR ''-'';
                    (d, pos) = read_part text sz pos 2
                in if d < 0 then None
                   else
                     let sp = split_default \<lparr> sp_year := y, sp_month := m, sp_day := d \<rparr>;
                         (space, pos) = read_filler text sz pos CHR '' '';
                         (tee, pos) = (if space then (True, pos) else read_filler text sz pos CHR ''T'')
                     in if \<not> tee \<and> \<not> lenient then None
                        else
                          case read_timezone text sz pos of
                            None \<Rightarrow> None
                          | Some (sz, tz_offset) \<Rightarrow>
                              case read_time atof text sz pos lenient True sp of
                                None \<Rightarrow> None
                              | Some (sp, pos) \<Rightarrow> if pos = sz then Some (sp, tz_offset) else None)"

definition get_month :: "string \<Rightarrow> int" where
  "get_month word =
     (if word = ''Jan'' then 1 else if word = ''Feb'' then 2 else if word = ''Mar'' then 3
      else if word = ''Apr'' then 4 else if word = ''May'' then 5 else if word = ''Jun'' then 6
      else if word = ''Jul'' then 7 else if word = ''Aug'' then 8 else if word = ''Sep'' then 9
      else if word = ''Oct'' then 10 else if word = ''Nov'' then 11 else if word = ''Dec'' then 12 else 0)"

definition read_rfc_822 :: "(string \<Rightarrow> rat) \<Rightarrow> string list \<Rightarrow> Split option" where
  "read_rfc_822 atof words =
     (let day = sint (stoi (words ! 1)); month = get_month (words ! 2); year = sint (stoi (words ! 3))
      in if day = 0 \<or> month = 0 \<or> year = 0 then None
         else case read_time atof (words ! 4) (length (words ! 4)) 0 False False
                     (split_default \<lparr> sp_day := day, sp_month := month, sp_year := year \<rparr>) of
                None \<Rightarrow> None
              | Some (sp, pos) \<Rightarrow> if words ! 5 = ''GMT'' then Some sp else None)"

definition read_rfc_850 :: "(string \<Rightarrow> rat) \<Rightarrow> string list \<Rightarrow> Split option" where
  "read_rfc_850 atof words =
     (let bits = split (words ! 1) CHR ''-'' False 3
      in if length bits \<noteq> 3 then None
         else let day = sint (stoi (bits ! 0)); month = get_month (bits ! 1); year = sint (stoi (bits ! 2))
              in if day = 0 \<or> month = 0 \<or> year = 0 then None
                 else case read_time atof (words ! 2) (length (words ! 2)) 0 False False
                             (split_default \<lparr> sp_day := day, sp_month := month, sp_year := (if year < 100 then year + 2000 else year) \<rparr>) of
                        None \<Rightarrow> None
                      | Some (sp, pos) \<Rightarrow> if words ! 3 = ''GMT'' then Some sp else None)"

definition read_asctime :: "(string \<Rightarrow> rat) \<Rightarrow> string list \<Rightarrow> Split option" where
  "read_asctime atof words =
     (let month = get_month (words ! 1); day = sint (stoi (words ! 2))
      in if month = 0 \<or> day = 0 then None
         else case read_time atof (words ! 3) (length (words ! 3)) 0 False False
                     (split_default \<lparr> sp_month := month, sp_day := day \<rparr>) of
                None \<Rightarrow> None
              | Some (sp, pos) \<Rightarrow>
                  let year = sint (stoi (words ! 4)) in if year = 0 then None else Some (sp \<lparr> sp_year := year \<rparr>))"

definition read_http :: "(string \<Rightarrow> rat) \<Rightarrow> string \<Rightarrow> Split option" where
  "read_http atof text =
     (let words = split_words text
      in if length words = 6 then read_rfc_822 atof words
         else if length words = 4 then read_rfc_850 atof words
         else if length words = 5 then read_asctime atof words
         else None)"

definition stamp_of_text :: "(string \<Rightarrow> rat) \<Rightarrow> string \<Rightarrow> bool \<Rightarrow> u64" where
  "stamp_of_text atof text lenient =
     (if text \<noteq> [] \<and> isdigit (hd text)
      then case read_iso atof text lenient of
             None \<Rightarrow> 0
           | Some (sp, tz_offset) \<Rightarrow> stamp_sub (combine sp) tz_offset
      else case read_http atof text of
             None \<Rightarrow> 0
           | Some sp \<Rightarrow> stamp_sub (combine sp) 0)"

text \<open>\<^verbatim>\<open>DateStamp(text)\<close>.\<close>

definition char_at :: "string \<Rightarrow> nat \<Rightarrow> char" where
  "char_at text pos = (if pos < length text then text ! pos else CHR 0x00)"

definition date_stamp_of_text :: "string \<Rightarrow> u64" where
  "date_stamp_of_text text =
     (let l = length text
      in if l < 8 then 0
         else
           let year = sint (atoi (take 4 text));
               pos = (if char_at text 4 = CHR ''-'' then 5 else 4);
               month = sint (atoi (take 2 (drop pos text)));
               pos = pos + 2;
               pos = (if char_at text pos = CHR ''-'' then pos + 1 else pos)
           in if pos > l - 2 then 0
              else combine (split_default \<lparr> sp_year := year, sp_month := month, sp_day := sint (atoi (take 2 (drop pos text))) \<rparr>))"

section \<open>Date arithmetic\<close>

text \<open>The loops of \<^verbatim>\<open>normalise\<close>, on a field and the next larger one.\<close>

function borrow_secs :: "rat \<Rightarrow> int \<Rightarrow> rat \<times> int" where
  "borrow_secs sec mins = (if sec < 0 then borrow_secs (sec + 60) (mins - 1) else (sec, mins))"
  by pat_completeness auto

termination borrow_secs
proof (relation "measure (\<lambda>(sec, mins). nat \<lceil>- sec\<rceil>)")
  fix sec :: rat and mins :: int
  assume "sec < 0"
  then have "\<lceil>- (sec + 60)\<rceil> < \<lceil>- sec\<rceil>" "0 < \<lceil>- sec\<rceil>" by (simp_all add: ceiling_diff_numeral [symmetric] del: ceiling_diff_numeral) linarith
  then show "((sec + 60, mins - 1), (sec, mins)) \<in> measure (\<lambda>(sec, mins). nat \<lceil>- sec\<rceil>)" by simp
qed simp

function carry_secs :: "rat \<Rightarrow> int \<Rightarrow> rat \<times> int" where
  "carry_secs sec mins = (if sec > 59 then carry_secs (sec - 60) (mins + 1) else (sec, mins))"
  by pat_completeness auto

termination carry_secs
proof (relation "measure (\<lambda>(sec, mins). nat \<lceil>sec\<rceil>)")
  fix sec :: rat and mins :: int
  assume "sec > 59"
  then have "0 < \<lceil>sec\<rceil>" by linarith
  then show "((sec - 60, mins + 1), (sec, mins)) \<in> measure (\<lambda>(sec, mins). nat \<lceil>sec\<rceil>)" by simp
qed simp

function borrow :: "int \<Rightarrow> nat \<Rightarrow> int \<Rightarrow> int \<Rightarrow> int \<times> int" where
  "borrow lo n x c = (if x < lo then borrow lo n (x + int (Suc n)) (c - 1) else (x, c))"
  by pat_completeness auto

termination borrow
  by (relation "measure (\<lambda>(lo, n, x, c). nat (lo - x))") auto

function carry :: "int \<Rightarrow> nat \<Rightarrow> int \<Rightarrow> int \<Rightarrow> int \<times> int" where
  "carry hi n x c = (if x > hi then carry hi n (x - int (Suc n)) (c + 1) else (x, c))"
  by pat_completeness auto

termination carry
  by (relation "measure (\<lambda>(hi, n, x, c). nat (x - hi))") auto

declare borrow_secs.simps [simp del] carry_secs.simps [simp del] borrow.simps [simp del] carry.simps [simp del]

definition normalise_time :: "Split \<Rightarrow> Split" where
  "normalise_time sp =
     (let (sec, mins) = borrow_secs (sp_sec sp) (sp_min sp);
          (sec, mins) = carry_secs sec mins;
          (mins, hour) = borrow 0 59 mins (sp_hour sp);
          (mins, hour) = carry 59 59 mins hour;
          (hour, day) = borrow 0 23 hour (sp_day sp);
          (hour, day) = carry 23 23 hour day;
          (month, year) = borrow 1 11 (sp_month sp) (sp_year sp);
          (month, year) = carry 12 11 month year
      in \<lparr> sp_year = year, sp_month = month, sp_day = day, sp_hour = hour, sp_min = mins, sp_sec = sec \<rparr>)"

definition day_offset :: "int \<Rightarrow> int" where
  "day_offset n = uint ((word_of_int n :: u32) * 86400)"

definition normalise :: "Split \<Rightarrow> Split" where
  "normalise sp =
     (let sp = normalise_time sp
      in if sp_day sp < 1
         then stamp_split (stamp_sub (combine (sp \<lparr> sp_day := 1 \<rparr>)) (day_offset (1 - sp_day sp)))
         else if sp_day sp > 28
         then stamp_split (stamp_add (combine (sp \<lparr> sp_day := 1 \<rparr>)) (day_offset (sp_day sp - 1)))
         else sp)"

datatype Unit = Invalid | Days | Weeks | Months | Years

record DateInterval =
  di_number :: int
  di_unit :: Unit

definition get_unit :: "string \<Rightarrow> Unit" where
  "get_unit str =
     (case str of
        [] \<Rightarrow> Invalid
      | c # _ \<Rightarrow> (let c = c_tolower c
                  in if c = CHR ''d'' then Days else if c = CHR ''w'' then Weeks
                     else if c = CHR ''m'' then Months else if c = CHR ''y'' then Years else Invalid))"

definition date_interval_of_text :: "string \<Rightarrow> DateInterval" where
  "date_interval_of_text str =
     (let words = split_words str
      in if length words = 2 then \<lparr> di_number = sint (stoi (words ! 0)), di_unit = get_unit (words ! 1) \<rparr>
         else \<lparr> di_number = 0, di_unit = Invalid \<rparr>)"

definition date_interval_str :: "DateInterval \<Rightarrow> string" where
  "date_interval_str di =
     (let s = itos (word_of_int (di_number di)) @ '' ''
      in case di_unit di of
           Days \<Rightarrow> s @ (if di_number di = 1 then ''day'' else ''days'')
         | Weeks \<Rightarrow> s @ (if di_number di = 1 then ''week'' else ''weeks'')
         | Months \<Rightarrow> s @ (if di_number di = 1 then ''month'' else ''months'')
         | Years \<Rightarrow> s @ (if di_number di = 1 then ''years'' else ''years'')
         | Invalid \<Rightarrow> ''INVALID'')"

definition add_to :: "DateInterval \<Rightarrow> Split \<Rightarrow> Split" where
  "add_to di sp =
     normalise (case di_unit di of
        Days \<Rightarrow> sp \<lparr> sp_day := sp_day sp + di_number di \<rparr>
      | Weeks \<Rightarrow> sp \<lparr> sp_day := sp_day sp + 7 * di_number di \<rparr>
      | Months \<Rightarrow> sp \<lparr> sp_month := sp_month sp + di_number di \<rparr>
      | Years \<Rightarrow> sp \<lparr> sp_year := sp_year sp + di_number di \<rparr>
      | Invalid \<Rightarrow> sp)"

definition subtract_from :: "DateInterval \<Rightarrow> Split \<Rightarrow> Split" where
  "subtract_from di sp =
     normalise (case di_unit di of
        Days \<Rightarrow> sp \<lparr> sp_day := sp_day sp - di_number di \<rparr>
      | Weeks \<Rightarrow> sp \<lparr> sp_day := sp_day sp - 7 * di_number di \<rparr>
      | Months \<Rightarrow> sp \<lparr> sp_month := sp_month sp - di_number di \<rparr>
      | Years \<Rightarrow> sp \<lparr> sp_year := sp_year sp - di_number di \<rparr>
      | Invalid \<Rightarrow> sp)"

definition date_stamp_add :: "u64 \<Rightarrow> DateInterval \<Rightarrow> u64" where
  "date_stamp_add t di = combine (add_to di (stamp_split t))"

definition date_stamp_sub :: "u64 \<Rightarrow> DateInterval \<Rightarrow> u64" where
  "date_stamp_sub t di = combine (subtract_from di (stamp_split t))"

section \<open>Days are added exactly\<close>

lemma normalise_time_id:
  assumes "0 \<le> sp_sec sp" "sp_sec sp \<le> 59" "0 \<le> sp_min sp" "sp_min sp \<le> 59" "0 \<le> sp_hour sp" "sp_hour sp \<le> 23" "1 \<le> sp_month sp" "sp_month sp \<le> 12"
  shows "normalise_time sp = sp"
  using assms unfolding normalise_time_def
  by (simp add: borrow_secs.simps [of "sp_sec sp"] carry_secs.simps [of "sp_sec sp"] borrow.simps [of _ _ "sp_min sp"] carry.simps [of _ _ "sp_min sp"]
      borrow.simps [of _ _ "sp_hour sp"] carry.simps [of _ _ "sp_hour sp"] borrow.simps [of _ _ "sp_month sp"] carry.simps [of _ _ "sp_month sp"])

lemma day_offset_int: "0 \<le> n \<Longrightarrow> n < 49710 \<Longrightarrow> day_offset n = n * 86400"
proof -
  assume "0 \<le> n" "n < 49710"
  then have "uint (word_of_int n * 86400 :: u32) = n * 86400"
    by (simp add: uint_word_arith_bintrs(3) uint_word_of_int_eq take_bit_int_eq_self)
  then show ?thesis by (simp add: day_offset_def)
qed

lemma dates_differ:
  assumes "valid_date y m d" "well_estimated y m d" "valid_date y' m' d'" "well_estimated y' m' d'" "day_number y m d = day_number y' m' d'"
  shows "y = y' \<and> m = m' \<and> d = d'"
  using split_seconds_date [OF assms(1,2), of 0] split_seconds_date [OF assms(3,4), of 0] assms(5) by simp

lemma move_days:
  assumes "valid_split sp" "valid_split sp'" "sp_hour sp' = sp_hour sp" "sp_min sp' = sp_min sp" "sp_sec sp' = sp_sec sp"
    and "day_number (sp_year sp') (sp_month sp') (sp_day sp') = day_number (sp_year sp) (sp_month sp) (sp_day sp) + k"
  shows "combine sp + seconds_to_internal (k * 86400) = combine sp'"
proof -
  have "moment sp' = moment sp + k * 86400 * 2 ^ 20" unfolding moment_def assms(3-6) by (simp add: algebra_simps)
  then show ?thesis
    unfolding combine_moment [OF assms(1)] combine_moment [OF assms(2)] seconds_to_internal_def by simp
qed

lemma day_number_day: "day_number y m d = day_number y m 1 + (d - 1)"
  by (simp add: day_number_def)

lemma normalise_date:
  assumes "0 \<le> sp_sec sp" "sp_sec sp \<le> 59" "0 \<le> sp_min sp" "sp_min sp \<le> 59" "0 \<le> sp_hour sp" "sp_hour sp \<le> 23"
    and "1 \<le> sp_month sp" "sp_month sp \<le> 12" "1900 \<le> sp_year sp" "sp_year sp < 2100" "- 49700 < sp_day sp" "sp_day sp < 49700"
    and "rat_of_int \<lfloor>sp_sec sp * 2 ^ 20\<rfloor> = sp_sec sp * 2 ^ 20"
    and date: "valid_date y m d" "well_estimated y m d" "day_number y m d = day_number (sp_year sp) (sp_month sp) (sp_day sp)"
  shows "normalise sp = sp \<lparr> sp_year := y, sp_month := m, sp_day := d \<rparr>"
proof -
  let ?sp' = "sp \<lparr> sp_year := y, sp_month := m, sp_day := d \<rparr>" and ?sp1 = "sp \<lparr> sp_day := 1 \<rparr>"
  note id = normalise_time_id [OF assms(1-8)]
  have v: "valid_split ?sp1" "valid_split ?sp'"
    using assms month_length_bounds(1) [of "sp_year sp" "sp_month sp"] by (auto simp: valid_split_def valid_date_def)
  have found: "stamp_split (combine ?sp') = ?sp'"
    using v(2) date(2) assms(13) by (intro split_of_combine) (auto simp: well_estimated_def)
  have dn: "day_number y m d = day_number (sp_year sp) (sp_month sp) 1 + (sp_day sp - 1)" using date(3) day_number_day by metis
  have moved: "combine ?sp1 + seconds_to_internal ((sp_day sp - 1) * 86400) = combine ?sp'"
    using dn by (intro move_days [OF v]) simp_all
  consider "sp_day sp < 1" | "sp_day sp > 28" | "1 \<le> sp_day sp" "sp_day sp \<le> 28" by linarith
  then show ?thesis
  proof cases
    case 1
    have "seconds_to_internal ((sp_day sp - 1) * 86400) = - seconds_to_internal ((1 - sp_day sp) * 86400)"
      by (simp add: seconds_to_internal_def algebra_simps)
    then have "stamp_sub (combine ?sp1) ((1 - sp_day sp) * 86400) = combine ?sp'" using moved by (simp add: stamp_sub_def)
    with 1 found assms(11) show ?thesis unfolding normalise_def id by (simp add: day_offset_int)
  next
    case 2
    with moved found assms(12) show ?thesis unfolding normalise_def id by (simp add: day_offset_int stamp_add_def)
  next
    case 3
    then have "valid_date (sp_year sp) (sp_month sp) (sp_day sp)" "well_estimated (sp_year sp) (sp_month sp) (sp_day sp)"
      using assms(7-10) month_length_bounds(1) [of "sp_year sp" "sp_month sp"] by (auto simp: valid_date_def well_estimated_def)
    with date have "y = sp_year sp \<and> m = sp_month sp \<and> d = sp_day sp" by (intro dates_differ) auto
    with 3 show ?thesis unfolding normalise_def id by simp
  qed
qed



text \<open>Seconds between 59 and 60 come out negative: the carry leaves them below zero after the borrowing is done.\<close>

lemma normalise_fractional_second:
  "normalise \<lparr> sp_year = 2024, sp_month = 2, sp_day = 28, sp_hour = 1, sp_min = 2, sp_sec = 119 / 2 \<rparr>
     = \<lparr> sp_year = 2024, sp_month = 2, sp_day = 28, sp_hour = 1, sp_min = 3, sp_sec = - (1 / 2) \<rparr>"
  by (simp add: normalise_def normalise_time_def borrow_secs.simps carry_secs.simps borrow.simps carry.simps)

text \<open>A missing minute is accepted although the text is not to be read leniently.\<close>

lemma missing_minutes_accepted:
  "read_iso atof ''2020-01-01T10'' False =
     Some (split_default \<lparr> sp_year := 2020, sp_month := 1, sp_day := 1, sp_hour := 10 \<rparr>, 0)"
  by (simp add: read_iso_def read_part_def read_filler_def read_timezone_def read_time_def NO_DATA_def BAD_DATA_def
      atoi_def strtol_def scan_signed_def scan_magnitude_def scan_prefix_10 digit_value_def ctype_defs Let_def)

section \<open>Stamps are read back as written\<close>

text \<open>Two characters that are digits, and the number they read as.\<close>

definition reads2 :: "char \<Rightarrow> char \<Rightarrow> int \<Rightarrow> bool" where
  "reads2 a b n \<longleftrightarrow> isdigit a \<and> isdigit b \<and> sint (atoi [a, b]) = n \<and> 0 \<le> n"

lemma digit_not:
  "isdigit c \<Longrightarrow> c \<noteq> CHR ''-''" "isdigit c \<Longrightarrow> c \<noteq> CHR '':''" "isdigit c \<Longrightarrow> c \<noteq> CHR ''T''" "isdigit c \<Longrightarrow> c \<noteq> CHR '' ''"
  "isdigit c \<Longrightarrow> c \<noteq> CHR ''+''" "isdigit c \<Longrightarrow> c \<noteq> CHR ''Z''" "isdigit c \<Longrightarrow> c \<noteq> CHR ''.''"
  by (auto simp: ctype_defs)

lemmas iso_reader = read_iso_def read_part_def read_part_f_def read_filler_def read_timezone_def read_time_def read_seconds_def
  NO_DATA_def BAD_DATA_def

lemma read_iso_full:
  assumes "isdigit a" "isdigit b" "sint (atoi [a, b, c, d]) = y" "1900 \<le> y" "isdigit c" "isdigit d"
    and "reads2 m1 m2 m" "reads2 d1 d2 dd" "reads2 h1 h2 h" "reads2 i1 i2 i" "isdigit s1" "isdigit s2" "atof [s1, s2] = s" "0 \<le> s"
  shows "read_iso atof [a, b, c, d, CHR ''-'', m1, m2, CHR ''-'', d1, d2, CHR ''T'', h1, h2, CHR '':'', i1, i2, CHR '':'', s1, s2, CHR ''Z''] lenient
    = Some (\<lparr> sp_year = y, sp_month = m, sp_day = dd, sp_hour = h, sp_min = i, sp_sec = s \<rparr>, 0)"
  using assms digit_not unfolding reads2_def
  by (simp add: iso_reader split_default_def Let_def)

lemma read_iso_compact:
  assumes "isdigit a" "isdigit b" "sint (atoi [a, b, c, d]) = y" "1900 \<le> y" "isdigit c" "isdigit d"
    and "reads2 m1 m2 m" "reads2 d1 d2 dd" "reads2 h1 h2 h" "reads2 i1 i2 i" "isdigit s1" "isdigit s2" "atof [s1, s2] = s" "0 \<le> s"
  shows "read_iso atof [a, b, c, d, m1, m2, d1, d2, CHR ''T'', h1, h2, i1, i2, s1, s2] lenient
      = Some (\<lparr> sp_year = y, sp_month = m, sp_day = dd, sp_hour = h, sp_min = i, sp_sec = s \<rparr>, 0)"
    "read_iso atof [a, b, c, d, m1, m2, d1, d2, h1, h2, i1, i2, s1, s2] True
      = Some (\<lparr> sp_year = y, sp_month = m, sp_day = dd, sp_hour = h, sp_min = i, sp_sec = s \<rparr>, 0)"
  using assms digit_not unfolding reads2_def
  by (simp_all add: iso_reader split_default_def Let_def)

lemma digit_isdigit: "d < 10 \<Longrightarrow> isdigit (digit_char d)"
  by (simp add: ctype_defs of_char_digit)

lemma atoi_digits:
  assumes "d < 10" "list_all (\<lambda>d. d < 10) ds"
  shows "strtol (map digit_char (d # ds)) = min (int (scan_digits 10 0 (map digit_char (d # ds)))) (2 ^ 63 - 1)"
  using assms digit_char_class [of d] by (simp add: strtol_def scan_signed_def scan_magnitude_def scan_prefix_10)

lemma small_sint: "0 \<le> n \<Longrightarrow> n < 2 ^ 31 \<Longrightarrow> sint (word_of_int n :: u32) = n"
  by (simp add: sint_sbintrunc' signed_take_bit_int_eq_self)

lemma setw2_two:
  assumes "0 \<le> n" "n < 100"
  obtains a b where "setw2 n = [a, b]" "reads2 a b n"
proof -
  define q r where "q = nat n div 10" and "r = nat n mod 10"
  have qr: "q < 10" "r < 10" "n = int (10 * q + r)" using assms by (auto simp: q_def r_def)
  have "sint (word_of_int n :: u32) = n" using assms by (simp add: small_sint)
  then have it: "itos (word_of_int n) = print_digits 10 (nat n)" using assms by (simp add: itos_def)
  have "digit_char 0 = CHR ''0''" by (simp add: digit_char_def)
  then have "setw2 n = [digit_char q, digit_char r]"
    unfolding setw2_def it using assms(2) by (cases "nat n < 10") (auto simp: q_def r_def numeral_2_eq_2 print_digits.simps [of 10 "nat n"] print_digits.simps [of 10 "nat n div 10"] Let_def)
  moreover have "strtol [digit_char q, digit_char r] = n"
    using atoi_digits [of q "[r]"] qr by (simp add: digit_value_char min_def)
  then have "reads2 (digit_char q) (digit_char r) n"
    using qr(1,2) assms small_sint [of n] by (simp add: reads2_def digit_isdigit atoi_def)
  ultimately show thesis using that by blast
qed

lemma setw2_four:
  assumes "1900 \<le> n" "n < 2100"
  obtains a b c d where "setw2 n = [a, b, c, d]" "isdigit a" "isdigit b" "isdigit c" "isdigit d" "sint (atoi [a, b, c, d]) = n"
proof -
  define k where "k = nat n"
  let ?ds = "[k div 1000, k div 100 mod 10, k div 10 mod 10, k mod 10]"
  have k: "1900 \<le> k" "k < 2100" "n = int k" using assms by (auto simp: k_def)
  have d: "k div 1000 < 10" "k div 1000 \<noteq> 0" using k by auto
  have it: "itos (word_of_int n) = print_digits 10 k" using assms by (simp add: itos_def small_sint k_def)
  have "print_digits 10 (k div 1000) = [digit_char (k div 1000)]" using d(1) by (simp add: print_digits.simps [of 10 "k div 1000"])
  then have "print_digits 10 (k div 100) = [digit_char (k div 1000), digit_char (k div 100 mod 10)]"
    using k by (simp add: print_digits.simps [of 10 "k div 100"] div_mult2_eq [symmetric])
  then have "print_digits 10 (k div 10) = [digit_char (k div 1000), digit_char (k div 100 mod 10), digit_char (k div 10 mod 10)]"
    using k by (simp add: print_digits.simps [of 10 "k div 10"] div_mult2_eq [symmetric])
  then have p: "print_digits 10 k = map digit_char ?ds"
    using k by (simp add: print_digits.simps [of 10 k])
  have "strtol (print_digits 10 k) = n"
    unfolding strtol_def scan_signed_print [OF disjI1 [OF refl]] using k by (simp add: min_def)
  then have "sint (atoi (map digit_char ?ds)) = n" using assms unfolding p by (simp add: atoi_def small_sint)
  moreover have "setw2 n = map digit_char ?ds" unfolding setw2_def it p by simp
  ultimately show thesis
    using that [of "digit_char (k div 1000)" "digit_char (k div 100 mod 10)" "digit_char (k div 10 mod 10)" "digit_char (k mod 10)"] d
    by (simp add: digit_isdigit)
qed



end
