(* ===== verification/Gather.thy ===== *)
theory Gather
  imports Readers
begin

text \<open>
  The multi-segment gather buffer of libs/gather: \<^verbatim>\<open>Segment\<close> (segment.cc), \<^verbatim>\<open>Buffer\<close> (buffer.cc) and its
  inline parts in ot-gather.h. A buffer holds segments that point into memory it may own or only
  refer to, so memory is an explicit store of allocated blocks: \<^verbatim>\<open>new[]\<close> adds a block, \<^verbatim>\<open>delete[]\<close>
  removes it, and a pointer is a block and an offset in it. The used slots of the segment array are a
  list, whose length is the code's \<^verbatim>\<open>count\<close>; \<open>None\<close> stands for \<^verbatim>\<open>abort()\<close>. Under the invariant
  \<open>buffer_ok\<close> every operation is shown to act on the concatenated bytes as its comment in the header
  file says.
\<close>

section \<open>Memory\<close>

type_synonym ptr = "nat \<times> nat"

record heap =
  h_blocks :: "nat \<Rightarrow> byte list option"
  h_next :: nat

definition null_ptr :: ptr where
  "null_ptr = (0, 0)"

definition ptr_plus :: "ptr \<Rightarrow> nat \<Rightarrow> ptr" where
  "ptr_plus p n = (fst p, snd p + n)"

definition empty_heap :: heap where
  "empty_heap = \<lparr> h_blocks = (\<lambda>_. None), h_next = 1 \<rparr>"

definition mem_new :: "byte list \<Rightarrow> heap \<Rightarrow> nat \<times> heap" where
  "mem_new contents h = (h_next h, \<lparr> h_blocks = (h_blocks h)(h_next h := Some contents), h_next = h_next h + 1 \<rparr>)"

definition mem_delete :: "nat \<Rightarrow> heap \<Rightarrow> heap" where
  "mem_delete b h = h \<lparr> h_blocks := (h_blocks h)(b := None) \<rparr>"

definition mem_read :: "heap \<Rightarrow> ptr \<Rightarrow> nat \<Rightarrow> byte list" where
  "mem_read h p n = (case h_blocks h (fst p) of None \<Rightarrow> [] | Some bs \<Rightarrow> take n (drop (snd p) bs))"

definition mem_write :: "ptr \<Rightarrow> byte list \<Rightarrow> heap \<Rightarrow> heap" where
  "mem_write p ds h = (case h_blocks h (fst p) of
       None \<Rightarrow> h
     | Some bs \<Rightarrow> h \<lparr> h_blocks := (h_blocks h)(fst p := Some (take (snd p) bs @ ds @ drop (snd p + length ds) bs)) \<rparr>)"

section \<open>Segments\<close>

record Segment =
  owned_data :: "nat option"
  seg_data :: ptr
  seg_length :: nat

definition Segment_default :: Segment where
  "Segment_default = \<lparr> owned_data = None, seg_data = null_ptr, seg_length = 0 \<rparr>"

definition Segment_external :: "ptr \<Rightarrow> nat \<Rightarrow> Segment" where
  "Segment_external d n = \<lparr> owned_data = None, seg_data = d, seg_length = n \<rparr>"

text \<open>A new block has indeterminate contents, given here as \<open>raw\<close>.\<close>

definition Segment_allocated :: "byte list \<Rightarrow> heap \<Rightarrow> Segment \<times> heap" where
  "Segment_allocated raw h =
     (let (b, h') = mem_new raw h in (\<lparr> owned_data = Some b, seg_data = (b, 0), seg_length = length raw \<rparr>, h'))"

definition Segment_consume :: "nat \<Rightarrow> Segment \<Rightarrow> Segment" where
  "Segment_consume n s = s \<lparr> seg_data := ptr_plus (seg_data s) n, seg_length := seg_length s - n \<rparr>"

definition delete_owned :: "Segment \<Rightarrow> heap \<Rightarrow> heap" where
  "delete_owned s h = (case owned_data s of None \<Rightarrow> h | Some b \<Rightarrow> mem_delete b h)"

definition Segment_reset :: "nat \<Rightarrow> Segment \<Rightarrow> heap \<Rightarrow> Segment \<times> heap" where
  "Segment_reset n s h =
     (if n = 0 then (s \<lparr> seg_length := n, owned_data := None, seg_data := null_ptr \<rparr>, delete_owned s h)
      else (s \<lparr> seg_length := n \<rparr>, h))"

definition Segment_destroy :: "Segment \<Rightarrow> heap \<Rightarrow> Segment \<times> heap" where
  "Segment_destroy s h = (s \<lparr> owned_data := None \<rparr>, delete_owned s h)"

text \<open>\<open>Segment_take\<close> returns what the taking segment becomes and what is left of the other.\<close>

definition Segment_take :: "Segment \<Rightarrow> Segment \<times> Segment" where
  "Segment_take s = (s, s \<lparr> owned_data := None \<rparr>)"

text \<open>
  The deep copy into a fresh segment, the only kind it is called on. It reads from \<^verbatim>\<open>owned_data\<close>, the start of
  the block, and not from \<^verbatim>\<open>data\<close>.
\<close>

definition Segment_copy :: "Segment \<Rightarrow> heap \<Rightarrow> Segment \<times> heap" where
  "Segment_copy s h =
     (case owned_data s of
        Some b \<Rightarrow> Segment_allocated (mem_read h (b, 0) (seg_length s)) h
      | None \<Rightarrow> (\<lparr> owned_data = None, seg_data = seg_data s, seg_length = seg_length s \<rparr>, h))"

section \<open>The buffer\<close>

record Buffer =
  buf_size :: nat
  segments :: "Segment list"

definition Buffer_new :: "nat \<Rightarrow> Buffer" where
  "Buffer_new sz = \<lparr> buf_size = sz, segments = [] \<rparr>"

definition get_length :: "Buffer \<Rightarrow> nat" where
  "get_length b = sum_list (map seg_length (segments b))"

definition Buffer_resize :: "nat \<Rightarrow> Buffer \<Rightarrow> Buffer option" where
  "Buffer_resize new_size b = (if new_size < length (segments b) then None else Some (b \<lparr> buf_size := new_size \<rparr>))"

definition extend_if_full :: "Buffer \<Rightarrow> Buffer option" where
  "extend_if_full b =
     (if length (segments b) \<ge> buf_size b then Buffer_resize (if buf_size b \<noteq> 0 then buf_size b * 2 else 1) b else Some b)"

definition Buffer_add :: "Segment \<Rightarrow> Buffer \<Rightarrow> Buffer option" where
  "Buffer_add seg b =
     (case extend_if_full b of None \<Rightarrow> None
      | Some b' \<Rightarrow> Some (b' \<lparr> segments := segments b' @ [fst (Segment_take seg)] \<rparr>))"

definition Buffer_add_external :: "ptr \<Rightarrow> nat \<Rightarrow> Buffer \<Rightarrow> Buffer option" where
  "Buffer_add_external d n b = Buffer_add (Segment_external d n) b"

definition Buffer_add_allocated :: "byte list \<Rightarrow> Buffer \<Rightarrow> heap \<Rightarrow> (Buffer \<times> heap) option" where
  "Buffer_add_allocated raw b h =
     (let (seg, h') = Segment_allocated raw h in map_option (\<lambda>b'. (b', h')) (Buffer_add seg b))"

fun add_copies :: "Segment list \<Rightarrow> Buffer \<Rightarrow> heap \<Rightarrow> (Buffer \<times> heap) option" where
  "add_copies [] b h = Some (b, h)"
| "add_copies (s # ss) b h =
     (let (seg, h') = Segment_copy s h
      in case Buffer_add seg b of None \<Rightarrow> None | Some b' \<Rightarrow> add_copies ss b' h')"

definition Buffer_add_buffer :: "Buffer \<Rightarrow> Buffer \<Rightarrow> heap \<Rightarrow> (Buffer \<times> heap) option" where
  "Buffer_add_buffer other b h = add_copies (segments other) b h"

text \<open>The loop that shifts the slots up from \<open>i\<close> to \<open>pos\<close>; slot \<open>count\<close> has just come into use.\<close>

fun shift_up :: "nat \<Rightarrow> nat \<Rightarrow> Segment list \<Rightarrow> Segment list" where
  "shift_up i pos segs =
     (if i > pos
      then let (taken, left) = Segment_take (segs ! (i - 1))
           in shift_up (i - 1) pos (segs[i := taken, i - 1 := left])
      else segs)"

declare shift_up.simps [simp del]

definition Buffer_insert :: "Segment \<Rightarrow> nat \<Rightarrow> Buffer \<Rightarrow> Buffer option" where
  "Buffer_insert seg pos b =
     (case extend_if_full b of None \<Rightarrow> None
      | Some b' \<Rightarrow>
          let count = length (segments b')
          in if pos > count then None
             else Some (b' \<lparr> segments := (shift_up count pos (segments b' @ [Segment_default]))[pos := fst (Segment_take seg)] \<rparr>))"

definition Buffer_insert_external :: "ptr \<Rightarrow> nat \<Rightarrow> nat \<Rightarrow> Buffer \<Rightarrow> Buffer option" where
  "Buffer_insert_external d n pos b = Buffer_insert (Segment_external d n) pos b"

definition Buffer_insert_allocated :: "byte list \<Rightarrow> nat \<Rightarrow> Buffer \<Rightarrow> heap \<Rightarrow> (Buffer \<times> heap) option" where
  "Buffer_insert_allocated raw pos b h =
     (let (seg, h') = Segment_allocated raw h in map_option (\<lambda>b'. (b', h')) (Buffer_insert seg pos b))"

text \<open>\<^verbatim>\<open>copy\<close>: the bytes written to \<^verbatim>\<open>data\<close>, whose number is the result.\<close>

fun copy_loop :: "heap \<Rightarrow> nat \<Rightarrow> nat \<Rightarrow> nat \<Rightarrow> byte list \<Rightarrow> Segment list \<Rightarrow> byte list" where
  "copy_loop h offset len gather_offset got [] = got"
| "copy_loop h offset len gather_offset got (segment # ss) =
     (if offset < gather_offset + seg_length segment
      then let start = (if gather_offset > offset then 0 else offset - gather_offset);
               to_read = min (len - length got) (seg_length segment - start);
               got' = got @ mem_read h (ptr_plus (seg_data segment) start) to_read
           in if length got' \<ge> len then got'
              else copy_loop h offset len (gather_offset + seg_length segment) got' ss
      else copy_loop h offset len (gather_offset + seg_length segment) got ss)"

definition Buffer_copy :: "heap \<Rightarrow> Buffer \<Rightarrow> nat \<Rightarrow> nat \<Rightarrow> byte list" where
  "Buffer_copy h b offset len = copy_loop h offset len 0 [] (segments b)"

text \<open>\<^verbatim>\<open>fill\<close>: the iovec entries written and the result.\<close>

fun fill_loop :: "nat \<Rightarrow> (ptr \<times> nat) list \<Rightarrow> Segment list \<Rightarrow> (ptr \<times> nat) list \<times> nat" where
  "fill_loop sz iov [] = (iov, length iov)"
| "fill_loop sz iov (seg # ss) =
     (if seg_length seg \<noteq> 0
      then if length iov \<ge> sz then (iov, sz + 1)
           else fill_loop sz (iov @ [(seg_data seg, seg_length seg)]) ss
      else fill_loop sz iov ss)"

definition Buffer_fill :: "nat \<Rightarrow> Buffer \<Rightarrow> (ptr \<times> nat) list \<times> nat" where
  "Buffer_fill sz b = fill_loop sz [] (segments b)"

fun destroy_all :: "Segment list \<Rightarrow> heap \<Rightarrow> heap" where
  "destroy_all [] h = h"
| "destroy_all (s # ss) h = destroy_all ss (snd (Segment_destroy s h))"

definition Buffer_reset :: "Buffer \<Rightarrow> heap \<Rightarrow> Buffer \<times> heap" where
  "Buffer_reset b h = (b \<lparr> segments := [] \<rparr>, destroy_all (segments b) h)"

text \<open>\<^verbatim>\<open>limit\<close>: the segments kept and those after the one that passes the limit, with the total.\<close>

fun limit_loop :: "nat \<Rightarrow> nat \<Rightarrow> Segment list \<Rightarrow> Segment list \<times> Segment list \<times> nat" where
  "limit_loop len tot [] = ([], [], tot)"
| "limit_loop len tot (s # ss) =
     (let tot = tot + seg_length s
      in if tot \<ge> len then ([s \<lparr> seg_length := seg_length s - (tot - len) \<rparr>], ss, len)
         else let (kept, rest, t) = limit_loop len tot ss in (s # kept, rest, t))"

definition Buffer_limit :: "nat \<Rightarrow> Buffer \<Rightarrow> heap \<Rightarrow> nat \<times> Buffer \<times> heap" where
  "Buffer_limit len b h =
     (let (kept, rest, tot) = limit_loop len 0 (segments b)
      in (tot, b \<lparr> segments := kept \<rparr>, destroy_all rest h))"

fun consume_loop :: "nat \<Rightarrow> Segment list \<Rightarrow> heap \<Rightarrow> Segment list \<times> heap" where
  "consume_loop n [] h = ([], h)"
| "consume_loop n (seg # ss) h =
     (if seg_length seg = 0 then let (ss', h') = consume_loop n ss h in (seg # ss', h')
      else if seg_length seg > n then (Segment_consume n seg # ss, h)
      else let (seg', h1) = Segment_reset 0 seg h;
               (ss', h2) = consume_loop (n - seg_length seg) ss h1
           in (seg' # ss', h2))"

definition Buffer_consume :: "nat \<Rightarrow> Buffer \<Rightarrow> heap \<Rightarrow> Buffer \<times> heap" where
  "Buffer_consume n b h = (let (segs, h') = consume_loop n (segments b) h in (b \<lparr> segments := segs \<rparr>, h'))"

text \<open>\<^verbatim>\<open>tidy\<close>: the queue of free slots, oldest first.\<close>

function tidy_loop :: "nat \<Rightarrow> nat list \<Rightarrow> nat \<Rightarrow> Segment list \<Rightarrow> nat \<times> Segment list" where
  "tidy_loop i free new_count segs =
     (if i < length segs
      then if seg_length (segs ! i) \<noteq> 0
           then case free of
                  first_free # others \<Rightarrow>
                    let (taken, left) = Segment_take (segs ! i)
                    in tidy_loop (i + 1) (others @ [i]) (new_count + 1)
                         (segs[first_free := taken, i := Segment_consume (seg_length left) left])
                | [] \<Rightarrow> tidy_loop (i + 1) [] (new_count + 1) segs
           else tidy_loop (i + 1) (free @ [i]) new_count segs
      else (new_count, segs))"
  by pat_completeness auto
termination by (relation "measure (\<lambda>(i, _, _, segs). length segs - i)") auto

declare tidy_loop.simps [simp del]

definition Buffer_tidy :: "Buffer \<Rightarrow> Buffer" where
  "Buffer_tidy b = (let (new_count, segs) = tidy_loop 0 [] 0 (segments b) in b \<lparr> segments := take new_count segs \<rparr>)"

fun add_run_loop :: "nat \<Rightarrow> nat \<Rightarrow> nat \<Rightarrow> nat \<Rightarrow> Segment list \<Rightarrow> Buffer \<Rightarrow> Buffer option" where
  "add_run_loop offset len gather_offset data_read [] b = Some b"
| "add_run_loop offset len gather_offset data_read (segment # ss) b =
     (if offset < gather_offset + seg_length segment
      then let start = (if gather_offset > offset then 0 else offset - gather_offset);
               to_read = min (len - data_read) (seg_length segment - start)
           in case Buffer_add_external (ptr_plus (seg_data segment) start) to_read b of
                None \<Rightarrow> None
              | Some b' \<Rightarrow>
                  if data_read + to_read \<ge> len then Some b'
                  else add_run_loop offset len (gather_offset + seg_length segment) (data_read + to_read) ss b'
      else add_run_loop offset len (gather_offset + seg_length segment) data_read ss b)"

definition Buffer_add_run :: "Buffer \<Rightarrow> nat \<Rightarrow> nat \<Rightarrow> Buffer \<Rightarrow> Buffer option" where
  "Buffer_add_run other offset len b = add_run_loop offset len 0 0 (segments other) b"

text \<open>
  A flat block is a pointer into a segment or the caller's buffer with what was copied there. The
  sum of the offset and the length wraps at 64 bits.
\<close>

datatype flat = In_segment ptr | In_temp "byte list"

definition add_length :: "nat \<Rightarrow> nat \<Rightarrow> nat" where
  "add_length m n = (m + n) mod 2 ^ 64"

fun flatten_more :: "heap \<Rightarrow> nat \<Rightarrow> byte list \<Rightarrow> Segment list \<Rightarrow> flat option" where
  "flatten_more h len temp [] = (if length temp < len then None else Some (In_temp temp))"
| "flatten_more h len temp (seg2 # ss) =
     (if length temp < len
      then let needed = min (len - length temp) (seg_length seg2)
           in flatten_more h len (temp @ mem_read h (seg_data seg2) needed) ss
      else Some (In_temp temp))"

fun get_flat_data_multi :: "heap \<Rightarrow> nat \<Rightarrow> nat \<Rightarrow> Segment list \<Rightarrow> flat option" where
  "get_flat_data_multi h offset len [] = None"
| "get_flat_data_multi h offset len (seg # ss) =
     (let slen = seg_length seg
      in if offset < slen
         then if add_length offset len < slen then Some (In_segment (ptr_plus (seg_data seg) offset))
              else flatten_more h len (mem_read h (ptr_plus (seg_data seg) offset) (slen - offset)) ss
         else get_flat_data_multi h (offset - slen) len ss)"

definition get_flat_data :: "heap \<Rightarrow> Buffer \<Rightarrow> nat \<Rightarrow> nat \<Rightarrow> flat option" where
  "get_flat_data h b offset len =
     (case segments b of
        [seg] \<Rightarrow> if add_length offset len > seg_length seg then None else Some (In_segment (ptr_plus (seg_data seg) offset))
      | _ \<Rightarrow> get_flat_data_multi h offset len (segments b))"

definition flat_bytes :: "heap \<Rightarrow> nat \<Rightarrow> flat \<Rightarrow> byte list" where
  "flat_bytes h len f = (case f of In_segment p \<Rightarrow> mem_read h p len | In_temp bs \<Rightarrow> take len bs)"

fun replace_more :: "byte list \<Rightarrow> nat \<Rightarrow> Segment list \<Rightarrow> heap \<Rightarrow> heap" where
  "replace_more buf copied [] h = h"
| "replace_more buf copied (seg2 # ss) h =
     (if copied < length buf
      then let needed = min (length buf - copied) (seg_length seg2)
           in replace_more buf (copied + needed) ss (mem_write (seg_data seg2) (take needed (drop copied buf)) h)
      else h)"

fun replace_loop :: "nat \<Rightarrow> byte list \<Rightarrow> Segment list \<Rightarrow> heap \<Rightarrow> heap" where
  "replace_loop offset buf [] h = h"
| "replace_loop offset buf (seg # ss) h =
     (let slen = seg_length seg
      in if offset < slen
         then if add_length offset (length buf) < slen then mem_write (ptr_plus (seg_data seg) offset) buf h
              else let copied = slen - offset
                   in replace_more buf copied ss (mem_write (ptr_plus (seg_data seg) offset) (take copied buf) h)
         else replace_loop (offset - slen) buf ss h)"

definition Buffer_replace :: "nat \<Rightarrow> byte list \<Rightarrow> Buffer \<Rightarrow> heap \<Rightarrow> heap" where
  "Buffer_replace offset buf b h = replace_loop offset buf (segments b) h"

section \<open>The invariant and the bytes of a buffer\<close>

definition seg_bytes :: "heap \<Rightarrow> Segment \<Rightarrow> byte list" where
  "seg_bytes h s = mem_read h (seg_data s) (seg_length s)"

definition segs_bytes :: "heap \<Rightarrow> Segment list \<Rightarrow> byte list" where
  "segs_bytes h segs = concat (map (seg_bytes h) segs)"

text \<open>The bytes a buffer holds are those of its segments in order.\<close>

definition buf_bytes :: "heap \<Rightarrow> Buffer \<Rightarrow> byte list" where
  "buf_bytes h b = segs_bytes h (segments b)"

text \<open>A segment points into an allocated block, its own when it owns one.\<close>

definition seg_ok :: "heap \<Rightarrow> Segment \<Rightarrow> bool" where
  "seg_ok h s \<longleftrightarrow>
     (case owned_data s of None \<Rightarrow> True | Some b \<Rightarrow> fst (seg_data s) = b \<and> h_blocks h b \<noteq> None)
     \<and> (seg_length s = 0 \<or>
        (case h_blocks h (fst (seg_data s)) of None \<Rightarrow> False | Some bs \<Rightarrow> snd (seg_data s) + seg_length s \<le> length bs))"

text \<open>The block a segment uses: that it owns, or that its data lies in.\<close>

definition footprint :: "Segment \<Rightarrow> nat list" where
  "footprint s = (case owned_data s of Some b \<Rightarrow> [b] | None \<Rightarrow> if seg_length s = 0 then [] else [fst (seg_data s)])"

definition footprints :: "Segment list \<Rightarrow> nat list" where
  "footprints segs = concat (map footprint segs)"

definition segs_ok :: "heap \<Rightarrow> Segment list \<Rightarrow> bool" where
  "segs_ok h segs \<longleftrightarrow> list_all (seg_ok h) segs \<and> distinct (footprints segs)"

definition heap_ok :: "heap \<Rightarrow> bool" where
  "heap_ok h \<longleftrightarrow> (\<forall>b \<ge> h_next h. h_blocks h b = None)"

definition buffer_ok :: "heap \<Rightarrow> Buffer \<Rightarrow> bool" where
  "buffer_ok h b \<longleftrightarrow> heap_ok h \<and> length (segments b) \<le> buf_size b \<and> segs_ok h (segments b)"

lemma segs_bytes_simps [simp]:
  "segs_bytes h [] = []" "segs_bytes h (s # ss) = seg_bytes h s @ segs_bytes h ss"
  "segs_bytes h (ss @ ts) = segs_bytes h ss @ segs_bytes h ts"
  by (simp_all add: segs_bytes_def)

lemma footprints_simps [simp]:
  "footprints [] = []" "footprints (s # ss) = footprint s @ footprints ss" "footprints (ss @ ts) = footprints ss @ footprints ts"
  by (simp_all add: footprints_def)

lemma segs_ok_simps [simp]:
  "segs_ok h []"
  "segs_ok h (s # ss) \<longleftrightarrow> seg_ok h s \<and> segs_ok h ss \<and> distinct (footprint s) \<and> set (footprint s) \<inter> set (footprints ss) = {}"
  by (auto simp: segs_ok_def)

lemma segs_ok_append:
  "segs_ok h (ss @ ts) \<longleftrightarrow> segs_ok h ss \<and> segs_ok h ts \<and> set (footprints ss) \<inter> set (footprints ts) = {}"
  by (auto simp: segs_ok_def)

lemma footprint_distinct [simp]: "distinct (footprint s)"
  by (simp add: footprint_def split: option.split)

lemma seg_bytes_length: "seg_ok h s \<Longrightarrow> length (seg_bytes h s) = seg_length s"
  by (auto simp: seg_bytes_def seg_ok_def mem_read_def split: option.splits)

lemma segs_bytes_length: "segs_ok h segs \<Longrightarrow> length (segs_bytes h segs) = sum_list (map seg_length segs)"
  by (induction segs) (simp_all add: seg_bytes_length)

text \<open>Reading part of a segment.\<close>

lemma mem_read_part: "m + n \<le> seg_length s \<Longrightarrow> mem_read h (ptr_plus (seg_data s) m) n = take n (drop m (seg_bytes h s))"
  by (auto simp: mem_read_def ptr_plus_def seg_bytes_def drop_take min_def add.commute split: option.split)

lemma mem_read_start: "n \<le> seg_length s \<Longrightarrow> mem_read h (seg_data s) n = take n (seg_bytes h s)"
  using mem_read_part [of 0 n s h] by (simp add: ptr_plus_def)

text \<open>Only the blocks in its footprint matter to a segment.\<close>

lemma seg_frame:
  assumes "seg_ok h s" "\<forall>b \<in> set (footprint s). h_blocks h' b = h_blocks h b"
  shows "seg_ok h' s" "seg_bytes h' s = seg_bytes h s"
proof -
  have "seg_ok h' s \<and> seg_bytes h' s = seg_bytes h s"
  proof (cases "owned_data s")
    case None
    with assms show ?thesis
      by (cases "seg_length s = 0")
        (auto simp: seg_ok_def footprint_def seg_bytes_def mem_read_def split: option.splits)
  next
    case (Some b)
    with assms show ?thesis by (auto simp: seg_ok_def footprint_def seg_bytes_def mem_read_def split: option.splits)
  qed
  then show "seg_ok h' s" "seg_bytes h' s = seg_bytes h s" by blast+
qed

lemma segs_frame:
  assumes "segs_ok h segs" "\<forall>b \<in> set (footprints segs). h_blocks h' b = h_blocks h b"
  shows "segs_ok h' segs" "segs_bytes h' segs = segs_bytes h segs"
proof -
  have "segs_ok h' segs \<and> segs_bytes h' segs = segs_bytes h segs"
    using assms by (induction segs) (auto intro: seg_frame)
  then show "segs_ok h' segs" "segs_bytes h' segs = segs_bytes h segs" by blast+
qed

lemma seg_ok_footprint: "seg_ok h s \<Longrightarrow> b \<in> set (footprint s) \<Longrightarrow> h_blocks h b \<noteq> None"
  by (auto simp: seg_ok_def footprint_def split: option.splits if_splits)

lemma segs_ok_footprints: "segs_ok h segs \<Longrightarrow> b \<in> set (footprints segs) \<Longrightarrow> h_blocks h b \<noteq> None"
  by (induction segs) (auto dest: seg_ok_footprint)

section \<open>Adding and inserting\<close>

lemma extend_if_full_ok:
  "length (segments b) \<le> buf_size b \<Longrightarrow>
   \<exists>b'. extend_if_full b = Some b' \<and> segments b' = segments b \<and> length (segments b') < buf_size b'"
  by (auto simp: extend_if_full_def Buffer_resize_def)

lemma Buffer_add_result:
  assumes "buffer_ok h b" "seg_ok h s" "set (footprint s) \<inter> set (footprints (segments b)) = {}"
  shows "\<exists>b'. Buffer_add s b = Some b' \<and> segments b' = segments b @ [s] \<and> buffer_ok h b' \<and> buf_bytes h b' = buf_bytes h b @ seg_bytes h s"
proof -
  obtain b' where b': "extend_if_full b = Some b'" "segments b' = segments b" "length (segments b') < buf_size b'"
    using extend_if_full_ok assms(1) unfolding buffer_ok_def by blast
  with assms show ?thesis
    by (auto simp: Buffer_add_def Segment_take_def buffer_ok_def buf_bytes_def segs_ok_append)
qed

lemma mem_new_ok:
  assumes "heap_ok h"
  shows "heap_ok (snd (mem_new c h))" "h_blocks (snd (mem_new c h)) (h_next h) = Some c" "h_blocks h (h_next h) = None"
    "b \<noteq> h_next h \<Longrightarrow> h_blocks (snd (mem_new c h)) b = h_blocks h b"
  using assms by (auto simp: mem_new_def heap_ok_def)

text \<open>A newly allocated segment is apart from every good segment and leaves those as they are.\<close>

lemma Segment_allocated_result:
  assumes "heap_ok h"
  shows "\<exists>s h'. Segment_allocated raw h = (s, h') \<and> heap_ok h' \<and> seg_ok h' s \<and> seg_bytes h' s = raw \<and> footprint s = [h_next h]
     \<and> (\<forall>segs. segs_ok h segs \<longrightarrow> segs_ok h' segs \<and> segs_bytes h' segs = segs_bytes h segs \<and> h_next h \<notin> set (footprints segs))"
proof -
  define s where "s = \<lparr> owned_data = Some (h_next h), seg_data = (h_next h, 0), seg_length = length raw \<rparr>"
  have "Segment_allocated raw h = (s, snd (mem_new raw h))"
    by (simp add: Segment_allocated_def mem_new_def s_def)
  moreover have "seg_ok (snd (mem_new raw h)) s" "seg_bytes (snd (mem_new raw h)) s = raw" "footprint s = [h_next h]"
    using mem_new_ok(2) [OF assms] by (simp_all add: s_def seg_ok_def seg_bytes_def mem_read_def footprint_def)
  moreover have "segs_ok (snd (mem_new raw h)) segs \<and> segs_bytes (snd (mem_new raw h)) segs = segs_bytes h segs \<and> h_next h \<notin> set (footprints segs)"
    if "segs_ok h segs" for segs
  proof -
    have "h_next h \<notin> set (footprints segs)" using segs_ok_footprints [OF that] mem_new_ok(3) [OF assms] by blast
    moreover from this have "\<forall>b \<in> set (footprints segs). h_blocks (snd (mem_new raw h)) b = h_blocks h b"
      using mem_new_ok(4) [OF assms] by metis
    ultimately show ?thesis using segs_frame [OF that] by blast
  qed
  ultimately show ?thesis using mem_new_ok(1) [OF assms] by blast
qed

lemma Buffer_add_allocated_result:
  assumes "buffer_ok h b"
  shows "\<exists>b' h'. Buffer_add_allocated raw b h = Some (b', h') \<and> buffer_ok h' b' \<and> buf_bytes h' b' = buf_bytes h b @ raw"
proof -
  obtain s h' where s: "Segment_allocated raw h = (s, h')" "heap_ok h'" "seg_ok h' s" "seg_bytes h' s = raw" "footprint s = [h_next h]"
      "segs_ok h' (segments b)" "segs_bytes h' (segments b) = segs_bytes h (segments b)" "h_next h \<notin> set (footprints (segments b))"
    using Segment_allocated_result assms unfolding buffer_ok_def by metis
  then have "buffer_ok h' b" using assms by (simp add: buffer_ok_def)
  from Buffer_add_result [OF this s(3)] s obtain b' where "Buffer_add s b = Some b'" "buffer_ok h' b'" "buf_bytes h' b' = buf_bytes h' b @ raw"
    by auto
  with s show ?thesis by (auto simp: Buffer_add_allocated_def buf_bytes_def)
qed

text \<open>The shifting loop makes a gap at \<open>pos\<close>.\<close>

lemma shift_up_gap:
  "pos \<le> i \<Longrightarrow> i < length segs \<Longrightarrow>
   (shift_up i pos segs)[pos := x] = take pos segs @ x # take (i - pos) (drop pos segs) @ drop (i + 1) segs"
proof (induction "i - pos" arbitrary: i segs)
  case 0
  then show ?case by (simp add: shift_up.simps upd_conv_take_nth_drop)
next
  case (Suc d)
  then obtain k where k: "i = Suc k" by (cases i) auto
  define segs' where "segs' = segs[i := segs ! k, k := (segs ! k) \<lparr> owned_data := None \<rparr>]"
  have "shift_up i pos segs = shift_up k pos segs'"
    using Suc.hyps(2) unfolding segs'_def k by (subst shift_up.simps) (auto simp: Segment_take_def)
  moreover have "(shift_up k pos segs')[pos := x] = take pos segs' @ x # take (k - pos) (drop pos segs') @ drop (k + 1) segs'"
    using Suc k by (intro Suc.hyps(1)) (auto simp: segs'_def)
  moreover have "take pos segs' = take pos segs" "take (k - pos) (drop pos segs') = take (k - pos) (drop pos segs)"
    using Suc.hyps(2) k by (auto simp: segs'_def take_drop)
  moreover have "drop (k + 1) segs' = segs ! k # drop (i + 1) segs"
    using Suc.prems k by (simp add: segs'_def Cons_nth_drop_Suc [symmetric])
  moreover have "take (i - pos) (drop pos segs) = take (k - pos) (drop pos segs) @ [segs ! k]"
    using Suc.prems Suc.hyps(2) k by (simp add: Suc_diff_le take_Suc_conv_app_nth)
  ultimately show ?case by simp
qed

lemma segs_ok_insert:
  assumes "segs_ok h segs" "seg_ok h s" "set (footprint s) \<inter> set (footprints segs) = {}"
  shows "segs_ok h (take pos segs @ s # drop pos segs)"
proof -
  obtain ps qs where "take pos segs = ps" "drop pos segs = qs" "segs = ps @ qs" by (metis append_take_drop_id)
  with assms show ?thesis by (auto simp: segs_ok_append)
qed

lemma Buffer_insert_result:
  assumes "buffer_ok h b" "seg_ok h s" "set (footprint s) \<inter> set (footprints (segments b)) = {}"
  shows "if pos \<le> length (segments b)
     then \<exists>b'. Buffer_insert s pos b = Some b' \<and> segments b' = take pos (segments b) @ s # drop pos (segments b) \<and> buffer_ok h b'
     else Buffer_insert s pos b = None"
proof -
  obtain b' where b': "extend_if_full b = Some b'" "segments b' = segments b" "length (segments b') < buf_size b'"
    using extend_if_full_ok assms(1) unfolding buffer_ok_def by blast
  show ?thesis
  proof (cases "pos \<le> length (segments b)")
    case True
    then have "(shift_up (length (segments b)) pos (segments b @ [Segment_default]))[pos := s] = take pos (segments b) @ s # drop pos (segments b)"
      by (subst shift_up_gap) simp_all
    with True b' assms segs_ok_insert [OF _ assms(2,3), of pos] show ?thesis
      by (auto simp: Buffer_insert_def Segment_take_def buffer_ok_def min_def)
  qed (use b' in \<open>simp add: Buffer_insert_def\<close>)
qed

section \<open>Limiting, consuming and tidying\<close>

text \<open>
  \<open>frees bs h h'\<close>: \<open>h'\<close> is \<open>h\<close> with some of the blocks \<open>bs\<close> deleted.
\<close>

definition frees :: "nat list \<Rightarrow> heap \<Rightarrow> heap \<Rightarrow> bool" where
  "frees bs h h' \<longleftrightarrow> h_next h' = h_next h \<and> (\<forall>b. h_blocks h' b = h_blocks h b \<or> b \<in> set bs \<and> h_blocks h' b = None)"

lemma frees_refl [simp]: "frees bs h h"
  by (simp add: frees_def)

lemma frees_trans: "frees bs h h1 \<Longrightarrow> frees cs h1 h2 \<Longrightarrow> frees (bs @ cs) h h2"
  unfolding frees_def by (metis Un_iff set_append)

lemma frees_mono: "frees bs h h' \<Longrightarrow> set bs \<subseteq> set cs \<Longrightarrow> frees cs h h'"
  unfolding frees_def by blast

lemma frees_heap_ok: "frees bs h h' \<Longrightarrow> heap_ok h \<Longrightarrow> heap_ok h'"
  unfolding frees_def heap_ok_def by metis

lemma frees_segs:
  assumes "frees bs h h'" "segs_ok h segs" "set bs \<inter> set (footprints segs) = {}"
  shows "segs_ok h' segs" "segs_bytes h' segs = segs_bytes h segs"
  by (rule segs_frame [OF assms(2)], use assms(1,3) in \<open>auto simp: frees_def\<close>)+

lemma delete_owned_frees: "frees (footprint s) h (delete_owned s h)"
  by (auto simp: frees_def delete_owned_def mem_delete_def footprint_def split: option.split)

lemma destroy_all_frees: "frees (footprints segs) h (destroy_all segs h)"
proof (induction segs arbitrary: h)
  case (Cons s ss)
  have "frees (footprint s) h (snd (Segment_destroy s h))" by (simp add: Segment_destroy_def delete_owned_frees)
  from frees_trans [OF this Cons.IH] show ?case by simp
qed simp

lemma Segment_shorten:
  assumes "seg_ok h s" "n \<le> seg_length s"
  shows "seg_ok h (s \<lparr> seg_length := n \<rparr>)" "seg_bytes h (s \<lparr> seg_length := n \<rparr>) = take n (seg_bytes h s)"
    "set (footprint (s \<lparr> seg_length := n \<rparr>)) \<subseteq> set (footprint s)"
  using assms by (auto simp: seg_ok_def seg_bytes_def mem_read_def footprint_def min_def split: option.splits if_splits)

lemma limit_loop_result:
  "segs_ok h segs \<Longrightarrow> tot \<le> len \<Longrightarrow> limit_loop len tot segs = (kept, left, t) \<Longrightarrow>
   t = min len (tot + sum_list (map seg_length segs)) \<and> segs_ok h kept \<and> length kept \<le> length segs
   \<and> segs_bytes h kept = take (len - tot) (segs_bytes h segs)
   \<and> set (footprints kept) \<subseteq> set (footprints segs) \<and> set (footprints left) \<subseteq> set (footprints segs)
   \<and> set (footprints kept) \<inter> set (footprints left) = {}"
proof (induction segs arbitrary: tot kept t)
  case (Cons s ss)
  note len = seg_bytes_length [of h s]
  show ?case
  proof (cases "tot + seg_length s \<ge> len")
    case True
    define s' where "s' = s \<lparr> seg_length := len - tot \<rparr>"
    have "seg_length s - (tot + seg_length s - len) = len - tot" using True Cons.prems(2) by simp
    then have "kept = [s']" "left = ss" "t = len" using Cons.prems(3) True by (auto simp: s'_def)
    moreover have "seg_ok h s'" "seg_bytes h s' = take (len - tot) (seg_bytes h s)" "set (footprint s') \<subseteq> set (footprint s)"
      using Segment_shorten [of h s "len - tot"] Cons.prems(1) True by (simp_all add: s'_def)
    ultimately show ?thesis using Cons.prems(1) len True by auto
  next
    case False
    then obtain kept' where kept': "limit_loop len (tot + seg_length s) ss = (kept', left, t)" "kept = s # kept'"
      using Cons.prems(3) by (auto simp: Let_def split: prod.splits)
    have "segs_ok h ss" using Cons.prems(1) by simp
    note IH = Cons.IH [OF this _ kept'(1)]
    have "take (len - tot) (seg_bytes h s @ segs_bytes h ss) = seg_bytes h s @ take (len - (tot + seg_length s)) (segs_bytes h ss)"
      using len Cons.prems(1) False by simp
    then show ?thesis using IH Cons.prems False kept'(2) by (auto simp: add.assoc)
  qed
qed auto

lemma Buffer_limit_result:
  assumes "buffer_ok h b" "Buffer_limit len b h = (t, b', h')"
  shows "t = min len (length (buf_bytes h b))" "buffer_ok h' b'" "buf_bytes h' b' = take len (buf_bytes h b)"
proof -
  obtain kept left where r: "limit_loop len 0 (segments b) = (kept, left, t)" "b' = b \<lparr> segments := kept \<rparr>" "h' = destroy_all left h"
    using assms(2) by (auto simp: Buffer_limit_def split: prod.splits)
  have ok: "segs_ok h (segments b)" using assms(1) by (simp add: buffer_ok_def)
  note l = limit_loop_result [OF ok _ r(1)]
  note f = destroy_all_frees [of left h, folded r(3)]
  have "set (footprints left) \<inter> set (footprints kept) = {}" using l by auto
  from frees_segs [OF f _ this] l frees_heap_ok [OF f] assms(1) segs_bytes_length [OF ok]
  show "t = min len (length (buf_bytes h b))" "buffer_ok h' b'" "buf_bytes h' b' = take len (buf_bytes h b)"
    by (auto simp: r(2) buffer_ok_def buf_bytes_def)
qed

lemma Segment_consume_result:
  assumes "seg_ok h s" "n < seg_length s"
  shows "seg_ok h (Segment_consume n s)" "seg_bytes h (Segment_consume n s) = drop n (seg_bytes h s)"
    "footprint (Segment_consume n s) = footprint s"
  using assms by (auto simp: Segment_consume_def ptr_plus_def seg_ok_def seg_bytes_def mem_read_def footprint_def drop_take add.commute split: option.splits)

lemma consume_loop_result:
  "segs_ok h segs \<Longrightarrow> consume_loop n segs h = (segs', h') \<Longrightarrow>
   segs_ok h' segs' \<and> length segs' = length segs \<and> segs_bytes h' segs' = drop n (segs_bytes h segs)
   \<and> set (footprints segs') \<subseteq> set (footprints segs) \<and> frees (footprints segs) h h'"
proof (induction segs arbitrary: n h segs' h')
  case (Cons s ss)
  have ok: "seg_ok h s" "segs_ok h ss" "set (footprints ss) \<inter> set (footprints [s]) = {}" "set (footprint s) \<inter> set (footprints ss) = {}"
    using Cons.prems(1) by auto
  note len = seg_bytes_length [OF ok(1)]
  consider "seg_length s = 0" | "n < seg_length s" | "seg_length s \<noteq> 0" "seg_length s \<le> n" by linarith
  then show ?case
  proof cases
    case 1
    then obtain ss' where r: "consume_loop n ss h = (ss', h')" "segs' = s # ss'" using Cons.prems(2) by (auto split: prod.splits)
    note IH = Cons.IH [OF ok(2) r(1)]
    have "segs_ok h' [s]" "segs_bytes h' [s] = segs_bytes h [s]"
      using frees_segs [of "footprints ss" h h' "[s]"] IH ok(1,3) by simp_all
    moreover have "seg_bytes h s = []" using len 1 by simp
    ultimately show ?thesis using IH ok r(2) by (auto intro: frees_mono)
  next
    case 2
    with Cons.prems(2) Segment_consume_result [OF ok(1) 2] ok len show ?thesis by auto
  next
    case 3
    define s' h1 where "s' = s \<lparr> seg_length := 0, owned_data := None, seg_data := null_ptr \<rparr>" and "h1 = delete_owned s h"
    have f: "frees (footprint s) h h1" by (simp add: h1_def delete_owned_frees)
    obtain ss' where r: "consume_loop (n - seg_length s) ss h1 = (ss', h')" "segs' = s' # ss'"
      using Cons.prems(2) 3 by (auto simp: Segment_reset_def h1_def s'_def split: prod.splits)
    note same = frees_segs [OF f ok(2,4)]
    note IH = Cons.IH [OF same(1) r(1)]
    have "seg_ok h' s'" "seg_bytes h' s' = []" "footprint s' = []"
      by (simp_all add: s'_def seg_ok_def seg_bytes_def mem_read_def footprint_def split: option.split)
    moreover have "frees (footprints (s # ss)) h h'" using frees_trans [OF f] IH by simp
    ultimately show ?thesis using IH same(2) r(2) len 3 by auto
  qed
qed auto

lemma Buffer_consume_result:
  assumes "buffer_ok h b" "Buffer_consume n b h = (b', h')"
  shows "buffer_ok h' b'" "buf_bytes h' b' = drop n (buf_bytes h b)"
proof -
  obtain segs where r: "consume_loop n (segments b) h = (segs, h')" "b' = b \<lparr> segments := segs \<rparr>"
    using assms(2) by (auto simp: Buffer_consume_def split: prod.splits)
  have "segs_ok h (segments b)" using assms(1) by (simp add: buffer_ok_def)
  from consume_loop_result [OF this r(1)] assms(1) show "buffer_ok h' b'" "buf_bytes h' b' = drop n (buf_bytes h b)"
    by (auto simp: r(2) buffer_ok_def buf_bytes_def intro: frees_heap_ok)
qed

text \<open>
  Tidying. After \<open>i\<close> slots the free ones are those from the number of segments kept up to \<open>i\<close>, in
  order, so that the kept ones are exactly the non-empty ones in their old order.
\<close>

lemma tidy_loop_step:
  assumes "i < length segs" "new_count \<le> i"
  shows "tidy_loop i [new_count..<i] new_count segs =
     (if seg_length (segs ! i) = 0 then tidy_loop (Suc i) [new_count..<Suc i] new_count segs
      else if new_count = i then tidy_loop (Suc i) [Suc new_count..<Suc i] (Suc new_count) segs
      else tidy_loop (Suc i) [Suc new_count..<Suc i] (Suc new_count)
        (segs[new_count := segs ! i, i := Segment_consume (seg_length (segs ! i)) ((segs ! i) \<lparr> owned_data := None \<rparr>)]))"
proof (cases "new_count = i")
  case True
  with assms(1) show ?thesis by (subst tidy_loop.simps) simp
next
  case False
  then have "[new_count..<i] = new_count # [Suc new_count..<i]" using assms(2) by (simp add: upt_conv_Cons)
  with assms False show ?thesis by (subst tidy_loop.simps) (simp add: Segment_take_def)
qed

lemma tidy_loop_filter:
  assumes "i \<le> length segs" "new_count \<le> i"
    "take new_count segs = filter (\<lambda>s. seg_length s \<noteq> 0) (take i orig)" "drop i segs = drop i orig" "length orig = length segs"
    "tidy_loop i [new_count..<i] new_count segs = (n, segs')"
  shows "take n segs' = filter (\<lambda>s. seg_length s \<noteq> 0) orig"
  using assms
proof (induction "length segs - i" arbitrary: i new_count segs)
  case 0
  then show ?case by (simp add: tidy_loop.simps)
next
  case (Suc d)
  then have i: "i < length segs" by simp
  have "orig ! i = segs ! i" using i Suc.prems(4,5) by (metis hd_drop_conv_nth)
  then have t: "take (Suc i) orig = take i orig @ [segs ! i]" using i Suc.prems(5) by (simp add: take_Suc_conv_app_nth)
  have d: "drop (Suc i) segs = drop (Suc i) orig" using Suc.prems(4) by (simp add: drop_Suc drop_tl)
  note step = tidy_loop_step [OF i Suc.prems(2)]
  consider "seg_length (segs ! i) = 0" | "seg_length (segs ! i) \<noteq> 0" "new_count = i" | "seg_length (segs ! i) \<noteq> 0" "new_count < i"
    using Suc.prems(2) by linarith
  then show ?case
  proof cases
    case 1
    with step t d Suc show ?thesis by (intro Suc.hyps(1) [of segs "Suc i" new_count]) (auto simp: Suc_le_eq)
  next
    case 2
    have "take (Suc i) segs = filter (\<lambda>s. seg_length s \<noteq> 0) (take (Suc i) orig)"
      using 2 t Suc.prems(3) i by (simp add: take_Suc_conv_app_nth)
    with 2 step d Suc i show ?thesis by (intro Suc.hyps(1) [of segs "Suc i" "Suc new_count"]) (auto simp: Suc_le_eq)
  next
    case 3
    define segs2 where "segs2 = segs[new_count := segs ! i, i := Segment_consume (seg_length (segs ! i)) ((segs ! i) \<lparr> owned_data := None \<rparr>)]"
    have "take (Suc new_count) segs2 = take new_count segs @ [segs ! i]"
      using 3 i by (simp add: segs2_def take_Suc_conv_app_nth)
    then have "take (Suc new_count) segs2 = filter (\<lambda>s. seg_length s \<noteq> 0) (take (Suc i) orig)"
      using 3 t Suc.prems(3) by simp
    moreover have "drop (Suc i) segs2 = drop (Suc i) orig" using d 3 by (simp add: segs2_def)
    moreover have "length segs2 = length segs" by (simp add: segs2_def)
    moreover have "tidy_loop (Suc i) [Suc new_count..<Suc i] (Suc new_count) segs2 = (n, segs')"
      using step 3 Suc.prems(6) by (simp add: segs2_def)
    ultimately show ?thesis using 3 Suc i by (intro Suc.hyps(1) [of segs2 "Suc i" "Suc new_count"]) auto
  qed
qed

lemma Buffer_tidy_filter: "Buffer_tidy b = b \<lparr> segments := filter (\<lambda>s. seg_length s \<noteq> 0) (segments b) \<rparr>"
proof -
  obtain n segs' where r: "tidy_loop 0 [] 0 (segments b) = (n, segs')" by fastforce
  have "take n segs' = filter (\<lambda>s. seg_length s \<noteq> 0) (segments b)"
    by (rule tidy_loop_filter [of 0 "segments b" 0]) (simp_all add: r)
  then show ?thesis by (simp add: Buffer_tidy_def r)
qed

lemma filter_segs:
  "segs_ok h segs \<Longrightarrow> segs_ok h (filter (\<lambda>s. seg_length s \<noteq> 0) segs)
     \<and> segs_bytes h (filter (\<lambda>s. seg_length s \<noteq> 0) segs) = segs_bytes h segs
     \<and> set (footprints (filter (\<lambda>s. seg_length s \<noteq> 0) segs)) \<subseteq> set (footprints segs)"
proof (induction segs)
  case (Cons s ss)
  then have "seg_length s = 0 \<Longrightarrow> seg_bytes h s = []" using seg_bytes_length [of h s] by simp
  with Cons show ?case by auto
qed simp

lemma Buffer_tidy_result:
  assumes "buffer_ok h b"
  shows "buffer_ok h (Buffer_tidy b)" "buf_bytes h (Buffer_tidy b) = buf_bytes h b"
  using assms filter_segs [of h "segments b"]
  by (auto simp: Buffer_tidy_filter buffer_ok_def buf_bytes_def intro: order_trans [OF length_filter_le])

section \<open>Reading and replacing a run of bytes\<close>

text \<open>The part of a segment that a run of \<open>len\<close> bytes from \<open>off\<close> takes.\<close>

lemma run_in_segment:
  fixes len :: nat
  assumes "seg_ok h s" "off \<le> seg_length s"
  defines "part \<equiv> mem_read h (ptr_plus (seg_data s) off) (min len (seg_length s - off))"
  shows "part = take len (drop off (seg_bytes h s))" "length part = min len (seg_length s - off)"
    "take len (drop off (seg_bytes h s @ xs)) = part @ take (len - length part) xs"
proof -
  have "part = take (min len (seg_length s - off)) (drop off (seg_bytes h s))"
    using assms(2) unfolding part_def by (intro mem_read_part) (auto simp: min_def)
  then show p: "part = take len (drop off (seg_bytes h s))" "length part = min len (seg_length s - off)"
    using seg_bytes_length [OF assms(1)] by (simp_all add: min_def)
  show "take len (drop off (seg_bytes h s @ xs)) = part @ take (len - length part) xs"
    using seg_bytes_length [OF assms(1)] assms(2) p(2) by (auto simp: p(1) min_def)
qed

lemma copy_loop_result:
  "segs_ok h segs \<Longrightarrow> length got \<le> len \<Longrightarrow>
   copy_loop h offset len g got segs = got @ take (len - length got) (drop (offset - g) (segs_bytes h segs))"
proof (induction segs arbitrary: g got)
  case (Cons s ss)
  then have ok: "seg_ok h s" "segs_ok h ss" by simp_all
  note len = seg_bytes_length [OF ok(1)]
  show ?case
  proof (cases "offset < g + seg_length s")
    case True
    define part where "part = mem_read h (ptr_plus (seg_data s) (offset - g)) (min (len - length got) (seg_length s - (offset - g)))"
    have start: "(if g > offset then 0 else offset - g) = offset - g" by simp
    have "offset - g \<le> seg_length s" using True by linarith
    note p = run_in_segment [OF ok(1) this, of "len - length got", folded part_def]
    have step: "copy_loop h offset len g got (s # ss) =
        (if len \<le> length (got @ part) then got @ part else copy_loop h offset len (g + seg_length s) (got @ part) ss)"
      using True by (simp only: copy_loop.simps start if_True Let_def part_def)
    have "length (got @ part) \<le> len" using p(2) Cons.prems(2) by simp
    then show ?thesis
      unfolding step segs_bytes_simps p(3) using Cons.IH [OF ok(2), of "got @ part" "g + seg_length s"] True by auto
  next
    case False
    with Cons.IH [OF ok(2) Cons.prems(2)] len show ?thesis by simp
  qed
qed simp

lemma Buffer_copy_result: "buffer_ok h b \<Longrightarrow> Buffer_copy h b offset len = take len (drop offset (buf_bytes h b))"
  by (simp add: Buffer_copy_def buffer_ok_def copy_loop_result buf_bytes_def)

text \<open>References to a run of another buffer whose blocks are apart from this one's.\<close>

lemma Segment_part_result:
  assumes "seg_ok h s" "off + n \<le> seg_length s"
  defines "s' \<equiv> Segment_external (ptr_plus (seg_data s) off) n"
  shows "seg_ok h s'" "seg_bytes h s' = take n (drop off (seg_bytes h s))" "set (footprint s') \<subseteq> set (footprint s)"
proof -
  show "seg_ok h s'" using assms
    by (auto simp: seg_ok_def Segment_external_def ptr_plus_def split: option.splits)
  show "seg_bytes h s' = take n (drop off (seg_bytes h s))"
    using mem_read_part [OF assms(2), of h] by (simp add: s'_def seg_bytes_def Segment_external_def)
  show "set (footprint s') \<subseteq> set (footprint s)"
    using assms by (auto simp: footprint_def Segment_external_def ptr_plus_def seg_ok_def split: option.splits)
qed

lemma add_run_loop_result:
  "segs_ok h segs \<Longrightarrow> buffer_ok h b \<Longrightarrow> set (footprints segs) \<inter> set (footprints (segments b)) = {} \<Longrightarrow> got \<le> len \<Longrightarrow>
   \<exists>b'. add_run_loop offset len g got segs b = Some b' \<and> buffer_ok h b'
     \<and> buf_bytes h b' = buf_bytes h b @ take (len - got) (drop (offset - g) (segs_bytes h segs))"
proof (induction segs arbitrary: g got b)
  case (Cons s ss)
  then have ok: "seg_ok h s" "segs_ok h ss" by simp_all
  note len = seg_bytes_length [OF ok(1)]
  show ?case
  proof (cases "offset < g + seg_length s")
    case True
    define n s' where "n = min (len - got) (seg_length s - (offset - g))" and "s' = Segment_external (ptr_plus (seg_data s) (offset - g)) n"
    have start: "(if g > offset then 0 else offset - g) = offset - g" by simp
    have off: "offset - g \<le> seg_length s" using True by linarith
    note p = run_in_segment [OF ok(1) off, of "len - got", folded n_def]
    have "offset - g + n \<le> seg_length s" using off by (simp add: n_def)
    note s' = Segment_part_result [OF ok(1) this, folded s'_def]
    have bytes: "seg_bytes h s' = mem_read h (ptr_plus (seg_data s) (offset - g)) n" by (simp add: s'_def seg_bytes_def Segment_external_def)
    obtain b' where b': "Buffer_add s' b = Some b'" "segments b' = segments b @ [s']" "buffer_ok h b'" "buf_bytes h b' = buf_bytes h b @ seg_bytes h s'"
      using Buffer_add_result [OF Cons.prems(2) s'(1)] s'(3) Cons.prems(3) by fastforce
    have step: "add_run_loop offset len g got (s # ss) b =
        (if len \<le> got + n then Some b' else add_run_loop offset len (g + seg_length s) (got + n) ss b')"
      using True b'(1) by (simp only: add_run_loop.simps start if_True Let_def Buffer_add_external_def n_def [symmetric] s'_def [symmetric] option.case)
    have apart: "set (footprints ss) \<inter> set (footprints (segments b')) = {}"
      using Cons.prems(1,3) s'(3) by (auto simp: b'(2))
    have "got + n \<le> len" using Cons.prems(4) by (simp add: n_def)
    note IH = Cons.IH [OF ok(2) b'(3) apart this, of "g + seg_length s"]
    show ?thesis
      unfolding step segs_bytes_simps p(3) using IH b'(3,4) p(2) True by (auto simp: bytes)
  next
    case False
    have "set (footprints ss) \<inter> set (footprints (segments b)) = {}" using Cons.prems(3) by auto
    from Cons.IH [OF ok(2) Cons.prems(2) this Cons.prems(4)] False len show ?thesis by simp
  qed
qed simp

lemma flatten_more_result:
  "segs_ok h segs \<Longrightarrow> length temp \<le> len \<Longrightarrow>
   flatten_more h len temp segs =
     (if len \<le> length temp + length (segs_bytes h segs) then Some (In_temp (temp @ take (len - length temp) (segs_bytes h segs))) else None)"
proof (induction segs arbitrary: temp)
  case (Cons s ss)
  then have ok: "seg_ok h s" "segs_ok h ss" by simp_all
  show ?case
  proof (cases "length temp < len")
    case True
    define part where "part = mem_read h (seg_data s) (min (len - length temp) (seg_length s))"
    have part: "part = take (len - length temp) (seg_bytes h s)" "length part = min (len - length temp) (seg_length s)"
      using run_in_segment [OF ok(1), of 0 "len - length temp"] by (simp_all add: part_def ptr_plus_def)
    have "flatten_more h len temp (s # ss) = flatten_more h len (temp @ part) ss" using True by (simp add: part_def)
    also have "\<dots> = (if len \<le> length (temp @ part) + length (segs_bytes h ss)
        then Some (In_temp ((temp @ part) @ take (len - length (temp @ part)) (segs_bytes h ss))) else None)"
      using part(2) Cons.prems(2) by (intro Cons.IH [OF ok(2)]) simp
    finally show ?thesis using part seg_bytes_length [OF ok(1)] True by (auto simp: min_def)
  qed (use Cons.prems in simp)
qed auto

lemma add_length_small [simp]: "m + n < 2 ^ 64 \<Longrightarrow> add_length m n = m + n"
  by (simp add: add_length_def)

lemma get_flat_data_multi_result:
  "segs_ok h segs \<Longrightarrow> 0 < len \<Longrightarrow> offset + len < 2 ^ 64 \<Longrightarrow>
   map_option (flat_bytes h len) (get_flat_data_multi h offset len segs) =
     (if offset + len \<le> length (segs_bytes h segs) then Some (take len (drop offset (segs_bytes h segs))) else None)"
proof (induction segs arbitrary: offset)
  case (Cons s ss)
  then have ok: "seg_ok h s" "segs_ok h ss" by simp_all
  note len = seg_bytes_length [OF ok(1)]
  consider "offset + len < seg_length s" | "offset < seg_length s" "seg_length s \<le> offset + len" | "seg_length s \<le> offset"
    by linarith
  then show ?case
  proof cases
    case 1
    then show ?thesis using Cons.prems len mem_read_part [of offset len s h] by (simp add: flat_bytes_def)
  next
    case 2
    have "mem_read h (ptr_plus (seg_data s) offset) (seg_length s - offset) = drop offset (seg_bytes h s)"
      using 2 len mem_read_part [of offset "seg_length s - offset" s h] by simp
    then show ?thesis using 2 Cons.prems len by (auto simp: flatten_more_result [OF ok(2)] flat_bytes_def)
  next
    case 3
    then show ?thesis using Cons.IH [OF ok(2) Cons.prems(2), of "offset - seg_length s"] Cons.prems(3) len by (auto simp: le_diff_conv2)
  qed
qed simp

lemma get_flat_data_result:
  assumes "buffer_ok h b" "0 < len" "offset + len < 2 ^ 64"
  shows "map_option (flat_bytes h len) (get_flat_data h b offset len) =
     (if offset + len \<le> length (buf_bytes h b) then Some (take len (drop offset (buf_bytes h b))) else None)"
proof (cases "\<exists>s. segments b = [s]")
  case True
  then obtain s where s: "segments b = [s]" by blast
  then have ok: "seg_ok h s" using assms(1) by (simp add: buffer_ok_def)
  show ?thesis
    using assms(3) mem_read_part [of offset len s h] seg_bytes_length [OF ok]
    by (auto simp: get_flat_data_def s flat_bytes_def buf_bytes_def)
next
  case False
  then have "get_flat_data h b offset len = get_flat_data_multi h offset len (segments b)"
    by (auto simp: get_flat_data_def split: list.split)
  then show ?thesis using get_flat_data_multi_result assms by (simp add: buffer_ok_def buf_bytes_def)
qed

text \<open>Writing a run over the bytes that exist.\<close>

definition overwrite :: "nat \<Rightarrow> byte list \<Rightarrow> byte list \<Rightarrow> byte list" where
  "overwrite off ds bs = take off bs @ take (length bs - off) ds @ drop (off + length ds) bs"

lemma overwrite_length [simp]: "length (overwrite off ds bs) = length bs"
  by (auto simp: overwrite_def)

lemma overwrite_append:
  "overwrite off ds (xs @ ys) =
     (if off < length xs then overwrite off ds xs @ overwrite 0 (drop (length xs - off) ds) ys
      else xs @ overwrite (off - length xs) ds ys)"
proof (cases "off < length xs")
  case True
  have "take (length xs + length ys - off) ds = take (length xs - off) ds @ take (length ys) (drop (length xs - off) ds)"
    using True by (metis Nat.add_diff_assoc2 less_or_eq_imp_le take_add)
  moreover have "drop (off + length ds) xs = [] \<or> drop (length xs - off) ds = []"
    by (cases "length xs \<le> off + length ds") auto
  ultimately show ?thesis using True by (auto simp: overwrite_def add.commute)
qed (auto simp: overwrite_def add.commute)

lemma overwrite_nothing [simp]: "overwrite off [] bs = bs"
  by (simp add: overwrite_def)

text \<open>Memory after a write that stays inside a segment.\<close>

lemma mem_write_blocks:
  "h_next (mem_write p ds h) = h_next h"
  "h_blocks (mem_write p ds h) b = None \<longleftrightarrow> h_blocks h b = None"
  "b \<noteq> fst p \<or> ds = [] \<Longrightarrow> h_blocks (mem_write p ds h) b = h_blocks h b"
  by (auto simp: mem_write_def split: option.split)

lemma seg_data_footprint: "seg_ok h s \<Longrightarrow> seg_length s \<noteq> 0 \<Longrightarrow> fst (seg_data s) \<in> set (footprint s)"
  by (auto simp: seg_ok_def footprint_def split: option.splits)

lemma overwrite_block:
  assumes "off + length ds \<le> n" "o' + n \<le> length bs"
  shows "take n (drop o' (take (o' + off) bs @ ds @ drop (o' + off + length ds) bs)) = overwrite off ds (take n (drop o' bs))"
proof -
  obtain as cs where bs: "bs = as @ cs" "length as = o'" using assms(2)
    by (metis append_take_drop_id length_take min_absorb2 le_add1 order_trans)
  then have "n \<le> length cs" using assms(2) by simp
  moreover have "n \<le> off \<Longrightarrow> n = off \<and> ds = []" using assms(1) by (cases ds) auto
  ultimately show ?thesis using assms(1) by (auto simp: bs overwrite_def drop_take min_def)
qed

lemma mem_write_segment:
  assumes "seg_ok h s" "off + length ds \<le> seg_length s"
  defines "h' \<equiv> mem_write (ptr_plus (seg_data s) off) ds h"
  shows "seg_ok h' s" "seg_bytes h' s = overwrite off ds (seg_bytes h s)"
    "b \<notin> set (footprint s) \<Longrightarrow> h_blocks h' b = h_blocks h b"
proof -
  show "h_blocks h' b = h_blocks h b" if "b \<notin> set (footprint s)"
  proof (cases "seg_length s = 0")
    case True
    then show ?thesis using assms(2) by (simp add: h'_def mem_write_blocks)
  next
    case False
    then have "b \<noteq> fst (seg_data s)" using seg_data_footprint [OF assms(1)] that by blast
    then show ?thesis by (simp add: h'_def mem_write_blocks ptr_plus_def)
  qed
  have "seg_ok h' s \<and> seg_bytes h' s = overwrite off ds (seg_bytes h s)"
  proof (cases "seg_length s = 0")
    case True
    with assms(2) have "h_blocks h' c = h_blocks h c" for c by (simp add: h'_def mem_write_blocks)
    then show ?thesis using seg_frame [OF assms(1), of h'] True assms(2) by simp
  next
    case False
    then obtain bs where bs: "h_blocks h (fst (seg_data s)) = Some bs" "snd (seg_data s) + seg_length s \<le> length bs"
      using assms(1) by (auto simp: seg_ok_def split: option.splits)
    then have h': "h_blocks h' (fst (seg_data s)) =
        Some (take (snd (seg_data s) + off) bs @ ds @ drop (snd (seg_data s) + off + length ds) bs)"
      by (simp add: h'_def mem_write_def ptr_plus_def)
    have "seg_bytes h' s = overwrite off ds (seg_bytes h s)"
      unfolding seg_bytes_def mem_read_def h' bs(1) option.case by (rule overwrite_block [OF assms(2) bs(2)])
    moreover have "seg_ok h' s" using assms(1,2) bs h' mem_write_blocks(2) [of "ptr_plus (seg_data s) off" ds h, folded h'_def]
      by (auto simp: seg_ok_def split: option.splits)
    ultimately show ?thesis by blast
  qed
  then show "seg_ok h' s" "seg_bytes h' s = overwrite off ds (seg_bytes h s)" by blast+
qed

text \<open>\<open>writes bs h h'\<close>: \<open>h'\<close> has the blocks of \<open>h\<close>, with other contents only in \<open>bs\<close>.\<close>

definition writes :: "nat list \<Rightarrow> heap \<Rightarrow> heap \<Rightarrow> bool" where
  "writes bs h h' \<longleftrightarrow> h_next h' = h_next h \<and> (\<forall>b. (h_blocks h' b = None \<longleftrightarrow> h_blocks h b = None) \<and> (b \<notin> set bs \<longrightarrow> h_blocks h' b = h_blocks h b))"

lemma writes_refl [simp]: "writes bs h h"
  by (simp add: writes_def)

lemma writes_trans: "writes bs h h1 \<Longrightarrow> writes cs h1 h2 \<Longrightarrow> writes (bs @ cs) h h2"
  by (simp add: writes_def)

lemma writes_heap_ok: "writes bs h h' \<Longrightarrow> heap_ok h \<Longrightarrow> heap_ok h'"
  unfolding writes_def heap_ok_def by metis

lemma writes_segs:
  assumes "writes bs h h'" "segs_ok h segs" "set bs \<inter> set (footprints segs) = {}"
  shows "segs_ok h' segs" "segs_bytes h' segs = segs_bytes h segs"
  by (rule segs_frame [OF assms(2)], use assms(1,3) in \<open>auto simp: writes_def\<close>)+

lemma mem_write_writes: "seg_ok h s \<Longrightarrow> off + length ds \<le> seg_length s \<Longrightarrow> writes (footprint s) h (mem_write (ptr_plus (seg_data s) off) ds h)"
  using mem_write_segment(3) by (simp add: writes_def mem_write_blocks)

text \<open>Writing into the first segment and then only into the others.\<close>

lemma writes_split:
  assumes "segs_ok h (s # ss)" "off + length ds \<le> seg_length s" "h1 = mem_write (ptr_plus (seg_data s) off) ds h"
    and rest: "segs_ok h1 ss \<Longrightarrow> segs_ok h' ss \<and> segs_bytes h' ss = overwrite off' ds' (segs_bytes h1 ss) \<and> writes (footprints ss) h1 h'"
  shows "segs_ok h' (s # ss) \<and> segs_bytes h' (s # ss) = overwrite off ds (seg_bytes h s) @ overwrite off' ds' (segs_bytes h ss)
    \<and> writes (footprints (s # ss)) h h'"
proof -
  have ok: "seg_ok h s" "segs_ok h ss" "set (footprint s) \<inter> set (footprints ss) = {}" "set (footprints ss) \<inter> set (footprints [s]) = {}"
    using assms(1) by auto
  have w: "writes (footprint s) h h1" unfolding assms(3) by (rule mem_write_writes [OF ok(1) assms(2)])
  note same = writes_segs [OF w ok(2,3)]
  note r = rest [OF same(1)]
  have "segs_ok h1 [s]" "seg_bytes h1 s = overwrite off ds (seg_bytes h s)"
    using mem_write_segment [OF ok(1) assms(2), folded assms(3)] by simp_all
  moreover from this r ok(4) have "segs_ok h' [s]" "segs_bytes h' [s] = segs_bytes h1 [s]"
    using writes_segs [of "footprints ss" h1 h' "[s]"] by blast+
  moreover have "writes (footprints (s # ss)) h h'" using writes_trans [OF w] r by simp
  ultimately show ?thesis using r same ok(3) by simp
qed

lemma replace_more_result:
  "segs_ok h segs \<Longrightarrow> copied \<le> length buf \<Longrightarrow> h' = replace_more buf copied segs h \<Longrightarrow>
   segs_ok h' segs \<and> segs_bytes h' segs = overwrite 0 (drop copied buf) (segs_bytes h segs) \<and> writes (footprints segs) h h'"
proof (induction segs arbitrary: copied h)
  case (Cons s ss)
  show ?case
  proof (cases "copied < length buf")
    case True
    define n where "n = min (length buf - copied) (seg_length s)"
    have ok: "seg_ok h s" using Cons.prems(1) by simp
    have n: "length (take n (drop copied buf)) = n" "n \<le> seg_length s" "copied + n \<le> length buf" using True by (auto simp: n_def)
    have h': "h' = replace_more buf (copied + n) ss (mem_write (ptr_plus (seg_data s) 0) (take n (drop copied buf)) h)"
      using True Cons.prems(3) by (simp add: n_def ptr_plus_def Let_def)
    have "overwrite 0 (drop copied buf) (seg_bytes h s @ segs_bytes h ss) =
        overwrite 0 (take n (drop copied buf)) (seg_bytes h s) @ overwrite 0 (drop (copied + n) buf) (segs_bytes h ss)"
    proof (cases "length buf - copied \<le> seg_length s")
      case True
      then show ?thesis using n seg_bytes_length [OF ok] by (simp add: n_def overwrite_def)
    next
      case False
      then have "n = seg_length s" by (simp add: n_def)
      then show ?thesis using n seg_bytes_length [OF ok] False by (auto simp: overwrite_append) (auto simp: overwrite_def add.commute)
    qed
    then show ?thesis
      using writes_split [OF Cons.prems(1) _ refl, of 0 "take n (drop copied buf)" h' 0 "drop (copied + n) buf"] n h' Cons.IH [OF _ n(3) h'] by simp
  qed (use Cons.prems in simp)
qed (simp add: overwrite_def)

lemma replace_loop_result:
  "segs_ok h segs \<Longrightarrow> offset + length buf < 2 ^ 64 \<Longrightarrow> h' = replace_loop offset buf segs h \<Longrightarrow>
   segs_ok h' segs \<and> segs_bytes h' segs = overwrite offset buf (segs_bytes h segs) \<and> writes (footprints segs) h h'"
proof (induction segs arbitrary: offset)
  case (Cons s ss)
  then have ok: "seg_ok h s" "segs_ok h ss" by simp_all
  note len = seg_bytes_length [OF ok(1)]
  consider "offset + length buf < seg_length s" | "offset < seg_length s" "seg_length s \<le> offset + length buf" | "seg_length s \<le> offset"
    by linarith
  then show ?case
  proof cases
    case 1
    define h1 where "h1 = mem_write (ptr_plus (seg_data s) offset) buf h"
    have "h' = h1" using 1 Cons.prems by (simp add: h1_def)
    then show ?thesis using writes_split [OF Cons.prems(1) _ h1_def, of h' 0 "[]"] 1 len by (simp add: overwrite_append)
  next
    case 2
    define n where "n = seg_length s - offset"
    have n: "length (take n buf) = n" "offset + n \<le> seg_length s" "n \<le> length buf" using 2 by (auto simp: n_def)
    have h': "h' = replace_more buf n ss (mem_write (ptr_plus (seg_data s) offset) (take n buf) h)"
      using 2 Cons.prems(2,3) by (simp add: n_def Let_def)
    have "overwrite offset buf (seg_bytes h s) = overwrite offset (take n buf) (seg_bytes h s)"
      using 2 len by (simp add: overwrite_def n_def)
    then show ?thesis
      using writes_split [OF Cons.prems(1) _ refl, of offset "take n buf" h' 0 "drop n buf"] n h' 2 len replace_more_result [OF _ n(3) h']
      by (simp add: overwrite_append n_def)
  next
    case 3
    then have "segs_ok h' ss \<and> segs_bytes h' ss = overwrite (offset - seg_length s) buf (segs_bytes h ss) \<and> writes (footprints ss) h h'"
      using Cons.prems by (intro Cons.IH [OF ok(2)]) simp_all
    moreover from this have "segs_ok h' [s]" "segs_bytes h' [s] = segs_bytes h [s]"
      using writes_segs [of "footprints ss" h h' "[s]"] Cons.prems(1) by auto
    moreover from calculation have "writes (footprints (s # ss)) h h'" using writes_trans [OF writes_refl] by fastforce
    ultimately show ?thesis using 3 len Cons.prems(1) by (simp add: overwrite_append)
  qed
qed (simp add: overwrite_def)

lemma Buffer_replace_result:
  assumes "buffer_ok h b" "offset + length buf < 2 ^ 64"
  shows "buffer_ok (Buffer_replace offset buf b h) b" "buf_bytes (Buffer_replace offset buf b h) b = overwrite offset buf (buf_bytes h b)"
  using replace_loop_result [OF _ assms(2) refl, of h "segments b"] assms(1) writes_heap_ok [of "footprints (segments b)" h]
  by (auto simp: Buffer_replace_def buffer_ok_def buf_bytes_def)

lemma overwrite_read: "offset + length ds \<le> length bs \<Longrightarrow> take (length ds) (drop offset (overwrite offset ds bs)) = ds"
  by (simp add: overwrite_def)

text \<open>Copying whole segments, and the iovec entries.\<close>

lemma fill_loop_result:
  assumes "length iov \<le> sz"
  shows "let entries = map (\<lambda>s. (seg_data s, seg_length s)) (filter (\<lambda>s. seg_length s \<noteq> 0) segs)
     in fill_loop sz iov segs = (if length iov + length entries \<le> sz then (iov @ entries, length iov + length entries)
        else (iov @ take (sz - length iov) entries, sz + 1))"
  using assms unfolding Let_def
proof (induction segs arbitrary: iov)
  case (Cons s ss)
  then show ?case using Cons.IH [of "iov @ [(seg_data s, seg_length s)]"] by (auto simp: take_Cons' Suc_diff_Suc)
qed auto

lemma Buffer_fill_result:
  "Buffer_fill sz b = (let entries = map (\<lambda>s. (seg_data s, seg_length s)) (filter (\<lambda>s. seg_length s \<noteq> 0) (segments b))
     in if length entries \<le> sz then (entries, length entries) else (take sz entries, sz + 1))"
  using fill_loop_result [of "[]" sz "segments b"] by (simp add: Buffer_fill_def Let_def)

section \<open>The life of a buffer\<close>

datatype gather_op =
  Add_external ptr nat
| Add_allocated "byte list"
| Add_buffer Buffer
| Add_run Buffer nat nat
| Insert_external ptr nat nat
| Insert_allocated "byte list" nat
| Limit nat
| Consume nat
| Tidy
| Replace nat "byte list"
| Resize nat
| Reset

fun gather_exec :: "gather_op \<Rightarrow> Buffer \<Rightarrow> heap \<Rightarrow> (Buffer \<times> heap) option" where
  "gather_exec (Add_external d n) b h = map_option (\<lambda>b'. (b', h)) (Buffer_add_external d n b)"
| "gather_exec (Add_allocated raw) b h = Buffer_add_allocated raw b h"
| "gather_exec (Add_buffer other) b h = Buffer_add_buffer other b h"
| "gather_exec (Add_run other offset len) b h = map_option (\<lambda>b'. (b', h)) (Buffer_add_run other offset len b)"
| "gather_exec (Insert_external d n pos) b h = map_option (\<lambda>b'. (b', h)) (Buffer_insert_external d n pos b)"
| "gather_exec (Insert_allocated raw pos) b h = Buffer_insert_allocated raw pos b h"
| "gather_exec (Limit n) b h = Some (snd (Buffer_limit n b h))"
| "gather_exec (Consume n) b h = Some (Buffer_consume n b h)"
| "gather_exec Tidy b h = Some (Buffer_tidy b, h)"
| "gather_exec (Replace offset buf) b h = Some (b, Buffer_replace offset buf b h)"
| "gather_exec (Resize n) b h = map_option (\<lambda>b'. (b', h)) (Buffer_resize n b)"
| "gather_exec Reset b h = Some (Buffer_reset b h)"

text \<open>
  What the caller has to provide: data that exists and does not belong to this buffer, a buffer to copy from of whose
  owned segments nothing has been consumed, positions and sizes that fit the segments in use, and sums that do not wrap.
\<close>

definition unconsumed :: "Segment list \<Rightarrow> bool" where
  "unconsumed segs \<longleftrightarrow> (\<forall>s \<in> set segs. owned_data s \<noteq> None \<longrightarrow> snd (seg_data s) = 0)"

fun gather_pre :: "gather_op \<Rightarrow> Buffer \<Rightarrow> heap \<Rightarrow> bool" where
  "gather_pre (Add_external d n) b h \<longleftrightarrow>
     seg_ok h (Segment_external d n) \<and> set (footprint (Segment_external d n)) \<inter> set (footprints (segments b)) = {}"
| "gather_pre (Add_buffer other) b h \<longleftrightarrow>
     buffer_ok h other \<and> unconsumed (segments other) \<and> set (footprints (segments other)) \<inter> set (footprints (segments b)) = {}"
| "gather_pre (Add_run other offset len) b h \<longleftrightarrow>
     buffer_ok h other \<and> set (footprints (segments other)) \<inter> set (footprints (segments b)) = {}"
| "gather_pre (Insert_external d n pos) b h \<longleftrightarrow> pos \<le> length (segments b) \<and>
     seg_ok h (Segment_external d n) \<and> set (footprint (Segment_external d n)) \<inter> set (footprints (segments b)) = {}"
| "gather_pre (Insert_allocated raw pos) b h \<longleftrightarrow> pos \<le> length (segments b)"
| "gather_pre (Replace offset buf) b h \<longleftrightarrow> offset + length buf < 2 ^ 64"
| "gather_pre (Resize n) b h \<longleftrightarrow> length (segments b) \<le> n"
| "gather_pre _ b h \<longleftrightarrow> True"

text \<open>The same on the bytes; an insertion is made before the segment at \<open>pos\<close>.\<close>

definition insert_at :: "Buffer \<Rightarrow> nat \<Rightarrow> byte list \<Rightarrow> byte list \<Rightarrow> byte list" where
  "insert_at b pos new bs = (let k = sum_list (map seg_length (take pos (segments b))) in take k bs @ new @ drop k bs)"

fun gather_spec :: "gather_op \<Rightarrow> Buffer \<Rightarrow> heap \<Rightarrow> byte list \<Rightarrow> byte list" where
  "gather_spec (Add_external d n) b h bs = bs @ mem_read h d n"
| "gather_spec (Add_allocated raw) b h bs = bs @ raw"
| "gather_spec (Add_buffer other) b h bs = bs @ buf_bytes h other"
| "gather_spec (Add_run other offset len) b h bs = bs @ take len (drop offset (buf_bytes h other))"
| "gather_spec (Insert_external d n pos) b h bs = insert_at b pos (mem_read h d n) bs"
| "gather_spec (Insert_allocated raw pos) b h bs = insert_at b pos raw bs"
| "gather_spec (Limit n) b h bs = take n bs"
| "gather_spec (Consume n) b h bs = drop n bs"
| "gather_spec Tidy b h bs = bs"
| "gather_spec (Replace offset buf) b h bs = overwrite offset buf bs"
| "gather_spec (Resize n) b h bs = bs"
| "gather_spec Reset b h bs = []"

lemma insert_segment:
  assumes "segs_ok h (segments b)"
  shows "segs_bytes h (take pos (segments b) @ s # drop pos (segments b)) = insert_at b pos (seg_bytes h s) (segs_bytes h (segments b))"
proof -
  obtain ps qs where p: "take pos (segments b) = ps" "drop pos (segments b) = qs" "segments b = ps @ qs" by (metis append_take_drop_id)
  with assms have "segs_ok h ps" by (simp add: segs_ok_append)
  from segs_bytes_length [OF this] p show ?thesis by (simp add: insert_at_def Let_def)
qed

lemma Buffer_insert_bytes:
  assumes "buffer_ok h b" "seg_ok h s" "set (footprint s) \<inter> set (footprints (segments b)) = {}" "pos \<le> length (segments b)"
  shows "\<exists>b'. Buffer_insert s pos b = Some b' \<and> buffer_ok h b' \<and> buf_bytes h b' = insert_at b pos (seg_bytes h s) (buf_bytes h b)"
  using Buffer_insert_result [OF assms(1-3), of pos] assms(1,4) insert_segment [of h b pos s]
  by (auto simp: buf_bytes_def buffer_ok_def)

lemma Buffer_insert_allocated_result:
  assumes "buffer_ok h b" "pos \<le> length (segments b)"
  shows "\<exists>b' h'. Buffer_insert_allocated raw pos b h = Some (b', h') \<and> buffer_ok h' b' \<and> buf_bytes h' b' = insert_at b pos raw (buf_bytes h b)"
proof -
  obtain s h' where s: "Segment_allocated raw h = (s, h')" "heap_ok h'" "seg_ok h' s" "seg_bytes h' s = raw" "footprint s = [h_next h]"
      "segs_ok h' (segments b)" "segs_bytes h' (segments b) = segs_bytes h (segments b)" "h_next h \<notin> set (footprints (segments b))"
    using Segment_allocated_result assms unfolding buffer_ok_def by metis
  then have "buffer_ok h' b" using assms by (simp add: buffer_ok_def)
  from Buffer_insert_bytes [OF this s(3) _ assms(2)] s show ?thesis by (auto simp: Buffer_insert_allocated_def buf_bytes_def)
qed

text \<open>The loop that copies the segments of another buffer.\<close>

lemma add_copies_result:
  assumes "segs_ok h ss" "unconsumed ss" "buffer_ok h b" "set (footprints ss) \<inter> set (footprints (segments b)) = {}"
  shows "\<exists>b' h'. add_copies ss b h = Some (b', h') \<and> buffer_ok h' b' \<and> buf_bytes h' b' = buf_bytes h b @ segs_bytes h ss"
  using assms
proof (induction ss arbitrary: b h)
  case (Cons s ss)
  show ?case
  proof (cases "owned_data s")
    case None
    then have copy: "Segment_copy s h = (s, h)" by (simp add: Segment_copy_def)
    obtain b1 where b1: "Buffer_add s b = Some b1" "segments b1 = segments b @ [s]" "buffer_ok h b1" "buf_bytes h b1 = buf_bytes h b @ seg_bytes h s"
      using Buffer_add_result [of h b s] Cons.prems by auto
    have "set (footprints ss) \<inter> set (footprints (segments b1)) = {}" using Cons.prems b1(2) by auto
    with Cons.IH [OF _ _ b1(3)] Cons.prems(1,2) b1 copy show ?thesis by (auto simp: unconsumed_def)
  next
    case (Some k)
    have raw: "mem_read h (k, 0) (seg_length s) = seg_bytes h s"
      using Some Cons.prems(1,2) by (cases "seg_data s") (auto simp: seg_bytes_def seg_ok_def unconsumed_def)
    obtain s' h' where s': "Segment_allocated (seg_bytes h s) h = (s', h')" "heap_ok h'" "seg_ok h' s'" "seg_bytes h' s' = seg_bytes h s"
        "footprint s' = [h_next h]"
        "\<And>segs. segs_ok h segs \<Longrightarrow> segs_ok h' segs \<and> segs_bytes h' segs = segs_bytes h segs \<and> h_next h \<notin> set (footprints segs)"
      using Segment_allocated_result [of h "seg_bytes h s"] Cons.prems(3) by (auto simp: buffer_ok_def)
    have ss: "segs_ok h ss" "segs_ok h (segments b)" using Cons.prems(1,3) by (simp_all add: buffer_ok_def)
    note keep = s'(6) [OF ss(1)] s'(6) [OF ss(2)]
    then have "buffer_ok h' b" using Cons.prems(3) s'(2) by (simp add: buffer_ok_def)
    from Buffer_add_result [OF this s'(3)] keep s'(5) obtain b1 where
      b1: "Buffer_add s' b = Some b1" "segments b1 = segments b @ [s']" "buffer_ok h' b1" "buf_bytes h' b1 = buf_bytes h' b @ seg_bytes h s"
      using s'(4) by auto
    have "set (footprints ss) \<inter> set (footprints (segments b1)) = {}" using Cons.prems(4) b1(2) keep s'(5) by auto
    with Cons.IH [OF _ _ b1(3)] Cons.prems(2) keep obtain b2 h2 where
      "add_copies ss b1 h' = Some (b2, h2)" "buffer_ok h2 b2" "buf_bytes h2 b2 = buf_bytes h' b1 @ segs_bytes h' ss"
      by (auto simp: unconsumed_def)
    with Some raw s'(1) b1(1,4) keep show ?thesis by (auto simp: Segment_copy_def buf_bytes_def)
  qed
qed simp

lemma Buffer_reset_result:
  assumes "buffer_ok h b" "Buffer_reset b h = (b', h')"
  shows "buffer_ok h' b' \<and> buf_bytes h' b' = []"
  using assms frees_heap_ok [OF destroy_all_frees] by (auto simp: Buffer_reset_def buffer_ok_def buf_bytes_def)

lemma gather_exec_result:
  assumes "buffer_ok h b" "gather_pre op b h"
  shows "\<exists>b' h'. gather_exec op b h = Some (b', h') \<and> buffer_ok h' b' \<and> buf_bytes h' b' = gather_spec op b h (buf_bytes h b)"
proof (cases op)
  case (Add_buffer other)
  with assms add_copies_result [of h "segments other" b] show ?thesis
    by (auto simp: Buffer_add_buffer_def buffer_ok_def buf_bytes_def)
next
  case (Insert_external d n pos)
  with assms Buffer_insert_bytes [of h b "Segment_external d n" pos] show ?thesis
    by (auto simp: Buffer_insert_external_def seg_bytes_def Segment_external_def)
next
  case (Resize n)
  with assms show ?thesis by (auto simp: Buffer_resize_def buffer_ok_def buf_bytes_def)
next
  case (Add_external d n)
  with assms Buffer_add_result [of h b "Segment_external d n"] show ?thesis
    by (auto simp: Buffer_add_external_def seg_bytes_def Segment_external_def)
next
  case (Add_run other offset len)
  then have "segs_ok h (segments other)" "set (footprints (segments other)) \<inter> set (footprints (segments b)) = {}"
    using assms(2) by (simp_all add: buffer_ok_def)
  from add_run_loop_result [OF this(1) assms(1) this(2), of 0 len offset 0] Add_run show ?thesis
    by (auto simp: Buffer_add_run_def buf_bytes_def)
next
  case (Limit n)
  then show ?thesis using Buffer_limit_result [OF assms(1)] by (cases "Buffer_limit n b h") auto
next
  case (Consume n)
  then show ?thesis using Buffer_consume_result [OF assms(1)] by (cases "Buffer_consume n b h") auto
next
  case Reset
  then show ?thesis using Buffer_reset_result [OF assms(1)] by (cases "Buffer_reset b h") auto
qed (use assms Buffer_add_allocated_result Buffer_insert_allocated_result Buffer_tidy_result Buffer_replace_result in auto)

text \<open>
  The buffers a program can reach, with the bytes they ought to hold: it applies operations, and
  between them uses memory that is not the buffer's as it likes.
\<close>

inductive gather_trace :: "Buffer \<Rightarrow> heap \<Rightarrow> byte list \<Rightarrow> bool" where
  New: "heap_ok h \<Longrightarrow> gather_trace (Buffer_new sz) h []"
| Op: "gather_trace b h bs \<Longrightarrow> gather_pre op b h \<Longrightarrow> gather_exec op b h = Some (b', h') \<Longrightarrow> gather_trace b' h' (gather_spec op b h bs)"
| Env: "gather_trace b h bs \<Longrightarrow> heap_ok h' \<Longrightarrow> \<forall>c \<in> set (footprints (segments b)). h_blocks h' c = h_blocks h c \<Longrightarrow> gather_trace b h' bs"

lemma gather_trace_ok: "gather_trace b h bs \<Longrightarrow> buffer_ok h b \<and> buf_bytes h b = bs"
proof (induction rule: gather_trace.induct)
  case (New h sz)
  then show ?case by (simp add: buffer_ok_def buf_bytes_def Buffer_new_def)
next
  case (Op b h bs op b' h')
  then show ?case using gather_exec_result [of h b op] by auto
next
  case (Env b h bs h')
  then show ?case using segs_frame [of h "segments b" h'] by (auto simp: buffer_ok_def buf_bytes_def)
qed

section \<open>Properties\<close>


lemma empty_heap_ok [simp]: "heap_ok empty_heap"
  by (simp add: heap_ok_def empty_heap_def)

lemmas gather_evaluation =
  empty_heap_def Buffer_new_def Buffer_add_allocated_def Segment_allocated_def mem_new_def Buffer_add_def extend_if_full_def Buffer_resize_def
  Segment_take_def Buffer_consume_def Segment_consume_def Segment_reset_def ptr_plus_def null_ptr_def Buffer_limit_def mem_read_def
  delete_owned_def mem_delete_def


text \<open>
  C25: What is replaced can be read back. After \<^verbatim>\<open>replace\<close> of bytes that lie within the buffer, \<^verbatim>\<open>get_flat_data\<close>
  at the same place succeeds and its block, in a segment or in the caller's memory, starts with exactly those
  bytes; the other bytes and the length are unchanged.
\<close>

theorem replace_get_flat_data:
  assumes "buffer_ok h b" "0 < length buf" "offset + length buf \<le> length (buf_bytes h b)" "length (buf_bytes h b) < 2 ^ 64"
  defines "h' \<equiv> Buffer_replace offset buf b h"
  shows "map_option (flat_bytes h' (length buf)) (get_flat_data h' b offset (length buf)) = Some buf
    \<and> take offset (buf_bytes h' b) = take offset (buf_bytes h b)
    \<and> drop (offset + length buf) (buf_bytes h' b) = drop (offset + length buf) (buf_bytes h b)
    \<and> length (buf_bytes h' b) = length (buf_bytes h b)"
proof -
  have small: "offset + length buf < 2 ^ 64" using assms(3,4) by linarith
  note r = Buffer_replace_result [OF assms(1) small, folded h'_def]
  have "map_option (flat_bytes h' (length buf)) (get_flat_data h' b offset (length buf)) = Some buf"
    using get_flat_data_result [OF r(1) assms(2) small] assms(3) overwrite_read [OF assms(3)] by (simp add: r(2))
  then show ?thesis using assms(3) by (simp add: r(2)) (simp add: overwrite_def)
qed

theorem replace_get_flat_data_witness:
  "\<exists>b h. Buffer_add_allocated [1, 2, 3] (Buffer_new 4) empty_heap = Some (b, h)
     \<and> map_option (flat_bytes (Buffer_replace 1 [8, 9] b h) 2) (get_flat_data (Buffer_replace 1 [8, 9] b h) b 1 2) = Some [8, 9]"
proof -
  have "buffer_ok empty_heap (Buffer_new 4)" by (simp add: buffer_ok_def Buffer_new_def)
  from Buffer_add_allocated_result [OF this, of "[1, 2, 3]"] obtain b h where
    b: "Buffer_add_allocated [1, 2, 3] (Buffer_new 4) empty_heap = Some (b, h)" "buffer_ok h b" "buf_bytes h b = [1, 2, 3]"
    by (auto simp: buf_bytes_def Buffer_new_def)
  have two: "length [8, 9 :: byte] = 2" by simp
  from replace_get_flat_data [OF b(2), of "[8, 9]" 1, unfolded two] b show ?thesis by auto
qed

text \<open>
  Adding a copy of a buffer takes the bytes from the start of an owned block even when the first of them
  have been consumed.
\<close>

lemma copy_of_consumed_segment:
  "\<exists>b h c h'. Buffer_add_allocated [1, 2, 3] (Buffer_new 4) empty_heap = Some (b, h)
     \<and> Buffer_add_buffer (fst (Buffer_consume 1 b h)) (Buffer_new 4) (snd (Buffer_consume 1 b h)) = Some (c, h')
     \<and> buf_bytes (snd (Buffer_consume 1 b h)) (fst (Buffer_consume 1 b h)) = [2, 3] \<and> buf_bytes h' c = [1, 2]"
  by (simp add: gather_evaluation Buffer_add_buffer_def Segment_copy_def buf_bytes_def seg_bytes_def)

text \<open>
  Tidying drops a segment that \<^verbatim>\<open>limit\<close> has emptied without freeing the block it owns: the buffer has no
  segment left, but the block is still allocated.
\<close>

lemma tidy_leaks_limited_block:
  "\<exists>b h b' h' n. Buffer_add_allocated [1, 2, 3] (Buffer_new 4) empty_heap = Some (b, h) \<and> Buffer_limit 0 b h = (n, b', h')
     \<and> segments (Buffer_tidy b') = [] \<and> h_blocks h' (h_next empty_heap) = Some [1, 2, 3]"
  by (simp add: gather_evaluation Buffer_tidy_filter)

end
