(* ===== verification/Gather_Reader.thy ===== *)
theory Gather_Reader
  imports Gather
begin

text \<open>
  Iterators over a gather buffer (\<^verbatim>\<open>BufferIterator\<close> in ot-gather.h) and the channel reader built on them
  (\<^verbatim>\<open>Gather::Reader\<close>, reader.cc). The reader is an interpretation of the contract of channel readers, so
  that everything proved of readers holds of it. Stepping back with \<^verbatim>\<open>-=\<close> may never end, and is a partial
  function: \<open>None\<close> is a loop that does not return.
\<close>

section \<open>Iterators\<close>

text \<open>\<open>None\<close> in \<open>it_dp\<close> is the address of the static \<^verbatim>\<open>end\<close>; \<open>it_segment\<close> is an index into the used slots.\<close>

record BufferIterator =
  it_segments :: "Segment list"
  it_segment :: nat
  it_countdown :: nat
  it_dp :: "ptr option"

definition is_end :: "BufferIterator \<Rightarrow> bool" where
  "is_end it \<longleftrightarrow> it_dp it = None"

definition BufferIterator_new :: "Segment list \<Rightarrow> nat \<Rightarrow> nat \<Rightarrow> ptr \<Rightarrow> BufferIterator" where
  "BufferIterator_new segs i countdown dp =
     \<lparr> it_segments = segs, it_segment = i, it_countdown = countdown, it_dp = (if i \<ge> length segs then None else Some dp) \<rparr>"

text \<open>The loop of \<^verbatim>\<open>next_segment\<close> after the increment, and of \<^verbatim>\<open>begin\<close>: the first segment from \<open>i\<close> that is not empty.\<close>

function skip_empty :: "Segment list \<Rightarrow> nat \<Rightarrow> BufferIterator" where
  "skip_empty segs i =
     (if i \<ge> length segs then \<lparr> it_segments = segs, it_segment = i, it_countdown = 0, it_dp = None \<rparr>
      else if seg_length (segs ! i) \<noteq> 0
      then \<lparr> it_segments = segs, it_segment = i, it_countdown = seg_length (segs ! i), it_dp = Some (seg_data (segs ! i)) \<rparr>
      else skip_empty segs (i + 1))"
  by pat_completeness auto
termination by (relation "measure (\<lambda>(segs, i). length segs - i)") auto

declare skip_empty.simps [simp del]

definition next_segment :: "BufferIterator \<Rightarrow> BufferIterator" where
  "next_segment it = skip_empty (it_segments it) (it_segment it + 1)"

definition Buffer_begin :: "Buffer \<Rightarrow> BufferIterator" where
  "Buffer_begin b = skip_empty (segments b) 0"

definition Buffer_end :: "Buffer \<Rightarrow> BufferIterator" where
  "Buffer_end b = BufferIterator_new (segments b) (length (segments b)) 0 null_ptr"

text \<open>The loop of \<^verbatim>\<open>previous_segment\<close>: the last segment before \<open>i\<close> that is not empty, or the first slot.\<close>

fun last_filled :: "Segment list \<Rightarrow> nat \<Rightarrow> nat" where
  "last_filled segs 0 = 0"
| "last_filled segs (Suc i) = (if seg_length (segs ! i) = 0 then last_filled segs i else i)"

text \<open>\<^verbatim>\<open>previous_segment\<close> when not in the first segment.\<close>

definition previous_back :: "BufferIterator \<Rightarrow> BufferIterator" where
  "previous_back it =
     (let segs = it_segments it; i = last_filled segs (it_segment it)
      in if seg_length (segs ! i) \<noteq> 0
         then it \<lparr> it_segment := i, it_countdown := 1, it_dp := Some (ptr_plus (seg_data (segs ! i)) (seg_length (segs ! i) - 1)) \<rparr>
         else next_segment (it \<lparr> it_segment := i \<rparr>))"

text \<open>In the first segment it goes to its start; a buffer with no segment has none to read, which is \<open>None\<close>.\<close>

definition previous_segment :: "BufferIterator \<Rightarrow> BufferIterator option" where
  "previous_segment it =
     (if it_segment it = 0
      then case it_segments it of [] \<Rightarrow> None
           | s # _ \<Rightarrow> Some (it \<lparr> it_countdown := seg_length s, it_dp := Some (seg_data s) \<rparr>)
      else Some (previous_back it))"

definition it_get_segment :: "BufferIterator \<Rightarrow> nat option" where
  "it_get_segment it = (if is_end it then None else Some (it_segment it))"

definition get_segment_offset :: "BufferIterator \<Rightarrow> nat" where
  "get_segment_offset it = (if is_end it then 0 else seg_length (it_segments it ! it_segment it) - it_countdown it)"

definition it_equal :: "BufferIterator \<Rightarrow> BufferIterator \<Rightarrow> bool" where
  "it_equal it it' \<longleftrightarrow> it_dp it = it_dp it'"

definition move_dp :: "(ptr \<Rightarrow> ptr) \<Rightarrow> BufferIterator \<Rightarrow> BufferIterator" where
  "move_dp f it = it \<lparr> it_dp := map_option f (it_dp it) \<rparr>"

definition it_inc :: "BufferIterator \<Rightarrow> BufferIterator" where
  "it_inc it =
     (if is_end it then it
      else let it = it \<lparr> it_countdown := it_countdown it - 1 \<rparr>
           in if it_countdown it = 0 then next_segment it else move_dp (\<lambda>p. ptr_plus p 1) it)"

lemma skip_empty_it:
  "it_segments (skip_empty segs i) = segs \<and> i \<le> it_segment (skip_empty segs i)
   \<and> (is_end (skip_empty segs i) \<or> it_segment (skip_empty segs i) < length segs)"
proof (induction segs i rule: skip_empty.induct)
  case (1 segs i)
  show ?case
  proof (cases "i < length segs \<and> seg_length (segs ! i) = 0")
    case True
    then have "skip_empty segs i = skip_empty segs (i + 1)" by (subst skip_empty.simps) simp
    with 1 True show ?thesis by simp
  qed (subst (1 2 3 4) skip_empty.simps, auto simp: is_end_def)
qed

function it_add :: "nat \<Rightarrow> BufferIterator \<Rightarrow> BufferIterator" where
  "it_add n it =
     (if n \<ge> it_countdown it
      then if is_end it then it
           else it_add (n - it_countdown it) (next_segment it)
      else move_dp (\<lambda>p. ptr_plus p n) (it \<lparr> it_countdown := it_countdown it - n \<rparr>))"
  by pat_completeness auto
termination
proof (relation "measure (\<lambda>(n, it). if is_end it then 0 else Suc (length (it_segments it) - it_segment it))")
  fix n it assume "\<not> is_end it"
  then show "((n - it_countdown it, next_segment it), (n, it)) \<in> measure (\<lambda>(n, it). if is_end it then 0 else Suc (length (it_segments it) - it_segment it))"
    using skip_empty_it [of "it_segments it" "it_segment it + 1"] by (auto simp: next_segment_def)
qed simp

declare it_add.simps [simp del]

definition it_dec :: "BufferIterator \<Rightarrow> BufferIterator option" where
  "it_dec it =
     (if is_end it then previous_segment it
      else let it = it \<lparr> it_countdown := it_countdown it + 1 \<rparr>
           in if it_countdown it > seg_length (it_segments it ! it_segment it) then previous_segment it
              else Some (move_dp (\<lambda>p. (fst p, snd p - 1)) it))"

text \<open>Stepping back: \<open>Inl\<close> is the string literal thrown.\<close>

partial_function (option) it_sub :: "u64 \<Rightarrow> BufferIterator \<Rightarrow> (string + BufferIterator) option" where
  "it_sub n it =
     (let off = seg_length (it_segments it ! it_segment it) - it_countdown it
      in if is_end it \<or> n > of_nat off
         then if it_segment it = 0 then Some (Inl ''Attempt to decrement past start of buffer'')
              else it_sub (if is_end it then n - 1 else n - (of_nat off + 1)) (previous_back it)
         else Some (Inr (move_dp (\<lambda>p. (fst p, snd p - unat n)) (it \<lparr> it_countdown := it_countdown it + unat n \<rparr>))))"

definition it_deref :: "heap \<Rightarrow> BufferIterator \<Rightarrow> byte list" where
  "it_deref h it = (case it_dp it of None \<Rightarrow> [0] | Some p \<Rightarrow> mem_read h p 1)"

text \<open>\<^verbatim>\<open>Buffer::copy\<close> from an iterator.\<close>

fun copy_from_loop :: "heap \<Rightarrow> nat \<Rightarrow> nat \<Rightarrow> byte list \<Rightarrow> Segment list \<Rightarrow> byte list" where
  "copy_from_loop h len segment_offset got [] = got"
| "copy_from_loop h len segment_offset got (segment # ss) =
     (let to_read = min (len - length got) (seg_length segment - segment_offset);
          got' = got @ mem_read h (ptr_plus (seg_data segment) segment_offset) to_read
      in if length got' \<ge> len then got' else copy_from_loop h len 0 got' ss)"

definition Buffer_copy_from :: "heap \<Rightarrow> Buffer \<Rightarrow> BufferIterator \<Rightarrow> nat \<Rightarrow> byte list" where
  "Buffer_copy_from h b it len =
     (case it_get_segment it of
        None \<Rightarrow> []
      | Some i \<Rightarrow> if i \<ge> length (segments b) then []
                  else copy_from_loop h len (get_segment_offset it) [] (drop i (segments b)))"

section \<open>The reader\<close>

record GatherReader =
  gr_heap :: heap
  gr_buffer :: Buffer
  gr_it :: BufferIterator
  gr_offset :: u64

definition gather_reader :: "heap \<Rightarrow> Buffer \<Rightarrow> GatherReader" where
  "gather_reader h b = \<lparr> gr_heap = h, gr_buffer = b, gr_it = Buffer_begin b, gr_offset = 0 \<rparr>"

definition gather_basic_read :: "nat \<Rightarrow> (GatherReader, byte list) chan" where
  "gather_basic_read count r =
     (if count \<noteq> 0
      then let got = Buffer_copy_from (gr_heap r) (gr_buffer r) (gr_it r) count
           in (Inr got, r \<lparr> gr_it := it_add (length got) (gr_it r), gr_offset := gr_offset r + of_nat (length got) \<rparr>)
      else (Inr [], r))"

definition gather_skip :: "u64 \<Rightarrow> (GatherReader, unit) chan" where
  "gather_skip n r =
     (if gr_offset r + n > of_nat (get_length (gr_buffer r)) then (Inl (Error 1 ''Skip beyond end of block''), r)
      else (Inr (), r \<lparr> gr_offset := gr_offset r + n, gr_it := it_add (unat n) (gr_it r) \<rparr>))"

text \<open>Besides the channel's \<^verbatim>\<open>Error\<close> a rewind may throw the iterator's string literal, after the offset has moved.\<close>

datatype gather_exception = Channel_error chan_error | Literal string

definition gather_rewind :: "u64 \<Rightarrow> GatherReader \<Rightarrow> ((gather_exception + unit) \<times> GatherReader) option" where
  "gather_rewind n r =
     (if n \<le> gr_offset r
      then let r' = r \<lparr> gr_offset := gr_offset r - n \<rparr>
           in case it_sub n (gr_it r) of
                None \<Rightarrow> None
              | Some (Inl e) \<Rightarrow> Some (Inl (Literal e), r')
              | Some (Inr it) \<Rightarrow> Some (Inr (), r' \<lparr> gr_it := it \<rparr>)
      else Some (Inl (Channel_error (Error 1 ''Rewound too far'')), r))"

text \<open>The version without an argument goes back to the start.\<close>

definition gather_rewind_all :: "GatherReader \<Rightarrow> ((gather_exception + unit) \<times> GatherReader) option" where
  "gather_rewind_all r = gather_rewind (gr_offset r) r"

definition GatherReader_methods :: "GatherReader Reader" where
  "GatherReader_methods =
     \<lparr> basic_read = gather_basic_read, try_read = reader_try_read gather_basic_read,
       try_read_string = reader_try_read_string gather_basic_read,
       skip = gather_skip, get_offset = gr_offset \<rparr>"

section \<open>Positions\<close>

text \<open>Where segment \<open>i\<close> starts, and the iterator that stands at a byte of it.\<close>

definition start_of :: "Segment list \<Rightarrow> nat \<Rightarrow> nat" where
  "start_of segs i = sum_list (map seg_length (take i segs))"

definition it_on :: "Segment list \<Rightarrow> nat \<Rightarrow> nat \<Rightarrow> BufferIterator" where
  "it_on segs i off = \<lparr> it_segments = segs, it_segment = i, it_countdown = seg_length (segs ! i) - off,
     it_dp = Some (ptr_plus (seg_data (segs ! i)) off) \<rparr>"

definition it_end :: "Segment list \<Rightarrow> BufferIterator" where
  "it_end segs = \<lparr> it_segments = segs, it_segment = length segs, it_countdown = 0, it_dp = None \<rparr>"

definition total_length :: "Segment list \<Rightarrow> nat" where
  "total_length segs = sum_list (map seg_length segs)"

text \<open>\<open>it_pos segs p it\<close>: the iterator stands at byte \<open>p\<close> of the concatenation, or at the end.\<close>

definition it_pos :: "Segment list \<Rightarrow> nat \<Rightarrow> BufferIterator \<Rightarrow> bool" where
  "it_pos segs p it \<longleftrightarrow>
     (\<exists>i off. i < length segs \<and> off < seg_length (segs ! i) \<and> p = start_of segs i + off \<and> it = it_on segs i off)
     \<or> p = total_length segs \<and> it = it_end segs"

lemma start_of_simps [simp]:
  "start_of segs 0 = 0" "start_of segs (length segs) = total_length segs"
  "i < length segs \<Longrightarrow> start_of segs (Suc i) = start_of segs i + seg_length (segs ! i)"
  by (simp_all add: start_of_def total_length_def take_Suc_conv_app_nth)

lemma start_of_total: "i < length segs \<Longrightarrow> start_of segs i + seg_length (segs ! i) \<le> total_length segs"
proof -
  assume "i < length segs"
  then have "total_length segs = start_of segs i + seg_length (segs ! i) + sum_list (map seg_length (drop (Suc i) segs))"
    unfolding total_length_def start_of_def by (subst (1) id_take_nth_drop [of i segs]) simp_all
  then show ?thesis by simp
qed

lemma it_pos_on: "i < length segs \<Longrightarrow> off < seg_length (segs ! i) \<Longrightarrow> it_pos segs (start_of segs i + off) (it_on segs i off)"
  unfolding it_pos_def by blast

lemma it_pos_end: "it_pos segs (total_length segs) (it_end segs)"
  by (simp add: it_pos_def)

lemma it_on_simps [simp]:
  "it_segments (it_on segs i off) = segs" "it_segment (it_on segs i off) = i"
  "it_countdown (it_on segs i off) = seg_length (segs ! i) - off" "\<not> is_end (it_on segs i off)"
  by (simp_all add: it_on_def is_end_def)

lemma it_end_simps [simp]:
  "it_segments (it_end segs) = segs" "it_segment (it_end segs) = length segs" "is_end (it_end segs)" "it_countdown (it_end segs) = 0"
  by (simp_all add: it_end_def is_end_def)

lemma skip_empty_pos: "i \<le> length segs \<Longrightarrow> it_pos segs (start_of segs i) (skip_empty segs i)"
proof (induction segs i rule: skip_empty.induct)
  case (1 segs i)
  consider "i = length segs" | "i < length segs" "seg_length (segs ! i) \<noteq> 0" | "i < length segs" "seg_length (segs ! i) = 0"
    using 1(2) by linarith
  then show ?case
  proof cases
    case 1
    then have "skip_empty segs i = it_end segs" by (subst skip_empty.simps) (simp add: it_end_def)
    with 1 it_pos_end show ?thesis by simp
  next
    case 2
    then have "skip_empty segs i = it_on segs i 0" by (subst skip_empty.simps) (simp add: it_on_def ptr_plus_def)
    with 2 it_pos_on [of i segs 0] show ?thesis by simp
  next
    case 3
    then have "skip_empty segs i = skip_empty segs (i + 1)" by (subst skip_empty.simps) simp
    with 3 1(1) show ?thesis by simp
  qed
qed

lemma it_pos_le: "it_pos segs p it \<Longrightarrow> p \<le> total_length segs"
  unfolding it_pos_def using start_of_total by fastforce

lemma it_add_pos: "it_pos segs p it \<Longrightarrow> it_pos segs (min (p + n) (total_length segs)) (it_add n it)"
proof (induction n it arbitrary: p rule: it_add.induct)
  case (1 n it)
  show ?case
  proof (cases "is_end it")
    case True
    then have "p = total_length segs" "it = it_end segs" using 1(2) by (auto simp: it_pos_def)
    then show ?thesis by (subst it_add.simps) (simp add: it_pos_end min_def)
  next
    case False
    then obtain i off where i: "i < length segs" "off < seg_length (segs ! i)" "p = start_of segs i + off" "it = it_on segs i off"
      using 1(2) by (auto simp: it_pos_def)
    show ?thesis
    proof (cases "n \<ge> it_countdown it")
      case True
      have step: "it_add n it = it_add (n - it_countdown it) (next_segment it)" using True False by (subst it_add.simps) simp
      have "it_pos segs (start_of segs (Suc i)) (next_segment it)"
        using skip_empty_pos [of "Suc i" segs] i(1) by (simp add: next_segment_def i(4))
      from 1(1) [OF True False this] step True i show ?thesis by (simp add: algebra_simps)
    next
      case False
      then have "it_add n it = it_on segs i (off + n)"
        by (subst it_add.simps) (simp add: i(4), simp add: move_dp_def it_on_def ptr_plus_def)
      moreover have "it_pos segs (start_of segs i + (off + n)) (it_on segs i (off + n))"
        using False i by (intro it_pos_on) auto
      moreover have "p + n \<le> total_length segs" using start_of_total [OF i(1)] False i by simp
      ultimately show ?thesis using i(3) by (simp add: min_def add.assoc)
    qed
  qed
qed

lemma last_filled_spec:
  "0 < i \<Longrightarrow> i \<le> length segs \<Longrightarrow>
   last_filled segs i < i \<and> (if seg_length (segs ! last_filled segs i) \<noteq> 0
     then start_of segs i = start_of segs (last_filled segs i) + seg_length (segs ! last_filled segs i)
     else start_of segs i = 0 \<and> last_filled segs i = 0)"
proof (induction i)
  case (Suc i)
  then have "start_of segs (Suc i) = start_of segs i + seg_length (segs ! i)" by simp
  with Suc show ?case by (cases "i = 0") auto
qed simp

lemma previous_back_pos:
  assumes "it_segments it = segs" "0 < it_segment it" "it_segment it \<le> length segs" "0 < start_of segs (it_segment it)"
  shows "it_pos segs (start_of segs (it_segment it) - 1) (previous_back it)"
proof -
  define i where "i = last_filled segs (it_segment it)"
  have i: "i < it_segment it" "seg_length (segs ! i) \<noteq> 0" "start_of segs (it_segment it) = start_of segs i + seg_length (segs ! i)"
    using last_filled_spec [OF assms(2,3)] assms(4) by (auto simp: i_def split: if_splits)
  then have "previous_back it = it_on segs i (seg_length (segs ! i) - 1)"
    using assms(1) by (simp add: previous_back_def Let_def i_def [symmetric] it_on_def)
  with it_pos_on [of i segs "seg_length (segs ! i) - 1"] i assms(3) show ?thesis by simp
qed

lemma it_sub_pos:
  "it_pos segs p it \<Longrightarrow> unat n \<le> p \<Longrightarrow> 0 < n \<or> p < total_length segs \<Longrightarrow> total_length segs < 2 ^ 64 \<Longrightarrow>
   \<exists>it'. it_sub n it = Some (Inr it') \<and> it_pos segs (p - unat n) it'"
proof (induction "unat n" arbitrary: n p it rule: less_induct)
  case less
  show ?case
  proof (cases "is_end it")
    case True
    then have it: "p = total_length segs" "it = it_end segs" using less.prems(1) by (auto simp: it_pos_def)
    then have n: "0 < n" "0 < total_length segs" using less.prems(2,3) by (auto simp: word_less_nat_alt)
    then have "segs \<noteq> []" by (auto simp: total_length_def)
    have "unat (n - 1) = unat n - 1" using n(1) by (intro unat_minus_one) auto
    moreover have "it_pos segs (total_length segs - 1) (previous_back it)"
      using previous_back_pos [of it segs] \<open>segs \<noteq> []\<close> n(2) by (simp add: it(2))
    moreover have "it_sub n it = it_sub (n - 1) (previous_back it)"
      using \<open>segs \<noteq> []\<close> by (subst it_sub.simps) (simp add: it(2))
    ultimately show ?thesis
      using less.hyps [of "n - 1" "total_length segs - 1" "previous_back it"] less.prems(2,4) n it(1)
      by (auto simp: word_less_nat_alt)
  next
    case False
    then obtain i off where i: "i < length segs" "off < seg_length (segs ! i)" "p = start_of segs i + off" "it = it_on segs i off"
      using less.prems(1) by (auto simp: it_pos_def)
    have off64: "off < 2 ^ 64" using start_of_total [OF i(1)] i(2) less.prems(4) by linarith
    then have cmp: "n > of_nat off \<longleftrightarrow> unat n > off" by (simp add: word_less_nat_alt unat_of_nat)
    have o': "seg_length (segs ! i) - (seg_length (segs ! i) - off) = off" using i(2) by simp
    show ?thesis
    proof (cases "unat n > off")
      case True
      then have "0 < start_of segs i" using less.prems(2) i(3) by linarith
      then have "0 < i" by (cases i) auto
      have "unat (of_nat (Suc off) :: u64) = Suc off" using True unat_u64_less [of n] by (simp only: unat_of_nat) simp
      then have u: "unat (n - (of_nat off + 1)) = unat n - (off + 1)"
        using True by (subst unat_sub) (simp_all add: word_le_nat_alt add.commute)
      have "it_sub n it = it_sub (n - (of_nat off + 1)) (previous_back it)"
        using True cmp \<open>0 < i\<close> by (subst it_sub.simps) (simp add: i(4) o' Let_def)
      moreover have "it_pos segs (start_of segs i - 1) (previous_back it)"
        using previous_back_pos [of it segs] \<open>0 < i\<close> i(1) \<open>0 < start_of segs i\<close> by (simp add: i(4))
      moreover have "start_of segs i - 1 < total_length segs" using start_of_total [OF i(1)] i(2) by linarith
      ultimately show ?thesis
        using less.hyps [of "n - (of_nat off + 1)" "start_of segs i - 1" "previous_back it"] u True less.prems(2,4) i(3)
        by (auto simp: )
    next
      case False
      then have "it_sub n it = Some (Inr (it_on segs i (off - unat n)))"
        using cmp i(2) by (subst it_sub.simps) (simp add: i(4) o' Let_def, simp add: move_dp_def it_on_def ptr_plus_def)
      moreover have "it_pos segs (start_of segs i + (off - unat n)) (it_on segs i (off - unat n))"
        using i by (intro it_pos_on) auto
      ultimately show ?thesis using i(3) False by simp
    qed
  qed
qed

lemma copy_from_loop_result:
  "segs_ok h segs \<Longrightarrow> length got \<le> len \<Longrightarrow> (case segs of [] \<Rightarrow> True | s # _ \<Rightarrow> off \<le> seg_length s) \<Longrightarrow>
   copy_from_loop h len off got segs = got @ take (len - length got) (drop off (segs_bytes h segs))"
proof (induction segs arbitrary: got off)
  case (Cons s ss)
  define part where "part = mem_read h (ptr_plus (seg_data s) off) (min (len - length got) (seg_length s - off))"
  have ok: "seg_ok h s" "segs_ok h ss" "off \<le> seg_length s" using Cons.prems by simp_all
  note p = run_in_segment [OF ok(1,3), of "len - length got", folded part_def]
  have step: "copy_from_loop h len off got (s # ss) = (if len \<le> length (got @ part) then got @ part else copy_from_loop h len 0 (got @ part) ss)"
    by (simp only: copy_from_loop.simps Let_def part_def)
  have "length (got @ part) \<le> len" using p(2) Cons.prems(2) by simp
  then show ?case
    unfolding step segs_bytes_simps p(3) using Cons.IH [OF ok(2), of "got @ part" 0] by (auto split: list.split)
qed simp

lemma segs_bytes_drop: "segs_ok h segs \<Longrightarrow> drop (start_of segs i) (segs_bytes h segs) = segs_bytes h (drop i segs)"
proof -
  assume ok: "segs_ok h segs"
  obtain ps qs where pq: "take i segs = ps" "drop i segs = qs" "segs = ps @ qs" by (metis append_take_drop_id)
  then have "length (segs_bytes h ps) = start_of segs i" using segs_bytes_length [of h ps] ok by (simp add: segs_ok_append start_of_def)
  then show ?thesis using pq by simp
qed

lemma Buffer_copy_from_pos:
  assumes "segs_ok h (segments b)" "it_pos (segments b) p it"
  shows "Buffer_copy_from h b it len = take len (drop p (segs_bytes h (segments b)))"
proof (cases "is_end it")
  case True
  then have "p = total_length (segments b)" using assms(2) by (auto simp: it_pos_def)
  with True segs_bytes_length [OF assms(1)] show ?thesis by (simp add: Buffer_copy_from_def it_get_segment_def total_length_def)
next
  case False
  then obtain i off where i: "i < length (segments b)" "off < seg_length (segments b ! i)" "p = start_of (segments b) i + off" "it = it_on (segments b) i off"
    using assms(2) by (auto simp: it_pos_def)
  have "segs_ok h (drop i (segments b))" using assms(1) by (metis append_take_drop_id segs_ok_append)
  moreover have "drop i (segments b) = segments b ! i # drop (Suc i) (segments b)" using i(1) by (simp add: Cons_nth_drop_Suc)
  ultimately have "copy_from_loop h len off [] (drop i (segments b)) = take len (drop off (segs_bytes h (drop i (segments b))))"
    using copy_from_loop_result [of h "drop i (segments b)" "[]" len off] i(2) by simp
  moreover have "drop p (segs_bytes h (segments b)) = drop off (segs_bytes h (drop i (segments b)))"
    using segs_bytes_drop [OF assms(1), of i] by (metis drop_drop add.commute i(3))
  ultimately show ?thesis using i by (simp add: Buffer_copy_from_def it_get_segment_def get_segment_offset_def)
qed

section \<open>The reader meets the contract\<close>

definition gather_reader_ok :: "GatherReader \<Rightarrow> bool" where
  "gather_reader_ok r \<longleftrightarrow> buffer_ok (gr_heap r) (gr_buffer r) \<and> get_length (gr_buffer r) < 2 ^ 64
     \<and> it_pos (segments (gr_buffer r)) (unat (gr_offset r)) (gr_it r)"

definition gather_rest :: "GatherReader \<Rightarrow> byte list" where
  "gather_rest r = drop (unat (gr_offset r)) (buf_bytes (gr_heap r) (gr_buffer r))"

lemma get_length_total: "get_length b = total_length (segments b)"
  by (simp add: get_length_def total_length_def)

lemma buf_bytes_length: "buffer_ok h b \<Longrightarrow> length (buf_bytes h b) = total_length (segments b)"
  using segs_bytes_length [of h "segments b"] by (simp add: buffer_ok_def buf_bytes_def total_length_def)

text \<open>Moving the iterator and the offset together.\<close>

lemma gather_advance:
  assumes "gather_reader_ok r" "unat (gr_offset r) + n \<le> total_length (segments (gr_buffer r))"
  defines "r' \<equiv> r \<lparr> gr_it := it_add n (gr_it r), gr_offset := gr_offset r + of_nat n \<rparr>"
  shows "gather_reader_ok r'" "gather_rest r' = drop n (gather_rest r)"
proof -
  have "unat (gr_offset r + of_nat n) = unat (gr_offset r) + n"
    using assms(1,2) by (intro offset_advance) (auto simp: gather_reader_ok_def get_length_total)
  with it_add_pos [of "segments (gr_buffer r)" "unat (gr_offset r)" "gr_it r" n] assms(1,2)
  show "gather_reader_ok r'" "gather_rest r' = drop n (gather_rest r)"
    by (simp_all add: r'_def gather_reader_ok_def gather_rest_def min_absorb1 add.commute)
qed

lemma gather_basic_read_ok:
  assumes "gather_reader_ok r"
  shows "\<exists>r'. gather_basic_read n r = (Inr (take n (gather_rest r)), r') \<and> gather_reader_ok r' \<and> gather_rest r' = drop n (gather_rest r)"
proof (cases "n = 0")
  case True
  with assms show ?thesis by (simp add: gather_basic_read_def)
next
  case False
  define k where "k = length (take n (gather_rest r))"
  have ok: "segs_ok (gr_heap r) (segments (gr_buffer r))" "buffer_ok (gr_heap r) (gr_buffer r)"
    "it_pos (segments (gr_buffer r)) (unat (gr_offset r)) (gr_it r)" using assms by (simp_all add: gather_reader_ok_def buffer_ok_def)
  have got: "Buffer_copy_from (gr_heap r) (gr_buffer r) (gr_it r) n = take n (gather_rest r)"
    using Buffer_copy_from_pos [OF ok(1,3)] by (simp add: gather_rest_def buf_bytes_def)
  have "unat (gr_offset r) + k \<le> total_length (segments (gr_buffer r))"
    using it_pos_le [OF ok(3)] buf_bytes_length [OF ok(2)] by (simp add: k_def gather_rest_def)
  note gather_advance [OF assms this]
  moreover have "drop k (gather_rest r) = drop n (gather_rest r)" by (simp add: k_def min_def)
  ultimately show ?thesis using False by (simp add: gather_basic_read_def got k_def Let_def)
qed

interpretation gat: channel_reader gather_basic_read gather_reader_ok gather_rest
  by (rule channel_reader_full) (rule gather_basic_read_ok)

lemma GatherReader_try_read [simp]: "try_read GatherReader_methods = reader_try_read gather_basic_read"
  by (simp add: GatherReader_methods_def)

lemma gather_reader_start:
  assumes "buffer_ok h b" "get_length b < 2 ^ 64"
  shows "gather_reader_ok (gather_reader h b)" "gather_rest (gather_reader h b) = buf_bytes h b"
  using assms skip_empty_pos [of 0 "segments b"] by (simp_all add: gather_reader_ok_def gather_reader_def gather_rest_def Buffer_begin_def)

text \<open>Going back over what was read.\<close>

lemma gather_rewind_result:
  assumes "gather_reader_ok r" "n \<le> gr_offset r" "0 < n \<or> gather_rest r \<noteq> []"
  shows "\<exists>r'. gather_rewind n r = Some (Inr (), r') \<and> gather_reader_ok r' \<and> gr_offset r' = gr_offset r - n
    \<and> gr_heap r' = gr_heap r \<and> gr_buffer r' = gr_buffer r"
proof -
  have ok: "buffer_ok (gr_heap r) (gr_buffer r)" "it_pos (segments (gr_buffer r)) (unat (gr_offset r)) (gr_it r)"
    "total_length (segments (gr_buffer r)) < 2 ^ 64" using assms(1) by (simp_all add: gather_reader_ok_def get_length_total)
  have "unat n \<le> unat (gr_offset r)" "unat (gr_offset r - n) = unat (gr_offset r) - unat n"
    using assms(2) by (simp_all add: word_le_nat_alt unat_sub)
  moreover have "0 < n \<or> unat (gr_offset r) < total_length (segments (gr_buffer r))"
    using assms(3) buf_bytes_length [OF ok(1)] by (auto simp: gather_rest_def)
  ultimately show ?thesis
    using it_sub_pos [OF ok(2), of n] ok(3) assms(1,2) by (auto simp: gather_rewind_def gather_reader_ok_def)
qed

text \<open>Stepping back from the end of a buffer all of whose segments are empty never returns.\<close>

lemma last_filled_empty: "\<forall>i < length segs. seg_length (segs ! i) = 0 \<Longrightarrow> i \<le> length segs \<Longrightarrow> last_filled segs i = 0"
  by (induction i) auto

lemma previous_back_empty:
  assumes "\<forall>i < length segs. seg_length (segs ! i) = 0" "segs \<noteq> []"
  shows "previous_back (it_end segs) = it_end segs"
proof -
  have "it_pos segs (start_of segs 1) (skip_empty segs 1)" using assms(2) by (intro skip_empty_pos) (cases segs, auto)
  then have "skip_empty segs 1 = it_end segs" using assms(1) by (auto simp: it_pos_def)
  then show ?thesis using assms last_filled_empty [OF assms(1), of "length segs"] by (simp add: previous_back_def next_segment_def)
qed

lemma it_sub_empty_diverges:
  assumes "\<forall>i < length segs. seg_length (segs ! i) = 0" "segs \<noteq> []"
  shows "it_sub n (it_end segs) = None"
proof -
  have "it_sub n it = Some r \<Longrightarrow> it \<noteq> it_end segs" for n it r
  proof (induction rule: it_sub.raw_induct [rotated 1, consumes 1])
    case (1 sub n it r)
    then show ?case using previous_back_empty [OF assms] assms(2) by (auto simp: Let_def split: if_splits)
  qed
  then show ?thesis by (cases "it_sub n (it_end segs)") auto
qed

text \<open>Stepping back too far throws, provided the first segment is not empty.\<close>

lemma it_sub_too_far:
  "it_pos segs p it \<Longrightarrow> p < unat n \<Longrightarrow> \<not> is_end it \<Longrightarrow> seg_length (segs ! 0) \<noteq> 0 \<Longrightarrow> total_length segs < 2 ^ 64 \<Longrightarrow>
   it_sub n it = Some (Inl ''Attempt to decrement past start of buffer'')"
proof (induction "unat n" arbitrary: n p it rule: less_induct)
  case less
  obtain i off where i: "i < length segs" "off < seg_length (segs ! i)" "p = start_of segs i + off" "it = it_on segs i off"
    using less.prems(1,3) by (auto simp: it_pos_def)
  have off: "off < unat n" "of_nat off < n" "unat (of_nat (Suc off) :: u64) = Suc off"
    using less.prems(2) i(3) unat_u64_less [of n] by (simp_all add: word_less_nat_alt unat_of_nat del: of_nat_Suc)
  have o': "seg_length (segs ! i) - (seg_length (segs ! i) - off) = off" using i(2) by simp
  show ?case
  proof (cases "i = 0")
    case True
    with off show ?thesis by (subst it_sub.simps) (simp add: i(4) o' [unfolded True] Let_def)
  next
    case False
    have u: "unat (n - (of_nat off + 1)) = unat n - (off + 1)"
      using off by (subst unat_sub) (simp_all add: word_le_nat_alt add.commute)
    have "seg_length (segs ! 0) \<le> start_of segs i" using False i(1) by (cases segs; cases i) (auto simp: start_of_def)
    then have "0 < start_of segs i" using less.prems(4) by simp
    then have pos: "it_pos segs (start_of segs i - 1) (previous_back it)"
      using previous_back_pos [of it segs] False i(1) by (simp add: i(4))
    have "start_of segs i - 1 < total_length segs" using start_of_total [OF i(1)] i(2) by linarith
    then have "\<not> is_end (previous_back it)" using pos by (auto simp: it_pos_def)
    then have "it_sub (n - (of_nat off + 1)) (previous_back it) = Some (Inl ''Attempt to decrement past start of buffer'')"
      using pos off u less.prems(2,4,5) i(3) \<open>0 < start_of segs i\<close> by (intro less.hyps [of _ "start_of segs i - 1"]) auto
    then show ?thesis using off False by (subst it_sub.simps) (simp add: i(4) o' Let_def)
  qed
qed

text \<open>
  With an empty first segment it does not throw: it goes round at the first byte until the number to step back,
  which has wrapped below zero, has been counted down.
\<close>

lemma previous_back_start:
  assumes "it_segments it = segs" "0 < it_segment it" "it_segment it \<le> length segs" "start_of segs (it_segment it) = 0" "seg_length (segs ! 0) = 0"
  shows "it_pos segs 0 (previous_back it)"
proof -
  have "last_filled segs (it_segment it) = 0" using last_filled_spec [OF assms(2,3)] assms(4) by (auto split: if_splits)
  then have "previous_back it = skip_empty segs 1" using assms(1,5) by (simp add: previous_back_def next_segment_def)
  moreover have "it_pos segs (start_of segs 1) (skip_empty segs 1)" using assms(2,3) by (intro skip_empty_pos) linarith
  moreover have "segs \<noteq> []" using assms(2,3) by auto
  then have "start_of segs 1 = 0" using assms(5) start_of_simps(3) [of 0 segs] by simp
  ultimately show ?thesis by simp
qed

lemma it_sub_goes_round:
  "it_pos segs p it \<Longrightarrow> p < unat n \<Longrightarrow> \<not> is_end it \<Longrightarrow> seg_length (segs ! 0) = 0 \<Longrightarrow> 0 < total_length segs \<Longrightarrow> total_length segs < 2 ^ 64 \<Longrightarrow>
   \<exists>it'. it_sub n it = Some (Inr it') \<and> it_pos segs 0 it'"
proof (induction "unat n" arbitrary: n p it rule: less_induct)
  case less
  obtain i off where i: "i < length segs" "off < seg_length (segs ! i)" "p = start_of segs i + off" "it = it_on segs i off"
    using less.prems(1,3) by (auto simp: it_pos_def)
  have "0 < i" using i(2) less.prems(4) by (cases i) auto
  have off: "off < unat n" "of_nat off < n" "unat (of_nat (Suc off) :: u64) = Suc off"
    using less.prems(2) i(3) unat_u64_less [of n] by (simp_all add: word_less_nat_alt unat_of_nat del: of_nat_Suc)
  have o': "seg_length (segs ! i) - (seg_length (segs ! i) - off) = off" using i(2) by simp
  define n' where "n' = n - (of_nat off + 1)"
  have u: "unat n' = unat n - (off + 1)" unfolding n'_def using off by (subst unat_sub) (simp_all add: word_le_nat_alt add.commute)
  have step: "it_sub n it = it_sub n' (previous_back it)"
    using off \<open>0 < i\<close> by (subst it_sub.simps) (simp add: i(4) o' Let_def n'_def)
  define p' where "p' = start_of segs i - 1"
  have pos: "it_pos segs p' (previous_back it)"
    using previous_back_pos [of it segs] previous_back_start [of it segs] \<open>0 < i\<close> i(1) less.prems(4)
    by (cases "start_of segs i = 0") (simp_all add: i(4) p'_def)
  have p': "p' < total_length segs" using start_of_total [OF i(1)] i(2) less.prems(5) by (simp add: p'_def)
  then have "\<not> is_end (previous_back it)" using pos by (auto simp: it_pos_def)
  show ?case
  proof (cases "p' < unat n'")
    case True
    with less.hyps [OF _ pos] u off(1) \<open>\<not> is_end (previous_back it)\<close> less.prems(4-6) step show ?thesis by simp
  next
    case False
    then have "unat n' \<le> p'" "p' - unat n' = 0" using u less.prems(2) i(3) by (simp_all add: p'_def)
    with it_sub_pos [OF pos, of n'] p' less.prems(6) step show ?thesis by simp
  qed
qed

lemma it_sub_zero_goes_round:
  assumes "segs \<noteq> []" "seg_length (segs ! 0) = 0" "0 < total_length segs" "total_length segs < 2 ^ 64"
  shows "\<exists>it'. it_sub 0 (it_end segs) = Some (Inr it') \<and> it_pos segs 0 it'"
proof -
  have pos: "it_pos segs (total_length segs - 1) (previous_back (it_end segs))"
    using previous_back_pos [of "it_end segs" segs] assms by simp
  moreover have "\<not> is_end (previous_back (it_end segs))" using pos assms(3) by (auto simp: it_pos_def)
  moreover have "unat (0 - 1 :: u64) = 2 ^ 64 - 1" by (simp add: unsigned_minus_1_eq_mask mask_eq_exp_minus_1)
  ultimately have "\<exists>it'. it_sub (0 - 1) (previous_back (it_end segs)) = Some (Inr it') \<and> it_pos segs 0 it'"
    using assms by (intro it_sub_goes_round [OF pos]) linarith+
  then show ?thesis using assms(1) by (subst it_sub.simps) simp
qed

lemma it_sub_zero_at_end:
  assumes "segs = [] \<or> seg_length (segs ! 0) \<noteq> 0" "total_length segs < 2 ^ 64"
  shows "it_sub 0 (it_end segs) = Some (Inl ''Attempt to decrement past start of buffer'')"
proof (cases "segs = []")
  case True
  then show ?thesis by (subst it_sub.simps) (simp add: it_end_def is_end_def)
next
  case False
  then have z: "seg_length (segs ! 0) \<noteq> 0" "seg_length (segs ! 0) \<le> total_length segs"
    using assms(1) start_of_total [of 0 segs] by auto
  then have pos: "it_pos segs (total_length segs - 1) (previous_back (it_end segs))"
    using previous_back_pos [of "it_end segs" segs] False by simp
  moreover have "\<not> is_end (previous_back (it_end segs))" using pos z by (auto simp: it_pos_def)
  moreover have "unat (0 - 1 :: u64) = 2 ^ 64 - 1" by (simp add: unsigned_minus_1_eq_mask mask_eq_exp_minus_1)
  ultimately have "it_sub (0 - 1) (previous_back (it_end segs)) = Some (Inl ''Attempt to decrement past start of buffer'')"
    using z assms(2) by (intro it_sub_too_far [OF pos]) linarith+
  then show ?thesis using False by (subst it_sub.simps) simp
qed

section \<open>Properties\<close>

text \<open>
  C22: Reading a gather buffer through its reader is reading its bytes. An exact read of \<open>n\<close> bytes succeeds
  exactly when that many remain, whatever the division into segments, returns them and stands after them;
  otherwise it is the EOF error with the data used up.
\<close>

theorem gather_read_exact:
  assumes "gather_reader_ok r"
  shows "\<exists>r'. reader_read GatherReader_methods n r =
      (if n \<le> length (gather_rest r) then Inr (take n (gather_rest r)) else Inl (Error 0 ''EOF''), r')
    \<and> gather_reader_ok r' \<and> gather_rest r' = drop n (gather_rest r)"
proof (cases "n \<le> length (gather_rest r)")
  case True
  then show ?thesis using gat.read_yields [OF GatherReader_try_read True] assms unfolding yields_def by auto
next
  case False
  then have "length (gather_rest r) < n" by simp
  from gat.read_fails [OF GatherReader_try_read this] assms False show ?thesis unfolding fails_def by auto
qed

definition two_segments :: "heap \<times> Buffer" where
  "two_segments = (\<lparr> h_blocks = (\<lambda>_. None)(1 := Some [1, 2], 2 := Some [3]), h_next = 3 \<rparr>,
     \<lparr> buf_size = 2, segments = [Segment_external (1, 0) 2, Segment_external (2, 0) 1] \<rparr>)"

lemma two_segments_ok: "buffer_ok (fst two_segments) (snd two_segments)" "buf_bytes (fst two_segments) (snd two_segments) = [1, 2, 3]"
    "get_length (snd two_segments) = 3"
  by (simp_all add: two_segments_def buffer_ok_def heap_ok_def seg_ok_def footprint_def Segment_external_def buf_bytes_def seg_bytes_def
      mem_read_def get_length_def)

theorem gather_read_exact_witness:
  "\<exists>r'. reader_read GatherReader_methods 3 (gather_reader (fst two_segments) (snd two_segments)) = (Inr [1, 2, 3], r')"
proof -
  note start = gather_reader_start [OF two_segments_ok(1), unfolded two_segments_ok(2,3)]
  from gather_read_exact [OF start(1), of 3] start(2) show ?thesis by auto
qed



end
