(* ===== verification/Ring.thy ===== *)
theory Ring
  imports OT_Prelude
begin

text \<open>
  The lock-free ring buffer of libs/ring/ot-ring.h: one thread puts, another gets, and the two share the
  array and two atomic indices. The operations are first given as functions, as they act when nothing
  interferes, and then as the sequence of atomic steps each consists of, so that the two threads interleave
  in every way the machine allows (the atomics are sequentially consistent). The constructor's length is
  an \<^verbatim>\<open>int\<close>, so indices stay far below the range of \<^verbatim>\<open>unsigned\<close> and are natural numbers.
\<close>

section \<open>The operations\<close>

record 'a Ring =
  r_items :: "'a list"
  in_index :: nat
  out_index :: nat

definition ring_buffer :: "'a \<Rightarrow> nat \<Rightarrow> 'a Ring" where
  "ring_buffer item len = \<lparr> r_items = replicate (len + 1) item, in_index = 0, out_index = 0 \<rparr>"

definition ring_inc :: "'a Ring \<Rightarrow> nat \<Rightarrow> nat" where
  "ring_inc r n = (if n + 1 \<ge> length (r_items r) then 0 else n + 1)"

definition ring_put :: "'a \<Rightarrow> 'a Ring \<Rightarrow> bool \<times> 'a Ring" where
  "ring_put item r =
     (let next_in_index = ring_inc r (in_index r)
      in if next_in_index = out_index r then (False, r)
         else (True, r \<lparr> r_items := (r_items r)[in_index r := item], in_index := next_in_index \<rparr>))"

definition ring_get :: "'a Ring \<Rightarrow> 'a option \<times> 'a Ring" where
  "ring_get r =
     (if out_index r = in_index r then (None, r)
      else (Some (r_items r ! out_index r), r \<lparr> out_index := ring_inc r (out_index r) \<rparr>))"

definition flush_from_put :: "'a Ring \<Rightarrow> 'a Ring" where
  "flush_from_put r = r \<lparr> in_index := out_index r \<rparr>"

definition flush_from_get :: "'a Ring \<Rightarrow> 'a Ring" where
  "flush_from_get r = r \<lparr> out_index := in_index r \<rparr>"

definition ring_size :: "'a Ring \<Rightarrow> nat" where
  "ring_size r = length (r_items r) - 1"

definition ring_used :: "'a Ring \<Rightarrow> nat" where
  "ring_used r =
     (if out_index r \<le> in_index r then in_index r - out_index r
      else in_index r + length (r_items r) - out_index r)"

section \<open>The two threads\<close>

text \<open>How far a thread has got: the item and the values it has loaded into its own variables.\<close>

datatype 'a putter = Put_idle | Put_next 'a nat | Put_room 'a nat | Put_stored 'a nat | Put_flush nat

datatype 'a getter = Get_idle | Get_loaded nat | Get_some | Get_item 'a | Get_next 'a nat | Flush_loaded nat

text \<open>
  Besides the ring and the threads the state has two histories: the items whose put has completed, and the
  items that have left, with whether they were handed to the caller or flushed.
\<close>

record 'a ring_state =
  ring :: "'a Ring"
  putter :: "'a putter"
  getter :: "'a getter"
  accepted :: "'a list"
  departed :: "('a \<times> bool) list"

text \<open>The items between the two indices.\<close>

definition between :: "'a list \<Rightarrow> nat \<Rightarrow> nat \<Rightarrow> 'a list" where
  "between items i n = map (\<lambda>k. items ! ((i + k) mod length items)) [0..<n]"

definition distance :: "'a list \<Rightarrow> nat \<Rightarrow> nat \<Rightarrow> nat" where
  "distance items i j = (if i \<le> j then j - i else j + length items - i)"

inductive ring_step :: "'a ring_state \<Rightarrow> 'a ring_state \<Rightarrow> bool" where
  put_start: "putter s = Put_idle \<Longrightarrow>
    ring_step s (s \<lparr> putter := Put_next item (ring_inc (ring s) (in_index (ring s))) \<rparr>)"
| put_full: "putter s = Put_next item n \<Longrightarrow> n = out_index (ring s) \<Longrightarrow> ring_step s (s \<lparr> putter := Put_idle \<rparr>)"
| put_not_full: "putter s = Put_next item n \<Longrightarrow> n \<noteq> out_index (ring s) \<Longrightarrow> ring_step s (s \<lparr> putter := Put_room item n \<rparr>)"
| put_store: "putter s = Put_room item n \<Longrightarrow>
    ring_step s (s \<lparr> putter := Put_stored item n, ring := (ring s) \<lparr> r_items := (r_items (ring s))[in_index (ring s) := item] \<rparr> \<rparr>)"
| put_done: "putter s = Put_stored item n \<Longrightarrow>
    ring_step s (s \<lparr> putter := Put_idle, ring := (ring s) \<lparr> in_index := n \<rparr>, accepted := accepted s @ [item] \<rparr>)"
| get_start: "getter s = Get_idle \<Longrightarrow> ring_step s (s \<lparr> getter := Get_loaded (out_index (ring s)) \<rparr>)"
| get_empty: "getter s = Get_loaded i \<Longrightarrow> i = in_index (ring s) \<Longrightarrow> ring_step s (s \<lparr> getter := Get_idle \<rparr>)"
| get_not_empty: "getter s = Get_loaded i \<Longrightarrow> i \<noteq> in_index (ring s) \<Longrightarrow> ring_step s (s \<lparr> getter := Get_some \<rparr>)"
| get_read: "getter s = Get_some \<Longrightarrow> ring_step s (s \<lparr> getter := Get_item (r_items (ring s) ! out_index (ring s)) \<rparr>)"
| get_inc: "getter s = Get_item item \<Longrightarrow> ring_step s (s \<lparr> getter := Get_next item (ring_inc (ring s) (out_index (ring s))) \<rparr>)"
| get_done: "getter s = Get_next item n \<Longrightarrow>
    ring_step s (s \<lparr> getter := Get_idle, ring := (ring s) \<lparr> out_index := n \<rparr>, departed := departed s @ [(item, True)] \<rparr>)"
| flush_start: "getter s = Get_idle \<Longrightarrow> ring_step s (s \<lparr> getter := Flush_loaded (in_index (ring s)) \<rparr>)"
| flush_done: "getter s = Flush_loaded n \<Longrightarrow>
    ring_step s (s \<lparr> getter := Get_idle, ring := (ring s) \<lparr> out_index := n \<rparr>,
      departed := departed s @ map (\<lambda>item. (item, False))
        (between (r_items (ring s)) (out_index (ring s)) (distance (r_items (ring s)) (out_index (ring s)) n)) \<rparr>)"

text \<open>
  Flushing from the putter's side: it loads the output index and stores it as the input index. These steps are
  kept apart, as they do not respect a get in progress.
\<close>

inductive flush_put_step :: "'a ring_state \<Rightarrow> 'a ring_state \<Rightarrow> bool" where
  flush_put_start: "putter s = Put_idle \<Longrightarrow> flush_put_step s (s \<lparr> putter := Put_flush (out_index (ring s)) \<rparr>)"
| flush_put_done: "putter s = Put_flush n \<Longrightarrow> flush_put_step s (s \<lparr> putter := Put_idle, ring := (ring s) \<lparr> in_index := n \<rparr> \<rparr>)"

definition ring_start :: "'a \<Rightarrow> nat \<Rightarrow> 'a ring_state" where
  "ring_start item len = \<lparr> ring = ring_buffer item len, putter = Put_idle, getter = Get_idle, accepted = [], departed = [] \<rparr>"

section \<open>The queue in the ring\<close>

text \<open>\<open>holds r q\<close>: the indices are in range and the items from the output index on are \<open>q\<close>.\<close>

definition holds :: "'a Ring \<Rightarrow> 'a list \<Rightarrow> bool" where
  "holds r q \<longleftrightarrow> length q < length (r_items r) \<and> out_index r < length (r_items r)
     \<and> in_index r = (out_index r + length q) mod length (r_items r)
     \<and> q = between (r_items r) (out_index r) (length q)"

lemma between_length [simp]: "length (between items i n) = n"
  by (simp add: between_def)

lemma between_nth: "k < n \<Longrightarrow> between items i n ! k = items ! ((i + k) mod length items)"
  by (simp add: between_def)

lemma ring_inc_mod: "n < length (r_items r) \<Longrightarrow> ring_inc r n = (n + 1) mod length (r_items r)"
  by (auto simp: ring_inc_def mod_if)

lemma mod_offset_inj:
  fixes N :: nat
  assumes "i < N" "a < N" "b < N" "(i + a) mod N = (i + b) mod N"
  shows "a = b"
proof -
  have "(i + a) mod N = (if i + a < N then i + a else i + a - N)" "(i + b) mod N = (if i + b < N then i + b else i + b - N)"
    using assms(1,2,3) by (auto simp: mod_if)
  with assms show ?thesis by (auto split: if_splits)
qed

lemma distance_between: "i < N \<Longrightarrow> k < N \<Longrightarrow> length items = N \<Longrightarrow> distance items i ((i + k) mod N) = k"
  by (auto simp: distance_def mod_if)

lemma holds_pos: "holds r q \<Longrightarrow> 0 < length (r_items r)"
  by (auto simp: holds_def)

lemma holds_in_range: "holds r q \<Longrightarrow> in_index r < length (r_items r)"
  using holds_pos [of r q] by (auto simp: holds_def)

lemma holds_empty_iff: "holds r q \<Longrightarrow> in_index r = out_index r \<longleftrightarrow> q = []"
  using mod_offset_inj [of "out_index r" "length (r_items r)" "length q" 0] holds_pos [of r q] unfolding holds_def by auto

lemma holds_inc:
  assumes "holds r q"
  shows "ring_inc r (in_index r) = (out_index r + Suc (length q)) mod length (r_items r)"
  using assms holds_in_range [OF assms] by (subst ring_inc_mod) (simp_all add: holds_def mod_Suc_eq)

lemma holds_full_iff:
  assumes "holds r q"
  shows "ring_inc r (in_index r) = out_index r \<longleftrightarrow> Suc (length q) = length (r_items r)"
proof -
  have r: "length q < length (r_items r)" "out_index r < length (r_items r)" using assms by (simp_all add: holds_def)
  show ?thesis
  proof (cases "Suc (length q) = length (r_items r)")
    case True
    then show ?thesis using r(2) unfolding holds_inc [OF assms] by simp
  next
    case False
    then show ?thesis
      using mod_offset_inj [OF r(2), of "Suc (length q)" 0] r holds_pos [OF assms] unfolding holds_inc [OF assms] by auto
  qed
qed

text \<open>Writing at the input index does not touch the queue.\<close>

lemma between_update:
  assumes "holds r q"
  shows "between ((r_items r)[in_index r := item]) (out_index r) (length q) = q"
proof (rule nth_equalityI)
  fix k assume "k < length (between ((r_items r)[in_index r := item]) (out_index r) (length q))"
  then have k: "k < length q" by simp
  have r: "length q < length (r_items r)" "out_index r < length (r_items r)" "in_index r = (out_index r + length q) mod length (r_items r)"
    "q ! k = r_items r ! ((out_index r + k) mod length (r_items r))"
    using assms k between_nth [OF k] unfolding holds_def by metis+
  then have "(out_index r + k) mod length (r_items r) \<noteq> in_index r"
    using mod_offset_inj [of "out_index r" "length (r_items r)" k "length q"] k by auto
  with k r(4) show "between ((r_items r)[in_index r := item]) (out_index r) (length q) ! k = q ! k"
    by (simp add: between_nth)
qed simp

lemma holds_store:
  assumes "holds r q"
  shows "holds (r \<lparr> r_items := (r_items r)[in_index r := item] \<rparr>) q"
  using between_update [OF assms] assms by (simp add: holds_def)

lemma holds_append:
  assumes "holds r q" "r_items r ! in_index r = item" "Suc (length q) < length (r_items r)"
  shows "holds (r \<lparr> in_index := ring_inc r (in_index r) \<rparr>) (q @ [item])"
proof -
  have r: "out_index r < length (r_items r)" "in_index r = (out_index r + length q) mod length (r_items r)" "q = between (r_items r) (out_index r) (length q)"
    using assms(1) by (simp_all add: holds_def)
  have "between (r_items r) (out_index r) (Suc (length q)) = between (r_items r) (out_index r) (length q) @ [item]"
    using assms(2) r(2) by (simp add: between_def)
  then show ?thesis using assms(3) r(1,3) unfolding holds_inc [OF assms(1)] by (simp add: holds_def)
qed

lemma between_add: "between items i (m + n) = between items i m @ between items (i + m) n"
  by (induction n) (simp_all add: between_def add.assoc)

lemma between_mod: "between items (i mod length items) n = between items i n"
  by (simp add: between_def mod_add_left_eq)

text \<open>Moving the output index over the first \<open>k\<close> items.\<close>

lemma holds_drop:
  assumes "holds r q" "k \<le> length q"
  shows "holds (r \<lparr> out_index := (out_index r + k) mod length (r_items r) \<rparr>) (drop k q)"
    "between (r_items r) (out_index r) k = take k q"
proof -
  have r: "length q < length (r_items r)" "in_index r = (out_index r + length q) mod length (r_items r)" "q = between (r_items r) (out_index r) (length q)"
    using assms(1) by (simp_all add: holds_def)
  have "between (r_items r) (out_index r) (length q) = between (r_items r) (out_index r) k @ between (r_items r) (out_index r + k) (length q - k)"
    using between_add [of "r_items r" "out_index r" k "length q - k"] assms(2) by simp
  with r(3) have q: "q = between (r_items r) (out_index r) k @ between (r_items r) (out_index r + k) (length q - k)" by simp
  then show "between (r_items r) (out_index r) k = take k q" by (metis append_eq_conv_conj between_length)
  have "drop k q = between (r_items r) (out_index r + k) (length q - k)" using q by (metis append_eq_conv_conj between_length)
  moreover have "(out_index r + k) mod length (r_items r) < length (r_items r)" using holds_pos [OF assms(1)] by simp
  moreover have "((out_index r + k) mod length (r_items r) + (length q - k)) mod length (r_items r) = (out_index r + length q) mod length (r_items r)"
    using assms(2) by (simp only: mod_add_left_eq) simp
  ultimately show "holds (r \<lparr> out_index := (out_index r + k) mod length (r_items r) \<rparr>) (drop k q)"
    using r(1,2) assms(2) unfolding holds_def by (simp add: between_mod del: Nat.add_diff_assoc Nat.add_diff_assoc2)
qed

text \<open>Taking the first item.\<close>

lemma holds_tl:
  assumes "holds r q" "q \<noteq> []"
  shows "holds (r \<lparr> out_index := ring_inc r (out_index r) \<rparr>) (tl q)" "r_items r ! out_index r = hd q"
proof -
  obtain x q' where q: "q = x # q'" using assms(2) by (cases q) auto
  have out: "out_index r < length (r_items r)" using assms(1) by (simp add: holds_def)
  show "holds (r \<lparr> out_index := ring_inc r (out_index r) \<rparr>) (tl q)"
    using holds_drop(1) [OF assms(1), of 1] out by (simp add: ring_inc_mod q)
  show "r_items r ! out_index r = hd q"
    using holds_drop(2) [OF assms(1), of 1] out by (simp add: between_def q)
qed

section \<open>The operations on the queue\<close>

lemma ring_buffer_holds: "holds (ring_buffer item len) []"
  by (simp add: holds_def ring_buffer_def between_def)

lemma ring_put_result:
  assumes "holds r q"
  shows "if length q < ring_size r
     then \<exists>r'. ring_put item r = (True, r') \<and> holds r' (q @ [item]) \<and> ring_size r' = ring_size r
     else ring_put item r = (False, r)"
proof -
  define r1 where "r1 = r \<lparr> r_items := (r_items r)[in_index r := item] \<rparr>"
  have r1: "holds r1 q" "r_items r1 ! in_index r1 = item" "ring_inc r1 (in_index r1) = ring_inc r (in_index r)" "length (r_items r1) = length (r_items r)"
    using holds_store [OF assms] holds_in_range [OF assms] by (simp_all add: r1_def ring_inc_def)
  have "length q < length (r_items r)" using assms by (simp add: holds_def)
  then have "length q < ring_size r \<longleftrightarrow> Suc (length q) < length (r_items r)" "\<not> length q < ring_size r \<longleftrightarrow> Suc (length q) = length (r_items r)"
    by (auto simp: ring_size_def)
  then show ?thesis
    using holds_append [OF r1(1,2)] r1(3,4) holds_full_iff [OF assms] by (auto simp: ring_put_def Let_def r1_def ring_size_def)
qed

lemma ring_get_result:
  assumes "holds r q"
  shows "case q of [] \<Rightarrow> ring_get r = (None, r)
     | x # q' \<Rightarrow> \<exists>r'. ring_get r = (Some x, r') \<and> holds r' q' \<and> ring_size r' = ring_size r"
  using holds_empty_iff [OF assms] holds_tl [OF assms] by (auto simp: ring_get_def ring_size_def split: list.split)

lemma ring_used_result: "holds r q \<Longrightarrow> ring_used r = length q"
proof -
  assume h: "holds r q"
  have "ring_used r = distance (r_items r) (out_index r) (in_index r)" by (simp add: ring_used_def distance_def)
  then show ?thesis using distance_between [of "out_index r" "length (r_items r)" "length q" "r_items r"] h unfolding holds_def by metis
qed

section \<open>The invariant of the two threads\<close>

definition putter_ok :: "'a ring_state \<Rightarrow> 'a list \<Rightarrow> bool" where
  "putter_ok s q \<longleftrightarrow> (case putter s of
       Put_idle \<Rightarrow> True
     | Put_next item n \<Rightarrow> n = ring_inc (ring s) (in_index (ring s))
     | Put_room item n \<Rightarrow> n = ring_inc (ring s) (in_index (ring s)) \<and> Suc (length q) < length (r_items (ring s))
     | Put_stored item n \<Rightarrow> n = ring_inc (ring s) (in_index (ring s)) \<and> Suc (length q) < length (r_items (ring s))
         \<and> r_items (ring s) ! in_index (ring s) = item
     | Put_flush n \<Rightarrow> False)"

definition getter_ok :: "'a ring_state \<Rightarrow> 'a list \<Rightarrow> bool" where
  "getter_ok s q \<longleftrightarrow> (case getter s of
       Get_idle \<Rightarrow> True
     | Get_loaded i \<Rightarrow> i = out_index (ring s)
     | Get_some \<Rightarrow> q \<noteq> []
     | Get_item item \<Rightarrow> q \<noteq> [] \<and> item = hd q
     | Get_next item n \<Rightarrow> q \<noteq> [] \<and> item = hd q \<and> n = ring_inc (ring s) (out_index (ring s))
     | Flush_loaded n \<Rightarrow> (\<exists>k \<le> length q. n = (out_index (ring s) + k) mod length (r_items (ring s))))"

definition ring_ok :: "'a ring_state \<Rightarrow> 'a list \<Rightarrow> bool" where
  "ring_ok s q \<longleftrightarrow> holds (ring s) q \<and> map fst (departed s) @ q = accepted s \<and> putter_ok s q \<and> getter_ok s q"

lemmas thread_ok_defs = ring_ok_def putter_ok_def getter_ok_def

lemma ring_inc_update [simp]: "ring_inc (r \<lparr> in_index := i \<rparr>) n = ring_inc r n" "ring_inc (r \<lparr> out_index := i \<rparr>) n = ring_inc r n"
    "ring_inc (r \<lparr> r_items := xs[i := x] \<rparr>) n = (if n + 1 \<ge> length xs then 0 else n + 1)"
  by (simp_all add: ring_inc_def)

text \<open>A completed put only lengthens the queue, which the getter cannot notice.\<close>

lemma getter_ok_append: "getter_ok s q \<Longrightarrow> getter s' = getter s \<Longrightarrow> out_index (ring s') = out_index (ring s) \<Longrightarrow>
    length (r_items (ring s')) = length (r_items (ring s)) \<Longrightarrow> getter_ok s' (q @ q')"
  by (auto simp: getter_ok_def ring_inc_def split: getter.splits) (metis trans_le_add1)

text \<open>Items that leave only shorten it, which can only make more room.\<close>

lemma putter_ok_drop: "putter_ok s q \<Longrightarrow> putter s' = putter s \<Longrightarrow> in_index (ring s') = in_index (ring s) \<Longrightarrow>
    r_items (ring s') = r_items (ring s) \<Longrightarrow> putter_ok s' (drop k q)"
  by (auto simp: putter_ok_def ring_inc_def split: putter.splits)

lemmas getter_ok_same = getter_ok_append [where q' = "[]", simplified]

lemmas putter_ok_same = putter_ok_drop [where k = 0, simplified]

lemma ring_step_ok:
  assumes "ring_step s s'" "ring_ok s q"
  shows "\<exists>q'. ring_ok s' q'"
proof -
  have h: "holds (ring s) q" and eq: "map fst (departed s) @ q = accepted s" and p: "putter_ok s q" and g: "getter_ok s q"
    using assms(2) by (simp_all add: ring_ok_def)
  note len = holds_store [OF h] holds_in_range [OF h]
  from assms(1) show ?thesis
  proof cases
    case (put_start item)
    with h eq getter_ok_same [OF g, of s'] have "ring_ok s' q" by (simp add: ring_ok_def putter_ok_def)
    then show ?thesis ..
  next
    case (put_full item n)
    with h eq getter_ok_same [OF g, of s'] have "ring_ok s' q" by (simp add: ring_ok_def putter_ok_def)
    then show ?thesis ..
  next
    case (put_not_full item n)
    have "length q < length (r_items (ring s))" using h by (simp add: holds_def)
    with put_not_full holds_full_iff [OF h] h eq p getter_ok_same [OF g, of s'] have "ring_ok s' q" by (auto simp: ring_ok_def putter_ok_def)
    then show ?thesis ..
  next
    case (put_store item n)
    with len eq p getter_ok_same [OF g, of s'] have "ring_ok s' q" by (simp add: ring_ok_def putter_ok_def ring_inc_def)
    then show ?thesis ..
  next
    case (put_done item n)
    have "holds (ring s') (q @ [item])" using put_done p holds_append [OF h, of item] by (simp add: putter_ok_def)
    moreover have "getter_ok s' (q @ [item])" using put_done by (intro getter_ok_append [OF g]) simp_all
    ultimately have "ring_ok s' (q @ [item])" using put_done eq by (simp add: ring_ok_def putter_ok_def)
    then show ?thesis ..
  next
    case get_start
    with h eq putter_ok_same [OF p, of s'] have "ring_ok s' q" by (simp add: ring_ok_def getter_ok_def)
    then show ?thesis ..
  next
    case (get_empty i)
    with h eq putter_ok_same [OF p, of s'] have "ring_ok s' q" by (simp add: ring_ok_def getter_ok_def)
    then show ?thesis ..
  next
    case (get_not_empty i)
    with h eq putter_ok_same [OF p, of s'] g holds_empty_iff [OF h] have "ring_ok s' q" by (auto simp: ring_ok_def getter_ok_def)
    then show ?thesis ..
  next
    case get_read
    with h eq putter_ok_same [OF p, of s'] g holds_tl(2) [OF h] have "ring_ok s' q" by (auto simp: ring_ok_def getter_ok_def)
    then show ?thesis ..
  next
    case (get_inc item)
    with h eq putter_ok_same [OF p, of s'] g have "ring_ok s' q" by (auto simp: ring_ok_def getter_ok_def)
    then show ?thesis ..
  next
    case (get_done item n)
    with g have "q \<noteq> []" "item = hd q" "n = ring_inc (ring s) (out_index (ring s))" by (simp_all add: getter_ok_def)
    moreover from this have "holds (ring s') (drop 1 q)" using get_done holds_tl(1) [OF h] by (simp add: drop_Suc)
    moreover have "putter_ok s' (drop 1 q)" using get_done by (intro putter_ok_drop [OF p]) simp_all
    ultimately have "ring_ok s' (drop 1 q)" using get_done eq by (cases q) (auto simp: ring_ok_def getter_ok_def)
    then show ?thesis ..
  next
    case flush_start
    have "in_index (ring s) = (out_index (ring s) + length q) mod length (r_items (ring s))" using h by (simp add: holds_def)
    with flush_start h eq putter_ok_same [OF p, of s'] have "ring_ok s' q" by (auto simp: ring_ok_def getter_ok_def)
    then show ?thesis ..
  next
    case (flush_done n)
    then obtain k where k: "k \<le> length q" "n = (out_index (ring s) + k) mod length (r_items (ring s))" using g by (auto simp: getter_ok_def)
    have "distance (r_items (ring s)) (out_index (ring s)) n = k"
      using h k unfolding k(2) by (intro distance_between) (auto simp: holds_def)
    then have "departed s' = departed s @ map (\<lambda>item. (item, False)) (take k q)"
      using flush_done holds_drop(2) [OF h k(1)] by simp
    moreover have "holds (ring s') (drop k q)" using flush_done k holds_drop(1) [OF h k(1)] by simp
    moreover have "putter_ok s' (drop k q)" using flush_done by (intro putter_ok_drop [OF p]) simp_all
    ultimately have "ring_ok s' (drop k q)" using flush_done eq by (simp add: ring_ok_def getter_ok_def comp_def)
    then show ?thesis ..
  qed
qed

lemma ring_step_size: "ring_step s s' \<Longrightarrow> length (r_items (ring s')) = length (r_items (ring s))"
  by (cases rule: ring_step.cases) auto

lemma ring_reachable_ok:
  assumes "ring_step\<^sup>*\<^sup>* (ring_start item len) s"
  shows "\<exists>q. ring_ok s q \<and> length (r_items (ring s)) = len + 1"
  using assms
proof (induction rule: rtranclp_induct)
  case base
  have "ring_ok (ring_start item len) []"
    using ring_buffer_holds [of item len] by (simp add: thread_ok_defs ring_start_def)
  then show ?case by (auto simp: ring_start_def ring_buffer_def)
next
  case (step s s')
  then show ?case using ring_step_ok [of s s'] ring_step_size [of s s'] by auto
qed

section \<open>Properties\<close>

text \<open>
  C3: However the putting and the getting thread interleave, the ring is a queue. The items that have left,
  handed out or flushed by the getter, followed by those still held are exactly the items whose put completed,
  in order: nothing is lost, repeated or reordered. The count is right and never above the size, a put that
  has loaded its next index finds the buffer full exactly when it is, and a get finds it empty exactly when it is.
\<close>

theorem ring_interleaving_fifo:
  assumes "ring_step\<^sup>*\<^sup>* (ring_start item len) s"
  shows "\<exists>q. map fst (departed s) @ q = accepted s \<and> ring_used (ring s) = length q \<and> length q \<le> len
    \<and> (\<forall>x n. putter s = Put_next x n \<longrightarrow> (n = out_index (ring s) \<longleftrightarrow> length q = len))
    \<and> (\<forall>i. getter s = Get_loaded i \<longrightarrow> (i = in_index (ring s) \<longleftrightarrow> q = []))"
proof -
  obtain q where q: "ring_ok s q" "length (r_items (ring s)) = len + 1" using ring_reachable_ok [OF assms] by blast
  then have h: "holds (ring s) q" by (simp add: ring_ok_def)
  have "length q < len + 1" using h q(2) by (simp add: holds_def)
  with q holds_full_iff [OF h] holds_empty_iff [OF h] ring_used_result [OF h] show ?thesis
    by (intro exI [of _ q]) (auto simp: thread_ok_defs)
qed

text \<open>A put and a get that overlap: the get starts before the put is done and still takes the item.\<close>

lemma ring_trace_put:
  "ring_step\<^sup>*\<^sup>* (ring_start 0 3) (ring_start 0 3 \<lparr> ring := \<lparr> r_items = [7, 0, 0, 0], in_index = 1, out_index = 0 \<rparr>, accepted := [7 :: nat] \<rparr>)"
proof -
  let ?s = "ring_start 0 3 :: nat ring_state"
  have "ring_step ?s (?s \<lparr> putter := Put_next 7 1 \<rparr>)"
    using ring_step.put_start [of ?s 7] by (simp add: ring_start_def ring_buffer_def ring_inc_def)
  moreover have "ring_step (?s \<lparr> putter := Put_next 7 1 \<rparr>) (?s \<lparr> putter := Put_room 7 1 \<rparr>)"
    using ring_step.put_not_full [of "?s \<lparr> putter := Put_next 7 1 \<rparr>" 7 1] by (simp add: ring_start_def ring_buffer_def)
  moreover have "ring_step (?s \<lparr> putter := Put_room 7 1 \<rparr>) (?s \<lparr> putter := Put_stored 7 1, ring := \<lparr> r_items = [7, 0, 0, 0], in_index = 0, out_index = 0 \<rparr> \<rparr>)"
    using ring_step.put_store [of "?s \<lparr> putter := Put_room 7 1 \<rparr>" 7 1] by (simp add: ring_start_def ring_buffer_def numeral_eq_Suc)
  moreover have "ring_step (?s \<lparr> putter := Put_stored 7 1, ring := \<lparr> r_items = [7, 0, 0, 0], in_index = 0, out_index = 0 \<rparr> \<rparr>)
      (?s \<lparr> ring := \<lparr> r_items = [7, 0, 0, 0], in_index = 1, out_index = 0 \<rparr>, accepted := [7] \<rparr>)"
    using ring_step.put_done [of "?s \<lparr> putter := Put_stored 7 1, ring := \<lparr> r_items = [7, 0, 0, 0], in_index = 0, out_index = 0 \<rparr> \<rparr>" 7 1]
    by (simp add: ring_start_def ring_buffer_def)
  ultimately show ?thesis by (meson converse_rtranclp_into_rtranclp rtranclp.rtrancl_refl)
qed

theorem ring_interleaving_fifo_witness:
  "\<exists>s :: nat ring_state. ring_step\<^sup>*\<^sup>* (ring_start 0 3) s \<and> accepted s = [7] \<and> ring_used (ring s) = 1"
proof -
  from ring_interleaving_fifo [OF ring_trace_put] have "ring_used \<lparr> r_items = [7 :: nat, 0, 0, 0], in_index = 1, out_index = 0 \<rparr> = 1"
    by (auto simp: ring_start_def)
  then show ?thesis using ring_trace_put by (intro exI) (auto simp: ring_start_def)
qed

text \<open>
  Undisturbed, \<^verbatim>\<open>put\<close> and \<^verbatim>\<open>get\<close> are those of a bounded queue: a put appends unless the size is reached and a get
  takes the first item unless there is none; in both refusals the ring is unchanged.
\<close>

theorem ring_operations_queue:
  assumes "holds r q"
  shows "(if length q < ring_size r then \<exists>r'. ring_put x r = (True, r') \<and> holds r' (q @ [x]) \<and> ring_size r' = ring_size r
      else ring_put x r = (False, r))
    \<and> (case q of [] \<Rightarrow> ring_get r = (None, r) | y # q' \<Rightarrow> \<exists>r'. ring_get r = (Some y, r') \<and> holds r' q' \<and> ring_size r' = ring_size r)
    \<and> ring_used r = length q"
  using ring_put_result [OF assms, of x] ring_get_result [OF assms] ring_used_result [OF assms] by blast

theorem ring_operations_queue_witness:
  "\<exists>r :: nat Ring. ring_put 7 (ring_buffer 0 2) = (True, r) \<and> fst (ring_get (ring_buffer (0 :: nat) 2)) = None"
  using ring_operations_queue [OF ring_buffer_holds, of "0 :: nat" 2 7] by (auto simp: ring_size_def ring_buffer_def)

text \<open>
  A flush from the putter's side while a get is between its check and its last store: one item was ever put, yet
  the ring ends up full, of items never put.
\<close>

lemma flush_from_put_races:
  defines "step \<equiv> \<lambda>s s' :: nat ring_state. ring_step s s' \<or> flush_put_step s s'"
  shows "\<exists>s. step\<^sup>*\<^sup>* (ring_start 0 3) s \<and> accepted s = [7] \<and> departed s = [(7, True)] \<and> ring_used (ring s) = 3"
proof -
  define r where "r i j = \<lparr> r_items = [7 :: nat, 0, 0, 0], in_index = i, out_index = j \<rparr>" for i j
  define st where "st p g i j d = \<lparr> ring = r i j, putter = p, getter = g, accepted = [7], departed = d \<rparr>" for p g i j d
  have "step\<^sup>*\<^sup>* (ring_start 0 3) (st Put_idle Get_idle 1 0 [])"
  proof -
    have "ring_step \<le> step" by (auto simp: step_def)
    from predicate2D [OF rtranclp_mono [OF this] ring_trace_put] show ?thesis by (simp add: st_def r_def ring_start_def)
  qed
  moreover have "step (st Put_idle Get_idle 1 0 []) (st Put_idle (Get_loaded 0) 1 0 [])"
    using ring_step.get_start [of "st Put_idle Get_idle 1 0 []"] by (simp add: step_def st_def r_def)
  moreover have "step (st Put_idle (Get_loaded 0) 1 0 []) (st Put_idle Get_some 1 0 [])"
    using ring_step.get_not_empty [of "st Put_idle (Get_loaded 0) 1 0 []" 0] by (simp add: step_def st_def r_def)
  moreover have "step (st Put_idle Get_some 1 0 []) (st (Put_flush 0) Get_some 1 0 [])"
    using flush_put_step.flush_put_start [of "st Put_idle Get_some 1 0 []"] by (simp add: step_def st_def r_def)
  moreover have "step (st (Put_flush 0) Get_some 1 0 []) (st Put_idle Get_some 0 0 [])"
    using flush_put_step.flush_put_done [of "st (Put_flush 0) Get_some 1 0 []" 0] by (simp add: step_def st_def r_def)
  moreover have "step (st Put_idle Get_some 0 0 []) (st Put_idle (Get_item 7) 0 0 [])"
    using ring_step.get_read [of "st Put_idle Get_some 0 0 []"] by (simp add: step_def st_def r_def)
  moreover have "step (st Put_idle (Get_item 7) 0 0 []) (st Put_idle (Get_next 7 1) 0 0 [])"
    using ring_step.get_inc [of "st Put_idle (Get_item 7) 0 0 []" 7] by (simp add: step_def st_def r_def ring_inc_def)
  moreover have "step (st Put_idle (Get_next 7 1) 0 0 []) (st Put_idle Get_idle 0 1 [(7, True)])"
    using ring_step.get_done [of "st Put_idle (Get_next 7 1) 0 0 []" 7 1] by (simp add: step_def st_def r_def)
  ultimately have "step\<^sup>*\<^sup>* (ring_start 0 3) (st Put_idle Get_idle 0 1 [(7, True)])"
    by (meson rtranclp.rtrancl_into_rtrancl)
  then show ?thesis by (intro exI [of _ "st Put_idle Get_idle 0 1 [(7, True)]"]) (simp add: st_def r_def ring_used_def)
qed

end
