(* ===== verification/Crc.thy ===== *)
theory Crc
  imports OT_Prelude
begin

unbundle bit_operations_syntax

text \<open>
  The checksums of libs/misc: \<^verbatim>\<open>CRC\<close> of 16 bits (crc.cc) and \<^verbatim>\<open>CRC32\<close> (crc32.cc). Both run a byte at a time
  through a table built by their constructor. The specification is the shift register that takes one bit at a
  time; its laws are a locale, \<open>shift_register\<close>, which the two directions of shifting interpret at both widths.
\<close>

section \<open>Steps of the shift register\<close>

text \<open>The bodies of the constructors' inner loops: low bit first, and high bit first with the test mask \<open>high\<close>.\<close>

definition lsb_step :: "'a :: len word \<Rightarrow> 'a word \<Rightarrow> 'a word" where
  "lsb_step poly crc = (if crc AND 1 \<noteq> 0 then drop_bit 1 crc XOR poly else drop_bit 1 crc)"

definition msb_step :: "'a :: len word \<Rightarrow> 'a word \<Rightarrow> 'a word \<Rightarrow> 'a word" where
  "msb_step high poly crc = (if crc AND high \<noteq> 0 then push_bit 1 crc XOR poly else push_bit 1 crc)"

section \<open>CRC32\<close>

datatype crc32_algorithm = ALGORITHM_CRC32 | ALGORITHM_CRC32C

definition bits_at :: "nat list \<Rightarrow> 'a :: len word" where
  "bits_at ns = sum_list (map (\<lambda>n. push_bit n 1) ns)"

definition POLY_CRC32 :: u32 where
  "POLY_CRC32 = bits_at [26, 23, 22, 16, 12, 11, 10, 8, 7, 5, 4, 2, 1, 0]"

definition POLY_CRC32C :: u32 where
  "POLY_CRC32C = bits_at [28, 27, 26, 25, 23, 22, 20, 19, 18, 14, 13, 11, 10, 9, 8, 6, 0]"

definition POLY_CRC32_REV :: u32 where
  "POLY_CRC32_REV = bits_at [31, 30, 29, 27, 26, 24, 23, 21, 20, 19, 15, 9, 8, 5]"

definition POLY_CRC32C_REV :: u32 where
  "POLY_CRC32C_REV = bits_at [31, 25, 23, 22, 21, 20, 18, 17, 13, 12, 11, 9, 8, 6, 5, 4, 3]"

record CRC32 =
  combinations32 :: "u32 list"
  algorithm32 :: crc32_algorithm
  reflected32 :: bool
  flip32 :: bool

definition crc32_poly :: "crc32_algorithm \<Rightarrow> bool \<Rightarrow> u32" where
  "crc32_poly alg rfl =
     (if rfl then (if alg = ALGORITHM_CRC32C then POLY_CRC32C_REV else POLY_CRC32_REV)
      else (if alg = ALGORITHM_CRC32C then POLY_CRC32C else POLY_CRC32))"

definition crc32_combination :: "bool \<Rightarrow> u32 \<Rightarrow> nat \<Rightarrow> u32" where
  "crc32_combination rfl poly i =
     (if rfl then (lsb_step poly ^^ 8) (of_nat i)
      else (msb_step 0x80000000 poly ^^ 8) (push_bit 24 (of_nat i)))"

definition crc32_new :: "crc32_algorithm \<Rightarrow> bool \<Rightarrow> bool \<Rightarrow> CRC32" where
  "crc32_new alg rfl flp =
     \<lparr> combinations32 = map (crc32_combination rfl (crc32_poly alg rfl)) [0..<256],
       algorithm32 = alg, reflected32 = rfl, flip32 = flp \<rparr>"

definition crc32_initialiser :: "CRC32 \<Rightarrow> u32" where
  "crc32_initialiser c = 0xFFFFFFFF"

fun crc32_consume :: "CRC32 \<Rightarrow> byte list \<Rightarrow> u32 \<Rightarrow> u32" where
  "crc32_consume c [] crc = crc"
| "crc32_consume c (byte # data) crc =
     (if reflected32 c
      then crc32_consume c data (drop_bit 8 crc XOR combinations32 c ! unat ((crc AND 0xff) XOR ucast byte))
      else crc32_consume c data ((push_bit 8 crc AND 0xffffffff) XOR combinations32 c ! unat (drop_bit 24 crc XOR ucast byte)))"

definition crc32_finalise :: "CRC32 \<Rightarrow> u32 \<Rightarrow> u32" where
  "crc32_finalise c crc = (if flip32 c then crc XOR 0xFFFFFFFF else crc)"

definition crc32_calculate :: "CRC32 \<Rightarrow> byte list \<Rightarrow> u32" where
  "crc32_calculate c data = crc32_finalise c (crc32_consume c data (crc32_initialiser c))"

section \<open>CRC\<close>

datatype crc_algorithm = ALGORITHM_CRC16 | ALGORITHM_CCITT | ALGORITHM_CCITT_ZERO | ALGORITHM_CCITT_MOD

definition CRC_CCITT :: u16 where "CRC_CCITT = bits_at [12, 5, 0]"

definition CRC_16 :: u16 where "CRC_16 = bits_at [15, 2, 0]"

definition CRC_CCITT_REV :: u16 where "CRC_CCITT_REV = bits_at [15, 10, 3]"

definition CRC_16_REV :: u16 where "CRC_16_REV = bits_at [15, 13, 0]"

record CRC =
  combinations16 :: "u16 list"
  algorithm16 :: crc_algorithm
  reflected16 :: bool
  flip16 :: bool

definition crc_poly :: "crc_algorithm \<Rightarrow> bool \<Rightarrow> u16" where
  "crc_poly alg rfl =
     (if rfl then (if alg = ALGORITHM_CRC16 then CRC_16_REV else CRC_CCITT_REV)
      else (if alg = ALGORITHM_CRC16 then CRC_16 else CRC_CCITT))"

definition crc_combination :: "bool \<Rightarrow> u16 \<Rightarrow> nat \<Rightarrow> u16" where
  "crc_combination rfl poly i =
     (if rfl then (lsb_step poly ^^ 8) (of_nat i)
      else (msb_step 0x8000 poly ^^ 8) (push_bit 8 (of_nat i)))"

definition crc_new :: "crc_algorithm \<Rightarrow> bool \<Rightarrow> bool \<Rightarrow> CRC" where
  "crc_new alg rfl flp =
     \<lparr> combinations16 = map (crc_combination rfl (crc_poly alg rfl)) [0..<256],
       algorithm16 = alg, reflected16 = rfl, flip16 = flp \<rparr>"

definition crc_start :: "CRC \<Rightarrow> u16" where
  "crc_start c =
     (case algorithm16 c of
        ALGORITHM_CCITT \<Rightarrow> 0xFFFF
      | ALGORITHM_CCITT_ZERO \<Rightarrow> 0
      | ALGORITHM_CRC16 \<Rightarrow> 0
      | ALGORITHM_CCITT_MOD \<Rightarrow> if reflected16 c then 0xF0B8 else 0x1D0F)"

fun crc_run :: "CRC \<Rightarrow> byte list \<Rightarrow> u16 \<Rightarrow> u16" where
  "crc_run c [] crc = crc"
| "crc_run c (byte # data) crc =
     (if reflected16 c
      then crc_run c data (drop_bit 8 crc XOR combinations16 c ! unat ((crc AND 0xff) XOR ucast byte))
      else crc_run c data ((push_bit 8 crc AND 0xffff) XOR combinations16 c ! unat (drop_bit 8 crc XOR ucast byte)))"

definition crc_calculate :: "CRC \<Rightarrow> byte list \<Rightarrow> u16" where
  "crc_calculate c data =
     (let crc = crc_run c data (crc_start c) in if flip16 c then crc XOR 0xFFFF else crc)"

section \<open>Shift registers\<close>

lemma word_eq_bits: "x = y \<longleftrightarrow> (\<forall>n < LENGTH('a). bit x n \<longleftrightarrow> bit y n)" for x y :: "'a :: len word"
  by (auto intro: bit_word_eqI)


text \<open>
  A register that takes a byte at one end and shifts towards it. \<open>place\<close> puts a byte at that end and \<open>front\<close> reads
  it there; \<open>pass\<close> shifts a whole byte out, \<open>raise\<close> shifts the other way. \<open>fits n w\<close> says that only the \<open>n\<close> bytes at
  that end are in use, of the \<open>width\<close> bytes there are.
\<close>

locale shift_register =
  fixes step :: "'a :: len word \<Rightarrow> 'a word"
    and place :: "byte \<Rightarrow> 'a word" and front :: "'a word \<Rightarrow> byte"
    and pass :: "'a word \<Rightarrow> 'a word" and raise :: "'a word \<Rightarrow> 'a word"
    and fits :: "nat \<Rightarrow> 'a word \<Rightarrow> bool" and width :: nat
  assumes step_xor: "step (x XOR y) = step x XOR step y"
    and step_kernel: "step x = 0 \<Longrightarrow> x = 0"
    and place_xor: "place (b XOR c) = place b XOR place c"
    and front_xor: "front (x XOR y) = front x XOR front y"
    and front_place: "front (place b) = b"
    and front_zero: "front x = 0 \<Longrightarrow> (step ^^ 8) x = pass x"
    and pass_xor: "pass (x XOR y) = pass x XOR pass y"
    and pass_place: "pass (place b) = 0"
    and fits_zero: "fits 0 0"
    and fits_more: "fits n x \<Longrightarrow> n < width \<Longrightarrow> fits (Suc n) (place b XOR raise x)"
    and front_raise: "fits n x \<Longrightarrow> n < width \<Longrightarrow> front (raise x) = 0"
    and pass_raise: "fits n x \<Longrightarrow> n < width \<Longrightarrow> pass (raise x) = x"
begin

lemma steps_xor: "(step ^^ n) (x XOR y) = (step ^^ n) x XOR (step ^^ n) y"
  by (induction n) (simp_all add: step_xor)

lemma xor_zero_iff: "x XOR y = 0 \<longleftrightarrow> x = (y :: 'b :: len word)"
  by (auto simp: word_eq_bits bit_simps)

lemma step_inject: "step x = step y \<Longrightarrow> x = y"
  using step_kernel [of "x XOR y"] by (simp add: step_xor xor_zero_iff)

lemma steps_inject: "(step ^^ n) x = (step ^^ n) y \<Longrightarrow> x = y"
  by (induction n) (auto dest: step_inject)

lemma front_zero_word: "front 0 = 0"
  using front_xor [of 0 0] by simp

text \<open>A whole byte at once: what the table holds, and the step through it.\<close>

definition byte_step :: "byte \<Rightarrow> 'a word \<Rightarrow> 'a word" where
  "byte_step b x = (step ^^ 8) (x XOR place b)"

lemma table_step: "pass x XOR (step ^^ 8) (place (front x XOR b)) = byte_step b x"
proof -
  define r where "r = x XOR place (front x)"
  have "front r = 0" by (simp add: r_def front_xor front_place)
  moreover have "pass r = pass x" by (simp add: r_def pass_xor pass_place)
  ultimately have "(step ^^ 8) r = pass x" using front_zero by simp
  moreover have "r XOR place (front x XOR b) = x XOR place b" by (simp add: r_def place_xor xor.assoc [symmetric]) (simp add: xor.assoc)
  ultimately show ?thesis by (metis byte_step_def steps_xor)
qed

fun run :: "byte list \<Rightarrow> 'a word \<Rightarrow> 'a word" where
  "run [] x = x"
| "run (b # bs) x = run bs (byte_step b x)"

lemma run_append: "run (as @ bs) x = run bs (run as x)"
  by (induction as arbitrary: x) simp_all

lemma run_inject: "run bs x = run bs y \<Longrightarrow> x = y"
proof (induction bs arbitrary: x y)
  case (Cons b bs)
  then have "byte_step b x = byte_step b y" by simp
  then have "x XOR place b = y XOR place b" unfolding byte_step_def by (rule steps_inject)
  then show ?case by (metis xor.assoc xor_self_eq xor.right_neutral)
qed simp

text \<open>At most a register's worth of bytes is as one word.\<close>

fun pack :: "byte list \<Rightarrow> 'a word" where
  "pack [] = 0"
| "pack (b # bs) = place b XOR raise (pack bs)"

lemma pack_fits: "length bs \<le> width \<Longrightarrow> fits (length bs) (pack bs)"
  by (induction bs) (simp_all add: fits_zero fits_more)

lemma pack_inject: "length bs = length cs \<Longrightarrow> length bs \<le> width \<Longrightarrow> pack bs = pack cs \<Longrightarrow> bs = cs"
proof (induction bs arbitrary: cs)
  case (Cons b bs)
  then obtain c cs' where cs: "cs = c # cs'" by (cases cs) auto
  have f: "fits (length bs) (pack bs)" "fits (length bs) (pack cs')" "length bs < width"
    using pack_fits [of bs] pack_fits [of cs'] Cons.prems by (simp_all add: cs)
  have eq: "place b XOR raise (pack bs) = place c XOR raise (pack cs')" using Cons.prems by (simp add: cs)
  then have "front (place b XOR raise (pack bs)) = front (place c XOR raise (pack cs'))" by simp
  then have "b = c" using f by (simp add: front_xor front_place front_raise)
  moreover from this eq have "raise (pack bs) = raise (pack cs')" by (metis xor.assoc xor_self_eq xor.left_neutral)
  then have "pack bs = pack cs'" using f pass_raise by metis
  ultimately show ?case using Cons by (simp add: cs)
qed simp

lemma run_pack: "length bs \<le> width \<Longrightarrow> run bs x = (step ^^ (8 * length bs)) (x XOR pack bs)"
proof (induction bs arbitrary: x)
  case (Cons b bs)
  then have f: "fits (length bs) (pack bs)" "length bs < width" using pack_fits [of bs] by simp_all
  have r: "(step ^^ 8) (raise (pack bs)) = pack bs" unfolding front_zero [OF front_raise [OF f]] by (rule pass_raise [OF f])
  have "byte_step b x XOR pack bs = (step ^^ 8) (x XOR (place b XOR raise (pack bs)))"
    by (simp only: byte_step_def steps_xor r xor.assoc)
  moreover have "8 * length (b # bs) = 8 * length bs + 8" by simp
  ultimately show ?case using Cons by (simp only: run.simps pack.simps funpow_add comp_apply)
qed simp

text \<open>Any change within a register's width is noticed, whatever comes before and after it.\<close>

lemma run_detects:
  assumes "length bs = length cs" "length bs \<le> width" "bs \<noteq> cs"
  shows "run (as @ bs @ ds) x \<noteq> run (as @ cs @ ds) x"
proof
  assume "run (as @ bs @ ds) x = run (as @ cs @ ds) x"
  then have "run bs (run as x) = run cs (run as x)" by (simp add: run_append run_inject)
  then have "run as x XOR pack bs = run as x XOR pack cs" using assms by (simp add: run_pack steps_inject)
  then have "pack bs = pack cs" by (metis xor.assoc xor_self_eq xor.left_neutral)
  with pack_inject assms show False by blast
qed

lemma run_residue: "length bs \<le> width \<Longrightarrow> run bs (pack bs) = 0"
  using run_pack [of bs "pack bs"] steps_xor [of _ 0 0] by simp

end

section \<open>The two directions\<close>

lemma and_one_bit: "x AND 1 \<noteq> 0 \<longleftrightarrow> bit x 0" for x :: "'a :: len word"
  by (simp add: and_one_eq bit_0 odd_iff_mod_2_eq_one)

lemma lsb_step_bit: "lsb_step poly x = drop_bit 1 x XOR (if bit x 0 then poly else 0)"
  by (simp add: lsb_step_def and_one_bit)

lemma lsb_step_xor: "lsb_step poly (x XOR y) = lsb_step poly x XOR lsb_step poly y"
  by (simp add: lsb_step_bit bit_xor_iff drop_bit_xor) (auto simp: word_eq_bits bit_simps)

lemma lsb_step_kernel:
  fixes poly :: "'a :: len word"
  assumes "bit poly (LENGTH('a) - 1)" "lsb_step poly x = 0"
  shows "x = 0"
proof -
  have "\<not> bit x 0"
  proof
    assume "bit x 0"
    then have "drop_bit 1 x XOR poly = 0" using assms(2) by (simp add: lsb_step_bit)
    then have "\<not> bit (drop_bit 1 x XOR poly) (LENGTH('a) - 1)" by simp
    moreover have "\<not> bit (drop_bit 1 x) (LENGTH('a) - 1)" by (simp add: bit_drop_bit_eq bit_imp_le_length)
    ultimately show False using assms(1) by (simp add: bit_xor_iff)
  qed
  moreover from this have "drop_bit 1 x = 0" using assms(2) by (simp add: lsb_step_bit)
  then have "bit x (Suc n) \<longleftrightarrow> False" for n by (metis bit_0_eq bit_drop_bit_eq bot_apply bot_bool_def plus_1_eq_Suc comp_apply)
  ultimately show ?thesis by (intro bit_word_eqI) (metis bit_0_eq bot_apply bot_bool_def not0_implies_Suc)
qed

lemma lsb_steps_zero: "(\<And>i. i < n \<Longrightarrow> \<not> bit x i) \<Longrightarrow> (lsb_step poly ^^ n) x = drop_bit n x"
proof (induction n)
  case (Suc n)
  then have "(lsb_step poly ^^ n) x = drop_bit n x" by simp
  moreover have "\<not> bit (drop_bit n x) 0" using Suc.prems [of n] by (simp add: bit_drop_bit_eq)
  ultimately have "lsb_step poly ((lsb_step poly ^^ n) x) = drop_bit (Suc n) x" by (simp only: lsb_step_bit if_False) simp
  then show ?case by simp
qed simp

lemma lsb_shift_register:
  fixes poly :: "'a :: len word"
  assumes "bit poly (LENGTH('a) - 1)" "8 \<le> LENGTH('a)" "8 * w \<le> LENGTH('a)"
  shows "shift_register (lsb_step poly) ucast ucast (drop_bit 8) (push_bit 8) (\<lambda>n x. \<forall>k. bit x k \<longrightarrow> k < 8 * n) w"
proof
  fix x :: "'a word" assume f: "(ucast x :: byte) = 0"
  have "\<not> bit x i" if "i < 8" for i
  proof -
    have "bit (ucast x :: byte) i \<longleftrightarrow> bit x i" using that by (simp add: bit_ucast_iff)
    with f show ?thesis by simp
  qed
  then show "(lsb_step poly ^^ 8) x = drop_bit 8 x" by (rule lsb_steps_zero)
next
  fix x :: "'a word" assume "lsb_step poly x = 0"
  then show "x = 0" by (rule lsb_step_kernel [OF assms(1)])
next
  fix n and x :: "'a word" assume *: "\<forall>k. bit x k \<longrightarrow> k < 8 * n" "n < w"
  then have "8 + k < LENGTH('a)" if "bit x k" for k using assms(3) that by fastforce
  then show "drop_bit 8 (push_bit 8 x) = x" by (auto simp: word_eq_bits bit_simps)
next
  fix n b and x :: "'a word" assume "\<forall>k. bit x k \<longrightarrow> k < 8 * n" "n < w"
  then show "\<forall>k. bit (ucast (b :: byte) XOR push_bit 8 x) k \<longrightarrow> k < 8 * Suc n"
    using bit_imp_le_length [of b] by (fastforce simp: bit_simps)
qed (use assms in \<open>auto simp: lsb_step_xor word_eq_bits bit_simps dest: bit_imp_le_length\<close>)

definition top_bit :: "'a :: len word" where
  "top_bit = push_bit (LENGTH('a) - 1) 1"

lemma msb_step_bit:
  "msb_step top_bit poly x = push_bit 1 x XOR (if bit x (LENGTH('a) - 1) then poly else 0)"
  for x :: "'a :: len word"
proof -
  have "x AND top_bit \<noteq> 0 \<longleftrightarrow> bit x (LENGTH('a) - 1)"
    unfolding top_bit_def by (auto simp: word_eq_bits bit_simps)
  then show ?thesis by (simp add: msb_step_def)
qed

lemma msb_step_xor: "msb_step top_bit poly (x XOR y) = msb_step top_bit poly x XOR msb_step top_bit poly y"
  by (auto simp: msb_step_bit word_eq_bits bit_simps)

lemma msb_steps_zero:
  fixes x :: "'a :: len word"
  shows "n \<le> LENGTH('a) \<Longrightarrow> (\<And>i. LENGTH('a) - n \<le> i \<Longrightarrow> \<not> bit x i) \<Longrightarrow>
     (msb_step top_bit poly ^^ n) x = push_bit n x"
proof (induction n)
  case (Suc n)
  then have "(msb_step top_bit poly ^^ n) x = push_bit n x" by simp
  moreover have "\<not> bit (push_bit n x) (LENGTH('a) - 1)" using Suc.prems(1) Suc.prems(2) [of "LENGTH('a) - 1 - n"] by (simp add: bit_push_bit_iff)
  ultimately have "msb_step top_bit poly ((msb_step top_bit poly ^^ n) x) = push_bit (Suc n) x"
    by (simp only: msb_step_bit if_False) simp
  then show ?case by simp
qed simp

lemma front_bit: "bit (ucast (drop_bit m x) :: byte) j \<longleftrightarrow> j < 8 \<and> bit x (m + j)" for x :: "'a :: len word"
  by (auto simp: bit_ucast_iff bit_drop_bit_eq)

lemma msb_shift_register:
  fixes poly :: "'a :: len word"
  assumes "bit poly 0" "8 \<le> LENGTH('a)" "8 * w \<le> LENGTH('a)"
  shows "shift_register (msb_step top_bit poly) (\<lambda>b. push_bit (LENGTH('a) - 8) (ucast b)) (\<lambda>x. ucast (drop_bit (LENGTH('a) - 8) x))
    (push_bit 8) (drop_bit 8) (\<lambda>n x. \<forall>k. bit x k \<longrightarrow> LENGTH('a) \<le> k + 8 * n) w"
proof
  fix x :: "'a word" assume f: "(ucast (drop_bit (LENGTH('a) - 8) x) :: byte) = 0"
  have "\<not> bit x i" if i: "LENGTH('a) - 8 \<le> i" for i
  proof
    assume "bit x i"
    then have "i - (LENGTH('a) - 8) < 8" using bit_imp_le_length [of x i] assms(2) by linarith
    then have "bit (ucast (drop_bit (LENGTH('a) - 8) x) :: byte) (i - (LENGTH('a) - 8))"
      using \<open>bit x i\<close> i by (simp add: front_bit)
    with f show False by simp
  qed
  with assms(2) show "(msb_step top_bit poly ^^ 8) x = push_bit 8 x" by (intro msb_steps_zero)
next
  fix x :: "'a word" assume x: "msb_step top_bit poly x = 0"
  have nb: "\<not> bit x (LENGTH('a) - 1)"
  proof
    assume "bit x (LENGTH('a) - 1)"
    then have "push_bit 1 x XOR poly = 0" using x by (simp only: msb_step_bit if_True)
    then have "\<not> bit (push_bit 1 x XOR poly) 0" by (simp only: bit_0_eq bot_apply bot_bool_def not_False_eq_True)
    with assms(1) have "bit (push_bit 1 x) 0" by (simp only: bit_xor_iff) blast
    then show False unfolding bit_push_bit_iff by simp
  qed
  then have "push_bit 1 x = 0" using x by (simp only: msb_step_bit if_False xor.right_neutral)
  have "\<not> bit x n" if "Suc n < LENGTH('a)" for n
  proof
    assume "bit x n"
    then have "bit (push_bit 1 x) (Suc n)" using that unfolding bit_push_bit_iff by simp
    then show False unfolding \<open>push_bit 1 x = 0\<close> by simp
  qed
  with nb show "x = 0"
    by (intro bit_word_eqI) (metis Suc_lessI bit_0_eq bot_apply bot_bool_def diff_Suc_1)
next
  fix n and x :: "'a word" assume *: "\<forall>k. bit x k \<longrightarrow> LENGTH('a) \<le> k + 8 * n" "n < w"
  then have k: "8 \<le> k" if "bit x k" for k using assms(3) that by fastforce
  then show "push_bit 8 (drop_bit 8 x) = x" by (auto simp: word_eq_bits bit_simps)
  show "ucast (drop_bit (LENGTH('a) - 8) (drop_bit 8 x)) = (0 :: byte)"
    using assms(2) bit_imp_le_length [of x] by (fastforce simp: word_eq_bits bit_simps)
next
  fix n b and x :: "'a word" assume "\<forall>k. bit x k \<longrightarrow> LENGTH('a) \<le> k + 8 * n" "n < w"
  then show "\<forall>k. bit (push_bit (LENGTH('a) - 8) (ucast (b :: byte)) XOR drop_bit 8 x) k \<longrightarrow> LENGTH('a) \<le> k + 8 * Suc n"
    using assms(2) by (fastforce simp: bit_simps)
qed (use assms in \<open>auto simp: msb_step_xor word_eq_bits bit_simps\<close>)

lemmas poly_defs = crc32_poly_def crc_poly_def POLY_CRC32_def POLY_CRC32C_def POLY_CRC32_REV_def POLY_CRC32C_REV_def
  CRC_CCITT_def CRC_16_def CRC_CCITT_REV_def CRC_16_REV_def bits_at_def

lemma crc32_poly_ends: "bit (crc32_poly alg True) 31" "bit (crc32_poly alg False) 0"
  by (cases alg; simp add: poly_defs)+

lemma crc_poly_ends: "bit (crc_poly alg True) 15" "bit (crc_poly alg False) 0"
  by (cases alg; simp add: poly_defs)+

text \<open>The reversed polynomials are the others read backwards.\<close>

lemma reversed_polynomials:
  "map (bit (crc32_poly alg True)) [0..<32] = rev (map (bit (crc32_poly alg False)) [0..<32])"
  "map (bit (crc_poly a True)) [0..<16] = rev (map (bit (crc_poly a False)) [0..<16])"
  by (cases alg; simp add: poly_defs upt_rec) (cases a; simp add: poly_defs upt_rec)

lemma top_bit_values: "(top_bit :: u32) = 0x80000000" "(top_bit :: u16) = 0x8000"
  by (simp_all add: top_bit_def)

interpretation low32: shift_register "lsb_step (crc32_poly alg True)" ucast ucast "drop_bit 8" "push_bit 8" "\<lambda>n x. \<forall>k. bit x k \<longrightarrow> k < 8 * n" 4
  for alg by (rule lsb_shift_register) (simp_all add: crc32_poly_ends)

interpretation high32: shift_register "msb_step 0x80000000 (crc32_poly alg False)" "\<lambda>b. push_bit 24 (ucast b)" "\<lambda>x. ucast (drop_bit 24 x)"
    "push_bit 8" "drop_bit 8" "\<lambda>n x. \<forall>k. bit x k \<longrightarrow> 32 \<le> k + 8 * n" 4
  for alg using msb_shift_register [of "crc32_poly alg False" 4] by (simp add: crc32_poly_ends top_bit_values)

interpretation low16: shift_register "lsb_step (crc_poly alg True)" ucast ucast "drop_bit 8" "push_bit 8" "\<lambda>n x. \<forall>k. bit x k \<longrightarrow> k < 8 * n" 2
  for alg by (rule lsb_shift_register) (simp_all add: crc_poly_ends)

interpretation high16: shift_register "msb_step 0x8000 (crc_poly alg False)" "\<lambda>b. push_bit 8 (ucast b)" "\<lambda>x. ucast (drop_bit 8 x)"
    "push_bit 8" "drop_bit 8" "\<lambda>n x. \<forall>k. bit x k \<longrightarrow> 16 \<le> k + 8 * n" 2
  for alg using msb_shift_register [of "crc_poly alg False" 2] by (simp add: crc_poly_ends top_bit_values)

section \<open>The table\<close>

lemma low_front: "take_bit 8 x XOR ucast b = ucast (ucast x XOR b)" for x :: "'a :: len word" and b :: byte
  by (rule bit_word_eqI) (auto simp: bit_simps dest: bit_imp_le_length)

lemma low_byte: "x AND 0xff = take_bit 8 x" for x :: "'a :: len word"
  by (simp add: take_bit_eq_mask mask_eq_exp_minus_1)

lemma high_front32: "drop_bit 24 x XOR ucast b = ucast (ucast (drop_bit 24 x) XOR b)" for x :: u32 and b :: byte
  by (rule bit_word_eqI) (auto simp: bit_simps dest: bit_imp_le_length)

lemma high_front16: "drop_bit 8 x XOR ucast b = ucast (ucast (drop_bit 8 x) XOR b)" for x :: u16 and b :: byte
  by (rule bit_word_eqI) (auto simp: bit_simps dest: bit_imp_le_length)

lemma unat_ucast_byte: "8 \<le> LENGTH('a) \<Longrightarrow> unat (ucast (b :: byte) :: 'a :: len word) = unat b"
proof -
  assume "8 \<le> LENGTH('a)"
  then have "(2 :: nat) ^ 8 \<le> 2 ^ LENGTH('a)" by (intro power_increasing) simp_all
  then have "unat b < 2 ^ LENGTH('a)" using unat_byte_less [of b] by simp
  then show ?thesis by (simp add: unsigned_ucast_eq take_bit_nat_eq_self)
qed

lemma combination_entry:
  "map f [0..<256] ! unat (b :: byte) = f (unat b)"
  using unat_byte_less [of b] by simp

lemma all_ones: "x AND 0xffffffff = x" "y AND 0xffff = y" for x :: u32 and y :: u16
proof -
  have "(0xffffffff :: u32) = - 1" "(0xffff :: u16) = - 1" by simp_all
  then show "x AND 0xffffffff = x" "y AND 0xffff = y" by (simp_all only: and.right_neutral)
qed

lemma crc32_consume_low: "crc32_consume (crc32_new alg True flp) data crc = low32.run alg data crc"
proof (induction data arbitrary: crc)
  case (Cons b data)
  then show ?case using low32.table_step [of crc alg b]
    by (simp add: crc32_new_def low_byte low_front unat_ucast_byte combination_entry crc32_combination_def del: funpow.simps)
qed simp

lemma crc32_consume_high: "crc32_consume (crc32_new alg False flp) data crc = high32.run alg data crc"
proof (induction data arbitrary: crc)
  case (Cons b data)
  then show ?case using high32.table_step [of crc alg b]
    by (simp add: all_ones crc32_new_def high_front32 unat_ucast_byte combination_entry crc32_combination_def del: funpow.simps)
qed simp

lemma crc_run_low: "crc_run (crc_new alg True flp) data crc = low16.run alg data crc"
proof (induction data arbitrary: crc)
  case (Cons b data)
  then show ?case using low16.table_step [of crc alg b]
    by (simp add: crc_new_def low_byte low_front unat_ucast_byte combination_entry crc_combination_def del: funpow.simps)
qed simp

lemma crc_run_high: "crc_run (crc_new alg False flp) data crc = high16.run alg data crc"
proof (induction data arbitrary: crc)
  case (Cons b data)
  then show ?case using high16.table_step [of crc alg b]
    by (simp add: all_ones crc_new_def high_front16 unat_ucast_byte combination_entry crc_combination_def del: funpow.simps)
qed simp

section \<open>The register a bit at a time\<close>

definition serial_lsb :: "'a :: len word \<Rightarrow> 'a word \<Rightarrow> bool \<Rightarrow> 'a word" where
  "serial_lsb poly x b = lsb_step poly (x XOR (if b then 1 else 0))"

definition serial_msb :: "'a :: len word \<Rightarrow> 'a word \<Rightarrow> bool \<Rightarrow> 'a word" where
  "serial_msb poly x b = msb_step top_bit poly (x XOR (if b then top_bit else 0))"

definition bits_lsb :: "byte list \<Rightarrow> bool list" where
  "bits_lsb data = concat (map (\<lambda>b. map (bit b) [0..<8]) data)"

definition bits_msb :: "byte list \<Rightarrow> bool list" where
  "bits_msb data = concat (map (\<lambda>b. map (bit b) (rev [0..<8])) data)"

lemma lsb_steps_xor: "(lsb_step poly ^^ n) (x XOR y) = (lsb_step poly ^^ n) x XOR (lsb_step poly ^^ n) y"
  by (induction n) (simp_all add: lsb_step_xor)

lemma msb_steps_xor: "(msb_step top_bit poly ^^ n) (x XOR y) = (msb_step top_bit poly ^^ n) x XOR (msb_step top_bit poly ^^ n) y"
  by (induction n) (simp_all add: msb_step_xor)

lemma serial_lsb_bits:
  fixes x :: "'a :: len word" and b :: "'b :: len word"
  assumes "n \<le> LENGTH('a)"
  shows "foldl (serial_lsb poly) x (map (bit b) [0..<n]) = (lsb_step poly ^^ n) (x XOR take_bit n (ucast b))"
  using assms
proof (induction n)
  case (Suc n)
  have "bit (push_bit n (1 :: 'a word)) i \<longleftrightarrow> i = n" if "i < LENGTH('a)" for i using that Suc.prems by (auto simp: bit_simps)
  then have "take_bit (Suc n) (ucast b) = take_bit n (ucast b) XOR (if bit b n then push_bit n (1 :: 'a word) else 0)"
    using Suc.prems by (auto simp: word_eq_bits bit_simps less_Suc_eq)
  moreover have "(lsb_step poly ^^ n) (if bit b n then push_bit n (1 :: 'a word) else 0) = (if bit b n then 1 else 0)"
  proof -
    have "drop_bit n (push_bit n (1 :: 'a word)) = 1" using Suc.prems by (auto simp: word_eq_bits bit_simps)
    then show ?thesis by (subst lsb_steps_zero) (auto simp: bit_simps)
  qed
  ultimately show ?case using Suc
    by (simp add: serial_lsb_def lsb_steps_xor xor.assoc)
qed simp

lemma bit_push_drop: "bit (push_bit k (drop_bit k y)) i \<longleftrightarrow> k \<le> i \<and> bit y i" for y :: "'a :: len word"
  using bit_imp_le_length [of y i] by (auto simp: bit_push_bit_iff bit_drop_bit_eq simp del: push_bit_Suc)

lemma serial_msb_bits:
  fixes x y :: "'a :: len word"
  assumes "n \<le> LENGTH('a)"
  shows "foldl (serial_msb poly) x (map (\<lambda>k. bit y (LENGTH('a) - Suc k)) [0..<n]) =
     (msb_step top_bit poly ^^ n) (x XOR (push_bit (LENGTH('a) - n) (drop_bit (LENGTH('a) - n) y)))"
  using assms
proof (induction n)
  case 0
  have "push_bit LENGTH('a) (drop_bit LENGTH('a) y) = 0" by (auto simp: word_eq_bits bit_simps)
  then show ?case by simp
next
  case (Suc n)
  let ?L = "LENGTH('a)"
  define m where "m = ?L - Suc n"
  have m: "m < ?L" "?L - n = Suc m" using Suc.prems by (simp_all add: m_def)
  have "push_bit m (drop_bit m y) = push_bit (Suc m) (drop_bit (Suc m) y) XOR (if bit y m then push_bit m 1 else 0)"
  proof (rule bit_word_eqI)
    fix i assume "i < ?L"
    have one: "bit (if bit y m then push_bit m (1 :: 'a word) else 0) i \<longleftrightarrow> i = m \<and> bit y m" using m(1) by (auto simp: bit_simps)
    show "bit (push_bit m (drop_bit m y)) i = bit (push_bit (Suc m) (drop_bit (Suc m) y) XOR (if bit y m then push_bit m 1 else 0)) i"
      unfolding bit_xor_iff bit_push_drop one by (auto simp: Suc_le_eq le_less)
  qed
  moreover have "(msb_step top_bit poly ^^ n) (if bit y m then push_bit m (1 :: 'a word) else 0) = (if bit y m then top_bit else 0)"
  proof -
    have "push_bit n (push_bit m (1 :: 'a word)) = top_bit" using Suc.prems m by (simp add: top_bit_def m_def del: push_bit_of_1)
    moreover have "?L - n \<le> i \<Longrightarrow> \<not> bit (push_bit m (1 :: 'a word)) i" for i unfolding m(2) by (auto simp: bit_simps)
    ultimately show ?thesis using Suc.prems by (subst msb_steps_zero) auto
  qed
  ultimately show ?case using Suc
    by (simp add: serial_msb_def msb_steps_xor xor.assoc m m_def [symmetric])
qed

text \<open>One byte through the register.\<close>

lemma serial_lsb_byte: "8 \<le> LENGTH('a) \<Longrightarrow> foldl (serial_lsb poly) x (map (bit b) [0..<8]) = (lsb_step poly ^^ 8) (x XOR ucast b)"
  for x :: "'a :: len word" and b :: byte
proof -
  assume "8 \<le> LENGTH('a)"
  moreover have "take_bit 8 (ucast b) = (ucast b :: 'a word)" by (auto simp: word_eq_bits bit_simps dest: bit_imp_le_length)
  ultimately show ?thesis using serial_lsb_bits [of 8 poly x b] by (simp only:)
qed

lemma serial_msb_byte: "8 \<le> LENGTH('a) \<Longrightarrow>
    foldl (serial_msb poly) x (map (bit b) (rev [0..<8])) = (msb_step top_bit poly ^^ 8) (x XOR push_bit (LENGTH('a) - 8) (ucast b))"
  for x :: "'a :: len word" and b :: byte
proof -
  assume L: "8 \<le> LENGTH('a)"
  define y where "y = (push_bit (LENGTH('a) - 8) (ucast b) :: 'a word)"
  have "bit y (LENGTH('a) - Suc k) \<longleftrightarrow> bit b (7 - k)" if "k < 8" for k
    using that L by (auto simp: y_def bit_simps)
  then have "map (bit b) (rev [0..<8]) = map (\<lambda>k. bit y (LENGTH('a) - Suc k)) [0..<8]" by (simp add: upt_rec numeral_eq_Suc)
  moreover have "push_bit (LENGTH('a) - 8) (drop_bit (LENGTH('a) - 8) y) = y"
    unfolding y_def by (rule bit_word_eqI) (simp add: bit_push_drop, auto simp: bit_simps)
  ultimately show ?thesis using serial_msb_bits [OF L, of poly x y] by (simp only: y_def)
qed

lemma low32_serial: "low32.run alg data x = foldl (serial_lsb (crc32_poly alg True)) x (bits_lsb data)"
  by (induction data arbitrary: x) (simp_all add: bits_lsb_def serial_lsb_byte low32.byte_step_def del: funpow.simps upt_rec_numeral)

lemma low16_serial: "low16.run alg data x = foldl (serial_lsb (crc_poly alg True)) x (bits_lsb data)"
  by (induction data arbitrary: x) (simp_all add: bits_lsb_def serial_lsb_byte low16.byte_step_def del: funpow.simps upt_rec_numeral)

lemma high32_serial: "high32.run alg data x = foldl (serial_msb (crc32_poly alg False)) x (bits_msb data)"
proof (induction data arbitrary: x)
  case (Cons b data)
  have "foldl (serial_msb (crc32_poly alg False)) x (map (bit b) (rev [0..<8])) = high32.byte_step alg b x"
    using serial_msb_byte [of "crc32_poly alg False" x b] by (simp add: top_bit_values high32.byte_step_def del: funpow.simps upt_rec_numeral)
  then show ?case by (simp add: bits_msb_def foldl_append Cons.IH [unfolded bits_msb_def] del: upt_rec_numeral)
qed (simp add: bits_msb_def)

lemma high16_serial: "high16.run alg data x = foldl (serial_msb (crc_poly alg False)) x (bits_msb data)"
proof (induction data arbitrary: x)
  case (Cons b data)
  have "foldl (serial_msb (crc_poly alg False)) x (map (bit b) (rev [0..<8])) = high16.byte_step alg b x"
    using serial_msb_byte [of "crc_poly alg False" x b] by (simp add: top_bit_values high16.byte_step_def del: funpow.simps upt_rec_numeral)
  then show ?case by (simp add: bits_msb_def foldl_append Cons.IH [unfolded bits_msb_def] del: upt_rec_numeral)
qed (simp add: bits_msb_def)

section \<open>Properties\<close>

text \<open>
  C10: The table is right. For both widths, every algorithm and either bit order, the byte at a time loop through
  the constructed table computes what the shift register with the same polynomial computes a bit at a time.
\<close>

theorem crc_table_is_shift_register:
  "crc32_consume (crc32_new alg rfl flp) data x =
     (if rfl then foldl (serial_lsb (crc32_poly alg rfl)) x (bits_lsb data)
      else foldl (serial_msb (crc32_poly alg rfl)) x (bits_msb data))
   \<and> crc_run (crc_new a rfl flp) data y =
     (if rfl then foldl (serial_lsb (crc_poly a rfl)) y (bits_lsb data)
      else foldl (serial_msb (crc_poly a rfl)) y (bits_msb data))"
  by (cases rfl) (simp_all add: crc32_consume_low crc32_consume_high crc_run_low crc_run_high low32_serial low16_serial high32_serial high16_serial)

text \<open>
  C15: A checksum notices every corruption confined to its own width: two messages that differ only within four
  consecutive bytes have different CRC32 values, and within two different CRC values, wherever the change is,
  for every algorithm, bit order and final flip.
\<close>

theorem crc_detects_bursts:
  assumes "length bs = length cs" "bs \<noteq> cs"
  shows "(length bs \<le> 4 \<longrightarrow> crc32_calculate (crc32_new alg rfl flp) (as @ bs @ ds) \<noteq> crc32_calculate (crc32_new alg rfl flp) (as @ cs @ ds))
    \<and> (length bs \<le> 2 \<longrightarrow> crc_calculate (crc_new a rfl flp) (as @ bs @ ds) \<noteq> crc_calculate (crc_new a rfl flp) (as @ cs @ ds))"
proof -
  have flip_inject: "x XOR z = y XOR z \<longleftrightarrow> x = y" for x y z :: "'b :: len word" by (metis xor.assoc xor_self_eq xor.right_neutral)
  show ?thesis
    using low32.run_detects [OF assms(1) _ assms(2)] high32.run_detects [OF assms(1) _ assms(2)]
      low16.run_detects [OF assms(1) _ assms(2)] high16.run_detects [OF assms(1) _ assms(2)]
    by (cases rfl) (simp_all add: crc32_calculate_def crc32_finalise_def crc_calculate_def crc32_initialiser_def crc_start_def Let_def flip_inject
        crc32_consume_low crc32_consume_high crc_run_low crc_run_high crc32_new_def [THEN arg_cong [of _ _ flip32]] crc_new_def [THEN arg_cong [of _ _ flip16]])
qed

theorem crc_detects_bursts_witness:
  "crc32_calculate (crc32_new ALGORITHM_CRC32 True True) [1, 2, 3] \<noteq> crc32_calculate (crc32_new ALGORITHM_CRC32 True True) [1, 9, 3]"
  using crc_detects_bursts [of "[2]" "[9]" ALGORITHM_CRC32 True True "[1]" "[3]" ALGORITHM_CRC16] by simp

end
