(* ===== verification/Expr.thy ===== *)
theory Expr
  imports Fuel
begin

text \<open>
  The expression evaluator of libs/expr: the tokeniser (token.cc) and the recursive descent evaluator (eval.cc).
  The arithmetic of \<^verbatim>\<open>double\<close>, with its reading of numerals, and the look-up of variables are parameters, so
  that what is proved is about the reading of expressions and holds for any arithmetic. The recursion and the
  loops take fuel, of which one unit more than the text has characters is shown to be enough.
\<close>

section \<open>Tokens\<close>

datatype expr_type =
  TOK_UNKNOWN | TOK_EOT | TOK_NUMBER | TOK_NAME | TOK_MUL | TOK_DIV | TOK_PLUS | TOK_MINUS | TOK_AND | TOK_OR | TOK_NOT
| TOK_EQ | TOK_LT | TOK_GT | TOK_LTEQ | TOK_GTEQ | TOK_NE | TOK_LPAR | TOK_RPAR

record 'v arithmetic =
  a_neg :: "'v \<Rightarrow> 'v"
  a_mul :: "'v \<Rightarrow> 'v \<Rightarrow> 'v"
  a_div :: "'v \<Rightarrow> 'v \<Rightarrow> 'v"
  a_add :: "'v \<Rightarrow> 'v \<Rightarrow> 'v"
  a_sub :: "'v \<Rightarrow> 'v \<Rightarrow> 'v"
  a_eq :: "'v \<Rightarrow> 'v \<Rightarrow> bool"
  a_less :: "'v \<Rightarrow> 'v \<Rightarrow> bool"
  a_leq :: "'v \<Rightarrow> 'v \<Rightarrow> bool"
  a_true :: "'v \<Rightarrow> bool"
  a_bool :: "bool \<Rightarrow> 'v"
  a_stof :: "string \<Rightarrow> 'v"

record 'v expr_token =
  x_type :: expr_type
  x_name :: string
  x_value :: 'v

definition op_token :: "'v arithmetic \<Rightarrow> expr_type \<Rightarrow> 'v expr_token" where
  "op_token ar t = \<lparr> x_type = t, x_name = [], x_value = a_bool ar False \<rparr>"

definition name_token :: "'v arithmetic \<Rightarrow> string \<Rightarrow> 'v expr_token" where
  "name_token ar name = \<lparr> x_type = TOK_NAME, x_name = name, x_value = a_bool ar False \<rparr>"

definition number_token :: "'v \<Rightarrow> 'v expr_token" where
  "number_token v = \<lparr> x_type = TOK_NUMBER, x_name = [], x_value = v \<rparr>"

section \<open>Tokeniser\<close>

text \<open>The tokeniser's state is the input still to come. At its end the character read is NUL.\<close>

fun x_getc :: "string \<Rightarrow> char \<times> string" where
  "x_getc [] = (CHR 0x00, [])"
| "x_getc (c # cs) = (c, cs)"

definition x_peekc :: "string \<Rightarrow> char" where
  "x_peekc s = fst (x_getc s)"

definition x_step :: "string \<Rightarrow> string" where
  "x_step s = snd (x_getc s)"

fun skip_space :: "string \<Rightarrow> char \<times> string" where
  "skip_space [] = (CHR 0x00, [])"
| "skip_space (c # cs) = (if isspace c then skip_space cs else (c, cs))"

definition x_name_char :: "char \<Rightarrow> bool" where
  "x_name_char c \<longleftrightarrow> isalpha c \<or> isdigit c \<or> c = CHR ''_''"

text \<open>The loops that read a name, and the integer and the optional decimal part of a number.\<close>

definition x_read_name :: "'v arithmetic \<Rightarrow> char \<Rightarrow> string \<Rightarrow> 'v expr_token \<times> string" where
  "x_read_name ar c s = (name_token ar (c # takeWhile x_name_char s), dropWhile x_name_char s)"

definition x_read_number :: "'v arithmetic \<Rightarrow> char \<Rightarrow> string \<Rightarrow> 'v expr_token \<times> string" where
  "x_read_number ar c s =
     (let value = c # takeWhile isdigit s; s = dropWhile isdigit s
      in if x_peekc s = CHR ''.''
         then let s = x_step s
              in (number_token (a_stof ar (value @ [CHR ''.''] @ takeWhile isdigit s)), dropWhile isdigit s)
         else (number_token (a_stof ar value), s))"

text \<open>An operator whose second character must repeat the first, and one it may be followed by an equals sign.\<close>

definition doubled :: "'v arithmetic \<Rightarrow> char \<Rightarrow> expr_type \<Rightarrow> string \<Rightarrow> string \<Rightarrow> (string + 'v expr_token) \<times> string" where
  "doubled ar c t err s = (if x_peekc s \<noteq> c then (Inl err, s) else (Inr (op_token ar t), x_step s))"

definition maybe_equals :: "'v arithmetic \<Rightarrow> expr_type \<Rightarrow> expr_type \<Rightarrow> string \<Rightarrow> (string + 'v expr_token) \<times> string" where
  "maybe_equals ar with without s =
     (if x_peekc s = CHR ''='' then (Inr (op_token ar with), x_step s) else (Inr (op_token ar without), s))"

definition x_read_token :: "'v arithmetic \<Rightarrow> string \<Rightarrow> (string + 'v expr_token) \<times> string" where
  "x_read_token ar input =
     (let (c, s) = skip_space input
      in if isalpha c then let (t, s') = x_read_name ar c s in (Inr t, s')
         else if isdigit c then let (t, s') = x_read_number ar c s in (Inr t, s')
         else if c = CHR 0x00 then (Inr (op_token ar TOK_EOT), s)
         else if c = CHR ''+'' then (Inr (op_token ar TOK_PLUS), s)
         else if c = CHR ''-'' then (Inr (op_token ar TOK_MINUS), s)
         else if c = CHR ''*'' then (Inr (op_token ar TOK_MUL), s)
         else if c = CHR ''/'' then (Inr (op_token ar TOK_DIV), s)
         else if c = CHR ''('' then (Inr (op_token ar TOK_LPAR), s)
         else if c = CHR '')'' then (Inr (op_token ar TOK_RPAR), s)
         else if c = CHR ''&'' then doubled ar c TOK_AND ''Single (bitwise) & not implemented'' s
         else if c = CHR ''|'' then doubled ar c TOK_OR ''Single (bitwise) | not implemented'' s
         else if c = CHR ''='' then doubled ar c TOK_EQ ''Assignment not implemented - use =='' s
         else if c = CHR ''<'' then maybe_equals ar TOK_LTEQ TOK_LT s
         else if c = CHR ''>'' then maybe_equals ar TOK_GTEQ TOK_GT s
         else if c = CHR ''!'' then maybe_equals ar TOK_NE TOK_NOT s
         else (Inl (''Unrecognised token near '' @ [CHR 0x27, c, CHR 0x27]), s))"

section \<open>Evaluator\<close>

record 'v Evaluator =
  x_rest :: string
  x_token :: "'v expr_token"

type_synonym 'v evaluation = "(string, 'v Evaluator, 'v) fuelled"

text \<open>
  The variables: what \<^verbatim>\<open>get_value_for_name\<close> returns or throws, for the plain evaluator and for the one on a
  property list, whose numbers are read by \<open>get_real\<close>.
\<close>

type_synonym 'v environment = "string \<Rightarrow> string + 'v"

definition no_variables :: "'v environment" where
  "no_variables name = Inl (''Variable name lookup for '' @ [CHR 0x27] @ name @ [CHR 0x27] @ '' not implemented'')"

definition property_list_variables :: "(string \<rightharpoonup> string) \<Rightarrow> (string \<Rightarrow> 'v) \<Rightarrow> 'v environment" where
  "property_list_variables vars get_real name =
     (case vars name of Some text \<Rightarrow> Inr (get_real text)
      | None \<Rightarrow> Inl (''No such variable '' @ [CHR 0x27] @ name @ [CHR 0x27]))"

definition x_next :: "'v arithmetic \<Rightarrow> (string, 'v Evaluator, unit) fuelled" where
  "x_next ar e =
     (case x_read_token ar (x_rest e) of
        (Inl err, s) \<Rightarrow> Some (Inl err, e \<lparr> x_rest := s \<rparr>)
      | (Inr t, s) \<Rightarrow> Some (Inr (), \<lparr> x_rest = s, x_token = t \<rparr>))"

definition x_current :: "(string, 'v Evaluator, 'v expr_token) fuelled" where
  "x_current e = Some (Inr (x_token e), e)"

text \<open>Reading a further operand after the current operator.\<close>

definition operand :: "'v arithmetic \<Rightarrow> 'v evaluation \<Rightarrow> ('v \<Rightarrow> 'v evaluation) \<Rightarrow> 'v evaluation" where
  "operand ar m k = fuel_bind (x_next ar) (\<lambda>_. fuel_bind m k)"

primrec term_loop :: "'v arithmetic \<Rightarrow> nat \<Rightarrow> 'v evaluation \<Rightarrow> 'v \<Rightarrow> 'v evaluation" where
  "term_loop ar 0 factor v = (\<lambda>e. None)"
| "term_loop ar (Suc fuel) factor v =
     fuel_bind x_current (\<lambda>t. case x_type t of
         TOK_MUL \<Rightarrow> operand ar factor (\<lambda>w. term_loop ar fuel factor (a_mul ar v w))
       | TOK_DIV \<Rightarrow> operand ar factor (\<lambda>w. term_loop ar fuel factor (a_div ar v w))
       | _ \<Rightarrow> fuel_return v)"

definition read_term :: "'v arithmetic \<Rightarrow> nat \<Rightarrow> 'v evaluation \<Rightarrow> 'v evaluation" where
  "read_term ar fuel factor = fuel_bind factor (term_loop ar fuel factor)"

primrec side_loop :: "'v arithmetic \<Rightarrow> nat \<Rightarrow> 'v evaluation \<Rightarrow> 'v \<Rightarrow> 'v evaluation" where
  "side_loop ar 0 read v = (\<lambda>e. None)"
| "side_loop ar (Suc fuel) read v =
     fuel_bind x_current (\<lambda>t. case x_type t of
         TOK_PLUS \<Rightarrow> operand ar read (\<lambda>w. side_loop ar fuel read (a_add ar v w))
       | TOK_MINUS \<Rightarrow> operand ar read (\<lambda>w. side_loop ar fuel read (a_sub ar v w))
       | _ \<Rightarrow> fuel_return v)"

definition read_side :: "'v arithmetic \<Rightarrow> nat \<Rightarrow> 'v evaluation \<Rightarrow> 'v evaluation" where
  "read_side ar fuel factor =
     fuel_bind (read_term ar fuel factor) (side_loop ar fuel (read_term ar fuel factor))"

definition read_predicate :: "'v arithmetic \<Rightarrow> nat \<Rightarrow> 'v evaluation \<Rightarrow> 'v evaluation" where
  "read_predicate ar fuel factor =
     (let side = read_side ar fuel factor;
          compare_with = (\<lambda>p. operand ar side (\<lambda>w. fuel_return (a_bool ar (p w))))
      in fuel_bind side (\<lambda>v. fuel_bind x_current (\<lambda>t. case x_type t of
           TOK_EQ \<Rightarrow> compare_with (\<lambda>w. a_eq ar v w)
         | TOK_NE \<Rightarrow> compare_with (\<lambda>w. \<not> a_eq ar v w)
         | TOK_LT \<Rightarrow> compare_with (\<lambda>w. a_less ar v w)
         | TOK_GT \<Rightarrow> compare_with (\<lambda>w. a_less ar w v)
         | TOK_LTEQ \<Rightarrow> compare_with (\<lambda>w. a_leq ar v w)
         | TOK_GTEQ \<Rightarrow> compare_with (\<lambda>w. a_leq ar w v)
         | _ \<Rightarrow> fuel_return v)))"

primrec expression_loop :: "'v arithmetic \<Rightarrow> nat \<Rightarrow> 'v evaluation \<Rightarrow> 'v \<Rightarrow> 'v evaluation" where
  "expression_loop ar 0 read v = (\<lambda>e. None)"
| "expression_loop ar (Suc fuel) read v =
     fuel_bind x_current (\<lambda>t. case x_type t of
         TOK_AND \<Rightarrow> operand ar read (\<lambda>w. expression_loop ar fuel read (a_bool ar (a_true ar v \<and> a_true ar w)))
       | TOK_OR \<Rightarrow> operand ar read (\<lambda>w. expression_loop ar fuel read (a_bool ar (a_true ar v \<or> a_true ar w)))
       | _ \<Rightarrow> fuel_return v)"

definition read_expression_with :: "'v arithmetic \<Rightarrow> nat \<Rightarrow> 'v evaluation \<Rightarrow> 'v evaluation" where
  "read_expression_with ar fuel factor =
     fuel_bind (read_predicate ar fuel factor) (expression_loop ar fuel (read_predicate ar fuel factor))"

primrec read_factor :: "'v arithmetic \<Rightarrow> 'v environment \<Rightarrow> nat \<Rightarrow> 'v evaluation" where
  "read_factor ar env 0 = (\<lambda>e. None)"
| "read_factor ar env (Suc fuel) =
     fuel_bind x_current (\<lambda>t. case x_type t of
         TOK_MINUS \<Rightarrow> operand ar (read_factor ar env fuel) (\<lambda>v. fuel_return (a_neg ar v))
       | TOK_NOT \<Rightarrow> operand ar (read_factor ar env fuel) (\<lambda>v. fuel_return (a_bool ar (\<not> a_true ar v)))
       | TOK_NUMBER \<Rightarrow> fuel_bind (x_next ar) (\<lambda>_. fuel_return (x_value t))
       | TOK_NAME \<Rightarrow>
           (case env (x_name t) of
              Inl err \<Rightarrow> fuel_throw err
            | Inr v \<Rightarrow> fuel_bind (x_next ar) (\<lambda>_. fuel_return v))
       | TOK_LPAR \<Rightarrow>
           operand ar (read_expression_with ar fuel (read_factor ar env fuel)) (\<lambda>v.
             fuel_bind x_current (\<lambda>t.
               if x_type t = TOK_RPAR then fuel_bind (x_next ar) (\<lambda>_. fuel_return v)
               else fuel_throw ''Mismatched parentheses''))
       | TOK_EOT \<Rightarrow> fuel_throw ''Unexpected end''
       | _ \<Rightarrow> fuel_throw ''Unrecognised token'')"

definition read_expression :: "'v arithmetic \<Rightarrow> 'v environment \<Rightarrow> nat \<Rightarrow> 'v evaluation" where
  "read_expression ar env fuel = read_expression_with ar fuel (read_factor ar env fuel)"

definition evaluator :: "'v arithmetic \<Rightarrow> 'v Evaluator" where
  "evaluator ar = \<lparr> x_rest = [], x_token = op_token ar TOK_UNKNOWN \<rparr>"

definition x_evaluate :: "'v arithmetic \<Rightarrow> 'v environment \<Rightarrow> nat \<Rightarrow> string \<Rightarrow> 'v evaluation" where
  "x_evaluate ar env fuel text e =
     fuel_bind (x_next ar) (\<lambda>_. fuel_bind (read_expression ar env fuel) (\<lambda>v. fuel_bind x_current (\<lambda>t.
       if x_type t \<noteq> TOK_EOT then fuel_throw ''Parse error'' else fuel_return v)))
     (e \<lparr> x_rest := text \<rparr>)"

section \<open>Termination\<close>

text \<open>A token shortens the input, unless it is the end.\<close>

lemma skip_space_length: "skip_space s = (c, s') \<Longrightarrow> length s' \<le> length s \<and> (c \<noteq> CHR 0x00 \<longrightarrow> length s' < length s)"
  by (induction s) (auto split: if_splits)

lemma x_getc_length: "length (snd (x_getc s)) \<le> length s"
  by (cases s) simp_all

lemma x_read_token_length:
  "x_read_token ar s = (r, s') \<Longrightarrow> length s' \<le> length s \<and> (\<forall>t. r = Inr t \<longrightarrow> x_type t \<noteq> TOK_EOT \<longrightarrow> length s' < length s)"
proof -
  assume r: "x_read_token ar s = (r, s')"
  obtain c u where u: "skip_space s = (c, u)" by fastforce
  have step: "length (x_step v) \<le> length v" for v by (simp add: x_step_def x_getc_length)
  have shorter: "length (dropWhile p u) \<le> length u" "length (dropWhile p (x_step (dropWhile q u))) \<le> length u" "length (x_step u) \<le> length u" for p q
    using length_dropWhile_le [of p u] length_dropWhile_le [of q u] length_dropWhile_le [of p "x_step (dropWhile q u)"] step [of u] step [of "dropWhile q u"]
    by linarith+
  have "length s' \<le> length u \<and> (c = CHR 0x00 \<longrightarrow> r = Inr (op_token ar TOK_EOT))"
    using r shorter unfolding x_read_token_def u prod.case Let_def
    by (auto simp: x_read_name_def x_read_number_def doubled_def maybe_equals_def Let_def isalpha_def isdigit_def char_between_ascii split: if_splits)
  with skip_space_length [OF u] show ?thesis by (auto simp: op_token_def)
qed

definition x_weight :: "'v Evaluator \<Rightarrow> nat" where
  "x_weight e = length (x_rest e) + (if x_type (x_token e) = TOK_EOT then 0 else 1)"

abbreviation x_ends :: "nat \<Rightarrow> nat \<Rightarrow> (string, 'v Evaluator, 'a) fuelled \<Rightarrow> bool" where
  "x_ends n k m \<equiv> returns (\<lambda>_. True) x_weight n k m"

text \<open>Looking at the current token and then, unless it is the end, moving on.\<close>

lemma ends_next:
  assumes "\<And>a. 0 < n \<Longrightarrow> x_ends (n - 1) k (f a)" "x_type (x_token e) \<noteq> TOK_EOT" "x_weight e \<le> n"
  shows "\<exists>p. fuel_bind (x_next ar) f e = Some p \<and> advanced (\<lambda>_. True) x_weight (Suc k) e p"
proof -
  obtain r s where r: "x_read_token ar (x_rest e) = (r, s)" by fastforce
  note len = x_read_token_length [OF r]
  have w: "x_weight e = Suc (length (x_rest e))" using assms(2) by (simp add: x_weight_def)
  show ?thesis
  proof (cases r)
    case (Inl err)
    with r len assms(2) show ?thesis by (simp add: fuel_bind_def x_next_def advanced_def x_weight_def)
  next
    case (Inr t)
    define e1 where "e1 = \<lparr> x_rest = s, x_token = t \<rparr>"
    have w1: "Suc (x_weight e1) \<le> x_weight e" using len Inr w by (auto simp: e1_def x_weight_def)
    then have "0 < n" "x_weight e1 \<le> n - 1" using assms(3) by linarith+
    then obtain res e2 where "f () e1 = Some (res, e2)" "advanced (\<lambda>_. True) x_weight k e1 (res, e2)"
      by (rule_tac returnsE [OF assms(1) [of "()"], of e1]) simp_all
    with r Inr w1 show ?thesis by (auto simp: fuel_bind_def x_next_def e1_def advanced_def)
  qed
qed

definition reached :: "nat \<Rightarrow> 'v Evaluator \<Rightarrow> ((string + 'a) \<times> 'v Evaluator) option \<Rightarrow> bool" where
  "reached k e r \<longleftrightarrow> (\<exists>p. r = Some p \<and> advanced (\<lambda>_. True) x_weight k e p)"

lemma ends_current:
  "(\<And>e. x_weight e \<le> n \<Longrightarrow> reached k e (f (x_token e) e)) \<Longrightarrow> x_ends n k (fuel_bind x_current f)"
  by (simp add: returns_def fuel_bind_def x_current_def reached_def)

lemma ends_operand:
  assumes "\<And>j. j < x_weight e \<Longrightarrow> x_ends j (Suc 0) m" "\<And>j w. j < x_weight e \<Longrightarrow> x_ends j 0 (g w)" "x_type (x_token e) \<noteq> TOK_EOT"
  shows "reached (Suc (Suc 0)) e (operand ar m g e)"
proof -
  have "reached (Suc (Suc 0)) e (fuel_bind (x_next ar) (\<lambda>_. fuel_bind m g) e)"
  proof (rule ends_next [OF _ assms(3) order_refl, folded reached_def])
    assume "0 < x_weight e"
    then have "x_ends (x_weight e - 1) (Suc 0 + 0) (fuel_bind m g)" using assms(1,2) by (intro returns_bind) simp_all
    then show "x_ends (x_weight e - 1) (Suc 0) (fuel_bind m g)" by simp
  qed
  then show ?thesis unfolding operand_def .
qed

lemma reached_weaken: "reached k e r \<Longrightarrow> j \<le> k \<Longrightarrow> reached j e r"
  by (fastforce simp: reached_def advanced_def)

lemma ends_operand_0:
  "(\<And>j. j < x_weight e \<Longrightarrow> x_ends j (Suc 0) m) \<Longrightarrow> (\<And>j w. j < x_weight e \<Longrightarrow> x_ends j 0 (g w)) \<Longrightarrow> x_type (x_token e) \<noteq> TOK_EOT \<Longrightarrow>
   reached 0 e (operand ar m g e)"
  using ends_operand [of e m g ar] by (blast intro: reached_weaken)

lemma ends_operand_1:
  "(\<And>j. j < x_weight e \<Longrightarrow> x_ends j (Suc 0) m) \<Longrightarrow> (\<And>j w. j < x_weight e \<Longrightarrow> x_ends j 0 (g w)) \<Longrightarrow> x_type (x_token e) \<noteq> TOK_EOT \<Longrightarrow>
   reached (Suc 0) e (operand ar m g e)"
  using ends_operand [of e m g ar] by (blast intro: reached_weaken [where k = "Suc (Suc 0)"] Suc_leI)

lemma ends_return_now: "reached 0 e (fuel_return v e)"
  by (simp add: fuel_return_def advanced_def reached_def)

lemma ends_throw_now: "reached k e (fuel_throw err e)"
  by (simp add: fuel_throw_def advanced_def reached_def)

lemma ends_term_loop: "(\<And>j. j < n \<Longrightarrow> x_ends j (Suc 0) factor) \<Longrightarrow> n < fuel \<Longrightarrow> x_ends n 0 (term_loop ar fuel factor v)"
proof (induction fuel arbitrary: n v)
  case (Suc fuel)
  then show ?case unfolding term_loop.simps
    by (intro ends_current) (auto split: expr_type.split intro!: ends_return_now ends_operand_0 Suc.IH)
qed simp

lemma ends_first: "x_ends n (Suc 0) m \<Longrightarrow> (\<And>j v. j < n \<Longrightarrow> x_ends j 0 (g v)) \<Longrightarrow> x_ends n (Suc 0) (fuel_bind m g)"
  using returns_bind [of _ _ n "Suc 0" m 0 g] by simp

lemma ends_term: "(\<And>j. j \<le> n \<Longrightarrow> x_ends j (Suc 0) factor) \<Longrightarrow> n < fuel \<Longrightarrow> x_ends n (Suc 0) (read_term ar fuel factor)"
  unfolding read_term_def by (rule ends_first) (auto intro!: ends_term_loop)

lemma ends_side_loop: "(\<And>j. j < n \<Longrightarrow> x_ends j (Suc 0) read) \<Longrightarrow> n < fuel \<Longrightarrow> x_ends n 0 (side_loop ar fuel read v)"
proof (induction fuel arbitrary: n v)
  case (Suc fuel)
  then show ?case unfolding side_loop.simps
    by (intro ends_current) (auto split: expr_type.split intro!: ends_return_now ends_operand_0 Suc.IH)
qed simp

lemma ends_side: "(\<And>j. j \<le> n \<Longrightarrow> x_ends j (Suc 0) factor) \<Longrightarrow> n < fuel \<Longrightarrow> x_ends n (Suc 0) (read_side ar fuel factor)"
  unfolding read_side_def by (rule ends_first) (auto intro!: ends_term ends_side_loop)

lemma ends_predicate:
  assumes "\<And>j. j \<le> n \<Longrightarrow> x_ends j (Suc 0) factor" "n < fuel"
  shows "x_ends n (Suc 0) (read_predicate ar fuel factor)"
  unfolding read_predicate_def Let_def
proof (rule ends_first)
  have side: "x_ends j (Suc 0) (read_side ar fuel factor)" if "j \<le> n" for j using assms that by (intro ends_side) auto
  then show "x_ends n (Suc 0) (read_side ar fuel factor)" by simp
  show "x_ends j 0 (fuel_bind x_current (\<lambda>t. case x_type t of
           TOK_EQ \<Rightarrow> operand ar (read_side ar fuel factor) (\<lambda>w. fuel_return (a_bool ar (a_eq ar v w)))
         | TOK_NE \<Rightarrow> operand ar (read_side ar fuel factor) (\<lambda>w. fuel_return (a_bool ar (\<not> a_eq ar v w)))
         | TOK_LT \<Rightarrow> operand ar (read_side ar fuel factor) (\<lambda>w. fuel_return (a_bool ar (a_less ar v w)))
         | TOK_GT \<Rightarrow> operand ar (read_side ar fuel factor) (\<lambda>w. fuel_return (a_bool ar (a_less ar w v)))
         | TOK_LTEQ \<Rightarrow> operand ar (read_side ar fuel factor) (\<lambda>w. fuel_return (a_bool ar (a_leq ar v w)))
         | TOK_GTEQ \<Rightarrow> operand ar (read_side ar fuel factor) (\<lambda>w. fuel_return (a_bool ar (a_leq ar w v)))
         | _ \<Rightarrow> fuel_return v))" if "j < n" for j v
    using that by (intro ends_current) (auto split: expr_type.split intro!: ends_return_now ends_operand_0 returns_return side)
qed

lemma ends_expression_loop: "(\<And>j. j < n \<Longrightarrow> x_ends j (Suc 0) read) \<Longrightarrow> n < fuel \<Longrightarrow> x_ends n 0 (expression_loop ar fuel read v)"
proof (induction fuel arbitrary: n v)
  case (Suc fuel)
  then show ?case unfolding expression_loop.simps
    by (intro ends_current) (auto split: expr_type.split intro!: ends_return_now ends_operand_0 Suc.IH)
qed simp

lemma ends_expression_with: "(\<And>j. j \<le> n \<Longrightarrow> x_ends j (Suc 0) factor) \<Longrightarrow> n < fuel \<Longrightarrow> x_ends n (Suc 0) (read_expression_with ar fuel factor)"
  unfolding read_expression_with_def by (rule ends_first) (auto intro!: ends_predicate ends_expression_loop)

lemma ends_next_1: "x_type (x_token e) \<noteq> TOK_EOT \<Longrightarrow>
    reached (Suc 0) e (fuel_bind (x_next ar) (\<lambda>_. fuel_return v) e)"
  using ends_next [of "x_weight e" 0 "\<lambda>_. fuel_return v" e ar] by (simp add: returns_return reached_def)

lemma ends_close: "x_ends n 0 (fuel_bind x_current (\<lambda>t. if x_type t = TOK_RPAR then fuel_bind (x_next ar) (\<lambda>_. fuel_return v) else fuel_throw err))"
proof (rule ends_current)
  fix e :: "'a Evaluator" assume "x_weight e \<le> n"
  then show "reached 0 e ((if x_type (x_token e) = TOK_RPAR then fuel_bind (x_next ar) (\<lambda>_. fuel_return v) else fuel_throw err) e)"
    using ends_next_1 [of e ar v] by (auto intro: ends_throw_now reached_weaken)
qed

lemma ends_factor: "n < fuel \<Longrightarrow> x_ends n (Suc 0) (read_factor ar env fuel)"
proof (induction fuel arbitrary: n)
  case (Suc fuel)
  then show ?case unfolding read_factor.simps
    by (intro ends_current) (auto split: expr_type.split sum.split
        intro!: ends_throw_now ends_operand_1 ends_next_1 returns_return ends_expression_with ends_close Suc.IH)
qed simp

lemma ends_expression: "n < fuel \<Longrightarrow> x_ends n (Suc 0) (read_expression ar env fuel)"
  unfolding read_expression_def by (intro ends_expression_with ends_factor) auto

lemma evaluate_ends:
  "\<exists>r e'. x_evaluate ar env (length text + 2) text e = Some (r, e')"
proof -
  obtain r s where r: "x_read_token ar text = (r, s)" by fastforce
  show ?thesis
  proof (cases r)
    case (Inl err)
    with r show ?thesis by (simp add: x_evaluate_def fuel_bind_def x_next_def)
  next
    case (Inr t)
    define e1 where "e1 = \<lparr> x_rest = s, x_token = t \<rparr>"
    have "x_weight e1 < length text + 2" using x_read_token_length [OF r] by (simp add: x_weight_def e1_def)
    then have "x_ends (x_weight e1) (Suc 0) (read_expression ar env (length text + 2))" by (rule ends_expression)
    then obtain res e2 where "read_expression ar env (length text + 2) e1 = Some (res, e2)"
      by (rule returnsE [where s = e1]) simp_all
    with r Inr show ?thesis
      by (cases res) (auto simp: x_evaluate_def fuel_bind_def x_next_def e1_def x_current_def fuel_throw_def fuel_return_def)
  qed
qed

section \<open>Expressions and their text\<close>

datatype operator = Mul | Div | Add | Sub | Eq | Ne | Lt | Gt | Le | Ge | And | Or

datatype expr = Lit string | Var string | Negate expr | Not expr | Bin operator expr expr

text \<open>The value of an expression, as the operators are meant.\<close>

primrec apply_op :: "'v arithmetic \<Rightarrow> operator \<Rightarrow> 'v \<Rightarrow> 'v \<Rightarrow> 'v" where
  "apply_op ar Mul v w = a_mul ar v w"
| "apply_op ar Div v w = a_div ar v w"
| "apply_op ar Add v w = a_add ar v w"
| "apply_op ar Sub v w = a_sub ar v w"
| "apply_op ar Eq v w = a_bool ar (a_eq ar v w)"
| "apply_op ar Ne v w = a_bool ar (\<not> a_eq ar v w)"
| "apply_op ar Lt v w = a_bool ar (a_less ar v w)"
| "apply_op ar Gt v w = a_bool ar (a_less ar w v)"
| "apply_op ar Le v w = a_bool ar (a_leq ar v w)"
| "apply_op ar Ge v w = a_bool ar (a_leq ar w v)"
| "apply_op ar And v w = a_bool ar (a_true ar v \<and> a_true ar w)"
| "apply_op ar Or v w = a_bool ar (a_true ar v \<or> a_true ar w)"

primrec denote :: "'v arithmetic \<Rightarrow> (string \<Rightarrow> 'v) \<Rightarrow> expr \<Rightarrow> 'v" where
  "denote ar val (Lit s) = a_stof ar s"
| "denote ar val (Var x) = val x"
| "denote ar val (Negate e) = a_neg ar (denote ar val e)"
| "denote ar val (Not e) = a_bool ar (\<not> a_true ar (denote ar val e))"
| "denote ar val (Bin f a b) = apply_op ar f (denote ar val a) (denote ar val b)"

text \<open>
  The words of an expression, with the parentheses the levels of the grammar ask for: 4 a factor, 3 a term, 2 a
  side, 1 a predicate, 0 an expression. Operators of a level associate to the left, comparisons not at all.
\<close>

primrec symbol_of :: "operator \<Rightarrow> string" where
  "symbol_of Mul = ''*''" | "symbol_of Div = ''/''" | "symbol_of Add = ''+''" | "symbol_of Sub = ''-''"
| "symbol_of Eq = ''==''" | "symbol_of Ne = ''!=''" | "symbol_of Lt = ''<''" | "symbol_of Gt = ''>''"
| "symbol_of Le = ''<=''" | "symbol_of Ge = ''>=''" | "symbol_of And = ''&&''" | "symbol_of Or = ''||''"

primrec type_of :: "operator \<Rightarrow> expr_type" where
  "type_of Mul = TOK_MUL" | "type_of Div = TOK_DIV" | "type_of Add = TOK_PLUS" | "type_of Sub = TOK_MINUS"
| "type_of Eq = TOK_EQ" | "type_of Ne = TOK_NE" | "type_of Lt = TOK_LT" | "type_of Gt = TOK_GT"
| "type_of Le = TOK_LTEQ" | "type_of Ge = TOK_GTEQ" | "type_of And = TOK_AND" | "type_of Or = TOK_OR"

primrec op_level :: "operator \<Rightarrow> nat" where
  "op_level Mul = 3" | "op_level Div = 3" | "op_level Add = 2" | "op_level Sub = 2"
| "op_level Eq = 1" | "op_level Ne = 1" | "op_level Lt = 1" | "op_level Gt = 1" | "op_level Le = 1" | "op_level Ge = 1"
| "op_level And = 0" | "op_level Or = 0"

definition left_level :: "operator \<Rightarrow> nat" where
  "left_level f = (if op_level f = 1 then 2 else op_level f)"

primrec expr_words :: "nat \<Rightarrow> expr \<Rightarrow> string list" where
  "expr_words l (Lit s) = [s]"
| "expr_words l (Var x) = [x]"
| "expr_words l (Negate e) = ''-'' # expr_words 4 e"
| "expr_words l (Not e) = ''!'' # expr_words 4 e"
| "expr_words l (Bin f a b) =
     (let ws = expr_words (left_level f) a @ symbol_of f # expr_words (op_level f + 1) b
      in if op_level f < l then ''('' # ws @ ['')''] else ws)"

fun expr_level :: "expr \<Rightarrow> nat" where
  "expr_level (Bin f a b) = op_level f"
| "expr_level e = 4"

text \<open>Numerals and names, and a text that spells words with white space around them where it is needed.\<close>

definition is_numeral :: "string \<Rightarrow> bool" where
  "is_numeral w \<longleftrightarrow> w \<noteq> [] \<and> isdigit (hd w) \<and>
     (let r = dropWhile isdigit w in r = [] \<or> hd r = CHR ''.'' \<and> list_all isdigit (tl r))"

definition is_name :: "string \<Rightarrow> bool" where
  "is_name w \<longleftrightarrow> w \<noteq> [] \<and> isalpha (hd w) \<and> list_all x_name_char (tl w)"

definition symbols :: "(string \<times> expr_type) list" where
  "symbols =
     [(''*'', TOK_MUL), (''/'', TOK_DIV), (''+'', TOK_PLUS), (''-'', TOK_MINUS), (''=='', TOK_EQ), (''!='', TOK_NE),
      (''<'', TOK_LT), (''>'', TOK_GT), (''<='', TOK_LTEQ), (''>='', TOK_GTEQ), (''&&'', TOK_AND), (''||'', TOK_OR),
      (''!'', TOK_NOT), (''('', TOK_LPAR), ('')'', TOK_RPAR)]"

definition is_word :: "string \<Rightarrow> bool" where
  "is_word w \<longleftrightarrow> is_name w \<or> is_numeral w \<or> w \<in> set (map fst symbols)"

definition word_token :: "'v arithmetic \<Rightarrow> string \<Rightarrow> 'v expr_token" where
  "word_token ar w =
     (if isalpha (hd w) then name_token ar w
      else if isdigit (hd w) then number_token (a_stof ar w)
      else op_token ar (the (map_of symbols w)))"

definition may_follow :: "string \<Rightarrow> string \<Rightarrow> bool" where
  "may_follow w r \<longleftrightarrow>
     (if isalpha (hd w) then \<not> x_name_char (x_peekc r)
      else if isdigit (hd w) then \<not> isdigit (x_peekc r) \<and> (x_peekc r = CHR ''.'' \<longrightarrow> CHR ''.'' \<in> set w)
      else w \<in> {''<'', ''>'', ''!''} \<longrightarrow> x_peekc r \<noteq> CHR ''='')"

fun spelled :: "(string \<times> string) list \<Rightarrow> string \<Rightarrow> string" where
  "spelled [] fin = fin"
| "spelled ((gap, w) # gws) fin = gap @ w @ spelled gws fin"

fun well_spaced :: "(string \<times> string) list \<Rightarrow> string \<Rightarrow> bool" where
  "well_spaced [] fin \<longleftrightarrow> list_all isspace fin"
| "well_spaced ((gap, w) # gws) fin \<longleftrightarrow> list_all isspace gap \<and> may_follow w (spelled gws fin) \<and> well_spaced gws fin"

primrec well_formed :: "(string \<Rightarrow> bool) \<Rightarrow> expr \<Rightarrow> bool" where
  "well_formed known (Lit s) \<longleftrightarrow> is_numeral s"
| "well_formed known (Var x) \<longleftrightarrow> is_name x \<and> known x"
| "well_formed known (Negate e) \<longleftrightarrow> well_formed known e"
| "well_formed known (Not e) \<longleftrightarrow> well_formed known e"
| "well_formed known (Bin f a b) \<longleftrightarrow> well_formed known a \<and> well_formed known b"

section \<open>Reading words\<close>

lemma alpha_facts: "isalpha c \<Longrightarrow> \<not> isspace c \<and> \<not> isdigit c"
  by (auto simp: isalpha_def isdigit_def isspace_def char_between_ascii)

lemma digit_facts: "isdigit c \<Longrightarrow> \<not> isspace c \<and> \<not> isalpha c"
  by (auto simp: isalpha_def isdigit_def isspace_def char_between_ascii)

lemma skip_space_gap: "list_all isspace gap \<Longrightarrow> skip_space (gap @ s) = skip_space s"
  by (induction gap) simp_all

lemma x_read_token_gap: "list_all isspace gap \<Longrightarrow> x_read_token ar (gap @ s) = x_read_token ar s"
  by (simp add: x_read_token_def skip_space_gap)

lemma span_append: "list_all P xs \<Longrightarrow> \<not> P (x_peekc r) \<Longrightarrow> takeWhile P (xs @ r) = xs \<and> dropWhile P (xs @ r) = r"
  by (cases r) (auto simp: x_peekc_def takeWhile_append dropWhile_append takeWhile_eq_all_conv list_all_iff)

lemma read_name_word:
  assumes "is_name w" "\<not> x_name_char (x_peekc r)"
  shows "x_read_token ar (w @ r) = (Inr (name_token ar w), r)"
proof -
  obtain c cs where w: "w = c # cs" "isalpha c" "list_all x_name_char cs" using assms(1) by (cases w) (auto simp: is_name_def)
  with span_append [OF w(3) assms(2)] alpha_facts [OF w(2)] show ?thesis
    by (simp add: x_read_token_def x_read_name_def)
qed

lemma read_numeral_word:
  assumes "is_numeral w" "\<not> isdigit (x_peekc r)" "x_peekc r = CHR ''.'' \<longrightarrow> CHR ''.'' \<in> set w"
  shows "x_read_token ar (w @ r) = (Inr (number_token (a_stof ar w)), r)"
proof -
  obtain c cs where w: "w = c # cs" "isdigit c" using assms(1) by (cases w) (auto simp: is_numeral_def)
  define ds where "ds = takeWhile isdigit cs"
  have ds: "list_all isdigit ds" unfolding ds_def list_all_iff by (auto dest: set_takeWhileD)
  have start: "x_read_token ar (w @ r) = (let (t, s') = x_read_number ar c (cs @ r) in (Inr t, s'))"
    using w digit_facts [OF w(2)] by (simp add: x_read_token_def)
  consider (whole) "cs = ds" | (decimal) fs where "cs = ds @ CHR ''.'' # fs" "list_all isdigit fs"
  proof (cases "dropWhile isdigit cs")
    case Nil
    then have "cs = ds" by (metis append_Nil2 ds_def takeWhile_dropWhile_id)
    then show ?thesis by (rule whole)
  next
    case (Cons d fs)
    with assms(1) w have "d = CHR ''.''" "list_all isdigit fs" by (auto simp: is_numeral_def)
    moreover have "cs = ds @ d # fs" using Cons by (metis ds_def takeWhile_dropWhile_id)
    ultimately show ?thesis using decimal by blast
  qed
  then show ?thesis
  proof cases
    case whole
    have "CHR ''.'' \<notin> set w" using ds w whole by (auto simp: list_all_iff isdigit_def char_between_ascii)
    with assms(3) have "x_peekc r \<noteq> CHR ''.''" by blast
    with start span_append [OF ds assms(2)] w whole show ?thesis by (simp add: x_read_number_def)
  next
    case decimal
    have dot: "\<not> isdigit (x_peekc (CHR ''.'' # fs @ r))" by (simp add: x_peekc_def isdigit_def char_between_ascii)
    from start span_append [OF ds dot] span_append [OF decimal(2) assms(2)] w decimal(1) show ?thesis
      by (simp add: x_read_number_def x_peekc_def x_step_def)
  qed
qed

lemma read_symbol_word:
  assumes "w \<in> set (map fst symbols)" "w \<in> {''<'', ''>'', ''!''} \<longrightarrow> x_peekc r \<noteq> CHR ''=''"
  shows "x_read_token ar (w @ r) = (Inr (op_token ar (the (map_of symbols w))), r)"
  using assms
  by (auto simp: symbols_def x_read_token_def isspace_def isalpha_def isdigit_def char_between_ascii doubled_def maybe_equals_def
      x_peekc_def x_step_def split: if_splits)

lemma symbol_start: "w \<in> set (map fst symbols) \<Longrightarrow> \<not> isalpha (hd w) \<and> \<not> isdigit (hd w)"
  by (auto simp: symbols_def isalpha_def isdigit_def char_between_ascii)

lemma read_word: "is_word w \<Longrightarrow> may_follow w r \<Longrightarrow> x_read_token ar (w @ r) = (Inr (word_token ar w), r)"
  using read_name_word [of w r ar] read_numeral_word [of w r ar] read_symbol_word [of w r ar] symbol_start [of w]
  by (auto simp: is_word_def may_follow_def word_token_def is_name_def is_numeral_def dest: digit_facts split: if_splits)

lemma word_not_end: "is_word w \<Longrightarrow> x_type (word_token ar w) \<noteq> TOK_EOT"
  using symbol_start [of w]
  by (auto simp: is_word_def word_token_def is_name_def is_numeral_def name_token_def number_token_def op_token_def symbols_def dest: digit_facts)

section \<open>The tokens still to come\<close>

function lex_all :: "'v arithmetic \<Rightarrow> string \<Rightarrow> (string + 'v expr_token) list" where
  "lex_all ar s =
     (case x_read_token ar s of
        (Inl err, s') \<Rightarrow> [Inl err]
      | (Inr t, s') \<Rightarrow> if x_type t = TOK_EOT then [] else Inr t # lex_all ar s')"
  by pat_completeness auto
termination by (relation "measure (length \<circ> snd)") (auto dest: x_read_token_length [OF sym])

declare lex_all.simps [simp del]

definition x_left :: "'v arithmetic \<Rightarrow> 'v Evaluator \<Rightarrow> (string + 'v expr_token) list" where
  "x_left ar e = (if x_type (x_token e) = TOK_EOT then [] else Inr (x_token e) # lex_all ar (x_rest e))"

definition reads :: "'v arithmetic \<Rightarrow> 'v evaluation \<Rightarrow> 'v expr_token list \<Rightarrow> 'v \<Rightarrow> 'v expr_token list \<Rightarrow> bool" where
  "reads ar m ts v ts' \<longleftrightarrow> fyields (\<lambda>_. True) (x_left ar) m (map Inr ts) v (map Inr ts')"

definition next_type :: "'v expr_token list \<Rightarrow> expr_type" where
  "next_type ts = (case ts of [] \<Rightarrow> TOK_EOT | t # _ \<Rightarrow> x_type t)"

lemma next_type_simps [simp]: "next_type [] = TOK_EOT" "next_type (t # ts) = x_type t"
  by (simp_all add: next_type_def)

lemma lex_all_words:
  "list_all is_word (map snd gws) \<Longrightarrow> well_spaced gws fin \<Longrightarrow>
   lex_all ar (spelled gws fin) = map Inr (map (word_token ar) (map snd gws))"
proof (induction gws fin rule: well_spaced.induct)
  case (1 fin)
  then have "skip_space fin = (CHR 0x00, [])" using skip_space_gap [of fin "[]"] by simp
  then have "x_read_token ar fin = (Inr (op_token ar TOK_EOT), [])"
    by (simp add: x_read_token_def isalpha_def isdigit_def char_between_ascii)
  then show ?case by (simp add: lex_all.simps op_token_def)
next
  case (2 gap w gws fin)
  then have "x_read_token ar (spelled ((gap, w) # gws) fin) = (Inr (word_token ar w), spelled gws fin)"
    by (simp add: x_read_token_gap read_word)
  with 2 word_not_end [of w ar] show ?case by (subst lex_all.simps) simp
qed

lemma x_next_lex:
  assumes lex: "lex_all ar (x_rest e) = map Inr ts"
  obtains e' where "x_next ar e = Some (Inr (), e')" "x_left ar e' = map Inr ts"
proof -
  obtain r s where r: "x_read_token ar (x_rest e) = (r, s)" by fastforce
  show ?thesis
  proof (cases r)
    case (Inl err)
    with lex r show ?thesis by (auto simp: lex_all.simps)
  next
    case (Inr u)
    then have "x_next ar e = Some (Inr (), \<lparr> x_rest = s, x_token = u \<rparr>)" using r by (simp add: x_next_def)
    moreover have "x_left ar \<lparr> x_rest = s, x_token = u \<rparr> = map Inr ts"
      using lex r Inr by (subst (asm) lex_all.simps) (auto simp: x_left_def split: if_splits)
    ultimately show ?thesis by (rule that)
  qed
qed

lemma x_next_left:
  assumes "x_left ar e = map Inr (t # ts)"
  obtains e' where "x_next ar e = Some (Inr (), e')" "x_left ar e' = map Inr ts"
proof -
  have "lex_all ar (x_rest e) = map Inr ts" using assms by (auto simp: x_left_def split: if_splits)
  then show ?thesis using that by (rule x_next_lex)
qed

lemma reads_next: "reads ar m ts v ts' \<Longrightarrow> reads ar (fuel_bind (x_next ar) (\<lambda>_. m)) (t # ts) v ts'"
  unfolding reads_def fyields_def by (auto simp: fuel_bind_def elim!: x_next_left [of ar _ t ts, simplified])

lemma reads_bind: "reads ar m ts v mid \<Longrightarrow> reads ar (f v) mid w left \<Longrightarrow> reads ar (fuel_bind m f) ts w left"
  unfolding reads_def by (rule fyields_bind)

lemma reads_operand: "reads ar m ts v mid \<Longrightarrow> reads ar (k v) mid w left \<Longrightarrow> reads ar (operand ar m k) (t # ts) w left"
  unfolding operand_def by (intro reads_next reads_bind)

lemma x_left_token: "x_left ar e = map Inr (t # ts) \<Longrightarrow> x_token e = t"
  by (auto simp: x_left_def split: if_splits)

lemma x_left_type: "x_left ar e = map Inr ts \<Longrightarrow> x_type (x_token e) = next_type ts"
  by (cases ts) (auto simp: x_left_def split: if_splits)

lemma reads_current: "reads ar (f t) (t # ts) w left \<Longrightarrow> reads ar (fuel_bind x_current f) (t # ts) w left"
  by (simp add: reads_def fyields_def fuel_bind_def x_current_def x_left_token [unfolded list.map])

lemma reads_current_type:
  "(\<And>t. x_type t = next_type ts \<Longrightarrow> reads ar (f t) ts w left) \<Longrightarrow> reads ar (fuel_bind x_current f) ts w left"
  using x_left_type [of ar _ ts] by (simp add: reads_def fyields_def fuel_bind_def x_current_def)

lemma reads_none [simp]: "reads ar (\<lambda>e. None) ts v ts'"
  by (simp add: reads_def)

lemma reads_return: "reads ar (fuel_return v) ts v ts"
  by (simp add: reads_def fyields_fuel_return)

section \<open>Reading the words of an expression\<close>

definition expr_tokens :: "'v arithmetic \<Rightarrow> nat \<Rightarrow> expr \<Rightarrow> 'v expr_token list" where
  "expr_tokens ar l e = map (word_token ar) (expr_words l e)"

lemma expr_words_level: "expr_level e \<noteq> l \<Longrightarrow> expr_words l e = expr_words (Suc l) e"
  by (cases e) (auto simp: Let_def less_Suc_eq)

lemma expr_words_parens:
  "expr_level e < 4 \<Longrightarrow> expr_words 4 e = ''('' # expr_words 0 e @ ['')'']"
  by (cases e) auto

lemma word_token_symbols:
  "x_type (word_token ar (symbol_of f)) = type_of f" "x_type (word_token ar ''('') = TOK_LPAR"
  "x_type (word_token ar '')'') = TOK_RPAR" "x_type (word_token ar ''-'') = TOK_MINUS"
  "x_type (word_token ar ''!'') = TOK_NOT"
  by (cases f) (auto simp: word_token_def symbols_def op_token_def isalpha_def isdigit_def char_between_ascii)

lemma operator_types:
  "x_type (word_token ar ''*'') = TOK_MUL" "x_type (word_token ar ''/'') = TOK_DIV" "x_type (word_token ar ''+'') = TOK_PLUS"
  "x_type (word_token ar ''-'') = TOK_MINUS" "x_type (word_token ar ''=='') = TOK_EQ" "x_type (word_token ar ''!='') = TOK_NE"
  "x_type (word_token ar ''<'') = TOK_LT" "x_type (word_token ar ''>'') = TOK_GT" "x_type (word_token ar ''<='') = TOK_LTEQ"
  "x_type (word_token ar ''>='') = TOK_GTEQ" "x_type (word_token ar ''&&'') = TOK_AND" "x_type (word_token ar ''||'') = TOK_OR"
  using word_token_symbols(1) [of ar Mul] word_token_symbols(1) [of ar Div] word_token_symbols(1) [of ar Add] word_token_symbols(1) [of ar Sub]
    word_token_symbols(1) [of ar Eq] word_token_symbols(1) [of ar Ne] word_token_symbols(1) [of ar Lt] word_token_symbols(1) [of ar Gt]
    word_token_symbols(1) [of ar Le] word_token_symbols(1) [of ar Ge] word_token_symbols(1) [of ar And] word_token_symbols(1) [of ar Or]
  by simp_all

text \<open>
  What each routine reads, given what comes after the expression: a loop goes on from the value of the expression
  with the rest, and the token there does not bind more tightly.
\<close>

definition factor_reads :: "'v arithmetic \<Rightarrow> 'v environment \<Rightarrow> expr \<Rightarrow> 'v \<Rightarrow> bool" where
  "factor_reads ar env e v \<longleftrightarrow> (\<forall>n ts. reads ar (read_factor ar env n) (expr_tokens ar 4 e @ ts) v ts)"

definition term_reads :: "'v arithmetic \<Rightarrow> 'v environment \<Rightarrow> expr \<Rightarrow> 'v \<Rightarrow> bool" where
  "term_reads ar env e v \<longleftrightarrow> (\<forall>n k ts w left.
     (\<forall>j. reads ar (term_loop ar j (read_factor ar env n) v) ts w left) \<longrightarrow>
     reads ar (fuel_bind (read_factor ar env n) (term_loop ar k (read_factor ar env n))) (expr_tokens ar 3 e @ ts) w left)"

definition side_reads :: "'v arithmetic \<Rightarrow> 'v environment \<Rightarrow> expr \<Rightarrow> 'v \<Rightarrow> bool" where
  "side_reads ar env e v \<longleftrightarrow> (\<forall>n m k ts w left. next_type ts \<notin> {TOK_MUL, TOK_DIV} \<longrightarrow>
     (\<forall>j. reads ar (side_loop ar j (read_term ar m (read_factor ar env n)) v) ts w left) \<longrightarrow>
     reads ar (fuel_bind (read_term ar m (read_factor ar env n)) (side_loop ar k (read_term ar m (read_factor ar env n))))
       (expr_tokens ar 2 e @ ts) w left)"

definition comparison_types :: "expr_type set" where
  "comparison_types = {TOK_EQ, TOK_NE, TOK_LT, TOK_GT, TOK_LTEQ, TOK_GTEQ}"

definition predicate_reads :: "'v arithmetic \<Rightarrow> 'v environment \<Rightarrow> expr \<Rightarrow> 'v \<Rightarrow> bool" where
  "predicate_reads ar env e v \<longleftrightarrow> (\<forall>n m ts. next_type ts \<notin> {TOK_MUL, TOK_DIV, TOK_PLUS, TOK_MINUS} \<union> comparison_types \<longrightarrow>
     reads ar (read_predicate ar m (read_factor ar env n)) (expr_tokens ar 1 e @ ts) v ts)"

definition expression_reads :: "'v arithmetic \<Rightarrow> 'v environment \<Rightarrow> expr \<Rightarrow> 'v \<Rightarrow> bool" where
  "expression_reads ar env e v \<longleftrightarrow> (\<forall>n m k ts w left.
     next_type ts \<notin> {TOK_MUL, TOK_DIV, TOK_PLUS, TOK_MINUS} \<union> comparison_types \<longrightarrow>
     (\<forall>j. reads ar (expression_loop ar j (read_predicate ar m (read_factor ar env n)) v) ts w left) \<longrightarrow>
     reads ar (fuel_bind (read_predicate ar m (read_factor ar env n)) (expression_loop ar k (read_predicate ar m (read_factor ar env n))))
       (expr_tokens ar 0 e @ ts) w left)"

lemma term_loop_stops: "next_type ts \<notin> {TOK_MUL, TOK_DIV} \<Longrightarrow> reads ar (term_loop ar k m v) ts v ts"
  by (cases k) (auto intro!: reads_current_type reads_return split: expr_type.split)

lemma side_loop_stops: "next_type ts \<notin> {TOK_PLUS, TOK_MINUS} \<Longrightarrow> reads ar (side_loop ar k m v) ts v ts"
  by (cases k) (auto intro!: reads_current_type reads_return split: expr_type.split)

lemma expression_loop_stops: "next_type ts \<notin> {TOK_AND, TOK_OR} \<Longrightarrow> reads ar (expression_loop ar k m v) ts v ts"
  by (cases k) (auto intro!: reads_current_type reads_return split: expr_type.split)

lemma term_yields:
  "term_reads ar env e v \<Longrightarrow> next_type ts \<notin> {TOK_MUL, TOK_DIV} \<Longrightarrow>
   reads ar (read_term ar m (read_factor ar env n)) (expr_tokens ar 3 e @ ts) v ts"
  unfolding read_term_def term_reads_def by (blast intro: term_loop_stops)

lemma side_yields:
  "side_reads ar env e v \<Longrightarrow> next_type ts \<notin> {TOK_MUL, TOK_DIV, TOK_PLUS, TOK_MINUS} \<Longrightarrow>
   reads ar (read_side ar m (read_factor ar env n)) (expr_tokens ar 2 e @ ts) v ts"
  unfolding read_side_def side_reads_def by (blast intro: side_loop_stops)

lemma expression_yields:
  "expression_reads ar env e v \<Longrightarrow> next_type ts \<notin> {TOK_MUL, TOK_DIV, TOK_PLUS, TOK_MINUS, TOK_AND, TOK_OR} \<union> comparison_types \<Longrightarrow>
   reads ar (read_expression_with ar m (read_factor ar env n)) (expr_tokens ar 0 e @ ts) v ts"
  unfolding read_expression_with_def expression_reads_def by (blast intro: expression_loop_stops)

lemma expr_tokens_level: "expr_level e \<noteq> l \<Longrightarrow> expr_tokens ar l e = expr_tokens ar (Suc l) e"
  by (simp add: expr_tokens_def expr_words_level)

text \<open>From one level to the next.\<close>

lemma factor_is_term: "factor_reads ar env e v \<Longrightarrow> expr_level e \<noteq> 3 \<Longrightarrow> term_reads ar env e v"
  by (auto simp: factor_reads_def term_reads_def expr_tokens_level intro: reads_bind)

lemma term_is_side: "term_reads ar env e v \<Longrightarrow> expr_level e \<noteq> 2 \<Longrightarrow> side_reads ar env e v"
  by (auto simp: side_reads_def expr_tokens_level numeral_3_eq_3 [symmetric] intro!: reads_bind term_yields)

lemma side_is_predicate: "side_reads ar env e v \<Longrightarrow> expr_level e \<noteq> 1 \<Longrightarrow> predicate_reads ar env e v"
  unfolding predicate_reads_def read_predicate_def Let_def
  by (auto simp: expr_tokens_level numeral_2_eq_2 [symmetric] comparison_types_def split: expr_type.split
      intro!: reads_bind [OF side_yields] reads_current_type reads_return)

lemma predicate_is_expression: "predicate_reads ar env e v \<Longrightarrow> expr_level e \<noteq> 0 \<Longrightarrow> expression_reads ar env e v"
  unfolding expression_reads_def predicate_reads_def
  by (auto simp: expr_tokens_level intro!: reads_bind)

lemma expression_is_factor:
  assumes "expression_reads ar env e v" "expr_level e < 4"
  shows "factor_reads ar env e v"
  unfolding factor_reads_def
proof (intro allI)
  fix n ts
  let ?close = "word_token ar '')'' # ts"
  have close: "reads ar (fuel_bind x_current (\<lambda>t. if x_type t = TOK_RPAR then fuel_bind (x_next ar) (\<lambda>_. fuel_return v)
      else fuel_throw ''Mismatched parentheses'')) ?close v ts" for v
    by (intro reads_current) (simp add: word_token_symbols reads_next reads_return)
  have inner: "reads ar (read_expression_with ar m (read_factor ar env m)) (expr_tokens ar 0 e @ ?close) v ?close" for m
    by (intro expression_yields assms) (simp add: word_token_symbols comparison_types_def)
  show "reads ar (read_factor ar env n) (expr_tokens ar 4 e @ ts) v ts"
  proof (cases n)
    case (Suc m)
    have parens: "expr_tokens ar 4 e @ ts = word_token ar ''('' # expr_tokens ar 0 e @ ?close"
      using assms(2) by (simp add: expr_tokens_def expr_words_parens)
    show ?thesis unfolding parens Suc read_factor.simps
      by (rule reads_current) (simp add: word_token_symbols, rule reads_operand, rule inner, rule close)
  qed simp
qed

text \<open>Each kind of expression at its own level.\<close>

lemma literal_factor: "is_numeral s \<Longrightarrow> factor_reads ar env (Lit s) (a_stof ar s)"
  unfolding factor_reads_def
proof (intro allI)
  fix n ts assume s: "is_numeral s"
  then have "word_token ar s = number_token (a_stof ar s)" by (auto simp: is_numeral_def word_token_def dest: digit_facts)
  then show "reads ar (read_factor ar env n) (expr_tokens ar 4 (Lit s) @ ts) (a_stof ar s) ts"
    by (cases n) (auto simp: expr_tokens_def number_token_def intro!: reads_current reads_next reads_return)
qed

lemma variable_factor: "is_name x \<Longrightarrow> env x = Inr v \<Longrightarrow> factor_reads ar env (Var x) v"
  unfolding factor_reads_def
proof (intro allI)
  fix n ts assume x: "is_name x" "env x = Inr v"
  then have "word_token ar x = name_token ar x" by (auto simp: is_name_def word_token_def)
  with x show "reads ar (read_factor ar env n) (expr_tokens ar 4 (Var x) @ ts) v ts"
    by (cases n) (auto simp: expr_tokens_def name_token_def intro!: reads_current reads_next reads_return)
qed

lemma negate_factor: "factor_reads ar env e v \<Longrightarrow> factor_reads ar env (Negate e) (a_neg ar v)"
  unfolding factor_reads_def
proof (intro allI)
  fix n ts assume e: "\<forall>n ts. reads ar (read_factor ar env n) (expr_tokens ar 4 e @ ts) v ts"
  have words: "expr_tokens ar 4 (Negate e) @ ts = word_token ar ''-'' # expr_tokens ar 4 e @ ts" by (simp add: expr_tokens_def)
  show "reads ar (read_factor ar env n) (expr_tokens ar 4 (Negate e) @ ts) (a_neg ar v) ts"
    unfolding words using e by (cases n) (auto simp: word_token_symbols intro!: reads_current reads_operand [OF _ reads_return])
qed

lemma not_factor: "factor_reads ar env e v \<Longrightarrow> factor_reads ar env (Not e) (a_bool ar (\<not> a_true ar v))"
  unfolding factor_reads_def
proof (intro allI)
  fix n ts assume e: "\<forall>n ts. reads ar (read_factor ar env n) (expr_tokens ar 4 e @ ts) v ts"
  have words: "expr_tokens ar 4 (Not e) @ ts = word_token ar ''!'' # expr_tokens ar 4 e @ ts" by (simp add: expr_tokens_def)
  show "reads ar (read_factor ar env n) (expr_tokens ar 4 (Not e) @ ts) (a_bool ar (\<not> a_true ar v)) ts"
    unfolding words using e by (cases n) (auto simp: word_token_symbols intro!: reads_current reads_operand [OF _ reads_return])
qed

lemma binary_tokens:
  "expr_tokens ar (op_level f) (Bin f a b) @ ts =
     expr_tokens ar (left_level f) a @ word_token ar (symbol_of f) # expr_tokens ar (Suc (op_level f)) b @ ts"
  by (simp add: expr_tokens_def Let_def)

lemma binary_term:
  assumes "op_level f = 3" "term_reads ar env a v" "factor_reads ar env b w"
  shows "term_reads ar env (Bin f a b) (apply_op ar f v w)"
  unfolding term_reads_def
proof (intro allI impI)
  fix n k ts u left
  assume loop: "\<forall>j. reads ar (term_loop ar j (read_factor ar env n) (apply_op ar f v w)) ts u left"
  have operands: "expr_tokens ar 3 (Bin f a b) @ ts = expr_tokens ar 3 a @ word_token ar (symbol_of f) # expr_tokens ar 4 b @ ts"
    using binary_tokens [of ar f a b ts] assms(1) by (simp add: left_level_def)
  have b: "reads ar (read_factor ar env n) (expr_tokens ar 4 b @ ts) w ts" using assms(3) by (simp add: factor_reads_def)
  have "reads ar (term_loop ar j (read_factor ar env n) v) (word_token ar (symbol_of f) # expr_tokens ar 4 b @ ts) u left" for j
  proof (cases j)
    case (Suc i)
    show ?thesis unfolding Suc term_loop.simps
      by (rule reads_current) (use assms(1) loop in \<open>cases f; auto simp: operator_types intro!: reads_operand [OF b]\<close>)
  qed simp
  then show "reads ar (fuel_bind (read_factor ar env n) (term_loop ar k (read_factor ar env n))) (expr_tokens ar 3 (Bin f a b) @ ts) u left"
    using assms(2) unfolding operands term_reads_def by blast
qed

lemma binary_side:
  assumes "op_level f = 2" "side_reads ar env a v" "term_reads ar env b w"
  shows "side_reads ar env (Bin f a b) (apply_op ar f v w)"
  unfolding side_reads_def
proof (intro allI impI)
  fix n m k ts u left
  let ?read = "read_term ar m (read_factor ar env n)"
  assume ts: "next_type ts \<notin> {TOK_MUL, TOK_DIV}" and loop: "\<forall>j. reads ar (side_loop ar j ?read (apply_op ar f v w)) ts u left"
  have operands: "expr_tokens ar 2 (Bin f a b) @ ts = expr_tokens ar 2 a @ word_token ar (symbol_of f) # expr_tokens ar 3 b @ ts"
    using binary_tokens [of ar f a b ts] assms(1) by (simp add: left_level_def)
  have b: "reads ar ?read (expr_tokens ar 3 b @ ts) w ts" using assms(3) ts by (rule term_yields)
  have "reads ar (side_loop ar j ?read v) (word_token ar (symbol_of f) # expr_tokens ar 3 b @ ts) u left" for j
  proof (cases j)
    case (Suc i)
    show ?thesis unfolding Suc side_loop.simps
      by (rule reads_current) (use assms(1) loop in \<open>cases f; auto simp: operator_types intro!: reads_operand [OF b]\<close>)
  qed simp
  moreover have "next_type (word_token ar (symbol_of f) # expr_tokens ar 3 b @ ts) \<notin> {TOK_MUL, TOK_DIV}"
    using assms(1) by (cases f) (simp_all add: operator_types)
  ultimately show "reads ar (fuel_bind ?read (side_loop ar k ?read)) (expr_tokens ar 2 (Bin f a b) @ ts) u left"
    using assms(2) unfolding operands side_reads_def by blast
qed

lemma binary_predicate:
  fixes ar :: "'v arithmetic"
  assumes "op_level f = 1" "side_reads ar env a v" "side_reads ar env b w"
  shows "predicate_reads ar env (Bin f a b) (apply_op ar f v w)"
  unfolding predicate_reads_def
proof (intro allI impI)
  fix n m and ts :: "'v expr_token list"
  assume ts: "next_type ts \<notin> {TOK_MUL, TOK_DIV, TOK_PLUS, TOK_MINUS} \<union> comparison_types"
  have operands: "expr_tokens ar 1 (Bin f a b) @ ts = expr_tokens ar 2 a @ word_token ar (symbol_of f) # expr_tokens ar 2 b @ ts"
    using binary_tokens [of ar f a b ts] assms(1) by (simp add: left_level_def numeral_2_eq_2)
  have b: "reads ar (read_side ar m (read_factor ar env n)) (expr_tokens ar 2 b @ ts) w ts" using assms(3) ts by (intro side_yields) auto
  have a: "reads ar (read_side ar m (read_factor ar env n)) (expr_tokens ar 2 a @ word_token ar (symbol_of f) # expr_tokens ar 2 b @ ts) v
      (word_token ar (symbol_of f) # expr_tokens ar 2 b @ ts)"
    using assms(1) by (intro side_yields assms) (cases f; simp add: operator_types)
  show "reads ar (read_predicate ar m (read_factor ar env n)) (expr_tokens ar 1 (Bin f a b) @ ts) (apply_op ar f v w) ts"
    unfolding operands read_predicate_def Let_def
    by (rule reads_bind [OF a], rule reads_current)
      (use assms(1) in \<open>cases f; auto simp: operator_types intro!: reads_operand [OF b] reads_return\<close>)
qed

lemma binary_expression:
  assumes "op_level f = 0" "expression_reads ar env a v" "predicate_reads ar env b w"
  shows "expression_reads ar env (Bin f a b) (apply_op ar f v w)"
  unfolding expression_reads_def
proof (intro allI impI)
  fix n m k ts u left
  let ?read = "read_predicate ar m (read_factor ar env n)"
  assume ts: "next_type ts \<notin> {TOK_MUL, TOK_DIV, TOK_PLUS, TOK_MINUS} \<union> comparison_types"
    and loop: "\<forall>j. reads ar (expression_loop ar j ?read (apply_op ar f v w)) ts u left"
  have operands: "expr_tokens ar 0 (Bin f a b) @ ts = expr_tokens ar 0 a @ word_token ar (symbol_of f) # expr_tokens ar (Suc 0) b @ ts"
    using binary_tokens [of ar f a b ts] assms(1) by (simp add: left_level_def)
  have b: "reads ar ?read (expr_tokens ar (Suc 0) b @ ts) w ts" using assms(3) ts by (simp add: predicate_reads_def)
  have "reads ar (expression_loop ar j ?read v) (word_token ar (symbol_of f) # expr_tokens ar (Suc 0) b @ ts) u left" for j
  proof (cases j)
    case (Suc i)
    show ?thesis unfolding Suc expression_loop.simps
      by (rule reads_current) (use assms(1) loop in \<open>cases f; auto simp: operator_types intro!: reads_operand [OF b]\<close>)
  qed simp
  moreover have "next_type (word_token ar (symbol_of f) # expr_tokens ar (Suc 0) b @ ts) \<notin> {TOK_MUL, TOK_DIV, TOK_PLUS, TOK_MINUS} \<union> comparison_types"
    using assms(1) by (cases f) (simp_all add: operator_types comparison_types_def)
  ultimately show "reads ar (fuel_bind ?read (expression_loop ar k ?read)) (expr_tokens ar 0 (Bin f a b) @ ts) u left"
    using assms(2) unfolding operands expression_reads_def by blast
qed

text \<open>An expression is read at every level.\<close>

definition all_reads :: "'v arithmetic \<Rightarrow> 'v environment \<Rightarrow> expr \<Rightarrow> 'v \<Rightarrow> bool" where
  "all_reads ar env e v \<longleftrightarrow>
     factor_reads ar env e v \<and> term_reads ar env e v \<and> side_reads ar env e v \<and> predicate_reads ar env e v \<and> expression_reads ar env e v"

lemma all_reads_chain:
  assumes "expr_level e = 4 \<Longrightarrow> factor_reads ar env e v" "expr_level e = 3 \<Longrightarrow> term_reads ar env e v"
    "expr_level e = 2 \<Longrightarrow> side_reads ar env e v" "expr_level e = 1 \<Longrightarrow> predicate_reads ar env e v"
    "expr_level e = 0 \<Longrightarrow> expression_reads ar env e v"
  shows "all_reads ar env e v"
proof -
  have "expr_level e \<le> 4" by (cases e) (auto, case_tac x51, auto)
  then consider "expr_level e = 4" | "expr_level e = 3" | "expr_level e = 2" | "expr_level e = 1" | "expr_level e = 0" by linarith
  then show ?thesis unfolding all_reads_def
  proof cases
    case 1
    with assms(1) show "factor_reads ar env e v \<and> term_reads ar env e v \<and> side_reads ar env e v \<and> predicate_reads ar env e v \<and> expression_reads ar env e v"
      by (simp add: factor_is_term term_is_side side_is_predicate predicate_is_expression)
  next
    case 2
    with assms(2) show "factor_reads ar env e v \<and> term_reads ar env e v \<and> side_reads ar env e v \<and> predicate_reads ar env e v \<and> expression_reads ar env e v"
      by (simp add: term_is_side side_is_predicate predicate_is_expression expression_is_factor)
  next
    case 3
    then have "predicate_reads ar env e v" using assms(3) by (simp add: side_is_predicate)
    with 3 assms(3) show "factor_reads ar env e v \<and> term_reads ar env e v \<and> side_reads ar env e v \<and> predicate_reads ar env e v \<and> expression_reads ar env e v"
      by (simp add: predicate_is_expression expression_is_factor factor_is_term)
  next
    case 4
    then have "factor_reads ar env e v" using assms(4) by (simp add: predicate_is_expression expression_is_factor)
    with 4 assms(4) show "factor_reads ar env e v \<and> term_reads ar env e v \<and> side_reads ar env e v \<and> predicate_reads ar env e v \<and> expression_reads ar env e v"
      by (simp add: factor_is_term term_is_side predicate_is_expression)
  next
    case 5
    then have "factor_reads ar env e v" using assms(5) by (simp add: expression_is_factor)
    with 5 assms(5) show "factor_reads ar env e v \<and> term_reads ar env e v \<and> side_reads ar env e v \<and> predicate_reads ar env e v \<and> expression_reads ar env e v"
      by (simp add: factor_is_term term_is_side side_is_predicate)
  qed
qed

lemma op_level_4 [simp]: "op_level f \<noteq> 4"
  by (cases f) simp_all

lemma expression_all_reads: "well_formed (\<lambda>x. env x = Inr (val x)) e \<Longrightarrow> all_reads ar env e (denote ar val e)"
proof (induction e)
  case (Lit s) then show ?case by (intro all_reads_chain) (simp_all add: literal_factor)
next
  case (Var x) then show ?case by (intro all_reads_chain) (simp_all add: variable_factor)
next
  case (Negate e) then show ?case by (intro all_reads_chain) (simp_all add: negate_factor all_reads_def)
next
  case (Not e) then show ?case by (intro all_reads_chain) (simp_all add: not_factor all_reads_def)
next
  case (Bin f a b)
  then show ?case by (intro all_reads_chain) (simp_all add: all_reads_def binary_term binary_side binary_predicate binary_expression)
qed

lemma expr_words_ok: "well_formed known e \<Longrightarrow> list_all is_word (expr_words l e)"
proof (induction e arbitrary: l)
  case (Bin f a b)
  have "is_word (symbol_of f)" "is_word ''(''" "is_word '')''" by (cases f) (simp_all add: is_word_def symbols_def)
  with Bin show ?case by (simp add: Let_def)
qed (simp_all add: is_word_def symbols_def)

text \<open>
  The evaluation of any text ends, with a value or with an exception, and two units of fuel more than the text
  has characters are always enough: whatever the arithmetic and the variables are, and whatever token the evaluator
  held before.
\<close>
theorem evaluate_returns: "\<exists>r e'. x_evaluate ar env (length text + 2) text e = Some (r, e')"
  by (rule evaluate_ends)

lemma evaluate_lexed:
  assumes "well_formed (\<lambda>x. env x = Inr (val x)) e" and lex: "lex_all ar input = map Inr (expr_tokens ar 0 e)"
  shows "\<exists>ev'. x_evaluate ar env (length input + 2) input ev = Some (Inr (denote ar val e), ev')"
proof -
  let ?n = "length input + 2"
  let ?finish = "\<lambda>v. fuel_bind x_current (\<lambda>t. if x_type t \<noteq> TOK_EOT then fuel_throw ''Parse error'' else fuel_return v)"
  have yields: "reads ar (read_expression ar env ?n) (expr_tokens ar 0 e @ []) (denote ar val e) []"
    using expression_all_reads [OF assms(1), of ar] unfolding read_expression_def all_reads_def
    by (intro expression_yields) (auto simp: comparison_types_def)
  obtain x where x: "x_next ar (ev \<lparr> x_rest := input \<rparr>) = Some (Inr (), x)" "x_left ar x = map Inr (expr_tokens ar 0 e)"
    by (rule x_next_lex [of ar "ev \<lparr> x_rest := input \<rparr>" "expr_tokens ar 0 e"]) (simp_all add: lex)
  have "reads ar (fuel_bind (read_expression ar env ?n) ?finish) (expr_tokens ar 0 e @ []) (denote ar val e) []"
    by (rule reads_bind [OF yields]) (auto intro!: reads_current_type reads_return)
  then have "fuel_bind (read_expression ar env ?n) ?finish x = None \<or>
      (\<exists>ev'. fuel_bind (read_expression ar env ?n) ?finish x = Some (Inr (denote ar val e), ev'))"
    using x(2) unfolding reads_def fyields_def append_Nil2 by blast
  moreover have "x_evaluate ar env ?n input ev = fuel_bind (read_expression ar env ?n) ?finish x"
    using x(1) by (simp add: x_evaluate_def fuel_bind_def)
  ultimately show ?thesis using evaluate_ends [of ar env input ev] by auto
qed

text \<open>
  C7: Evaluating a text that spells an expression, with any white space that keeps its words apart and with the
  parentheses its grammar needs, gives the value of that expression: multiplication and division bind more tightly
  than addition and subtraction, these more than the comparisons, and these more than \<^verbatim>\<open>&&\<close> and \<^verbatim>\<open>||\<close>, which are on
  one level; each level but the comparisons associates to the left.
\<close>
theorem evaluate_denotes:
  assumes "well_formed (\<lambda>x. env x = Inr (val x)) e" "map snd gws = expr_words 0 e" "well_spaced gws fin"
  shows "\<exists>ev'. x_evaluate ar env (length (spelled gws fin) + 2) (spelled gws fin) ev = Some (Inr (denote ar val e), ev')"
proof (rule evaluate_lexed [OF assms(1)])
  show "lex_all ar (spelled gws fin) = map Inr (expr_tokens ar 0 e)"
    using lex_all_words [of gws fin ar] expr_words_ok [OF assms(1), of 0] assms(2,3) by (simp add: expr_tokens_def)
qed

definition int_arithmetic :: "int arithmetic" where
  "int_arithmetic = \<lparr> a_neg = uminus, a_mul = times, a_div = (div), a_add = plus, a_sub = minus, a_eq = (=), a_less = (<),
     a_leq = (\<le>), a_true = (\<lambda>v. v \<noteq> 0), a_bool = of_bool, a_stof = foldl (\<lambda>n c. 10 * n + (of_char c - 48)) 0 \<rparr>"

lemma evaluate_denotes_witness:
  "\<exists>ev'. x_evaluate int_arithmetic (\<lambda>x. Inr 7) 17 ''(12 + x)*2 == y'' (evaluator int_arithmetic) = Some (Inr 0, ev')"
proof -
  let ?e = "Bin Eq (Bin Mul (Bin Add (Lit ''12'') (Var ''x'')) (Lit ''2'')) (Var ''y'')"
  let ?gws = "[([], ''(''), ([], ''12''), ('' '', ''+''), ('' '', ''x''), ([], '')''), ([], ''*''), ([], ''2''), ('' '', ''==''), ('' '', ''y'')]"
  have spell: "spelled ?gws [] = ''(12 + x)*2 == y''" by simp
  have "well_formed (\<lambda>x. (Inr 7 :: string + int) = Inr ((\<lambda>_. 7) x)) ?e"
    by (simp add: is_numeral_def is_name_def isdigit_def isalpha_def char_between_ascii)
  moreover have "map snd ?gws = expr_words 0 ?e" by (simp add: left_level_def)
  moreover have "well_spaced ?gws []"
    by (simp add: may_follow_def isdigit_def isalpha_def isspace_def x_name_char_def char_between_ascii x_peekc_def)
  ultimately have "\<exists>ev'. x_evaluate int_arithmetic (\<lambda>x. Inr 7) (length (spelled ?gws []) + 2) (spelled ?gws []) (evaluator int_arithmetic) =
      Some (Inr (denote int_arithmetic (\<lambda>_. 7) ?e), ev')"
    by (rule evaluate_denotes)
  moreover have "length ''(12 + x)*2 == y'' + 2 = 17" "denote int_arithmetic (\<lambda>_. 7) ?e = 0" by (simp_all add: int_arithmetic_def)
  ultimately show ?thesis unfolding spell by (simp only:)
qed

text \<open>A NUL character in the text counts as its end, so that what follows it is not looked at.\<close>

lemma nul_ends_expression:
  "\<exists>ev'. x_evaluate ar env (length (''1'' @ CHR 0x00 # junk) + 2) (''1'' @ CHR 0x00 # junk) ev = Some (Inr (a_stof ar ''1''), ev')"
proof -
  have one: "is_numeral ''1''" "word_token ar ''1'' = number_token (a_stof ar ''1'')"
    by (simp_all add: is_numeral_def word_token_def isdigit_def isalpha_def char_between_ascii)
  then have "x_read_token ar (''1'' @ CHR 0x00 # junk) = (Inr (number_token (a_stof ar ''1'')), CHR 0x00 # junk)"
    by (intro read_numeral_word) (simp_all add: x_peekc_def isdigit_def char_between_ascii)
  moreover have "lex_all ar (CHR 0x00 # junk) = []"
    by (simp add: lex_all.simps x_read_token_def isspace_def isalpha_def isdigit_def char_between_ascii op_token_def)
  ultimately have "lex_all ar (''1'' @ CHR 0x00 # junk) = map Inr (expr_tokens ar 0 (Lit ''1''))"
    using one(2) by (simp add: lex_all.simps [of ar "CHR ''1'' # _"] number_token_def expr_tokens_def)
  then have "\<exists>ev'. x_evaluate ar env (length (''1'' @ CHR 0x00 # junk) + 2) (''1'' @ CHR 0x00 # junk) ev =
      Some (Inr (denote ar (\<lambda>_. a_stof ar ''1'') (Lit ''1'')), ev')"
    by (rule evaluate_lexed [rotated]) (simp add: one(1))
  then show ?thesis unfolding denote.simps .
qed

end
