(* ===== verification/Huffman.thy ===== *)
theory Huffman
  imports Bits Split Convert "HOL-Library.Sublist"
begin

text \<open>
  The Huffman decoder of libs/huffman: values, binary trees of codes, the mapping file that fills them and the
  decoding of strings from a bit stream with one tree for each previous value. A node owns its children; copies
  of a node, which share them, are only made by \<^verbatim>\<open>set_node\<close>, which nothing but tests calls.
\<close>

section \<open>Values\<close>

datatype Special = Special_none | Special_start | Special_stop | Special_escape

record HuffmanValue =
  v_value :: byte
  v_svalue :: Special
  v_special :: bool
  v_valid :: bool

definition no_value :: HuffmanValue where
  "no_value = \<lparr> v_value = 0, v_svalue = Special_none, v_special = False, v_valid = False \<rparr>"

definition char_value :: "byte \<Rightarrow> HuffmanValue" where
  "char_value c = \<lparr> v_value = c, v_svalue = Special_none, v_special = False, v_valid = True \<rparr>"

definition special_value :: "Special \<Rightarrow> HuffmanValue" where
  "special_value s = \<lparr> v_value = 0, v_svalue = s, v_special = True, v_valid = True \<rparr>"

primrec special_code :: "Special \<Rightarrow> nat" where
  "special_code Special_none = 0" | "special_code Special_start = 1" | "special_code Special_stop = 2" | "special_code Special_escape = 3"

definition huffman_value_eq :: "HuffmanValue \<Rightarrow> HuffmanValue \<Rightarrow> bool" where
  "huffman_value_eq a b \<longleftrightarrow> v_special a = v_special b \<and> v_value a = v_value b"

definition value_less :: "HuffmanValue \<Rightarrow> HuffmanValue \<Rightarrow> bool" where
  "value_less a b =
     (if v_special a then (if v_special b then special_code (v_svalue a) < special_code (v_svalue b) else False)
      else if v_special b then True
      else v_value a < v_value b)"

definition value_text :: "HuffmanValue \<Rightarrow> string" where
  "value_text v =
     (if v_special v
      then (case v_svalue v of Special_none \<Rightarrow> ''NONE'' | Special_start \<Rightarrow> ''START'' | Special_stop \<Rightarrow> ''STOP'' | Special_escape \<Rightarrow> ''ESCAPE'')
      else [char_of_byte (v_value v)])"

section \<open>Nodes\<close>

datatype Node = Node (node_leaf: bool) (node_value: HuffmanValue) (node_zero: "Node option") (node_one: "Node option")

definition node_new :: Node where
  "node_new = Node False (char_value 0) None None"

definition node_of :: "HuffmanValue \<Rightarrow> Node" where
  "node_of v = Node True v None None"

primrec node_set_value :: "HuffmanValue \<Rightarrow> Node \<Rightarrow> Node" where
  "node_set_value v (Node leaf value zero one) = Node True v zero one"

primrec set_node :: "bool \<Rightarrow> Node \<Rightarrow> Node \<Rightarrow> Node" where
  "set_node b node (Node leaf value zero one) =
     (if b then Node False value zero (Some node) else Node False value (Some node) one)"

definition get_node :: "bool \<Rightarrow> Node \<Rightarrow> Node option" where
  "get_node b n = (if b then node_one n else node_zero n)"

fun get_node_at :: "bool list \<Rightarrow> Node \<Rightarrow> Node option" where
  "get_node_at [] n = Some n"
| "get_node_at (b # bs) n =
     (case (if b then node_one n else node_zero n) of None \<Rightarrow> None | Some next \<Rightarrow> get_node_at bs next)"

text \<open>\<^verbatim>\<open>ensure_node\<close> returns a reference; what is then done to the node is \<open>f\<close>.\<close>

fun ensure_node :: "(Node \<Rightarrow> Node) \<Rightarrow> bool list \<Rightarrow> Node \<Rightarrow> Node" where
  "ensure_node f [] n = f n"
| "ensure_node f (b # bs) (Node leaf value zero one) =
     (let next = (case (if b then one else zero) of None \<Rightarrow> node_new | Some m \<Rightarrow> m);
          next = ensure_node f bs next
      in if b then Node leaf value zero (Some next) else Node leaf value (Some next) one)"

section \<open>Tree\<close>

record HuffmanMapping =
  m_sequence :: "bool list"
  m_value :: HuffmanValue

record MultiMapping = HuffmanMapping +
  m_index :: HuffmanValue

lemma get_node_size: "get_node b n = Some m \<Longrightarrow> size m < size n"
  by (cases n) (auto simp: get_node_def split: if_splits)

text \<open>An error of the channel is caught; \<open>None\<close> is the result false.\<close>

function tree_read :: "'s Reader \<Rightarrow> Node \<Rightarrow> 's BitReader \<Rightarrow> HuffmanValue option \<times> 's BitReader" where
  "tree_read r node st =
     (case read_bool r st of
        (Inl e, st') \<Rightarrow> (None, st')
      | (Inr b, st') \<Rightarrow>
          (case get_node b node of
             None \<Rightarrow> (None, st')
           | Some node' \<Rightarrow> if node_leaf node' then (Some (node_value node'), st') else tree_read r node' st'))"
  by pat_completeness auto
termination by (relation "measure (\<lambda>(r, node, st). size node)") (auto dest: get_node_size)

declare tree_read.simps [simp del]

definition tree_read_sequence :: "Node \<Rightarrow> bool list \<Rightarrow> HuffmanValue option" where
  "tree_read_sequence root bits = map_option node_value (get_node_at bits root)"

definition add_mapping :: "('a) HuffmanMapping_scheme \<Rightarrow> Node \<Rightarrow> bool \<times> Node" where
  "add_mapping mapping root = (True, ensure_node (node_set_value (m_value mapping)) (m_sequence mapping) root)"

section \<open>Mapping files\<close>

definition special_names :: "(string \<times> Special) list" where
  "special_names = [(''START'', Special_start), (''STOP'', Special_stop), (''ESCAPE'', Special_escape)]"

definition get_value_from_string :: "string \<Rightarrow> HuffmanValue" where
  "get_value_from_string str =
     (if str = [] then no_value
      else case map_of special_names str of
          Some s \<Rightarrow> special_value s
        | None \<Rightarrow>
            if length str = 4 \<and> take 2 str = ''0x'' then char_value (ucast (xtoi (take 2 (drop 2 str))))
            else char_value (byte_of_char (str ! 0)))"

definition get_sequence_from_string :: "string \<Rightarrow> bool list" where
  "get_sequence_from_string str = map (\<lambda>c. c \<noteq> CHR ''0'') str"

text \<open>
  The input stream is the text still to come, or \<open>None\<close> once it has failed. \<^verbatim>\<open>getline\<close> into 256 characters fails
  when the line is longer than 255, and a line that the end of the file ends is refused by the test of \<^verbatim>\<open>eof\<close>.
\<close>

definition stream_getline :: "string option \<Rightarrow> string option \<times> string option" where
  "stream_getline sin =
     (case sin of
        None \<Rightarrow> (None, None)
      | Some text \<Rightarrow>
          let line = takeWhile (\<lambda>c. c \<noteq> CHR 0x0A) text
          in if length line < 256 \<and> length line < length text then (Some line, Some (drop (length line + 1) text))
             else (None, None))"

lemma stream_getline_shorter: "stream_getline (Some s) = (r, Some s') \<Longrightarrow> length s' < length s"
  by (auto simp: stream_getline_def Let_def split: if_splits)

function next_line :: "string option \<Rightarrow> string option \<times> string option" where
  "next_line sin =
     (case stream_getline sin of
        (None, sin') \<Rightarrow> (None, sin')
      | (Some line, sin') \<Rightarrow> if line = [] then next_line sin' else (Some line, sin'))"
  by pat_completeness auto
termination
proof (relation "measure (\<lambda>sin. case sin of None \<Rightarrow> 0 | Some s \<Rightarrow> Suc (length s))", goal_cases)
  case (2 sin p line sin')
  then show ?case by (cases sin) (auto simp: stream_getline_def Let_def split: if_splits option.splits)
qed simp

declare next_line.simps [simp del]

definition read_mapping :: "string option \<Rightarrow> MultiMapping option \<times> string option" where
  "read_mapping sin =
     (case next_line sin of
        (None, sin') \<Rightarrow> (None, sin')
      | (Some line, sin') \<Rightarrow>
          let line = (if line ! (length line - 1) = CHR '':'' then take (length line - 1) line else line);
              bits = split line CHR '':'' False 3
          in if length bits \<noteq> 3 then (None, sin')
             else
               let index = get_value_from_string (bits ! 0); value = get_value_from_string (bits ! 2)
               in if \<not> v_valid index then (None, sin')
                  else if \<not> v_valid value then (None, sin')
                  else (Some \<lparr> m_sequence = get_sequence_from_string (bits ! 1), m_value = value, m_index = index \<rparr>, sin'))"

section \<open>MultiTree\<close>

text \<open>The map of the trees; two values are the same key when neither is less. Its order is never observed.\<close>

type_synonym MultiTree = "(HuffmanValue \<times> Node) list"

definition same_key :: "HuffmanValue \<Rightarrow> HuffmanValue \<Rightarrow> bool" where
  "same_key a b \<longleftrightarrow> \<not> value_less a b \<and> \<not> value_less b a"

fun trees_find :: "HuffmanValue \<Rightarrow> MultiTree \<Rightarrow> Node option" where
  "trees_find index [] = None"
| "trees_find index ((k, tree) # trees) = (if same_key k index then Some tree else trees_find index trees)"

fun trees_update :: "HuffmanValue \<Rightarrow> (Node \<Rightarrow> Node) \<Rightarrow> MultiTree \<Rightarrow> MultiTree" where
  "trees_update index f [] = [(index, f node_new)]"
| "trees_update index f ((k, tree) # trees) =
     (if same_key k index then (k, f tree) # trees else (k, tree) # trees_update index f trees)"

definition multi_read_sequence :: "MultiTree \<Rightarrow> HuffmanValue \<Rightarrow> bool list \<Rightarrow> HuffmanValue option" where
  "multi_read_sequence trees index bits =
     (case trees_find index trees of None \<Rightarrow> None | Some tree \<Rightarrow> tree_read_sequence tree bits)"

definition multi_read :: "'s Reader \<Rightarrow> MultiTree \<Rightarrow> HuffmanValue \<Rightarrow> 's BitReader \<Rightarrow> HuffmanValue option \<times> 's BitReader" where
  "multi_read r trees index st =
     (case trees_find index trees of None \<Rightarrow> (None, st) | Some tree \<Rightarrow> tree_read r tree st)"

lemma read_mapping_shorter:
  "read_mapping (Some s) = (Some mm, sin') \<Longrightarrow> \<exists>s'. sin' = Some s' \<and> length s' < length s"
proof -
  have line: "next_line (Some s) = (Some l, sin') \<Longrightarrow> \<exists>s'. sin' = Some s' \<and> length s' < length s" for l s sin'
  proof (induction "Some s" arbitrary: s rule: next_line.induct)
    case 1
    obtain l1 sin1 where g: "stream_getline (Some s) = (l1, sin1)" by fastforce
    with 1(2) have "l1 \<noteq> None" by (cases l1) (auto simp: next_line.simps [of "Some s"])
    with g obtain l2 s1 where s1: "l1 = Some l2" "sin1 = Some s1" "length s1 < length s"
      by (auto simp: stream_getline_def Let_def split: if_splits)
    show ?case
    proof (cases "l2 = []")
      case True
      with 1(2) g s1 have "next_line (Some s1) = (Some l, sin')" by (simp add: next_line.simps [of "Some s"])
      with 1(1) g s1 True show ?thesis by fastforce
    next
      case False
      with 1(2) g s1 show ?thesis by (auto simp: next_line.simps [of "Some s"])
    qed
  qed
  assume "read_mapping (Some s) = (Some mm, sin')"
  then show ?thesis using line by (auto simp: read_mapping_def Let_def split: option.splits prod.splits if_splits)
qed

lemma read_mapping_None: "read_mapping None = (None, None)"
  by (simp add: read_mapping_def next_line.simps [of None] stream_getline_def)

function populate_from :: "MultiTree \<Rightarrow> string option \<Rightarrow> bool \<times> MultiTree" where
  "populate_from trees sin =
     (case read_mapping sin of
        (None, sin') \<Rightarrow> (True, trees)
      | (Some mm, sin') \<Rightarrow> populate_from (trees_update (m_index mm) (\<lambda>tree. snd (add_mapping mm tree)) trees) sin')"
  by pat_completeness auto
termination
proof (relation "measure (\<lambda>(trees, sin). case sin of None \<Rightarrow> 0 | Some s \<Rightarrow> Suc (length s))", goal_cases)
  case (2 trees sin p mm sin')
  then show ?case
    by (cases sin) (auto simp: read_mapping_None dest!: read_mapping_shorter [OF sym])
qed simp

declare populate_from.simps [simp del]

definition read_escaped_char :: "'s Reader \<Rightarrow> 's BitReader \<Rightarrow> byte option \<times> 's BitReader" where
  "read_escaped_char r st =
     (case read_bits r 8 st of (Inl e, st') \<Rightarrow> (None, st') | (Inr w, st') \<Rightarrow> (Some (ucast w), st'))"

text \<open>The loop on escaped data: the string so far and the character that ended it, unless the data ran out.\<close>

primrec escape_loop :: "'s Reader \<Rightarrow> nat \<Rightarrow> byte list \<Rightarrow> 's BitReader \<Rightarrow> (byte list \<times> byte option \<times> 's BitReader) option" where
  "escape_loop r 0 s st = None"
| "escape_loop r (Suc fuel) s st =
     (case read_escaped_char r st of
        (None, st') \<Rightarrow> Some (s, None, st')
      | (Some c, st') \<Rightarrow> if c AND 0x80 \<noteq> 0 then escape_loop r fuel (s @ [c]) st' else Some (s, Some c, st'))"

primrec string_loop :: "'s Reader \<Rightarrow> MultiTree \<Rightarrow> nat \<Rightarrow> HuffmanValue \<Rightarrow> byte list \<Rightarrow> 's BitReader \<Rightarrow> (byte list \<times> 's BitReader) option" where
  "string_loop r trees 0 value s st = None"
| "string_loop r trees (Suc fuel) value s st =
     (case multi_read r trees value st of
        (None, st') \<Rightarrow> Some (s, st')
      | (Some value, st') \<Rightarrow>
          if \<not> v_special value then string_loop r trees fuel value (s @ [v_value value]) st'
          else if v_svalue value = Special_stop then Some (s, st')
          else if v_svalue value = Special_escape
          then (case escape_loop r fuel s st' of
                  None \<Rightarrow> None
                | Some (s, None, st') \<Rightarrow> Some (s, st')
                | Some (s, Some c, st') \<Rightarrow> string_loop r trees fuel (char_value c) (s @ [c]) st')
          else string_loop r trees fuel value s st')"

definition huffman_read_string :: "'s Reader \<Rightarrow> MultiTree \<Rightarrow> nat \<Rightarrow> byte list \<Rightarrow> 's BitReader \<Rightarrow> (bool \<times> byte list \<times> 's BitReader) option" where
  "huffman_read_string r trees fuel s st = map_option (Pair True) (string_loop r trees fuel (special_value Special_start) s st)"

section \<open>Codes of a tree\<close>

text \<open>The value at the end of a code.\<close>

definition value_at :: "Node \<Rightarrow> bool list \<Rightarrow> HuffmanValue option" where
  "value_at n p = (case get_node_at p n of None \<Rightarrow> None | Some m \<Rightarrow> if node_leaf m then Some (node_value m) else None)"

lemma value_at_Cons: "value_at n (b # p) = (case get_node b n of None \<Rightarrow> None | Some m \<Rightarrow> value_at m p)"
  by (simp add: value_at_def get_node_def split: option.split)

lemma value_at_new: "value_at node_new p = None"
  by (cases p) (simp_all add: value_at_def node_new_def)

lemma value_at_add: "value_at (ensure_node (node_set_value v) code n) p = (if p = code then Some v else value_at n p)"
proof (induction "node_set_value v" code n arbitrary: p rule: ensure_node.induct)
  case (1 n)
  then show ?case by (cases p; cases n) (simp_all add: value_at_def)
next
  case (2 b bs leaf val zero one)
  show ?case
  proof (cases p)
    case Nil
    then show ?thesis by (simp add: value_at_def Let_def)
  next
    case (Cons c q)
    define m where "m = (case (if b then one else zero) of None \<Rightarrow> node_new | Some m \<Rightarrow> m)"
    have IH: "value_at (ensure_node (node_set_value v) bs m) q = (if q = bs then Some v else value_at m q)"
      using 2 by (simp add: m_def)
    have "value_at m q = (case (if b then one else zero) of None \<Rightarrow> None | Some m \<Rightarrow> value_at m q)"
      by (auto simp: m_def value_at_new split: option.split)
    moreover have "ensure_node (node_set_value v) (b # bs) (Node leaf val zero one) =
        (let next = ensure_node (node_set_value v) bs m in if b then Node leaf val zero (Some next) else Node leaf val (Some next) one)"
      by (simp add: m_def Let_def)
    ultimately show ?thesis using Cons IH
      by (cases b; cases c) (simp_all del: ensure_node.simps add: value_at_Cons get_node_def Let_def)
  qed
qed

text \<open>Walking down the tree as the bits say, and decoding, on plain lists of bits.\<close>

fun walk :: "Node \<Rightarrow> bool list \<Rightarrow> HuffmanValue option \<times> bool list" where
  "walk n [] = (None, [])"
| "walk n (b # bs) =
     (case get_node b n of None \<Rightarrow> (None, bs)
      | Some m \<Rightarrow> if node_leaf m then (Some (node_value m), bs) else walk m bs)"

lemma walk_code:
  "value_at n code = Some v \<Longrightarrow> code \<noteq> [] \<Longrightarrow> (\<And>p. p \<noteq> [] \<Longrightarrow> strict_prefix p code \<Longrightarrow> value_at n p = None) \<Longrightarrow>
   walk n (code @ bs) = (Some v, bs)"
proof (induction code arbitrary: n)
  case (Cons b code)
  then obtain m where m: "get_node b n = Some m" "value_at m code = Some v" by (auto simp: value_at_Cons split: option.splits)
  show ?case
  proof (cases "code = []")
    case True
    with m show ?thesis by (auto simp: value_at_def split: if_splits)
  next
    case False
    then have "value_at n [b] = None" by (intro Cons.prems(3)) (auto simp: strict_prefix_def)
    then have "value_at m [] = None" using m(1) by (simp add: value_at_Cons)
    then have "\<not> node_leaf m" by (auto simp: value_at_def split: if_splits)
    moreover have "walk m (code @ bs) = (Some v, bs)"
    proof (rule Cons.IH [OF m(2) False])
      fix p assume "p \<noteq> []" "strict_prefix p code"
      then have "value_at n (b # p) = None" by (intro Cons.prems(3)) auto
      then show "value_at m p = None" using m(1) by (simp add: value_at_Cons)
    qed
    ultimately show ?thesis using m(1) by simp
  qed
qed simp

lemma walk_length: "walk n bs = (v, bs') \<Longrightarrow> length bs' \<le> length bs \<and> (v \<noteq> None \<longrightarrow> length bs' < length bs)"
  by (induction n bs rule: walk.induct) (auto split: option.splits if_splits)

definition bits_byte :: "bool list \<Rightarrow> byte" where
  "bits_byte bs = ucast (foldl (\<lambda>acc b. push_bit 1 acc OR of_bool b) (0 :: u32) bs)"

function escape_scan :: "bool list \<Rightarrow> byte list \<times> byte option \<times> bool list" where
  "escape_scan bits =
     (if length bits < 8 then ([], None, [])
      else let c = bits_byte (take 8 bits)
           in if c AND 0x80 \<noteq> 0 then (case escape_scan (drop 8 bits) of (ds, r) \<Rightarrow> (c # ds, r)) else ([], Some c, drop 8 bits))"
  by pat_completeness auto
termination by (relation "measure length") auto

declare escape_scan.simps [simp del]

lemma escape_scan_length: "escape_scan bits = (ds, c, bits') \<Longrightarrow> length bits' \<le> length bits"
proof (induction bits arbitrary: ds c bits' rule: escape_scan.induct)
  case (1 bits)
  show ?case
  proof (cases "length bits < 8 \<or> bits_byte (take 8 bits) AND 0x80 = 0")
    case True
    with 1(2) show ?thesis by (auto simp: escape_scan.simps [of bits] Let_def split: if_splits)
  next
    case False
    obtain ds1 c1 bits1 where rec: "escape_scan (drop 8 bits) = (ds1, c1, bits1)" by (cases "escape_scan (drop 8 bits)") auto
    with False have "length bits1 \<le> length (drop 8 bits)" using 1(1) by auto
    with 1(2) False rec show ?thesis by (auto simp: escape_scan.simps [of bits] Let_def)
  qed
qed

function decode_bits :: "MultiTree \<Rightarrow> HuffmanValue \<Rightarrow> bool list \<Rightarrow> byte list" where
  "decode_bits trees index bits =
     (case trees_find index trees of None \<Rightarrow> []
      | Some tree \<Rightarrow> (case walk tree bits of (None, _) \<Rightarrow> []
          | (Some v, bits) \<Rightarrow>
              if \<not> v_special v then v_value v # decode_bits trees v bits
              else if v_svalue v = Special_stop then []
              else if v_svalue v = Special_escape
              then (case escape_scan bits of (ds, c, bits) \<Rightarrow>
                      case c of None \<Rightarrow> ds | Some c \<Rightarrow> ds @ c # decode_bits trees (char_value c) bits)
              else decode_bits trees v bits))"
  by pat_completeness auto
termination
  by (relation "measure (\<lambda>(trees, v, bits). length bits)") (fastforce dest: walk_length [OF sym] escape_scan_length [OF sym])+

declare decode_bits.simps [simp del]

section \<open>The decoder on a bit stream\<close>

context channel_reader
begin

lemma read_bool_yields:
  assumes "try_read r = reader_try_read rd"
  shows "yields bits_ok bits_rest (read_bool r) (b # bs) b bs"
  unfolding read_bool_def by (rule yields_bind [OF read_bit_yields [OF assms]]) simp

lemma read_bit_end:
  assumes "try_read r = reader_try_read rd"
  shows "fails bits_ok bits_rest (read_bit r) [] (Error 0 ''EOF'')"
  unfolding fails_def
proof (intro allI impI)
  fix st assume st: "bits_ok st \<and> bits_rest st = []"
  then have valid: "br_bits_valid st = 0" "rest (br_reader st) = []"
    by (auto simp: bits_rest_def bits_of_def word_bits_def)
  moreover have "fails ok rest (read_byte r) [] (Error 0 ''EOF'')"
    unfolding read_byte_def by (intro fails_throw_bind read_fails assms) simp
  ultimately show "\<exists>st'. read_bit r st = (Inl (Error 0 ''EOF''), st') \<and> bits_ok st' \<and> bits_rest st' = []"
    using st by (fastforce simp: fails_def read_bit_def chan_bind_def bit_refill_def bits_ok_def bits_rest_def)
qed

lemma read_bool_end:
  "try_read r = reader_try_read rd \<Longrightarrow> fails bits_ok bits_rest (read_bool r) [] (Error 0 ''EOF'')"
  unfolding read_bool_def by (intro fails_throw_bind read_bit_end)

lemma read_bits_short:
  "try_read r = reader_try_read rd \<Longrightarrow> length bs < n \<Longrightarrow> fails bits_ok bits_rest (read_bits_loop r n acc) bs (Error 0 ''EOF'')"
proof (induction n arbitrary: bs acc)
  case (Suc n)
  show ?case
  proof (cases bs)
    case Nil
    with Suc.prems show ?thesis unfolding read_bits_loop_Suc by (auto intro: fails_throw_bind read_bit_end)
  next
    case (Cons b cs)
    with Suc show ?thesis unfolding read_bits_loop_Suc
      by (auto intro!: fails_later [OF read_bit_yields])
  qed
qed simp

lemma tree_read_walk:
  assumes "try_read r = reader_try_read rd"
  shows "bits_ok st \<Longrightarrow> \<exists>st'. tree_read r n st = (fst (walk n (bits_rest st)), st') \<and> bits_ok st' \<and> bits_rest st' = snd (walk n (bits_rest st))"
proof (induction "bits_rest st" arbitrary: st n)
  case Nil
  then obtain e st' where "read_bool r st = (Inl e, st')" "bits_ok st'" "bits_rest st' = []"
    using read_bool_end [OF assms] by (fastforce simp: fails_def)
  then show ?case using Nil(1) [symmetric] by (simp add: tree_read.simps [of r n st])
next
  case (Cons b bs)
  then obtain st1 where st1: "read_bool r st = (Inr b, st1)" "bits_ok st1" "bits_rest st1 = bs"
    using read_bool_yields [OF assms, of b bs] by (fastforce simp: yields_def)
  show ?case
  proof (cases "get_node b n")
    case None
    with st1 Cons(2) [symmetric] show ?thesis by (simp add: tree_read.simps [of r n st])
  next
    case (Some m)
    with st1 Cons(1) [of st1 m] Cons(2) [symmetric] show ?thesis by (auto simp: tree_read.simps [of r n st])
  qed
qed

lemma escaped_char_read:
  assumes "try_read r = reader_try_read rd" "bits_ok st"
  shows "if length (bits_rest st) < 8
    then \<exists>st'. read_escaped_char r st = (None, st') \<and> bits_ok st' \<and> bits_rest st' = []
    else \<exists>st'. read_escaped_char r st = (Some (bits_byte (take 8 (bits_rest st))), st') \<and> bits_ok st' \<and> bits_rest st' = drop 8 (bits_rest st)"
proof (cases "length (bits_rest st) < 8")
  case True
  with read_bits_short [OF assms(1), of "bits_rest st" 8 0] assms(2) show ?thesis
    by (fastforce simp: fails_def read_escaped_char_def read_bits_def)
next
  case False
  with read_bits_yields [OF assms(1), of "take 8 (bits_rest st)" 0 "drop 8 (bits_rest st)"] assms(2) show ?thesis
    by (fastforce simp: yields_def read_escaped_char_def read_bits_def bits_byte_def)
qed

lemma escape_loop_scan:
  assumes "try_read r = reader_try_read rd"
  shows "bits_ok st \<Longrightarrow> length (bits_rest st) < fuel \<Longrightarrow> escape_scan (bits_rest st) = (ds, c, bs) \<Longrightarrow>
    \<exists>st'. escape_loop r fuel s st = Some (s @ ds, c, st') \<and> bits_ok st' \<and> bits_rest st' = bs"
proof (induction fuel arbitrary: s st ds)
  case (Suc fuel)
  note one = escaped_char_read [OF assms Suc.prems(1)]
  show ?case
  proof (cases "length (bits_rest st) < 8")
    case True
    with one Suc.prems(3) show ?thesis by (auto simp: escape_scan.simps [of "bits_rest st"])
  next
    case False
    then obtain st1 where st1: "read_escaped_char r st = (Some (bits_byte (take 8 (bits_rest st))), st1)" "bits_ok st1" "bits_rest st1 = drop 8 (bits_rest st)"
      using one by auto
    show ?thesis
    proof (cases "bits_byte (take 8 (bits_rest st)) AND 0x80 = 0")
      case True
      with False st1 Suc.prems(3) show ?thesis by (auto simp: escape_scan.simps [of "bits_rest st"] Let_def)
    next
      case more: False
      obtain ds1 where "escape_scan (bits_rest st1) = (ds1, c, bs)" "ds = bits_byte (take 8 (bits_rest st)) # ds1"
        using False more st1 Suc.prems(3) by (auto simp: escape_scan.simps [of "bits_rest st"] Let_def split: prod.splits)
      moreover have "length (bits_rest st1) < fuel" using False Suc.prems(2) st1(3) by simp
      ultimately show ?thesis
        using Suc.IH [OF st1(2), of ds1 "s @ [bits_byte (take 8 (bits_rest st))]"] st1(1) more by auto
    qed
  qed
qed simp

text \<open>The decoder ends and returns what decoding the bits to come gives, whatever the reader's short reads.\<close>

lemma string_loop_decodes:
  assumes "try_read r = reader_try_read rd"
  shows "bits_ok st \<Longrightarrow> length (bits_rest st) < fuel \<Longrightarrow>
    \<exists>st'. string_loop r trees fuel index s st = Some (s @ decode_bits trees index (bits_rest st), st') \<and> bits_ok st'"
proof (induction fuel arbitrary: index s st)
  case (Suc fuel)
  note unfolded = decode_bits.simps [of trees index "bits_rest st"]
  show ?case
  proof (cases "trees_find index trees")
    case None
    with Suc.prems(1) show ?thesis by (simp add: unfolded multi_read_def)
  next
    case (Some tree)
    obtain v bs where w: "walk tree (bits_rest st) = (v, bs)" by fastforce
    then obtain st1 where st1: "multi_read r trees index st = (v, st1)" "bits_ok st1" "bits_rest st1 = bs"
      using tree_read_walk [OF assms Suc.prems(1), of tree] Some by (auto simp: multi_read_def)
    show ?thesis
    proof (cases v)
      case None
      with Some w st1 show ?thesis by (simp add: unfolded)
    next
      case found: (Some u)
      have less: "length (bits_rest st1) < fuel" using walk_length [OF w] found Suc.prems(2) st1(3) by simp
      obtain ds c bs2 where esc: "escape_scan bs = (ds, c, bs2)" by (cases "escape_scan bs") auto
      obtain st2 where st2: "escape_loop r fuel s st1 = Some (s @ ds, c, st2)" "bits_ok st2" "bits_rest st2 = bs2"
        using escape_loop_scan [OF assms st1(2) less, of ds c bs2 s] esc st1(3) by auto
      have less2: "length (bits_rest st2) < fuel" using less escape_scan_length [OF esc] st1(3) st2(3) by simp
      note IH = Suc.IH [OF st1(2) less] Suc.IH [OF st2(2) less2]
      show ?thesis using Some w found st1 st2 esc IH(1) [of u "s @ [v_value u]"] IH(1) [of u s]
          IH(2) [of "char_value (the c)" "s @ ds @ [the c]"]
        by (cases c) (auto simp: unfolded)
    qed
  qed
qed simp

end

section \<open>Tables\<close>

lemma same_key_iff:
  "same_key a b \<longleftrightarrow> (if v_special a then v_special b \<and> v_svalue a = v_svalue b else \<not> v_special b \<and> v_value a = v_value b)"
  by (cases "v_svalue a"; cases "v_svalue b") (auto simp: same_key_def value_less_def)

lemma same_key_trans: "same_key a b \<Longrightarrow> same_key a c = same_key b c"
  by (auto simp: same_key_iff split: if_splits)

definition trees_value :: "HuffmanValue \<Rightarrow> MultiTree \<Rightarrow> bool list \<Rightarrow> HuffmanValue option" where
  "trees_value index trees p = (case trees_find index trees of None \<Rightarrow> None | Some tree \<Rightarrow> value_at tree p)"

lemma trees_find_update:
  "trees_find i (trees_update k f trees) =
     (if same_key k i then Some (f (case trees_find i trees of None \<Rightarrow> node_new | Some t \<Rightarrow> t)) else trees_find i trees)"
proof (induction trees)
  case (Cons kt trees)
  obtain k1 t where "kt = (k1, t)" by fastforce
  moreover have "same_key k1 i \<Longrightarrow> same_key k i \<Longrightarrow> same_key k1 k" by (auto simp: same_key_iff split: if_splits)
  ultimately show ?case using Cons same_key_trans [of k1 k i] by auto
qed simp

definition add_row :: "MultiMapping \<Rightarrow> MultiTree \<Rightarrow> MultiTree" where
  "add_row mm trees = trees_update (m_index mm) (\<lambda>tree. snd (add_mapping mm tree)) trees"

lemma trees_value_add:
  "trees_value i (add_row mm trees) p = (if same_key (m_index mm) i \<and> p = m_sequence mm then Some (m_value mm) else trees_value i trees p)"
  by (auto simp: add_row_def trees_value_def trees_find_update add_mapping_def value_at_add value_at_new split: option.split)

definition prefix_free :: "MultiMapping list \<Rightarrow> bool" where
  "prefix_free table \<longleftrightarrow> list_all (\<lambda>m. m_sequence m \<noteq> []) table \<and>
     (\<forall>m \<in> set table. \<forall>m' \<in> set table. same_key (m_index m) (m_index m') \<longrightarrow> prefix (m_sequence m) (m_sequence m') \<longrightarrow> m = m')"

lemma trees_value_table:
  "trees_value i (foldl (\<lambda>t mm. add_row mm t) [] table) p = Some v \<Longrightarrow>
   \<exists>m \<in> set table. same_key (m_index m) i \<and> p = m_sequence m \<and> v = m_value m"
  by (induction table rule: rev_induct) (auto simp: trees_value_add trees_value_def [of _ "[]"] split: if_splits)

lemma table_value:
  "m \<in> set table \<Longrightarrow> same_key (m_index m) i \<Longrightarrow> trees_value i (foldl (\<lambda>t mm. add_row mm t) [] table) (m_sequence m) \<noteq> None"
  by (induction table rule: rev_induct) (auto simp: trees_value_add)

lemma same_key_sym: "same_key a b = same_key b a"
  by (auto simp: same_key_def)

lemma walk_table:
  assumes "prefix_free table" "m \<in> set table" "same_key (m_index m) i"
  obtains tree where "trees_find i (foldl (\<lambda>t mm. add_row mm t) [] table) = Some tree"
    "\<And>bs. walk tree (m_sequence m @ bs) = (Some (m_value m), bs)"
proof -
  let ?trees = "foldl (\<lambda>t mm. add_row mm t) [] table"
  have unique: "m' = m" if m': "m' \<in> set table" "same_key (m_index m') i" "prefix (m_sequence m') (m_sequence m)" for m'
  proof -
    have "same_key (m_index m') (m_index m)" using m'(2) assms(3) by (auto simp: same_key_iff split: if_splits)
    then show ?thesis using assms(1,2) m'(1,3) unfolding prefix_free_def by blast
  qed
  obtain v where v: "trees_value i ?trees (m_sequence m) = Some v" using table_value [OF assms(2,3)] by auto
  then obtain m' where m': "m' \<in> set table" "same_key (m_index m') i" "m_sequence m = m_sequence m'" "v = m_value m'"
    using trees_value_table [OF v] by auto
  then have "m' = m" by (intro unique) simp_all
  with v m'(4) have at: "trees_value i ?trees (m_sequence m) = Some (m_value m)" by simp
  then obtain tree where tree: "trees_find i ?trees = Some tree" by (auto simp: trees_value_def split: option.splits)
  have "walk tree (m_sequence m @ bs) = (Some (m_value m), bs)" for bs
  proof (rule walk_code)
    show "value_at tree (m_sequence m) = Some (m_value m)" using at tree by (simp add: trees_value_def)
    show "m_sequence m \<noteq> []" using assms(1,2) by (auto simp: prefix_free_def list_all_iff)
    fix p assume p: "p \<noteq> []" "strict_prefix p (m_sequence m)"
    show "value_at tree p = None"
    proof (rule ccontr)
      assume "value_at tree p \<noteq> None"
      then obtain w where "trees_value i ?trees p = Some w" using tree by (auto simp: trees_value_def)
      then obtain m' where "m' \<in> set table" "same_key (m_index m') i" "p = m_sequence m'" by (auto dest: trees_value_table)
      with unique [of m'] p(2) show False by (auto simp: strict_prefix_def)
    qed
  qed
  with tree show ?thesis by (rule that)
qed

text \<open>
  The bits that encode a string after a previous value: codes of its characters in the tree of the value before
  each, runs of literal bytes above 127 closed by one below after the escape code, and the stop code.
\<close>

inductive encodes :: "MultiMapping list \<Rightarrow> HuffmanValue \<Rightarrow> byte list \<Rightarrow> bool list \<Rightarrow> bool" for table where
  encodes_stop: "m \<in> set table \<Longrightarrow> same_key (m_index m) prev \<Longrightarrow> m_value m = special_value Special_stop \<Longrightarrow>
    encodes table prev [] (m_sequence m @ pad)"
| encodes_char: "m \<in> set table \<Longrightarrow> same_key (m_index m) prev \<Longrightarrow> m_value m = char_value c \<Longrightarrow>
    encodes table (char_value c) s bits \<Longrightarrow> encodes table prev (c # s) (m_sequence m @ bits)"
| encodes_escape: "m \<in> set table \<Longrightarrow> same_key (m_index m) prev \<Longrightarrow> m_value m = special_value Special_escape \<Longrightarrow>
    list_all (\<lambda>d. 128 \<le> d) ds \<Longrightarrow> c < 128 \<Longrightarrow> encodes table (char_value c) s bits \<Longrightarrow>
    encodes table prev (ds @ c # s) (m_sequence m @ bits_of (ds @ [c]) @ bits)"

lemma bits_byte_word: "bits_byte (word_bits 8 b) = b"
proof -
  have "word_bits 8 b = word_bits 8 (ucast b :: u32)" by (simp add: word_bits_def bit_simps)
  then have "bits_byte (word_bits 8 b) = ucast (take_bit 8 (ucast b :: u32))"
    using foldl_word_bits [of 0 8 "ucast b :: u32"] by (simp add: bits_byte_def)
  also have "\<dots> = b" by (rule bit_word_eqI) (auto simp: bit_simps)
  finally show ?thesis .
qed

lemma top_bit_byte: "(b :: byte) AND 0x80 \<noteq> 0 \<longleftrightarrow> 128 \<le> b"
proof -
  have "b AND 2 ^ 7 \<noteq> 0 \<longleftrightarrow> bit (unat b) 7"
    using and_exp_eq_0_iff_not_bit [of b 7] by (simp add: bit_unsigned_iff)
  then have "b AND 2 ^ 7 \<noteq> 0 \<longleftrightarrow> odd (unat b div 2 ^ 7)" by (simp only: bit_iff_odd)
  moreover have "n < 256 \<Longrightarrow> n div 128 = (if 128 \<le> n then 1 else 0)" for n :: nat by (simp add: div_nat_eqI)
  moreover have "unat b < 256" by (rule unat_byte_less)
  ultimately show ?thesis by (simp add: word_le_nat_alt)
qed

lemma escape_scan_bytes:
  "list_all (\<lambda>d. 128 \<le> d) ds \<Longrightarrow> c < 128 \<Longrightarrow> escape_scan (bits_of (ds @ [c]) @ bits) = (ds, Some c, bits)"
proof (induction ds)
  case Nil
  then have "c AND 0x80 = 0" by (metis top_bit_byte not_le)
  then show ?case by (simp add: escape_scan.simps [of "word_bits 8 c @ bits"] bits_byte_word Let_def)
next
  case (Cons d ds)
  then show ?case using top_bit_byte [of d]
    by (simp add: escape_scan.simps [of "word_bits 8 d @ _"] bits_byte_word Let_def)
qed

lemma decode_encoded:
  assumes "prefix_free table"
  shows "encodes table prev s bits \<Longrightarrow> decode_bits (foldl (\<lambda>t mm. add_row mm t) [] table) prev bits = s"
proof (induction rule: encodes.induct)
  case (encodes_stop m prev pad)
  then show ?case by (rule_tac walk_table [OF assms, of m prev]) (auto simp: decode_bits.simps [of _ prev] special_value_def)
next
  case (encodes_char m prev c s bits)
  then show ?case by (rule_tac walk_table [OF assms, of m prev]) (auto simp: decode_bits.simps [of _ prev] char_value_def)
next
  case (encodes_escape m prev ds c s bits)
  have "escape_scan (bits_of (ds @ [c]) @ bits) = (ds, Some c, bits)" using encodes_escape by (intro escape_scan_bytes) auto
  with encodes_escape show ?case
    by (rule_tac walk_table [OF assms, of m prev]) (auto simp: decode_bits.simps [of _ prev] special_value_def)
qed

section \<open>The text of a table\<close>

text \<open>A row as it stands in the file: the previous value, the bits and the value.\<close>

type_synonym row = "string \<times> string \<times> string"

fun row_mapping :: "row \<Rightarrow> MultiMapping" where
  "row_mapping (i, q, v) = \<lparr> m_sequence = get_sequence_from_string q, m_value = get_value_from_string v, m_index = get_value_from_string i \<rparr>"

fun row_text :: "row \<Rightarrow> string" where
  "row_text (i, q, v) = i @ '':'' @ q @ '':'' @ v @ '':'' @ [CHR 0x0A]"

fun row_ok :: "row \<Rightarrow> bool" where
  "row_ok (i, q, v) \<longleftrightarrow> i \<noteq> [] \<and> v \<noteq> [] \<and> CHR '':'' \<notin> set (i @ q) \<and> CHR 0x0A \<notin> set (i @ q @ v) \<and> length (i @ q @ v) \<le> 252"

lemma split_loop_field:
  "delim \<notin> set f \<Longrightarrow> i < limit - 1 \<Longrightarrow>
   split_loop delim False limit i (f @ delim # s) = f # split_loop delim False limit (i + 1) s"
proof -
  assume f: "delim \<notin> set f" "i < limit - 1"
  then have "find_first (\<lambda>c. c = delim) (f @ delim # s) = Some (length f)"
    by (induction f) auto
  with f(2) show ?thesis by (simp add: split_loop.simps [of delim False limit i] split_field_def)
qed

lemma split_3: "CHR '':'' \<notin> set i \<Longrightarrow> CHR '':'' \<notin> set q \<Longrightarrow> split (i @ '':'' @ q @ '':'' @ v) CHR '':'' False 3 = [i, q, v]"
  by (simp add: split_def split_loop_field split_loop.simps [of _ False 3 2] split_field_def)

lemma value_from_string_valid: "s \<noteq> [] \<Longrightarrow> v_valid (get_value_from_string s)"
  by (auto simp: get_value_from_string_def special_value_def char_value_def split: option.split)

lemma stream_getline_line:
  "CHR 0x0A \<notin> set line \<Longrightarrow> length line < 256 \<Longrightarrow> stream_getline (Some (line @ CHR 0x0A # s)) = (Some line, Some s)"
  by (subgoal_tac "takeWhile (\<lambda>c. c \<noteq> CHR 0x0A) (line @ CHR 0x0A # s) = line") (auto simp: stream_getline_def intro: takeWhile_append2 [THEN trans])

lemma row_line:
  "row_ok (i, q, v) \<Longrightarrow> next_line (Some (row_text (i, q, v) @ s)) = (Some (i @ '':'' @ q @ '':'' @ v @ '':''), Some s)"
  using stream_getline_line [of "i @ '':'' @ q @ '':'' @ v @ '':''" s]
  by (simp add: next_line.simps [of "Some (i @ CHR '':'' # q @ CHR '':'' # v @ CHR '':'' # CHR 0x0A # s)"])

lemma read_mapping_row:
  assumes "row_ok row"
  shows "read_mapping (Some (row_text row @ s)) = (Some (row_mapping row), Some s)"
proof -
  obtain i q v where row: "row = (i, q, v)" by (cases row)
  let ?line = "i @ '':'' @ q @ '':'' @ v @ '':''"
  have "?line ! (length ?line - 1) = CHR '':''" by (simp add: nth_append)
  moreover have "take (length ?line - 1) ?line = i @ '':'' @ q @ '':'' @ v" by simp
  ultimately show ?thesis
    using row_line [of i q v s] assms split_3 [of i q v] unfolding row
    by (simp add: read_mapping_def Let_def value_from_string_valid del: row_text.simps)
qed

lemma populate_rows:
  "list_all row_ok rows \<Longrightarrow> populate_from trees (Some (concat (map row_text rows))) = (True, foldl (\<lambda>t mm. add_row mm t) trees (map row_mapping rows))"
proof (induction rows arbitrary: trees)
  case Nil
  have "read_mapping (Some []) = (None, None)" by (simp add: read_mapping_def next_line.simps [of "Some []"] stream_getline_def)
  then show ?case by (simp add: populate_from.simps [of trees])
next
  case (Cons row rows)
  then show ?case by (simp add: populate_from.simps [of trees] read_mapping_row add_row_def)
qed

section \<open>Properties\<close>

text \<open>
  C13: A string encoded with a prefix free table is decoded from a channel, when the table was read from its text:
  codes of different length, a tree for each previous value, literal characters after the escape code and the
  stop code included. What follows the stop code is not looked at.
\<close>
theorem huffman_decodes_encoded:
  assumes "list_all row_ok rows" "prefix_free (map row_mapping rows)"
    and "encodes (map row_mapping rows) (special_value Special_start) s bits" "bits_of data = bits" "length data < 2 ^ 64"
  shows "\<exists>st. huffman_read_string StringReader_methods (snd (populate_from [] (Some (concat (map row_text rows)))))
    (8 * length data + 1) [] (bit_reader (string_reader data)) = Some (True, s, st)"
proof -
  have start: "str.bits_ok (bit_reader (string_reader data))" "str.bits_rest (bit_reader (string_reader data)) = bits_of data"
    using string_ok_initial [OF assms(5)] by (simp_all add: str.bits_ok_def str.bits_rest_def bit_reader_def)
  have "length (bits_of data) = 8 * length data" by (induction data) simp_all
  then show ?thesis
    using str.string_loop_decodes [OF StringReader_try_read start(1), of "8 * length data + 1"
        "snd (populate_from [] (Some (concat (map row_text rows))))" "special_value Special_start" "[]"]
      decode_encoded [OF assms(2,3)] assms(4) start(2)
    by (auto simp: huffman_read_string_def populate_rows [OF assms(1)])
qed

text \<open>
  Reading a string always ends, whatever the trees and the data are, and reports success even when there is no
  tree, no code or not enough data: one unit of fuel more than there are bits is enough.
\<close>
theorem huffman_read_returns:
  assumes "length data < 2 ^ 64"
  shows "\<exists>s' st. huffman_read_string StringReader_methods trees (8 * length data + 1) s (bit_reader (string_reader data)) = Some (True, s @ s', st)
    \<and> s' = decode_bits trees (special_value Special_start) (bits_of data)"
proof -
  have start: "str.bits_ok (bit_reader (string_reader data))" "str.bits_rest (bit_reader (string_reader data)) = bits_of data"
    using string_ok_initial [OF assms] by (simp_all add: str.bits_ok_def str.bits_rest_def bit_reader_def)
  have "length (bits_of data) = 8 * length data" by (induction data) simp_all
  then show ?thesis
    using str.string_loop_decodes [OF StringReader_try_read start(1), of "8 * length data + 1" trees "special_value Special_start" s] start(2)
    by (auto simp: huffman_read_string_def)
qed

lemma huffman_read_returns_witness:
  "\<exists>st. huffman_read_string StringReader_methods [] 9 [] (bit_reader (string_reader [7])) = Some (True, [], st)"
  using huffman_read_returns [of "[7]" "[]" "[]"] by (simp add: decode_bits.simps)

text \<open>
  The example of the tests: two codes from the start, one after each character. The last two bits of the byte are padding.
\<close>

definition example_rows :: "row list" where
  "example_rows = [(''START'', ''00'', ''T''), (''START'', ''01'', ''a''), (''a'', ''0110'', ''ESCAPE''), (''T'', ''1'', ''STOP'')]"

lemma huffman_decodes_encoded_witness:
  "\<exists>st. huffman_read_string StringReader_methods (snd (populate_from [] (Some (concat (map row_text example_rows))))) 25 []
     (bit_reader (string_reader [0x5A, 0x11, 0x52])) = Some (True, [0x61, 0x84, 0x54], st)"
proof -
  let ?table = "map row_mapping example_rows"
  have table: "?table =
      [\<lparr> m_sequence = [False, False], m_value = char_value 0x54, m_index = special_value Special_start \<rparr>,
       \<lparr> m_sequence = [False, True], m_value = char_value 0x61, m_index = special_value Special_start \<rparr>,
       \<lparr> m_sequence = [False, True, True, False], m_value = special_value Special_escape, m_index = char_value 0x61 \<rparr>,
       \<lparr> m_sequence = [True], m_value = special_value Special_stop, m_index = char_value 0x54 \<rparr>]"
    by (simp add: example_rows_def get_sequence_from_string_def get_value_from_string_def special_names_def byte_of_char_def)
  have rows: "list_all row_ok example_rows" by (simp add: example_rows_def)
  have free: "prefix_free ?table"
    unfolding table by (simp add: prefix_free_def same_key_iff special_value_def char_value_def)
  have keys: "same_key v v" for v by (simp add: same_key_iff)
  have "encodes ?table (char_value 0x54) [] ([True] @ [False])"
    using encodes_stop [of "?table ! 3" ?table "char_value 0x54" "[False]"] unfolding table by (simp add: keys)
  then have "encodes ?table (char_value 0x61) ([0x84] @ 0x54 # []) ([False, True, True, False] @ bits_of ([0x84] @ [0x54]) @ [True] @ [False])"
    using encodes_escape [of "?table ! 2" ?table "char_value 0x61" "[0x84]" "0x54" "[]" "[True] @ [False]"] unfolding table by (simp add: keys)
  then have "encodes ?table (special_value Special_start) (0x61 # [0x84] @ 0x54 # [])
      ([False, True] @ [False, True, True, False] @ bits_of ([0x84] @ [0x54]) @ [True] @ [False])"
    using encodes_char [of "?table ! 1" ?table "special_value Special_start" "0x61"] unfolding table by (simp add: keys)
  moreover have "bits_of [0x5A, 0x11, 0x52] = [False, True] @ [False, True, True, False] @ bits_of ([0x84] @ [0x54]) @ [True] @ [False]"
    by (simp add: bits_of_def word_bits_def upt_rec)
  ultimately show ?thesis using huffman_decodes_encoded [OF rows free _ _] by fastforce
qed

text \<open>The comparison for equality does not tell the special values apart.\<close>

lemma special_values_equal: "huffman_value_eq (special_value Special_start) (special_value Special_stop) \<and>
  \<not> same_key (special_value Special_start) (special_value Special_stop)"
  by (simp add: huffman_value_eq_def special_value_def same_key_iff)

text \<open>The last line of a file that does not end it with a newline is dropped, and so is everything from a line that is too long.\<close>

lemma last_line_dropped: "CHR 0x0A \<notin> set line \<Longrightarrow> populate_from trees (Some line) = (True, trees)"
proof -
  assume "CHR 0x0A \<notin> set line"
  then have "takeWhile (\<lambda>c. c \<noteq> CHR 0x0A) line = line" by (auto simp: takeWhile_eq_all_conv)
  then have "stream_getline (Some line) = (None, None)" unfolding stream_getline_def option.case Let_def by (simp only:) simp
  then show ?thesis by (simp add: populate_from.simps [of trees] read_mapping_def next_line.simps [of "Some line"])
qed

text \<open>Setting the value of a node keeps its children, and a code under a leaf is never reached.\<close>

lemma code_under_leaf:
  assumes "value_at root [b] = Some v"
  shows "tree_read_sequence (snd (add_mapping \<lparr> m_sequence = [b, c], m_value = w \<rparr> root)) [b, c] = Some w
    \<and> walk (snd (add_mapping \<lparr> m_sequence = [b, c], m_value = w \<rparr> root)) (b # c # bs) = (Some v, c # bs)"
proof -
  let ?root = "snd (add_mapping \<lparr> m_sequence = [b, c], m_value = w \<rparr> root)"
  have "value_at ?root [b, c] = Some w" "value_at ?root [b] = Some v" using assms by (simp_all add: add_mapping_def value_at_add)
  then show ?thesis
    using walk_code [of ?root "[b]" v "c # bs"]
    by (auto simp: value_at_def tree_read_sequence_def strict_prefix_def prefix_Cons split: option.splits if_splits)
qed

end
