(* ===== verification/Cache.thy ===== *)
theory Cache
  imports OT_Prelude "HOL-Library.Multiset" "HOL-Library.Sublist"
begin

text \<open>
  The evictor cache of libs/cache (ot-cache.h): a map from identifiers to content with data for the policies, a
  limit on its size, and the eviction and tidying policies, which are parameters as they are in the templates.
  Times are seconds, without the bounds of \<^verbatim>\<open>time_t\<close>. Each operation holds the cache's mutex while it reads or
  changes the map, so operations are atomic here.
\<close>

section \<open>Policy data and the map\<close>

record PolicyData =
  add_time :: int
  use_time :: int
  use_count :: u64

definition policy_now :: "int \<Rightarrow> PolicyData" where
  "policy_now now = \<lparr> add_time = now, use_time = now, use_count = 0 \<rparr>"

definition policy_touch :: "int \<Rightarrow> PolicyData \<Rightarrow> PolicyData" where
  "policy_touch now pd = pd \<lparr> use_time := now, use_count := use_count pd + 1 \<rparr>"

record 'c MapContent =
  mc_content :: 'c
  mc_policy :: PolicyData

definition map_content :: "int \<Rightarrow> 'c \<Rightarrow> 'c MapContent" where
  "map_content now content = \<lparr> mc_content = content, mc_policy = policy_now now \<rparr>"

text \<open>\<^verbatim>\<open>std::map\<close> as the list of its entries in the order of its keys.\<close>

fun map_put :: "'key :: linorder \<Rightarrow> 'e \<Rightarrow> ('key \<times> 'e) list \<Rightarrow> ('key \<times> 'e) list" where
  "map_put key e [] = [(key, e)]"
| "map_put key e ((k, x) # m) = (if key < k then (key, e) # (k, x) # m else if key = k then (key, e) # m else (k, x) # map_put key e m)"

definition map_erase :: "'key \<Rightarrow> ('key \<times> 'e) list \<Rightarrow> ('key \<times> 'e) list" where
  "map_erase key m = filter (\<lambda>p. fst p \<noteq> key) m"

section \<open>Cache\<close>

record ('key, 'c) Cache =
  cache_limit :: u32
  cachemap :: "('key \<times> 'c MapContent) list"
  keep_entry :: "PolicyData \<Rightarrow> int \<Rightarrow> bool"
  check_worst :: "PolicyData \<Rightarrow> PolicyData \<Rightarrow> bool"
  prepare_to_die :: "'key \<Rightarrow> 'c \<Rightarrow> bool"

definition cache_new :: "(PolicyData \<Rightarrow> int \<Rightarrow> bool) \<Rightarrow> (PolicyData \<Rightarrow> PolicyData \<Rightarrow> bool) \<Rightarrow> u32 \<Rightarrow> ('key, 'c) Cache" where
  "cache_new tpol epol limit =
     \<lparr> cache_limit = limit, cachemap = [], keep_entry = tpol, check_worst = epol, prepare_to_die = (\<lambda>key content. True) \<rparr>"

definition cache_contains :: "'key \<Rightarrow> ('key, 'c) Cache \<Rightarrow> bool" where
  "cache_contains key c \<longleftrightarrow> map_of (cachemap c) key \<noteq> None"

definition cache_size :: "('key, 'c) Cache \<Rightarrow> u32" where
  "cache_size c = of_nat (length (cachemap c))"

definition cache_lookup :: "'key \<Rightarrow> ('key, 'c) Cache \<Rightarrow> 'c option" where
  "cache_lookup key c = map_option mc_content (map_of (cachemap c) key)"

definition cache_touch :: "int \<Rightarrow> 'key :: linorder \<Rightarrow> ('key, 'c) Cache \<Rightarrow> bool \<times> ('key, 'c) Cache" where
  "cache_touch now key c =
     (case map_of (cachemap c) key of
        Some mc \<Rightarrow> (True, c \<lparr> cachemap := map_put key (mc \<lparr> mc_policy := policy_touch now (mc_policy mc) \<rparr>) (cachemap c) \<rparr>)
      | None \<Rightarrow> (False, c))"

definition cache_remove :: "'key \<Rightarrow> ('key, 'c) Cache \<Rightarrow> ('key, 'c) Cache" where
  "cache_remove key c = c \<lparr> cachemap := map_erase key (cachemap c) \<rparr>"

text \<open>The loop of \<^verbatim>\<open>tidy\<close> over the entries, erasing those that neither the policy nor the hook keeps.\<close>

fun tidy_entries :: "('key, 'c) Cache \<Rightarrow> int \<Rightarrow> ('key \<times> 'c MapContent) list \<Rightarrow> ('key \<times> 'c MapContent) list" where
  "tidy_entries c now [] = []"
| "tidy_entries c now ((key, mc) # m) =
     (if \<not> keep_entry c (mc_policy mc) now \<and> prepare_to_die c key (mc_content mc) then tidy_entries c now m
      else (key, mc) # tidy_entries c now m)"

definition cache_tidy :: "int \<Rightarrow> ('key, 'c) Cache \<Rightarrow> ('key, 'c) Cache" where
  "cache_tidy now c = c \<lparr> cachemap := tidy_entries c now (cachemap c) \<rparr>"

text \<open>Showing the policy all the entries: the worst one so far and its data.\<close>

fun find_worst :: "(PolicyData \<Rightarrow> PolicyData \<Rightarrow> bool) \<Rightarrow> ('key \<times> 'c MapContent) list \<Rightarrow> ('key \<times> 'c MapContent) option \<Rightarrow> PolicyData \<Rightarrow>
    ('key \<times> 'c MapContent) option" where
  "find_worst check [] worst worst_data = worst"
| "find_worst check ((key, mc) # m) worst worst_data =
     (if check (mc_policy mc) worst_data then find_worst check m (Some (key, mc)) (mc_policy mc)
      else find_worst check m worst worst_data)"

text \<open>The rounds of \<^verbatim>\<open>evict\<close>; \<open>clock\<close> is the clock at the round with so many still needed.\<close>

primrec evict_loop :: "(nat \<Rightarrow> int) \<Rightarrow> nat \<Rightarrow> ('key, 'c) Cache \<Rightarrow> bool \<times> ('key, 'c) Cache" where
  "evict_loop clock 0 c = (True, c)"
| "evict_loop clock (Suc needed) c =
     (case find_worst (check_worst c) (cachemap c) None (policy_now (clock (Suc needed))) of
        None \<Rightarrow> (False, c)
      | Some (key, mc) \<Rightarrow>
          if prepare_to_die c key (mc_content mc)
          then evict_loop clock needed (c \<lparr> cachemap := map_erase key (cachemap c) \<rparr>)
          else (False, c))"

definition cache_evict :: "(nat \<Rightarrow> int) \<Rightarrow> ('key, 'c) Cache \<Rightarrow> bool \<times> ('key, 'c) Cache" where
  "cache_evict clock c =
     (let needed = of_nat (length (cachemap c)) - cache_limit c + 1 :: u32
      in if needed = 0 then (True, c) else evict_loop clock (unat needed) c)"

definition cache_set_limit :: "(nat \<Rightarrow> int) \<Rightarrow> u32 \<Rightarrow> ('key, 'c) Cache \<Rightarrow> ('key, 'c) Cache" where
  "cache_set_limit clock limit c = snd (cache_evict clock (c \<lparr> cache_limit := limit \<rparr>))"

definition cache_add :: "(nat \<Rightarrow> int) \<Rightarrow> int \<Rightarrow> 'key :: linorder \<Rightarrow> 'c \<Rightarrow> ('key, 'c) Cache \<Rightarrow> bool \<times> ('key, 'c) Cache" where
  "cache_add clock now key content c =
     (let (room, c') = (if cache_limit c \<noteq> 0 \<and> unat (cache_limit c) \<le> length (cachemap c) then cache_evict clock c else (True, c))
      in if room then (True, c' \<lparr> cachemap := map_put key (map_content now content) (cachemap c') \<rparr>) else (False, c'))"

definition cache_clear :: "('key, 'c) Cache \<Rightarrow> ('key, 'c) Cache" where
  "cache_clear c = c \<lparr> cachemap := [] \<rparr>"

section \<open>Policies and standard combinations\<close>

definition no_tidy :: "PolicyData \<Rightarrow> int \<Rightarrow> bool" where
  "no_tidy pd now = True"

definition no_evictor :: "PolicyData \<Rightarrow> PolicyData \<Rightarrow> bool" where
  "no_evictor current worst = False"

definition use_timeout :: "int \<Rightarrow> PolicyData \<Rightarrow> int \<Rightarrow> bool" where
  "use_timeout timeout pd now \<longleftrightarrow> timeout = 0 \<or> now - use_time pd < timeout"

definition age_timeout :: "int \<Rightarrow> PolicyData \<Rightarrow> int \<Rightarrow> bool" where
  "age_timeout timeout pd now \<longleftrightarrow> timeout = 0 \<or> now - add_time pd < timeout"

definition lru_evictor :: "PolicyData \<Rightarrow> PolicyData \<Rightarrow> bool" where
  "lru_evictor current worst \<longleftrightarrow> use_time current < use_time worst"

definition age_evictor :: "PolicyData \<Rightarrow> PolicyData \<Rightarrow> bool" where
  "age_evictor current worst \<longleftrightarrow> add_time current < add_time worst"

definition basic_cache :: "u32 \<Rightarrow> ('key, 'c) Cache" where
  "basic_cache limit = cache_new no_tidy no_evictor limit"

definition use_timeout_cache :: "int \<Rightarrow> u32 \<Rightarrow> ('key, 'c) Cache" where
  "use_timeout_cache timeout limit = cache_new (use_timeout timeout) no_evictor limit"

definition set_use_timeout :: "int \<Rightarrow> ('key, 'c) Cache \<Rightarrow> ('key, 'c) Cache" where
  "set_use_timeout timeout c = c \<lparr> keep_entry := use_timeout timeout \<rparr>"

definition age_timeout_cache :: "int \<Rightarrow> u32 \<Rightarrow> ('key, 'c) Cache" where
  "age_timeout_cache timeout limit = cache_new (age_timeout timeout) no_evictor limit"

definition set_age_timeout :: "int \<Rightarrow> ('key, 'c) Cache \<Rightarrow> ('key, 'c) Cache" where
  "set_age_timeout timeout c = c \<lparr> keep_entry := age_timeout timeout \<rparr>"

definition lru_cache :: "u32 \<Rightarrow> ('key, 'c) Cache" where
  "lru_cache limit = cache_new no_tidy lru_evictor limit"

definition age_cache :: "u32 \<Rightarrow> ('key, 'c) Cache" where
  "age_cache limit = cache_new no_tidy age_evictor limit"

section \<open>PointerCache\<close>

text \<open>
  The content is a pointer, null being \<open>None\<close>. An operation also says which objects it deleted, in order.
\<close>

type_synonym ('key, 'p) PointerCache = "('key, 'p option) Cache"

definition basic_pointer_cache :: "u32 \<Rightarrow> ('key, 'p) PointerCache" where
  "basic_pointer_cache limit = cache_new no_tidy no_evictor limit"

definition use_timeout_pointer_cache :: "int \<Rightarrow> u32 \<Rightarrow> ('key, 'p) PointerCache" where
  "use_timeout_pointer_cache timeout limit = cache_new (use_timeout timeout) no_evictor limit"

definition age_timeout_pointer_cache :: "int \<Rightarrow> u32 \<Rightarrow> ('key, 'p) PointerCache" where
  "age_timeout_pointer_cache timeout limit = cache_new (age_timeout timeout) no_evictor limit"

definition lru_pointer_cache :: "u32 \<Rightarrow> ('key, 'p) PointerCache" where
  "lru_pointer_cache limit = cache_new no_tidy lru_evictor limit"

definition age_pointer_cache :: "u32 \<Rightarrow> ('key, 'p) PointerCache" where
  "age_pointer_cache limit = cache_new no_tidy age_evictor limit"

definition deleting :: "'p option \<Rightarrow> 'p list" where
  "deleting p = (case p of None \<Rightarrow> [] | Some q \<Rightarrow> [q])"

definition pointer_lookup :: "'key \<Rightarrow> ('key, 'p) PointerCache \<Rightarrow> 'p option" where
  "pointer_lookup key c = (case map_of (cachemap c) key of Some mc \<Rightarrow> mc_content mc | None \<Rightarrow> None)"

definition pointer_detach :: "'key \<Rightarrow> ('key, 'p) PointerCache \<Rightarrow> 'p option \<times> ('key, 'p) PointerCache" where
  "pointer_detach key c =
     (case map_of (cachemap c) key of
        Some mc \<Rightarrow> (mc_content mc, c \<lparr> cachemap := map_erase key (cachemap c) \<rparr>)
      | None \<Rightarrow> (None, c))"

definition pointer_remove :: "'key \<Rightarrow> ('key, 'p) PointerCache \<Rightarrow> 'p list \<times> ('key, 'p) PointerCache" where
  "pointer_remove key c =
     (case map_of (cachemap c) key of
        Some mc \<Rightarrow> (deleting (mc_content mc), c \<lparr> cachemap := map_erase key (cachemap c) \<rparr>)
      | None \<Rightarrow> ([], c))"

fun pointer_tidy_entries :: "('key, 'p) PointerCache \<Rightarrow> int \<Rightarrow> ('key \<times> 'p option MapContent) list \<Rightarrow>
    'p option list \<times> ('key \<times> 'p option MapContent) list" where
  "pointer_tidy_entries c now [] = ([], [])"
| "pointer_tidy_entries c now ((key, mc) # m) =
     (let (to_delete, m') = pointer_tidy_entries c now m
      in if \<not> keep_entry c (mc_policy mc) now \<and> prepare_to_die c key (mc_content mc) then (mc_content mc # to_delete, m')
         else (to_delete, (key, mc) # m'))"

definition pointer_tidy :: "int \<Rightarrow> ('key, 'p) PointerCache \<Rightarrow> 'p list \<times> ('key, 'p) PointerCache" where
  "pointer_tidy now c =
     (let (to_delete, m) = pointer_tidy_entries c now (cachemap c)
      in (concat (map deleting to_delete), c \<lparr> cachemap := m \<rparr>))"

primrec pointer_evict_loop :: "(nat \<Rightarrow> int) \<Rightarrow> nat \<Rightarrow> 'p list \<Rightarrow> ('key, 'p) PointerCache \<Rightarrow> bool \<times> 'p list \<times> ('key, 'p) PointerCache" where
  "pointer_evict_loop clock 0 dead c = (True, dead, c)"
| "pointer_evict_loop clock (Suc needed) dead c =
     (case find_worst (check_worst c) (cachemap c) None (policy_now (clock (Suc needed))) of
        None \<Rightarrow> (False, dead, c)
      | Some (key, mc) \<Rightarrow>
          if \<not> prepare_to_die c key (mc_content mc) then (False, dead, c)
          else pointer_evict_loop clock needed (dead @ deleting (mc_content mc)) (c \<lparr> cachemap := map_erase key (cachemap c) \<rparr>))"

definition pointer_evict :: "(nat \<Rightarrow> int) \<Rightarrow> ('key, 'p) PointerCache \<Rightarrow> bool \<times> 'p list \<times> ('key, 'p) PointerCache" where
  "pointer_evict clock c =
     (let needed = of_nat (length (cachemap c)) - cache_limit c + 1 :: u32
      in if needed = 0 then (True, [], c) else pointer_evict_loop clock (unat needed) [] c)"

text \<open>\<^verbatim>\<open>add\<close> removes the old content first and then calls the base class, whose \<^verbatim>\<open>evict\<close> is the virtual one.\<close>

definition pointer_base_add :: "(nat \<Rightarrow> int) \<Rightarrow> int \<Rightarrow> 'key :: linorder \<Rightarrow> 'p option \<Rightarrow> ('key, 'p) PointerCache \<Rightarrow>
    bool \<times> 'p list \<times> ('key, 'p) PointerCache" where
  "pointer_base_add clock now key content c =
     (let (room, dead, c') = (if cache_limit c \<noteq> 0 \<and> unat (cache_limit c) \<le> length (cachemap c) then pointer_evict clock c else (True, [], c))
      in if room then (True, dead, c' \<lparr> cachemap := map_put key (map_content now content) (cachemap c') \<rparr>) else (False, dead, c'))"

definition pointer_add :: "(nat \<Rightarrow> int) \<Rightarrow> int \<Rightarrow> 'key :: linorder \<Rightarrow> 'p option \<Rightarrow> ('key, 'p) PointerCache \<Rightarrow>
    bool \<times> 'p list \<times> ('key, 'p) PointerCache" where
  "pointer_add clock now key content c =
     (let (dead, c) = pointer_remove key c; (ok, dead', c) = pointer_base_add clock now key content c in (ok, dead @ dead', c))"

definition pointer_set_limit :: "(nat \<Rightarrow> int) \<Rightarrow> u32 \<Rightarrow> ('key, 'p) PointerCache \<Rightarrow> 'p list \<times> ('key, 'p) PointerCache" where
  "pointer_set_limit clock limit c = snd (pointer_evict clock (c \<lparr> cache_limit := limit \<rparr>))"

definition pointer_clear :: "('key, 'p) PointerCache \<Rightarrow> 'p list \<times> ('key, 'p) PointerCache" where
  "pointer_clear c = (concat (map (\<lambda>p. deleting (mc_content (snd p))) (cachemap c)), c \<lparr> cachemap := [] \<rparr>)"

section \<open>The map\<close>

definition keys_ok :: "('key :: linorder \<times> 'e) list \<Rightarrow> bool" where
  "keys_ok m \<longleftrightarrow> sorted_wrt (<) (map fst m)"

lemma map_put_keys: "fst ` set (map_put key e m) = insert key (fst ` set m)"
  by (induction key e m rule: map_put.induct) auto

lemma map_put_ok: "keys_ok m \<Longrightarrow> keys_ok (map_put key e m)"
proof (induction m)
  case (Cons p m)
  obtain k x where p: "p = (k, x)" by fastforce
  have above: "k < fst y" if "y \<in> set (map_put key e m)" "k < key" for y
  proof -
    have "fst y \<in> insert key (fst ` set m)" using that(1) by (simp flip: map_put_keys [of key e m])
    then show ?thesis using Cons.prems p that(2) by (auto simp: keys_ok_def)
  qed
  have "keys_ok m" using Cons.prems by (simp add: keys_ok_def)
  with Cons.IH have IH: "keys_ok (map_put key e m)" .
  consider "key < k" | "key = k" | "k < key" by fastforce
  then show ?case
  proof cases
    case 1
    with Cons.prems p show ?thesis by (auto simp: keys_ok_def)
  next
    case 2
    with Cons.prems p show ?thesis by (simp add: keys_ok_def)
  next
    case 3
    with IH above p show ?thesis by (auto simp: keys_ok_def)
  qed
qed (simp add: keys_ok_def)

lemma map_put_lookup: "map_of (map_put key e m) k = (if k = key then Some e else map_of m k)"
  if "keys_ok m" for m :: "('key :: linorder \<times> 'e) list"
  using that unfolding keys_ok_def by (induction m) (auto simp: map_of_eq_None_iff [symmetric] dest: map_of_SomeD)

lemma filter_keys_ok: "keys_ok m \<Longrightarrow> keys_ok (filter P m)"
  unfolding keys_ok_def by (induction m) auto

lemma map_erase_ok: "keys_ok m \<Longrightarrow> keys_ok (map_erase key m)"
  by (simp add: map_erase_def filter_keys_ok)

lemma map_erase_lookup: "map_of (map_erase key m) k = (if k = key then None else map_of m k)"
  unfolding map_erase_def by (induction m) auto

lemma map_erase_length: "keys_ok m \<Longrightarrow> map_of m key = Some e \<Longrightarrow> length m = Suc (length (map_erase key m))"
  unfolding keys_ok_def map_erase_def
proof (induction m)
  case (Cons p m)
  obtain k x where p: "p = (k, x)" by fastforce
  show ?case
  proof (cases "k = key")
    case True
    with Cons.prems(1) p have "filter (\<lambda>p. fst p \<noteq> key) m = m" by (intro filter_True) (force simp: p)
    with p True show ?thesis by simp
  next
    case False
    with Cons p show ?thesis by simp
  qed
qed simp

lemma map_of_filter: "keys_ok m \<Longrightarrow> map_of (filter P m) k = (case map_of m k of None \<Rightarrow> None | Some e \<Rightarrow> if P (k, e) then Some e else None)"
  unfolding keys_ok_def by (induction m) (auto simp: map_of_eq_None_iff split: option.split)

lemma map_erase_other: "keys_ok m \<Longrightarrow> map_of m key = None \<Longrightarrow> map_erase key m = m"
  unfolding map_erase_def by (intro filter_True) (auto simp: map_of_eq_None_iff)

lemma map_put_split: "keys_ok m \<Longrightarrow> mset (map_put key e m) = add_mset (key, e) (mset (map_erase key m))"
proof (induction m)
  case (Cons p m)
  obtain k x where p: "p = (k, x)" by fastforce
  have m: "keys_ok m" using Cons.prems by (simp add: keys_ok_def)
  have above: "k < k'" if "(k', x') \<in> set m" for k' x' using Cons.prems p that by (force simp: keys_ok_def)
  have rest: "map_erase key m = m" if "key \<le> k" using above that by (intro map_erase_other m) (force simp: map_of_eq_None_iff)
  have erase: "map_erase key (p # m) = (if k = key then map_erase key m else p # map_erase key m)" by (simp add: map_erase_def p)
  consider "key < k" | "key = k" | "k < key" by fastforce
  then show ?case
    by cases (use Cons.IH [OF m] erase rest p in auto)
qed (simp add: map_erase_def)

lemma map_put_length: "keys_ok m \<Longrightarrow> length (map_put key e m) = (if map_of m key = None then Suc (length m) else length m)"
  using map_put_split [of m key e, THEN arg_cong [of _ _ size]] map_erase_length [of m key] map_erase_other [of m key] by auto

section \<open>Eviction\<close>

lemma find_worst_member: "find_worst check m w d = Some p \<Longrightarrow> w = Some p \<or> p \<in> set m"
  by (induction check m w d rule: find_worst.induct) (fastforce split: if_splits)+

lemma find_worst_found: "find_worst check m None d = Some (key, mc) \<Longrightarrow> keys_ok m \<Longrightarrow> map_of m key = Some mc"
  using find_worst_member [of check m None d "(key, mc)"]
  by (auto simp: keys_ok_def strict_sorted_iff intro: map_of_is_SomeI)

text \<open>What evicting leaves: fewer entries, none changed.\<close>

definition shrinks :: "('key, 'c) Cache \<Rightarrow> ('key, 'c) Cache \<Rightarrow> bool" where
  "shrinks c c' \<longleftrightarrow> (\<exists>m. c' = c \<lparr> cachemap := m \<rparr>) \<and> (\<forall>k e. map_of (cachemap c') k = Some e \<longrightarrow> map_of (cachemap c) k = Some e)
     \<and> length (cachemap c') \<le> length (cachemap c)"

lemma shrinks_trans: "shrinks a b \<Longrightarrow> shrinks b c \<Longrightarrow> shrinks a c"
  by (fastforce simp: shrinks_def)

lemma evict_loop_result:
  "keys_ok (cachemap c) \<Longrightarrow> evict_loop clock n c = (room, c') \<Longrightarrow>
   keys_ok (cachemap c') \<and> shrinks c c' \<and> (room \<longrightarrow> length (cachemap c) = length (cachemap c') + n)"
proof (induction n arbitrary: c)
  case 0
  then show ?case by (auto simp: shrinks_def intro: exI [of _ "cachemap c'"])
next
  case (Suc n)
  let ?worst = "find_worst (check_worst c) (cachemap c) None (policy_now (clock (Suc n)))"
  have refl: "shrinks c c" by (auto simp: shrinks_def intro: exI [of _ "cachemap c"])
  show ?case
  proof (cases ?worst)
    case None
    with Suc.prems refl show ?thesis by auto
  next
    case (Some p)
    obtain key mc where p: "p = (key, mc)" by fastforce
    note found = find_worst_found [OF Some [unfolded p] Suc.prems(1)]
    let ?c1 = "c \<lparr> cachemap := map_erase key (cachemap c) \<rparr>"
    have step: "shrinks c ?c1" using map_erase_length [OF Suc.prems(1) found] by (auto simp: shrinks_def map_erase_lookup split: if_splits)
    show ?thesis
    proof (cases "prepare_to_die c key (mc_content mc)")
      case True
      then have rest: "evict_loop clock n ?c1 = (room, c')" using Suc.prems(2) Some p by simp
      have "keys_ok (cachemap ?c1)" using Suc.prems(1) by (simp add: map_erase_ok)
      from Suc.IH [OF this rest] step show ?thesis
        using map_erase_length [OF Suc.prems(1) found] by (auto intro: shrinks_trans)
    next
      case False
      with Suc.prems Some p refl show ?thesis by auto
    qed
  qed
qed

lemma shrinks_refl: "shrinks c c"
  by (auto simp: shrinks_def intro: exI [of _ "cachemap c"])

lemma cache_evict_result:
  "keys_ok (cachemap c) \<Longrightarrow> cache_evict clock c = (room, c') \<Longrightarrow> keys_ok (cachemap c') \<and> shrinks c c'"
  using evict_loop_result [of c clock] shrinks_refl [of c] by (auto simp: cache_evict_def Let_def split: if_splits)

lemma evict_at_limit:
  "length (cachemap c) = unat (cache_limit c) \<Longrightarrow> cache_evict clock c = evict_loop clock 1 c"
  by (simp add: cache_evict_def)

lemma shrinks_limit: "shrinks c c' \<Longrightarrow> cache_limit c' = cache_limit c"
  by (auto simp: shrinks_def)

lemma cache_add_result:
  assumes "keys_ok (cachemap c)" "cache_add clock now key content c = (done, c')"
  shows "keys_ok (cachemap c') \<and> cache_limit c' = cache_limit c"
    "if done then \<forall>k. map_of (cachemap c') k = Some e \<longrightarrow> (if k = key then e = map_content now content else map_of (cachemap c) k = Some e)
       else shrinks c c'"
    "done \<Longrightarrow> map_of (cachemap c') key = Some (map_content now content)"
    "cache_limit c \<noteq> 0 \<Longrightarrow> length (cachemap c) \<le> unat (cache_limit c) \<Longrightarrow> length (cachemap c') \<le> unat (cache_limit c)"
proof -
  define full where "full \<longleftrightarrow> cache_limit c \<noteq> 0 \<and> unat (cache_limit c) \<le> length (cachemap c)"
  obtain room c1 where c1: "(if full then cache_evict clock c else (True, c)) = (room, c1)" by fastforce
  then have ok: "keys_ok (cachemap c1)" "shrinks c c1"
    using cache_evict_result [OF assms(1)] assms(1) shrinks_refl [of c] by (auto split: if_splits)
  have add: "(if room then (True, c1 \<lparr> cachemap := map_put key (map_content now content) (cachemap c1) \<rparr>) else (False, c1)) = (done, c')"
    using assms(2) c1 by (simp add: cache_add_def full_def)
  then show "keys_ok (cachemap c') \<and> cache_limit c' = cache_limit c" "done \<Longrightarrow> map_of (cachemap c') key = Some (map_content now content)"
    using ok shrinks_limit [OF ok(2)] by (auto simp: map_put_ok map_put_lookup split: if_splits)
  show "if done then \<forall>k. map_of (cachemap c') k = Some e \<longrightarrow> (if k = key then e = map_content now content else map_of (cachemap c) k = Some e)
       else shrinks c c'"
    using add ok by (auto simp: map_put_lookup shrinks_def split: if_splits)
  show "length (cachemap c') \<le> unat (cache_limit c)" if limit: "cache_limit c \<noteq> 0" "length (cachemap c) \<le> unat (cache_limit c)"
  proof (cases full)
    case True
    with limit have at: "length (cachemap c) = unat (cache_limit c)" by (simp add: full_def)
    then have "room \<Longrightarrow> length (cachemap c) = length (cachemap c1) + 1"
      using evict_loop_result [OF assms(1), of clock 1 room c1] c1 True evict_at_limit [OF at, of clock] by simp
    with add ok limit(2) show ?thesis by (auto simp: map_put_length shrinks_def split: if_splits)
  next
    case False
    with limit have "length (cachemap c) < unat (cache_limit c)" by (simp add: full_def)
    with add ok False c1 show ?thesis by (auto simp: map_put_length split: if_splits)
  qed
qed

section \<open>Any sequence of operations\<close>

datatype ('key, 'c) cache_op =
  Do_add "nat \<Rightarrow> int" int 'key 'c | Do_touch int 'key | Do_remove 'key | Do_tidy int | Do_evict "nat \<Rightarrow> int"
| Do_set_limit "nat \<Rightarrow> int" u32 | Do_clear

fun cache_exec :: "('key :: linorder, 'c) cache_op \<Rightarrow> ('key, 'c) Cache \<Rightarrow> ('key, 'c) Cache" where
  "cache_exec (Do_add clock now key content) c = snd (cache_add clock now key content c)"
| "cache_exec (Do_touch now key) c = snd (cache_touch now key c)"
| "cache_exec (Do_remove key) c = cache_remove key c"
| "cache_exec (Do_tidy now) c = cache_tidy now c"
| "cache_exec (Do_evict clock) c = snd (cache_evict clock c)"
| "cache_exec (Do_set_limit clock limit) c = cache_set_limit clock limit c"
| "cache_exec Do_clear c = cache_clear c"

text \<open>What a map that forgets nothing by itself would hold after the same successful additions and removals.\<close>

fun expected :: "('key :: linorder, 'c) cache_op \<Rightarrow> ('key, 'c) Cache \<Rightarrow> ('key \<rightharpoonup> 'c) \<Rightarrow> ('key \<rightharpoonup> 'c)" where
  "expected (Do_add clock now key content) c m = (if fst (cache_add clock now key content c) then m(key \<mapsto> content) else m)"
| "expected (Do_remove key) c m = m(key := None)"
| "expected Do_clear c m = Map.empty"
| "expected _ c m = m"

fun cache_run :: "('key :: linorder, 'c) cache_op list \<Rightarrow> ('key, 'c) Cache \<times> ('key \<rightharpoonup> 'c) \<Rightarrow> ('key, 'c) Cache \<times> ('key \<rightharpoonup> 'c)" where
  "cache_run [] s = s"
| "cache_run (f # fs) (c, m) = cache_run fs (cache_exec f c, expected f c m)"

fun keeps_limit :: "('key, 'c) cache_op \<Rightarrow> bool" where
  "keeps_limit (Do_set_limit clock limit) = False"
| "keeps_limit _ = True"

definition cache_sound :: "('key :: linorder, 'c) Cache \<Rightarrow> ('key \<rightharpoonup> 'c) \<Rightarrow> bool" where
  "cache_sound c m \<longleftrightarrow> keys_ok (cachemap c) \<and> (\<forall>k mc. map_of (cachemap c) k = Some mc \<longrightarrow> m k = Some (mc_content mc))"

definition within_limit :: "('key, 'c) Cache \<Rightarrow> bool" where
  "within_limit c \<longleftrightarrow> (cache_limit c \<noteq> 0 \<longrightarrow> length (cachemap c) \<le> unat (cache_limit c))"

lemma tidy_entries_filter:
  "tidy_entries c now m = filter (\<lambda>(key, mc). keep_entry c (mc_policy mc) now \<or> \<not> prepare_to_die c key (mc_content mc)) m"
  by (induction c now m rule: tidy_entries.induct) auto

lemma shrinks_sound: "cache_sound c m \<Longrightarrow> shrinks c c' \<Longrightarrow> keys_ok (cachemap c') \<Longrightarrow> cache_sound c' m"
  by (auto simp: cache_sound_def shrinks_def)

lemma shrinks_within: "within_limit c \<Longrightarrow> shrinks c c' \<Longrightarrow> within_limit c'"
  using shrinks_limit [of c c'] by (auto simp: within_limit_def shrinks_def)

lemma filter_shrinks: "keys_ok (cachemap c) \<Longrightarrow> shrinks c (c \<lparr> cachemap := filter P (cachemap c) \<rparr>)"
  by (auto simp: shrinks_def map_of_filter split: option.splits if_splits)

lemma cache_touch_map:
  assumes "keys_ok (cachemap c)"
  shows "keys_ok (cachemap (snd (cache_touch now key c)))" "length (cachemap (snd (cache_touch now key c))) = length (cachemap c)"
    "map_option mc_content (map_of (cachemap (snd (cache_touch now key c))) k) = map_option mc_content (map_of (cachemap c) k)"
    "cache_limit (snd (cache_touch now key c)) = cache_limit c"
  using assms by (auto simp: cache_touch_def map_put_ok map_put_length map_put_lookup split: option.split)

lemma cache_exec_sound:
  assumes "cache_sound c m"
  shows "cache_sound (cache_exec f c) (expected f c m) \<and> (keeps_limit f \<longrightarrow> cache_limit (cache_exec f c) = cache_limit c)
    \<and> (keeps_limit f \<longrightarrow> within_limit c \<longrightarrow> within_limit (cache_exec f c))"
proof -
  have keys: "keys_ok (cachemap c)" using assms by (simp add: cache_sound_def)
  note filtered = filter_shrinks [OF keys] filter_keys_ok [OF keys]
  show ?thesis
  proof (cases f)
    case (Do_add clock now key content)
    obtain ok c' where add: "cache_add clock now key content c = (ok, c')" by fastforce
    note result = cache_add_result [OF keys add]
    show ?thesis
    proof (cases ok)
      case True
      then show ?thesis using assms result Do_add add
        by (auto simp: cache_sound_def within_limit_def map_content_def split: if_splits)
    next
      case False
      then show ?thesis using result Do_add add shrinks_sound [OF assms, of c'] shrinks_within [of c c'] by simp
    qed
  next
    case (Do_touch now key)
    note same = cache_touch_map [OF keys, of now key]
    have "m k = Some (mc_content mc)" if k: "map_of (cachemap (snd (cache_touch now key c))) k = Some mc" for k mc
    proof -
      obtain mc' where "map_of (cachemap c) k = Some mc'" "mc_content mc' = mc_content mc"
        using same(3) [of k] k by (cases "map_of (cachemap c) k") auto
      then show ?thesis using assms by (auto simp: cache_sound_def)
    qed
    with same Do_touch show ?thesis by (simp add: cache_sound_def within_limit_def)
  next
    case (Do_remove key)
    have "shrinks c (cache_remove key c)" using filtered(1) by (simp add: cache_remove_def map_erase_def)
    then show ?thesis using assms keys Do_remove shrinks_within [of c "cache_remove key c"]
      by (auto simp: cache_sound_def cache_remove_def map_erase_ok map_erase_lookup split: if_splits)
  next
    case (Do_tidy now)
    have "shrinks c (cache_tidy now c)" "keys_ok (cachemap (cache_tidy now c))"
      using filtered by (simp_all add: cache_tidy_def tidy_entries_filter)
    then show ?thesis using Do_tidy shrinks_sound [OF assms] shrinks_within [of c] shrinks_limit by auto
  next
    case (Do_evict clock)
    obtain room c' where "cache_evict clock c = (room, c')" by fastforce
    then show ?thesis using Do_evict cache_evict_result [OF keys] shrinks_sound [OF assms] shrinks_within [of c c'] shrinks_limit [of c c'] by auto
  next
    case (Do_set_limit clock limit)
    obtain room c' where evict: "cache_evict clock (c \<lparr> cache_limit := limit \<rparr>) = (room, c')" by fastforce
    have "cache_sound (c \<lparr> cache_limit := limit \<rparr>) m" using assms by (simp add: cache_sound_def)
    then show ?thesis using evict Do_set_limit cache_evict_result [of "c \<lparr> cache_limit := limit \<rparr>"] shrinks_sound keys
      by (fastforce simp: cache_set_limit_def)
  next
    case Do_clear
    then show ?thesis by (simp add: cache_clear_def cache_sound_def keys_ok_def within_limit_def)
  qed
qed

lemma cache_run_sound:
  "cache_sound c m \<Longrightarrow> cache_run fs (c, m) = (c', m') \<Longrightarrow>
   cache_sound c' m' \<and> (list_all keeps_limit fs \<longrightarrow> cache_limit c' = cache_limit c \<and> (within_limit c \<longrightarrow> within_limit c'))"
proof (induction fs arbitrary: c m)
  case (Cons f fs)
  then show ?case using cache_exec_sound [OF Cons.prems(1), of f] by fastforce
qed simp

section \<open>The least recently used entry\<close>

lemma find_worst_least:
  "case find_worst lru_evictor m w d of
     Some (key, mc) \<Rightarrow> if \<exists>p \<in> set m. use_time (mc_policy (snd p)) < use_time d
       then (key, mc) \<in> set m \<and> (\<forall>p \<in> set m. use_time (mc_policy mc) \<le> use_time (mc_policy (snd p))) else w = Some (key, mc)
   | None \<Rightarrow> w = None \<and> (\<forall>p \<in> set m. use_time d \<le> use_time (mc_policy (snd p)))"
proof (induction m arbitrary: w d)
  case (Cons p m)
  obtain key mc where p: "p = (key, mc)" by fastforce
  show ?case
  proof (cases "use_time (mc_policy mc) < use_time d")
    case True
    with Cons.IH [of "Some (key, mc)" "mc_policy mc"] p show ?thesis
      by (auto simp: lru_evictor_def not_less split: option.splits if_splits) (fastforce, fastforce)?
  next
    case False
    with Cons.IH [of w d] p show ?thesis
      by (auto simp: lru_evictor_def not_less split: option.splits if_splits) (fastforce)?
  qed
qed (simp split: option.split)

section \<open>Ownership of the pointers\<close>

definition held :: "('key \<times> 'p option MapContent) list \<Rightarrow> 'p multiset" where
  "held m = (\<Sum>p \<in># mset m. mset (deleting (mc_content (snd p))))"

lemma held_simps [simp]: "held [] = {#}" "held (p # m) = mset (deleting (mc_content (snd p))) + held m"
  by (simp_all add: held_def)

lemma held_concat: "mset (concat (map (\<lambda>p. deleting (mc_content (snd p))) m)) = held m"
  by (induction m) simp_all

lemma held_put: "keys_ok m \<Longrightarrow> held (map_put key mc m) = mset (deleting (mc_content mc)) + held (map_erase key m)"
  by (simp add: held_def map_put_split)

lemma held_erase: "keys_ok m \<Longrightarrow> map_of m key = Some mc \<Longrightarrow> held m = mset (deleting (mc_content mc)) + held (map_erase key m)"
proof (induction m)
  case (Cons p m)
  obtain k x where p: "p = (k, x)" by fastforce
  have m: "keys_ok m" using Cons.prems by (simp add: keys_ok_def)
  show ?case
  proof (cases "k = key")
    case True
    then have "map_of m key = None" using Cons.prems p by (force simp: keys_ok_def map_of_eq_None_iff)
    with True Cons.prems p map_erase_other [OF m] show ?thesis by (simp add: map_erase_def)
  next
    case False
    with Cons.IH [OF m] Cons.prems p show ?thesis by (simp add: map_erase_def)
  qed
qed simp

lemma pointer_tidy_result:
  "pointer_tidy_entries c now m = (dead, m') \<Longrightarrow> m' = tidy_entries c now m \<and> held m = mset (concat (map deleting dead)) + held m'"
proof (induction m arbitrary: dead m')
  case (Cons p m)
  obtain key mc where p: "p = (key, mc)" by fastforce
  obtain dead1 m1 where rec: "pointer_tidy_entries c now m = (dead1, m1)" by fastforce
  from Cons.IH [OF rec] Cons.prems p rec show ?case by (auto split: if_splits)
qed simp

text \<open>The loop is that of the base class, and what it deletes is what leaves the map.\<close>

lemma pointer_evict_loop_result:
  "keys_ok (cachemap c) \<Longrightarrow> pointer_evict_loop clock n dead c = (room, dead', c') \<Longrightarrow>
   evict_loop clock n c = (room, c') \<and> held (cachemap c) + mset dead = held (cachemap c') + mset dead'"
proof (induction n arbitrary: c dead)
  case (Suc n)
  let ?worst = "find_worst (check_worst c) (cachemap c) None (policy_now (clock (Suc n)))"
  show ?case
  proof (cases ?worst)
    case None
    with Suc.prems show ?thesis by simp
  next
    case (Some p)
    obtain key mc where p: "p = (key, mc)" by fastforce
    note found = find_worst_found [OF Some [unfolded p] Suc.prems(1)]
    let ?c1 = "c \<lparr> cachemap := map_erase key (cachemap c) \<rparr>"
    have ok: "keys_ok (cachemap ?c1)" using Suc.prems(1) by (simp add: map_erase_ok)
    show ?thesis
    proof (cases "prepare_to_die c key (mc_content mc)")
      case True
      then have "pointer_evict_loop clock n (dead @ deleting (mc_content mc)) ?c1 = (room, dead', c')" using Suc.prems(2) Some p by simp
      from Suc.IH [OF ok this] show ?thesis
        using held_erase [OF Suc.prems(1) found] True Some p by (simp add: ac_simps)
    next
      case False
      with Suc.prems Some p show ?thesis by simp
    qed
  qed
qed simp

lemma pointer_evict_result:
  "keys_ok (cachemap c) \<Longrightarrow> pointer_evict clock c = (room, dead, c') \<Longrightarrow>
   cache_evict clock c = (room, c') \<and> held (cachemap c) = held (cachemap c') + mset dead"
  using pointer_evict_loop_result [of c clock] by (fastforce simp: pointer_evict_def cache_evict_def Let_def split: if_splits)

lemma pointer_remove_result:
  "keys_ok (cachemap c) \<Longrightarrow> pointer_remove key c = (dead, c') \<Longrightarrow>
   c' = cache_remove key c \<and> held (cachemap c) = held (cachemap c') + mset dead"
  by (cases "map_of (cachemap c) key")
    (auto simp: pointer_remove_def cache_remove_def map_erase_other held_erase)

lemma pointer_add_result:
  assumes "keys_ok (cachemap c)" "pointer_add clock now key content c = (ok, dead, c')"
  shows "cache_add clock now key content (cache_remove key c) = (ok, c')"
    "held (cachemap c) + mset (deleting content) = held (cachemap c') + mset dead + (if ok then {#} else mset (deleting content))"
proof -
  obtain dead1 c1 where c1: "pointer_remove key c = (dead1, c1)" by fastforce
  obtain dead2 where base: "pointer_base_add clock now key content c1 = (ok, dead2, c')" "dead = dead1 @ dead2"
    using assms(2) c1 by (auto simp: pointer_add_def split: prod.splits)
  note removed = pointer_remove_result [OF assms(1) c1]
  have keys: "keys_ok (cachemap c1)" and gone: "map_of (cachemap c1) key = None"
    using removed assms(1) by (simp_all add: cache_remove_def map_erase_ok map_erase_lookup)
  define full where "full \<longleftrightarrow> cache_limit c1 \<noteq> 0 \<and> unat (cache_limit c1) \<le> length (cachemap c1)"
  obtain room c2 where c2: "(if full then pointer_evict clock c1 else (True, [], c1)) = (room, dead2, c2)"
    using base(1) by (auto simp: pointer_base_add_def full_def split: prod.splits if_splits)
  then have evict: "(if full then cache_evict clock c1 else (True, c1)) = (room, c2)" "held (cachemap c1) = held (cachemap c2) + mset dead2"
    using pointer_evict_result [OF keys] by (auto split: if_splits)
  then have "keys_ok (cachemap c2)" "shrinks c1 c2"
    using cache_evict_result [OF keys] keys shrinks_refl [of c1] by (auto split: if_splits)
  then have c2_ok: "keys_ok (cachemap c2)" "map_of (cachemap c2) key = None"
    using gone by (cases "map_of (cachemap c2) key"; auto simp: shrinks_def)+
  show "cache_add clock now key content (cache_remove key c) = (ok, c')"
    using base(1) c2 evict(1) removed by (auto simp: pointer_base_add_def cache_add_def full_def split: if_splits)
  have "(ok, c') = (if room then (True, c2 \<lparr> cachemap := map_put key (map_content now content) (cachemap c2) \<rparr>) else (False, c2))"
    using base(1) c2 by (auto simp: pointer_base_add_def full_def split: if_splits)
  then show "held (cachemap c) + mset (deleting content) = held (cachemap c') + mset dead + (if ok then {#} else mset (deleting content))"
    using removed evict(2) base(2) c2_ok by (auto simp: held_put map_erase_other map_content_def ac_simps split: if_splits)
qed

datatype ('key, 'p) pointer_op =
  Pointer_add "nat \<Rightarrow> int" int 'key "'p option" | Pointer_touch int 'key | Pointer_detach 'key | Pointer_remove 'key
| Pointer_tidy int | Pointer_evict "nat \<Rightarrow> int" | Pointer_set_limit "nat \<Rightarrow> int" u32 | Pointer_clear

text \<open>
  Beside the cache, the objects given to it, those it deleted, those detached by the caller and those that an
  addition which failed has neither kept nor deleted.
\<close>

record ('key, 'p) pointer_history =
  pc :: "('key, 'p) PointerCache"
  given :: "'p list"
  deleted :: "'p list"
  detached :: "'p list"
  dropped :: "'p list"

fun pointer_exec :: "('key :: linorder, 'p) pointer_op \<Rightarrow> ('key, 'p) pointer_history \<Rightarrow> ('key, 'p) pointer_history" where
  "pointer_exec (Pointer_add clock now key p) h =
     (let (ok, dead, c) = pointer_add clock now key p (pc h)
      in h \<lparr> pc := c, given := given h @ deleting p, deleted := deleted h @ dead, dropped := dropped h @ (if ok then [] else deleting p) \<rparr>)"
| "pointer_exec (Pointer_touch now key) h = h \<lparr> pc := snd (cache_touch now key (pc h)) \<rparr>"
| "pointer_exec (Pointer_detach key) h =
     (let (p, c) = pointer_detach key (pc h) in h \<lparr> pc := c, detached := detached h @ deleting p \<rparr>)"
| "pointer_exec (Pointer_remove key) h = (let (dead, c) = pointer_remove key (pc h) in h \<lparr> pc := c, deleted := deleted h @ dead \<rparr>)"
| "pointer_exec (Pointer_tidy now) h = (let (dead, c) = pointer_tidy now (pc h) in h \<lparr> pc := c, deleted := deleted h @ dead \<rparr>)"
| "pointer_exec (Pointer_evict clock) h = (let (_, dead, c) = pointer_evict clock (pc h) in h \<lparr> pc := c, deleted := deleted h @ dead \<rparr>)"
| "pointer_exec (Pointer_set_limit clock limit) h =
     (let (dead, c) = pointer_set_limit clock limit (pc h) in h \<lparr> pc := c, deleted := deleted h @ dead \<rparr>)"
| "pointer_exec Pointer_clear h = (let (dead, c) = pointer_clear (pc h) in h \<lparr> pc := c, deleted := deleted h @ dead \<rparr>)"

definition pointer_start :: "('key, 'p) PointerCache \<Rightarrow> ('key, 'p) pointer_history" where
  "pointer_start c = \<lparr> pc = c, given = [], deleted = [], detached = [], dropped = [] \<rparr>"

definition accounted :: "('key :: linorder, 'p) pointer_history \<Rightarrow> bool" where
  "accounted h \<longleftrightarrow> keys_ok (cachemap (pc h))
     \<and> mset (given h) = held (cachemap (pc h)) + mset (deleted h) + mset (detached h) + mset (dropped h)"

lemma held_cong: "keys_ok m \<Longrightarrow> map_of m key = Some mc \<Longrightarrow> mc_content mc' = mc_content mc \<Longrightarrow> held (map_put key mc' m) = held m"
  by (simp add: held_put held_erase [of m key mc])

lemma pointer_exec_accounted:
  assumes "accounted h"
  shows "accounted (pointer_exec f h)"
proof (cases f)
  case (Pointer_add clock now key p)
  obtain ok dead c where add: "pointer_add clock now key p (pc h) = (ok, dead, c)" by (metis prod_cases3)
  have keys: "keys_ok (cachemap (pc h))" using assms by (simp add: accounted_def)
  note result = pointer_add_result [OF keys add]
  have "keys_ok (cachemap (cache_remove key (pc h)))" using keys by (simp add: cache_remove_def map_erase_ok)
  with cache_add_result(1) [OF _ result(1)] result(2) add assms Pointer_add show ?thesis
    by (auto simp: accounted_def ac_simps)
next
  case (Pointer_touch now key)
  then show ?thesis using assms cache_touch_map(1) [of "pc h" now key]
    by (auto simp: accounted_def cache_touch_def held_cong split: option.splits)
next
  case (Pointer_detach key)
  then show ?thesis using assms held_erase [of "cachemap (pc h)" key]
    by (auto simp: accounted_def pointer_detach_def map_erase_ok deleting_def ac_simps split: option.splits)
next
  case (Pointer_remove key)
  obtain dead c where rem: "pointer_remove key (pc h) = (dead, c)" by fastforce
  with pointer_remove_result [of "pc h" key dead c] assms Pointer_remove show ?thesis
    by (auto simp: accounted_def cache_remove_def map_erase_ok ac_simps)
next
  case (Pointer_tidy now)
  obtain dead m where tidy: "pointer_tidy_entries (pc h) now (cachemap (pc h)) = (dead, m)" by fastforce
  from pointer_tidy_result [OF this] assms Pointer_tidy tidy show ?thesis
    by (auto simp: accounted_def pointer_tidy_def tidy_entries_filter filter_keys_ok ac_simps)
next
  case (Pointer_evict clock)
  obtain room dead c where evict: "pointer_evict clock (pc h) = (room, dead, c)" by (metis prod_cases3)
  with pointer_evict_result [of "pc h" clock room dead c] cache_evict_result [of "pc h" clock room c] assms Pointer_evict show ?thesis
    by (auto simp: accounted_def ac_simps)
next
  case (Pointer_set_limit clock limit)
  let ?c = "pc h \<lparr> cache_limit := limit \<rparr>"
  obtain room dead c where evict: "pointer_evict clock ?c = (room, dead, c)" by (metis prod_cases3)
  with pointer_evict_result [of ?c clock room dead c] cache_evict_result [of ?c clock room c] assms Pointer_set_limit show ?thesis
    by (auto simp: accounted_def pointer_set_limit_def ac_simps)
next
  case Pointer_clear
  then show ?thesis using assms by (auto simp: accounted_def pointer_clear_def held_concat keys_ok_def ac_simps)
qed

section \<open>Properties\<close>



text \<open>
  C26: The eviction of the least recently used. When a cache with this policy is at its limit, adding a new identifier
  evicts exactly one entry, one whose last use is the earliest; but if no entry was last used before the present
  second, nothing can be evicted, the addition fails and the cache is unchanged.
\<close>
theorem lru_evicts_least_recent:
  assumes "keys_ok (cachemap c)" "check_worst c = lru_evictor" "prepare_to_die c = (\<lambda>key content. True)"
    and "cache_limit c \<noteq> 0" "length (cachemap c) = unat (cache_limit c)" "map_of (cachemap c) key = None"
  shows "if \<exists>p \<in> set (cachemap c). use_time (mc_policy (snd p)) < clock 1
    then \<exists>victim mc. (victim, mc) \<in> set (cachemap c) \<and> (\<forall>p \<in> set (cachemap c). use_time (mc_policy mc) \<le> use_time (mc_policy (snd p)))
      \<and> cache_add clock now key content c = (True, c \<lparr> cachemap := map_put key (map_content now content) (map_erase victim (cachemap c)) \<rparr>)
    else cache_add clock now key content c = (False, c)"
proof -
  have add: "cache_add clock now key content c =
      (let (room, c') = evict_loop clock 1 c
       in if room then (True, c' \<lparr> cachemap := map_put key (map_content now content) (cachemap c') \<rparr>) else (False, c'))"
    using assms(4,5) evict_at_limit [OF assms(5), of clock] by (simp add: cache_add_def)
  show ?thesis
  proof (cases "find_worst lru_evictor (cachemap c) None (policy_now (clock 1))")
    case None
    with find_worst_least [where m = "cachemap c" and w = None and d = "policy_now (clock 1)"] assms(2) add show ?thesis
      by (auto simp: policy_now_def not_less)
  next
    case (Some p)
    obtain victim mc where p: "p = (victim, mc)" by fastforce
    with find_worst_least [where m = "cachemap c" and w = None and d = "policy_now (clock 1)"] Some assms(2,3) add show ?thesis
      by (auto simp: policy_now_def split: if_splits)
  qed
qed

lemma lru_evicts_least_recent_witness:
  "fst (cache_add (\<lambda>_. 9) 9 (2 :: nat) ''b'' (snd (cache_add (\<lambda>_. 9) 9 1 ''a'' (lru_cache 1)))) = False"
proof -
  let ?c = "snd (cache_add (\<lambda>_. 9) 9 (1 :: nat) ''a'' (lru_cache 1))"
  have c: "?c = \<lparr> cache_limit = 1, cachemap = [(1, map_content 9 ''a'')], keep_entry = no_tidy, check_worst = lru_evictor,
      prepare_to_die = (\<lambda>key content. True) \<rparr>"
    by (simp add: cache_add_def lru_cache_def cache_new_def)
  have "cache_add (\<lambda>_. 9) 9 2 ''b'' ?c = (False, ?c)"
    using lru_evicts_least_recent [of ?c 2 "\<lambda>_. 9" 9 "''b''"] unfolding c by (simp add: keys_ok_def map_content_def policy_now_def)
  then show ?thesis by simp
qed



section \<open>Surprises\<close>

text \<open>Raising the limit empties the cache: the number of entries to evict is below zero and wraps to a huge one.\<close>

lemma raised_limit_evicts:
  "cachemap (cache_set_limit (\<lambda>_. 9) 10 (snd (cache_add (\<lambda>_. 3) 3 1 ''a'' (lru_cache 2 :: (nat, string) Cache)))) = []"
proof -
  have round: "evict_loop clock (numeral n) c =
     (case find_worst (check_worst c) (cachemap c) None (policy_now (clock (numeral n))) of
        None \<Rightarrow> (False, c)
      | Some (key, mc) \<Rightarrow>
          if prepare_to_die c key (mc_content mc)
          then evict_loop clock (pred_numeral n) (c \<lparr> cachemap := map_erase key (cachemap c) \<rparr>)
          else (False, c))" for clock n and c :: "('a, 'b) Cache"
    by (subst (1 2) numeral_eq_Suc) simp
  show ?thesis
    by (simp add: round cache_set_limit_def cache_evict_def cache_add_def lru_cache_def cache_new_def map_content_def policy_now_def lru_evictor_def map_erase_def)
qed

text \<open>Adding under an identifier that is there already evicts another entry when the cache is full, though no room is needed.\<close>

lemma replacing_evicts_another:
  "map fst (cachemap (snd (cache_add (\<lambda>_. 9) 9 2 ''c''
     (snd (cache_add (\<lambda>_. 4) 4 2 ''b'' (snd (cache_add (\<lambda>_. 3) 3 1 ''a'' (lru_cache 2 :: (nat, string) Cache)))))))) = [2]"
  by (simp add: cache_add_def cache_evict_def lru_cache_def cache_new_def map_content_def policy_now_def lru_evictor_def map_erase_def)

text \<open>An addition that fails has deleted the old content under the identifier, and the new object is nobody's.\<close>

lemma failed_add_drops:
  "pointer_add (\<lambda>_. 3) 3 1 (Some 30) (snd (snd (pointer_add (\<lambda>_. 3) 3 2 (Some 20) (basic_pointer_cache 1)))) =
     (False, [], snd (snd (pointer_add (\<lambda>_. 3) 3 (2 :: nat) (Some (20 :: nat)) (basic_pointer_cache 1))))"
  by (simp add: pointer_add_def pointer_remove_def pointer_base_add_def pointer_evict_def basic_pointer_cache_def cache_new_def no_evictor_def map_content_def)

end
