(* ===== verification/Pattern.thy ===== *)
theory Pattern
  imports OT_Prelude
begin

text \<open>
  Glob patterns of libs/text (pattern.cc). A C string is the list of its characters with the terminating NUL, a
  pointer into it the rest from there, and reading past the NUL, which the code does for some patterns, is \<open>None\<close>.
\<close>

section \<open>Matching\<close>

abbreviation NUL :: char where "NUL \<equiv> CHR 0x00"

definition folded :: "bool \<Rightarrow> char \<Rightarrow> char" where
  "folded cased c = (if cased then c else c_tolower c)"

definition special_char :: "char \<Rightarrow> bool" where
  "special_char c \<longleftrightarrow> c = CHR 0x5C \<or> c = CHR ''?'' \<or> c = CHR ''*'' \<or> c = CHR ''[''"

text \<open>
  Skipping to the next pattern character: what was skipped, folded, and the text from the character on; or that the
  text ran out.
\<close>

fun span_skip :: "bool \<Rightarrow> char \<Rightarrow> string \<Rightarrow> string \<Rightarrow> (string \<times> string) option option" where
  "span_skip cased c [] m = None"
| "span_skip cased c (x # q) m =
     (let d = folded cased x
      in if d = c then Some (Some (m, x # q))
         else if d = NUL then Some None
         else span_skip cased c q (m @ [d]))"

text \<open>Trying the rest of the pattern at each position; a match gives the captured strings.\<close>

fun span_try :: "(string \<Rightarrow> string list option option) \<Rightarrow> string \<Rightarrow> string \<Rightarrow> string list option option" where
  "span_try f [] m = None"
| "span_try f (d # q) m =
     (case f (d # q) of
        None \<Rightarrow> None
      | Some (Some ms) \<Rightarrow> Some (Some (m # ms))
      | Some None \<Rightarrow> if d = NUL then Some None else span_try f q (m @ [d]))"

text \<open>Whether a set has a closing bracket.\<close>

fun set_closed :: "string \<Rightarrow> bool option" where
  "set_closed [] = None"
| "set_closed (c # r) =
     (if c = NUL then Some False
      else if c = CHR 0x5C
      then (case r of [] \<Rightarrow> None | _ # r \<Rightarrow>
              (case r of [] \<Rightarrow> None | e # _ \<Rightarrow> if e = CHR '']'' then Some True else set_closed r))
      else (case r of [] \<Rightarrow> None | e # _ \<Rightarrow> if e = CHR '']'' then Some True else set_closed r))"

text \<open>An element of the set that starts with \<open>c\<close>: whether it has the character, and the pattern after it.\<close>

definition set_element :: "bool \<Rightarrow> char \<Rightarrow> char \<Rightarrow> string \<Rightarrow> (bool \<times> string) option" where
  "set_element cased d c p =
     (case (if c = CHR 0x5C then p else c # p) of
        [] \<Rightarrow> None
      | c # p \<Rightarrow>
          let c = folded cased c
          in case p of
               [] \<Rightarrow> None
             | [x] \<Rightarrow> if x = CHR ''-'' then None else Some (d = c, p)
             | x # y # r \<Rightarrow>
                 if x = CHR ''-'' \<and> y \<noteq> CHR '']''
                 then (case (if y = CHR 0x5C then r else y # r) of
                         [] \<Rightarrow> None
                       | e # r \<Rightarrow> Some (char_between c (folded cased e) d, r))
                 else Some (d = c, p))"

lemma set_element_shorter: "set_element cased d c p = Some (b, p') \<Longrightarrow> length p' \<le> length p"
  by (auto simp: set_element_def Let_def split: list.splits if_splits)

function set_loop :: "bool \<Rightarrow> char \<Rightarrow> char \<Rightarrow> string \<Rightarrow> bool \<Rightarrow> (bool \<times> string) option" where
  "set_loop cased d c p found =
     (case set_element cased d c p of
        None \<Rightarrow> None
      | Some (b, []) \<Rightarrow> None
      | Some (b, c # p) \<Rightarrow> if c = CHR '']'' then Some (found \<or> b, p) else set_loop cased d c p (found \<or> b))"
  by pat_completeness auto
termination by (relation "measure (\<lambda>(cased, d, c, p, found). length p)") (auto dest: set_element_shorter)

declare set_loop.simps [simp del]

lemma set_loop_shorter: "set_loop cased d c p found = Some (b, p') \<Longrightarrow> length p' < length p"
proof (induction cased d c p found rule: set_loop.induct)
  case (1 cased d c p found)
  then obtain b1 c1 p1 where e: "set_element cased d c p = Some (b1, c1 # p1)"
    by (auto simp: set_loop.simps [of cased d c p found] split: option.splits list.splits)
  with set_element_shorter [OF e] 1 show ?case
    by (fastforce simp: set_loop.simps [of cased d c p found] split: if_splits)
qed

text \<open>
  A set after its opening bracket: whether it accepts the character, and the pattern after it; or \<open>Some None\<close> when it
  has no closing bracket.
\<close>

definition read_set :: "bool \<Rightarrow> char \<Rightarrow> string \<Rightarrow> (bool \<times> string) option option" where
  "read_set cased d p =
     (let invert = (p \<noteq> [] \<and> hd p = CHR ''!''); inside = (if invert then tl p else p)
      in case set_closed inside of
           None \<Rightarrow> None
         | Some False \<Rightarrow> Some None
         | Some True \<Rightarrow>
             (case inside of [] \<Rightarrow> None
              | c # p \<Rightarrow> (case set_loop cased d c p False of None \<Rightarrow> None | Some (found, p) \<Rightarrow> Some (Some (found \<noteq> invert, p)))))"

lemma read_set_shorter: "read_set cased d p = Some (Some (b, p')) \<Longrightarrow> length p' < length p"
proof -
  assume r: "read_set cased d p = Some (Some (b, p'))"
  define invert where "invert \<longleftrightarrow> p \<noteq> [] \<and> hd p = CHR ''!''"
  define inside where "inside = (if invert then tl p else p)"
  have "\<exists>c q found. inside = c # q \<and> set_loop cased d c q False = Some (found, p')"
    using r unfolding read_set_def Let_def invert_def [symmetric] inside_def [symmetric]
    by (cases inside) (auto split: option.splits bool.splits)
  moreover have "length inside \<le> length p" by (simp add: inside_def)
  ultimately show ?thesis by (auto dest!: set_loop_shorter)
qed

text \<open>
  The matcher, as a function of the pattern that gives a function of the text: \<open>None\<close> out of bounds, \<open>Some None\<close> no
  match, otherwise the strings matched by stars.
\<close>

function pattern_match :: "bool \<Rightarrow> string \<Rightarrow> string \<Rightarrow> string list option option" where
  "pattern_match cased [] = (\<lambda>q. None)"
| "pattern_match cased (x # p) = (\<lambda>q. case q of [] \<Rightarrow> None | y # q' \<Rightarrow>
     let c = folded cased x; d = folded cased y
     in if c = NUL then Some (if d = NUL then Some [] else None)
        else if c = CHR 0x5C
        then (case p of [] \<Rightarrow> None | e # p' \<Rightarrow> if folded cased e \<noteq> d then Some None else pattern_match cased p' q')
        else if c = CHR ''?'' then (if d = NUL then Some None else pattern_match cased p q')
        else if c = CHR ''*''
        then (case p of [] \<Rightarrow> None | e # _ \<Rightarrow>
                (case (if special_char e then Some (Some ([], q)) else span_skip cased (folded cased e) q []) of
                   None \<Rightarrow> None
                 | Some None \<Rightarrow> Some None
                 | Some (Some (m, r)) \<Rightarrow> span_try (pattern_match cased p) r m))
        else if c = CHR ''[''
        then (case read_set cased d p of
                None \<Rightarrow> None
              | Some None \<Rightarrow> if d \<noteq> c then Some None else pattern_match cased p q'
              | Some (Some (accepted, p')) \<Rightarrow> if accepted then pattern_match cased p' q' else Some None)
        else if d \<noteq> c then Some None else pattern_match cased p q')"
  by pat_completeness auto
termination
  by (relation "measure (\<lambda>(cased, p). length p)") (auto dest: read_set_shorter)

declare pattern_match.simps [simp del]

text \<open>The overloads on \<^verbatim>\<open>string\<close>: matches found are put in front of those already there.\<close>

definition c_string :: "string \<Rightarrow> string" where
  "c_string s = takeWhile (\<lambda>c. c \<noteq> NUL) s @ [NUL]"

definition pattern_match_captures :: "bool \<Rightarrow> string \<Rightarrow> string \<Rightarrow> string list \<Rightarrow> (bool \<times> string list) option" where
  "pattern_match_captures cased pattern text matches =
     (case pattern_match cased (c_string pattern) (c_string text) of
        None \<Rightarrow> None | Some None \<Rightarrow> Some (False, matches) | Some (Some ms) \<Rightarrow> Some (True, ms @ matches))"

definition pattern_matches :: "bool \<Rightarrow> string \<Rightarrow> string \<Rightarrow> bool option" where
  "pattern_matches cased pattern text = map_option fst (pattern_match_captures cased pattern text [])"

section \<open>Globs\<close>

text \<open>What a pattern means: elements, their text, and when a string matches.\<close>

datatype set_item = One char | Range char char

datatype glob = Lit char | Any | Star | Set bool "set_item list"

fun item_has :: "bool \<Rightarrow> char \<Rightarrow> set_item \<Rightarrow> bool" where
  "item_has cased d (One c) \<longleftrightarrow> folded cased d = folded cased c"
| "item_has cased d (Range c e) \<longleftrightarrow> char_between (folded cased c) (folded cased e) (folded cased d)"

inductive glob_matches :: "bool \<Rightarrow> glob list \<Rightarrow> string \<Rightarrow> bool" for cased where
  glob_end: "glob_matches cased [] []"
| glob_lit: "folded cased d = folded cased c \<Longrightarrow> glob_matches cased gs s \<Longrightarrow> glob_matches cased (Lit c # gs) (d # s)"
| glob_any: "glob_matches cased gs s \<Longrightarrow> glob_matches cased (Any # gs) (d # s)"
| glob_star: "glob_matches cased gs s \<Longrightarrow> glob_matches cased (Star # gs) (t @ s)"
| glob_set: "list_ex (item_has cased d) items \<noteq> invert \<Longrightarrow> glob_matches cased gs s \<Longrightarrow> glob_matches cased (Set invert items # gs) (d # s)"

definition set_char :: "char \<Rightarrow> string" where
  "set_char c = (if c \<in> {CHR 0x5C, CHR '']'', CHR ''-'', CHR ''!''} then [CHR 0x5C, c] else [c])"

fun item_text :: "set_item \<Rightarrow> string" where
  "item_text (One c) = set_char c"
| "item_text (Range c e) = set_char c @ ''-'' @ set_char e"

fun glob_text :: "glob \<Rightarrow> string" where
  "glob_text (Lit c) = (if special_char c then [CHR 0x5C, c] else [c])"
| "glob_text Any = ''?''"
| "glob_text Star = ''*''"
| "glob_text (Set invert items) = ''['' @ (if invert then ''!'' else []) @ concat (map item_text items) @ '']''"

fun item_ok :: "set_item \<Rightarrow> bool" where
  "item_ok (One c) \<longleftrightarrow> c \<noteq> NUL"
| "item_ok (Range c e) \<longleftrightarrow> c \<noteq> NUL \<and> e \<noteq> NUL"

fun glob_ok :: "glob \<Rightarrow> bool" where
  "glob_ok (Lit c) \<longleftrightarrow> c \<noteq> NUL"
| "glob_ok (Set invert items) \<longleftrightarrow> items \<noteq> [] \<and> list_all item_ok items"
| "glob_ok g \<longleftrightarrow> True"

section \<open>Sets\<close>

lemma set_char_start: "\<exists>x xs. set_char c = x # xs \<and> x \<noteq> CHR '']'' \<and> x \<noteq> CHR ''-'' \<and> x \<noteq> CHR ''!''"
  by (auto simp: set_char_def)

lemma item_text_start: "\<exists>x xs. item_text i = x # xs \<and> x \<noteq> CHR '']'' \<and> x \<noteq> CHR ''-'' \<and> x \<noteq> CHR ''!''"
  using set_char_start [of "case i of One c \<Rightarrow> c | Range c e \<Rightarrow> c"] by (cases i) auto

lemma closed_char:
  "c \<noteq> NUL \<Longrightarrow> set_closed (set_char c @ e # r) = (if e = CHR '']'' then Some True else set_closed (e # r))"
  by (auto simp: set_char_def)

lemma closed_item:
  "item_ok i \<Longrightarrow> set_closed (item_text i @ e # r) = (if e = CHR '']'' then Some True else set_closed (e # r))"
proof (cases i)
  case (Range a b)
  assume "item_ok i"
  with Range have ok: "a \<noteq> NUL" "b \<noteq> NUL" by simp_all
  obtain x xs where x: "set_char b = x # xs" "x \<noteq> CHR '']''" using set_char_start by blast
  have "set_closed (item_text i @ e # r) = set_closed (CHR ''-'' # set_char b @ e # r)"
    using closed_char [OF ok(1), of "CHR ''-''"] Range by simp
  also have "\<dots> = set_closed (set_char b @ e # r)" using x by simp
  finally show ?thesis using closed_char [OF ok(2)] by simp
qed (simp add: closed_char del: set_closed.simps)

lemma closed_items: "list_all item_ok items \<Longrightarrow> items \<noteq> [] \<Longrightarrow> set_closed (concat (map item_text items) @ CHR '']'' # p) = Some True"
proof (induction items)
  case (Cons i items)
  show ?case
  proof (cases items)
    case Nil
    with Cons.prems closed_item [of i "CHR '']''" p] show ?thesis by simp
  next
    case (Cons j js)
    obtain x xs where x: "item_text j = x # xs" "x \<noteq> CHR '']''" using item_text_start by blast
    then have "concat (map item_text items) @ CHR '']'' # p = x # xs @ concat (map item_text js) @ CHR '']'' # p" using Cons by simp
    with Cons.prems Cons.IH closed_item [of i x] x Cons show ?thesis by simp
  qed
qed simp

lemma element_item:
  assumes "item_text i = x # xs" "t = e # r" "e \<noteq> CHR ''-''"
  shows "set_element cased (folded cased d) x (xs @ t) = Some (item_has cased d i, t)"
proof (cases i)
  case (One c)
  with assms show ?thesis
    by (auto simp: set_char_def set_element_def Let_def split: if_splits list.split)
next
  case (Range a b)
  with assms show ?thesis
    by (auto simp: set_char_def set_element_def Let_def split: if_splits list.split)
qed

lemma set_loop_items:
  "items \<noteq> [] \<Longrightarrow> concat (map item_text items) = x # xs \<Longrightarrow>
   set_loop cased (folded cased d) x (xs @ CHR '']'' # p) found = Some (found \<or> list_ex (item_has cased d) items, p)"
proof (induction items arbitrary: x xs found)
  case (Cons i items)
  obtain y ys where y: "item_text i = y # ys" using item_text_start by blast
  with Cons.prems(2) have split: "x = y" "xs = ys @ concat (map item_text items)" by simp_all
  show ?case
  proof (cases items)
    case Nil
    with element_item [OF y, of "CHR '']'' # p" "CHR '']''" p cased d] split show ?thesis
      by (subst set_loop.simps) simp
  next
    case (Cons j js)
    obtain z zs where z: "item_text j = z # zs" "z \<noteq> CHR '']''" "z \<noteq> CHR ''-''" using item_text_start by blast
    let ?rest = "zs @ concat (map item_text js)"
    have tail: "concat (map item_text items) = z # ?rest" using z Cons by simp
    have "set_element cased (folded cased d) x (xs @ CHR '']'' # p) = Some (item_has cased d i, z # ?rest @ CHR '']'' # p)"
      using element_item [OF y, of "z # ?rest @ CHR '']'' # p" z "?rest @ CHR '']'' # p" cased d] split tail z(3) by simp
    with Cons.IH [OF _ tail, of "found \<or> item_has cased d i"] Cons z(2) show ?thesis
      by (subst set_loop.simps) (simp add: disj_ac)
  qed
qed simp

lemma read_set_items:
  assumes "list_all item_ok items" "items \<noteq> []"
  shows "read_set cased (folded cased d) ((if invert then ''!'' else []) @ concat (map item_text items) @ CHR '']'' # p)
    = Some (Some (list_ex (item_has cased d) items \<noteq> invert, p))"
proof -
  obtain i js where "items = i # js" using assms(2) by (cases items) auto
  then obtain x xs where x: "concat (map item_text items) = x # xs" "x \<noteq> CHR ''!''"
    using item_text_start [of i] by auto
  with closed_items [OF assms, of p] set_loop_items [OF assms(2) x(1), of cased d p False] show ?thesis
    by (auto simp: read_set_def Let_def simp del: set_closed.simps)
qed

section \<open>The matcher and the meaning of patterns\<close>

text \<open>Matching element by element, a star taking the shortest string that works.\<close>

primrec glob_star :: "(string \<Rightarrow> string list option) \<Rightarrow> string \<Rightarrow> string \<Rightarrow> string list option" where
  "glob_star g [] = (\<lambda>m. map_option (\<lambda>ms. m # ms) (g []))"
| "glob_star g (d # s) = (\<lambda>m. case g (d # s) of Some ms \<Rightarrow> Some (m # ms) | None \<Rightarrow> glob_star g s (m @ [d]))"

fun glob_run :: "bool \<Rightarrow> glob list \<Rightarrow> string \<Rightarrow> string list option" where
  "glob_run cased [] s = (if s = [] then Some [] else None)"
| "glob_run cased (Lit c # gs) s = (case s of [] \<Rightarrow> None | d # s \<Rightarrow> if folded cased d = folded cased c then glob_run cased gs s else None)"
| "glob_run cased (Any # gs) s = (case s of [] \<Rightarrow> None | d # s \<Rightarrow> glob_run cased gs s)"
| "glob_run cased (Star # gs) s = glob_star (glob_run cased gs) s []"
| "glob_run cased (Set invert items # gs) s =
     (case s of [] \<Rightarrow> None | d # s \<Rightarrow> if list_ex (item_has cased d) items \<noteq> invert then glob_run cased gs s else None)"

lemma glob_star_iff: "glob_star g s m \<noteq> None \<longleftrightarrow> (\<exists>t u. s = t @ u \<and> g u \<noteq> None)"
proof (induction s arbitrary: m)
  case (Cons d s)
  have "(\<exists>t u. d # s = t @ u \<and> g u \<noteq> None) \<longleftrightarrow> g (d # s) \<noteq> None \<or> (\<exists>t u. s = t @ u \<and> g u \<noteq> None)"
    by (metis append_Cons append_Nil append_eq_Cons_conv)
  with Cons [of "m @ [d]"] show ?case by (auto split: option.split)
qed simp

inductive_cases glob_matches_cases:
  "glob_matches cased [] s" "glob_matches cased (Lit c # gs) s" "glob_matches cased (Any # gs) s" "glob_matches cased (Star # gs) s"
  "glob_matches cased (Set invert items # gs) s"

lemma glob_run_iff: "glob_run cased gs s \<noteq> None \<longleftrightarrow> glob_matches cased gs s"
proof (induction gs arbitrary: s)
  case Nil
  then show ?case by (auto intro: glob_end elim: glob_matches_cases)
next
  case (Cons g gs)
  show ?case
  proof (cases g)
    case Star
    with Cons show ?thesis by (auto simp: glob_star_iff intro: glob_star elim!: glob_matches_cases simp del: not_None_eq) 
  qed (use Cons in \<open>auto split: list.split intro: glob_matches.intros elim: glob_matches_cases simp del: not_None_eq\<close>)
qed

text \<open>
  The code's result: out of bounds, which takes a negated set, or the element by element one, up to the case of the
  captured strings, of which those skipped to the next pattern character are folded.
\<close>

definition fold_captures :: "bool \<Rightarrow> string list option \<Rightarrow> string list option" where
  "fold_captures cased r = map_option (map (map (folded cased))) r"

definition agrees :: "bool \<Rightarrow> bool \<Rightarrow> string list option option \<Rightarrow> string list option \<Rightarrow> bool" where
  "agrees cased negated r g \<longleftrightarrow> (r = None \<and> negated) \<or> (\<exists>x. r = Some x \<and> fold_captures cased x = fold_captures cased g)"

lemma folded_special: "k \<in> {NUL, CHR 0x5C, CHR ''?'', CHR ''*'', CHR ''[''} \<Longrightarrow> folded cased c = k \<longleftrightarrow> c = k"
proof -
  assume k: "k \<in> {NUL, CHR 0x5C, CHR ''?'', CHR ''*'', CHR ''[''}"
  have "c_tolower c = k \<longleftrightarrow> c = k"
  proof (cases "char_between CHR ''A'' CHR ''Z'' c")
    case True
    then have n: "65 \<le> (of_char c :: nat)" "(of_char c :: nat) \<le> 90" by (simp_all add: char_between_ascii)
    then have "(of_char (c_tolower c) :: nat) = of_char c + 32" using True by (simp add: c_tolower_def)
    with n k show ?thesis by auto
  qed (simp add: c_tolower_def)
  then show ?thesis by (simp add: folded_def)
qed

lemma folded_idem [simp]: "folded cased (folded cased c) = folded cased c"
proof -
  have "\<not> char_between CHR ''A'' CHR ''Z'' (c_tolower c)"
  proof (cases "char_between CHR ''A'' CHR ''Z'' c")
    case True
    then have "65 \<le> (of_char c :: nat)" "(of_char c :: nat) \<le> 90" by (simp_all add: char_between_ascii)
    then have "(of_char (c_tolower c) :: nat) = of_char c + 32" using True by (simp add: c_tolower_def)
    then show ?thesis using \<open>65 \<le> (of_char c :: nat)\<close> by (simp add: char_between_ascii)
  qed (simp add: c_tolower_def)
  then show ?thesis by (simp add: folded_def c_tolower_def [of "c_tolower c"])
qed

lemma span_try_star:
  assumes "\<And>s. NUL \<notin> set s \<Longrightarrow> agrees cased negated (f (s @ [NUL])) (g s)"
  shows "NUL \<notin> set s \<Longrightarrow> map (folded cased) m = map (folded cased) m' \<Longrightarrow>
    agrees cased negated (span_try f (s @ [NUL]) m) (glob_star g s m')"
proof (induction s arbitrary: m m')
  case Nil
  with assms [of "[]"] show ?case
    by (cases "g []") (auto simp: agrees_def fold_captures_def split: option.splits)
next
  case (Cons d s)
  have "agrees cased negated (span_try f (s @ [NUL]) (m @ [d])) (glob_star g s (m' @ [d]))"
    using Cons by (intro Cons.IH) auto
  with assms [of "d # s"] Cons.prems show ?case
    by (auto simp: agrees_def fold_captures_def split: option.splits)
qed

lemma span_skip_star:
  assumes "\<And>s. g s \<noteq> None \<Longrightarrow> folded cased (hd (s @ [NUL])) = c" "folded cased NUL = NUL"
  shows "NUL \<notin> set s \<Longrightarrow> (span_skip cased c (s @ [NUL]) m = Some None \<and> glob_star g s m' = None)
    \<or> (\<exists>pre suf. s = pre @ suf \<and> span_skip cased c (s @ [NUL]) m = Some (Some (m @ map (folded cased) pre, suf @ [NUL]))
        \<and> glob_star g s m' = glob_star g suf (m' @ pre))" 
    (is "_ \<Longrightarrow> ?P s m m'")
proof (induction s arbitrary: m m')
  case Nil
  then show ?case using assms(1) [of "[]"] assms(2) by (cases "g []") (auto simp: Let_def)
next
  case (Cons d s)
  show ?case
  proof (cases "folded cased d = c")
    case True
    then show ?thesis by (intro disjI2 exI [of _ "[]"] exI [of _ "d # s"]) (simp add: Let_def)
  next
    case False
    then have "g (d # s) = None" using assms(1) [of "d # s"] by (cases "g (d # s)") auto
    moreover have "folded cased d \<noteq> NUL" using Cons.prems folded_special [of NUL cased d] by auto
    moreover have "?P s (m @ [folded cased d]) (m' @ [d])" using Cons.prems by (intro Cons.IH) simp
    ultimately show ?thesis
    proof (elim disjE)
      assume rest: "span_skip cased c (s @ [NUL]) (m @ [folded cased d]) = Some None \<and> glob_star g s (m' @ [d]) = None"
      then show ?thesis using False \<open>g (d # s) = None\<close> \<open>folded cased d \<noteq> NUL\<close> by (simp add: Let_def)
    next
      assume "\<exists>pre suf. s = pre @ suf \<and> span_skip cased c (s @ [NUL]) (m @ [folded cased d]) =
          Some (Some ((m @ [folded cased d]) @ map (folded cased) pre, suf @ [NUL])) \<and> glob_star g s (m' @ [d]) = glob_star g suf ((m' @ [d]) @ pre)"
      then obtain pre suf where rest: "s = pre @ suf" "span_skip cased c (s @ [NUL]) (m @ [folded cased d]) =
          Some (Some ((m @ [folded cased d]) @ map (folded cased) pre, suf @ [NUL]))" "glob_star g s (m' @ [d]) = glob_star g suf ((m' @ [d]) @ pre)"
        by blast
      then show ?thesis using False \<open>g (d # s) = None\<close> \<open>folded cased d \<noteq> NUL\<close>
        by (intro disjI2 exI [of _ "d # pre"] exI [of _ suf]) (simp add: Let_def)
    qed
  qed
qed

definition pattern_text :: "glob list \<Rightarrow> string" where
  "pattern_text gs = concat (map glob_text gs)"

text \<open>The character after a star: one that is not special is that of a literal, or ends the pattern.\<close>

lemma after_star:
  assumes "list_all glob_ok gs"
  shows "\<exists>e r. pattern_text gs @ [NUL] = e # r
    \<and> (\<not> special_char e \<longrightarrow> (\<forall>s. glob_run cased gs s \<noteq> None \<longrightarrow> folded cased (hd (s @ [NUL])) = folded cased e))"
proof (cases gs)
  case (Cons g hs)
  then show ?thesis by (cases g) (auto simp: pattern_text_def special_char_def split: list.splits if_splits)
qed (simp add: pattern_text_def)

lemma agrees_weaken: "agrees cased n r g \<Longrightarrow> (n \<Longrightarrow> n') \<Longrightarrow> agrees cased n' r g"
  by (auto simp: agrees_def)

lemma agrees_fail: "agrees cased n (Some None) None"
  by (simp add: agrees_def)

lemma star_agrees:
  assumes "list_all glob_ok gs" "NUL \<notin> set s"
    and f: "\<And>s. NUL \<notin> set s \<Longrightarrow> agrees cased negated (pattern_match cased (pattern_text gs @ [NUL]) (s @ [NUL])) (glob_run cased gs s)"
  shows "agrees cased negated (pattern_match cased (pattern_text (Star # gs) @ [NUL]) (s @ [NUL])) (glob_run cased (Star # gs) s)"
proof -
  obtain e r where er: "pattern_text gs @ [NUL] = e # r"
    "\<not> special_char e \<longrightarrow> (\<forall>s. glob_run cased gs s \<noteq> None \<longrightarrow> folded cased (hd (s @ [NUL])) = folded cased e)"
    using after_star [OF assms(1), of cased] by blast
  have nul: "folded cased NUL = NUL" "folded cased CHR ''*'' = CHR ''*''" by (simp_all add: folded_special)
  have spelt: "pattern_text (Star # gs) @ [NUL] = CHR ''*'' # e # r" using er(1) by (simp add: pattern_text_def)
  obtain y q where y: "s @ [NUL] = y # q" by (cases s) auto
  have run: "pattern_match cased (CHR ''*'' # e # r) (s @ [NUL]) =
      (case (if special_char e then Some (Some ([], s @ [NUL])) else span_skip cased (folded cased e) (s @ [NUL]) []) of
         None \<Rightarrow> None | Some None \<Rightarrow> Some None | Some (Some (m, q)) \<Rightarrow> span_try (pattern_match cased (e # r)) q m)"
    unfolding pattern_match.simps by (simp add: y nul Let_def)
  note tried = span_try_star [where f = "pattern_match cased (e # r)" and g = "glob_run cased gs", OF f [unfolded er(1)]]
  show ?thesis
  proof (cases "special_char e")
    case True
    with run tried [OF _ assms(2), of "[]" "[]"] show ?thesis by (simp add: spelt)
  next
    case False
    with er(2) have "\<And>s. glob_run cased gs s \<noteq> None \<Longrightarrow> folded cased (hd (s @ [NUL])) = folded cased e" by blast
    from span_skip_star [of "glob_run cased gs" cased "folded cased e" s "[]" "[]", OF this nul(1) assms(2)]
    show ?thesis
    proof
      assume "span_skip cased (folded cased e) (s @ [NUL]) [] = Some None \<and> glob_star (glob_run cased gs) s [] = None"
      with run False show ?thesis by (simp add: spelt agrees_fail)
    next
      assume "\<exists>pre suf. s = pre @ suf \<and> span_skip cased (folded cased e) (s @ [NUL]) [] = Some (Some ([] @ map (folded cased) pre, suf @ [NUL]))
        \<and> glob_star (glob_run cased gs) s [] = glob_star (glob_run cased gs) suf ([] @ pre)"
      then obtain pre suf where parts: "s = pre @ suf" "span_skip cased (folded cased e) (s @ [NUL]) [] = Some (Some (map (folded cased) pre, suf @ [NUL]))"
        "glob_star (glob_run cased gs) s [] = glob_star (glob_run cased gs) suf pre" by auto
      have "map (folded cased) (map (folded cased) pre) = map (folded cased) pre" by simp
      with tried [of suf "map (folded cased) pre" pre] assms(2) parts run False show ?thesis by (simp add: spelt)
    qed
  qed
qed

text \<open>An element that accepts the end of the text: a negated set, or a range from a negative character up.\<close>

fun accepts_end :: "bool \<Rightarrow> glob \<Rightarrow> bool" where
  "accepts_end cased (Set invert items) \<longleftrightarrow> list_ex (item_has cased NUL) items \<noteq> invert"
| "accepts_end cased g \<longleftrightarrow> False"

lemma pattern_match_agrees:
  "list_all glob_ok gs \<Longrightarrow> NUL \<notin> set s \<Longrightarrow>
   agrees cased (list_ex (accepts_end cased) gs) (pattern_match cased (pattern_text gs @ [NUL]) (s @ [NUL])) (glob_run cased gs s)"
proof (induction gs arbitrary: s)
  case Nil
  have "folded cased NUL = NUL" by (simp add: folded_special)
  with Nil show ?case
    by (cases s) (auto simp: pattern_match.simps pattern_text_def agrees_def fold_captures_def folded_special)
next
  case (Cons g gs)
  let ?n' = "list_ex (accepts_end cased) (g # gs)"
  let ?P = "pattern_text gs @ [NUL]"
  have nul: "folded cased NUL = NUL" by (simp add: folded_special)
  have IH: "agrees cased ?n' (pattern_match cased ?P (u @ [NUL])) (glob_run cased gs u)" if "NUL \<notin> set u" for u
    using Cons.IH [of u] Cons.prems(1) that by (auto intro: agrees_weaken)
  show ?case
  proof (cases g)
    case (Lit c)
    with Cons.prems have c: "c \<noteq> NUL" by simp
    then have c': "folded cased c \<noteq> NUL" by (simp add: folded_special)
    have run: "pattern_match cased (pattern_text (g # gs) @ [NUL]) (y # q) =
        (if folded cased y \<noteq> folded cased c then Some None else pattern_match cased ?P q)" for y q
    proof (cases "special_char c")
      case True
      have "folded cased CHR 0x5C = CHR 0x5C" by (simp add: folded_special)
      with True Lit show ?thesis by (simp add: pattern_text_def pattern_match.simps Let_def)
    next
      case False
      then have "folded cased c \<noteq> CHR 0x5C" "folded cased c \<noteq> CHR ''?''" "folded cased c \<noteq> CHR ''*''" "folded cased c \<noteq> CHR ''[''"
        by (simp_all add: folded_special special_char_def)
      with False Lit c' show ?thesis by (simp add: pattern_text_def pattern_match.simps Let_def)
    qed
    show ?thesis
    proof (cases s)
      case Nil
      with run [of NUL "[]"] Lit nul c' show ?thesis by (simp add: agrees_fail)
    next
      case (Cons d u)
      with run [of d "u @ [NUL]"] Lit IH [of u] Cons.prems(2) show ?thesis by (simp add: agrees_fail)
    qed
  next
    case Any
    show ?thesis
    proof (cases s)
      case Nil
      with Any nul show ?thesis by (simp add: pattern_text_def pattern_match.simps Let_def folded_special agrees_fail)
    next
      case (Cons d u)
      moreover have "folded cased d \<noteq> NUL" using Cons.prems(2) Cons by (auto simp: folded_special)
      ultimately show ?thesis
        using Any IH [of u] Cons.prems(2) by (simp add: pattern_text_def pattern_match.simps Let_def folded_special)
    qed
  next
    case Star
    show ?thesis unfolding Star
      by (rule star_agrees) (use Cons.prems IH Star in auto)
  next
    case (Set invert items)
    with Cons.prems have ok: "list_all item_ok items" "items \<noteq> []" by simp_all
    have run: "pattern_match cased (pattern_text (g # gs) @ [NUL]) (y # q) =
        (if list_ex (item_has cased y) items \<noteq> invert then pattern_match cased ?P q else Some None)" for y q
      using Set read_set_items [OF ok, of cased y invert ?P]
      by (simp add: pattern_text_def pattern_match.simps Let_def folded_special)
    show ?thesis
    proof (cases s)
      case Nil
      have "pattern_match cased ?P [] = None" by (cases ?P) (simp_all add: pattern_match.simps)
      with run [of NUL "[]"] Nil Set show ?thesis by (auto simp: agrees_def)
    next
      case (Cons d u)
      with run [of d "u @ [NUL]"] Set IH [of u] Cons.prems(2) show ?thesis by (simp add: agrees_fail)
    qed
  qed
qed

lemma pattern_text_no_nul: "list_all glob_ok gs \<Longrightarrow> NUL \<notin> set (pattern_text gs)"
proof -
  have "NUL \<notin> set (set_char c)" if "c \<noteq> NUL" for c using that by (auto simp: set_char_def)
  then have "NUL \<notin> set (item_text i)" if "item_ok i" for i using that by (cases i) auto
  then have "NUL \<notin> set (glob_text g)" if "glob_ok g" for g
    using that by (cases g) (auto simp: list_all_iff)
  then show "list_all glob_ok gs \<Longrightarrow> NUL \<notin> set (pattern_text gs)" by (auto simp: pattern_text_def list_all_iff)
qed

lemma c_string_no_nul: "NUL \<notin> set s \<Longrightarrow> c_string s = s @ [NUL]"
  by (auto simp: c_string_def takeWhile_eq_all_conv)

section \<open>Properties\<close>

text \<open>
  C17: A pattern means what the documentation says: literal characters, any character, sets and ranges, negated or not, and
  any string for a star, with or without regard to case; also where the code skips from a star to the next
  literal. The only way it can go wrong is past the end of the text, when an element of the pattern accepts
  the terminating NUL, as a negated set does.
\<close>
theorem pattern_matches_globs:
  assumes "list_all glob_ok gs" "NUL \<notin> set s"
  shows "pattern_matches cased (pattern_text gs) s = Some (glob_matches cased gs s)
    \<or> (pattern_matches cased (pattern_text gs) s = None \<and> list_ex (accepts_end cased) gs)"
proof -
  have strings: "c_string (pattern_text gs) = pattern_text gs @ [NUL]" "c_string s = s @ [NUL]"
    using pattern_text_no_nul [OF assms(1)] assms(2) by (simp_all add: c_string_no_nul)
  have "(r \<noteq> None) = glob_matches cased gs s" if "fold_captures cased r = fold_captures cased (glob_run cased gs s)" for r
    using that glob_run_iff [of cased gs s] by (cases r; cases "glob_run cased gs s") (auto simp: fold_captures_def)
  with pattern_match_agrees [OF assms, of cased] show ?thesis
    by (fastforce simp: pattern_matches_def pattern_match_captures_def strings agrees_def split: option.split)
qed

lemma pattern_matches_globs_witness:
  "pattern_matches True ''h*[a-c]?'' ''hello bx'' = Some True"
proof -
  let ?gs = "[Lit CHR ''h'', Star, Set False [Range CHR ''a'' CHR ''c''], Any]"
  have "glob_run True ?gs ''hello bx'' \<noteq> None" by (simp add: folded_def char_between_ascii)
  then have "glob_matches True ?gs ''hello bx''" by (simp only: glob_run_iff)
  moreover have "list_all glob_ok ?gs" "NUL \<notin> set ''hello bx''" "\<not> list_ex (accepts_end True) ?gs"
    by (simp_all add: folded_def char_between_ascii)
  moreover have "pattern_text ?gs = ''h*[a-c]?''" by (simp add: pattern_text_def special_char_def set_char_def)
  ultimately show ?thesis using pattern_matches_globs [of ?gs "''hello bx''" True] by simp
qed

section \<open>Surprises\<close>

text \<open>
  A negated set matches the end of the text, after which the code reads beyond it; a pattern that ends in a
  backslash does so for a text that has ended, and an open bracket before a backslash always.
\<close>

lemma reads_past_end:
  "pattern_matches True ''[!a]'' [] = None" "pattern_matches True [CHR ''a'', CHR 0x5C] ''a'' = None"
  "pattern_matches True [CHR ''['', CHR 0x5C] ''a'' = None"
  by (simp_all add: pattern_matches_def pattern_match_captures_def c_string_def pattern_match.simps folded_def Let_def
      read_set_def set_loop.simps set_element_def)

text \<open>Without regard to case, what a star skipped is captured in lower case and the rest as it stands.\<close>

lemma captures_mixed_case:
  "pattern_match_captures False ''*b*?'' ''AbCD'' [] = Some (True, [''a'', ''C''])"
proof -
  have lower: "c_tolower CHR ''A'' = CHR ''a''" "c_tolower CHR ''C'' = CHR ''c''" "c_tolower CHR ''D'' = CHR ''d''" "c_tolower CHR ''b'' = CHR ''b''"
    "c_tolower CHR ''*'' = CHR ''*''" "c_tolower CHR ''?'' = CHR ''?''" "c_tolower NUL = NUL"
    by (simp_all add: c_tolower_def char_between_ascii char_of_def bit_iff_odd)
  show ?thesis
    by (simp add: pattern_match_captures_def c_string_def pattern_match.simps folded_def Let_def lower special_char_def)
qed

end
