(* ===== verification/Xml_Element.thy ===== *)
theory Xml_Element
  imports Json_Value
begin

text \<open>
  The element tree of libs/xml (element.cc, ot-xml.h). A map of attributes is a sorted association list, a list of
  owned pointers the list of the elements, and a place in a tree (a \<^verbatim>\<open>this\<close> pointer with its parents) the list of
  child positions that leads to it from the root. The marker \<^verbatim>\<open>Element::none\<close> is \<open>None\<close>.
\<close>

section \<open>Elements\<close>

datatype Element =
  Element (el_name: string) (el_content: string) (el_attrs: "(string \<times> string) list")
    (el_children: "Element list") (el_line: int)

definition new_element :: "string \<Rightarrow> string \<Rightarrow> (string \<times> string) list \<Rightarrow> Element" where
  "new_element n c attrs = Element n c attrs [] 0"

definition with_children :: "Element list \<Rightarrow> Element \<Rightarrow> Element" where
  "with_children cs e = Element (el_name e) (el_content e) (el_attrs e) cs (el_line e)"

definition with_attrs :: "(string \<times> string) list \<Rightarrow> Element \<Rightarrow> Element" where
  "with_attrs attrs e = Element (el_name e) (el_content e) attrs (el_children e) (el_line e)"

definition copy_to :: "Element \<Rightarrow> Element \<Rightarrow> Element" where
  "copy_to e dest = Element (el_name e) (el_content e) (el_attrs e) (el_children dest) (el_line dest)"

definition add_child :: "Element \<Rightarrow> Element \<Rightarrow> Element" where
  "add_child child e = with_children (el_children e @ [child]) e"

fun deep_copy :: "Element \<Rightarrow> Element" where
  "deep_copy (Element n c attrs cs l) = Element n c attrs (map deep_copy cs) 0"

definition deep_copy_to :: "Element \<Rightarrow> Element \<Rightarrow> Element" where
  "deep_copy_to e dest = foldl (\<lambda>d c. add_child (deep_copy c) d) (copy_to e dest) (el_children e)"

definition assign_element :: "Element \<Rightarrow> Element \<Rightarrow> Element" where
  "assign_element dest src = deep_copy_to src (Element (el_name dest) (el_content dest) (el_attrs dest) [] (el_line src))"

section \<open>Attributes\<close>

definition get_attr :: "string \<Rightarrow> string \<Rightarrow> Element \<Rightarrow> string" where
  "get_attr k def e = (case map_of (el_attrs e) k of Some v \<Rightarrow> v | None \<Rightarrow> def)"

definition get_attr_bool :: "string \<Rightarrow> bool \<Rightarrow> Element \<Rightarrow> bool" where
  "get_attr_bool k def e =
     (case map_of (el_attrs e) k of
        Some v \<Rightarrow> (case v of [] \<Rightarrow> False | c # _ \<Rightarrow> c \<in> {CHR ''T'', CHR ''t'', CHR ''Y'', CHR ''y'', CHR ''1''})
      | None \<Rightarrow> def)"

definition get_attr_int :: "string \<Rightarrow> u32 \<Rightarrow> Element \<Rightarrow> u32" where
  "get_attr_int k def e = (case map_of (el_attrs e) k of Some v \<Rightarrow> atoi v | None \<Rightarrow> def)"

text \<open>
  Extraction of an \<^verbatim>\<open>int\<close> from a stream that does not skip space: the number, whether it succeeded and what is left.
  Without a digit the result is zero, out of range the nearest number, and both fail.
\<close>

definition extract_int :: "bool \<Rightarrow> string \<Rightarrow> int \<times> bool \<times> string" where
  "extract_int hex s =
     (let base = (if hex then 16 else 10);
          neg = (s \<noteq> [] \<and> hd s = CHR ''-'');
          s = (if s \<noteq> [] \<and> (hd s = CHR ''-'' \<or> hd s = CHR ''+'') then tl s else s);
          s = scan_prefix base s;
          ds = takeWhile (\<lambda>c. digit_value base c \<noteq> None) s;
          rest = dropWhile (\<lambda>c. digit_value base c \<noteq> None) s;
          n = (if neg then - int (scan_digits base 0 ds) else int (scan_digits base 0 ds))
      in if ds = [] then (0, False, rest)
         else if n < - (2 ^ 31) then (- (2 ^ 31), False, rest)
         else if n \<ge> 2 ^ 31 then (2 ^ 31 - 1, False, rest)
         else (n, True, rest))"

definition get_attr_hex :: "string \<Rightarrow> u32 \<Rightarrow> Element \<Rightarrow> u32" where
  "get_attr_hex k def e =
     (case map_of (el_attrs e) k of
        Some v \<Rightarrow> (let s = dropWhile isspace v in if s = [] then def else word_of_int (fst (extract_int True s)))
      | None \<Rightarrow> def)"

definition get_attr_int64 :: "string \<Rightarrow> u64 \<Rightarrow> Element \<Rightarrow> u64" where
  "get_attr_int64 k def e = (case map_of (el_attrs e) k of Some v \<Rightarrow> stoi64 v | None \<Rightarrow> def)"

definition get_attr_hex64 :: "string \<Rightarrow> u64 \<Rightarrow> Element \<Rightarrow> u64" where
  "get_attr_hex64 k def e = (case map_of (el_attrs e) k of Some v \<Rightarrow> xtoi64 v | None \<Rightarrow> def)"

definition get_attr_real :: "(string \<Rightarrow> 'r) \<Rightarrow> string \<Rightarrow> 'r \<Rightarrow> Element \<Rightarrow> 'r" where
  "get_attr_real atof k def e = (case map_of (el_attrs e) k of Some v \<Rightarrow> atof v | None \<Rightarrow> def)"

definition has_attr :: "string \<Rightarrow> Element \<Rightarrow> bool" where
  "has_attr k e \<longleftrightarrow> map_of (el_attrs e) k \<noteq> None"

definition get_attrs_with_prefix :: "string \<Rightarrow> Element \<Rightarrow> (string \<times> string) list" where
  "get_attrs_with_prefix prefix e =
     foldl (\<lambda>result it. if take (length prefix) (fst it) = prefix
                       then map_insert (drop (length prefix) (fst it)) (snd it) result else result) [] (el_attrs e)"

definition set_attr :: "string \<Rightarrow> string \<Rightarrow> Element \<Rightarrow> Element" where
  "set_attr k v e = with_attrs (map_insert k v (el_attrs e)) e"

definition set_attr_int :: "string \<Rightarrow> u32 \<Rightarrow> Element \<Rightarrow> Element" where
  "set_attr_int k n = set_attr k (itos n)"

definition set_attr_hex :: "string \<Rightarrow> u32 \<Rightarrow> Element \<Rightarrow> Element" where
  "set_attr_hex k n = set_attr k (itox n)"

definition set_attr_int64 :: "string \<Rightarrow> u64 \<Rightarrow> Element \<Rightarrow> Element" where
  "set_attr_int64 k n = set_attr k (i64tos n)"

definition set_attr_hex64 :: "string \<Rightarrow> u64 \<Rightarrow> Element \<Rightarrow> Element" where
  "set_attr_hex64 k n = set_attr k (i64tox n)"

definition set_attr_bool :: "string \<Rightarrow> bool \<Rightarrow> Element \<Rightarrow> Element" where
  "set_attr_bool k b = set_attr k (if b then ''true'' else ''false'')"

definition set_attr_real :: "('r \<Rightarrow> string) \<Rightarrow> string \<Rightarrow> 'r \<Rightarrow> Element \<Rightarrow> Element" where
  "set_attr_real print17 k x = set_attr k (print17 x)"

definition remove_attr :: "string \<Rightarrow> Element \<Rightarrow> Element" where
  "remove_attr k e = with_attrs (filter (\<lambda>kv. fst kv \<noteq> k) (el_attrs e)) e"

section \<open>Combining elements\<close>

fun update_first :: "('a \<Rightarrow> bool) \<Rightarrow> ('a \<Rightarrow> 'a) \<Rightarrow> 'a list \<Rightarrow> 'a list option" where
  "update_first P f [] = None"
| "update_first P f (x # xs) = (if P x then Some (f x # xs) else map_option ((#) x) (update_first P f xs))"

fun superimpose :: "string \<Rightarrow> Element \<Rightarrow> Element \<Rightarrow> Element" where
  "superimpose identifier e (Element n c attrs cs l) =
     Element (el_name e) (if c \<noteq> [] then c else el_content e) (foldl (\<lambda>m kv. map_insert (fst kv) (snd kv) m) (el_attrs e) attrs)
       (foldl (\<lambda>qs p.
          case update_first (\<lambda>q. get_attr identifier (el_name p) p = get_attr identifier (el_name q) q)
                 (\<lambda>q. superimpose identifier q p) qs of
            Some qs' \<Rightarrow> qs' | None \<Rightarrow> qs @ [deep_copy p]) (el_children e) cs) (el_line e)"

definition merge_element :: "Element \<Rightarrow> Element \<Rightarrow> Element" where
  "merge_element source e =
     foldl (\<lambda>d c. add_child (deep_copy c) d)
       (with_attrs (foldl (\<lambda>m kv. map_insert (fst kv) (snd kv) m) (el_attrs e) (el_attrs source)) e) (el_children source)"

definition optimise :: "Element \<Rightarrow> Element" where
  "optimise e =
     (case el_children e of
        [c] \<Rightarrow> if el_name c = [] then Element (el_name e) (el_content c) (el_attrs e) [] (el_line e) else e
      | _ \<Rightarrow> e)"

section \<open>Writing\<close>

definition escape_char :: "bool \<Rightarrow> char \<Rightarrow> string" where
  "escape_char escquote c =
     (if c = CHR ''<'' then ''&lt;''
      else if c = CHR ''>'' then ''&gt;''
      else if c = CHR ''&'' then ''&amp;''
      else if c = CHR 0x22 \<and> escquote then ''&quot;''
      else [c])"

definition xml_escape :: "bool \<Rightarrow> string \<Rightarrow> string" where
  "xml_escape escquote v = concat (map (escape_char escquote) v)"

definition write_attr :: "string \<times> string \<Rightarrow> string" where
  "write_attr kv =
     (let v = snd kv in
      if set v \<inter> {CHR ''<'', CHR ''>'', CHR ''&'', CHR 0x22} = {}
      then '' '' @ fst kv @ ''='' @ [CHR 0x22] @ v @ [CHR 0x22]
      else let both = (CHR 0x22 \<in> set v \<and> CHR 0x27 \<in> set v);
               delim = (if CHR 0x22 \<in> set v \<and> \<not> both then CHR 0x27 else CHR 0x22)
           in '' '' @ fst kv @ ''='' @ [delim] @ xml_escape both v @ [delim])"

definition write_attrs :: "Element \<Rightarrow> string" where
  "write_attrs e = concat (map write_attr (el_attrs e))"

abbreviation xml_nl :: string where "xml_nl \<equiv> [CHR 0x0A]"

fun write_indented :: "nat \<Rightarrow> Element \<Rightarrow> string" where
  "write_indented indent (Element n c attrs cs l) =
     spaces indent @
     (if n \<noteq> [] then
        ''<'' @ n @ concat (map write_attr attrs) @
        (if cs = [] then
           if c \<noteq> [] then ''>'' @ xml_escape False c @ ''</'' @ n @ ''>'' @ xml_nl else ''/>'' @ xml_nl
         else ''>'' @ xml_nl @ concat (map (write_indented (indent + 2)) cs) @ spaces indent @ ''</'' @ n @ ''>'' @ xml_nl)
      else xml_escape False c @ xml_nl)"

definition xml_pi :: string where
  "xml_pi = ''<?xml version='' @ [CHR 0x22] @ ''1.0'' @ [CHR 0x22] @ ''?>''"

definition xml_to_string :: "bool \<Rightarrow> Element \<Rightarrow> string" where
  "xml_to_string with_pi e = (if with_pi then xml_pi @ xml_nl else []) @ write_indented 0 e"

definition start_to_string :: "Element \<Rightarrow> string" where
  "start_to_string e = ''<'' @ el_name e @ write_attrs e @ ''>''"

definition end_to_string :: "Element \<Rightarrow> string" where
  "end_to_string e = ''</'' @ el_name e @ ''>''"

section \<open>Searching\<close>

fun nth_child :: "int \<Rightarrow> Element list \<Rightarrow> Element option" where
  "nth_child n [] = None"
| "nth_child n (e # es) = (if n = 0 then Some e else nth_child (n - 1) es)"

definition get_child :: "int \<Rightarrow> Element \<Rightarrow> Element option" where
  "get_child n e = nth_child n (el_children e)"

definition get_child_element :: "int \<Rightarrow> Element \<Rightarrow> Element option" where
  "get_child_element n e = nth_child n (filter (\<lambda>c. el_name c \<noteq> []) (el_children e))"

definition get_child_named :: "string \<Rightarrow> int \<Rightarrow> Element \<Rightarrow> Element option" where
  "get_child_named ename n e = nth_child n (filter (\<lambda>c. el_name c = ename) (el_children e))"

definition make_child :: "string \<Rightarrow> Element \<Rightarrow> Element \<times> Element" where
  "make_child ename e =
     (case get_child_named ename 0 e of
        Some c \<Rightarrow> (c, e)
      | None \<Rightarrow> (new_element ename [] [], add_child (new_element ename [] []) e))"

fun get_descendant :: "string \<Rightarrow> Element \<Rightarrow> Element option"
and first_descendant :: "string \<Rightarrow> Element list \<Rightarrow> Element option" where
  "get_descendant ename (Element n c attrs cs l) = first_descendant ename cs"
| "first_descendant ename [] = None"
| "first_descendant ename (e # es) =
     (if el_name e = ename then Some e
      else case get_descendant ename e of Some d \<Rightarrow> Some d | None \<Rightarrow> first_descendant ename es)"

definition get_children :: "Element \<Rightarrow> Element list" where
  "get_children e = el_children e"

definition get_children_named :: "string \<Rightarrow> Element \<Rightarrow> Element list" where
  "get_children_named ename e = filter (\<lambda>c. el_name c = ename) (el_children e)"

fun append_descendants :: "string \<Rightarrow> string \<Rightarrow> Element \<Rightarrow> Element list \<Rightarrow> Element list" where
  "append_descendants ename prune (Element n c attrs cs l) out =
     foldl (\<lambda>out p.
       (let out = (if el_name p = ename then out @ [p] else out)
        in if el_name p \<noteq> prune then append_descendants ename prune p out else out)) out cs"

definition get_descendants :: "string \<Rightarrow> string \<Rightarrow> Element \<Rightarrow> Element list" where
  "get_descendants ename prune e = append_descendants ename prune e []"

definition get_content :: "Element \<Rightarrow> string" where
  "get_content e =
     (if el_content e \<noteq> [] then el_content e
      else concat (map (\<lambda>c. if el_name c = [] \<and> el_content c \<noteq> [] then el_content c @ xml_nl else []) (el_children e)))"

fun get_deep_content :: "Element \<Rightarrow> string" where
  "get_deep_content (Element n c attrs cs l) =
     (if c \<noteq> [] then c
      else concat (map (\<lambda>e. let ss = get_deep_content e in if ss \<noteq> [] then ss @ xml_nl else []) cs))"

section \<open>Changing names and children\<close>

fun xml_translate :: "(string \<times> string) list \<Rightarrow> Element \<Rightarrow> bool \<times> Element" where
  "xml_translate trans_map (Element n c attrs cs l) =
     (if n = [] then (True, Element n c attrs cs l)
      else if map_of trans_map n = Some [] then (False, Element n c attrs cs l)
      else (True, Element (case map_of trans_map n of None \<Rightarrow> n | Some n' \<Rightarrow> n') c attrs
                    (map snd (filter fst (map (xml_translate trans_map) cs))) l))"

fun add_prefix :: "string \<Rightarrow> Element \<Rightarrow> Element" where
  "add_prefix prefix (Element n c attrs cs l) =
     Element (if n \<noteq> [] \<and> take (length prefix) n \<noteq> prefix then prefix @ n else n) c attrs (map (add_prefix prefix) cs) l"

fun remove_prefix :: "string \<Rightarrow> Element \<Rightarrow> Element" where
  "remove_prefix prefix (Element n c attrs cs l) =
     Element (if take (length prefix) n = prefix then drop (length prefix) n else n) c attrs (map (remove_prefix prefix) cs) l"

definition remove_children :: "string \<Rightarrow> Element \<Rightarrow> Element" where
  "remove_children name e = with_children (filter (\<lambda>c. el_name c \<noteq> name) (el_children e)) e"

definition clear_children :: "Element \<Rightarrow> Element" where
  "clear_children e = with_children [] e"

section \<open>Places in a tree\<close>

text \<open>
  A place is the list of child positions from the root. Detaching and replacing change the list of children of the
  parent, which the root has none of.
\<close>

fun element_at :: "nat list \<Rightarrow> Element \<Rightarrow> Element option" where
  "element_at [] e = Some e"
| "element_at (i # is) e = (if i < length (el_children e) then element_at is (el_children e ! i) else None)"

fun update_at :: "nat list \<Rightarrow> (Element list \<Rightarrow> nat \<Rightarrow> Element list) \<Rightarrow> Element \<Rightarrow> Element" where
  "update_at [] f e = e"
| "update_at [i] f e = (if i < length (el_children e) then with_children (f (el_children e) i) e else e)"
| "update_at (i # is) f e =
     (if i < length (el_children e)
      then with_children ((el_children e)[i := update_at is f (el_children e ! i)]) e else e)"

definition detach :: "nat list \<Rightarrow> Element \<Rightarrow> Element" where
  "detach place root = update_at place (\<lambda>cs i. take i cs @ drop (Suc i) cs) root"

definition replace_with :: "nat list \<Rightarrow> Element \<Rightarrow> Element \<Rightarrow> Element" where
  "replace_with place e root = update_at place (\<lambda>cs i. take i cs @ e # drop (Suc i) cs) root"

definition xpath_step :: "Element list \<Rightarrow> nat \<Rightarrow> string" where
  "xpath_step sibs i =
     (let name = el_name (sibs ! i);
          count = length (filter (\<lambda>s. el_name s = name) sibs);
          mycount = length (filter (\<lambda>s. el_name s = name) (take i sibs))
      in ''/'' @ name @ (if count > 1 then ''['' @ print_digits 10 (mycount + 1) @ '']'' else []))"

fun get_xpath :: "nat list \<Rightarrow> Element \<Rightarrow> string" where
  "get_xpath [] e = []"
| "get_xpath (i # is) e =
     (if i < length (el_children e) then xpath_step (el_children e) i @ get_xpath is (el_children e ! i) else [])"

end
