(* ===== verification/Xml_Parser.thy ===== *)
theory Xml_Parser
  imports Xml_Element Fuel
begin

text \<open>
  The XML parser of libs/xml (parser.cc, ot-xml.h). The stream is the text not yet read, empty once it has failed; its
  number base survives a hex reference. The open elements are a stack of the elements as read so far, the innermost
  first: an element is appended to its parent when it closes instead of being linked into it when it opens, which is
  the same since only the innermost is changed meanwhile. The loops over references, attributes and the document are
  bounded by fuel, of which one unit more than the length of the text is enough.
\<close>

section \<open>State\<close>

record Parser =
  p_input :: string
  p_hex :: bool
  p_line :: int
  p_serr :: string
  p_errors :: int
  p_elements :: "Element list"
  p_root :: "Element option"
  p_ns_maps :: "(string \<times> string) list list"
  p_user_ns_map :: "(string \<times> string) list"
  p_flags :: u32

type_synonym 'a xparse = "(unit, Parser, 'a) fuelled"

definition new_parser :: "u32 \<Rightarrow> Parser" where
  "new_parser flags = \<lparr> p_input = [], p_hex = False, p_line = 1, p_serr = [], p_errors = 0, p_elements = [],
     p_root = None, p_ns_maps = [], p_user_ns_map = [], p_flags = flags \<rparr>"

definition PARSER_OPTIMISE_CONTENT :: u32 where "PARSER_OPTIMISE_CONTENT = 1"
definition PARSER_PRESERVE_WHITESPACE :: u32 where "PARSER_PRESERVE_WHITESPACE = 2"
definition PARSER_FIX_NAMESPACES :: u32 where "PARSER_FIX_NAMESPACES = 4"
definition PARSER_BE_LENIENT :: u32 where "PARSER_BE_LENIENT = 8"

definition p_flag :: "u32 \<Rightarrow> Parser \<Rightarrow> bool" where
  "p_flag f p \<longleftrightarrow> p_flags p AND f \<noteq> 0"

text \<open>Whether there is a root: the outermost open element, or the whole document.\<close>

definition has_root :: "Parser \<Rightarrow> bool" where
  "has_root p \<longleftrightarrow> p_root p \<noteq> None \<or> p_elements p \<noteq> []"

fun assemble :: "Element list \<Rightarrow> Element option" where
  "assemble [] = None"
| "assemble [e] = Some e"
| "assemble (e # e' # es) = assemble (add_child e e' # es)"

definition get_root :: "Parser \<Rightarrow> Element option" where
  "get_root p = (case p_root p of Some e \<Rightarrow> Some e | None \<Rightarrow> assemble (p_elements p))"

definition detach_root :: "Parser \<Rightarrow> Element option \<times> Parser" where
  "detach_root p = (get_root p, p \<lparr> p_root := None, p_elements := [] \<rparr>)"

definition replace_root :: "Element \<Rightarrow> Parser \<Rightarrow> Parser" where
  "replace_root e p = p \<lparr> p_root := Some e, p_elements := [] \<rparr>"

definition fix_namespace :: "string \<Rightarrow> string \<Rightarrow> Parser \<Rightarrow> Parser" where
  "fix_namespace name prefix p =
     p \<lparr> p_user_ns_map := map_insert name prefix (p_user_ns_map p), p_flags := p_flags p OR PARSER_FIX_NAMESPACES \<rparr>"

section \<open>Errors\<close>

definition xml_log :: "string \<Rightarrow> string \<Rightarrow> Parser \<Rightarrow> Parser" where
  "xml_log kind s p =
     p \<lparr> p_errors := p_errors p + 1,
         p_serr := p_serr p @ kind @ s @ '' at line '' @ signed_text (p_line p) 0 @ xml_nl \<rparr>"

definition xml_error :: "string \<Rightarrow> unit xparse" where
  "xml_error s p = Some (Inr (), xml_log ''XML Error: '' s p)"

definition xml_fatal :: "string \<Rightarrow> 'a xparse" where
  "xml_fatal s p = Some (Inl (), xml_log ''XML Fatal Error: '' s p)"

section \<open>Reading characters\<close>

definition is_name_start :: "char \<Rightarrow> bool" where
  "is_name_start c \<longleftrightarrow> isalpha c \<or> isdigit c \<or> c = CHR '':'' \<or> c = CHR ''_''"

definition is_name_char :: "char \<Rightarrow> bool" where
  "is_name_char c \<longleftrightarrow> isalpha c \<or> isdigit c \<or> c = CHR '':'' \<or> c = CHR ''-'' \<or> c = CHR ''_'' \<or> c = CHR ''.''"

definition is_ascii_space :: "char \<Rightarrow> bool" where
  "is_ascii_space c \<longleftrightarrow> (of_char c :: nat) < 128 \<and> isspace c"

abbreviation xml_nul :: char where "xml_nul \<equiv> CHR 0x00"

text \<open>\<^verbatim>\<open>s.get(c)\<close>, which leaves \<open>c\<close> alone at the end, and \<^verbatim>\<open>s.unget()\<close> after it has read a character.\<close>

definition get_char :: "char \<Rightarrow> char xparse" where
  "get_char c p = Some (case p_input p of [] \<Rightarrow> (Inr c, p) | d # r \<Rightarrow> (Inr d, p \<lparr> p_input := r \<rparr>))"

definition unget_char :: "char \<Rightarrow> unit xparse" where
  "unget_char c p = Some (Inr (), p \<lparr> p_input := c # p_input p \<rparr>)"

definition count_line :: "char \<Rightarrow> unit xparse" where
  "count_line c p = Some (Inr (), if c = CHR 0x0A then p \<lparr> p_line := p_line p + 1 \<rparr> else p)"

fun skip_ws_loop :: "string \<Rightarrow> int \<Rightarrow> char \<times> string \<times> int" where
  "skip_ws_loop [] line = (xml_nul, [], line)"
| "skip_ws_loop (c # r) line =
     (if is_ascii_space c then skip_ws_loop r (if c = CHR 0x0A then line + 1 else line) else (c, r, line))"

definition xml_skip_ws :: "char \<Rightarrow> char xparse" where
  "xml_skip_ws c p =
     (case skip_ws_loop (p_input p) (if c = CHR 0x0A then p_line p + 1 else p_line p) of
        (d, r, line) \<Rightarrow> Some (Inr d, p \<lparr> p_input := r, p_line := line \<rparr>))"

text \<open>The name that starts with \<open>c\<close>, and the character after it.\<close>

definition read_rest_of_name :: "char \<Rightarrow> (string \<times> char) xparse" where
  "read_rest_of_name c p =
     (let r = dropWhile is_name_char (p_input p)
      in Some (Inr (c # takeWhile is_name_char (p_input p), if r = [] then xml_nul else hd r), p \<lparr> p_input := tl r \<rparr>))"

section \<open>Skipping what is not a tag\<close>

text \<open>Each loop tells whether it found its end, and gives the rest of the input and the line.\<close>

fun gt_loop :: "string \<Rightarrow> int \<Rightarrow> bool \<times> string \<times> int" where
  "gt_loop [] line = (False, [], line)"
| "gt_loop (c # r) line =
     (if c = CHR ''>'' then (True, r, line)
      else if c = CHR 0x0A then gt_loop r (line + 1)
      else if c = xml_nul then (False, r, line)
      else gt_loop r line)"

abbreviation newline_of :: "char \<Rightarrow> int" where
  "newline_of c \<equiv> (if c = CHR 0x0A then 1 else 0)"

fun comment_loop :: "string \<Rightarrow> int \<Rightarrow> bool \<times> string \<times> int" where
  "comment_loop [] line = (False, [], line)"
| "comment_loop (c # r) line =
     (if c = CHR ''-''
      then (case r of
              [] \<Rightarrow> (False, [], line)
            | d # r \<Rightarrow>
                if d = CHR ''-''
                then (case r of
                        [] \<Rightarrow> (False, [], line)
                      | e # r \<Rightarrow> if e = CHR ''>'' then (True, r, line) else comment_loop r (line + newline_of e))
                else comment_loop r (line + newline_of d))
      else if c = CHR 0x0A then comment_loop r (line + 1)
      else if c = xml_nul then (False, r, line)
      else comment_loop r line)"

fun pi_loop :: "string \<Rightarrow> int \<Rightarrow> bool \<times> string \<times> int" where
  "pi_loop [] line = (False, [], line)"
| "pi_loop (c # r) line =
     (if c = CHR ''?''
      then (case r of
              [] \<Rightarrow> (False, [], line)
            | d # r \<Rightarrow>
                if d = CHR ''>'' then (True, r, line)
                else if d = xml_nul then (False, r, line)
                else pi_loop r (line + newline_of d))
      else if c = xml_nul then (False, r, line)
      else pi_loop r line)"

definition skip_with :: "(string \<Rightarrow> int \<Rightarrow> bool \<times> string \<times> int) \<Rightarrow> string \<Rightarrow> unit xparse" where
  "skip_with loop msg p =
     (case loop (p_input p) (p_line p) of
        (ok, r, line) \<Rightarrow>
          (let p' = p \<lparr> p_input := r, p_line := line \<rparr>
           in if ok then Some (Inr (), p') else xml_fatal msg p'))"

definition skip_to_gt :: "unit xparse" where
  "skip_to_gt = skip_with gt_loop ''Unexpected end-of-file''"

definition xml_skip_comment :: "unit xparse" where
  "xml_skip_comment = skip_with comment_loop ''Unexpected end-of-file in comment''"

definition skip_pi :: "unit xparse" where
  "skip_pi = skip_with pi_loop ''Unexpected end-of-file in PI''"

section \<open>References\<close>

abbreviation asks :: "(Parser \<Rightarrow> 'a) \<Rightarrow> 'a xparse" where
  "asks f \<equiv> (\<lambda>p. Some (Inr (f p), p))"

text \<open>After a \<^verbatim>\<open>get\<close>, successful or not, \<^verbatim>\<open>unget\<close> leaves the input as it was before.\<close>

definition unget_to :: "string \<Rightarrow> unit xparse" where
  "unget_to s p = Some (Inr (), p \<lparr> p_input := s \<rparr>)"

text \<open>\<^verbatim>\<open>s >> n >> c\<close>, with \<open>c\<close> zero when either fails.\<close>

definition read_number :: "(int \<times> char) xparse" where
  "read_number p =
     (case extract_int (p_hex p) (p_input p) of
        (n, ok, rest) \<Rightarrow>
          if ok \<and> rest \<noteq> [] then Some (Inr (n, hd rest), p \<lparr> p_input := tl rest \<rparr>)
          else Some (Inr (n, xml_nul), p \<lparr> p_input := [] \<rparr>))"

definition set_hex :: "unit xparse" where
  "set_hex p = Some (Inr (), p \<lparr> p_hex := True \<rparr>)"

text \<open>The UTF-8 text the code makes of a code, for what it calls UCS2.\<close>

definition xml_utf8 :: "int \<Rightarrow> string" where
  "xml_utf8 n =
     (let w = (word_of_int n :: u32);
          last = char_of_byte (ucast (0x80 OR (w AND 0x3F)))
      in if n < 0x80 then [char_of_byte (ucast w)]
         else if n < 0x800 then [char_of_byte (ucast (0xC0 OR drop_bit 6 w)), last]
         else [char_of_byte (ucast (0xE0 OR drop_bit 12 w)), char_of_byte (ucast (0x80 OR (drop_bit 6 w AND 0x3F))), last])"

definition char_ref :: "string \<Rightarrow> string xparse" where
  "char_ref txt =
     fuel_bind (asks p_input) (\<lambda>s.
     fuel_bind (get_char CHR ''#'') (\<lambda>c.
     fuel_bind (if c = CHR ''x'' then set_hex else unget_to s) (\<lambda>_.
     fuel_bind read_number (\<lambda>(n, c).
       if c \<noteq> CHR '';'' then xml_fatal ''Malformed character reference''
       else fuel_return (txt @ xml_utf8 n)))))"

definition xml_entities :: "(string \<times> char) list" where
  "xml_entities = [(''lt'', CHR ''<''), (''gt'', CHR ''>''), (''amp'', CHR ''&''), (''apos'', CHR 0x27), (''quot'', CHR 0x22)]"

definition read_ref :: "string \<Rightarrow> string xparse" where
  "read_ref txt =
     fuel_bind (asks p_input) (\<lambda>s.
     fuel_bind (get_char xml_nul) (\<lambda>c.
       if c = CHR ''#'' then char_ref txt
       else if isalpha c
       then fuel_bind (read_rest_of_name c) (\<lambda>(ent, c).
              if c \<noteq> CHR '';'' then xml_fatal ''Malformed entity reference''
              else (case map_of xml_entities ent of
                      Some d \<Rightarrow> fuel_return (txt @ [d])
                    | None \<Rightarrow> xml_fatal ''Unrecognised entity name''))
       else fuel_bind (asks (p_flag PARSER_BE_LENIENT)) (\<lambda>lenient.
              if lenient then fuel_bind (unget_to s) (\<lambda>_. fuel_return (txt @ ''&''))
              else xml_fatal (''Weird reference - unescaped '' @ [CHR 0x27] @ ''&'' @ [CHR 0x27] @ ''?''))))"

section \<open>Name spaces\<close>

definition initial_processing :: "Element \<Rightarrow> Parser \<Rightarrow> Parser" where
  "initial_processing e p =
     (if p_flag PARSER_FIX_NAMESPACES p
      then p \<lparr> p_ns_maps :=
             foldl (\<lambda>m kv.
               let aname = fst kv in
               if take 5 aname = ''xmlns''
               then if length aname = 5 then map_insert [] (snd kv) m
                    else if aname ! 5 = CHR '':'' then map_insert (drop 6 aname) (snd kv) m
                    else m
               else m) (case p_ns_maps p of [] \<Rightarrow> [] | m # _ \<Rightarrow> m) (el_attrs e) # p_ns_maps p \<rparr>
      else p)"

definition substitute_name :: "(string \<times> string) list \<Rightarrow> (string \<times> string) list \<Rightarrow> bool \<Rightarrow> string \<Rightarrow> string" where
  "substitute_name topmap user_ns_map usedef name =
     (let colon = (CHR '':'' \<in> set name);
          prefix = (if colon then takeWhile (\<lambda>c. c \<noteq> CHR '':'') name else []);
          rest = (if colon then tl (dropWhile (\<lambda>c. c \<noteq> CHR '':'') name) else name)
      in if \<not> colon \<and> \<not> usedef then name
         else case map_of topmap prefix of
                None \<Rightarrow> name
              | Some nsname \<Rightarrow>
                  (case map_of user_ns_map nsname of
                     None \<Rightarrow> name
                   | Some newprefix \<Rightarrow> if newprefix = [] then rest else newprefix @ '':'' @ rest))"

definition final_processing :: "Element \<Rightarrow> Parser \<Rightarrow> Element \<times> Parser" where
  "final_processing e p =
     (let e = (if p_flag PARSER_OPTIMISE_CONTENT p then optimise e else e)
      in if p_flag PARSER_FIX_NAMESPACES p \<and> p_ns_maps p \<noteq> []
         then let subst = substitute_name (hd (p_ns_maps p)) (p_user_ns_map p)
              in (Element (subst True (el_name e)) (el_content e)
                    (foldl (\<lambda>m kv. map_insert (subst False (fst kv)) (snd kv) m) [] (el_attrs e))
                    (el_children e) (el_line e),
                  p \<lparr> p_ns_maps := tl (p_ns_maps p) \<rparr>)
         else (e, p))"

section \<open>Tags\<close>

text \<open>A finished element becomes the last child of the innermost open one, or the root.\<close>

definition attach :: "Element \<Rightarrow> Parser \<Rightarrow> Parser" where
  "attach e p =
     (case p_elements p of
        parent # es \<Rightarrow> p \<lparr> p_elements := add_child e parent # es \<rparr>
      | [] \<Rightarrow> (case p_root p of None \<Rightarrow> p \<lparr> p_root := Some e \<rparr> | Some _ \<Rightarrow> p))"

definition finish_element :: "Element \<Rightarrow> Parser \<Rightarrow> Parser" where
  "finish_element e p = (case final_processing e p of (e, p) \<Rightarrow> attach e p)"

primrec read_attr_value :: "nat \<Rightarrow> char \<Rightarrow> string \<Rightarrow> string xparse" where
  "read_attr_value 0 quote aval = (\<lambda>p. None)"
| "read_attr_value (Suc fuel) quote aval =
     fuel_bind (get_char xml_nul) (\<lambda>c.
       if c = xml_nul then xml_fatal ''Document ended in attribute value''
       else if c = quote then fuel_return aval
       else if c = CHR ''&'' then fuel_bind (read_ref aval) (read_attr_value fuel quote)
       else read_attr_value fuel quote (aval @ [c]))"

text \<open>One attribute, from the first character of its name, and the character after its value.\<close>

definition read_attr :: "nat \<Rightarrow> (string \<times> string) list \<Rightarrow> char \<Rightarrow> ((string \<times> string) list \<times> char) xparse" where
  "read_attr fuel attrs c =
     fuel_bind (read_rest_of_name c) (\<lambda>(aname, c).
       if map_of attrs aname \<noteq> None then xml_fatal ''Duplicate attribute name''
       else fuel_bind (if is_ascii_space c then xml_skip_ws c else fuel_return c) (\<lambda>c.
       if c \<noteq> CHR ''='' then xml_fatal ''No = given for attribute''
       else fuel_bind (xml_skip_ws xml_nul) (\<lambda>quote.
       if quote \<noteq> CHR 0x22 \<and> quote \<noteq> CHR 0x27 then xml_fatal ''Attribute value not quoted''
       else fuel_bind (read_attr_value fuel quote []) (\<lambda>aval.
            fuel_bind (get_char xml_nul) (\<lambda>c. fuel_return (map_insert aname aval attrs, c))))))"

text \<open>The attributes, and whether the tag closes as empty.\<close>

primrec read_attrs :: "nat \<Rightarrow> (string \<times> string) list \<Rightarrow> char \<Rightarrow> ((string \<times> string) list \<times> bool) xparse" where
  "read_attrs 0 attrs c = (\<lambda>p. None)"
| "read_attrs (Suc fuel) attrs c =
     (if \<not> is_ascii_space c \<and> c \<noteq> CHR ''/'' \<and> c \<noteq> CHR ''>'' then xml_fatal ''Illegal start tag''
      else fuel_bind (if c \<noteq> CHR ''/'' \<and> c \<noteq> CHR ''>'' then xml_skip_ws c else fuel_return c) (\<lambda>c.
        if c = CHR ''/''
        then fuel_bind (get_char c) (\<lambda>c.
               if c \<noteq> CHR ''>'' then xml_fatal ''Illegal empty close'' else fuel_return (attrs, True))
        else if c = CHR ''>'' then fuel_return (attrs, False)
        else if \<not> is_name_start c then xml_fatal ''Illegal attribute name''
        else fuel_bind (read_attr fuel attrs c) (\<lambda>(attrs, c). read_attrs fuel attrs c)))"

definition open_element :: "Element \<Rightarrow> bool \<Rightarrow> Parser \<Rightarrow> Parser" where
  "open_element e is_empty p =
     (let p = initial_processing e p
      in if is_empty then finish_element e p else p \<lparr> p_elements := e # p_elements p \<rparr>)"

definition read_tag :: "nat \<Rightarrow> char \<Rightarrow> bool xparse" where
  "read_tag fuel c =
     fuel_bind (read_rest_of_name c) (\<lambda>(name, c).
     fuel_bind (asks p_line) (\<lambda>line.
     fuel_bind (read_attrs fuel [] c) (\<lambda>(attrs, is_empty) p.
       Some (Inr is_empty, open_element (Element name [] attrs [] line) is_empty p))))"

definition close_element :: "string \<Rightarrow> unit xparse" where
  "close_element name p =
     (case p_elements p of
        e # es \<Rightarrow>
          if name = el_name e then Some (Inr (), finish_element e (p \<lparr> p_elements := es \<rparr>))
          else xml_fatal (''Mis-nested tags - expected </'' @ el_name e @ ''>, opened at line '' @
                 signed_text (el_line e) 0 @ '', but got </'' @ name @ ''>'') p
      | [] \<Rightarrow> xml_error ''End-tag found but no elements open'' p)"

definition read_end_tag :: "char \<Rightarrow> unit xparse" where
  "read_end_tag c =
     fuel_bind (read_rest_of_name c) (\<lambda>(name, c).
     fuel_bind (if is_ascii_space c then xml_skip_ws c else fuel_return c) (\<lambda>c.
       if c \<noteq> CHR ''>'' then fuel_throw () else close_element name))"

section \<open>Content\<close>

text \<open>The white space rule for the character \<open>c\<close>: the next character, the content and whether it is still the first.\<close>

definition squash_space :: "char \<Rightarrow> bool \<Rightarrow> string \<Rightarrow> (char \<times> bool \<times> string) xparse" where
  "squash_space c first content =
     fuel_bind (asks (p_flag PARSER_PRESERVE_WHITESPACE)) (\<lambda>preserve.
       if \<not> preserve \<and> is_ascii_space c
       then fuel_bind (xml_skip_ws c) (\<lambda>c. fuel_return (c, False, if c \<noteq> CHR ''<'' then content @ '' '' else content))
       else fuel_return (c, first, content))"

definition content_char :: "char \<Rightarrow> string \<Rightarrow> string xparse" where
  "content_char c content =
     (if c = CHR ''&'' then read_ref content
      else if c = xml_nul then xml_fatal ''Unexpected end of stream''
      else fuel_bind (count_line c) (\<lambda>_. fuel_return (content @ [c])))"

primrec content_loop :: "nat \<Rightarrow> char \<Rightarrow> bool \<Rightarrow> string \<Rightarrow> string xparse" where
  "content_loop 0 c first content = (\<lambda>p. None)"
| "content_loop (Suc fuel) c first content =
     fuel_bind (squash_space c first content) (\<lambda>(c, first, content).
       if c = CHR ''<'' \<and> \<not> first then fuel_bind (unget_char c) (\<lambda>_. fuel_return content)
       else fuel_bind (content_char c content) (\<lambda>content.
            fuel_bind (get_char xml_nul) (\<lambda>c. content_loop fuel c False content)))"

definition add_content :: "bool \<Rightarrow> string \<Rightarrow> Element \<Rightarrow> Element" where
  "add_content preserve content e =
     (if el_children e \<noteq> [] \<and> el_name (last (el_children e)) = []
      then let d = last (el_children e)
           in with_children (butlast (el_children e) @
                [Element [] (el_content d @ (if preserve then [] else '' '') @ content) (el_attrs d) (el_children d) (el_line d)]) e
      else add_child (new_element [] content []) e)"

definition read_content :: "nat \<Rightarrow> char \<Rightarrow> unit xparse" where
  "read_content fuel c =
     fuel_bind (content_loop fuel c True []) (\<lambda>content p.
       Some (Inr (), case p_elements p of
                       e # es \<Rightarrow> p \<lparr> p_elements := add_content (p_flag PARSER_PRESERVE_WHITESPACE p) content e # es \<rparr>
                     | [] \<Rightarrow> p))"

section \<open>Documents\<close>

abbreviation and_go_on :: "unit xparse \<Rightarrow> bool xparse" where
  "and_go_on m \<equiv> fuel_bind m (\<lambda>_. fuel_return False)"

definition read_declaration :: "unit xparse" where
  "read_declaration =
     fuel_bind (get_char CHR ''!'') (\<lambda>c.
       if c = CHR ''-''
       then fuel_bind (get_char c) (\<lambda>c.
              if c = CHR ''-'' then xml_skip_comment
              else fuel_bind (xml_error ''Weird comment'') (\<lambda>_. skip_to_gt))
       else skip_to_gt)"

text \<open>What follows \<^verbatim>\<open><\<close>, and whether the document ends with it.\<close>

definition read_markup :: "nat \<Rightarrow> bool xparse" where
  "read_markup fuel =
     fuel_bind (asks p_input) (\<lambda>s.
     fuel_bind (get_char CHR ''<'') (\<lambda>c.
       if c = CHR ''!'' then and_go_on read_declaration
       else if c = CHR ''?'' then and_go_on skip_pi
       else if c = CHR ''/''
       then fuel_bind (get_char c) (\<lambda>c.
              if is_name_start c then fuel_bind (read_end_tag c) (\<lambda>_. asks (\<lambda>p. p_elements p = []))
              else xml_fatal ''Illegal end tag'')
       else if is_name_start c
       then fuel_bind (read_tag fuel c) (\<lambda>is_empty. asks (\<lambda>p. is_empty \<and> p_elements p = []))
       else fuel_bind (asks (p_flag PARSER_BE_LENIENT)) (\<lambda>lenient.
              if lenient then fuel_bind (unget_to s) (\<lambda>_. and_go_on (read_content fuel CHR ''<''))
              else xml_fatal ''Illegal tag'')))"

definition parse_step :: "nat \<Rightarrow> bool xparse" where
  "parse_step fuel =
     fuel_bind (asks (\<lambda>p. has_root p \<and> p_flag PARSER_PRESERVE_WHITESPACE p)) (\<lambda>raw.
     fuel_bind (if raw then get_char xml_nul else xml_skip_ws xml_nul) (\<lambda>c.
     fuel_bind (asks has_root) (\<lambda>rooted.
       if c = xml_nul
       then xml_fatal (if rooted then ''Input stream failed unexpectedly'' else ''Empty or unreadable document'')
       else if c = CHR ''<'' then read_markup fuel
       else if rooted then and_go_on (read_content fuel c)
       else xml_fatal ''Non-tag data at start of document'')))"

primrec parse_loop :: "nat \<Rightarrow> unit xparse" where
  "parse_loop 0 = (\<lambda>p. None)"
| "parse_loop (Suc fuel) =
     fuel_bind (parse_step fuel) (\<lambda>finished. if finished then fuel_return () else parse_loop fuel)"

definition skip_bom :: "string \<Rightarrow> string" where
  "skip_bom s =
     (case s of
        c # r \<Rightarrow>
          if c \<noteq> CHR 0xEF then s
          else (case r of
                  d # r' \<Rightarrow>
                    if d \<noteq> CHR 0xBB then r
                    else (case r' of e # r'' \<Rightarrow> if e \<noteq> CHR 0xBF then r' else r'' | [] \<Rightarrow> [])
                | [] \<Rightarrow> [])
      | [] \<Rightarrow> [])"

definition parse_stream :: "nat \<Rightarrow> unit xparse" where
  "parse_stream fuel p =
     parse_loop fuel (p \<lparr> p_elements := [], p_ns_maps := [], p_root := None, p_input := skip_bom (p_input p) \<rparr>)"

definition read_from :: "nat \<Rightarrow> string \<Rightarrow> unit xparse" where
  "read_from fuel s p = parse_stream fuel (p \<lparr> p_input := s, p_hex := False \<rparr>)"

section \<open>Adding and merging text\<close>

definition add_xml :: "nat \<Rightarrow> string \<Rightarrow> u32 \<Rightarrow> Element \<Rightarrow> (Element option \<times> Element) option" where
  "add_xml fuel xml parse_flags e =
     map_option (\<lambda>(res, p).
       case (res, get_root p) of
         (Inr _, Some root) \<Rightarrow> (Some root, add_child root e)
       | _ \<Rightarrow> (None, e)) (read_from fuel xml (new_parser parse_flags))"

definition merge_xml :: "nat \<Rightarrow> string \<Rightarrow> u32 \<Rightarrow> Element \<Rightarrow> (bool \<times> Element) option" where
  "merge_xml fuel xml parse_flags e =
     map_option (\<lambda>(res, p).
       case res of
         Inr _ \<Rightarrow>
           (let root = (case get_root p of Some r \<Rightarrow> r | None \<Rightarrow> new_element ''!NONE!'' [] [])
            in if el_name root = el_name e then (True, merge_element root e) else (False, e))
       | Inl _ \<Rightarrow> (False, e)) (read_from fuel xml (new_parser parse_flags))"

section \<open>Evaluation on concrete text\<close>

lemma fuel_bind_weak: "m = m' \<Longrightarrow> fuel_bind m f = fuel_bind m' f"
  by simp

lemma loops_numeral:
  "parse_loop (numeral k) = fuel_bind (parse_step (pred_numeral k)) (\<lambda>finished. if finished then fuel_return () else parse_loop (pred_numeral k))"
  "content_loop (numeral k) c first content =
     fuel_bind (squash_space c first content) (\<lambda>(c, first, content).
       if c = CHR ''<'' \<and> \<not> first then fuel_bind (unget_char c) (\<lambda>_. fuel_return content)
       else fuel_bind (content_char c content) (\<lambda>content.
            fuel_bind (get_char xml_nul) (\<lambda>c. content_loop (pred_numeral k) c False content)))"
  "read_attr_value (numeral k) quote aval =
     fuel_bind (get_char xml_nul) (\<lambda>c.
       if c = xml_nul then xml_fatal ''Document ended in attribute value''
       else if c = quote then fuel_return aval
       else if c = CHR ''&'' then fuel_bind (read_ref aval) (read_attr_value (pred_numeral k) quote)
       else read_attr_value (pred_numeral k) quote (aval @ [c]))"
  "read_attrs (numeral k) attrs c =
     (if \<not> is_ascii_space c \<and> c \<noteq> CHR ''/'' \<and> c \<noteq> CHR ''>'' then xml_fatal ''Illegal start tag''
      else fuel_bind (if c \<noteq> CHR ''/'' \<and> c \<noteq> CHR ''>'' then xml_skip_ws c else fuel_return c) (\<lambda>c.
        if c = CHR ''/''
        then fuel_bind (get_char c) (\<lambda>c.
               if c \<noteq> CHR ''>'' then xml_fatal ''Illegal empty close'' else fuel_return (attrs, True))
        else if c = CHR ''>'' then fuel_return (attrs, False)
        else if \<not> is_name_start c then xml_fatal ''Illegal attribute name''
        else fuel_bind (read_attr (pred_numeral k) attrs c) (\<lambda>(attrs, c). read_attrs (pred_numeral k) attrs c)))"
  by (simp_all add: numeral_eq_Suc)

lemmas xml_eval = loops_numeral fuel_bind_def fuel_return_def fuel_throw_def read_from_def parse_stream_def skip_bom_def parse_step_def read_markup_def
  read_tag_def read_attr_def read_rest_of_name_def get_char_def xml_skip_ws_def is_name_char_def is_name_start_def is_ascii_space_def isspace_def
  isalpha_def isdigit_def char_between_ascii open_element_def initial_processing_def p_flag_def finish_element_def final_processing_def attach_def
  read_end_tag_def close_element_def read_content_def squash_space_def content_char_def unget_char_def count_line_def add_content_def add_child_def
  with_children_def optimise_def new_element_def has_root_def PARSER_FIX_NAMESPACES_def PARSER_OPTIMISE_CONTENT_def PARSER_PRESERVE_WHITESPACE_def
  PARSER_BE_LENIENT_def new_parser_def

end
