(* ===== verification/Xml_Termination.thy ===== *)
theory Xml_Termination
  imports Xml_Parser
begin

text \<open>
  Termination of the XML parser: every loop reads on. The weight of a state is the length of the text not yet read,
  and the character in hand while content is read.
\<close>

section \<open>Termination\<close>

abbreviation any_p :: "Parser \<Rightarrow> bool" where "any_p \<equiv> \<lambda>_. True"

definition p_weight :: "Parser \<Rightarrow> nat" where
  "p_weight p = length (p_input p)"

abbreviation xends :: "nat \<Rightarrow> 'a xparse \<Rightarrow> bool" where
  "xends n m \<equiv> returns any_p p_weight n 0 m"

lemma xends_weaken: "xends n m \<Longrightarrow> n' \<le> n \<Longrightarrow> xends n' m"
  by (rule returns_mono) simp_all

lemma xends_bind: "xends n m \<Longrightarrow> (\<And>a. xends n (f a)) \<Longrightarrow> xends n (fuel_bind m f)"
  using returns_bind [of any_p p_weight n 0 m 0 f] by simp

lemma xends_bind_after: "returns any_p p_weight n k m \<Longrightarrow> (\<And>a. xends n (f a)) \<Longrightarrow> returns any_p p_weight n k (fuel_bind m f)"
  using returns_bind [of any_p p_weight n k m 0 f] xends_weaken [of n _ "n - k"] by auto

text \<open>Steps that neither fail nor read more than once.\<close>

lemma xends_step:
  assumes "\<And>p. \<exists>a p'. m p = Some (Inr a, p') \<and> p_weight p' \<le> p_weight p"
  shows "xends n m"
  using assms unfolding returns_def advanced_def by (metis add.right_neutral fst_conv snd_conv)

lemma xends_simple:
  "xends n (fuel_return a)" "returns any_p p_weight n k (xml_fatal s)" "xends n (xml_error s)" "xends n (asks f)" "xends n set_hex"
  "xends n (read_rest_of_name c)" "xends n (count_line c)" "xends n (xml_skip_ws c)" "xends n (get_char c)" "xends n read_number"
  "returns any_p p_weight n k (fuel_throw ())"
proof -
  have loop: "length (fst (snd (skip_ws_loop s l))) \<le> length s" for s l
    by (induction s l rule: skip_ws_loop.induct) auto
  show "xends n (xml_skip_ws c)"
    by (intro xends_step) (use loop in \<open>auto simp: xml_skip_ws_def p_weight_def split: prod.split; metis fst_conv snd_conv\<close>)
  show "returns any_p p_weight n k (xml_fatal s)"
    by (simp add: returns_def xml_fatal_def xml_log_def advanced_def p_weight_def)
  show "xends n (read_rest_of_name c)"
    by (intro xends_step) (auto simp: read_rest_of_name_def p_weight_def Let_def intro: order_trans [OF diff_le_self length_dropWhile_le])
  have dig: "length (snd (snd (extract_int h s))) \<le> length s" for h s
  proof -
    have pre: "length (scan_prefix b s) \<le> length s" for b s by (auto simp: scan_prefix_def split: list.splits)
    have "length (dropWhile P (scan_prefix b (tl s))) \<le> length s" "length (dropWhile P (scan_prefix b s)) \<le> length s" for P b
      using pre [of b "tl s"] pre [of b s] length_dropWhile_le [of P "scan_prefix b (tl s)"] length_dropWhile_le [of P "scan_prefix b s"] by auto
    moreover have "scan_prefix b [] = []" for b by (simp add: scan_prefix_def)
    ultimately show ?thesis by (auto simp: extract_int_def Let_def)
  qed
  show "xends n read_number"
    by (intro xends_step) (use dig in \<open>auto simp: read_number_def p_weight_def split: prod.split; metis snd_conv diff_le_self order_trans\<close>)
qed (auto intro!: xends_step returns_return returns_throw simp: xml_error_def xml_log_def set_hex_def count_line_def get_char_def
    p_weight_def split: list.split)

lemma returns_if:
  "(P \<Longrightarrow> returns ok wt n k m) \<Longrightarrow> (\<not> P \<Longrightarrow> returns ok wt n k m') \<Longrightarrow> returns ok wt n k (if P then m else m')"
  by simp

lemma returns_prod: "(\<And>a b. returns ok wt n k (f a b)) \<Longrightarrow> returns ok wt n k (case x of (a, b) \<Rightarrow> f a b)"
  by (cases x) simp

lemma returns_then: "xends n m \<Longrightarrow> (\<And>a. returns any_p p_weight n k (f a)) \<Longrightarrow> returns any_p p_weight n k (fuel_bind m f)"
  using returns_bind [of any_p p_weight n 0 m k f] by simp

lemmas xends_rules = returns_if returns_prod xends_simple

text \<open>After a character has been read there is less left.\<close>

lemma returns_get:
  assumes "\<And>c. 0 < n \<Longrightarrow> xends (n - 1) (f c)" "returns any_p p_weight n k (f c0)" "k \<le> 1"
  shows "returns any_p p_weight n k (fuel_bind (get_char c0) f)"
  unfolding returns_def
proof (intro allI impI)
  fix p assume p: "True \<and> p_weight p \<le> n"
  show "\<exists>r. fuel_bind (get_char c0) f p = Some r \<and> advanced any_p p_weight k p r"
  proof (cases "p_input p")
    case Nil
    with p assms(2) show ?thesis by (auto simp: returns_def fuel_bind_def get_char_def)
  next
    case (Cons d r)
    then have "0 < n" "p_weight (p \<lparr> p_input := r \<rparr>) \<le> n - 1" "p_weight p = Suc (p_weight (p \<lparr> p_input := r \<rparr>))"
      using p by (auto simp: p_weight_def)
    with assms(1) [of d] obtain q where "f d (p \<lparr> p_input := r \<rparr>) = Some q" "advanced any_p p_weight 0 (p \<lparr> p_input := r \<rparr>) q"
      by (auto simp: returns_def)
    with Cons \<open>p_weight p = _\<close> assms(3) show ?thesis by (auto simp: fuel_bind_def get_char_def advanced_def)
  qed
qed

lemma skip_ws_loop_result:
  "skip_ws_loop s l = (c, r, l') \<Longrightarrow> (s = takeWhile is_ascii_space s @ c # r \<and> \<not> is_ascii_space c) \<or> (c = xml_nul \<and> r = [] \<and> (\<forall>c\<in>set s. is_ascii_space c))"
  by (induction s l rule: skip_ws_loop.induct) (auto split: if_splits)

lemma returns_skip:
  assumes "\<And>c. 0 < n \<Longrightarrow> xends (n - 1) (f c)" "returns any_p p_weight n k (f xml_nul)" "k \<le> 1"
  shows "returns any_p p_weight n k (fuel_bind (xml_skip_ws c0) f)"
  unfolding returns_def
proof (intro allI impI)
  fix p assume p: "True \<and> p_weight p \<le> n"
  obtain c r l where s: "skip_ws_loop (p_input p) (if c0 = CHR 0x0A then p_line p + 1 else p_line p) = (c, r, l)" by (metis surj_pair)
  let ?p = "p \<lparr> p_input := r, p_line := l \<rparr>"
  have eq: "fuel_bind (xml_skip_ws c0) f p = f c ?p" using s by (simp add: fuel_bind_def xml_skip_ws_def)
  from skip_ws_loop_result [OF s]
  show "\<exists>q. fuel_bind (xml_skip_ws c0) f p = Some q \<and> advanced any_p p_weight k p q"
  proof
    assume "c = xml_nul \<and> r = [] \<and> (\<forall>c\<in>set (p_input p). is_ascii_space c)"
    then have c: "c = xml_nul" "p_weight ?p = 0" by (simp_all add: p_weight_def)
    with assms(2) obtain q where "f c ?p = Some q" "advanced any_p p_weight k ?p q"
      unfolding returns_def by (metis le0)
    with c(2) eq show ?thesis by (auto simp: advanced_def)
  next
    assume "p_input p = takeWhile is_ascii_space (p_input p) @ c # r \<and> \<not> is_ascii_space c"
    then have "length (p_input p) = length (takeWhile is_ascii_space (p_input p) @ c # r)" by metis
    then have w: "p_weight ?p + 1 \<le> p_weight p" by (simp add: p_weight_def)
    with p have "0 < n" "p_weight ?p \<le> n - 1" by auto
    with assms(1) [of c] obtain q where "f c ?p = Some q" "advanced any_p p_weight 0 ?p q" by (auto simp: returns_def)
    with w eq assms(3) show ?thesis by (auto simp: advanced_def)
  qed
qed

text \<open>Reading is undone by \<^verbatim>\<open>unget\<close>: what such a step does, seen from the state before it.\<close>

lemma xends_after:
  assumes "\<And>p. m p = m' (g p)" "\<And>p. p_weight (g p) \<le> p_weight p" "xends n m'"
  shows "xends n m"
  unfolding returns_def
proof (intro allI impI)
  fix p assume "True \<and> p_weight p \<le> n"
  with assms(2) [of p] assms(3) obtain q where "m' (g p) = Some q" "advanced any_p p_weight 0 (g p) q"
    by (auto simp: returns_def dest: order_trans)
  with assms(1,2) [of p] show "\<exists>q. m p = Some q \<and> advanced any_p p_weight 0 p q" by (auto simp: advanced_def)
qed

lemma unget_same: "unget_to (p_input p) p = Some (Inr (), p)"
  by (simp add: unget_to_def)

lemma input_same: "p_input p = s \<Longrightarrow> p \<lparr> p_input := s \<rparr> = p"
  by (cases p) simp

lemma xends_char_ref: "xends n (char_ref txt)"
proof (rule xends_after)
  let ?K = "\<lambda>(n :: int, c). if c \<noteq> CHR '';'' then xml_fatal ''Malformed character reference'' else fuel_return (txt @ xml_utf8 n)"
  let ?g = "\<lambda>p. case p_input p of c # r \<Rightarrow> if c = CHR ''x'' then p \<lparr> p_input := r, p_hex := True \<rparr> else p | [] \<Rightarrow> p"
  show "char_ref txt p = fuel_bind read_number ?K (?g p)" for p
    by (cases "p_input p") (auto simp: char_ref_def fuel_bind_def [of "asks p_input"] fuel_bind_def [of "get_char _"] fuel_bind_def [of set_hex]
      fuel_bind_def [of "unget_to _"] get_char_def unget_to_def set_hex_def input_same)
  show "p_weight (?g p) \<le> p_weight p" for p by (auto simp: p_weight_def split: list.split)
  show "xends n (fuel_bind read_number ?K)" by (intro xends_bind) (auto intro: xends_simple)
qed

definition entity_ref :: "string \<Rightarrow> char \<Rightarrow> string xparse" where
  "entity_ref txt c =
     fuel_bind (read_rest_of_name c) (\<lambda>(ent, c).
       if c \<noteq> CHR '';'' then xml_fatal ''Malformed entity reference''
       else (case map_of xml_entities ent of
               Some d \<Rightarrow> fuel_return (txt @ [d])
             | None \<Rightarrow> xml_fatal ''Unrecognised entity name''))"

definition peeked :: "Parser \<Rightarrow> char" where
  "peeked p = (case p_input p of [] \<Rightarrow> xml_nul | c # r \<Rightarrow> c)"

definition advance_input :: "Parser \<Rightarrow> Parser" where
  "advance_input p = p \<lparr> p_input := tl (p_input p) \<rparr>"

lemma read_ref_eq:
  "read_ref txt p =
     (if peeked p = CHR ''#'' then char_ref txt (advance_input p)
      else if isalpha (peeked p) then entity_ref txt (peeked p) (advance_input p)
      else if p_flag PARSER_BE_LENIENT p then Some (Inr (txt @ ''&''), p)
      else xml_fatal (''Weird reference - unescaped '' @ [CHR 0x27] @ ''&'' @ [CHR 0x27] @ ''?'') (advance_input p))"
  by (cases "p_input p")
    (simp_all add: read_ref_def entity_ref_def peeked_def advance_input_def fuel_bind_def [of "asks _"] fuel_bind_def [of "get_char _"]
      fuel_bind_def [of "unget_to _"] get_char_def unget_to_def fuel_return_def p_flag_def input_same)

lemma xends_read_ref: "xends n (read_ref txt)"
proof -
  have ent: "xends n (entity_ref txt c)" for c
    unfolding entity_ref_def by (intro xends_bind) (auto intro: xends_simple split: prod.split option.split)
  have adv: "p_weight (advance_input p) \<le> p_weight p" for p by (simp add: p_weight_def advance_input_def)
  have sub: "\<exists>q. m (advance_input p) = Some q \<and> advanced any_p p_weight 0 p q" if "xends n m" "p_weight p \<le> n" for p and m :: "string xparse"
    using that adv [of p] unfolding returns_def advanced_def by (metis le_trans add.right_neutral)
  show ?thesis
    unfolding returns_def read_ref_eq
    using sub [OF ent] sub [OF xends_char_ref] sub [OF xends_simple(2)]
    by (auto simp: advanced_def)
qed

lemma xends_attr_value: "n < fuel \<Longrightarrow> xends n (read_attr_value fuel quote aval)"
proof (induction fuel arbitrary: n aval)
  case (Suc fuel)
  then show ?case
    unfolding read_attr_value.simps
    by (intro returns_get) (auto intro!: xends_simple xends_bind [OF xends_read_ref])
qed simp

lemma xends_if_skip: "xends n (if b then xml_skip_ws c else fuel_return c)"
  by (simp add: xends_simple)

lemma returns_attr:
  assumes "n \<le> fuel"
  shows "returns any_p p_weight n 1 (read_attr fuel attrs c)"
proof -
  have val: "returns any_p p_weight n 1 (fuel_bind (xml_skip_ws xml_nul) (\<lambda>quote.
       if quote \<noteq> CHR 0x22 \<and> quote \<noteq> CHR 0x27 then xml_fatal ''Attribute value not quoted''
       else fuel_bind (read_attr_value fuel quote []) (\<lambda>aval.
            fuel_bind (get_char xml_nul) (\<lambda>c. fuel_return (map_insert name aval attrs, c)))))" for name
    using assms by (intro returns_skip xends_bind xends_rules xends_attr_value) (simp_all add: xends_rules)
  show ?thesis unfolding read_attr_def by (intro val returns_then xends_rules)
qed

lemma xends_attrs: "n < fuel \<Longrightarrow> xends n (read_attrs fuel attrs c)"
proof (induction fuel arbitrary: n attrs c)
  case (Suc fuel)
  have rest: "xends n (fuel_bind (read_attr fuel attrs c) (\<lambda>(attrs, c). read_attrs fuel attrs c))" for c
    using Suc by (intro returns_progress returns_attr) auto
  show ?case
    unfolding read_attrs.simps by (intro xends_bind xends_rules rest)
qed simp

lemma xends_close: "xends n (close_element name)"
proof -
  have "p_input (finish_element e p) = p_input p" for e p
    by (auto simp: finish_element_def final_processing_def attach_def Let_def split: prod.split list.split option.split)
  then show ?thesis
    by (auto simp: returns_def close_element_def xml_fatal_def xml_error_def xml_log_def advanced_def p_weight_def split: list.split)
qed

lemma xends_tag: "n < fuel \<Longrightarrow> xends n (read_tag fuel c)"
proof -
  have "p_input (open_element e b p) = p_input p" for e b p
    by (auto simp: open_element_def initial_processing_def finish_element_def final_processing_def attach_def Let_def
      split: prod.split list.split option.split)
  then have op: "xends n (\<lambda>p. Some (Inr b, open_element e b p))" for e b
    by (intro xends_step) (simp add: p_weight_def)
  show "n < fuel \<Longrightarrow> ?thesis"
    unfolding read_tag_def by (intro xends_bind xends_rules xends_attrs op)
qed

lemma xends_end_tag: "xends n (read_end_tag c)"
  unfolding read_end_tag_def by (intro xends_bind xends_rules xends_close)

lemma xends_content_char: "xends n (content_char c content)"
  unfolding content_char_def by (intro xends_bind xends_rules xends_read_ref)

lemma xends_squash: "xends n (squash_space c first content)"
  unfolding squash_space_def by (intro xends_bind xends_rules)

lemma xends_skip_with:
  assumes "\<And>s l. length (fst (snd (loop s l))) \<le> length s"
  shows "xends n (skip_with loop msg)"
  unfolding returns_def
proof (intro allI impI)
  fix p :: Parser
  obtain ok r line where l: "loop (p_input p) (p_line p) = (ok, r, line)" by (metis surj_pair)
  with assms [of "p_input p" "p_line p"] show "\<exists>q. skip_with loop msg p = Some q \<and> advanced any_p p_weight 0 p q"
    by (simp add: skip_with_def advanced_def p_weight_def xml_fatal_def xml_log_def Let_def)
qed

lemma xends_skips: "xends n skip_to_gt" "xends n xml_skip_comment" "xends n skip_pi"
proof -
  have "length (fst (snd (gt_loop s l))) \<le> length s" for s l by (induction s l rule: gt_loop.induct) (simp_all add: le_SucI)
  then show "xends n skip_to_gt" unfolding skip_to_gt_def by (rule xends_skip_with)
  have "length (fst (snd (comment_loop s l))) \<le> length s" for s l
    by (induction s l rule: comment_loop.induct) (simp_all add: le_SucI split: list.split)
  then show "xends n xml_skip_comment" unfolding xml_skip_comment_def by (rule xends_skip_with)
  have "length (fst (snd (pi_loop s l))) \<le> length s" for s l
    by (induction s l rule: pi_loop.induct) (simp_all add: le_SucI split: list.split)
  then show "xends n skip_pi" unfolding skip_pi_def by (rule xends_skip_with)
qed

text \<open>The character in hand counts while content is read, since it may be put back.\<close>

abbreviation in_hand :: "char \<Rightarrow> nat" where
  "in_hand c \<equiv> (if c = xml_nul then 0 else 1)"

lemma get_in_hand: "\<exists>d p'. get_char xml_nul p = Some (Inr d, p') \<and> p_weight p' + in_hand d \<le> p_weight p"
  by (auto simp: get_char_def p_weight_def split: list.split)

lemma skip_ws_in_hand: "\<exists>d p'. xml_skip_ws c p = Some (Inr d, p') \<and> p_weight p' + in_hand d \<le> p_weight p"
proof -
  obtain d r l where s: "skip_ws_loop (p_input p) (if c = CHR 0x0A then p_line p + 1 else p_line p) = (d, r, l)" by (metis surj_pair)
  from skip_ws_loop_result [OF s] have "length r + in_hand d \<le> length (p_input p)"
  proof
    assume "p_input p = takeWhile is_ascii_space (p_input p) @ d # r \<and> \<not> is_ascii_space d"
    then have "length (p_input p) = length (takeWhile is_ascii_space (p_input p) @ d # r)" by metis
    then show ?thesis by simp
  qed simp
  with s show ?thesis by (simp add: xml_skip_ws_def p_weight_def)
qed

lemma squash_cases:
  obtains c' first' content' p' where "squash_space c first content p = Some (Inr (c', first', content'), p')"
    "c' = c \<and> first' = first \<and> p' = p \<or> is_ascii_space c \<and> p_weight p' + in_hand c' \<le> p_weight p"
proof -
  obtain d p1 where "xml_skip_ws c p = Some (Inr d, p1)" "p_weight p1 + in_hand d \<le> p_weight p"
    using skip_ws_in_hand by blast
  then show thesis
    by (cases "p_flag PARSER_PRESERVE_WHITESPACE p \<or> \<not> is_ascii_space c")
      (auto intro!: that simp: squash_space_def fuel_bind_def fuel_return_def)
qed

lemma content_loop_ends:
  "p_weight p + in_hand c < fuel \<Longrightarrow>
   \<exists>res p'. content_loop fuel c first content p = Some (res, p')
     \<and> p_weight p' \<le> p_weight p + (if c = CHR ''<'' \<and> \<not> first then 1 else 0)"
proof (induction fuel arbitrary: c first content p)
  case (Suc fuel)
  obtain c1 first1 content1 p1 where s: "squash_space c first content p = Some (Inr (c1, first1, content1), p1)"
    "c1 = c \<and> first1 = first \<and> p1 = p \<or> is_ascii_space c \<and> p_weight p1 + in_hand c1 \<le> p_weight p"
    by (rule squash_cases)
  show ?case
  proof (cases "c1 = CHR ''<'' \<and> \<not> first1")
    case True
    with s show ?thesis
      by (auto simp: fuel_bind_def fuel_return_def unget_char_def p_weight_def)
  next
    case False
    let ?rest = "\<lambda>content. fuel_bind (get_char xml_nul) (\<lambda>c. content_loop fuel c False content)"
    have unfold: "content_loop (Suc fuel) c first content p = fuel_bind (content_char c1 content1) ?rest p1"
      unfolding content_loop.simps fuel_bind_def [of "squash_space _ _ _"] s(1)
      by (simp only: option.case sum.case prod.case if_not_P [OF False])
    have w1: "p_weight p1 \<le> p_weight p" using s(2) by auto
    obtain r2 p2 where c2: "content_char c1 content1 p1 = Some (r2, p2)" "p_weight p2 \<le> p_weight p1"
      by (rule returnsE [OF xends_content_char, of p1 "p_weight p1" c1 content1]) (auto simp: advanced_def)
    show ?thesis
    proof (cases r2)
      case (Inl e)
      with unfold c2 w1 show ?thesis by (simp add: fuel_bind_def)
    next
      case (Inr content2)
      obtain d p3 where g: "get_char xml_nul p2 = Some (Inr d, p3)" "p_weight p3 + in_hand d \<le> p_weight p2"
        using get_in_hand by blast
      have "c1 \<noteq> xml_nul" using Inr c2(1) by (auto simp: content_char_def xml_fatal_def)
      then have "p_weight p1 < fuel" using s(2) Suc.prems by (auto split: if_splits)
      then have "p_weight p3 + in_hand d < fuel" using g(2) c2(2) by linarith
      from Suc.IH [OF this, of False content2] obtain res p4 where l: "content_loop fuel d False content2 p3 = Some (res, p4)"
        "p_weight p4 \<le> p_weight p3 + in_hand d"
        by (force split: if_splits)
      with unfold c2 Inr g w1 show ?thesis by (auto simp: fuel_bind_def)
    qed
  qed
qed simp

lemma xends_content: "n + 1 < fuel \<Longrightarrow> c = CHR ''<'' \<Longrightarrow> xends n (read_content fuel c)"
  and xends_content': "n + 1 < fuel \<Longrightarrow> c \<noteq> xml_nul \<Longrightarrow> xends n (read_content fuel c)"
proof -
  have *: "xends n (read_content fuel c)" if n: "n + 1 < fuel" for c
    unfolding returns_def
  proof (intro allI impI)
    fix p assume p: "True \<and> p_weight p \<le> n"
    with n have "p_weight p + in_hand c < fuel" by auto
    from content_loop_ends [OF this, of True "[]"]
    obtain res p' where "content_loop fuel c True [] p = Some (res, p')" "p_weight p' \<le> p_weight p" by auto
    then show "\<exists>q. read_content fuel c p = Some q \<and> advanced any_p p_weight 0 p q"
      by (cases res) (auto simp: read_content_def fuel_bind_def advanced_def p_weight_def split: list.split)
  qed
  then show "n + 1 < fuel \<Longrightarrow> c = CHR ''<'' \<Longrightarrow> xends n (read_content fuel c)"
    "n + 1 < fuel \<Longrightarrow> c \<noteq> xml_nul \<Longrightarrow> xends n (read_content fuel c)" by simp_all
qed

lemma xends_declaration: "xends n read_declaration"
  unfolding read_declaration_def by (intro xends_bind xends_rules xends_skips)

lemma xends_markup: 
  assumes "n + 1 < fuel"
  shows "xends n (read_markup fuel)"
  unfolding returns_def
proof (intro allI impI)
  fix p assume p: "True \<and> p_weight p \<le> n"
  define G where "G = (\<lambda>c. if c = CHR ''!'' then and_go_on read_declaration
       else if c = CHR ''?'' then and_go_on skip_pi
       else if c = CHR ''/''
       then fuel_bind (get_char c) (\<lambda>c.
              if is_name_start c then fuel_bind (read_end_tag c) (\<lambda>_. asks (\<lambda>p. p_elements p = []))
              else xml_fatal ''Illegal end tag'')
       else if is_name_start c
       then fuel_bind (read_tag fuel c) (\<lambda>is_empty. asks (\<lambda>p. is_empty \<and> p_elements p = []))
       else xml_fatal ''Illegal tag'')"
  have G: "xends n (fuel_bind (get_char CHR ''<'') G)"
    unfolding G_def using assms
    by (intro xends_bind xends_rules xends_declaration xends_skips xends_end_tag xends_tag) simp_all
  define c where "c = (case p_input p of [] \<Rightarrow> CHR ''<'' | d # r \<Rightarrow> d)"
  show "\<exists>q. read_markup fuel p = Some q \<and> advanced any_p p_weight 0 p q"
  proof (cases "c \<noteq> CHR ''!'' \<and> c \<noteq> CHR ''?'' \<and> c \<noteq> CHR ''/'' \<and> \<not> is_name_start c \<and> p_flag PARSER_BE_LENIENT p")
    case True
    then have "read_markup fuel p = and_go_on (read_content fuel CHR ''<'') p"
      by (cases "p_input p") (simp_all add: read_markup_def c_def fuel_bind_def [of "asks _"] fuel_bind_def [of "get_char _"] get_char_def
        fuel_bind_def [of "unget_to _"] unget_to_def input_same p_flag_def)
    moreover have "xends n (and_go_on (read_content fuel CHR ''<''))"
      using assms by (intro xends_bind xends_content xends_rules) simp_all
    ultimately show ?thesis using p by (simp add: returns_def)
  next
    case False
    then have "read_markup fuel p = fuel_bind (get_char CHR ''<'') G p"
      by (cases "p_input p") (auto simp: read_markup_def c_def G_def fuel_bind_def [of "asks _"] fuel_bind_def [of "get_char _"] get_char_def p_flag_def)
    with G p show ?thesis by (simp add: returns_def)
  qed
qed

lemma returns_step:
  assumes "n < fuel"
  shows "returns any_p p_weight n 1 (parse_step fuel)"
proof -
  define F where "F = (\<lambda>c. fuel_bind (asks has_root) (\<lambda>rooted.
       if c = xml_nul
       then xml_fatal (if rooted then ''Input stream failed unexpectedly'' else ''Empty or unreadable document'')
       else if c = CHR ''<'' then read_markup fuel
       else if rooted then and_go_on (read_content fuel c)
       else xml_fatal ''Non-tag data at start of document''))"
  have more: "xends (n - 1) (F c)" if "0 < n" for c
    unfolding F_def using assms that by (intro xends_bind xends_rules xends_markup xends_content') simp_all
  have none: "returns any_p p_weight n 1 (F xml_nul)"
    unfolding F_def by (intro returns_then xends_rules) simp_all
  have "returns any_p p_weight n 1 (if raw then fuel_bind (get_char xml_nul) F else fuel_bind (xml_skip_ws xml_nul) F)" for raw
    using more none by (intro returns_if returns_get returns_skip) simp_all
  moreover have "parse_step fuel = fuel_bind (asks (\<lambda>p. has_root p \<and> p_flag PARSER_PRESERVE_WHITESPACE p)) (\<lambda>raw.
      if raw then fuel_bind (get_char xml_nul) F else fuel_bind (xml_skip_ws xml_nul) F)"
    unfolding parse_step_def F_def by (rule arg_cong [of _ _ "fuel_bind _"]) (auto simp: fun_eq_iff)
  ultimately show ?thesis by (simp only:) (intro returns_then xends_simple)
qed

lemma xends_loop: "n + 1 < fuel \<Longrightarrow> xends n (parse_loop fuel)"
proof (induction fuel arbitrary: n)
  case (Suc fuel)
  then show ?case
    unfolding parse_loop.simps by (intro returns_progress returns_step returns_if xends_simple) auto
qed simp

text \<open>
  C23: The XML parser always ends. On any text of \<open>n\<close> characters, with any flags and name spaces, \<open>n + 2\<close> rounds are
  enough for it to accept the document or to throw.
\<close>

theorem xml_parser_terminates:
  assumes "length s + 1 < fuel"
  shows "\<exists>res p'. read_from fuel s p = Some (res, p') \<and> length (p_input p') \<le> length s"
proof -
  have bom: "length (skip_bom s) \<le> length s" by (auto simp: skip_bom_def split: list.split)
  obtain res p' where "read_from fuel s p = Some (res, p')" "length (p_input p') \<le> length (skip_bom s)"
    unfolding read_from_def parse_stream_def
    by (rule returnsE [OF xends_loop [OF assms],
          of "p \<lparr> p_hex := False, p_elements := [], p_ns_maps := [], p_root := None, p_input := skip_bom s \<rparr>"])
      (use bom in \<open>auto simp: advanced_def p_weight_def\<close>)
  with bom show ?thesis by auto
qed

theorem xml_parser_terminates_witness:
  "\<exists>res p'. read_from 7 ''<a>&#'' (new_parser 9) = Some (res, p') \<and> length (p_input p') \<le> length ''<a>&#''"
  by (rule xml_parser_terminates) simp

end
