(* ===== verification/Xml_Types.thy ===== *)
theory Xml_Types
  imports Xml_Parser
begin

text \<open>
  The type of the trees the XML parser makes: names and attribute names are XML names, attributes are sorted and
  distinct, data elements carry nothing but text, never stand next to each other, and with optimised content are never
  alone.
\<close>

section \<open>Well-formed elements\<close>

definition valid_name :: "string \<Rightarrow> bool" where
  "valid_name n \<longleftrightarrow> n \<noteq> [] \<and> is_name_start (hd n) \<and> (\<forall>c\<in>set n. is_name_char c)"

definition attrs_wf :: "(string \<times> string) list \<Rightarrow> bool" where
  "attrs_wf attrs \<longleftrightarrow> map_ok attrs \<and> (\<forall>k\<in>set (map fst attrs). valid_name k)"

definition no_adjacent :: "Element list \<Rightarrow> bool" where
  "no_adjacent cs \<longleftrightarrow> successively (\<lambda>a b. el_name a \<noteq> [] \<or> el_name b \<noteq> []) cs"

definition lone_data :: "Element list \<Rightarrow> bool" where
  "lone_data cs \<longleftrightarrow> (\<exists>d. cs = [d] \<and> el_name d = [])"

fun xml_wf :: "bool \<Rightarrow> Element \<Rightarrow> bool" where
  "xml_wf opt (Element n c attrs cs l) \<longleftrightarrow>
     (if n = [] then c \<noteq> [] \<and> attrs = [] \<and> cs = []
      else valid_name n \<and> attrs_wf attrs \<and> (\<forall>e\<in>set cs. xml_wf opt e) \<and> no_adjacent cs
           \<and> (if opt then \<not> lone_data cs \<and> (c = [] \<or> cs = []) else c = []))"

definition open_wf :: "bool \<Rightarrow> Element \<Rightarrow> bool" where
  "open_wf opt e \<longleftrightarrow> valid_name (el_name e) \<and> attrs_wf (el_attrs e) \<and> el_content e = []
     \<and> (\<forall>c\<in>set (el_children e). xml_wf opt c) \<and> no_adjacent (el_children e)"

lemma no_adjacent_named: "no_adjacent cs \<Longrightarrow> el_name e \<noteq> [] \<Longrightarrow> no_adjacent (cs @ [e])"
  by (auto simp: no_adjacent_def successively_append_iff)

lemma no_adjacent_data: "no_adjacent cs \<Longrightarrow> cs = [] \<or> el_name (last cs) \<noteq> [] \<Longrightarrow> no_adjacent (cs @ [e])"
  by (auto simp: no_adjacent_def successively_append_iff)

lemma no_adjacent_last: "no_adjacent cs \<Longrightarrow> cs \<noteq> [] \<Longrightarrow> el_name d = el_name (last cs) \<Longrightarrow> no_adjacent (butlast cs @ [d])"
  by (cases cs rule: rev_cases) (auto simp: no_adjacent_def successively_append_iff)

lemma open_named: "open_wf opt e \<Longrightarrow> el_name e \<noteq> []"
  by (auto simp: open_wf_def valid_name_def)

text \<open>Closing an element gives a well-formed one.\<close>

lemma close_wf:
  assumes "open_wf opt e"
  shows "xml_wf opt (if opt then optimise e else e)" "el_name (if opt then optimise e else e) = el_name e"
proof -
  obtain n c attrs cs l where e: "e = Element n c attrs cs l" by (cases e)
  note wf = assms [unfolded open_wf_def e, simplified]
  have n: "n \<noteq> []" using wf by (simp add: valid_name_def)
  show "el_name (if opt then optimise e else e) = el_name e"
    by (simp add: optimise_def split: list.split)
  show "xml_wf opt (if opt then optimise e else e)"
  proof (cases "opt \<and> lone_data cs")
    case True
    then obtain d where d: "cs = [d]" "el_name d = []" by (auto simp: lone_data_def)
    with wf True n show ?thesis
      by (cases d) (auto simp: e optimise_def lone_data_def no_adjacent_def)
  next
    case False
    then have "(if opt then optimise e else e) = e"
      by (auto simp: e optimise_def lone_data_def split: list.split)
    with wf n False show ?thesis by (simp add: e)
  qed
qed

lemma add_child_wf: "open_wf opt p \<Longrightarrow> xml_wf opt e \<Longrightarrow> el_name e \<noteq> [] \<Longrightarrow> open_wf opt (add_child e p)"
  by (auto simp: open_wf_def add_child_def with_children_def no_adjacent_named)

lemma data_wf: "el_name d = [] \<Longrightarrow> xml_wf opt d \<longleftrightarrow> el_content d \<noteq> [] \<and> el_attrs d = [] \<and> el_children d = []"
  by (cases d) simp

lemma add_content_wf:
  assumes "open_wf opt e" "content \<noteq> []"
  shows "open_wf opt (add_content preserve content e)"
proof (cases "el_children e \<noteq> [] \<and> el_name (last (el_children e)) = []")
  case True
  define d where "d = last (el_children e)"
  have d: "d \<in> set (el_children e)" "el_name d = []" using True by (auto simp: d_def)
  then have "el_attrs d = []" "el_children d = []" using assms(1) by (auto simp: open_wf_def data_wf)
  moreover have "set (butlast (el_children e)) \<subseteq> set (el_children e)" by (auto dest: in_set_butlastD)
  ultimately show ?thesis
    using True assms d no_adjacent_last [of "el_children e" "Element [] x [] [] l" for x l]
    by (auto simp: add_content_def open_wf_def with_children_def d_def [symmetric] Let_def)
next
  case False
  then show ?thesis
    using assms no_adjacent_data [of "el_children e"]
    by (auto simp: add_content_def open_wf_def add_child_def with_children_def new_element_def)
qed

section \<open>What the readers give\<close>

text \<open>They leave the tree alone, and errors only add up.\<close>

definition same_tree :: "Parser \<Rightarrow> Parser \<Rightarrow> bool" where
  "same_tree p p' \<longleftrightarrow> p_elements p' = p_elements p \<and> p_root p' = p_root p \<and> p_flags p' = p_flags p \<and> p_errors p \<le> p_errors p'"

definition gives :: "u32 \<Rightarrow> 'a xparse \<Rightarrow> ('a \<Rightarrow> bool) \<Rightarrow> bool" where
  "gives fl m Q \<longleftrightarrow> (\<forall>p a p'. p_flags p = fl \<and> m p = Some (Inr a, p') \<longrightarrow> same_tree p p' \<and> Q a)"

lemma gives_bind:
  assumes "gives fl m R" "\<And>a. R a \<Longrightarrow> gives fl (f a) Q"
  shows "gives fl (fuel_bind m f) Q"
  unfolding gives_def
proof (intro allI impI)
  fix p a p'
  assume p: "p_flags p = fl \<and> fuel_bind m f p = Some (Inr a, p')"
  then obtain b p1 where m: "m p = Some (Inr b, p1)" "f b p1 = Some (Inr a, p')"
    by (auto simp: fuel_bind_def split: option.splits sum.splits)
  with assms(1) p have "same_tree p p1" "R b" by (auto simp: gives_def)
  moreover have "p_flags p1 = fl" using \<open>same_tree p p1\<close> p by (simp add: same_tree_def)
  ultimately have "same_tree p1 p'" "Q a" using assms(2) [of b] m(2) by (auto simp: gives_def)
  with \<open>same_tree p p1\<close> show "same_tree p p' \<and> Q a" by (simp add: same_tree_def)
qed

lemma gives_if: "(P \<Longrightarrow> gives fl m Q) \<Longrightarrow> (\<not> P \<Longrightarrow> gives fl m' Q) \<Longrightarrow> gives fl (if P then m else m') Q"
  by simp

lemma gives_prod: "(\<And>a b. x = (a, b) \<Longrightarrow> gives fl (f a b) Q) \<Longrightarrow> gives fl (case x of (a, b) \<Rightarrow> f a b) Q"
  by (cases x) simp

lemma gives_return: "Q a \<Longrightarrow> gives fl (fuel_return a) Q"
  by (simp add: gives_def fuel_return_def same_tree_def)

lemma gives_weaken: "gives fl m R \<Longrightarrow> (\<And>a. R a \<Longrightarrow> Q a) \<Longrightarrow> gives fl m Q"
  by (auto simp: gives_def)

lemma gives_simple:
  "gives fl (xml_fatal s) Q" "gives fl (fuel_throw ()) Q" "gives fl (xml_error s) (\<lambda>_. True)" "gives fl (asks f) (\<lambda>_. True)"
  "gives fl (get_char c) (\<lambda>_. True)" "gives fl (unget_char c) (\<lambda>_. True)" "gives fl (unget_to s) (\<lambda>_. True)"
  "gives fl (count_line c) (\<lambda>_. True)" "gives fl set_hex (\<lambda>_. True)" "gives fl (xml_skip_ws c) (\<lambda>_. True)"
  "gives fl read_number (\<lambda>_. True)" "gives fl (skip_with loop msg) (\<lambda>_. True)"
  by (auto simp: gives_def xml_fatal_def fuel_throw_def xml_error_def xml_log_def get_char_def unget_char_def unget_to_def
      count_line_def set_hex_def xml_skip_ws_def read_number_def skip_with_def same_tree_def Let_def split: list.splits prod.splits if_splits)

lemma gives_flag: "gives fl (asks (p_flag f)) (\<lambda>b. b = (fl AND f \<noteq> 0))"
  by (simp add: gives_def p_flag_def same_tree_def)

lemma gives_name: "is_name_start c \<Longrightarrow> gives fl (read_rest_of_name c) (\<lambda>(n, d). valid_name n)"
  by (auto simp: gives_def read_rest_of_name_def same_tree_def valid_name_def is_name_start_def is_name_char_def Let_def dest: set_takeWhileD)

lemma gives_name_any: "gives fl (read_rest_of_name c) (\<lambda>_. True)"
  by (auto simp: gives_def read_rest_of_name_def same_tree_def Let_def)

lemmas gives_any = gives_simple [THEN gives_weaken]

lemma gives_char_ref: "gives fl (char_ref txt) (\<lambda>r. r \<noteq> [])"
proof -
  have "xml_utf8 n \<noteq> []" for n by (simp add: xml_utf8_def Let_def)
  then show ?thesis
    unfolding char_ref_def
    by (intro gives_bind [where R = "\<lambda>_. True"] gives_if gives_prod gives_simple gives_return) simp_all
qed

lemma gives_read_ref: "gives fl (read_ref txt) (\<lambda>r. r \<noteq> [])"
  unfolding read_ref_def
  by (intro gives_bind [where R = "\<lambda>_. True"] gives_if gives_prod gives_simple gives_return gives_char_ref gives_name_any)
    (auto simp: gives_simple gives_return split: option.split)

lemma gives_attr_value: "gives fl (read_attr_value fuel quote aval) (\<lambda>_. True)"
proof (induction fuel arbitrary: aval)
  case (Suc fuel)
  then show ?case
    unfolding read_attr_value.simps
    by (intro gives_bind [where R = "\<lambda>_. True"] gives_if gives_simple gives_return gives_weaken [OF gives_read_ref]) simp_all
qed (simp add: gives_def)

lemma gives_if_skip: "gives fl (if b then xml_skip_ws c else fuel_return c) (\<lambda>_. True)"
  by (simp add: gives_simple gives_return)

lemma attrs_wf_insert: "attrs_wf attrs \<Longrightarrow> valid_name k \<Longrightarrow> attrs_wf (map_insert k v attrs)"
  unfolding attrs_wf_def map_insert_keys by (simp add: map_insert_ok)

lemma gives_attr:
  assumes "attrs_wf attrs" "is_name_start c"
  shows "gives fl (read_attr fuel attrs c) (\<lambda>(attrs, c). attrs_wf attrs)"
  unfolding read_attr_def
proof (intro gives_bind [OF gives_name] assms gives_prod gives_if gives_simple)
  fix a n and d :: char
  assume "a = (n, d)" "case a of (n, d) \<Rightarrow> valid_name n"
  with assms have "attrs_wf (map_insert n v attrs)" for v by (simp add: attrs_wf_insert)
  then show "gives fl (fuel_bind (if is_ascii_space d then xml_skip_ws d else fuel_return d) (\<lambda>c.
       if c \<noteq> CHR ''='' then xml_fatal ''No = given for attribute''
       else fuel_bind (xml_skip_ws xml_nul) (\<lambda>quote.
       if quote \<noteq> CHR 0x22 \<and> quote \<noteq> CHR 0x27 then xml_fatal ''Attribute value not quoted''
       else fuel_bind (read_attr_value fuel quote []) (\<lambda>aval.
            fuel_bind (get_char xml_nul) (\<lambda>c. fuel_return (map_insert n aval attrs, c)))))) (\<lambda>(attrs, c). attrs_wf attrs)"
    by (intro gives_bind [where R = "\<lambda>_. True"] gives_if gives_simple gives_if_skip gives_attr_value gives_return) simp_all
qed

lemma gives_attrs: "attrs_wf attrs \<Longrightarrow> gives fl (read_attrs fuel attrs c) (\<lambda>(attrs, b). attrs_wf attrs)"
proof (induction fuel arbitrary: attrs c)
  case (Suc fuel)
  have rest: "gives fl (fuel_bind (read_attr fuel attrs c) (\<lambda>(attrs, c). read_attrs fuel attrs c)) (\<lambda>(attrs, b). attrs_wf attrs)"
    if "is_name_start c" for c
    using that by (intro gives_bind [OF gives_attr] Suc gives_prod) auto
  have close: "gives fl (fuel_bind (get_char c) (\<lambda>c. if c \<noteq> CHR ''>'' then xml_fatal ''Illegal empty close'' else fuel_return (attrs, True)))
      (\<lambda>(attrs, b). attrs_wf attrs)" for c
    using Suc.prems by (intro gives_bind [where R = "\<lambda>_. True"] gives_if gives_simple gives_return) simp_all
  show ?case
    unfolding read_attrs.simps
    using Suc.prems by (intro gives_if gives_simple gives_bind [OF gives_if_skip] rest close gives_return) simp_all
qed (simp add: gives_def)

text \<open>Content that has begun is not empty, whatever the white space rule drops.\<close>

lemma gives_squash:
  assumes "content \<noteq> [] \<or> first \<and> (fl AND PARSER_PRESERVE_WHITESPACE \<noteq> 0 \<or> \<not> is_ascii_space c)"
  shows "gives fl (squash_space c first content) (\<lambda>(c, first, content). content \<noteq> [] \<or> first)"
  unfolding squash_space_def using assms
  by (intro gives_bind [OF gives_flag] gives_if gives_bind [OF gives_simple(10)] gives_return) auto

lemma gives_content_char: "gives fl (content_char c content) (\<lambda>r. r \<noteq> [])"
  unfolding content_char_def
  by (intro gives_if gives_read_ref gives_simple gives_bind [where R = "\<lambda>_. True"] gives_return) simp

lemma gives_content_loop:
  "content \<noteq> [] \<or> first \<and> (fl AND PARSER_PRESERVE_WHITESPACE \<noteq> 0 \<or> \<not> is_ascii_space c) \<Longrightarrow>
   gives fl (content_loop fuel c first content) (\<lambda>r. r \<noteq> [])"
proof (induction fuel arbitrary: c first content)
  case (Suc fuel)
  have put_back: "gives fl (fuel_bind (unget_char c) (\<lambda>_. fuel_return content)) (\<lambda>r. r \<noteq> [])" if "content \<noteq> []" for c content
    using that by (intro gives_bind [where R = "\<lambda>_. True"] gives_simple gives_return)
  have next_char: "gives fl (fuel_bind (get_char xml_nul) (\<lambda>c. content_loop fuel c False content)) (\<lambda>r. r \<noteq> [])"
    if "content \<noteq> []" for content
    using that by (intro gives_bind [where R = "\<lambda>_. True"] gives_simple Suc.IH) simp
  show ?case
    unfolding content_loop.simps
    by (intro gives_bind [OF gives_squash [OF Suc.prems]] gives_prod gives_if put_back gives_bind [OF gives_content_char] next_char) auto
qed (simp add: gives_def)

section \<open>Steps\<close>

text \<open>While the document is open there is no root yet; the step that ends it leaves a well-formed root, or has logged an error.\<close>

definition doc_open :: "u32 \<Rightarrow> Parser \<Rightarrow> bool" where
  "doc_open fl p \<longleftrightarrow> p_flags p = fl \<and> p_root p = None \<and> (\<forall>e\<in>set (p_elements p). open_wf (fl AND PARSER_OPTIMISE_CONTENT \<noteq> 0) e)"

definition doc_done :: "u32 \<Rightarrow> int \<Rightarrow> Parser \<Rightarrow> bool" where
  "doc_done fl n p \<longleftrightarrow> p_elements p = []
     \<and> (case p_root p of Some r \<Rightarrow> el_name r \<noteq> [] \<and> xml_wf (fl AND PARSER_OPTIMISE_CONTENT \<noteq> 0) r | None \<Rightarrow> n < p_errors p)"

definition step_ok :: "u32 \<Rightarrow> bool xparse \<Rightarrow> bool" where
  "step_ok fl m \<longleftrightarrow> (\<forall>p b p'. doc_open fl p \<and> m p = Some (Inr b, p') \<longrightarrow>
     p_errors p \<le> p_errors p' \<and> (if b then doc_done fl (p_errors p) p' else doc_open fl p'))"

lemma doc_open_same: "doc_open fl p \<Longrightarrow> same_tree p p' \<Longrightarrow> doc_open fl p'"
  by (simp add: doc_open_def same_tree_def)

lemma step_bind:
  assumes "gives fl m R" "\<And>a. R a \<Longrightarrow> step_ok fl (f a)"
  shows "step_ok fl (fuel_bind m f)"
  unfolding step_ok_def
proof (intro allI impI)
  fix p b p'
  assume p: "doc_open fl p \<and> fuel_bind m f p = Some (Inr b, p')"
  then obtain a p1 where m: "m p = Some (Inr a, p1)" "f a p1 = Some (Inr b, p')"
    by (auto simp: fuel_bind_def split: option.splits sum.splits)
  with assms(1) p have a: "same_tree p p1" "R a" by (auto simp: gives_def doc_open_def)
  then have "doc_open fl p1" using p doc_open_same by blast
  with assms(2) [OF a(2)] m(2) have "p_errors p1 \<le> p_errors p'" "if b then doc_done fl (p_errors p1) p' else doc_open fl p'"
    by (auto simp: step_ok_def)
  moreover have "p_errors p \<le> p_errors p1" using a(1) by (simp add: same_tree_def)
  ultimately show "p_errors p \<le> p_errors p' \<and> (if b then doc_done fl (p_errors p) p' else doc_open fl p')"
    by (auto simp: doc_done_def split: if_splits option.splits)
qed

lemma step_if: "(P \<Longrightarrow> step_ok fl m) \<Longrightarrow> (\<not> P \<Longrightarrow> step_ok fl m') \<Longrightarrow> step_ok fl (if P then m else m')"
  by simp

lemma step_go_on: "gives fl m R \<Longrightarrow> step_ok fl (and_go_on m)"
  by (rule step_bind, assumption) (simp add: step_ok_def fuel_return_def)

lemma step_fatal: "step_ok fl (xml_fatal s)" "step_ok fl (fuel_throw ())"
  by (simp_all add: step_ok_def xml_fatal_def fuel_throw_def)

lemma finish_doc:
  assumes "doc_open fl p" "open_wf (fl AND PARSER_OPTIMISE_CONTENT \<noteq> 0) e" "fl AND PARSER_FIX_NAMESPACES = 0"
  shows "p_errors (finish_element e p) = p_errors p"
    "if p_elements (finish_element e p) = [] then doc_done fl (p_errors p) (finish_element e p)
     else doc_open fl (finish_element e p)"
proof -
  define e' where "e' = (if fl AND PARSER_OPTIMISE_CONTENT \<noteq> 0 then optimise e else e)"
  have fin: "finish_element e p = attach e' p"
    using assms(1,3) by (simp add: finish_element_def final_processing_def e'_def p_flag_def doc_open_def)
  have wf: "xml_wf (fl AND PARSER_OPTIMISE_CONTENT \<noteq> 0) e'" "el_name e' \<noteq> []"
    using close_wf [OF assms(2)] open_named [OF assms(2)] by (simp_all add: e'_def)
  show "p_errors (finish_element e p) = p_errors p"
    by (simp add: fin attach_def split: list.split option.split)
  show "if p_elements (finish_element e p) = [] then doc_done fl (p_errors p) (finish_element e p) else doc_open fl (finish_element e p)"
    using assms(1) wf by (cases "p_elements p") (auto simp: fin attach_def doc_open_def doc_done_def add_child_wf)
qed

lemma step_tag:
  assumes "is_name_start c" "fl AND PARSER_FIX_NAMESPACES = 0"
  shows "step_ok fl (fuel_bind (read_tag fuel c) (\<lambda>is_empty. asks (\<lambda>p. is_empty \<and> p_elements p = [])))"
proof -
  have opened: "step_ok fl (\<lambda>p. Some (Inr (is_empty \<and> p_elements (open_element (Element n [] attrs [] l) is_empty p) = []),
      open_element (Element n [] attrs [] l) is_empty p))" if "valid_name n" "attrs_wf attrs" for n attrs l is_empty
  proof -
    have wf: "open_wf (fl AND PARSER_OPTIMISE_CONTENT \<noteq> 0) (Element n [] attrs [] l)"
      using that by (simp add: open_wf_def no_adjacent_def)
    have ns: "initial_processing e p = p" if "doc_open fl p" for e p
      using that assms(2) by (simp add: initial_processing_def p_flag_def doc_open_def)
    show ?thesis
      unfolding step_ok_def
    proof (intro allI impI)
      fix p b p'
      assume p: "doc_open fl p \<and> Some (Inr (is_empty \<and> p_elements (open_element (Element n [] attrs [] l) is_empty p) = []),
        open_element (Element n [] attrs [] l) is_empty p) = Some (Inr b, p')"
      show "p_errors p \<le> p_errors p' \<and> (if b then doc_done fl (p_errors p) p' else doc_open fl p')"
      proof (cases is_empty)
        case True
        with p ns finish_doc [OF _ wf assms(2), of p] show ?thesis by (auto simp: open_element_def split: if_splits)
      next
        case False
        with p ns wf show ?thesis by (auto simp: open_element_def doc_open_def)
      qed
    qed
  qed
  have "fuel_bind (read_tag fuel c) (\<lambda>is_empty. asks (\<lambda>p. is_empty \<and> p_elements p = [])) =
     fuel_bind (read_rest_of_name c) (\<lambda>(n, c).
     fuel_bind (asks p_line) (\<lambda>l.
     fuel_bind (read_attrs fuel [] c) (\<lambda>(attrs, is_empty) p.
       Some (Inr (is_empty \<and> p_elements (open_element (Element n [] attrs [] l) is_empty p) = []),
         open_element (Element n [] attrs [] l) is_empty p))))"
    by (simp add: read_tag_def fuel_bind_def fun_eq_iff split: option.split sum.split prod.split)
  moreover have "attrs_wf []" by (simp add: attrs_wf_def map_ok_def)
  ultimately show ?thesis
    using opened
    by (auto intro!: step_bind [OF gives_name] step_bind [OF gives_simple(4)] step_bind [OF gives_attrs] assms split: prod.split)
qed

lemma step_end_tag:
  assumes "is_name_start c" "fl AND PARSER_FIX_NAMESPACES = 0"
  shows "step_ok fl (fuel_bind (read_end_tag c) (\<lambda>_. asks (\<lambda>p. p_elements p = [])))"
proof -
  have closed: "step_ok fl (fuel_bind (close_element name) (\<lambda>_. asks (\<lambda>p. p_elements p = [])))" for name
    unfolding step_ok_def
  proof (intro allI impI)
    fix p b p'
    assume p: "doc_open fl p \<and> fuel_bind (close_element name) (\<lambda>_. asks (\<lambda>p. p_elements p = [])) p = Some (Inr b, p')"
    show "p_errors p \<le> p_errors p' \<and> (if b then doc_done fl (p_errors p) p' else doc_open fl p')"
    proof (cases "p_elements p")
      case Nil
      with p show ?thesis
        by (auto simp: close_element_def fuel_bind_def xml_error_def xml_log_def doc_done_def doc_open_def)
    next
      case (Cons e es)
      with p have "name = el_name e" by (auto simp: close_element_def fuel_bind_def xml_fatal_def split: if_splits)
      with p Cons have p': "p' = finish_element e (p \<lparr> p_elements := es \<rparr>)" "b = (p_elements p' = [])"
        by (auto simp: close_element_def fuel_bind_def)
      have "doc_open fl (p \<lparr> p_elements := es \<rparr>)" "open_wf (fl AND PARSER_OPTIMISE_CONTENT \<noteq> 0) e"
        using p Cons by (auto simp: doc_open_def)
      from finish_doc [OF this assms(2)] p' show ?thesis by (auto split: if_splits)
    qed
  qed
  have "fuel_bind (read_end_tag c) (\<lambda>_. asks (\<lambda>p. p_elements p = [])) =
     fuel_bind (read_rest_of_name c) (\<lambda>(name, c).
     fuel_bind (if is_ascii_space c then xml_skip_ws c else fuel_return c) (\<lambda>c.
       if c \<noteq> CHR ''>'' then fuel_throw () else fuel_bind (close_element name) (\<lambda>_. asks (\<lambda>p. p_elements p = []))))"
    by (simp add: read_end_tag_def fuel_bind_def fuel_throw_def fun_eq_iff split: option.split sum.split prod.split)
  then show ?thesis
    using closed
    by (auto intro!: step_bind [OF gives_name] step_bind [OF gives_simple(10)] step_bind [OF gives_return] step_fatal assms split: prod.split)
qed

lemma step_content:
  assumes "fl AND PARSER_PRESERVE_WHITESPACE \<noteq> 0 \<or> \<not> is_ascii_space c"
  shows "step_ok fl (and_go_on (read_content fuel c))"
proof -
  have eq: "and_go_on (read_content fuel c) = fuel_bind (content_loop fuel c True []) (\<lambda>content p.
       Some (Inr False, case p_elements p of
                       e # es \<Rightarrow> p \<lparr> p_elements := add_content (p_flag PARSER_PRESERVE_WHITESPACE p) content e # es \<rparr>
                     | [] \<Rightarrow> p))"
    by (simp add: read_content_def fuel_bind_def fuel_return_def fun_eq_iff split: option.split sum.split prod.split)
  show ?thesis
    unfolding eq
    by (rule step_bind [OF gives_content_loop])
      (use assms in \<open>auto simp: step_ok_def doc_open_def add_content_wf split: list.splits\<close>)
qed

lemma step_markup:
  assumes "fl AND PARSER_FIX_NAMESPACES = 0"
  shows "step_ok fl (read_markup fuel)"
proof -
  have decl: "gives fl read_declaration (\<lambda>_. True)"
    unfolding read_declaration_def xml_skip_comment_def skip_to_gt_def
    by (intro gives_bind [where R = "\<lambda>_. True"] gives_if gives_simple)
  have "\<not> is_ascii_space CHR ''<''" by (simp add: is_ascii_space_def isspace_def)
  then show ?thesis
    unfolding read_markup_def skip_pi_def using assms
    by (intro step_bind [OF gives_simple(4)] step_bind [OF gives_simple(5)] step_if step_go_on [OF decl] step_go_on [OF gives_simple(12)]
        step_end_tag step_tag step_fatal step_bind [OF gives_simple(7)] step_content) simp_all
qed

lemma step_parse:
  assumes "fl AND PARSER_FIX_NAMESPACES = 0"
  shows "step_ok fl (parse_step fuel)"
proof -
  have raw: "gives fl (asks (\<lambda>p. has_root p \<and> p_flag PARSER_PRESERVE_WHITESPACE p)) (\<lambda>b. b \<longrightarrow> fl AND PARSER_PRESERVE_WHITESPACE \<noteq> 0)"
    by (simp add: gives_def p_flag_def same_tree_def)
  have loop: "\<not> is_ascii_space (fst (skip_ws_loop s l))" for s l
    by (induction s l rule: skip_ws_loop.induct) (simp_all add: is_ascii_space_def isspace_def)
  have skip: "gives fl (xml_skip_ws c) (\<lambda>c. \<not> is_ascii_space c)" for c
    unfolding gives_def
    using loop by (auto simp: xml_skip_ws_def same_tree_def split: prod.splits; metis fst_conv)
  have read: "gives fl (if b then get_char xml_nul else xml_skip_ws xml_nul)
      (\<lambda>c. fl AND PARSER_PRESERVE_WHITESPACE \<noteq> 0 \<or> \<not> is_ascii_space c)"
    if "b \<longrightarrow> fl AND PARSER_PRESERVE_WHITESPACE \<noteq> 0" for b
    using that gives_simple(5) [of fl xml_nul] skip by (auto intro: gives_weaken)
  show ?thesis
    unfolding parse_step_def
    by (intro step_bind [OF raw] step_bind [OF read] step_bind [OF gives_simple(4)] step_if step_fatal step_markup assms step_content)
qed

lemma loop_wf:
  assumes "fl AND PARSER_FIX_NAMESPACES = 0"
  shows "doc_open fl p \<Longrightarrow> parse_loop fuel p = Some (Inr (), p') \<Longrightarrow> doc_done fl (p_errors p) p'"
proof (induction fuel arbitrary: p)
  case (Suc fuel)
  obtain b p1 where s: "parse_step fuel p = Some (Inr b, p1)"
    using Suc.prems(2) by (auto simp: fuel_bind_def split: option.splits sum.splits)
  have ok: "p_errors p \<le> p_errors p1" "if b then doc_done fl (p_errors p) p1 else doc_open fl p1"
    using step_parse [OF assms, of fuel] Suc.prems(1) s unfolding step_ok_def by blast+
  show ?case
  proof (cases b)
    case True
    with s Suc.prems(2) ok show ?thesis by (simp add: fuel_bind_def fuel_return_def)
  next
    case False
    with s Suc.prems(2) ok Suc.IH [of p1] have "doc_done fl (p_errors p1) p'" by (simp add: fuel_bind_def)
    with ok(1) show ?thesis by (auto simp: doc_done_def split: option.splits)
  qed
qed simp

lemma accepted:
  fixes m :: "((unit + unit) \<times> Parser) option"
  assumes "case m of Some (Inr _, p') \<Rightarrow> P p' | _ \<Rightarrow> False"
  shows "\<exists>p'. m = Some (Inr (), p') \<and> P p'"
proof (cases m)
  case (Some q)
  with assms show ?thesis by (cases q; cases "fst q") auto
qed (use assms in simp)



text \<open>The text \<^verbatim>\<open></a>\<close> is accepted without a root.\<close>

lemma stray_end_tag:
  "case read_from 3 ''</a>'' (new_parser 1) of Some (Inr _, p') \<Rightarrow> get_root p' = None \<and> p_errors p' = 1 | _ \<Rightarrow> False"
  by (simp add: xml_eval xml_error_def xml_log_def get_root_def cong: fuel_bind_weak)

text \<open>A decimal reference after a hexadecimal one is read as hexadecimal.\<close>

lemma sticky_hex:
  "p_hex p \<Longrightarrow> p_input p = ''41;'' \<Longrightarrow> char_ref txt p = Some (Inr (txt @ ''A''), p \<lparr> p_input := [] \<rparr>)"
  by (simp add: char_ref_def fuel_bind_def get_char_def unget_to_def read_number_def extract_int_def scan_prefix_def digit_value_def
    ctype_defs fuel_return_def xml_utf8_def char_of_byte_def char_of_def bit_iff_odd)

end
