(* ===== verification/Xml_Roundtrip.thy ===== *)
theory Xml_Roundtrip
  imports Xml_Termination Xml_Types
begin

text \<open>
  The text of an element parses back to it. A state is viewed as the text not yet read and the tree without its line
  numbers, which is what \<^verbatim>\<open>deep_copy\<close> keeps; a run of the document loop is described by what the rest of the run does.
\<close>

section \<open>Elements whose text keeps them\<close>

text \<open>Text that the white space rule leaves alone.\<close>

fun squashed :: "string \<Rightarrow> bool" where
  "squashed [] \<longleftrightarrow> True"
| "squashed [c] \<longleftrightarrow> c \<noteq> xml_nul \<and> \<not> is_ascii_space c"
| "squashed (c # d # s) \<longleftrightarrow> c \<noteq> xml_nul \<and> (is_ascii_space c \<longrightarrow> c = CHR '' '' \<and> \<not> is_ascii_space d) \<and> squashed (d # s)"

definition text_ok :: "string \<Rightarrow> bool" where
  "text_ok s \<longleftrightarrow> s \<noteq> [] \<and> \<not> is_ascii_space (hd s) \<and> squashed s"

fun xml_canon :: "Element \<Rightarrow> bool" where
  "xml_canon (Element n c attrs cs l) \<longleftrightarrow>
     (if n = [] then text_ok c \<and> attrs = [] \<and> cs = []
      else valid_name n \<and> attrs_wf attrs \<and> (\<forall>v\<in>set (map snd attrs). xml_nul \<notin> set v)
           \<and> (c = [] \<or> text_ok c \<and> cs = []) \<and> (\<forall>e\<in>set cs. xml_canon e) \<and> no_adjacent cs \<and> \<not> lone_data cs)"

section \<open>Reading\<close>

type_synonym xml_tree = "Element list \<times> Element option"

definition p_tree :: "Parser \<Rightarrow> xml_tree" where
  "p_tree p = (map deep_copy (p_elements p), map_option deep_copy (p_root p))"

definition p_view :: "Parser \<Rightarrow> string \<times> xml_tree" where
  "p_view p = (p_input p, p_tree p)"

abbreviation xyields :: "u32 \<Rightarrow> 'a xparse \<Rightarrow> string \<times> xml_tree \<Rightarrow> 'a \<Rightarrow> string \<times> xml_tree \<Rightarrow> bool" where
  "xyields fl \<equiv> fyields (\<lambda>p. p_flags p = fl) p_view"

lemma xyields_reader:
  assumes "\<And>p. p_input p = s \<Longrightarrow> \<exists>p'. m p = Some (Inr v, p') \<and> p_input p' = s' \<and> same_tree p p'"
  shows "xyields fl m (s, t) v (s', t)"
  unfolding fyields_def
proof (intro allI impI)
  fix p assume p: "p_flags p = fl \<and> p_view p = (s, t)"
  then have "p_input p = s" by (simp add: p_view_def)
  from assms [OF this] obtain p' where "m p = Some (Inr v, p')" "p_input p' = s'" "same_tree p p'" by blast
  with p show "m p = None \<or> (\<exists>s''. m p = Some (Inr v, s'') \<and> p_flags s'' = fl \<and> p_view s'' = (s', t))"
    by (auto simp: p_view_def p_tree_def same_tree_def)
qed

lemmas xyields_bind = fyields_bind [where ok = "\<lambda>p. p_flags p = fl" and rest = p_view for fl]

lemma xyields_return: "xyields fl (fuel_return v) x v x"
  by (rule fyields_fuel_return)

lemma xyields_asks: "(\<And>p. p_flags p = fl \<Longrightarrow> p_view p = x \<Longrightarrow> f p = v) \<Longrightarrow> xyields fl (asks f) x v x"
  by (auto simp: fyields_def)

lemma xyields_asks_bind:
  "(\<And>v. xyields fl (g v) x w y) \<Longrightarrow> xyields fl (fuel_bind (asks f) g) x w y"
  by (simp add: fyields_def fuel_bind_def)

lemma xyields_flag: "fl AND f \<noteq> 0 \<longleftrightarrow> b \<Longrightarrow> xyields fl (asks (p_flag f)) x b x"
  by (rule xyields_asks) (auto simp: p_flag_def)

lemma xyields_get: "xyields fl (get_char c0) (c # s, t) c (s, t)"
  by (rule xyields_reader) (simp add: get_char_def same_tree_def)

lemma xyields_unget: "xyields fl (unget_char c) (s, t) () (c # s, t)"
  by (rule xyields_reader) (simp add: unget_char_def same_tree_def)

lemma xyields_count: "xyields fl (count_line c) (s, t) () (s, t)"
  by (rule xyields_reader) (simp add: count_line_def same_tree_def)

lemma skip_ws_spaces:
  "\<forall>c\<in>set ws. is_ascii_space c \<Longrightarrow>
   skip_ws_loop (ws @ s) l = skip_ws_loop s (l + int (length (filter (\<lambda>c. c = CHR 0x0A) ws)))"
  by (induction ws arbitrary: l) (auto simp: algebra_simps)

lemma xyields_skip:
  assumes "\<forall>c\<in>set ws. is_ascii_space c" "\<not> is_ascii_space c"
  shows "xyields fl (xml_skip_ws c0) (ws @ c # s, t) c (s, t)"
  by (rule xyields_reader) (simp add: xml_skip_ws_def skip_ws_spaces assms same_tree_def)

lemma xyields_name:
  assumes "\<forall>c\<in>set n. is_name_char c" "\<not> is_name_char d"
  shows "xyields fl (read_rest_of_name c) (n @ d # s, t) (c # n, d) (s, t)"
  using assms by (intro xyields_reader) (simp add: read_rest_of_name_def same_tree_def)

section \<open>Characters\<close>

text \<open>What stands for a character: itself, or an entity.\<close>

definition piece :: "char \<Rightarrow> string \<Rightarrow> bool" where
  "piece c w \<longleftrightarrow> w = [c] \<and> c \<noteq> CHR ''&'' \<and> c \<noteq> xml_nul
     \<or> (\<exists>ent. (ent, c) \<in> set xml_entities \<and> w = CHR ''&'' # ent @ [CHR '';''])"

lemma xyields_entity:
  assumes "(ent, c) \<in> set xml_entities"
  shows "xyields fl (read_ref txt) (ent @ CHR '';'' # s, t) (txt @ [c]) (s, t)"
proof (rule xyields_reader)
  have "\<forall>(ent, c)\<in>set xml_entities. ent \<noteq> [] \<and> isalpha (hd ent) \<and> hd ent \<noteq> CHR ''#'' \<and> (\<forall>c\<in>set (tl ent). is_name_char c)
      \<and> map_of xml_entities ent = Some c"
    by (simp add: xml_entities_def isalpha_def char_between_ascii is_name_char_def)
  with assms have ent: "ent \<noteq> []" "isalpha (hd ent)" "hd ent \<noteq> CHR ''#''" "\<forall>c\<in>set (tl ent). is_name_char c" "map_of xml_entities ent = Some c"
    by blast+
  obtain e es where e: "ent = e # es" using ent(1) by (cases ent) simp
  have stop: "\<not> is_name_char CHR '';''" by (simp add: is_name_char_def isalpha_def isdigit_def char_between_ascii)
  fix p :: Parser assume p: "p_input p = ent @ CHR '';'' # s"
  have "read_ref txt p = entity_ref txt e (p \<lparr> p_input := es @ CHR '';'' # s \<rparr>)"
    using ent p by (simp add: read_ref_eq peeked_def advance_input_def e)
  also have "\<dots> = Some (Inr (txt @ [c]), p \<lparr> p_input := s \<rparr>)"
    using ent stop by (simp add: entity_ref_def fuel_bind_def read_rest_of_name_def fuel_return_def e)
  finally show "\<exists>p'. read_ref txt p = Some (Inr (txt @ [c]), p') \<and> p_input p' = s \<and> same_tree p p'"
    by (simp add: same_tree_def)
qed

lemma xyields_attr_value:
  assumes "\<forall>c\<in>set v. piece c (f c)" "\<forall>c\<in>set v. f c = [c] \<longrightarrow> c \<noteq> quote" "quote \<noteq> CHR ''&''" "quote \<noteq> xml_nul"
  shows "xyields fl (read_attr_value fuel quote acc) (concat (map f v) @ quote # s, t) (acc @ v) (s, t)"
  using assms
proof (induction fuel arbitrary: v acc)
  case (Suc fuel)
  show ?case
  proof (cases v)
    case Nil
    with Suc.prems show ?thesis
      by (auto intro!: xyields_bind [OF xyields_get] xyields_return)
  next
    case (Cons c v')
    then consider (raw) "f c = [c]" "c \<noteq> CHR ''&''" "c \<noteq> xml_nul" "c \<noteq> quote"
      | (ent) ent where "(ent, c) \<in> set xml_entities" "f c = CHR ''&'' # ent @ [CHR '';'']"
      using Suc.prems(1,2) by (auto simp: piece_def)
    then show ?thesis
    proof cases
      case raw
      with Suc.IH [of v' "acc @ [c]"] Suc.prems show ?thesis
        by (auto simp: Cons intro!: xyields_bind [OF xyields_get])
    next
      case ent
      with Suc.IH [of v' "acc @ [c]"] Suc.prems show ?thesis
        by (auto simp: Cons intro!: xyields_bind [OF xyields_get] xyields_bind [OF xyields_entity])
    qed
  qed
qed simp

section \<open>Attributes\<close>

lemma escape_piece: "c \<noteq> xml_nul \<Longrightarrow> piece c (escape_char escquote c)"
  by (auto simp: piece_def escape_char_def xml_entities_def)

lemma name_start_classes:
  "is_name_start c \<Longrightarrow> \<not> is_ascii_space c \<and> c \<noteq> CHR ''/'' \<and> c \<noteq> CHR ''>'' \<and> c \<noteq> CHR ''!'' \<and> c \<noteq> CHR ''?'' \<and> c \<noteq> xml_nul"
  by (auto simp: is_name_start_def is_ascii_space_def isspace_def isalpha_def isdigit_def char_between_ascii)

lemma not_name_chars:
  "\<not> is_name_char CHR ''='' \<and> \<not> is_name_char CHR ''>'' \<and> \<not> is_name_char CHR ''/'' \<and> \<not> is_name_char CHR '' ''"
  by (simp add: is_name_char_def isalpha_def isdigit_def char_between_ascii)

text \<open>The value of an attribute as it is written, between two delimiters.\<close>

lemma write_attr_pieces:
  assumes "xml_nul \<notin> set v"
  obtains f delim where "write_attr (k, v) = CHR '' '' # k @ CHR ''='' # delim # concat (map f v) @ [delim]"
    "delim = CHR 0x22 \<or> delim = CHR 0x27" "\<forall>c\<in>set v. piece c (f c)" "\<forall>c\<in>set v. f c = [c] \<longrightarrow> c \<noteq> delim"
proof (cases "set v \<inter> {CHR ''<'', CHR ''>'', CHR ''&'', CHR 0x22} = {}")
  case True
  show thesis
  proof (rule that [of "CHR 0x22" "\<lambda>c. [c]"])
    show "write_attr (k, v) = CHR '' '' # k @ CHR ''='' # CHR 0x22 # concat (map (\<lambda>c. [c]) v) @ [CHR 0x22]"
      using True by (simp add: write_attr_def)
    have "c \<noteq> xml_nul" if "c \<in> set v" for c using that assms by auto
    then show "\<forall>c\<in>set v. piece c [c]" using True by (auto simp: piece_def)
    show "\<forall>c\<in>set v. [c] = [c] \<longrightarrow> c \<noteq> CHR 0x22" using True by auto
  qed simp
next
  case False
  define both where "both = (CHR 0x22 \<in> set v \<and> CHR 0x27 \<in> set v)"
  define delim where "delim = (if CHR 0x22 \<in> set v \<and> \<not> both then CHR 0x27 else CHR 0x22)"
  show thesis
  proof (rule that [of delim "escape_char both"])
    show "write_attr (k, v) = CHR '' '' # k @ CHR ''='' # delim # concat (map (escape_char both) v) @ [delim]"
      by (simp only: write_attr_def snd_conv fst_conv if_not_P [OF False] Let_def both_def [symmetric] delim_def [symmetric])
        (simp add: xml_escape_def)
    show "\<forall>c\<in>set v. piece c (escape_char both c)" using assms by (auto intro!: escape_piece)
    show "\<forall>c\<in>set v. escape_char both c = [c] \<longrightarrow> c \<noteq> delim"
      by (auto simp: delim_def both_def escape_char_def split: if_splits)
  qed (simp add: delim_def)
qed

lemma xyields_attr:
  assumes "valid_name k" "xml_nul \<notin> set v" "map_of acc k = None" "write_attr (k, v) = CHR '' '' # w"
  shows "xyields fl (read_attr fuel acc (hd k)) (tl w @ d # s, t) (map_insert k v acc, d) (s, t)"
proof -
  obtain f delim where f: "write_attr (k, v) = CHR '' '' # k @ CHR ''='' # delim # concat (map f v) @ [delim]"
    "delim = CHR 0x22 \<or> delim = CHR 0x27" "\<forall>c\<in>set v. piece c (f c)" "\<forall>c\<in>set v. f c = [c] \<longrightarrow> c \<noteq> delim"
    by (rule write_attr_pieces [OF assms(2)])
  have k: "k = hd k # tl k" "\<forall>c\<in>set (tl k). is_name_char c"
    using assms(1) by (auto simp: valid_name_def dest: list.set_sel(2))
  have "w = k @ CHR ''='' # delim # concat (map f v) @ [delim]" using f(1) assms(4) by simp
  then have w: "tl w @ d # s = tl k @ CHR ''='' # delim # concat (map f v) @ delim # d # s"
    using k(1) by (cases k) simp_all
  have d: "\<not> is_ascii_space delim" "delim \<noteq> CHR ''&''" "delim \<noteq> xml_nul" "\<not> is_ascii_space CHR ''=''"
    using f(2) by (auto simp: is_ascii_space_def isspace_def)
  have name: "xyields fl (read_rest_of_name (hd k)) (tl k @ CHR ''='' # r, t) (k, CHR ''='') (r, t)" for r
    using xyields_name [OF k(2), of "CHR ''=''" fl "hd k" r t] not_name_chars k(1) by simp
  have quote: "xyields fl (xml_skip_ws xml_nul) (delim # r, t) delim (r, t)" for r
    using xyields_skip [of "[]" delim] d(1) by simp
  have aval: "xyields fl (read_attr_value fuel delim []) (concat (map f v) @ delim # r, t) v (r, t)" for r
    using xyields_attr_value [OF f(3,4) d(2,3), of fl fuel "[]"] by simp
  have tail: "xyields fl (fuel_bind (xml_skip_ws xml_nul) (\<lambda>quote.
       if quote \<noteq> CHR 0x22 \<and> quote \<noteq> CHR 0x27 then xml_fatal ''Attribute value not quoted''
       else fuel_bind (read_attr_value fuel quote []) (\<lambda>aval.
            fuel_bind (get_char xml_nul) (\<lambda>c. fuel_return (map_insert k aval acc, c)))))
      (delim # concat (map f v) @ delim # d # s, t) (map_insert k v acc, d) (s, t)"
  proof (rule xyields_bind [OF quote])
    have "\<not> (delim \<noteq> CHR 0x22 \<and> delim \<noteq> CHR 0x27)" using f(2) by simp
    then show "xyields fl (if delim \<noteq> CHR 0x22 \<and> delim \<noteq> CHR 0x27 then xml_fatal ''Attribute value not quoted''
       else fuel_bind (read_attr_value fuel delim []) (\<lambda>aval.
            fuel_bind (get_char xml_nul) (\<lambda>c. fuel_return (map_insert k aval acc, c))))
      (concat (map f v) @ delim # d # s, t) (map_insert k v acc, d) (s, t)"
      by (simp only: if_not_P if_False) (intro xyields_bind [OF aval] xyields_bind [OF xyields_get] xyields_return)
  qed
  show ?thesis
    unfolding w read_attr_def using assms(3) d(4) tail
    by (intro xyields_bind [OF name]) (auto intro!: xyields_bind [OF xyields_return])
qed

text \<open>What closes a start tag.\<close>

definition tag_end :: "bool \<Rightarrow> string" where
  "tag_end is_empty = (if is_empty then ''/>'' else ''>'')"

lemma xyields_attrs:
  "map_ok (acc @ kvs) \<Longrightarrow> \<forall>k\<in>set (map fst kvs). valid_name k \<Longrightarrow> \<forall>v\<in>set (map snd kvs). xml_nul \<notin> set v \<Longrightarrow>
   concat (map write_attr kvs) @ tag_end is_empty @ s = c # r \<Longrightarrow>
   xyields fl (read_attrs fuel acc c) (r, t) (acc @ kvs, is_empty) (s, t)"
proof (induction fuel arbitrary: acc kvs c r)
  case (Suc fuel)
  show ?case
  proof (cases kvs)
    case Nil
    with Suc.prems(4) show ?thesis
      by (cases is_empty) (auto simp: tag_end_def intro!: xyields_return xyields_bind [OF xyields_return] xyields_bind [OF xyields_get])
  next
    case (Cons kv kvs')
    obtain k v where kv: "kv = (k, v)" by (cases kv)
    have k: "valid_name k" "xml_nul \<notin> set v" using Suc.prems(2,3) by (simp_all add: Cons kv)
    obtain w where w: "write_attr (k, v) = CHR '' '' # w" by (rule write_attr_pieces [OF k(2), of k]) simp
    obtain d s' where ds: "concat (map write_attr kvs') @ tag_end is_empty @ s = d # s'"
      by (cases "concat (map write_attr kvs') @ tag_end is_empty @ s") (simp_all add: tag_end_def split: if_splits)
    have c: "c = CHR '' ''" "r = w @ d # s'" using Suc.prems(4) w ds by (simp_all add: Cons kv)
    have new: "map_of acc k = None"
      using Suc.prems(1) by (force simp: Cons kv map_ok_def sorted_wrt_append map_of_eq_None_iff)
    have ins: "map_insert k v acc = acc @ [(k, v)]"
      using Suc.prems(1) by (simp add: Cons kv map_insert_next)
    have whd: "w = hd k # tl w" "is_name_start (hd k)"
      using k(1) w by (auto simp: valid_name_def write_attr_def Let_def split: if_splits)
    have nosp: "\<not> is_ascii_space (hd k)" using whd(2) name_start_classes by blast
    have skip: "xyields fl (xml_skip_ws c) (r, t) (hd k) (tl w @ d # s', t)"
    proof -
      have "r = hd k # tl w @ d # s'" using c(2) whd(1) by (metis append_Cons)
      with xyields_skip [of "[]" "hd k" fl c "tl w @ d # s'" t] nosp show ?thesis by simp
    qed
    have one: "xyields fl (read_attr fuel acc (hd k)) (tl w @ d # s', t) (acc @ [(k, v)], d) (s', t)"
      using xyields_attr [OF k new w, of fl fuel d s' t] by (simp add: ins)
    have rest: "xyields fl (read_attrs fuel (acc @ [(k, v)]) d) (s', t) (acc @ kvs, is_empty) (s, t)"
      using Suc.IH [of "acc @ [(k, v)]" kvs' d s'] Suc.prems(1-3) ds by (simp add: Cons kv)
    have sp: "is_ascii_space c" "c \<noteq> CHR ''/''" "c \<noteq> CHR ''>''" by (simp_all add: c is_ascii_space_def isspace_def)
    show ?thesis
      using sp name_start_classes [OF whd(2)] whd(2) rest
      by (auto intro!: xyields_bind [OF skip] xyields_bind [OF one])
  qed
qed simp

section \<open>Content\<close>

lemma squashed_tail: "squashed (c # v) \<Longrightarrow> squashed v \<and> c \<noteq> xml_nul \<and> (is_ascii_space c \<longrightarrow> c = CHR '' '' \<and> v \<noteq> [] \<and> \<not> is_ascii_space (hd v))"
  by (cases v) auto

text \<open>The escaped text of one character: it is neither white space nor markup unless the character is a space.\<close>

lemma xyields_content_char:
  assumes "c \<noteq> xml_nul" "escape_char False c = d # w"
  shows "xyields fl (content_char d acc) (w @ s, t) (acc @ [c]) (s, t)"
proof (cases "c = CHR ''<'' \<or> c = CHR ''>'' \<or> c = CHR ''&''")
  case True
  define ent where "ent = (if c = CHR ''<'' then ''lt'' else if c = CHR ''>'' then ''gt'' else ''amp'')"
  have ent: "(ent, c) \<in> set xml_entities" "escape_char False c = CHR ''&'' # ent @ [CHR '';'']"
    using True by (elim disjE; simp add: ent_def escape_char_def xml_entities_def)+
  with assms(2) have "d = CHR ''&''" "w @ s = ent @ CHR '';'' # s" by (metis list.inject append.assoc append_Cons append_Nil)+
  with xyields_entity [OF ent(1), of fl acc s t] show ?thesis by (simp add: content_char_def)
next
  case False
  with assms have "d = c" "w = []" "c \<noteq> CHR ''&''" by (simp_all add: escape_char_def)
  with assms(1) show ?thesis
    by (auto simp: content_char_def intro!: xyields_bind [OF xyields_count] xyields_return)
qed

lemma escape_head: "escape_char False c = d # w \<Longrightarrow> d \<noteq> CHR ''<'' \<and> (is_ascii_space d \<longleftrightarrow> is_ascii_space c) \<and> (is_ascii_space c \<longrightarrow> d = c \<and> w = [])"
  by (auto simp: escape_char_def is_ascii_space_def isspace_def split: if_splits)

lemma escape_nonempty: "escape_char b c \<noteq> []"
  by (simp add: escape_char_def)

lemma xyields_squash:
  assumes "fl AND PARSER_PRESERVE_WHITESPACE = 0" "\<not> is_ascii_space c"
  shows "xyields fl (squash_space c first acc) (s, t) (c, first, acc) (s, t)"
  unfolding squash_space_def using assms
  by (intro xyields_bind [OF xyields_flag [where b = False]]) (auto intro: xyields_return)

lemma xyields_squash_space:
  assumes "fl AND PARSER_PRESERVE_WHITESPACE = 0" "is_ascii_space c" "\<forall>c\<in>set ws. is_ascii_space c" "\<not> is_ascii_space d"
  shows "xyields fl (squash_space c first acc) (ws @ d # s, t) (d, False, if d \<noteq> CHR ''<'' then acc @ '' '' else acc) (s, t)"
  unfolding squash_space_def using assms
  by (intro xyields_bind [OF xyields_flag [where b = False]]) (auto intro!: xyields_bind [OF xyields_skip] xyields_return)

text \<open>The rest of a content: the text still to come, white space and the next tag.\<close>

lemma xyields_content_loop:
  assumes "fl AND PARSER_PRESERVE_WHITESPACE = 0" "\<forall>c\<in>set ws. is_ascii_space c"
  shows "squashed v \<Longrightarrow> first \<longrightarrow> v \<noteq> [] \<and> \<not> is_ascii_space (hd v) \<Longrightarrow>
   xml_escape False v @ ws @ CHR ''<'' # s = c # r \<Longrightarrow>
   xyields fl (content_loop fuel c first acc) (r, t) (acc @ v) (CHR ''<'' # s, t)"
proof (induction fuel arbitrary: v first c r acc)
  case (Suc fuel)
  have lt: "\<not> is_ascii_space CHR ''<''" by (simp add: is_ascii_space_def isspace_def)
  have one: "xyields fl (if d = CHR ''<'' \<and> \<not> first then fuel_bind (unget_char d) (\<lambda>_. fuel_return acc)
       else fuel_bind (content_char d acc) (\<lambda>content.
            fuel_bind (get_char xml_nul) (\<lambda>c. content_loop fuel c False content))) (r, t) (acc @ x # v') (CHR ''<'' # s, t)"
    if v': "squashed v'" "x \<noteq> xml_nul" "xml_escape False (x # v') @ ws @ CHR ''<'' # s = d # r" for x v' d r acc first
  proof -
    obtain e w where w: "escape_char False x = e # w" using escape_nonempty by (cases "escape_char False x") simp_all
    obtain c1 r1 where c1: "xml_escape False v' @ ws @ CHR ''<'' # s = c1 # r1"
      by (cases "xml_escape False v' @ ws @ CHR ''<'' # s") simp_all
    have d: "d = e" "r = w @ c1 # r1" using v'(3) w c1 by (simp_all add: xml_escape_def)
    have "d \<noteq> CHR ''<''" using escape_head [OF w] d(1) by simp
    moreover have "xyields fl (content_loop fuel c1 False (acc @ [x])) (r1, t) ((acc @ [x]) @ v') (CHR ''<'' # s, t)"
      by (rule Suc.IH [OF v'(1) _ c1]) simp
    ultimately show ?thesis
      using xyields_content_char [OF v'(2) w, of fl acc "c1 # r1" t] d
      by (auto intro!: xyields_bind xyields_get)
  qed
  show ?case
  proof (cases v)
    case Nil
    with Suc.prems have first: "\<not> first" by simp
    have close: "xyields fl (fuel_bind (unget_char CHR ''<'') (\<lambda>_. fuel_return acc)) (s, t) acc (CHR ''<'' # s, t)"
      by (intro xyields_bind [OF xyields_unget] xyields_return)
    show ?thesis
    proof (cases ws)
      case Nil
      with Suc.prems(3) \<open>v = []\<close> have "c = CHR ''<''" "r = s" by (simp_all add: xml_escape_def)
      with xyields_squash [OF assms(1) lt, where first = first and acc = acc and s = s and t = t] close first \<open>v = []\<close> show ?thesis
        by (auto intro!: xyields_bind)
    next
      case (Cons x ws')
      with Suc.prems(3) \<open>v = []\<close> have c: "c = x" "r = ws' @ CHR ''<'' # s" by (simp_all add: xml_escape_def)
      have "xyields fl (squash_space c first acc) (r, t) (CHR ''<'', False, acc) (s, t)"
        using xyields_squash_space [OF assms(1), where c = c and ws = ws' and d = "CHR ''<''" and first = first and acc = acc and s = s and t = t] assms(2) lt by (simp add: Cons c)
      with close \<open>v = []\<close> show ?thesis by (auto intro!: xyields_bind)
    qed
  next
    case (Cons x v')
    note sq = squashed_tail [OF Suc.prems(1) [unfolded Cons]]
    obtain e w where w: "escape_char False x = e # w" using escape_nonempty by (cases "escape_char False x") simp_all
    have c: "c = e" using Suc.prems(3) w by (simp add: Cons xml_escape_def)
    show ?thesis
    proof (cases "is_ascii_space x")
      case False
      then have "\<not> is_ascii_space c" using escape_head [OF w] c by simp
      with one [where v' = v' and x = x and d = c and r = r and acc = acc and first = first] sq Suc.prems(3) xyields_squash [OF assms(1), where c = c and first = first and acc = acc and s = r and t = t] show ?thesis
        by (auto simp: Cons intro!: xyields_bind)
    next
      case True
      then obtain y v2 where y: "v' = y # v2" "\<not> is_ascii_space y" using sq by (cases v') auto
      have sq2: "squashed v2" "y \<noteq> xml_nul" using squashed_tail [of y v2] sq y(1) by simp_all
      obtain f u where f: "escape_char False y = f # u" using escape_nonempty by (cases "escape_char False y") simp_all
      have x: "x = CHR '' ''" "c = x" "escape_char False x = [x]" using sq True escape_head [OF w] c w by auto
      define r2 where "r2 = u @ xml_escape False v2 @ ws @ CHR ''<'' # s"
      have r: "r = f # r2" using Suc.prems(3) x f by (simp add: Cons y(1) r2_def xml_escape_def)
      have "xyields fl (squash_space c first acc) (r, t) (f, False, acc @ '' '') (r2, t)"
        using xyields_squash_space [OF assms(1), where c = c and ws = "[]" and d = f and first = first and acc = acc and s = r2 and t = t] True x y(2) escape_head [OF f] by (simp add: r)
      moreover have "xml_escape False (y # v2) @ ws @ CHR ''<'' # s = f # r2" using f by (simp add: r2_def xml_escape_def)
      from one [OF sq2 this, where first = False and acc = "acc @ '' ''"]
      have "xyields fl (if f = CHR ''<'' \<and> \<not> False then fuel_bind (unget_char f) (\<lambda>_. fuel_return (acc @ '' ''))
       else fuel_bind (content_char f (acc @ '' '')) (\<lambda>content.
            fuel_bind (get_char xml_nul) (\<lambda>c. content_loop fuel c False content))) (r2, t) (acc @ v) (CHR ''<'' # s, t)"
        using x by (simp add: Cons y(1))
      ultimately show ?thesis by (auto intro!: xyields_bind)
    qed
  qed
qed simp

section \<open>Trees without line numbers\<close>

lemma deep_copy_simps:
  "el_name (deep_copy e) = el_name e" "el_content (deep_copy e) = el_content e" "el_attrs (deep_copy e) = el_attrs e"
  "el_children (deep_copy e) = map deep_copy (el_children e)" "el_line (deep_copy e) = 0"
  by (cases e, simp)+

lemma deep_copy_add_child: "deep_copy (add_child e p) = add_child (deep_copy e) (deep_copy p)"
  by (cases p) (simp add: add_child_def with_children_def)

lemma deep_copy_optimise: "deep_copy (optimise e) = optimise (deep_copy e)"
  by (cases e) (auto simp: optimise_def deep_copy_simps split: list.split)

definition attach_tree :: "Element \<Rightarrow> xml_tree \<Rightarrow> xml_tree" where
  "attach_tree e t =
     (case fst t of
        parent # es \<Rightarrow> (add_child e parent # es, snd t)
      | [] \<Rightarrow> (case snd t of None \<Rightarrow> ([], Some e) | Some _ \<Rightarrow> t))"

text \<open>The default flags: content is optimised, white space is not kept, names are not translated.\<close>

definition plain_flags :: "u32 \<Rightarrow> bool" where
  "plain_flags fl \<longleftrightarrow> fl AND PARSER_OPTIMISE_CONTENT \<noteq> 0 \<and> fl AND PARSER_PRESERVE_WHITESPACE = 0 \<and> fl AND PARSER_FIX_NAMESPACES = 0"

lemma finish_tree:
  assumes "plain_flags (p_flags p)"
  shows "p_view (finish_element e p) = (p_input p, attach_tree (optimise (deep_copy e)) (p_tree p))"
    "p_flags (finish_element e p) = p_flags p"
  using assms
  by (auto simp: plain_flags_def finish_element_def final_processing_def p_flag_def attach_def attach_tree_def p_view_def p_tree_def
      deep_copy_add_child deep_copy_optimise split: list.split option.split)

section \<open>Tags\<close>

lemma xyields_update:
  assumes "\<And>p. p_flags p = fl \<Longrightarrow> p_view p = x \<Longrightarrow> p_flags (f p) = fl \<and> p_view (f p) = y"
  shows "xyields fl (\<lambda>p. Some (Inr v, f p)) x v y"
  using assms by (simp add: fyields_def)

definition tag_tree :: "Element \<Rightarrow> bool \<Rightarrow> xml_tree \<Rightarrow> xml_tree" where
  "tag_tree e is_empty t = (if is_empty then attach_tree e t else (e # fst t, snd t))"

lemma xyields_tag:
  assumes "plain_flags fl" "valid_name n" "attrs_wf kvs" "\<forall>v\<in>set (map snd kvs). xml_nul \<notin> set v"
  shows "xyields fl (read_tag fuel (hd n)) (tl n @ concat (map write_attr kvs) @ tag_end is_empty @ s, t) is_empty
    (s, tag_tree (Element n [] kvs [] 0) is_empty t)"
proof -
  obtain c r where c: "concat (map write_attr kvs) @ tag_end is_empty @ s = c # r" "\<not> is_name_char c"
  proof (cases kvs)
    case Nil
    then show thesis using not_name_chars by (cases is_empty) (auto simp: tag_end_def intro: that)
  next
    case (Cons kv kvs')
    have "xml_nul \<notin> set (snd kv)" using assms(4) by (simp add: Cons)
    then obtain w where "write_attr (fst kv, snd kv) = CHR '' '' # w"
      by (rule write_attr_pieces [of "snd kv" "fst kv"]) simp
    then show thesis using not_name_chars by (auto simp: Cons intro: that)
  qed
  have n: "n = hd n # tl n" "\<forall>c\<in>set (tl n). is_name_char c"
    using assms(2) by (auto simp: valid_name_def dest: list.set_sel(2))
  have name: "xyields fl (read_rest_of_name (hd n)) (tl n @ c # r, t) (n, c) (r, t)"
    using xyields_name [OF n(2) c(2), of fl "hd n" r t] n(1) by simp
  have attrs: "xyields fl (read_attrs fuel [] c) (r, t) (kvs, is_empty) (s, t)"
    using xyields_attrs [of "[]" kvs is_empty s c r fl fuel t] assms(3,4) c(1) by (auto simp: attrs_wf_def)
  have op: "xyields fl (\<lambda>p. Some (Inr is_empty, open_element (Element n [] kvs [] line) is_empty p)) (s, t) is_empty
      (s, tag_tree (Element n [] kvs [] 0) is_empty t)" for line
  proof (rule xyields_update)
    fix p assume p: "p_flags p = fl" "p_view p = (s, t)"
    then have init: "initial_processing e p = p" for e using assms(1) by (simp add: initial_processing_def p_flag_def plain_flags_def)
    have opt: "optimise (Element n [] kvs [] 0) = Element n [] kvs [] 0" by (simp add: optimise_def)
    show "p_flags (open_element (Element n [] kvs [] line) is_empty p) = fl
        \<and> p_view (open_element (Element n [] kvs [] line) is_empty p) = (s, tag_tree (Element n [] kvs [] 0) is_empty t)"
      using finish_tree [of p "Element n [] kvs [] line"] p assms(1) opt
      by (cases is_empty) (auto simp: open_element_def init tag_tree_def p_view_def p_tree_def)
  qed
  show ?thesis
    unfolding read_tag_def c(1)
    by (rule xyields_bind [OF name], simp, rule xyields_asks_bind, rule xyields_bind [OF attrs], simp, rule op)
qed

lemma xyields_end_tag:
  assumes "plain_flags fl" "valid_name (el_name e)"
  shows "xyields fl (fuel_bind (read_end_tag (hd (el_name e))) (\<lambda>_. asks (\<lambda>p. p_elements p = [])))
    (tl (el_name e) @ CHR ''>'' # s, (e # es, None)) (es = []) (s, attach_tree (optimise e) (es, None))"
proof -
  let ?n = "el_name e"
  have n: "?n = hd ?n # tl ?n" "\<forall>c\<in>set (tl ?n). is_name_char c"
    using assms(2) by (auto simp: valid_name_def dest: list.set_sel(2))
  have name: "xyields fl (read_rest_of_name (hd ?n)) (tl ?n @ CHR ''>'' # s, t) (?n, CHR ''>'') (s, t)" for t
    using xyields_name [OF n(2), of "CHR ''>''" fl "hd ?n" s t] not_name_chars n(1) by simp
  have close: "xyields fl (close_element ?n) (s, (e # es, None)) () (s, attach_tree (optimise e) (es, None))"
    unfolding fyields_def
  proof (intro allI impI)
    fix p assume p: "p_flags p = fl \<and> p_view p = (s, (e # es, None))"
    then obtain x xs where x: "p_elements p = x # xs" "deep_copy x = e" "map deep_copy xs = es" "p_input p = s" "p_root p = None"
      by (auto simp: p_view_def p_tree_def)
    then have "el_name x = ?n" using deep_copy_simps(1) [of x] by simp
    with x finish_tree [of "p \<lparr> p_elements := xs \<rparr>" x] p assms(1)
    show "close_element ?n p = None \<or> (\<exists>s'. close_element ?n p = Some (Inr (), s') \<and> p_flags s' = fl
        \<and> p_view s' = (s, attach_tree (optimise e) (es, None)))"
      by (simp add: close_element_def p_tree_def)
  qed
  have emptied: "xyields fl (asks (\<lambda>p. p_elements p = [])) (s, attach_tree (optimise e) (es, None)) (es = []) (s, attach_tree (optimise e) (es, None))"
    by (rule xyields_asks) (auto simp: p_view_def p_tree_def attach_tree_def split: list.splits)
  have gt: "\<not> is_ascii_space CHR ''>''" by (simp add: is_ascii_space_def isspace_def)
  have "xyields fl (read_end_tag (hd ?n)) (tl ?n @ CHR ''>'' # s, (e # es, None)) () (s, attach_tree (optimise e) (es, None))"
    unfolding read_end_tag_def using close gt
    by (intro xyields_bind [OF name]) (auto intro!: xyields_bind [OF xyields_return])
  from xyields_bind [OF this emptied] show ?thesis .
qed

definition data_fits :: "Element \<Rightarrow> Element \<Rightarrow> bool" where
  "data_fits e parent \<longleftrightarrow> (el_name e = [] \<longrightarrow> el_children parent = [] \<or> el_name (last (el_children parent)) \<noteq> [])"

lemma xyields_content:
  assumes "fl AND PARSER_PRESERVE_WHITESPACE = 0" "text_ok v" "\<forall>c\<in>set ws. is_ascii_space c"
    "xml_escape False v @ ws @ CHR ''<'' # s = c # r" "el_children e = [] \<or> el_name (last (el_children e)) \<noteq> []"
  shows "xyields fl (read_content fuel c) (r, (e # es, rt)) () (CHR ''<'' # s, (add_child (new_element [] v []) e # es, rt))"
  unfolding read_content_def
proof (rule xyields_bind)
  show "xyields fl (content_loop fuel c True []) (r, (e # es, rt)) v (CHR ''<'' # s, (e # es, rt))"
    using xyields_content_loop [OF assms(1,3), of v True s c r fuel "[]" "(e # es, rt)"] assms(2,4) by (simp add: text_ok_def)
  show "xyields fl (\<lambda>p. Some (Inr (), case p_elements p of
        e # es \<Rightarrow> p \<lparr> p_elements := add_content (p_flag PARSER_PRESERVE_WHITESPACE p) v e # es \<rparr> | [] \<Rightarrow> p))
      (CHR ''<'' # s, (e # es, rt)) () (CHR ''<'' # s, (add_child (new_element [] v []) e # es, rt))"
  proof (rule xyields_update)
    fix p assume p: "p_flags p = fl" "p_view p = (CHR ''<'' # s, (e # es, rt))"
    then obtain x xs where x: "p_elements p = x # xs" "deep_copy x = e" "map deep_copy xs = es" "p_input p = CHR ''<'' # s"
      "map_option deep_copy (p_root p) = rt" by (auto simp: p_view_def p_tree_def)
    have ch: "el_children e = map deep_copy (el_children x)" using deep_copy_simps(4) [of x] x(2) by simp
    have "el_children x = [] \<or> el_name (last (el_children x)) \<noteq> []"
      using assms(5) by (auto simp: ch last_map deep_copy_simps)
    then have "add_content b v x = add_child (new_element [] v []) x" for b by (auto simp: add_content_def)
    moreover have "deep_copy (new_element [] v []) = new_element [] v []" by (simp add: new_element_def)
    ultimately show "p_flags (case p_elements p of e # es \<Rightarrow> p \<lparr> p_elements := add_content (p_flag PARSER_PRESERVE_WHITESPACE p) v e # es \<rparr> | [] \<Rightarrow> p) = fl \<and>
        p_view (case p_elements p of e # es \<Rightarrow> p \<lparr> p_elements := add_content (p_flag PARSER_PRESERVE_WHITESPACE p) v e # es \<rparr> | [] \<Rightarrow> p)
          = (CHR ''<'' # s, (add_child (new_element [] v []) e # es, rt))"
      using p x by (simp add: p_view_def p_tree_def deep_copy_add_child)
  qed
qed

section \<open>Runs of the document loop\<close>

definition xml_run :: "u32 \<Rightarrow> string \<times> xml_tree \<Rightarrow> string \<times> xml_tree \<Rightarrow> bool" where
  "xml_run fl x y \<longleftrightarrow> (\<forall>fuel. xyields fl (parse_loop fuel) x () y)"

lemma run_step:
  assumes "\<And>fuel. xyields fl (parse_step fuel) x finished x'" "if finished then x' = y else xml_run fl x' y"
  shows "xml_run fl x y"
  unfolding xml_run_def
proof
  fix fuel
  show "xyields fl (parse_loop fuel) x () y"
  proof (cases fuel)
    case (Suc n)
    have "xyields fl (if finished then fuel_return () else parse_loop n) x' () y"
      using assms(2) xyields_return [of fl "()" y] by (auto simp: xml_run_def split: if_splits)
    with assms(1) show ?thesis unfolding Suc parse_loop.simps by (rule xyields_bind)
  qed simp
qed

text \<open>White space before a tag only counts lines.\<close>

lemma loop_skip:
  assumes "p_flags p AND PARSER_PRESERVE_WHITESPACE = 0" "\<forall>c\<in>set ws. is_ascii_space c" "p_input p = ws @ s"
  shows "parse_loop fuel p =
    parse_loop fuel (p \<lparr> p_input := s, p_line := p_line p + int (length (filter (\<lambda>c. c = CHR 0x0A) ws)) \<rparr>)"
proof (cases fuel)
  case (Suc n)
  define p2 where "p2 = p \<lparr> p_input := s, p_line := p_line p + int (length (filter (\<lambda>c. c = CHR 0x0A) ws)) \<rparr>"
  have "xml_skip_ws xml_nul p = xml_skip_ws xml_nul p2"
    using assms(2,3) by (simp add: xml_skip_ws_def p2_def skip_ws_spaces split: prod.split)
  then have "parse_step n p = parse_step n p2"
    using assms(1) by (simp add: parse_step_def fuel_bind_def p_flag_def p2_def)
  then show ?thesis by (simp add: Suc fuel_bind_def flip: p2_def)
qed simp

lemma run_spaces:
  assumes "fl AND PARSER_PRESERVE_WHITESPACE = 0" "\<forall>c\<in>set ws. is_ascii_space c"
  shows "xml_run fl (ws @ s, t) y \<longleftrightarrow> xml_run fl (s, t) y"
proof -
  let ?k = "int (length (filter (\<lambda>c. c = CHR 0x0A) ws))"
  have "xyields fl (parse_loop fuel) (ws @ s, t) () y \<longleftrightarrow> xyields fl (parse_loop fuel) (s, t) () y" for fuel
  proof
    assume y: "xyields fl (parse_loop fuel) (s, t) () y"
    show "xyields fl (parse_loop fuel) (ws @ s, t) () y"
      unfolding fyields_def
    proof (intro allI impI)
      fix p assume p: "p_flags p = fl \<and> p_view p = (ws @ s, t)"
      with loop_skip [of p ws s fuel] assms
      have "parse_loop fuel p = parse_loop fuel (p \<lparr> p_input := s, p_line := p_line p + ?k \<rparr>)" by (simp add: p_view_def)
      with y p show "parse_loop fuel p = None \<or> (\<exists>s'. parse_loop fuel p = Some (Inr (), s') \<and> p_flags s' = fl \<and> p_view s' = y)"
        by (simp add: fyields_def p_view_def p_tree_def)
    qed
  next
    assume y: "xyields fl (parse_loop fuel) (ws @ s, t) () y"
    show "xyields fl (parse_loop fuel) (s, t) () y"
      unfolding fyields_def
    proof (intro allI impI)
      fix p assume p: "p_flags p = fl \<and> p_view p = (s, t)"
      define q where "q = p \<lparr> p_input := ws @ s, p_line := p_line p - ?k \<rparr>"
      have "q \<lparr> p_input := s, p_line := p_line q + ?k \<rparr> = p" using p by (cases p) (simp add: q_def p_view_def)
      with loop_skip [of q ws s fuel] assms p have "parse_loop fuel q = parse_loop fuel p" by (simp add: q_def p_view_def input_same)
      moreover have "p_flags q = fl \<and> p_view q = (ws @ s, t)" using p by (simp add: q_def p_view_def p_tree_def)
      ultimately show "parse_loop fuel p = None \<or> (\<exists>s'. parse_loop fuel p = Some (Inr (), s') \<and> p_flags s' = fl \<and> p_view s' = y)"
        using y unfolding fyields_def by metis
    qed
  qed
  then show ?thesis by (simp add: xml_run_def)
qed

section \<open>Steps\<close>

lemma step_reads:
  assumes "fl AND PARSER_PRESERVE_WHITESPACE = 0" "\<not> is_ascii_space c"
    "\<And>rooted. (fst t \<noteq> [] \<longrightarrow> rooted) \<Longrightarrow> xyields fl (if c = xml_nul
       then xml_fatal (if rooted then ''Input stream failed unexpectedly'' else ''Empty or unreadable document'')
       else if c = CHR ''<'' then read_markup fuel
       else if rooted then and_go_on (read_content fuel c)
       else xml_fatal ''Non-tag data at start of document'') (r, t) b x"
  shows "xyields fl (parse_step fuel) (c # r, t) b x"
proof -
  have raw: "xyields fl (asks (\<lambda>p. has_root p \<and> p_flag PARSER_PRESERVE_WHITESPACE p)) (c # r, t) False (c # r, t)"
    by (rule xyields_asks) (use assms(1) in \<open>simp add: p_flag_def\<close>)
  have skip: "xyields fl (xml_skip_ws xml_nul) (c # r, t) c (r, t)"
    using xyields_skip [of "[]" c fl xml_nul r t] assms(2) by simp
  have "xyields fl (fuel_bind (asks has_root) g) (r, t) b x"
    if "\<And>rooted. (fst t \<noteq> [] \<longrightarrow> rooted) \<Longrightarrow> xyields fl (g rooted) (r, t) b x" for g :: "bool \<Rightarrow> bool xparse"
    unfolding fyields_def
  proof (intro allI impI)
    fix p assume p: "p_flags p = fl \<and> p_view p = (r, t)"
    then have "fst t \<noteq> [] \<longrightarrow> has_root p" by (auto simp: p_view_def p_tree_def has_root_def)
    from that [OF this] p show "fuel_bind (asks has_root) g p = None
        \<or> (\<exists>s'. fuel_bind (asks has_root) g p = Some (Inr b, s') \<and> p_flags s' = fl \<and> p_view s' = x)"
      by (simp add: fyields_def fuel_bind_def)
  qed
  from this [OF assms(3)] show ?thesis
    unfolding parse_step_def by (intro xyields_bind [OF raw]) (simp add: xyields_bind [OF skip])
qed

lemma lt_plain: "\<not> is_ascii_space CHR ''<''"
  by (simp add: is_ascii_space_def isspace_def)

lemma step_lt:
  assumes "fl AND PARSER_PRESERVE_WHITESPACE = 0" "xyields fl (read_markup fuel) (r, t) b x"
  shows "xyields fl (parse_step fuel) (CHR ''<'' # r, t) b x"
  using assms lt_plain by (intro step_reads) simp_all

lemma asks_emptied: "xyields fl (asks (\<lambda>p. b \<and> p_elements p = [])) (s, t) (b \<and> fst t = []) (s, t)"
  by (rule xyields_asks) (auto simp: p_view_def p_tree_def)

lemma step_start_tag:
  assumes "plain_flags fl" "valid_name n" "attrs_wf kvs" "\<forall>v\<in>set (map snd kvs). xml_nul \<notin> set v"
  shows "xyields fl (parse_step fuel) (''<'' @ n @ concat (map write_attr kvs) @ tag_end is_empty @ s, t)
    (is_empty \<and> fst (tag_tree (Element n [] kvs [] 0) is_empty t) = []) (s, tag_tree (Element n [] kvs [] 0) is_empty t)"
proof -
  have n: "n = hd n # tl n" "is_name_start (hd n)" using assms(2) by (simp_all add: valid_name_def)
  define r where "r = tl n @ concat (map write_attr kvs) @ tag_end is_empty @ s"
  have "xyields fl (fuel_bind (read_tag fuel (hd n)) (\<lambda>is_empty. asks (\<lambda>p. is_empty \<and> p_elements p = []))) (r, t)
    (is_empty \<and> fst (tag_tree (Element n [] kvs [] 0) is_empty t) = []) (s, tag_tree (Element n [] kvs [] 0) is_empty t)"
    unfolding r_def by (rule xyields_bind [OF xyields_tag [OF assms] asks_emptied])
  then have "xyields fl (read_markup fuel) (hd n # r, t)
    (is_empty \<and> fst (tag_tree (Element n [] kvs [] 0) is_empty t) = []) (s, tag_tree (Element n [] kvs [] 0) is_empty t)"
    unfolding read_markup_def using name_start_classes [OF n(2)] n(2)
    by (intro xyields_asks_bind xyields_bind [OF xyields_get]) simp
  moreover have "''<'' @ n @ concat (map write_attr kvs) @ tag_end is_empty @ s = CHR ''<'' # hd n # r"
    using n(1) by (metis append_Cons append_Nil r_def)
  ultimately show ?thesis using assms(1) by (simp add: step_lt plain_flags_def)
qed

lemma step_end_tag_reads:
  assumes "plain_flags fl" "valid_name (el_name e)"
  shows "xyields fl (parse_step fuel) (''</'' @ el_name e @ ''>'' @ s, (e # es, None)) (es = []) (s, attach_tree (optimise e) (es, None))"
proof -
  have n: "el_name e = hd (el_name e) # tl (el_name e)" "is_name_start (hd (el_name e))" using assms(2) by (simp_all add: valid_name_def)
  have "xyields fl (read_markup fuel) (CHR ''/'' # hd (el_name e) # tl (el_name e) @ CHR ''>'' # s, (e # es, None)) (es = [])
      (s, attach_tree (optimise e) (es, None))"
    unfolding read_markup_def using xyields_end_tag [OF assms, of s es] n(2)
    by (intro xyields_asks_bind xyields_bind [OF xyields_get]) (auto intro!: xyields_bind [OF xyields_get])
  from step_lt [OF _ this] assms(1)
  have "xyields fl (parse_step fuel) (CHR ''<'' # CHR ''/'' # hd (el_name e) # tl (el_name e) @ CHR ''>'' # s, (e # es, None)) (es = [])
      (s, attach_tree (optimise e) (es, None))" by (simp add: plain_flags_def)
  moreover have "CHR ''<'' # CHR ''/'' # hd (el_name e) # tl (el_name e) @ CHR ''>'' # s = ''</'' @ el_name e @ ''>'' @ s"
    using n(1) by (metis append_Cons append_Nil)
  ultimately show ?thesis by (simp only:)
qed

lemma step_text:
  assumes "fl AND PARSER_PRESERVE_WHITESPACE = 0" "text_ok v" "\<forall>c\<in>set ws. is_ascii_space c"
    "el_children e = [] \<or> el_name (last (el_children e)) \<noteq> []"
  shows "xyields fl (parse_step fuel) (xml_escape False v @ ws @ CHR ''<'' # s, (e # es, rt)) False
    (CHR ''<'' # s, (add_child (new_element [] v []) e # es, rt))"
proof -
  obtain x v' where v: "v = x # v'" "\<not> is_ascii_space x" "squashed v" using assms(2) by (cases v) (auto simp: text_ok_def)
  then have x: "x \<noteq> xml_nul" using squashed_tail [of x v'] by simp
  obtain c w where w: "escape_char False x = c # w" using escape_nonempty by (cases "escape_char False x") simp_all
  define r where "r = w @ xml_escape False v' @ ws @ CHR ''<'' # s"
  have r: "xml_escape False v @ ws @ CHR ''<'' # s = c # r" using w by (simp add: v(1) r_def xml_escape_def)
  have c: "c \<noteq> xml_nul" "c \<noteq> CHR ''<''" "\<not> is_ascii_space c"
    using escape_head [OF w] v(2) x w by (auto simp: escape_char_def split: if_splits)
  have "xyields fl (and_go_on (read_content fuel c)) (r, (e # es, rt)) False (CHR ''<'' # s, (add_child (new_element [] v []) e # es, rt))"
    by (rule xyields_bind [OF xyields_content [OF assms(1-3) r assms(4)] xyields_return])
  then show ?thesis unfolding r using assms(1) c by (intro step_reads) simp_all
qed

section \<open>Elements\<close>

text \<open>The element with what has been read inside its tags, before it is closed.\<close>

definition filled :: "Element \<Rightarrow> Element" where
  "filled e = Element (el_name e) [] (el_attrs e)
     (if el_content e \<noteq> [] then [new_element [] (el_content e) []] else map deep_copy (el_children e)) 0"

lemma optimise_filled:
  assumes "xml_canon e" "el_name e \<noteq> []"
  shows "optimise (filled e) = deep_copy e"
proof -
  obtain n c attrs cs l where e: "e = Element n c attrs cs l" by (cases e)
  have lone: "\<not> lone_data (map deep_copy cs)" if "c = []"
    using assms that by (auto simp: e lone_data_def deep_copy_simps)
  show ?thesis
  proof (cases "c = []")
    case True
    with lone [OF True] show ?thesis
      by (auto simp: e filled_def optimise_def lone_data_def split: list.split)
  next
    case False
    with assms show ?thesis by (simp add: e filled_def optimise_def new_element_def)
  qed
qed

text \<open>Reading the text of an element inside another one adds it, whatever the rest of the run does.\<close>

definition runs :: "u32 \<Rightarrow> Element \<Rightarrow> bool" where
  "runs fl e \<longleftrightarrow> (\<forall>ind parent es s y. data_fits e parent \<longrightarrow>
     (el_name e = [] \<longrightarrow> (\<exists>ws s'. (\<forall>c\<in>set ws. is_ascii_space c) \<and> s = ws @ CHR ''<'' # s')) \<longrightarrow>
     xml_run fl (s, (add_child (deep_copy e) parent # es, None)) y \<longrightarrow>
     xml_run fl (write_indented ind e @ s, (parent # es, None)) y)"

lemma runsD:
  assumes "runs fl e" "data_fits e parent" "el_name e = [] \<Longrightarrow> \<exists>ws s'. (\<forall>c\<in>set ws. is_ascii_space c) \<and> s = ws @ CHR ''<'' # s'"
    "xml_run fl (s, (add_child (deep_copy e) parent # es, None)) y"
  shows "xml_run fl (write_indented ind e @ s, (parent # es, None)) y"
  using assms unfolding runs_def by blast

lemma spaces_space: "\<forall>c\<in>set (spaces n). is_ascii_space c" "is_ascii_space CHR 0x0A"
  by (auto simp: spaces_def is_ascii_space_def isspace_def)

lemma run_indent: "plain_flags fl \<Longrightarrow> xml_run fl (spaces n @ s, t) y \<longleftrightarrow> xml_run fl (s, t) y"
  by (rule run_spaces) (simp_all add: spaces_space plain_flags_def)

lemma run_newline: "plain_flags fl \<Longrightarrow> xml_run fl (CHR 0x0A # s, t) y \<longleftrightarrow> xml_run fl (s, t) y"
  using run_spaces [of fl xml_nl s t y] by (simp add: spaces_space plain_flags_def)

lemma starts_tag:
  assumes "cs = [] \<or> el_name (hd cs) \<noteq> []"
  shows "\<exists>ws s'. (\<forall>c\<in>set ws. is_ascii_space c) \<and> concat (map (write_indented ind) cs) @ spaces k @ CHR ''<'' # s = ws @ CHR ''<'' # s'"
proof (cases cs)
  case Nil
  then show ?thesis using spaces_space(1) [of k] by auto
next
  case (Cons e cs')
  with assms obtain w where "write_indented ind e = spaces ind @ CHR ''<'' # w" by (cases e) simp
  then show ?thesis using spaces_space(1) [of ind] by (auto simp: Cons)
qed

lemma run_children:
  assumes "plain_flags fl"
  shows "\<forall>e\<in>set cs. runs fl e \<Longrightarrow> no_adjacent (el_children parent @ cs) \<Longrightarrow>
   xml_run fl (CHR ''<'' # s, (with_children (el_children parent @ map deep_copy cs) parent # es, None)) y \<Longrightarrow>
   xml_run fl (concat (map (write_indented ind) cs) @ spaces k @ CHR ''<'' # s, (parent # es, None)) y"
proof (induction cs arbitrary: parent)
  case Nil
  have "with_children (el_children parent) parent = parent" by (cases parent) (simp add: with_children_def)
  with Nil.prems(3) show ?case by (simp add: run_indent [OF assms])
next
  case (Cons e cs)
  have adj: "no_adjacent (el_children parent @ [e] @ cs)" using Cons.prems(2) by simp
  have fits: "data_fits e parent"
    using adj by (cases "el_children parent" rule: rev_cases) (auto simp: data_fits_def no_adjacent_def successively_append_iff)
  have tag: "el_name e = [] \<Longrightarrow> cs = [] \<or> el_name (hd cs) \<noteq> []"
    using adj by (cases cs) (auto simp: no_adjacent_def successively_append_iff)
  have names: "map el_name (el_children parent @ [deep_copy e] @ cs) = map el_name (el_children parent @ [e] @ cs)"
    by (simp add: deep_copy_simps)
  have adj': "no_adjacent xs \<longleftrightarrow> successively (\<lambda>a b. a \<noteq> [] \<or> b \<noteq> []) (map el_name xs)" for xs
    by (simp add: no_adjacent_def successively_map)
  have "no_adjacent (el_children (add_child (deep_copy e) parent) @ cs)"
    using adj unfolding adj' names [symmetric] by (simp add: add_child_def with_children_def)
  moreover have "with_children (el_children (add_child (deep_copy e) parent) @ map deep_copy cs) (add_child (deep_copy e) parent)
      = with_children (el_children parent @ map deep_copy (e # cs)) parent"
    by (simp add: add_child_def with_children_def)
  ultimately have "xml_run fl (concat (map (write_indented ind) cs) @ spaces k @ CHR ''<'' # s, (add_child (deep_copy e) parent # es, None)) y"
    using Cons.IH [of "add_child (deep_copy e) parent"] Cons.prems(1,3) by simp
  moreover have "runs fl e" using Cons.prems(1) by simp
  ultimately have "xml_run fl (write_indented ind e @ concat (map (write_indented ind) cs) @ spaces k @ CHR ''<'' # s, (parent # es, None)) y"
    using fits starts_tag [OF tag, of ind k s] by (intro runsD) simp_all
  then show ?case by simp
qed

text \<open>The tags of a named element with what is between them.\<close>

lemma run_inside:
  assumes "plain_flags fl" "xml_canon e" "el_name e \<noteq> []" "\<forall>c\<in>set (el_children e). runs fl c" "el_content e \<noteq> [] \<or> el_children e \<noteq> []"
    "xml_run fl (''</'' @ el_name e @ ''>'' @ xml_nl @ s, (filled e # es, None)) y"
  shows "xml_run fl (write_indented ind e @ s, (es, None)) y"
proof -
  obtain n c attrs cs l where e: "e = Element n c attrs cs l" by (cases e)
  note canon = assms(2,3) [unfolded e, simplified]
  let ?open = "Element n [] attrs [] 0"
  have start: "xyields fl (parse_step fuel) (''<'' @ n @ concat (map write_attr attrs) @ tag_end False @ r, (es, None)) False
      (r, (?open # es, None))" for fuel r
    using step_start_tag [of fl n attrs fuel False r "(es, None)"] assms(1) canon by (simp add: tag_tree_def)
  show ?thesis
  proof (cases "c = []")
    case False
    define r where "r = CHR ''/'' # n @ ''>'' @ xml_nl @ s"
    have "add_child (new_element [] c []) ?open = filled e"
      using False by (simp add: e filled_def add_child_def with_children_def)
    then have chars: "xyields fl (parse_step fuel) (xml_escape False c @ CHR ''<'' # r, (?open # es, None)) False
        (CHR ''<'' # r, (filled e # es, None))" for fuel
      using step_text [of fl c "[]" ?open fuel r es None] assms(1) canon False by (simp add: plain_flags_def)
    have "write_indented ind e @ s = spaces ind @ ''<'' @ n @ concat (map write_attr attrs) @ tag_end False @ xml_escape False c @ CHR ''<'' # r"
      using canon False by (simp add: e r_def tag_end_def)
    moreover have "xml_run fl (CHR ''<'' # r, (filled e # es, None)) y" using assms(6) by (simp add: e r_def)
    ultimately show ?thesis
      using run_step [OF chars] run_step [OF start] by (simp add: run_indent [OF assms(1)])
  next
    case True
    then have cs: "cs \<noteq> []" using assms(5) by (simp add: e)
    define r where "r = CHR ''/'' # n @ ''>'' @ xml_nl @ s"
    have "with_children (el_children ?open @ map deep_copy cs) ?open = filled e"
      using True by (simp add: e filled_def with_children_def)
    with assms(6) have "xml_run fl (concat (map (write_indented (ind + 2)) cs) @ spaces ind @ CHR ''<'' # r, (?open # es, None)) y"
      using assms(4) canon by (intro run_children [OF assms(1)]) (simp_all add: e r_def)
    moreover have "write_indented ind e @ s = spaces ind @ ''<'' @ n @ concat (map write_attr attrs) @ tag_end False @
        CHR 0x0A # concat (map (write_indented (ind + 2)) cs) @ spaces ind @ CHR ''<'' # r"
      using canon cs by (simp add: e r_def tag_end_def)
    ultimately show ?thesis
      using run_step [OF start] by (simp add: run_indent [OF assms(1)] run_newline [OF assms(1)])
  qed
qed

lemma run_empty:
  assumes "plain_flags fl" "xml_canon e" "el_name e \<noteq> []" "el_content e = []" "el_children e = []"
    "if es = [] then (xml_nl @ s, attach_tree (deep_copy e) (es, None)) = y
     else xml_run fl (xml_nl @ s, attach_tree (deep_copy e) (es, None)) y"
  shows "xml_run fl (write_indented ind e @ s, (es, None)) y"
proof -
  obtain n attrs l where e: "e = Element n [] attrs [] l" using assms(4,5) by (cases e) simp
  note canon = assms(2,3) [unfolded e, simplified]
  have "fst (tag_tree (Element n [] attrs [] 0) True (es, None)) = [] \<longleftrightarrow> es = []"
    by (simp add: tag_tree_def attach_tree_def split: list.split)
  then have "xyields fl (parse_step fuel) (''<'' @ n @ concat (map write_attr attrs) @ tag_end True @ xml_nl @ s, (es, None)) (es = [])
      (xml_nl @ s, attach_tree (deep_copy e) (es, None))" for fuel
    using step_start_tag [of fl n attrs fuel True "xml_nl @ s" "(es, None)"] assms(1) canon by (simp add: tag_tree_def e)
  from run_step [OF this] assms(6)
  have "xml_run fl (''<'' @ n @ concat (map write_attr attrs) @ tag_end True @ xml_nl @ s, (es, None)) y" by simp
  moreover have "write_indented ind e @ s = spaces ind @ ''<'' @ n @ concat (map write_attr attrs) @ tag_end True @ xml_nl @ s"
    using canon by (simp add: e tag_end_def)
  ultimately show ?thesis by (simp add: run_indent [OF assms(1)])
qed

lemma run_named:
  assumes "plain_flags fl" "xml_canon e" "el_name e \<noteq> []" "\<forall>c\<in>set (el_children e). runs fl c"
    "if es = [] then (xml_nl @ s, attach_tree (deep_copy e) (es, None)) = y
     else xml_run fl (xml_nl @ s, attach_tree (deep_copy e) (es, None)) y"
  shows "xml_run fl (write_indented ind e @ s, (es, None)) y"
proof (cases "el_content e = [] \<and> el_children e = []")
  case True
  with assms show ?thesis by (intro run_empty) simp_all
next
  case False
  have "valid_name (el_name (filled e))" "el_name (filled e) = el_name e"
    using assms(2,3) by (cases e; simp add: filled_def)+
  with step_end_tag_reads [OF assms(1), of "filled e"]
  have "xyields fl (parse_step fuel) (''</'' @ el_name e @ ''>'' @ xml_nl @ s, (filled e # es, None)) (es = [])
      (xml_nl @ s, attach_tree (deep_copy e) (es, None))" for fuel
    by (simp add: optimise_filled [OF assms(2,3)])
  from run_step [OF this] assms(5)
  have "xml_run fl (''</'' @ el_name e @ ''>'' @ xml_nl @ s, (filled e # es, None)) y" by simp
  with False assms(1-4) show ?thesis by (intro run_inside) simp_all
qed

lemma run_data:
  assumes "plain_flags fl" "xml_canon e" "el_name e = []"
  shows "runs fl e"
  unfolding runs_def
proof (intro allI impI)
  fix ind parent es s y
  assume fits: "data_fits e parent"
    and tag: "el_name e = [] \<longrightarrow> (\<exists>ws s'. (\<forall>c\<in>set ws. is_ascii_space c) \<and> s = ws @ CHR ''<'' # s')"
    and run: "xml_run fl (s, (add_child (deep_copy e) parent # es, None)) y"
  obtain c l where e: "e = Element [] c [] [] l" "text_ok c" using assms(2,3) by (cases e) auto
  from tag assms(3) obtain ws s' where s: "\<forall>c\<in>set ws. is_ascii_space c" "s = ws @ CHR ''<'' # s'" by blast
  have "xyields fl (parse_step fuel) (xml_escape False c @ (xml_nl @ ws) @ CHR ''<'' # s', (parent # es, None)) False
      (CHR ''<'' # s', (add_child (new_element [] c []) parent # es, None))" for fuel
    using step_text [of fl c "xml_nl @ ws" parent fuel s' es None] assms(1,3) e(2) s(1) fits spaces_space(2)
    by (simp add: plain_flags_def data_fits_def)
  moreover have "xml_run fl (CHR ''<'' # s', (add_child (new_element [] c []) parent # es, None)) y"
    using run run_spaces [OF _ s(1), of fl] assms(1) by (simp add: e(1) s(2) new_element_def plain_flags_def)
  ultimately have "xml_run fl (xml_escape False c @ (xml_nl @ ws) @ CHR ''<'' # s', (parent # es, None)) y"
    by (rule run_step [where finished = False, simplified])
  then show "xml_run fl (write_indented ind e @ s, (parent # es, None)) y"
    by (simp add: e(1) s(2) run_indent [OF assms(1)])
qed

lemma run_element:
  assumes "plain_flags fl"
  shows "xml_canon e \<Longrightarrow> runs fl e"
proof (induction e)
  case (Element n c attrs cs l)
  let ?e = "Element n c attrs cs l"
  show ?case
  proof (cases "n = []")
    case True
    with run_data [OF assms Element.prems] show ?thesis by simp
  next
    case False
    then have "\<forall>c\<in>set cs. runs fl c" using Element by simp
    then have "xml_run fl (write_indented ind ?e @ s, (parent # es, None)) y"
      if "xml_run fl (s, (add_child (deep_copy ?e) parent # es, None)) y" for ind parent es s y
      using run_named [OF assms Element.prems, of "parent # es" s y ind] that False
      by (simp add: attach_tree_def run_newline [OF assms])
    then show ?thesis unfolding runs_def by blast
  qed
qed

text \<open>A whole document, with or without the processing instruction in front.\<close>

lemma run_pi:
  assumes "plain_flags fl" "xml_run fl (s, t) y"
  shows "xml_run fl (xml_pi @ xml_nl @ s, t) y"
proof (rule run_step)
  have loop: "pi_loop (drop 2 xml_pi @ r) l = (True, r, l)" for r l by (simp add: xml_pi_def)
  have "xyields fl skip_pi (drop 2 xml_pi @ r, t) () (r, t)" for r
    by (rule xyields_reader) (simp add: skip_pi_def skip_with_def loop same_tree_def)
  then have pi: "xyields fl (and_go_on skip_pi) (drop 2 xml_pi @ r, t) False (r, t)" for r
    by (rule xyields_bind) (rule xyields_return)
  have "xyields fl (read_markup fuel) (CHR ''?'' # drop 2 xml_pi @ xml_nl @ s, t) False (xml_nl @ s, t)" for fuel
    unfolding read_markup_def by (intro xyields_asks_bind xyields_bind [OF xyields_get]) (simp add: pi)
  from step_lt [OF _ this] assms(1)
  have "xyields fl (parse_step fuel) (CHR ''<'' # CHR ''?'' # drop 2 xml_pi @ xml_nl @ s, t) False (xml_nl @ s, t)" for fuel
    by (simp add: plain_flags_def)
  moreover have "CHR ''<'' # CHR ''?'' # drop 2 xml_pi @ xml_nl @ s = xml_pi @ xml_nl @ s" by (simp add: xml_pi_def)
  ultimately show "xyields fl (parse_step fuel) (xml_pi @ xml_nl @ s, t) False (xml_nl @ s, t)" for fuel
    by (simp only:)
  show "if False then (xml_nl @ s, t) = y else xml_run fl (xml_nl @ s, t) y"
    using assms(2) by (simp add: run_newline [OF assms(1)])
qed

lemma run_document:
  assumes "plain_flags fl" "xml_canon e" "el_name e \<noteq> []"
  shows "xml_run fl (xml_to_string with_pi e, ([], None)) (xml_nl, ([], Some (deep_copy e)))"
proof -
  have "\<forall>c\<in>set (el_children e). runs fl c"
    using run_element [OF assms(1)] assms(2,3) by (cases e) simp
  from run_named [OF assms this, of "[]" "[]" _ 0]
  have "xml_run fl (write_indented 0 e, ([], None)) (xml_nl, ([], Some (deep_copy e)))" by (simp add: attach_tree_def)
  with run_pi [OF assms(1) this] show ?thesis by (simp add: xml_to_string_def)
qed



end
