(* ===== verification/Xml_Path.thy ===== *)
theory Xml_Path
  imports Xml_Element
begin

text \<open>
  The path processor of libs/xml (xpath.cc) on places: a path denotes a list of places below the root, the last step
  all the children of its name, the steps before it the first or the counted one. Deleting or replacing the root
  itself, which frees it under its owner, is \<open>None\<close>.
\<close>

section \<open>Finding elements\<close>

definition named_positions :: "string \<Rightarrow> Element list \<Rightarrow> nat list" where
  "named_positions name cs = filter (\<lambda>i. el_name (cs ! i) = name) [0..<length cs]"

definition child_position :: "string \<Rightarrow> nat \<Rightarrow> Element list \<Rightarrow> nat option" where
  "child_position name n cs =
     (let is = named_positions name cs in if n < length is then Some (is ! n) else None)"

text \<open>The name of a step, and its count from zero or a negative number.\<close>

definition path_step :: "string \<Rightarrow> string \<times> int" where
  "path_step step =
     (let name = takeWhile (\<lambda>c. c \<noteq> CHR ''['') step;
          inside = tl (dropWhile (\<lambda>c. c \<noteq> CHR ''['') step);
          ns = takeWhile (\<lambda>c. c \<noteq> CHR '']'') inside
      in (name, if CHR ''['' \<in> set step \<and> CHR '']'' \<in> set inside \<and> ns \<noteq> [] then sint (atoi ns) - 1 else - 1))"

definition skip_slash :: "string \<Rightarrow> string" where
  "skip_slash path = (case path of c # r \<Rightarrow> if c = CHR ''/'' then r else path | [] \<Rightarrow> [])"

lemma skip_slash_length: "length (skip_slash path) \<le> length path"
  by (simp add: skip_slash_def split: list.split)

function get_elements :: "string \<Rightarrow> Element \<Rightarrow> nat list list" where
  "get_elements path e =
     (let s = skip_slash path;
          after = dropWhile (\<lambda>c. c \<noteq> CHR ''/'') s;
          (name, count) = path_step (takeWhile (\<lambda>c. c \<noteq> CHR ''/'') s)
      in if s = [] then [[]]
         else if after = [] \<and> count < 0 then map (\<lambda>i. [i]) (named_positions name (el_children e))
         else case child_position name (nat count) (el_children e) of
                None \<Rightarrow> []
              | Some i \<Rightarrow>
                  if after = [] then [[i]] else map ((#) i) (get_elements (tl after) (el_children e ! i)))"
  by auto
termination
proof (relation "measure (length o fst)")
  fix path e s after and x :: "string \<times> int" and name count i
  assume s: "s = skip_slash path" "after = dropWhile (\<lambda>c. c \<noteq> CHR ''/'') s" "s \<noteq> []"
  have "length after \<le> length s" using s(2) length_dropWhile_le by metis
  then have "length (tl after) < length s" using s(3) by (cases s) auto
  then show "((tl after, el_children e ! i), path, e) \<in> measure (length o fst)"
    using skip_slash_length [of path] s(1) by simp
qed simp

declare get_elements.simps [simp del]

definition get_element :: "string \<Rightarrow> Element \<Rightarrow> nat list option" where
  "get_element path root = (case get_elements path root of [] \<Rightarrow> None | p # _ \<Rightarrow> Some p)"

section \<open>Values\<close>

text \<open>What is before and after the last occurrence of a character.\<close>

definition rsplit :: "char \<Rightarrow> string \<Rightarrow> (string \<times> string) option" where
  "rsplit c s =
     (if c \<in> set s then Some (rev (tl (dropWhile (\<lambda>d. d \<noteq> c) (rev s))), rev (takeWhile (\<lambda>d. d \<noteq> c) (rev s))) else None)"

definition element_here :: "string \<Rightarrow> Element \<Rightarrow> Element option" where
  "element_here path root = (case get_element path root of None \<Rightarrow> None | Some p \<Rightarrow> element_at p root)"

definition get_value :: "string \<Rightarrow> string \<Rightarrow> Element \<Rightarrow> string" where
  "get_value path def root =
     (case rsplit CHR ''@'' path of
        Some (spath, aname) \<Rightarrow> (case element_here spath root of Some e \<Rightarrow> get_attr aname def e | None \<Rightarrow> def)
      | None \<Rightarrow> (case element_here path root of Some e \<Rightarrow> get_content e | None \<Rightarrow> def))"

definition get_value_bool :: "string \<Rightarrow> bool \<Rightarrow> Element \<Rightarrow> bool" where
  "get_value_bool path def root =
     (case get_value path [] root of [] \<Rightarrow> def | c # _ \<Rightarrow> c \<in> {CHR ''T'', CHR ''t'', CHR ''Y'', CHR ''y''})"

definition get_value_int :: "string \<Rightarrow> u32 \<Rightarrow> Element \<Rightarrow> u32" where
  "get_value_int path def root = (let v = get_value path [] root in if v \<noteq> [] then atoi v else def)"

text \<open>The \<^verbatim>\<open>%x\<close> conversion, which stores nothing when it finds no digit.\<close>

definition has_hex :: "string \<Rightarrow> bool" where
  "has_hex v \<longleftrightarrow>
     (let s = dropWhile isspace v;
          s = (if s \<noteq> [] \<and> (hd s = CHR ''-'' \<or> hd s = CHR ''+'') then tl s else s);
          s = scan_prefix 16 s
      in s \<noteq> [] \<and> digit_value 16 (hd s) \<noteq> None)"

definition get_value_hex :: "string \<Rightarrow> u32 \<Rightarrow> Element \<Rightarrow> u32" where
  "get_value_hex path def root = (let v = get_value path [] root in if v \<noteq> [] \<and> has_hex v then xtoi v else def)"

definition get_value_int64 :: "string \<Rightarrow> u64 \<Rightarrow> Element \<Rightarrow> u64" where
  "get_value_int64 path def root = (let v = get_value path [] root in if v \<noteq> [] then stoi64 v else def)"

definition get_value_hex64 :: "string \<Rightarrow> u64 \<Rightarrow> Element \<Rightarrow> u64" where
  "get_value_hex64 path def root = (let v = get_value path [] root in if v \<noteq> [] then xtoi64 v else def)"

definition get_value_real :: "(string \<Rightarrow> 'r) \<Rightarrow> string \<Rightarrow> 'r \<Rightarrow> Element \<Rightarrow> 'r" where
  "get_value_real atof path def root = (let v = get_value path [] root in if v \<noteq> [] then atof v else def)"

section \<open>Changes\<close>

fun modify_at :: "nat list \<Rightarrow> (Element \<Rightarrow> Element) \<Rightarrow> Element \<Rightarrow> Element" where
  "modify_at [] f e = f e"
| "modify_at (i # is) f e =
     (if i < length (el_children e)
      then with_children ((el_children e)[i := modify_at is f (el_children e ! i)]) e else e)"

definition set_content :: "string \<Rightarrow> Element \<Rightarrow> Element" where
  "set_content v e = Element (el_name e) v (el_attrs e) (el_children e) (el_line e)"

definition modify_here :: "string \<Rightarrow> (Element \<Rightarrow> Element) \<Rightarrow> Element \<Rightarrow> bool \<times> Element" where
  "modify_here path f root = (case get_element path root of Some p \<Rightarrow> (True, modify_at p f root) | None \<Rightarrow> (False, root))"

definition set_value :: "string \<Rightarrow> string \<Rightarrow> Element \<Rightarrow> bool \<times> Element" where
  "set_value path v root =
     (case rsplit CHR ''@'' path of
        Some (spath, aname) \<Rightarrow> modify_here spath (set_attr aname v) root
      | None \<Rightarrow> modify_here path (set_content v) root)"

definition set_value_bool :: "string \<Rightarrow> bool \<Rightarrow> Element \<Rightarrow> bool \<times> Element" where
  "set_value_bool path b = set_value path (if b then ''yes'' else ''no'')"

definition set_value_int :: "string \<Rightarrow> u32 \<Rightarrow> Element \<Rightarrow> bool \<times> Element" where
  "set_value_int path n = set_value path (itos n)"

definition set_value_hex :: "string \<Rightarrow> u32 \<Rightarrow> Element \<Rightarrow> bool \<times> Element" where
  "set_value_hex path n = set_value path (itox n)"

definition set_value_int64 :: "string \<Rightarrow> u64 \<Rightarrow> Element \<Rightarrow> bool \<times> Element" where
  "set_value_int64 path n = set_value path (i64tos n)"

definition set_value_hex64 :: "string \<Rightarrow> u64 \<Rightarrow> Element \<Rightarrow> bool \<times> Element" where
  "set_value_hex64 path n = set_value path (i64tox n)"

definition set_value_real :: "('r \<Rightarrow> string) \<Rightarrow> string \<Rightarrow> 'r \<Rightarrow> Element \<Rightarrow> bool \<times> Element" where
  "set_value_real print17 path x = set_value path (print17 x)"

text \<open>The places found are siblings in their order, so the last is taken out first.\<close>

definition delete_elements :: "string \<Rightarrow> Element \<Rightarrow> (bool \<times> Element) option" where
  "delete_elements path root =
     (let ps = get_elements path root
      in if [] \<in> set ps then None else Some (ps \<noteq> [], foldr detach ps root))"

definition add_element :: "string \<Rightarrow> Element \<Rightarrow> Element \<Rightarrow> bool \<times> Element" where
  "add_element path ne root = modify_here path (add_child ne) root"

definition add_named_element :: "string \<Rightarrow> string \<Rightarrow> Element \<Rightarrow> bool \<times> Element" where
  "add_named_element path name root = modify_here path (add_child (new_element name [] [])) root"

definition replace_element :: "string \<Rightarrow> Element \<Rightarrow> Element \<Rightarrow> (bool \<times> Element) option" where
  "replace_element path ne root =
     (case get_element path root of
        Some [] \<Rightarrow> None
      | Some p \<Rightarrow> Some (True, replace_with p ne root)
      | None \<Rightarrow> Some (False, root))"

text \<open>The new child at a place, and its own place.\<close>

definition create_below :: "nat list \<Rightarrow> string \<Rightarrow> Element \<Rightarrow> nat list \<times> Element" where
  "create_below p name root =
     (case element_at p root of
        Some e \<Rightarrow> (p @ [length (el_children e)], modify_at p (add_child (new_element name [] [])) root)
      | None \<Rightarrow> (p, root))"

lemma rsplit_shorter: "rsplit c s = Some (a, b) \<Longrightarrow> length a < length s"
proof -
  assume s: "rsplit c s = Some (a, b)"
  then have "dropWhile (\<lambda>d. d \<noteq> c) (rev s) \<noteq> []" "a = rev (tl (dropWhile (\<lambda>d. d \<noteq> c) (rev s)))"
    by (auto simp: rsplit_def split: if_splits)
  then have "length a < length (dropWhile (\<lambda>d. d \<noteq> c) (rev s))" by (simp add: length_greater_0_conv)
  also have "\<dots> \<le> length s" using length_dropWhile_le [of "\<lambda>d. d \<noteq> c" "rev s"] by simp
  finally show ?thesis .
qed

function ensure_path :: "string \<Rightarrow> Element \<Rightarrow> nat list \<times> Element" where
  "ensure_path path root =
     (case get_element path root of
        Some p \<Rightarrow> (p, root)
      | None \<Rightarrow>
          (case rsplit CHR ''/'' path of
             Some (parent_path, child_name) \<Rightarrow>
               if parent_path \<noteq> []
               then (case ensure_path parent_path root of (p, root) \<Rightarrow> create_below p child_name root)
               else create_below [] child_name root
           | None \<Rightarrow> create_below [] path root))"
  by auto
termination
  by (relation "measure (length o fst)") (auto dest: rsplit_shorter)

declare ensure_path.simps [simp del]

section \<open>Positions by name\<close>

lemma take_positions: "i \<le> length cs \<Longrightarrow> filter (\<lambda>c. el_name c = n) (take i cs) = map ((!) cs) (filter (\<lambda>j. el_name (cs ! j) = n) [0..<i])"
proof -
  assume "i \<le> length cs"
  then have "take i cs = map ((!) cs) [0..<i]" by (intro nth_equalityI) simp_all
  then show ?thesis by (simp add: filter_map comp_def)
qed

lemma positions_length: "length (named_positions n cs) = length (filter (\<lambda>c. el_name c = n) cs)"
  using take_positions [of "length cs" cs n] by (simp add: named_positions_def)

lemma position_nth:
  assumes "i < length cs" "el_name (cs ! i) = n"
  shows "child_position n (length (filter (\<lambda>c. el_name c = n) (take i cs))) cs = Some i"
proof -
  have "[0..<length cs] = [0..<i] @ i # [Suc i..<length cs]"
    using assms(1) by (metis append_self_conv2 less_imp_le upt_add_eq_append upt_conv_Cons le_add_diff_inverse zero_le)
  then have "named_positions n cs = filter (\<lambda>j. el_name (cs ! j) = n) [0..<i] @ i # filter (\<lambda>j. el_name (cs ! j) = n) [Suc i..<length cs]"
    using assms(2) by (simp add: named_positions_def)
  moreover have "length (filter (\<lambda>c. el_name c = n) (take i cs)) = length (filter (\<lambda>j. el_name (cs ! j) = n) [0..<i])"
    using take_positions [of i cs n] assms(1) by simp
  ultimately show ?thesis by (simp add: child_position_def nth_append)
qed

lemma position_only:
  assumes "i < length cs" "el_name (cs ! i) = n" "length (filter (\<lambda>c. el_name c = n) cs) \<le> 1"
  shows "named_positions n cs = [i]"
proof -
  have "i \<in> set (named_positions n cs)" using assms(1,2) by (simp add: named_positions_def)
  moreover have "length (named_positions n cs) \<le> 1" using assms(3) by (simp add: positions_length)
  ultimately show ?thesis by (cases "named_positions n cs") auto
qed

lemma child_position_bounds: "child_position n k cs = Some i \<Longrightarrow> i < length cs \<and> el_name (cs ! i) = n"
  by (auto simp: child_position_def Let_def named_positions_def split: if_splits dest!: nth_mem)

section \<open>Paths of places\<close>

definition plain_name :: "string \<Rightarrow> bool" where
  "plain_name n \<longleftrightarrow> n \<noteq> [] \<and> CHR ''/'' \<notin> set n \<and> CHR ''['' \<notin> set n"

fun place_named :: "nat list \<Rightarrow> Element \<Rightarrow> bool" where
  "place_named [] e \<longleftrightarrow> True"
| "place_named (i # is) e \<longleftrightarrow>
     i < length (el_children e) \<and> plain_name (el_name (el_children e ! i)) \<and> length (el_children e) < 2 ^ 31
     \<and> place_named is (el_children e ! i)"

lemma digits_plain: "c \<in> set (print_digits 10 k) \<Longrightarrow> c \<noteq> CHR ''/'' \<and> c \<noteq> CHR '']''"
proof (induction k arbitrary: c rule: less_induct)
  case (less k)
  have digit: "digit_char d \<noteq> CHR ''/'' \<and> digit_char d \<noteq> CHR '']''" if "d < 10" for d
  proof -
    have "digit_char d = x \<longleftrightarrow> (of_char (digit_char d) :: nat) = of_char x" for x by simp
    moreover have "(of_char (digit_char d) :: nat) = 48 + d" using that by (simp add: of_char_digit)
    ultimately show ?thesis using that by simp
  qed
  show ?case
  proof (cases "k < 10")
    case True
    then have "print_digits 10 k = [digit_char k]" by (subst print_digits.simps) simp
    with less.prems digit [OF True] show ?thesis by simp
  next
    case False
    then have "print_digits 10 k = print_digits 10 (k div 10) @ [digit_char (k mod 10)]" by (subst print_digits.simps) simp
    then have "c \<in> set (print_digits 10 (k div 10)) \<or> c = digit_char (k mod 10)"
      using less.prems by auto
    with less.IH [of "k div 10" c] False digit [of "k mod 10"] show ?thesis by auto
  qed
qed

lemma atoi_decimal: "k < 2 ^ 31 \<Longrightarrow> sint (atoi (print_digits 10 k)) = int k"
proof -
  assume "k < 2 ^ 31"
  then have "strtol (print_digits 10 k) = int k" by (simp add: strtol_def scan_signed_print)
  moreover have "sint (word_of_int (int k) :: u32) = int k" using \<open>k < 2 ^ 31\<close>
    by (simp add: signed_of_nat signed_take_bit_int_eq_self)
  ultimately show ?thesis by (simp add: atoi_def)
qed

lemma path_step_plain: "CHR ''['' \<notin> set n \<Longrightarrow> path_step n = (n, - 1)"
  by (auto simp: path_step_def takeWhile_eq_all_conv)

lemma path_step_counted:
  assumes "CHR ''['' \<notin> set n" "k < 2 ^ 31 - 1"
  shows "path_step (n @ ''['' @ print_digits 10 (k + 1) @ '']'') = (n, int k)"
proof -
  have ne: "print_digits 10 (k + 1) \<noteq> []" by (subst print_digits.simps) simp
  have "takeWhile (\<lambda>c. c \<noteq> CHR ''['') (n @ ''['' @ r) = n" "dropWhile (\<lambda>c. c \<noteq> CHR ''['') (n @ ''['' @ r) = CHR ''['' # r" for r
    using assms(1) by (simp_all add: takeWhile_append dropWhile_append takeWhile_eq_all_conv dropWhile_eq_Nil_conv)
  moreover have "takeWhile (\<lambda>c. c \<noteq> CHR '']'') (print_digits 10 (k + 1) @ '']'') = print_digits 10 (k + 1)"
    using digits_plain [of _ "k + 1"] by (auto simp: takeWhile_append takeWhile_eq_all_conv)
  ultimately show ?thesis
    using ne atoi_decimal [of "k + 1"] assms(2) unfolding path_step_def by simp
qed

text \<open>A leading slash makes no difference, and a step ends at the next one.\<close>

lemma get_elements_slash: "r = [] \<or> hd r \<noteq> CHR ''/'' \<Longrightarrow> get_elements (CHR ''/'' # r) e = get_elements r e"
proof -
  assume "r = [] \<or> hd r \<noteq> CHR ''/''"
  then have "skip_slash (CHR ''/'' # r) = skip_slash r" by (cases r) (simp_all add: skip_slash_def)
  then show ?thesis by (subst (1 2) get_elements.simps) simp
qed

lemma get_elements_step:
  assumes "st \<noteq> []" "CHR ''/'' \<notin> set st" "r = [] \<or> hd r = CHR ''/''"
  shows "get_elements (CHR ''/'' # st @ r) e =
    (case path_step st of (name, count) \<Rightarrow>
       if r = [] \<and> count < 0 then map (\<lambda>i. [i]) (named_positions name (el_children e))
       else case child_position name (nat count) (el_children e) of
              None \<Rightarrow> []
            | Some i \<Rightarrow> if r = [] then [[i]] else map ((#) i) (get_elements (tl r) (el_children e ! i)))"
proof -
  have f1: "skip_slash (CHR ''/'' # st @ r) = st @ r" by (simp add: skip_slash_def)
  have f2: "takeWhile (\<lambda>c. c \<noteq> CHR ''/'') (st @ r) = st" "dropWhile (\<lambda>c. c \<noteq> CHR ''/'') (st @ r) = r"
    using assms(2,3) by (cases r; auto simp: takeWhile_append dropWhile_append takeWhile_eq_all_conv dropWhile_eq_Nil_conv)+
  show ?thesis
    using assms(1) by (subst get_elements.simps) (simp only: Let_def f1 f2 append_is_Nil_conv if_False simp_thms)
qed

lemma xpath_shape: "get_xpath ps e = [] \<or> hd (get_xpath ps e) = CHR ''/''"
  by (cases "ps") (simp_all add: xpath_step_def Let_def)

lemma xpath_not_double: "place_named ps e \<Longrightarrow> ps \<noteq> [] \<Longrightarrow> \<exists>r. get_xpath ps e = CHR ''/'' # r \<and> r \<noteq> [] \<and> hd r \<noteq> CHR ''/''"
  by (cases "ps") (auto simp: xpath_step_def Let_def plain_name_def hd_append dest: hd_in_set)



section \<open>Values set and read\<close>

text \<open>Paths only see names and children.\<close>

fun shape :: "Element \<Rightarrow> Element" where
  "shape (Element n c attrs cs l) = Element n [] [] (map shape cs) 0"

lemma shape_simps: "el_name (shape e) = el_name e" "el_children (shape e) = map shape (el_children e)"
  by (cases e, simp)+

lemma shape_positions:
  "named_positions n (map shape cs) = named_positions n cs" "child_position n k (map shape cs) = child_position n k cs"
proof -
  show pos: "named_positions n (map shape cs) = named_positions n cs"
    by (auto simp: named_positions_def shape_simps intro!: filter_cong)
  show "child_position n k (map shape cs) = child_position n k cs" by (simp add: child_position_def pos)
qed

lemma get_elements_shape: "get_elements path (shape e) = get_elements path e"
proof (induction path e rule: get_elements.induct)
  case (1 path e)
  define s where "s = skip_slash path"
  define after where "after = dropWhile (\<lambda>c. c \<noteq> CHR ''/'') s"
  obtain name count where st: "path_step (takeWhile (\<lambda>c. c \<noteq> CHR ''/'') s) = (name, count)" by (cases "path_step (takeWhile (\<lambda>c. c \<noteq> CHR ''/'') s)")
  have IH: "get_elements (tl after) (shape (el_children e ! i)) = get_elements (tl after) (el_children e ! i)"
    if "s \<noteq> []" "\<not> (after = [] \<and> count < 0)" "child_position name (nat count) (el_children e) = Some i" "after \<noteq> []" for i
    using 1 [OF s_def after_def st [symmetric] refl that] .
  have nth: "map shape (el_children e) ! i = shape (el_children e ! i)"
    if "child_position name k (el_children e) = Some i" for i k
    using child_position_bounds [OF that] by simp
  show ?case
    unfolding get_elements.simps [of path "shape e"] get_elements.simps [of path e] Let_def s_def [symmetric] after_def [symmetric] st
    using IH nth by (auto simp: shape_simps shape_positions split: option.split)
qed

lemma shape_modify: "(\<And>x. shape (f x) = shape x) \<Longrightarrow> shape (modify_at p f e) = shape e"
proof (induction p f e rule: modify_at.induct)
  case (2 i "is" f e)
  show ?case
  proof (cases "i < length (el_children e)")
    case True
    have "map shape ((el_children e)[i := modify_at is f (el_children e ! i)]) = map shape (el_children e)"
      using 2 True by (simp add: map_update list_update_same_conv)
    with True show ?thesis by (cases e) (simp add: with_children_def)
  qed simp
qed simp

lemma element_at_modify: "element_at p e = Some x \<Longrightarrow> element_at p (modify_at p f e) = Some (f x)"
  by (induction p f e rule: modify_at.induct) (auto simp: with_children_def split: if_splits)

lemma found_exists: "p \<in> set (get_elements path e) \<Longrightarrow> \<exists>x. element_at p e = Some x"
proof (induction path e arbitrary: p rule: get_elements.induct)
  case (1 path e)
  define s where "s = skip_slash path"
  define after where "after = dropWhile (\<lambda>c. c \<noteq> CHR ''/'') s"
  obtain name count where st: "path_step (takeWhile (\<lambda>c. c \<noteq> CHR ''/'') s) = (name, count)" by (cases "path_step (takeWhile (\<lambda>c. c \<noteq> CHR ''/'') s)")
  note IH = 1(1) [OF s_def after_def st [symmetric] refl]
  show ?case
    using 1(2) IH unfolding get_elements.simps [of path e] Let_def s_def [symmetric] after_def [symmetric] st
    by (auto simp: named_positions_def dest: child_position_bounds child_position_bounds [OF sym] dest!: sym [of "Some _"]
        split: if_splits option.splits)
qed

lemma map_insert_same: "map_of (map_insert k v kvs) k = Some v"
  by (induction k v kvs rule: map_insert.induct) auto



section \<open>Paths made to exist\<close>

definition slash_path :: "string list \<Rightarrow> string" where
  "slash_path steps = concat (map ((#) CHR ''/'') steps)"

text \<open>The first element of each name, step by step.\<close>

fun walk_steps :: "string list \<Rightarrow> Element \<Rightarrow> nat list option" where
  "walk_steps [] e = Some []"
| "walk_steps (n # ns) e =
     (case child_position n 0 (el_children e) of None \<Rightarrow> None | Some i \<Rightarrow> map_option ((#) i) (walk_steps ns (el_children e ! i)))"

lemma slash_path_shape: "slash_path steps = [] \<longleftrightarrow> steps = []" "slash_path steps = [] \<or> hd (slash_path steps) = CHR ''/''"
  by (cases steps; simp add: slash_path_def)+

lemma get_element_walk: "\<forall>n\<in>set steps. plain_name n \<Longrightarrow> get_element (slash_path steps) e = walk_steps steps e"
proof (induction steps arbitrary: e)
  case Nil
  then show ?case by (simp add: get_element_def slash_path_def get_elements.simps skip_slash_def)
next
  case (Cons n ns)
  have n: "n \<noteq> []" "CHR ''/'' \<notin> set n" "path_step n = (n, - 1)" using Cons.prems path_step_plain by (simp_all add: plain_name_def)
  have tail: "get_elements (tl (slash_path ns)) x = get_elements (slash_path ns) x" for x
  proof (cases ns)
    case (Cons m ms)
    then have "m \<noteq> []" "CHR ''/'' \<notin> set m" using Cons.prems by (simp_all add: plain_name_def)
    then have "hd (m @ slash_path ms) \<noteq> CHR ''/''" by (cases m) auto
    with get_elements_slash [of "m @ slash_path ms" x] show ?thesis by (simp add: Cons slash_path_def)
  qed (simp add: slash_path_def)
  have first: "map (\<lambda>i. [i]) (named_positions n cs) = [] \<and> child_position n 0 cs = None
      \<or> (\<exists>i is. map (\<lambda>i. [i]) (named_positions n cs) = [i] # is \<and> child_position n 0 cs = Some i)" for cs
    by (cases "named_positions n cs") (auto simp: child_position_def)
  have IH: "walk_steps ns x = (case get_elements (slash_path ns) x of [] \<Rightarrow> None | p # _ \<Rightarrow> Some p)" for x
    using Cons by (simp add: get_element_def)
  have "get_elements (slash_path (n # ns)) e =
      (if ns = [] then map (\<lambda>i. [i]) (named_positions n (el_children e))
       else case child_position n 0 (el_children e) of None \<Rightarrow> []
            | Some i \<Rightarrow> map ((#) i) (get_elements (slash_path ns) (el_children e ! i)))"
    using get_elements_step [OF n(1,2) slash_path_shape(2), of ns e] n(3) tail slash_path_shape(1) [of ns]
    by (auto simp: slash_path_def split: option.split)
  then show ?case
    using first [of "el_children e"] IH by (auto simp: get_element_def split: option.split list.split)
qed

lemma walk_exists: "walk_steps ss e = Some p \<Longrightarrow> \<exists>x. element_at p e = Some x"
  by (induction ss arbitrary: e p) (auto dest: child_position_bounds split: option.splits)

lemma walk_append:
  "walk_steps (ss @ [n]) e =
     (case walk_steps ss e of None \<Rightarrow> None | Some p \<Rightarrow>
        (case element_at p e of None \<Rightarrow> None | Some x \<Rightarrow> map_option (\<lambda>i. p @ [i]) (child_position n 0 (el_children x))))"
proof (induction ss arbitrary: e)
  case Nil
  then show ?case by (simp split: option.split)
next
  case (Cons m ss)
  then show ?case by (auto simp: option.map_comp comp_def dest: child_position_bounds split: option.split)
qed

lemma child_position_names: "map el_name cs = map el_name cs' \<Longrightarrow> child_position n k cs = child_position n k cs'"
proof -
  assume names: "map el_name cs = map el_name cs'"
  then have "length cs = length cs'" by (rule map_eq_imp_length_eq)
  moreover from names this have "el_name (cs ! i) = el_name (cs' ! i)" if "i < length cs'" for i using that by (metis nth_map)
  ultimately have "named_positions n cs = named_positions n cs'" by (auto simp: named_positions_def intro!: filter_cong)
  then show ?thesis by (simp add: child_position_def)
qed

lemma walk_modify: "walk_steps ss e = Some p \<Longrightarrow> (\<And>x. el_name (f x) = el_name x) \<Longrightarrow> walk_steps ss (modify_at p f e) = Some p"
proof (induction ss arbitrary: e p)
  case (Cons n ss)
  from Cons.prems(1) obtain i q where i: "child_position n 0 (el_children e) = Some i" "walk_steps ss (el_children e ! i) = Some q" "p = i # q"
    by (auto split: option.splits)
  have b: "i < length (el_children e)" using child_position_bounds [OF i(1)] by simp
  have keeps: "el_name (modify_at q f x) = el_name x" for q x
    using Cons.prems(2) by (cases q) (auto simp: with_children_def)
  have "child_position n 0 ((el_children e)[i := modify_at q f (el_children e ! i)]) = Some i"
    using i(1) keeps b child_position_names [of "(el_children e)[i := modify_at q f (el_children e ! i)]" "el_children e" n 0]
    by (simp add: map_update list_update_same_conv)
  with Cons.IH [OF i(2) Cons.prems(2)] b i(3) show ?case by (simp add: with_children_def)
qed auto

lemma rsplit_last: "CHR ''/'' \<notin> set n \<Longrightarrow> rsplit CHR ''/'' (slash_path (steps @ [n])) = Some (slash_path steps, n)"
proof -
  assume n: "CHR ''/'' \<notin> set n"
  have path: "rev (slash_path (steps @ [n])) = rev n @ CHR ''/'' # rev (slash_path steps)" by (simp add: slash_path_def)
  have "takeWhile (\<lambda>d. d \<noteq> CHR ''/'') (rev n @ CHR ''/'' # r) = rev n" "dropWhile (\<lambda>d. d \<noteq> CHR ''/'') (rev n @ CHR ''/'' # r) = CHR ''/'' # r" for r
    using n by (auto simp: takeWhile_append dropWhile_append takeWhile_eq_all_conv dropWhile_eq_Nil_conv)
  moreover have "CHR ''/'' \<in> set (slash_path (steps @ [n]))" by (simp add: slash_path_def)
  ultimately show ?thesis by (simp add: rsplit_def path)
qed

lemma ensure_walk:
  "\<forall>n\<in>set steps. plain_name n \<Longrightarrow> ensure_path (slash_path steps) root = (p, root') \<Longrightarrow>
   walk_steps steps root' = Some p \<and> (root' = root \<or> (\<exists>x. element_at p root' = Some x \<and> el_children x = []))"
proof (induction steps arbitrary: p root' rule: rev_induct)
  case Nil
  then show ?case using get_element_walk [of "[]" root] by (simp add: ensure_path.simps)
next
  case (snoc n steps)
  note plain = snoc.prems(1)
  have n: "CHR ''/'' \<notin> set n" using plain by (simp add: plain_name_def)
  show ?case
  proof (cases "walk_steps (steps @ [n]) root")
    case (Some q)
    with snoc.prems(2) get_element_walk [OF plain, of root] show ?thesis by (simp add: ensure_path.simps)
  next
    case None
    obtain p1 root1 where parent: "walk_steps steps root1 = Some p1" "root1 = root \<or> (\<exists>x. element_at p1 root1 = Some x \<and> el_children x = [])"
      "create_below p1 n root1 = (p, root')"
    proof (cases "steps = []")
      case True
      have "ensure_path (slash_path (steps @ [n])) root = create_below [] n root"
        using None get_element_walk [OF plain, of root] rsplit_last [OF n, of steps]
        by (subst ensure_path.simps) (simp add: True slash_path_def)
      with snoc.prems(2) show thesis by (intro that [of root "[]"]) (simp_all add: True)
    next
      case False
      obtain p1 root1 where e: "ensure_path (slash_path steps) root = (p1, root1)" by fastforce
      have "ensure_path (slash_path (steps @ [n])) root = create_below p1 n root1"
        using None get_element_walk [OF plain, of root] rsplit_last [OF n, of steps] False slash_path_shape(1) [of steps] e
        by (subst ensure_path.simps) simp
      with snoc.IH [OF _ e] plain snoc.prems(2) show thesis by (intro that [of root1 p1]) simp_all
    qed
    obtain x where x: "element_at p1 root1 = Some x" using walk_exists [OF parent(1)] by blast
    have no: "child_position n 0 (el_children x) = None"
      using parent(1,2) None walk_append [of steps n root] x by (auto simp: child_position_def named_positions_def)
    define f where "f = add_child (new_element n [] [])"
    have p: "p = p1 @ [length (el_children x)]" "root' = modify_at p1 f root1"
      using parent(3) x by (simp_all add: create_below_def f_def)
    have fx: "el_name (f y) = el_name y" for y by (simp add: f_def add_child_def with_children_def)
    have "named_positions n (el_children x) = []" using no by (simp add: child_position_def Let_def split: if_splits)
    then have "length (filter (\<lambda>c. el_name c = n) (el_children x)) = 0" using positions_length [of n "el_children x"] by simp
    then have "child_position n 0 (el_children (f x)) = Some (length (el_children x))"
      using position_nth [of "length (el_children x)" "el_children (f x)" n]
      by (simp add: f_def add_child_def with_children_def new_element_def)
    then have "walk_steps (steps @ [n]) root' = Some p"
      using walk_append [of steps n root'] walk_modify [OF parent(1) fx] element_at_modify [OF x, of f] by (simp add: p)
    moreover have "element_at p root' = Some (new_element n [] [])"
    proof -
      have at_append: "element_at (q @ [i]) e = (case element_at q e of None \<Rightarrow> None | Some y \<Rightarrow> if i < length (el_children y) then Some (el_children y ! i) else None)"
        for q i e by (induction q arbitrary: e) auto
      show ?thesis
        using element_at_modify [OF x, of f] by (simp add: p at_append) (simp add: f_def add_child_def with_children_def)
    qed
    ultimately show ?thesis by (auto simp: new_element_def)
  qed
qed



text \<open>A counted path is not found after it has been ensured: the new element has the count in its name.\<close>

lemma ensure_counted:
  "case ensure_path ''/b[2]'' (Element ''a'' [] [] [] 0) of (p, root) \<Rightarrow> get_element ''/b[2]'' root = None \<and> el_name (el_children root ! 0) = ''b[2]''"
  by (simp add: ensure_path.simps get_element_def get_elements.simps skip_slash_def path_step_def child_position_def named_positions_def
    rsplit_def create_below_def add_child_def with_children_def new_element_def atoi_def strtol_def scan_signed_def isspace_def
    scan_magnitude_def scan_prefix_def digit_value_def char_between_ascii)

end
