(* ===== verification/File_Path.thy ===== *)
theory File_Path
  imports Whitespace
begin

text \<open>
  The text of a path in libs/file (path.cc), as built for POSIX: the separator is a slash, the alternative separator
  the character 0, and expanding a path or fixing its slashes changes nothing. A path is its one field. The functions
  that ask the file system are not modelled.
\<close>

section \<open>Paths\<close>

type_synonym Path = string

definition is_sep_char :: "char \<Rightarrow> bool" where
  "is_sep_char c \<longleftrightarrow> c = CHR ''/''"

definition path_join :: "string \<Rightarrow> string \<Rightarrow> Path" where
  "path_join dir leaf =
     (if dir = ''.'' then leaf
      else if dir = [] \<or> is_sep_char (last dir) then dir @ leaf
      else dir @ ''/'' @ leaf)"

definition is_absolute :: "Path \<Rightarrow> bool" where
  "is_absolute path \<longleftrightarrow> path \<noteq> [] \<and> is_sep_char (hd path)"

text \<open>
  The last slash, or the last character 0 when it comes after that. Without a slash the alternative separator is not
  looked for, because it is 0.
\<close>

definition last_slash :: "Path \<Rightarrow> nat option" where
  "last_slash path =
     (case find_last (\<lambda>c. c = CHR ''/'') path of
        None \<Rightarrow> None
      | Some slash \<Rightarrow>
          (case find_last (\<lambda>c. c = CHR 0x00) path of
             Some alt \<Rightarrow> Some (if alt > slash then alt else slash)
           | None \<Rightarrow> Some slash))"

definition dirname :: "Path \<Rightarrow> string" where
  "dirname path =
     (case last_slash path of
        None \<Rightarrow> ''.''
      | Some slash \<Rightarrow> if slash = 0 then ''/'' else take slash path)"

definition leafname :: "Path \<Rightarrow> string" where
  "leafname path = (case last_slash path of None \<Rightarrow> path | Some slash \<Rightarrow> drop (slash + 1) path)"

definition extension :: "Path \<Rightarrow> string" where
  "extension path =
     (let leaf = leafname path
      in case find_last (\<lambda>c. c = CHR ''.'') leaf of None \<Rightarrow> [] | Some dot \<Rightarrow> drop (dot + 1) leaf)"

definition basename :: "Path \<Rightarrow> string" where
  "basename path =
     (let leaf = leafname path
      in case find_last (\<lambda>c. c = CHR ''.'') leaf of None \<Rightarrow> leaf | Some dot \<Rightarrow> take dot leaf)"

definition extend :: "string \<Rightarrow> Path \<Rightarrow> Path" where
  "extend leaf path = path @ ''/'' @ leaf"

definition extend_path :: "Path \<Rightarrow> Path \<Rightarrow> Path" where
  "extend_path p path = (if is_absolute p then path @ p else path @ ''/'' @ p)"

fun resolve_loop :: "string \<Rightarrow> string \<Rightarrow> Path" where
  "resolve_loop dn (a # b # c # d # nn) =
     (if a = CHR ''.'' \<and> b = CHR ''.'' \<and> is_sep_char c
      then (if dn = ''.'' then a # b # c # d # nn else resolve_loop (dirname dn) (d # nn))
      else path_join dn (a # b # c # d # nn))"
| "resolve_loop dn nn = path_join dn nn"

definition path_resolve :: "Path \<Rightarrow> Path \<Rightarrow> Path" where
  "path_resolve new_path path = (if is_absolute new_path then new_path else resolve_loop (dirname path) new_path)"

definition expand_path :: "Path \<Rightarrow> Path" where
  "expand_path path = path"

definition fix_slashes :: "Path \<Rightarrow> Path" where
  "fix_slashes path = path"

section \<open>Directory and leaf\<close>

lemma find_last_char:
  "d \<notin> set r \<Longrightarrow> find_last (\<lambda>c. c = d) (w @ d # r) = Some (length w)"
  "d \<notin> set r \<Longrightarrow> find_last (\<lambda>c. c = d) r = None"
proof -
  assume d: "d \<notin> set r"
  then have "dropWhile (\<lambda>c. c \<noteq> d) (rev r @ d # rev w) = d # rev w" by (subst dropWhile_append3) auto
  then show "find_last (\<lambda>c. c = d) (w @ d # r) = Some (length w)" by (simp add: find_last_def Let_def)
  from d have "dropWhile (\<lambda>c. c \<noteq> d) (rev r) = []" by auto
  then show "find_last (\<lambda>c. c = d) r = None" by (simp add: find_last_def Let_def)
qed

lemma last_slash_append:
  "CHR ''/'' \<notin> set leaf \<Longrightarrow> CHR 0x00 \<notin> set leaf \<Longrightarrow> CHR 0x00 \<notin> set dir \<Longrightarrow> last_slash (dir @ CHR ''/'' # leaf) = Some (length dir)"
  by (simp add: last_slash_def find_last_char)

lemma last_slash_None: "CHR ''/'' \<notin> set p \<Longrightarrow> last_slash p = None"
  by (simp add: last_slash_def find_last_char)

lemma dirname_join:
  "CHR ''/'' \<notin> set leaf \<Longrightarrow> CHR 0x00 \<notin> set leaf \<Longrightarrow> CHR 0x00 \<notin> set dir \<Longrightarrow> dirname (dir @ CHR ''/'' # leaf) = (if dir = [] then ''/'' else dir)"
  by (simp add: dirname_def last_slash_append)

lemma leafname_join:
  "CHR ''/'' \<notin> set leaf \<Longrightarrow> CHR 0x00 \<notin> set leaf \<Longrightarrow> CHR 0x00 \<notin> set dir \<Longrightarrow> leafname (dir @ CHR ''/'' # leaf) = leaf"
  by (simp add: leafname_def last_slash_append)

text \<open>The leaf is its base name, a dot and the extension, unless it has no dot.\<close>

lemma leaf_parts:
  "leafname p = (if CHR ''.'' \<in> set (leafname p) then basename p @ CHR ''.'' # extension p else basename p)"
proof (cases "CHR ''.'' \<in> set (leafname p)")
  case True
  then obtain w r where "leafname p = w @ CHR ''.'' # r" "CHR ''.'' \<notin> set r" by (meson split_list_last)
  then show ?thesis by (simp add: basename_def extension_def find_last_char Let_def)
qed (simp add: basename_def find_last_char)

text \<open>A path joined from a directory and a leaf comes apart into them.\<close>

definition plain_step :: "string \<Rightarrow> bool" where
  "plain_step d \<longleftrightarrow> d \<noteq> [] \<and> CHR ''/'' \<notin> set d \<and> CHR 0x00 \<notin> set d"

lemma path_join_parts:
  assumes "plain_step leaf" "CHR 0x00 \<notin> set dir" "dir \<noteq> []" "last dir \<noteq> CHR ''/''" "dir \<noteq> ''.''"
  shows "dirname (path_join dir leaf) = dir" "leafname (path_join dir leaf) = leaf"
  using assms by (simp_all add: path_join_def is_sep_char_def plain_step_def dirname_join leafname_join)

section \<open>Relative paths\<close>

text \<open>An absolute path as the steps from the root, and the text below a directory.\<close>

definition abs_path :: "string list \<Rightarrow> Path" where
  "abs_path ds = concat (map ((#) CHR ''/'') ds)"

definition below :: "string list \<Rightarrow> string \<Rightarrow> Path" where
  "below ds rest = abs_path ds @ ''/'' @ rest"

definition up :: "nat \<Rightarrow> string" where
  "up k = concat (replicate k ''../'')"

definition directory :: "string list \<Rightarrow> Path" where
  "directory ds = (if ds = [] then ''/'' else abs_path ds)"

lemma abs_path_snoc: "abs_path (ds @ [d]) = abs_path ds @ CHR ''/'' # d"
  by (simp add: abs_path_def)

lemma dirname_abs:
  assumes "\<forall>d\<in>set ds. plain_step d"
  shows "dirname (directory ds) = directory (butlast ds)"
proof (cases ds rule: rev_cases)
  case Nil
  then show ?thesis using dirname_join [of "[]" "[]"] by (simp add: directory_def)
next
  case (snoc ds' d)
  have "CHR 0x00 \<notin> set (abs_path ds')" using assms snoc by (auto simp: abs_path_def plain_step_def)
  with snoc assms show ?thesis
    using dirname_join [of d "abs_path ds'"] by (auto simp: directory_def abs_path_snoc plain_step_def abs_path_def)
qed

lemma path_join_below:
  assumes "\<forall>d\<in>set ds. plain_step d"
  shows "path_join (directory ds) rest = below ds rest"
proof (cases ds rule: rev_cases)
  case Nil
  then show ?thesis by (simp add: directory_def path_join_def below_def abs_path_def is_sep_char_def)
next
  case (snoc ds' d)
  then have d: "d \<noteq> []" "CHR ''/'' \<notin> set d" using assms by (auto simp: plain_step_def)
  then have "last d \<noteq> CHR ''/''" using last_in_set by metis
  note d = d this
  have "abs_path ds \<noteq> ''.''" by (cases ds) (simp_all add: abs_path_def)
  with snoc d show ?thesis by (simp add: directory_def path_join_def below_def is_sep_char_def abs_path_snoc)
qed

lemma directory_not_dot: "directory ds \<noteq> ''.''"
  by (cases ds) (simp_all add: directory_def abs_path_def)

lemma resolve_up:
  assumes "\<forall>d\<in>set ds. plain_step d" "rest \<noteq> []" "length rest \<le> 3 \<or> take 3 rest \<noteq> ''../''"
  shows "resolve_loop (directory ds) (up k @ rest) = below (take (length ds - k) ds) rest"
  using assms
proof (induction k arbitrary: ds)
  case 0
  have "resolve_loop (directory ds) rest = path_join (directory ds) rest"
    using 0(3) by (cases "(directory ds, rest)" rule: resolve_loop.cases) (auto simp: is_sep_char_def)
  with 0 show ?case by (simp add: up_def path_join_below)
next
  case (Suc k)
  obtain c r where r: "up k @ rest = c # r" using Suc.prems(2) by (cases "up k @ rest") auto
  have "resolve_loop (directory ds) (up (Suc k) @ rest) = resolve_loop (dirname (directory ds)) (up k @ rest)"
    using r directory_not_dot by (simp add: up_def is_sep_char_def)
  also have "\<dots> = resolve_loop (directory (butlast ds)) (up k @ rest)" using Suc.prems(1) dirname_abs by simp
  also have "\<dots> = below (take (length (butlast ds) - k) (butlast ds)) rest"
    using Suc.IH [of "butlast ds"] Suc.prems in_set_butlastD by metis
  finally show ?case by (simp add: butlast_conv_take min_def)
qed

theorem path_resolve_up:
  assumes "\<forall>d\<in>set ds. plain_step d" "plain_step leaf"
    and "rest \<noteq> []" "hd rest \<noteq> CHR ''/''" "length rest \<le> 3 \<or> take 3 rest \<noteq> ''../''"
  shows "path_resolve (up k @ rest) (below ds leaf) = below (take (length ds - k) ds) rest"
proof -
  have rel: "\<not> is_absolute (up k @ rest)" using assms(3,4) by (cases k) (simp_all add: up_def is_absolute_def is_sep_char_def)
  have "directory (ds @ [leaf]) = below ds leaf" by (simp add: directory_def below_def abs_path_snoc)
  then have "dirname (below ds leaf) = directory ds" using dirname_abs [of "ds @ [leaf]"] assms(1,2) by simp
  with rel resolve_up [OF assms(1,3,5)] show ?thesis by (simp add: path_resolve_def)
qed

theorem path_resolve_up_witness:
  "path_resolve ''../../../img/x.png'' ''/a/b/page.html'' = ''/img/x.png''"
  using path_resolve_up [of "[''a'', ''b'']" "''page.html''" "''img/x.png''" 3]
  by (simp add: plain_step_def below_def abs_path_def up_def numeral_3_eq_3)

end
