(* ===== verification/Web_Mime.thy ===== *)
theory Web_Mime
  imports Split Xml_Element
begin

text \<open>
  MIME headers of libs/web (mime-headers.cc) as the children of an element. A stream is the text not yet read, which is
  empty once it has failed; a function that stops early leaves the rest as it is.
\<close>

section \<open>Headers\<close>

record MIMEHeaders =
  max_line :: nat
  mh_xml :: Element

definition mime_headers :: MIMEHeaders where
  "mime_headers = \<lparr> max_line = 0, mh_xml = new_element ''headers'' [] [] \<rparr>"

definition enable_folding :: "nat \<Rightarrow> MIMEHeaders \<Rightarrow> MIMEHeaders" where
  "enable_folding n h = h \<lparr> max_line := n \<rparr>"

definition has_header :: "string \<Rightarrow> MIMEHeaders \<Rightarrow> bool" where
  "has_header name h \<longleftrightarrow> get_child_named name 0 (mh_xml h) \<noteq> None"

definition get_header :: "string \<Rightarrow> MIMEHeaders \<Rightarrow> string" where
  "get_header name h = (case get_child_named name 0 (mh_xml h) of Some e \<Rightarrow> el_content e | None \<Rightarrow> [])"

definition put_header :: "string \<Rightarrow> string \<Rightarrow> MIMEHeaders \<Rightarrow> MIMEHeaders" where
  "put_header name v h = h \<lparr> mh_xml := add_child (new_element name v []) (mh_xml h) \<rparr>"

definition remove_header :: "string \<Rightarrow> MIMEHeaders \<Rightarrow> MIMEHeaders" where
  "remove_header name h = h \<lparr> mh_xml := remove_children name (mh_xml h) \<rparr>"

definition replace_header :: "string \<Rightarrow> string \<Rightarrow> MIMEHeaders \<Rightarrow> MIMEHeaders" where
  "replace_header name v h = put_header name v (remove_header name h)"

definition get_all_headers :: "string \<Rightarrow> MIMEHeaders \<Rightarrow> string list" where
  "get_all_headers name h = filter (\<lambda>v. v \<noteq> []) (map el_content (get_children_named name (mh_xml h)))"

text \<open>The values of one header, split at the delimiter.\<close>

function header_values :: "char \<Rightarrow> string \<Rightarrow> string list" where
  "header_values delimiter v =
     (let sub = canonicalise_space (takeWhile (\<lambda>c. c \<noteq> delimiter) v)
      in (if sub \<noteq> [] then [sub] else []) @
         (if delimiter \<in> set v then header_values delimiter (tl (dropWhile (\<lambda>c. c \<noteq> delimiter) v)) else []))"
  by auto

lemma after_shorter: "c \<in> set s \<Longrightarrow> length (dropWhile (\<lambda>d. d \<noteq> c) s) - Suc 0 < length s"
  using length_dropWhile_le [of "\<lambda>d. d \<noteq> c" s] by (cases s) auto

termination header_values
  by (relation "measure (\<lambda>(d, v). length v)") (auto intro: after_shorter)

declare header_values.simps [simp del]

definition get_all_splitting :: "string \<Rightarrow> char \<Rightarrow> MIMEHeaders \<Rightarrow> string list" where
  "get_all_splitting name delimiter h =
     concat (map (\<lambda>e. header_values delimiter (el_content e)) (get_children_named name (mh_xml h)))"

text \<open>A property list is a sorted association list. The first element is what is left of the value.\<close>

definition add_parameter :: "string \<Rightarrow> (string \<times> string) list \<Rightarrow> (string \<times> string) list" where
  "add_parameter element pl =
     (if CHR ''='' \<notin> set element then map_insert element ''1'' pl
      else let pn = canonicalise_space (takeWhile (\<lambda>c. c \<noteq> CHR ''='') element);
               pv = canonicalise_space (tl (dropWhile (\<lambda>c. c \<noteq> CHR ''='') element))
           in if pn \<noteq> [] then map_insert pn pv pl else pl)"

function parameters :: "string \<Rightarrow> (string \<times> string) list \<Rightarrow> (string \<times> string) list" where
  "parameters v pl =
     (let element = canonicalise_space (takeWhile (\<lambda>c. c \<noteq> CHR '';'') v);
          pl = (if element \<noteq> [] then add_parameter element pl else pl)
      in if CHR '';'' \<in> set v then parameters (tl (dropWhile (\<lambda>c. c \<noteq> CHR '';'') v)) pl else pl)"
  by auto
termination
  by (relation "measure (\<lambda>(v, pl). length v)") (auto intro: after_shorter)

declare parameters.simps [simp del]

definition split_parameters :: "string \<Rightarrow> (string \<times> string) list \<times> string" where
  "split_parameters v =
     ((if CHR '';'' \<in> set v then parameters (tl (dropWhile (\<lambda>c. c \<noteq> CHR '';'') v)) [] else []),
      canonicalise_space (takeWhile (\<lambda>c. c \<noteq> CHR '';'') v))"

section \<open>Reading\<close>

abbreviation CR :: char where "CR \<equiv> CHR 0x0D"
abbreviation LF :: char where "LF \<equiv> CHR 0x0A"

definition MAX_HEADER :: nat where "MAX_HEADER = 8000"

text \<open>A line, with the number of characters read so far: whether it ended well, the line and the rest.\<close>

fun mime_line :: "nat \<Rightarrow> string \<Rightarrow> string \<Rightarrow> bool \<times> string \<times> string" where
  "mime_line count [] s = (False, s, [])"
| "mime_line count (c # r) s =
     (if c = CR then (True, s, case r of d # r' \<Rightarrow> if d = LF then r' else r | [] \<Rightarrow> [])
      else if c = LF then (True, s, r)
      else if count + 1 < MAX_HEADER then mime_line (count + 1) r (s @ [c])
      else (False, s, r))"

lemma mime_line_ends: "mime_line count inp s = (ok, line, r) \<Longrightarrow> length r \<le> length inp \<and> (ok \<longrightarrow> length r < length inp)"
  by (induction count inp s rule: mime_line.induct) (auto split: if_splits list.splits)

lemmas line_ends = mime_line_ends [OF sym]

text \<open>The continuation lines of a value.\<close>

function mime_continue :: "string \<Rightarrow> string \<Rightarrow> bool \<times> string \<times> string" where
  "mime_continue v inp =
     (case inp of
        [] \<Rightarrow> (True, v, [])
      | c # r \<Rightarrow>
          if c = CHR '' '' \<or> c = CHR 0x09
          then (case mime_line 0 r [] of
                  (ok, extra, r') \<Rightarrow>
                    if \<not> ok then (False, v, r')
                    else if length v + length extra > MAX_HEADER then (False, v, r')
                    else mime_continue (v @ '' '' @ extra) r')
          else (True, v, inp))"
  by auto
termination
  by (relation "measure (\<lambda>(v, inp). length inp)") (auto dest!: line_ends)

declare mime_continue.simps [simp del]

lemma mime_continue_Nil: "mime_continue v [] = (True, v, [])"
  by (subst mime_continue.simps) simp

lemma mime_continue_Cons:
  "mime_continue v (c # s) =
     (if c = CHR '' '' \<or> c = CHR 0x09
      then (case mime_line 0 s [] of
              (ok, extra, r') \<Rightarrow>
                if \<not> ok then (False, v, r')
                else if length v + length extra > MAX_HEADER then (False, v, r')
                else mime_continue (v @ '' '' @ extra) r')
      else (True, v, c # s))"
  by (subst mime_continue.simps) simp

lemma mime_continue_ends: "mime_continue v inp = (ok, w, r) \<Longrightarrow> length r \<le> length inp"
proof (induction inp arbitrary: v rule: length_induct)
  case (1 inp)
  show ?case
  proof (cases inp)
    case Nil
    with 1(2) show ?thesis by (simp add: mime_continue_Nil)
  next
    case (Cons c s)
    obtain b extra r' where m: "mime_line 0 s [] = (b, extra, r')" by (cases "mime_line 0 s []")
    from mime_line_ends [OF this] have l: "length r' \<le> length s" by simp
    have "mime_continue (v @ '' '' @ extra) r' = (ok, w, r) \<Longrightarrow> length r \<le> length r'"
      using 1(1) [rule_format, of r' "v @ '' '' @ extra"] Cons l by simp
    with l 1(2) show ?thesis by (auto simp: Cons mime_continue_Cons m split: if_splits)
  qed
qed

definition add_header :: "string \<Rightarrow> string \<Rightarrow> Element \<Rightarrow> Element" where
  "add_header name v xml = (if name \<noteq> [] \<and> v \<noteq> [] then add_child (new_element name v []) xml else xml)"

function mime_read_loop :: "Element \<Rightarrow> string \<Rightarrow> bool \<times> Element \<times> string" where
  "mime_read_loop xml inp =
     (case mime_line 0 inp [] of
        (ok, line, r) \<Rightarrow>
          if \<not> ok then (False, xml, r)
          else if line = [] then (True, xml, r)
          else if CHR '':'' \<notin> set line then mime_read_loop xml r
          else (case mime_continue (tl (dropWhile (\<lambda>c. c \<noteq> CHR '':'') line)) r of
                  (ok, v, r') \<Rightarrow>
                    if \<not> ok then (False, xml, r')
                    else mime_read_loop
                           (add_header (text_tolower (takeWhile (\<lambda>c. c \<noteq> CHR '':'') line)) (canonicalise_space v) xml) r'))"
  by auto
termination
  by (relation "measure (\<lambda>(xml, inp). length inp)")
    (auto dest!: line_ends mime_continue_ends [OF sym])

declare mime_read_loop.simps [simp del]

definition mime_read :: "bool \<Rightarrow> string \<Rightarrow> MIMEHeaders \<Rightarrow> bool \<times> MIMEHeaders \<times> string" where
  "mime_read appending inp h =
     (case mime_read_loop (if appending then mh_xml h else clear_children (mh_xml h)) inp of
        (ok, xml, r) \<Rightarrow> (ok, h \<lparr> mh_xml := xml \<rparr>, r))"

section \<open>Writing\<close>

text \<open>Capitals at the start of a name and after each hyphen.\<close>

fun header_case :: "bool \<Rightarrow> string \<Rightarrow> string" where
  "header_case first [] = []"
| "header_case first (c # s) =
     (let c = (if first then c_toupper c else c) in c # header_case (c = CHR ''-'') s)"

text \<open>\<^verbatim>\<open>rfind(c, n)\<close>: the last occurrence at or before a position.\<close>

definition rfind_upto :: "char \<Rightarrow> nat \<Rightarrow> string \<Rightarrow> nat option" where
  "rfind_upto c n s =
     (let is = filter (\<lambda>i. s ! i = c) [0..<min (n + 1) (length s)] in if is = [] then None else Some (last is))"

text \<open>Where a long value is split: after a comma that a space or tab follows, otherwise at a space.\<close>

definition fold_point :: "nat \<Rightarrow> string \<Rightarrow> nat option" where
  "fold_point n v =
     (case rfind_upto CHR '','' n v of
        Some i \<Rightarrow>
          if i + 1 < length v \<and> (v ! (i + 1) = CHR '' '' \<or> v ! (i + 1) = CHR 0x09) then Some (i + 1)
          else rfind_upto CHR '' '' n v
      | None \<Rightarrow> rfind_upto CHR '' '' n v)"

function fold_value :: "nat \<Rightarrow> string \<Rightarrow> string" where
  "fold_value n v =
     (if n \<noteq> 0 \<and> n < length v
      then (case fold_point n v of
              Some i \<Rightarrow> take i v @ [CR, LF, CHR '' ''] @ fold_value n (drop (i + 1) v)
            | None \<Rightarrow> v)
      else v)"
  by auto
termination
  by (relation "measure (\<lambda>(n, v). length v)") auto

declare fold_value.simps [simp del]

definition write_header :: "nat \<Rightarrow> Element \<Rightarrow> string" where
  "write_header n e = header_case True (el_name e) @ '': '' @ fold_value n (el_content e) @ [CR, LF]"

definition mime_write :: "MIMEHeaders \<Rightarrow> string" where
  "mime_write h = concat (map (write_header (max_line h)) (el_children (mh_xml h))) @ [CR, LF]"

section \<open>Headers written and read again\<close>

text \<open>
  A name that can be written: it starts a line and holds no colon. A value holds no line ends and is not blank; both
  fit in a line. The width does not matter: a folded value is put together again.
\<close>

definition header_ok :: "Element \<Rightarrow> bool" where
  "header_ok e \<longleftrightarrow>
     el_name e \<noteq> [] \<and> hd (el_name e) \<notin> {CHR '' '', CHR 0x09} \<and> set (el_name e) \<inter> {CHR '':'', CR, LF} = {} \<and>
     set (el_content e) \<inter> {CR, LF} = {} \<and> canonicalise_space (el_content e) \<noteq> [] \<and>
     length (el_name e) + 2 + length (el_content e) < MAX_HEADER"

definition header_read :: "Element \<Rightarrow> Element" where
  "header_read e = new_element (text_tolower (el_name e)) (canonicalise_space (el_content e)) []"

subsection \<open>Names\<close>

lemma tolower_toupper: "c_tolower (c_toupper c) = c_tolower c"
proof (cases "char_between CHR ''a'' CHR ''z'' c")
  case True
  then have n: "97 \<le> (of_char c :: nat)" "(of_char c :: nat) \<le> 122" by (simp_all add: char_between_ascii)
  then have u: "(of_char (c_toupper c) :: nat) + 32 = of_char c" using True by (simp add: c_toupper_def)
  then have "65 \<le> (of_char (c_toupper c) :: nat)" "(of_char (c_toupper c) :: nat) \<le> 90" using n by linarith+
  with u have "c_tolower (c_toupper c) = char_of (of_char c :: nat)" by (simp add: c_tolower_def char_between_ascii)
  moreover have "c_tolower c = c" using n by (simp add: c_tolower_def char_between_ascii)
  ultimately show ?thesis by simp
qed (simp add: c_toupper_def)

lemma toupper_special: "k \<in> {CHR '':'', CR, LF, CHR '' '', CHR 0x09} \<Longrightarrow> c_toupper c = k \<longleftrightarrow> c = k"
proof -
  assume k: "k \<in> {CHR '':'', CR, LF, CHR '' '', CHR 0x09}"
  show ?thesis
  proof (cases "char_between CHR ''a'' CHR ''z'' c")
    case True
    then have n: "97 \<le> (of_char c :: nat)" "(of_char c :: nat) \<le> 122" by (simp_all add: char_between_ascii)
    then have "(of_char (c_toupper c) :: nat) = of_char c - 32" using True by (simp add: c_toupper_def)
    with n k show ?thesis by auto
  qed (simp add: c_toupper_def)
qed

lemma header_case_lower: "text_tolower (header_case first s) = text_tolower s"
  by (induction first s rule: header_case.induct) (simp_all add: text_tolower_def tolower_toupper Let_def)

lemma header_case_special:
  assumes "k \<in> {CHR '':'', CR, LF, CHR '' '', CHR 0x09}"
  shows "k \<in> set (header_case first s) \<longleftrightarrow> k \<in> set s" and "s \<noteq> [] \<Longrightarrow> hd (header_case first s) = k \<longleftrightarrow> hd s = k"
proof -
  show "k \<in> set (header_case first s) \<longleftrightarrow> k \<in> set s"
    using toupper_special [OF assms]
    by (induction first s rule: header_case.induct) (simp_all add: Let_def eq_commute [of k])
  show "hd (header_case first s) = k \<longleftrightarrow> hd s = k" if "s \<noteq> []"
    using toupper_special [OF assms] that by (cases s) (simp_all add: Let_def)
qed

lemma header_case_Nil [simp]: "header_case first s = [] \<longleftrightarrow> s = []"
  by (cases s) (simp_all add: Let_def)

lemma header_case_length [simp]: "length (header_case first s) = length s"
  by (induction first s rule: header_case.induct) (simp_all add: Let_def)

subsection \<open>Lines\<close>

lemma mime_line_reads:
  "set w \<inter> {CR, LF} = {} \<Longrightarrow> count + length w < MAX_HEADER \<Longrightarrow> mime_line count (w @ CR # LF # r) s = (True, s @ w, r)"
  by (induction w arbitrary: count s) auto

subsection \<open>The pieces of a folded value\<close>

function fold_pieces :: "nat \<Rightarrow> string \<Rightarrow> string list" where
  "fold_pieces n v =
     (if n \<noteq> 0 \<and> n < length v
      then (case fold_point n v of Some i \<Rightarrow> take i v # fold_pieces n (drop (i + 1) v) | None \<Rightarrow> [v])
      else [v])"
  by auto
termination
  by (relation "measure (\<lambda>(n, v). length v)") auto

declare fold_pieces.simps [simp del]

definition continuation :: "string \<Rightarrow> string" where
  "continuation p = [CR, LF, CHR '' ''] @ p"

lemma fold_pieces_join: "fold_pieces n v \<noteq> [] \<and> fold_value n v = hd (fold_pieces n v) @ concat (map continuation (tl (fold_pieces n v)))"
proof (induction n v rule: fold_pieces.induct)
  case (1 n v)
  then show ?case
    by (cases "fold_pieces n (drop (Suc (the (fold_point n v))) v)")
      (auto simp: fold_pieces.simps [of n v] fold_value.simps [of n v] continuation_def split: option.split)
qed

text \<open>A value is split at a space or a tab.\<close>

lemma rfind_upto_Some: "rfind_upto c n s = Some i \<Longrightarrow> i < length s \<and> i \<le> n \<and> s ! i = c"
proof -
  assume r: "rfind_upto c n s = Some i"
  then have ne: "filter (\<lambda>i. s ! i = c) [0..<min (n + 1) (length s)] \<noteq> []" by (auto simp: rfind_upto_def Let_def split: if_splits)
  from last_in_set [OF this] r show ?thesis by (auto simp: rfind_upto_def Let_def split: if_splits)
qed

lemma fold_point_Some: "fold_point n v = Some i \<Longrightarrow> i < length v \<and> (v ! i = CHR '' '' \<or> v ! i = CHR 0x09)"
  by (auto simp: fold_point_def dest!: rfind_upto_Some split: option.splits if_splits)

definition same_space :: "char \<Rightarrow> char \<Rightarrow> bool" where
  "same_space a b \<longleftrightarrow> a = b \<or> ws_char a \<and> ws_char b"

lemma canon_step_same_space: "same_space a b \<Longrightarrow> canon_step st a = canon_step st b"
  by (cases st) (auto simp: same_space_def canon_step_def)

lemma canon_same_space: "list_all2 same_space s t \<Longrightarrow> foldl canon_step st s = foldl canon_step st t"
  by (induction s t arbitrary: st rule: list_all2_induct) (simp_all add: canon_step_same_space)

lemma canonicalise_leading: "canonicalise_space (CHR '' '' # s) = canonicalise_space s"
  by (simp add: canonicalise_space_def canon_step_def ws_char_def)

abbreviation spaced :: "string list \<Rightarrow> string" where
  "spaced ps \<equiv> concat (map ((#) CHR '' '') ps)"

lemma fold_pieces_space: "list_all2 same_space (spaced (fold_pieces n v)) (CHR '' '' # v)"
proof (induction n v rule: fold_pieces.induct)
  case (1 n v)
  have trans: "same_space a c" if "same_space a b" "same_space b c" for a b c using that by (auto simp: same_space_def)
  have same: "list_all2 same_space w w" for w by (simp add: list_all2_same same_space_def)
  show ?case
  proof (cases "n \<noteq> 0 \<and> n < length v \<and> fold_point n v \<noteq> None")
    case True
    then obtain i where i: "fold_point n v = Some i" by blast
    from fold_point_Some [OF i] have v: "i < length v" "same_space CHR '' '' (v ! i)" by (auto simp: same_space_def ws_char_def)
    have IH: "list_all2 same_space (spaced (fold_pieces n (drop (i + 1) v))) (v ! i # drop (i + 1) v)"
      using 1 [of i] True i v(2) by (auto simp: list_all2_Cons2 intro: trans)
    have "list_all2 same_space (CHR '' '' # take i v @ spaced (fold_pieces n (drop (i + 1) v))) (CHR '' '' # take i v @ v ! i # drop (i + 1) v)"
      using IH same by (simp add: list_all2_appendI same_space_def)
    then show ?thesis using True i v(1) by (simp add: fold_pieces.simps [of n v] id_take_nth_drop [symmetric])
  next
    case False
    then have "fold_pieces n v = [v]" by (auto simp: fold_pieces.simps [of n v] split: option.split)
    then show ?thesis using same by (simp add: same_space_def [of "CHR '' ''"])
  qed
qed

lemma fold_pieces_chars: "set (concat (fold_pieces n v)) \<subseteq> set v"
proof (induction n v rule: fold_pieces.induct)
  case (1 n v)
  then show ?case
    by (auto simp: fold_pieces.simps [of n v] split: option.splits dest: in_set_takeD in_set_dropD)
qed

lemma fold_pieces_length: "length (spaced (fold_pieces n v)) = Suc (length v)"
  using list_all2_lengthD [OF fold_pieces_space [of n v]] by simp

lemma fold_pieces_canon: "canonicalise_space (spaced (fold_pieces n v)) = canonicalise_space v"
  using canon_same_space [OF fold_pieces_space [of n v]] canonicalise_leading [of v] by (simp add: canonicalise_space_def)

subsection \<open>A value read over its lines\<close>

lemma mime_continue_pieces:
  assumes "set (concat ps) \<inter> {CR, LF} = {}" "length v + length (spaced ps) \<le> MAX_HEADER" "length (spaced ps) \<le> MAX_HEADER"
    and "u \<noteq> []" "hd u \<noteq> CHR '' ''" "hd u \<noteq> CHR 0x09"
  shows "mime_continue v (concat (map (\<lambda>p. CHR '' '' # p @ [CR, LF]) ps) @ u) = (True, v @ spaced ps, u)"
  using assms(1-3)
proof (induction ps arbitrary: v)
  case Nil
  with assms show ?case by (cases u) (simp_all add: mime_continue_Cons)
next
  case (Cons p ps)
  have l: "mime_line 0 (p @ CR # LF # r) [] = (True, p, r)" for r
    using mime_line_reads [of p 0 r "[]"] Cons.prems by auto
  show ?case using Cons by (simp add: mime_continue_Cons l)
qed

subsection \<open>The round trip\<close>

lemma header_text:
  "write_header n e = header_case True (el_name e) @ '':'' @
     concat (map (\<lambda>p. CHR '' '' # p @ [CR, LF]) (fold_pieces n (el_content e)))"
proof -
  have shift: "concat (map continuation ps) @ [CR, LF] = [CR, LF] @ concat (map (\<lambda>p. CHR '' '' # p @ [CR, LF]) ps)" for ps
    by (induction ps) (simp_all add: continuation_def)
  from fold_pieces_join [of n "el_content e"] shift [of "tl (fold_pieces n (el_content e))"] show ?thesis
    by (cases "fold_pieces n (el_content e)") (simp_all add: write_header_def)
qed

lemma header_starts:
  assumes "header_ok e"
  shows "write_header n e \<noteq> []" "hd (write_header n e) \<noteq> CHR '' ''" "hd (write_header n e) \<noteq> CHR 0x09"
proof -
  from assms show "write_header n e \<noteq> []" "hd (write_header n e) \<noteq> CHR '' ''" "hd (write_header n e) \<noteq> CHR 0x09"
    by (simp_all add: header_text header_ok_def header_case_special(2))
qed

lemma read_header:
  assumes ok: "header_ok e" and u: "u \<noteq> []" "hd u \<noteq> CHR '' ''" "hd u \<noteq> CHR 0x09"
  shows "mime_read_loop xml (write_header n e @ u) = mime_read_loop (add_child (header_read e) xml) u"
proof -
  define N where "N = header_case True (el_name e)"
  obtain p ps where ps: "fold_pieces n (el_content e) = p # ps" using fold_pieces_join by (cases "fold_pieces n (el_content e)") blast+
  define line where "line = N @ '': '' @ p"
  have N: "N \<noteq> []" "CHR '':'' \<notin> set N" "set N \<inter> {CR, LF} = {}" "text_tolower N = text_tolower (el_name e)" "length N = length (el_name e)"
    using ok by (auto simp: N_def header_ok_def header_case_special(1) header_case_lower)
  have chars: "set p \<inter> {CR, LF} = {}" "set (concat ps) \<inter> {CR, LF} = {}"
    using fold_pieces_chars [of n "el_content e"] ok by (auto simp: ps header_ok_def)
  have len: "length p + length (spaced ps) = length (el_content e)" using fold_pieces_length [of n "el_content e"] by (simp add: ps)
  have fits: "length N + 2 + length (el_content e) < MAX_HEADER" using ok N(5) by (simp add: header_ok_def)
  have first: "mime_line 0 (line @ CR # LF # r) [] = (True, line, r)" for r
    using mime_line_reads [of line 0 r "[]"] N(3) chars(1) len fits by (auto simp: line_def)
  have parts: "takeWhile (\<lambda>c. c \<noteq> CHR '':'') line = N" "dropWhile (\<lambda>c. c \<noteq> CHR '':'') line = '': '' @ p"
    using N(2) by (auto simp: line_def takeWhile_append dropWhile_append)
  have cont: "mime_continue ('' '' @ p) (concat (map (\<lambda>p. CHR '' '' # p @ [CR, LF]) ps) @ u) = (True, '' '' @ p @ spaced ps, u)"
    using mime_continue_pieces [OF chars(2) _ _ u, of "'' '' @ p"] len fits by simp
  have canon: "canonicalise_space ('' '' @ p @ spaced ps) = canonicalise_space (el_content e)"
    using fold_pieces_canon [of n "el_content e"] by (simp add: ps)
  have "write_header n e @ u = line @ CR # LF # concat (map (\<lambda>p. CHR '' '' # p @ [CR, LF]) ps) @ u"
    by (simp add: header_text ps line_def N_def)
  then have "mime_read_loop xml (write_header n e @ u) = mime_read_loop (add_header (text_tolower N) (canonicalise_space (el_content e)) xml) u"
    by (subst mime_read_loop.simps) (use cont canon in \<open>simp add: first parts, simp add: line_def\<close>)
  then show ?thesis using ok N(1,4) by (simp add: add_header_def header_read_def header_ok_def text_tolower_def)
qed

lemma read_headers:
  "\<forall>e\<in>set hs. header_ok e \<Longrightarrow>
   mime_read_loop xml (concat (map (write_header n) hs) @ [CR, LF] @ body) = (True, foldl (\<lambda>x e. add_child (header_read e) x) xml hs, body)"
proof (induction hs arbitrary: xml)
  case Nil
  then show ?case by (subst mime_read_loop.simps) simp
next
  case (Cons e hs)
  let ?u = "concat (map (write_header n) hs) @ [CR, LF] @ body"
  have "?u \<noteq> [] \<and> hd ?u \<noteq> CHR '' '' \<and> hd ?u \<noteq> CHR 0x09"
    using Cons.prems header_starts [of "hd hs" n] by (cases hs) auto
  with read_header [of e ?u xml n] Cons show ?case by simp
qed

lemma children_added: "foldl (\<lambda>x e. add_child (header_read e) x) xml hs = with_children (el_children xml @ map header_read hs) xml"
  by (induction hs arbitrary: xml) (cases xml, simp_all add: add_child_def with_children_def)

theorem mime_headers_roundtrip:
  assumes "\<forall>e\<in>set (el_children (mh_xml h)). header_ok e"
  shows "mime_read False (mime_write h @ body) h' =
    (True, h' \<lparr> mh_xml := with_children (map header_read (el_children (mh_xml h))) (mh_xml h') \<rparr>, body)"
  using read_headers [OF assms, of _ "max_line h" body]
  by (simp add: mime_read_def mime_write_def children_added clear_children_def with_children_def)

theorem mime_headers_roundtrip_witness:
  "mime_read False (mime_write (enable_folding 12 (put_header ''accept-x'' ''text/html, text/plain  or other'' mime_headers)) @ ''body'') mime_headers =
     (True, put_header ''accept-x'' ''text/html, text/plain or other'' mime_headers, ''body'')"
proof -
  have c: "canonicalise_space ''text/html, text/plain  or other'' = ''text/html, text/plain or other''" by code_simp
  have l: "text_tolower ''accept-x'' = ''accept-x''" by code_simp
  have "\<forall>e\<in>set (el_children (mh_xml (enable_folding 12 (put_header ''accept-x'' ''text/html, text/plain  or other'' mime_headers)))). header_ok e"
    by (simp add: mime_headers_def put_header_def enable_folding_def add_child_def with_children_def new_element_def header_ok_def c MAX_HEADER_def)
  from mime_headers_roundtrip [OF this, of "''body''" mime_headers] show ?thesis
    by (simp add: mime_headers_def put_header_def enable_folding_def add_child_def with_children_def new_element_def header_read_def c l)
qed

end
