(* ===== verification/Web_Url.thy ===== *)
theory Web_Url
  imports Split Json_Value Xml_Path File_Path
begin

text \<open>
  URLs of libs/web (url.cc). A URL is its text. Its parts are children of an element, which \<open>url_split\<close> adds
  and \<open>url_from_xml\<close> reads through paths; the percent encoding works on each part.
\<close>

section \<open>Percent encoding\<close>

type_synonym URL = string

text \<open>\<^verbatim>\<open>%02X\<close> of a character.\<close>

definition url_hex :: "char \<Rightarrow> string" where
  "url_hex c = (let s = map c_toupper (print_digits 16 (of_char c)) in CHR ''%'' # replicate (2 - length s) CHR ''0'' @ s)"

definition url_reserved :: "char \<Rightarrow> bool" where
  "url_reserved c \<longleftrightarrow> c \<in> set (''+%!*'' @ [CHR 0x27] @ ''();:@&=$,/?#[]'')"

definition url_encode_char :: "bool \<Rightarrow> char \<Rightarrow> string" where
  "url_encode_char space_as_plus c =
     (if (of_char c :: nat) < 32 \<or> (of_char c :: nat) > 126 then url_hex c
      else if c = CHR '' '' then (if space_as_plus then ''+'' else ''%20'')
      else if url_reserved c then url_hex c
      else [c])"

definition url_encode :: "bool \<Rightarrow> string \<Rightarrow> string" where
  "url_encode space_as_plus s = concat (map (url_encode_char space_as_plus) s)"

definition url_encode_props :: "bool \<Rightarrow> (string \<times> string) list \<Rightarrow> string" where
  "url_encode_props space_as_plus props =
     foldl (\<lambda>r (n, v). (if r \<noteq> [] then r @ ''&'' else r) @ url_encode space_as_plus n @ ''='' @ url_encode space_as_plus v) [] props"

fun url_decode :: "bool \<Rightarrow> string \<Rightarrow> string" where
  "url_decode space_as_plus [] = []"
| "url_decode space_as_plus (c # s) =
     (if c = CHR ''+'' then (if space_as_plus then CHR '' '' else CHR ''+'') # url_decode space_as_plus s
      else if c = CHR ''%'' then char_of (unat (xtoi (take 2 s))) # url_decode space_as_plus (drop 2 s)
      else c # url_decode space_as_plus s)"

definition url_decode_param :: "bool \<Rightarrow> (string \<times> string) list \<Rightarrow> string \<Rightarrow> (string \<times> string) list" where
  "url_decode_param space_as_plus props param =
     (case find_first (\<lambda>c. c = CHR ''='') param of
        Some q \<Rightarrow> if q \<noteq> 0 then map_insert (take q param) (url_decode space_as_plus (drop (q + 1) param)) props else props
      | None \<Rightarrow> props)"

definition url_decode_props :: "bool \<Rightarrow> string \<Rightarrow> (string \<times> string) list \<Rightarrow> (string \<times> string) list" where
  "url_decode_props space_as_plus s props = foldl (url_decode_param space_as_plus) props (split s CHR ''&'' False 0)"

section \<open>Parts\<close>

text \<open>The text of the parts found below an element.\<close>

definition url_from_xml :: "Element \<Rightarrow> URL" where
  "url_from_xml xml =
     (let part = (\<lambda>n. get_value n [] xml);
          after = (\<lambda>c n. if part n \<noteq> [] then c @ part n else [])
      in (if part ''scheme'' \<noteq> []
          then part ''scheme'' @ '':'' @
               (if part ''host'' \<noteq> []
                then ''//'' @
                     (if part ''user'' \<noteq> [] then part ''user'' @ after '':'' ''password'' @ ''@'' else []) @
                     part ''host'' @ after '':'' ''port''
                else [])
          else []) @
         part ''path'' @ after ''?'' ''query'' @ after ''#'' ''fragment'')"

definition add_text :: "string \<Rightarrow> string \<Rightarrow> Element \<Rightarrow> Element" where
  "add_text n v = add_child (new_element n v [])"

definition url_add_host :: "string \<Rightarrow> Element \<Rightarrow> Element" where
  "url_add_host host xml =
     (let (xml, host) =
        (if CHR ''@'' \<in> set host
         then (let before = takeWhile (\<lambda>c. c \<noteq> CHR ''@'') host
               in (if CHR '':'' \<in> set before
                   then add_text ''password'' (tl (dropWhile (\<lambda>c. c \<noteq> CHR '':'') before))
                          (add_text ''user'' (takeWhile (\<lambda>c. c \<noteq> CHR '':'') before) xml)
                   else add_text ''user'' before xml,
                   tl (dropWhile (\<lambda>c. c \<noteq> CHR ''@'') host)))
         else (xml, host))
      in if CHR '':'' \<in> set host
         then add_text ''port'' (tl (dropWhile (\<lambda>c. c \<noteq> CHR '':'') host))
                (add_text ''host'' (takeWhile (\<lambda>c. c \<noteq> CHR '':'') host) xml)
         else add_text ''host'' host xml)"

text \<open>What follows the host: the path, the query and the fragment.\<close>

definition url_add_path :: "string \<Rightarrow> Element \<Rightarrow> Element" where
  "url_add_path rest xml =
     (if rest = [] then xml
      else let (xml, hash) =
        (if CHR ''?'' \<notin> set rest
         then (add_text ''path'' (takeWhile (\<lambda>c. c \<noteq> CHR ''#'') rest) xml, dropWhile (\<lambda>c. c \<noteq> CHR ''#'') rest)
         else let query = tl (dropWhile (\<lambda>c. c \<noteq> CHR ''?'') rest)
              in (add_text ''query'' (takeWhile (\<lambda>c. c \<noteq> CHR ''#'') query)
                    (add_text ''path'' (takeWhile (\<lambda>c. c \<noteq> CHR ''?'') rest) xml),
                  dropWhile (\<lambda>c. c \<noteq> CHR ''#'') query))
      in if hash = [] then xml else add_text ''fragment'' (tl hash) xml)"

definition set_name :: "string \<Rightarrow> Element \<Rightarrow> Element" where
  "set_name n e = Element n (el_content e) (el_attrs e) (el_children e) (el_line e)"

definition url_split :: "URL \<Rightarrow> Element \<Rightarrow> bool \<times> Element" where
  "url_split text xml =
     (let xml = set_name ''url'' xml;
          scheme = takeWhile (\<lambda>c. c \<noteq> CHR '':'') text
      in if CHR '':'' \<in> set text \<and> CHR ''/'' \<notin> set scheme
         then (let xml = add_text ''scheme'' scheme xml;
                   after = tl (dropWhile (\<lambda>c. c \<noteq> CHR '':'') text)
               in if take 2 after = ''//''
                  then (if length after = 2 then (False, xml)
                        else (True, url_add_path (dropWhile (\<lambda>c. c \<noteq> CHR ''/'') (drop 2 after))
                                (url_add_host (takeWhile (\<lambda>c. c \<noteq> CHR ''/'') (drop 2 after)) xml)))
                  else (True, url_add_path after xml))
         else (True, url_add_path text xml))"

definition empty_element :: Element where "empty_element = new_element [] [] []"

definition child_text :: "string \<Rightarrow> Element \<Rightarrow> string" where
  "child_text n e = (case get_child_named n 0 e of Some c \<Rightarrow> el_content c | None \<Rightarrow> [])"

text \<open>\<^verbatim>\<open>get_scheme\<close>, \<^verbatim>\<open>get_host\<close>, \<^verbatim>\<open>get_path\<close>, \<^verbatim>\<open>get_query\<close> and \<^verbatim>\<open>get_fragment\<close> by the name of the part.\<close>

definition url_part :: "string \<Rightarrow> URL \<Rightarrow> string" where
  "url_part n text = (case url_split text empty_element of (ok, xml) \<Rightarrow> if \<not> ok then [] else child_text n xml)"

definition get_query_props :: "(string \<times> string) list \<Rightarrow> URL \<Rightarrow> bool \<times> (string \<times> string) list" where
  "get_query_props props text =
     (let query = url_part ''query'' text
      in if query = [] then (False, props) else (True, url_decode_props True query props))"

definition get_query_parameter :: "string \<Rightarrow> URL \<Rightarrow> string" where
  "get_query_parameter name text =
     (case get_query_props [] text of
        (ok, params) \<Rightarrow> if \<not> ok then [] else (case map_of params name of Some v \<Rightarrow> v | None \<Rightarrow> []))"

text \<open>A child of the given name is made when there is none, and its content replaced.\<close>

definition set_child_text :: "string \<Rightarrow> string \<Rightarrow> Element \<Rightarrow> Element" where
  "set_child_text n v xml =
     (let xml = snd (make_child n xml)
      in case child_position n 0 (el_children xml) of Some i \<Rightarrow> modify_at [i] (set_content v) xml | None \<Rightarrow> xml)"

definition set_query_parameter :: "string \<Rightarrow> string \<Rightarrow> URL \<Rightarrow> URL" where
  "set_query_parameter name v text =
     (case url_split text empty_element of
        (ok, xml) \<Rightarrow>
          if \<not> ok then text
          else let params = map_insert name v (url_decode_props True (child_text ''query'' xml) [])
               in url_from_xml (set_child_text ''query'' (url_encode_props True params) xml))"

definition url_append_query :: "(string \<times> string) list \<Rightarrow> URL \<Rightarrow> URL" where
  "url_append_query query text = (if query \<noteq> [] then text @ ''?'' else text) @ url_encode_props True query"

definition url_resolve :: "URL \<Rightarrow> URL \<Rightarrow> URL" where
  "url_resolve base text =
     (case url_split text empty_element of
        (ok, xml) \<Rightarrow>
          if \<not> ok then base
          else if get_child_named ''scheme'' 0 xml \<noteq> None then text
          else (case url_split base empty_element of
            (ok, base_xml) \<Rightarrow>
              if \<not> ok then text
              else let res_path = path_resolve (child_text ''path'' xml) (child_text ''path'' base_xml);
                       res_path = (if res_path = [] \<or> hd res_path \<noteq> CHR ''/'' then CHR ''/'' # res_path else res_path);
                       replace = (\<lambda>n. \<lambda>e. let e = remove_children n e
                                           in case get_child_named n 0 xml of Some c \<Rightarrow> add_text n (el_content c) e | None \<Rightarrow> e)
                   in url_from_xml (replace ''fragment'' (replace ''query'' (add_text ''path'' res_path (remove_children ''path'' base_xml))))))"

section \<open>Encoding and decoding\<close>

abbreviation upper_digit :: "nat \<Rightarrow> char" where
  "upper_digit d \<equiv> c_toupper (digit_char d)"

lemma char_code_less: "(of_char c :: nat) < 256"
  by (metis nat_of_char_less_256)

lemma of_char_upper: "d < 16 \<Longrightarrow> (of_char (upper_digit d) :: nat) = (if d < 10 then 48 + d else 55 + d)"
  by (simp add: c_toupper_def char_between_ascii of_char_digit)

lemma upper_digit_value: "d < 16 \<Longrightarrow> digit_value 16 (upper_digit d) = Some d"
  by (simp add: digit_value_def char_between_ascii of_char_upper)

lemma upper_digit_not: "d < 16 \<Longrightarrow> (of_char x :: nat) < 48 \<or> 57 < (of_char x :: nat) \<and> (of_char x :: nat) < 65 \<or> 70 < (of_char x :: nat) \<Longrightarrow> upper_digit d \<noteq> x"
  using of_char_upper [of d] by (auto split: if_splits)

lemma xtoi_two: "a < 16 \<Longrightarrow> b < 16 \<Longrightarrow> unat (xtoi [upper_digit a, upper_digit b]) = 16 * a + b"
proof -
  assume d: "a < 16" "b < 16"
  have "\<not> isspace (upper_digit a)" using of_char_upper [OF d(1)] upper_digit_not [OF d(1), of "CHR '' ''"] by (auto simp: isspace_def split: if_splits)
  then have "scan_signed 16 [upper_digit a, upper_digit b] = (False, 16 * a + b)"
    using d upper_digit_not [OF d(1)] upper_digit_not [OF d(2)]
    by (simp add: scan_signed_def scan_magnitude_def scan_prefix_def upper_digit_value)
  moreover have "unat (ucast (of_nat (16 * a + b) :: u64) :: u32) = 16 * a + b"
    using d by (simp add: unsigned_ucast_eq unsigned_of_nat take_bit_nat_eq_self min_def del: of_nat_add of_nat_mult)
  ultimately show ?thesis using d by (simp add: xtoi_def strtoull_def del: of_nat_add of_nat_mult)
qed

lemma url_hex_digits: "url_hex c = [CHR ''%'', upper_digit (of_char c div 16), upper_digit (of_char c mod 16)]"
proof -
  have "c_toupper CHR ''0'' = CHR ''0''" "digit_char 0 = CHR ''0''" by (simp_all add: c_toupper_def char_between_ascii digit_char_def)
  moreover have "(of_char c :: nat) div 16 < 16" using char_code_less [of c] by linarith
  ultimately show ?thesis
    by (cases "(of_char c :: nat) < 16") (simp_all add: url_hex_def print_digits.simps [of 16 "of_char c"] print_digits.simps [of 16 "of_char c div 16"] Let_def)
qed

lemma decode_hex: "url_decode sp (url_hex c @ t) = c # url_decode sp t"
proof -
  have "(of_char c :: nat) div 16 < 16" using char_code_less [of c] by linarith
  then show ?thesis by (simp add: url_hex_digits xtoi_two)
qed

lemma url_decode_encode: "url_decode sp (url_encode sp s @ t) = s @ url_decode sp t"
proof (induction s)
  case (Cons c s)
  have plus: "url_decode sp (CHR ''+'' # u) = (if sp then CHR '' '' else CHR ''+'') # url_decode sp u" for u by simp
  have space: "url_decode sp (''%20'' @ u) = CHR '' '' # url_decode sp u" for u
    using decode_hex [of sp "CHR '' ''" u] by (simp add: url_hex_digits digit_char_def c_toupper_def char_between_ascii)
  have "url_decode sp (url_encode_char sp c @ u) = c # url_decode sp u" for u
    using space [of u] by (simp add: url_encode_char_def decode_hex) (auto simp: url_reserved_def)
  with Cons show ?case by (simp add: url_encode_def)
qed (simp add: url_encode_def)

lemma url_roundtrip: "url_decode sp (url_encode sp s) = s"
  using url_decode_encode [of sp s "[]"] by simp

lemma url_encode_inj: "url_encode sp s = url_encode sp t \<longleftrightarrow> s = t"
  by (rule iffI, drule arg_cong [where f = "url_decode sp"], simp_all only: url_roundtrip)

text \<open>The characters that keep the parts of a URL apart do not occur in an encoded text.\<close>

abbreviation separators :: "char set" where
  "separators \<equiv> {CHR ''&'', CHR ''='', CHR ''#'', CHR ''?''}"

lemma upper_digit_separator: "d < 16 \<Longrightarrow> upper_digit d \<notin> separators"
  unfolding insert_iff empty_iff using upper_digit_not [of d] by auto

lemma hex_separator: "x \<in> set (url_hex c) \<Longrightarrow> x \<notin> separators"
proof -
  assume x: "x \<in> set (url_hex c)"
  have d: "(of_char c :: nat) div 16 < 16" using char_code_less [of c] by linarith
  from x consider "x = CHR ''%''" | "x = upper_digit (of_char c div 16)" | "x = upper_digit (of_char c mod 16)"
    unfolding url_hex_digits by (auto simp only: list.set insert_iff empty_iff)
  then show ?thesis
  proof cases
    case 2
    show ?thesis unfolding 2 by (rule upper_digit_separator [OF d])
  next
    case 3
    show ?thesis unfolding 3 by (rule upper_digit_separator) simp
  qed simp
qed

lemma separator_reserved: "x \<in> separators \<Longrightarrow> url_reserved x"
  unfolding url_reserved_def by (elim insertE) simp_all

lemma encoded_cases: "url_encode_char sp c = url_hex c \<or> url_encode_char sp c \<in> {''+'', ''%20''} \<or> url_encode_char sp c = [c] \<and> \<not> url_reserved c"
  by (simp add: url_encode_char_def)

lemma encoded_char: "x \<in> set (url_encode_char sp c) \<Longrightarrow> x \<notin> separators"
  using encoded_cases [of sp c] hex_separator [of x c] separator_reserved [of x]
  by (elim disjE conjE insertE emptyE) (simp_all del: insert_iff, auto)

lemma encoded_chars: "x \<in> set (url_encode sp s) \<Longrightarrow> x \<notin> separators"
  unfolding url_encode_def using encoded_char by fastforce

definition encode_param :: "bool \<Rightarrow> string \<times> string \<Rightarrow> string" where
  "encode_param sp p = url_encode sp (fst p) @ ''='' @ url_encode sp (snd p)"

lemma encode_props_join: "url_encode_props sp props = join_with ''&'' (map (encode_param sp) props)"
proof -
  let ?step = "\<lambda>r p. (if r \<noteq> [] then r @ ''&'' else r) @ encode_param sp p"
  have step: "url_encode_props sp props = foldl ?step [] props" for props
    unfolding url_encode_props_def by (intro foldl_cong) (auto simp: encode_param_def)
  have more: "foldl ?step r ps = r @ concat (map (\<lambda>p. CHR ''&'' # encode_param sp p) ps)" if "r \<noteq> []" for r ps
    using that by (induction ps arbitrary: r) simp_all
  have join: "join_with ''&'' (w # ws) = w @ concat (map ((#) CHR ''&'') ws)" for w ws
    by (induction ws arbitrary: w) (simp_all add: join_with_Cons)
  have "encode_param sp p \<noteq> []" for p by (simp add: encode_param_def)
  then show ?thesis unfolding step by (cases props) (simp_all add: more join o_def)
qed

lemma split_joined: "\<forall>w\<in>set ws. d \<notin> set w \<Longrightarrow> ws \<noteq> [] \<Longrightarrow> split (join_with [d] ws) d False 0 = ws"
proof -
  assume ws: "\<forall>w\<in>set ws. d \<notin> set w" "ws \<noteq> []"
  have "split_loop d False 0 i (join_with [d] ws) = ws" for i
    using ws
  proof (induction ws arbitrary: i)
    case (Cons w ws)
    have first: "find_first (\<lambda>c. c = d) (w @ d # r) = Some (length w)" for r
      using Cons.prems(1) by (intro find_first_append) auto
    show ?case
    proof (cases ws)
      case Nil
      have "find_first (\<lambda>c. c = d) w = None" using Cons.prems(1) by (auto simp: find_first_None)
      with Nil show ?thesis by (simp add: join_with_Cons split_loop.simps [of d False 0 i w] split_field_def)
    next
      case (Cons w' ws')
      with Cons.IH [of "i + 1"] Cons.prems first show ?thesis
        by (simp add: join_with_Cons split_loop.simps [of d False 0 i "w @ d # _"] split_field_def)
    qed
  qed simp
  then show ?thesis by (simp add: split_def)
qed

text \<open>The parameters of an encoded list, whose names stay encoded.\<close>

lemma decode_encoded_param:
  "url_decode_param sp acc (encode_param sp p) = (if fst p \<noteq> [] then map_insert (url_encode sp (fst p)) (snd p) acc else acc)"
proof -
  have "\<forall>c\<in>set (url_encode sp (fst p)). c \<noteq> CHR ''=''" using encoded_chars by blast
  then have "find_first (\<lambda>c. c = CHR ''='') (encode_param sp p) = Some (length (url_encode sp (fst p)))"
    by (simp add: encode_param_def find_first_append)
  moreover have "url_encode sp (fst p) = [] \<longleftrightarrow> fst p = []" using url_encode_inj [of sp "fst p" "[]"] by (simp add: url_encode_def)
  ultimately show ?thesis by (simp add: url_decode_param_def encode_param_def url_roundtrip)
qed

lemma decode_encoded_props:
  "url_decode_props sp (url_encode_props sp props) acc =
     foldl (\<lambda>acc p. if fst p \<noteq> [] then map_insert (url_encode sp (fst p)) (snd p) acc else acc) acc props"
proof (cases props)
  case Nil
  have "url_decode_param sp acc [] = acc" by (simp add: url_decode_param_def)
  moreover have "split [] d False 0 = [[]]" for d by (simp add: split_def split_loop.simps split_field_def)
  ultimately show ?thesis using Nil by (simp add: url_decode_props_def url_encode_props_def)
next
  case (Cons p ps)
  have "CHR ''&'' \<notin> set (encode_param sp q)" for q
    using encoded_chars [of "CHR ''&''" sp] by (auto simp: encode_param_def)
  then have "split (url_encode_props sp props) CHR ''&'' False 0 = map (encode_param sp) props"
    using Cons by (simp only: encode_props_join) (rule split_joined, auto)
  then show ?thesis by (simp add: url_decode_props_def foldl_map decode_encoded_param)
qed

lemma encoded_lookup:
  assumes "map_ok acc" "distinct (map fst props)" "name \<noteq> []"
  shows "map_of (foldl (\<lambda>acc p. if fst p \<noteq> [] then map_insert (url_encode sp (fst p)) (snd p) acc else acc) acc props) (url_encode sp name) =
    (case map_of props name of Some v \<Rightarrow> Some v | None \<Rightarrow> map_of acc (url_encode sp name))"
  using assms(1,2)
proof (induction props arbitrary: acc)
  case (Cons p props)
  have "map_of props (fst p) = None" using Cons.prems(2) by (simp add: map_of_eq_None_iff)
  with Cons assms(3) show ?case
    by (cases p) (auto simp: map_insert_ok map_insert_lookup url_encode_inj split: option.split)
qed simp

lemma url_props_lookup:
  "map_ok props \<Longrightarrow> name \<noteq> [] \<Longrightarrow> map_of (url_decode_props sp (url_encode_props sp props) []) (url_encode sp name) = map_of props name"
  using encoded_lookup [of "[]" props name sp]
  by (auto simp: decode_encoded_props map_ok_def strict_sorted_iff split: option.split)

lemma decode_props_ok: "map_ok acc \<Longrightarrow> map_ok (url_decode_props sp s acc)"
proof -
  have "map_ok acc \<Longrightarrow> map_ok (foldl (url_decode_param sp) acc ws)" for ws
    by (induction ws arbitrary: acc) (simp_all add: url_decode_param_def map_insert_ok split: option.split)
  then show "map_ok acc \<Longrightarrow> map_ok (url_decode_props sp s acc)" by (simp add: url_decode_props_def)
qed

section \<open>Parts put together and taken apart\<close>

text \<open>The parts of a URL, empty where there is none, as the children that \<open>url_split\<close> adds.\<close>

record Url_parts =
  u_scheme :: string
  u_user :: string
  u_password :: string
  u_host :: string
  u_port :: string
  u_path :: string
  u_query :: string
  u_fragment :: string

definition part_child :: "string \<Rightarrow> string \<Rightarrow> Element list" where
  "part_child n v = (if v = [] then [] else [new_element n v []])"

definition url_tree :: "Url_parts \<Rightarrow> Element" where
  "url_tree u = Element ''url'' [] []
     (part_child ''scheme'' (u_scheme u) @ part_child ''user'' (u_user u) @ part_child ''password'' (u_password u) @
      part_child ''host'' (u_host u) @ part_child ''port'' (u_port u) @ part_child ''path'' (u_path u) @
      part_child ''query'' (u_query u) @ part_child ''fragment'' (u_fragment u)) 0"

text \<open>
  Parts that can be told apart in the text: a path starts with a slash and comes before every query and fragment, a
  host needs a scheme, a user a host and a password a user; a fragment with a question mark needs a query before it.
\<close>

definition url_ok :: "Url_parts \<Rightarrow> bool" where
  "url_ok u \<longleftrightarrow>
     set (u_scheme u) \<inter> {CHR '':'', CHR ''/''} = {} \<and>
     (u_scheme u = [] \<longrightarrow> u_host u = []) \<and>
     (u_host u = [] \<longrightarrow> u_user u = [] \<and> u_port u = []) \<and>
     (u_host u = [] \<and> u_scheme u \<noteq> [] \<longrightarrow> take 2 (u_path u) \<noteq> ''//'') \<and>
     (u_user u = [] \<longrightarrow> u_password u = []) \<and>
     set (u_user u) \<inter> {CHR '':'', CHR ''@'', CHR ''/''} = {} \<and>
     set (u_password u) \<inter> {CHR ''@'', CHR ''/''} = {} \<and>
     set (u_host u) \<inter> {CHR '':'', CHR ''@'', CHR ''/''} = {} \<and>
     set (u_port u) \<inter> {CHR ''@'', CHR ''/''} = {} \<and>
     (u_path u \<noteq> [] \<longrightarrow> hd (u_path u) = CHR ''/'') \<and> set (u_path u) \<inter> {CHR ''?'', CHR ''#''} = {} \<and>
     (u_path u = [] \<longrightarrow> u_query u = [] \<and> u_fragment u = []) \<and>
     CHR ''#'' \<notin> set (u_query u) \<and> (u_query u = [] \<longrightarrow> CHR ''?'' \<notin> set (u_fragment u))"

text \<open>The text that the parts make.\<close>

definition after_mark :: "string \<Rightarrow> string \<Rightarrow> string" where
  "after_mark c v = (if v \<noteq> [] then c @ v else [])"

definition host_text :: "Url_parts \<Rightarrow> string" where
  "host_text u = (if u_user u \<noteq> [] then u_user u @ after_mark '':'' (u_password u) @ ''@'' else []) @ u_host u @ after_mark '':'' (u_port u)"

definition path_text :: "Url_parts \<Rightarrow> string" where
  "path_text u = u_path u @ after_mark ''?'' (u_query u) @ after_mark ''#'' (u_fragment u)"

definition url_text :: "Url_parts \<Rightarrow> URL" where
  "url_text u = (if u_scheme u \<noteq> [] then u_scheme u @ '':'' @ (if u_host u \<noteq> [] then ''//'' @ host_text u else []) else []) @ path_text u"

text \<open>A part found by its path or by its name is the text of the first child of the name.\<close>

definition part_in :: "Element list \<Rightarrow> string \<Rightarrow> string" where
  "part_in cs n = (case filter (\<lambda>c. el_name c = n) cs of c # _ \<Rightarrow> el_content c | [] \<Rightarrow> [])"

lemma child_text_part: "child_text n e = part_in (el_children e) n"
  by (cases "filter (\<lambda>c. el_name c = n) (el_children e)") (simp_all add: child_text_def get_child_named_def part_in_def)

lemma positions_children: "map ((!) cs) (named_positions n cs) = filter (\<lambda>c. el_name c = n) cs"
  using take_positions [of "length cs" cs n] by (simp add: named_positions_def)

lemma get_value_part:
  assumes n: "set n \<inter> {CHR ''@'', CHR ''/'', CHR ''[''} = {}" "n \<noteq> []" and leaves: "\<forall>c\<in>set (el_children e). el_children c = []"
  shows "get_value n [] e = part_in (el_children e) n"
proof -
  let ?cs = "el_children e"
  have w: "skip_slash n = n" "takeWhile (\<lambda>c. c \<noteq> CHR ''/'') n = n" "dropWhile (\<lambda>c. c \<noteq> CHR ''/'') n = []"
    using n by (cases n, auto simp: skip_slash_def takeWhile_eq_all_conv dropWhile_eq_Nil_conv)+
  have "path_step n = (n, - 1)" using n path_step_plain by simp
  then have els: "get_elements n e = map (\<lambda>i. [i]) (named_positions n ?cs)"
    using n(2) by (subst get_elements.simps) (simp add: w Let_def)
  have at: "rsplit CHR ''@'' n = None" using n by (simp add: rsplit_def)
  show ?thesis
  proof (cases "named_positions n ?cs")
    case Nil
    then show ?thesis using at els positions_children [of ?cs n] by (simp add: get_value_def element_here_def get_element_def part_in_def)
  next
    case (Cons i js)
    then have i: "i < length ?cs" unfolding named_positions_def by (metis (no_types, lifting) atLeastLessThan_iff filter_is_subset list.set_intros(1) set_upt subset_iff)
    then have "get_content (?cs ! i) = el_content (?cs ! i)" using leaves by (simp add: get_content_def)
    moreover from Cons positions_children [of ?cs n] have "filter (\<lambda>c. el_name c = n) ?cs = ?cs ! i # map ((!) ?cs) js" by simp
    ultimately show ?thesis using at els Cons i by (simp add: get_value_def element_here_def get_element_def part_in_def)
  qed
qed

subsection \<open>Taking apart what was put together\<close>

lemma takeWhile_until: "c \<notin> set w \<Longrightarrow> takeWhile (\<lambda>d. d \<noteq> c) (w @ c # r) = w" "c \<notin> set w \<Longrightarrow> takeWhile (\<lambda>d. d \<noteq> c) w = w"
  by (induction w) auto

lemma dropWhile_until: "c \<notin> set w \<Longrightarrow> dropWhile (\<lambda>d. d \<noteq> c) (w @ c # r) = c # r" "c \<notin> set w \<Longrightarrow> dropWhile (\<lambda>d. d \<noteq> c) w = []"
  by (induction w) auto

lemmas until = takeWhile_until dropWhile_until

definition add_parts :: "Element list \<Rightarrow> Element \<Rightarrow> Element" where
  "add_parts cs xml = with_children (el_children xml @ cs) xml"

lemma add_parts_simps:
  "add_text n v xml = add_parts [new_element n v []] xml" "add_parts cs (add_parts cs' xml) = add_parts (cs' @ cs) xml" "add_parts [] xml = xml"
  by (cases xml, simp_all add: add_text_def add_child_def add_parts_def with_children_def)+

lemma add_path_text:
  assumes "url_ok u"
  shows "url_add_path (path_text u) xml = add_parts (part_child ''path'' (u_path u) @ part_child ''query'' (u_query u) @ part_child ''fragment'' (u_fragment u)) xml"
proof (cases "u_path u = []")
  case True
  with assms show ?thesis by (simp add: url_ok_def path_text_def after_mark_def url_add_path_def part_child_def add_parts_simps)
next
  case False
  have ok: "CHR ''?'' \<notin> set (u_path u)" "CHR ''#'' \<notin> set (u_path u)" "CHR ''#'' \<notin> set (u_query u)" "u_query u = [] \<Longrightarrow> CHR ''?'' \<notin> set (u_fragment u)"
    using assms by (auto simp: url_ok_def)
  show ?thesis
    using False ok
    by (cases "u_query u = []"; cases "u_fragment u = []")
      (simp_all add: path_text_def after_mark_def url_add_path_def part_child_def add_parts_simps until)
qed

lemma add_host_text:
  assumes "url_ok u" "u_host u \<noteq> []"
  shows "url_add_host (host_text u) xml =
    add_parts (part_child ''user'' (u_user u) @ part_child ''password'' (u_password u) @ part_child ''host'' (u_host u) @ part_child ''port'' (u_port u)) xml"
proof -
  have ok: "CHR ''@'' \<notin> set (u_user u)" "CHR '':'' \<notin> set (u_user u)" "CHR ''@'' \<notin> set (u_password u)" "CHR '':'' \<notin> set (u_host u)" "CHR ''@'' \<notin> set (u_host u)"
    "CHR ''@'' \<notin> set (u_port u)" "u_user u = [] \<Longrightarrow> u_password u = []"
    using assms(1) by (auto simp: url_ok_def)
  define hp where "hp = u_host u @ after_mark '':'' (u_port u)"
  have hp: "CHR ''@'' \<notin> set hp" using ok by (auto simp: hp_def after_mark_def)
  have host: "(if CHR '':'' \<in> set hp
         then add_text ''port'' (tl (dropWhile (\<lambda>c. c \<noteq> CHR '':'') hp)) (add_text ''host'' (takeWhile (\<lambda>c. c \<noteq> CHR '':'') hp) x)
         else add_text ''host'' hp x) = add_parts (part_child ''host'' (u_host u) @ part_child ''port'' (u_port u)) x" for x
    using ok(4) assms(2) by (simp add: hp_def after_mark_def part_child_def add_parts_simps until)
  define up where "up = u_user u @ after_mark '':'' (u_password u)"
  have up: "CHR ''@'' \<notin> set up" using ok by (auto simp: up_def after_mark_def)
  show ?thesis
  proof (cases "u_user u = []")
    case True
    then have "host_text u = hp" by (simp add: host_text_def hp_def)
    with True ok(7) hp host show ?thesis by (simp add: url_add_host_def part_child_def)
  next
    case False
    then have t: "host_text u = up @ CHR ''@'' # hp" by (simp add: host_text_def hp_def up_def)
    have user: "(if CHR '':'' \<in> set up
        then add_text ''password'' (tl (dropWhile (\<lambda>c. c \<noteq> CHR '':'') up)) (add_text ''user'' (takeWhile (\<lambda>c. c \<noteq> CHR '':'') up) xml)
        else add_text ''user'' up xml) = add_parts (part_child ''user'' (u_user u) @ part_child ''password'' (u_password u)) xml"
      using False ok(2) by (simp add: up_def after_mark_def part_child_def add_parts_simps until)
    show ?thesis unfolding t url_add_host_def by (simp add: until up Let_def host user add_parts_simps)
  qed
qed

lemma from_parts:
  assumes "\<forall>c\<in>set (el_children e). el_children c = []"
    and "part_in (el_children e) ''scheme'' = u_scheme u" "part_in (el_children e) ''host'' = u_host u"
    "part_in (el_children e) ''user'' = u_user u" "part_in (el_children e) ''password'' = u_password u"
    "part_in (el_children e) ''port'' = u_port u" "part_in (el_children e) ''path'' = u_path u"
    "part_in (el_children e) ''query'' = u_query u" "part_in (el_children e) ''fragment'' = u_fragment u"
  shows "url_from_xml e = url_text u"
  using assms(2-) get_value_part [OF _ _ assms(1)]
  by (simp add: url_from_xml_def url_text_def host_text_def path_text_def after_mark_def)

lemma part_in_append: "part_in (part_child n v @ cs) m = (if n = m then (if v = [] then part_in cs m else v) else part_in cs m)"
  by (simp add: part_child_def part_in_def new_element_def)

lemma part_in_single: "part_in (part_child n v) m = (if n = m then v else [])"
  using part_in_append [of n v "[]" m] by (simp add: part_in_def split: if_splits)

lemma tree_parts:
  "part_in (el_children (url_tree u)) ''scheme'' = u_scheme u" "part_in (el_children (url_tree u)) ''host'' = u_host u"
  "part_in (el_children (url_tree u)) ''user'' = u_user u" "part_in (el_children (url_tree u)) ''password'' = u_password u"
  "part_in (el_children (url_tree u)) ''port'' = u_port u" "part_in (el_children (url_tree u)) ''path'' = u_path u"
  "part_in (el_children (url_tree u)) ''query'' = u_query u" "part_in (el_children (url_tree u)) ''fragment'' = u_fragment u"
  by (simp_all add: url_tree_def part_in_append part_in_single)

lemma tree_leaves: "\<forall>c\<in>set (el_children (url_tree u)). el_children c = []"
  by (auto simp: url_tree_def part_child_def new_element_def split: if_splits)

lemma from_tree: "url_from_xml (url_tree u) = url_text u"
  by (intro from_parts tree_leaves tree_parts)

lemma tree_add_parts:
  "url_tree u = add_parts (part_child ''path'' (u_path u) @ part_child ''query'' (u_query u) @ part_child ''fragment'' (u_fragment u))
     (add_parts (part_child ''user'' (u_user u) @ part_child ''password'' (u_password u) @ part_child ''host'' (u_host u) @ part_child ''port'' (u_port u))
       (add_parts (part_child ''scheme'' (u_scheme u)) (new_element ''url'' [] [])))"
  by (simp add: url_tree_def add_parts_def with_children_def new_element_def)

lemma path_text_slash: "url_ok u \<Longrightarrow> path_text u = [] \<or> hd (path_text u) = CHR ''/''"
  by (cases "u_path u") (auto simp: path_text_def url_ok_def after_mark_def)

lemma split_url_text:
  assumes ok: "url_ok u"
  shows "url_split (url_text u) empty_element = (True, url_tree u)"
proof -
  have name: "set_name ''url'' empty_element = new_element ''url'' [] []" by (simp add: set_name_def empty_element_def new_element_def)
  note add_path = add_path_text [OF ok]
  show ?thesis
  proof (cases "u_scheme u = []")
    case True
    then have "u_host u = []" "u_user u = []" "u_port u = []" "u_password u = []" using ok by (auto simp: url_ok_def)
    moreover have "CHR '':'' \<in> set (path_text u) \<Longrightarrow> CHR ''/'' \<in> set (takeWhile (\<lambda>c. c \<noteq> CHR '':'') (path_text u))"
      using path_text_slash [OF ok] by (cases "path_text u") auto
    ultimately show ?thesis
      using True by (auto simp: url_split_def url_text_def name add_path tree_add_parts part_child_def add_parts_simps Let_def)
  next
    case False
    have s: "CHR '':'' \<notin> set (u_scheme u)" "CHR ''/'' \<notin> set (u_scheme u)" using ok by (auto simp: url_ok_def)
    show ?thesis
    proof (cases "u_host u = []")
      case True
      then have "u_user u = []" "u_port u = []" "u_password u = []" "take 2 (u_path u) \<noteq> ''//''" using ok False by (auto simp: url_ok_def)
      moreover have "take 2 (path_text u) \<noteq> ''//''"
        using calculation(4) ok by (cases "u_path u"; cases "tl (u_path u)") (auto simp: path_text_def after_mark_def url_ok_def)
      ultimately show ?thesis
        using True False s
        by (simp add: url_split_def url_text_def name add_path tree_add_parts part_child_def [of "''scheme''"] until Let_def)
          (simp add: part_child_def add_parts_simps)
    next
      case host: False
      have "CHR ''/'' \<notin> set (host_text u)" using ok by (auto simp: url_ok_def host_text_def after_mark_def)
      then have h: "takeWhile (\<lambda>c. c \<noteq> CHR ''/'') (host_text u @ path_text u) = host_text u" "dropWhile (\<lambda>c. c \<noteq> CHR ''/'') (host_text u @ path_text u) = path_text u"
        using path_text_slash [OF ok] by (cases "path_text u"; auto simp: until)+
      have "host_text u \<noteq> []" using host by (simp add: host_text_def)
      with False host s show ?thesis
        by (simp add: url_split_def url_text_def name until Let_def h add_path add_host_text [OF ok host] tree_add_parts)
          (simp add: part_child_def add_parts_simps)
    qed
  qed
qed

theorem url_split_compose:
  assumes "url_ok u"
  shows "url_split (url_from_xml (url_tree u)) empty_element = (True, url_tree u)"
  using split_url_text [OF assms] by (simp add: from_tree)

theorem url_split_compose_witness:
  "url_split ''http://me:pw@h.org:80/a/b?x=1&y=2#top?'' empty_element =
     (True, url_tree \<lparr> u_scheme = ''http'', u_user = ''me'', u_password = ''pw'', u_host = ''h.org'', u_port = ''80'',
        u_path = ''/a/b'', u_query = ''x=1&y=2'', u_fragment = ''top?'' \<rparr>)"
  using url_split_compose [of "\<lparr> u_scheme = ''http'', u_user = ''me'', u_password = ''pw'', u_host = ''h.org'', u_port = ''80'',
        u_path = ''/a/b'', u_query = ''x=1&y=2'', u_fragment = ''top?'' \<rparr>"]
  by (simp add: from_tree url_ok_def url_text_def host_text_def path_text_def after_mark_def)

section \<open>Setting a parameter\<close>

lemma set_child_parts:
  fixes e :: Element
  assumes "\<forall>c\<in>set (el_children e). el_children c = []"
  shows "part_in (el_children (set_child_text n v e)) k = (if k = n then v else part_in (el_children e) k)"
    and "\<forall>c\<in>set (el_children (set_child_text n v e)). el_children c = []"
proof -
  obtain xs c ys where cs: "el_children (snd (make_child n e)) = xs @ c # ys" "el_name c = n" "\<forall>x\<in>set xs. el_name x \<noteq> n"
      "c \<in> set (el_children e) \<or> c = new_element n [] []" "set xs \<union> set ys \<subseteq> set (el_children e)"
      "\<And>k. k \<noteq> n \<Longrightarrow> part_in (xs @ c # ys) k = part_in (el_children e) k"
  proof (cases "\<exists>c\<in>set (el_children e). el_name c = n")
    case True
    then obtain xs c ys where "el_children e = xs @ c # ys" "el_name c = n" "\<forall>x\<in>set xs. el_name x \<noteq> n"
      using split_list_first_prop [of "el_children e" "\<lambda>c. el_name c = n"] by blast
    moreover have "snd (make_child n e) = e" using calculation by (simp add: make_child_def get_child_named_def)
    ultimately show ?thesis using that by auto
  next
    case False
    then have "filter (\<lambda>c. el_name c = n) (el_children e) = []" by (simp add: filter_empty_conv)
    then have "el_children (snd (make_child n e)) = el_children e @ [new_element n [] []]"
      by (simp add: make_child_def get_child_named_def add_child_def with_children_def)
    with False that [of "el_children e" "new_element n [] []" "[]"] show ?thesis
      by (auto simp: new_element_def part_in_def)
  qed
  let ?cs = "xs @ c # ys"
  have "child_position n 0 ?cs = Some (length xs)"
    using position_nth [of "length xs" ?cs n] cs(2,3) by (simp add: filter_empty_conv)
  then have set: "el_children (set_child_text n v e) = xs @ set_content v c # ys"
    using cs(1) by (simp add: set_child_text_def with_children_def Let_def)
  show "part_in (el_children (set_child_text n v e)) k = (if k = n then v else part_in (el_children e) k)"
  proof (cases "k = n")
    case True
    then show ?thesis using cs(2,3) by (simp add: set part_in_def set_content_def filter_empty_conv)
  next
    case False
    then show ?thesis using cs(2) cs(6) [OF False] by (simp add: set part_in_def set_content_def)
  qed
  have "el_children c = []" using cs(4) assms by (auto simp: new_element_def)
  then show "\<forall>c\<in>set (el_children (set_child_text n v e)). el_children c = []"
    using cs(5) assms by (auto simp: set set_content_def)
qed

definition query_value :: "string \<Rightarrow> string \<Rightarrow> string" where
  "query_value q m = (case map_of (url_decode_props True q []) m of Some v \<Rightarrow> v | None \<Rightarrow> [])"

lemma get_parameter_text: "url_ok u \<Longrightarrow> get_query_parameter m (url_text u) = query_value (u_query u) m"
proof -
  assume "url_ok u"
  then have "url_part ''query'' (url_text u) = u_query u" by (simp add: url_part_def split_url_text child_text_part tree_parts)
  moreover have "url_decode_props True [] [] = []" using decode_encoded_props [of True "[]" "[]"] by (simp add: url_encode_props_def)
  ultimately show ?thesis by (simp add: get_query_parameter_def get_query_props_def Let_def query_value_def)
qed

lemma set_parameter_text:
  assumes "url_ok u"
  shows "set_query_parameter name v (url_text u) =
    url_text (u \<lparr> u_query := url_encode_props True (map_insert name v (url_decode_props True (u_query u) [])) \<rparr>)"
proof -
  define q where "q = url_encode_props True (map_insert name v (url_decode_props True (u_query u) []))"
  have "url_from_xml (set_child_text ''query'' q (url_tree u)) = url_text (u \<lparr> u_query := q \<rparr>)"
    by (rule from_parts) (simp_all add: set_child_parts [OF tree_leaves] tree_parts)
  then show ?thesis using assms by (simp add: set_query_parameter_def split_url_text child_text_part tree_parts q_def Let_def)
qed

theorem url_parameter_set_get:
  assumes u: "url_ok u" "u_path u \<noteq> []"
    and plain: "url_encode True name = name" "url_encode True m = m" "m \<noteq> []"
  shows "get_query_parameter m (set_query_parameter name v (url_from_xml (url_tree u))) =
    (if m = name then v else get_query_parameter m (url_from_xml (url_tree u)))"
proof -
  define params where "params = map_insert name v (url_decode_props True (u_query u) [])"
  define u' where "u' = u \<lparr> u_query := url_encode_props True params \<rparr>"
  have "map_ok (url_decode_props True (u_query u) [])" by (rule decode_props_ok) (simp add: map_ok_def)
  then have ok: "map_ok params" "map_of params m = (if m = name then Some v else map_of (url_decode_props True (u_query u) []) m)"
    by (simp_all add: params_def map_insert_ok map_insert_lookup)
  have ne: "params \<noteq> []" using ok(2) map_insert_keys [of name v "url_decode_props True (u_query u) []"] by (auto simp: params_def)
  have "CHR ''#'' \<notin> set (join_with ''&'' (map (encode_param True) ps))" for ps
    by (induction ps) (auto simp: join_with_Cons encode_param_def dest: encoded_chars)
  moreover have "join_with ''&'' (map (encode_param True) params) \<noteq> []"
    using ne by (cases params) (auto simp: join_with_Cons encode_param_def)
  ultimately have "url_ok u'" using u by (simp add: url_ok_def u'_def encode_props_join)
  then have "get_query_parameter m (url_text u') = query_value (url_encode_props True params) m" by (simp add: get_parameter_text u'_def)
  also have "\<dots> = (if m = name then v else query_value (u_query u) m)"
    using url_props_lookup [OF ok(1) plain(3), of True] plain(2) ok(2) by (simp add: query_value_def)
  finally show ?thesis using u(1) by (simp add: from_tree set_parameter_text get_parameter_text u'_def params_def)
qed

theorem url_parameter_set_get_witness:
  "get_query_parameter ''q'' (set_query_parameter ''q'' ''a&b = c'' ''http://h.org/find?lang=en#top'') = ''a&b = c'' \<and>
   get_query_parameter ''lang'' (set_query_parameter ''q'' ''a&b = c'' ''http://h.org/find?lang=en#top'') =
     get_query_parameter ''lang'' ''http://h.org/find?lang=en#top''"
proof -
  let ?u = "\<lparr> u_scheme = ''http'', u_user = [], u_password = [], u_host = ''h.org'', u_port = [], u_path = ''/find'', u_query = ''lang=en'', u_fragment = ''top'' \<rparr>"
  have t: "url_from_xml (url_tree ?u) = ''http://h.org/find?lang=en#top''" by (simp add: from_tree url_text_def host_text_def path_text_def after_mark_def)
  have ok: "url_ok ?u" by (simp add: url_ok_def)
  have plain: "url_encode True ''q'' = ''q''" "url_encode True ''lang'' = ''lang''" by (simp_all add: url_encode_def url_encode_char_def url_reserved_def)
  show ?thesis
    using url_parameter_set_get [OF ok _ plain(1) plain(1), of "''a&b = c''"] url_parameter_set_get [OF ok _ plain(1) plain(2), of "''a&b = c''"]
    by (simp add: t)
qed

text \<open>A name that needs encoding is not found again: names are not decoded.\<close>

lemma encoded_name_lost: "get_query_parameter ''a b'' (set_query_parameter ''a b'' ''1'' ''/x'') = []"
proof -
  let ?u = "\<lparr> u_scheme = [], u_user = [], u_password = [], u_host = [], u_port = [], u_path = ''/x'', u_query = [], u_fragment = [] \<rparr>"
  have "url_ok ?u" "url_text ?u = ''/x''" by (simp_all add: url_ok_def url_text_def path_text_def after_mark_def)
  with set_parameter_text [of ?u "''a b''" "''1''"]
  have s: "set_query_parameter ''a b'' ''1'' ''/x'' = url_text (?u \<lparr> u_query := url_encode_props True [(''a b'', ''1'')] \<rparr>)"
    using decode_encoded_props [of True "[]" "[]"] by (simp add: url_encode_props_def)
  have e: "url_encode_props True [(''a b'', ''1'')] = ''a+b=1''"
    by (simp add: url_encode_props_def url_encode_def url_encode_char_def url_reserved_def)
  have "url_ok (?u \<lparr> u_query := ''a+b=1'' \<rparr>)" by (simp add: url_ok_def)
  from get_parameter_text [OF this, of "''a b''"] show ?thesis
    using decode_encoded_props [of True "[(''a b'', ''1'')]" "[]"]
    by (simp add: s e query_value_def) (simp add: url_encode_def url_encode_char_def url_reserved_def)
qed

end
