(* ===== verification/Spec2Isabelle.thy ===== *)
theory Spec2Isabelle
  imports OT_Prelude Radix Base64 Base58 Bech32 Convert Utf8 Channel Readers Writers Bits
    Fuel Json_Value Cbor Lex Json_Parser Json_Text
    Whitespace Split Range_Set Index_Map Hash_Block Hash_Table Calendar Time_Text Gather Gather_Reader
    Ring Crc Expr Huffman Cache Pattern Xml_Element Xml_Parser Xml_Termination Xml_Types Xml_Roundtrip Xml_Path
    File_Path Web_Mime Web_Url
begin

text \<open>
  ObTools is a set of C++ libraries for Unix servers. This development models the parts of it that
  are computation (text codecs and scanners, binary channels, JSON and CBOR, the lexical analyser,
  containers) as executable functions, translated operation by operation, and proves what makes each
  of them correct.

  \<^bold>\<open>Parts of the program and how they interact.\<close> The text library (libs/text) turns numbers and bytes into
  text and back. The channel library (libs/chan) gives readers and writers of bytes: a generic class
  whose formats rest on one virtual operation, and string, block and limited implementations of it,
  with bit streams on top. The lexical analyser (libs/lex) splits text into tokens; the JSON library
  (libs/json) parses these into values, prints values as text, and encodes them as CBOR through the
  channels, using the Base64 and numeric conversions of the text library. The range set of libs/misc
  keeps sets of offsets and writes them to channels. The hash tables of libs/hash are containers.

  \<^bold>\<open>Conventions.\<close> Machine integers are words of their width where wrap-around or truncation can matter;
  counters that only count the bytes of something in memory are natural numbers. An object is a record
  and an operation that changes it returns it. Exceptions are the left part of a sum, paired with the
  state they leave; \<^verbatim>\<open>false\<close> with an output parameter is an option. A virtual operation, a template's
  helper class, the conversion of floating point numbers and the contents of uninitialised memory are
  arguments of the definitions that depend on them. The C and C++ library functions the code calls are
  modelled as far as it uses them. Locks are left out, since the modelled operations hold theirs from
  start to end.

  \<^bold>\<open>Loops.\<close> Where a loop counts or consumes, it is a recursive function with its termination proof. Where
  its end depends on data the function does not control (the nesting of a text, the links of a table),
  it takes fuel, and running out is the value \<open>None\<close>, distinct from every result: one unit for each byte
  is enough to decode CBOR, one more than the number of characters and pending tokens to parse JSON,
  the size of the table to follow a chain, one unit per range to remove from a range set. These bounds
  are theorems: the properties say that the code returns, not only what it returns when it does.

  \<^bold>\<open>Theories.\<close>

  \<^item> OT_Prelude: words, signed characters, the \<^verbatim>\<open>ctype\<close> tests, list and option lemmas, the collections of
    simplification rules. Fuel: computations with state, errors and fuel, and the calculus that shows
    they have enough.
  \<^item> Radix (base36.cc, base16alpha.cc), Base64 (base64.cc), Base58 (base58.cc), Bech32 (bech32.cc, ot-gen.h),
    Convert (convert.cc), Utf8 (utf8.cc): the codecs; each is shown to decode what it encodes, for every
    configuration the class allows, and the decoders that take foreign text to stay within their
    buffers. The two radix codecs interpret one locale, \<open>radix_codec\<close>.
  \<^item> Whitespace (ws.cc, case.cc), Split (split.cc, subst.cc, csv.cc): words, lines, fields and
    substitution, compared with reference definitions.
  \<^item> Channel (reader.cc, the class \<^verbatim>\<open>Reader\<close> of ot-chan.h): the reader's formats over the virtual read, and
    the locale \<open>channel_reader\<close>, the contract of an implementation. Readers (string-chan.cc, block-chan.cc and
    \<^verbatim>\<open>LimitedReader\<close>): its interpretations; a limited reader keeps the contract whatever reader it wraps.
    Writers (writer.cc, string-chan.cc, block-chan.cc): the writing side, round trips through both, and
    the refinement of the string writer by the block writer. Bits (bits.cc): bit streams.
  \<^item> Lex (lex/analyser.cc), Json_Value (json/value.cc), Json_Parser (json/parser.cc), Json_Text, Cbor
    (cbor-writer.cc, cbor-reader.cc): tokens, values, the parser, and the two round trips of a value, as
    text and as CBOR; parsing and decoding any input ends.
  \<^item> Range_Set (\<^verbatim>\<open>RangeSet\<close> of ot-misc.h, range.cc): insertion, removal, inverse and containment against sets
    of offsets, under an invariant that insertion keeps.
  \<^item> Index_Map, Hash_Block, Hash_Table (ot-hash.h): the locale \<open>index_map\<close> of a map from identifiers to
    indices, the coalesced chains of a block with the invariant of its links, and the two-level table;
    block and table interpret the locale, so every sequence of calls is answered as by a map.
  \<^item> Calendar (libs/time: stamp.cc, split.cc, date-stamp.cc): a time stamp as a 64-bit count of ticks since
    1900, \<open>combine\<close> and \<open>stamp_split\<close> with the source's leap day arithmetic. It counts the days of the civil
    calendar, and splitting inverts combining wherever the year estimate of the code is right.
  \<^item> Time_Text (libs/time): ISO and HTTP forms of stamps, normalising a split time, date intervals. Writing a
    stamp in ISO form and reading it back gives the same second; the days of an interval are those of the calendar.
  \<^item> Gather (libs/gather: segment.cc, buffer.cc): segments that point into an explicit store of memory blocks,
    owned or external, and the buffer built of them. Every reachable buffer is well formed and equals the byte
    string the same operations give.
  \<^item> Gather_Reader (libs/gather: ot-gather.h, reader.cc): iterators and the channel reader over a gather buffer,
    an interpretation of \<open>channel_reader\<close>; all outcomes of a rewind, one of which is not to return.
  \<^item> Ring (libs/ring): the lock-free ring buffer, each access to the shared indices and items a step of one putter
    and one getter thread. In every interleaving it is a bounded queue; flushing from the putter's side is not safe.
  \<^item> Crc (libs/misc: crc.cc, crc32.cc): both checksum classes, tables included. The locale \<open>shift_register\<close> is
    interpreted for the two widths and bit orders: the table computes the bit-serial register, and every
    corruption no longer than the register is noticed.
  \<^item> Expr (libs/expr): tokeniser and recursive descent evaluator, over any arithmetic. Evaluation always ends (fuel
    two more than the length of the text), and the text of an expression evaluates to its value.
  \<^item> Huffman (libs/huffman): values, code trees, the mapping file and the decoder on a bit stream. Decoding on any
    contract reader refines decoding of a list of bits (fuel one more than the bits), and with a prefix free table it
    inverts encoding.
  \<^item> Cache (libs/cache): the evictor caches by value and by pointer, with their policies. A cache never returns stale
    content, the limit is kept, the least recently used entry goes first, and every object of a pointer cache is
    deleted at most once.
  \<^item> Pattern (libs/text: pattern.cc): the glob matcher on C strings, where a read past the terminating NUL is a result
    of its own. It gives what globs mean, backtracking and the skip to the next literal included.
  \<^item> Xml_Element (libs/xml: element.cc, ot-xml.h): the element tree, its attributes, text, searches and changes; a
    pointer into a tree is a place, the list of child positions from the root.
  \<^item> Xml_Parser (libs/xml: parser.cc): the parser on the state of its stream and its stack of open elements. The loops
    over the document, attributes and content have fuel, of which two more than the length of the text are enough:
    Xml_Termination shows that the parser then ends, whatever the text and the flags. Xml_Types shows that every tree it
    accepts is well formed, Xml_Roundtrip that the text of an element parses back to it: a run of the document loop is
    described by what the rest of the run does, so elements are read by induction on the tree.
  \<^item> Xml_Path (libs/xml: xpath.cc): paths find places. The path an element reports finds exactly that element, a value
    set is the value read, and a path made to exist is found.

  \<^bold>\<open>What the theorems show of faults.\<close> Beside the properties, lemmas with concrete inputs record where the
  code does not do what its comments say (the removal of a range that touches another, substitution of
  the empty string, a limited reader that forgets its limit, wrapped bounds checks, numbers lost in
  CBOR and others).

  \<^bold>\<open>Not modelled.\<close> Code whose substance is outside the program: threads and locks (libs/mt), sockets,
  files, processes and logs (libs/net, file, exec, daemon, log), OpenSSL and database wrappers (libs/crypto,
  ssl, db), network services (libs/soap, llm, aws), generators of source code (obcache, tools, libs/xmi,
  cppt, regen) and XMLMesh, which is built on all of these. Floating point conversions are parameters.
  Of the remaining libraries the next in line are Merkle trees, access control and URLs.
\<close>

end
